(* ===== verification/Dodam_Prelude.thy ===== *)
theory Dodam_Prelude
  imports Main "HOL-Library.Word" "HOL-Library.Multiset"
begin

text \<open>
  Shared vocabulary of the development: the Rust types the components use, the parts of the Rust
  standard library they call (slices, checked and saturating integer operations, \<open>Result\<close>), and
  the lemmas about them that the component theories rely on.

  Conventions.  An \<open>i64\<close>, \<open>i128\<close> or \<open>usize\<close> value is an \<open>int\<close> or a \<open>nat\<close>; where the code can
  overflow, the checked, saturating or wrapping operation is written out here with its width.
  Values on which the code works bit by bit (\<open>u64\<close> bitmap words, hash states) are \<open>64 word\<close>.
  A \<open>str\<close> is a \<open>string\<close>.  Reading a slice out of range is \<open>None\<close> (\<open>slice::get\<close>).
\<close>

unbundle bit_operations_syntax

named_theorems rust_defs \<open>definitions of the Rust standard library vocabulary\<close>
named_theorems rust_simps \<open>characteristic equations of that vocabulary\<close>

type_synonym u64 = "64 word"

subsection \<open>Integers\<close>

abbreviation (input) i64_min :: int where "i64_min \<equiv> - (2 ^ 63)"
abbreviation (input) i64_max :: int where "i64_max \<equiv> 2 ^ 63 - 1"
abbreviation (input) u64_max :: nat where "u64_max \<equiv> 2 ^ 64 - 1"
abbreviation (input) u128_max :: nat where "u128_max \<equiv> 2 ^ 128 - 1"

text \<open>An \<open>i64\<close> key, and \<open>usize::try_from\<close> on it: every nonnegative \<open>i64\<close> is a \<open>usize\<close>.\<close>

definition is_i64 :: "int \<Rightarrow> bool" where
  "is_i64 k \<longleftrightarrow> i64_min \<le> k \<and> k \<le> i64_max"

definition usize_try_from :: "int \<Rightarrow> nat option" where
  "usize_try_from k = (if 0 \<le> k then Some (nat k) else None)"

text \<open>\<open>checked_add\<close> and \<open>checked_sub\<close> on \<open>i64\<close>: \<open>None\<close> when the exact result does not fit.\<close>

definition i64_checked :: "int \<Rightarrow> int option" where
  "i64_checked x = (if is_i64 x then Some x else None)"

text \<open>\<open>checked_add\<close> and \<open>checked_mul\<close> on \<open>usize\<close> (64 bits).\<close>

definition usize_checked :: "nat \<Rightarrow> nat option" where
  "usize_checked x = (if x \<le> u64_max then Some x else None)"

text \<open>Saturating operations on \<open>u128\<close>, \<open>u64\<close> and \<open>usize\<close>.\<close>

definition u128_sat :: "nat \<Rightarrow> nat" where
  "u128_sat x = min x u128_max"

definition u64_sat :: "nat \<Rightarrow> nat" where
  "u64_sat x = min x u64_max"

definition div_ceil :: "nat \<Rightarrow> nat \<Rightarrow> nat" where
  "div_ceil a b = (a + (b - 1)) div b"

definition clamp_nat :: "nat \<Rightarrow> nat \<Rightarrow> nat \<Rightarrow> nat" where
  "clamp_nat lo hi x = (if x < lo then lo else if x > hi then hi else x)"

lemmas [rust_defs] = is_i64_def usize_try_from_def i64_checked_def usize_checked_def
  u128_sat_def u64_sat_def div_ceil_def clamp_nat_def

lemma usize_try_from_eq_Some [rust_simps]:
  "usize_try_from k = Some i \<longleftrightarrow> 0 \<le> k \<and> i = nat k"
  by (auto simp: usize_try_from_def)

lemma usize_try_from_eq_None [rust_simps]: "usize_try_from k = None \<longleftrightarrow> k < 0"
  by (simp add: usize_try_from_def)

lemma usize_try_from_of_nat [simp]: "usize_try_from (int i) = Some i"
  by (simp add: usize_try_from_def)

lemma mem_int_image [rust_simps]: "k \<in> int ` S \<longleftrightarrow> 0 \<le> k \<and> nat k \<in> S"
proof
  assume "0 \<le> k \<and> nat k \<in> S"
  then have "k = int (nat k)" "nat k \<in> S" by auto
  then show "k \<in> int ` S" by (rule image_eqI)
qed auto

lemma i64_checked_eq_Some [rust_simps]: "i64_checked x = Some y \<longleftrightarrow> y = x \<and> is_i64 x"
  by (auto simp: i64_checked_def)

lemma usize_checked_eq_Some [rust_simps]:
  "usize_checked x = Some y \<longleftrightarrow> y = x \<and> x \<le> u64_max"
  by (auto simp: usize_checked_def)

lemma u128_sat_mono: "x \<le> y \<Longrightarrow> u128_sat x \<le> u128_sat y"
  by (simp add: u128_sat_def min_le_iff_disj)

lemma u128_sat_le [simp]: "u128_sat x \<le> x"
  by (simp add: u128_sat_def)

lemma u128_sat_bound: "u128_sat x \<le> u128_max"
  by (simp add: u128_sat_def)

lemma u128_sat_id: "x \<le> u128_max \<Longrightarrow> u128_sat x = x"
  by (simp add: u128_sat_def)

lemma u128_sat_add_ge: "x \<le> u128_max \<Longrightarrow> x \<le> u128_sat (x + y)"
  by (simp add: u128_sat_def)

subsection \<open>Slices and vectors\<close>

definition vec_get :: "'a list \<Rightarrow> nat \<Rightarrow> 'a option" where
  "vec_get xs i = (if i < length xs then Some (xs ! i) else None)"

definition vec_resize :: "nat \<Rightarrow> 'a \<Rightarrow> 'a list \<Rightarrow> 'a list" where
  "vec_resize n v xs = take n xs @ replicate (n - length xs) v"

text \<open>\<open>iter().position\<close> and \<open>iter().rposition\<close>.\<close>

fun position :: "('a \<Rightarrow> bool) \<Rightarrow> 'a list \<Rightarrow> nat option" where
  "position p [] = None"
| "position p (x # xs) = (if p x then Some 0 else map_option Suc (position p xs))"

fun rposition :: "('a \<Rightarrow> bool) \<Rightarrow> 'a list \<Rightarrow> nat option" where
  "rposition p [] = None"
| "rposition p (x # xs) =
     (case rposition p xs of Some i \<Rightarrow> Some (Suc i) | None \<Rightarrow> if p x then Some 0 else None)"

lemma vec_get_eq_Some [rust_simps]:
  "vec_get xs i = Some x \<longleftrightarrow> i < length xs \<and> x = xs ! i"
  by (auto simp: vec_get_def)

lemma vec_get_eq_None [rust_simps]: "vec_get xs i = None \<longleftrightarrow> length xs \<le> i"
  by (auto simp: vec_get_def)

lemma length_vec_resize [simp]: "length (vec_resize n v xs) = n"
  by (simp add: vec_resize_def)

lemma nth_vec_resize:
  "i < n \<Longrightarrow> vec_resize n v xs ! i = (if i < length xs then xs ! i else v)"
  by (auto simp: vec_resize_def nth_append)

lemma set_vec_resize_grow: "length xs \<le> n \<Longrightarrow> set (vec_resize n v xs) \<subseteq> insert v (set xs)"
  by (auto simp: vec_resize_def)

lemma filter_vec_resize:
  "\<not> p v \<Longrightarrow> length xs \<le> n \<Longrightarrow> filter p (vec_resize n v xs) = filter p xs"
  by (simp add: vec_resize_def)

lemma position_eq_None: "position p xs = None \<longleftrightarrow> (\<forall>x \<in> set xs. \<not> p x)"
  by (induction xs) auto

lemma position_SomeD:
  "position p xs = Some i \<Longrightarrow> i < length xs \<and> p (xs ! i) \<and> (\<forall>j < i. \<not> p (xs ! j))"
  by (induction xs arbitrary: i) (auto simp: less_Suc_eq_0_disj split: if_splits)

lemma rposition_eq_None: "rposition p xs = None \<longleftrightarrow> (\<forall>x \<in> set xs. \<not> p x)"
  by (induction xs) (auto split: option.splits)

lemma rposition_SomeD:
  "rposition p xs = Some i \<Longrightarrow>
     i < length xs \<and> p (xs ! i) \<and> (\<forall>j < length xs. i < j \<longrightarrow> \<not> p (xs ! j))"
proof (induction xs arbitrary: i)
  case Nil
  then show ?case by simp
next
  case (Cons x xs)
  show ?case
  proof (cases "rposition p xs")
    case None
    then have "\<forall>y \<in> set xs. \<not> p y" by (simp add: rposition_eq_None)
    with None Cons.prems show ?thesis by (auto simp: nth_Cons split: if_splits nat.splits)
  next
    case (Some k)
    with Cons.prems Cons.IH [OF Some] show ?thesis by (auto simp: nth_Cons split: nat.splits)
  qed
qed

subsection \<open>Maps\<close>

text \<open>Folding updates: the pair processed first is the last one \<open>map_of (rev _)\<close> sees.\<close>

lemma map_upd_then_rev:
  "f(k \<mapsto> v) ++ map_of (rev kvs) = f ++ map_of (rev ((k, v) # kvs))"
  by (auto simp: fun_eq_iff map_add_def split: option.splits)

lemma map_of_rev_distinct: "distinct (map fst kvs) \<Longrightarrow> map_of (rev kvs) = map_of kvs"
  by (induction kvs) (auto simp: fun_eq_iff map_add_def rev_image_eqI split: option.splits
      dest: map_of_SomeD)

subsection \<open>Results\<close>

text \<open>The \<open>?\<close> operator on \<open>Result\<close>.\<close>

definition try_bind :: "'e + 'a \<Rightarrow> ('a \<Rightarrow> 'e + 'b) \<Rightarrow> 'e + 'b" where
  "try_bind r f = (case r of Inl e \<Rightarrow> Inl e | Inr x \<Rightarrow> f x)"

lemma try_bind_simps [simp]:
  "try_bind (Inl e) f = Inl e"
  "try_bind (Inr x) f = f x"
  by (simp_all add: try_bind_def)

lemma try_bind_cong [fundef_cong]:
  "r = r' \<Longrightarrow> (\<And>x. r' = Inr x \<Longrightarrow> f x = f' x) \<Longrightarrow> try_bind r f = try_bind r' f'"
  by (cases r') auto

lemma try_bind_eq_Inr [rust_simps]:
  "try_bind r f = Inr y \<longleftrightarrow> (\<exists>x. r = Inr x \<and> f x = Inr y)"
  by (cases r) auto

lemma try_bind_eq_Inl [rust_simps]:
  "try_bind r f = Inl e \<longleftrightarrow> r = Inl e \<or> (\<exists>x. r = Inr x \<and> f x = Inl e)"
  by (cases r) auto

text \<open>A \<open>for\<close> loop whose body may fail, threading a state.\<close>

fun fold_try :: "('a \<Rightarrow> 's \<Rightarrow> 'e + 's) \<Rightarrow> 'a list \<Rightarrow> 's \<Rightarrow> 'e + 's" where
  "fold_try f [] s = Inr s"
| "fold_try f (x # xs) s = try_bind (f x s) (fold_try f xs)"

lemma fold_try_append: "fold_try f (xs @ ys) s = try_bind (fold_try f xs s) (fold_try f ys)"
  by (induction xs arbitrary: s) (auto simp: try_bind_def split: sum.splits)

text \<open>A loop whose body keeps an invariant and never fails under it.\<close>

lemma fold_try_invariant:
  assumes "P s" "\<And>x s. x \<in> set xs \<Longrightarrow> P s \<Longrightarrow> \<exists>s'. f x s = Inr s' \<and> P s'"
  shows "\<exists>s'. fold_try f xs s = Inr s' \<and> P s'"
  using assms
proof (induction xs arbitrary: s)
  case (Cons x xs)
  then obtain s1 where "f x s = Inr s1" "P s1" by (metis list.set_intros(1))
  with Cons.IH [of s1] Cons.prems(2) show ?case by auto
qed simp

text \<open>\<open>collect::<Result<Vec<_>>>\<close>: the first error wins.\<close>

fun map_try :: "('a \<Rightarrow> 'e + 'b) \<Rightarrow> 'a list \<Rightarrow> 'e + 'b list" where
  "map_try f [] = Inr []"
| "map_try f (x # xs) = try_bind (f x) (\<lambda>y. try_bind (map_try f xs) (\<lambda>ys. Inr (y # ys)))"

lemma map_try_Inr: "(\<And>x. x \<in> set xs \<Longrightarrow> f x = Inr (g x)) \<Longrightarrow> map_try f xs = Inr (map g xs)"
  by (induction xs) simp_all

lemma map_try_cong [fundef_cong]:
  "xs = ys \<Longrightarrow> (\<And>x. x \<in> set ys \<Longrightarrow> f x = g x) \<Longrightarrow> map_try f xs = map_try g ys"
  by (induction ys arbitrary: xs) auto

end
