(* ===== verification/Hashing.thy ===== *)
theory Hashing
  imports Dodam_Prelude
begin

text \<open>
  The hash function of the engine's hash maps and sets (\<open>hash.rs\<close>): \<open>FastHasher\<close> keeps one
  \<open>u64\<close>; byte strings are folded with FNV-1a, integers with a 64-bit finalizer.  The integer path
  is a bijection of the state, so two different integer keys never share a hash.
\<close>

record fast_hasher =
  hash :: u64

definition fast_hasher_default :: fast_hasher where
  "fast_hasher_default = \<lparr>hash = 0\<rparr>"

definition finish :: "fast_hasher \<Rightarrow> u64" where
  "finish h = hash h"

definition write_byte :: "8 word \<Rightarrow> u64 \<Rightarrow> u64" where
  "write_byte b h = (h XOR ucast b) * 0x100000001b3"

definition write_bytes :: "8 word list \<Rightarrow> fast_hasher \<Rightarrow> fast_hasher" where
  "write_bytes bytes h = h\<lparr>hash := fold write_byte bytes (hash h XOR 0xcbf29ce484222325)\<rparr>"

definition write_u64 :: "u64 \<Rightarrow> fast_hasher \<Rightarrow> fast_hasher" where
  "write_u64 value h =
     (let x = hash h XOR value;
          x = x XOR drop_bit 33 x;
          x = x * 0xff51afd7ed558ccd;
          x = x XOR drop_bit 33 x;
          x = x * 0xc4ceb9fe1a85ec53;
          x = x XOR drop_bit 33 x
      in h\<lparr>hash := x\<rparr>)"

text \<open>\<open>value as u32 as u64\<close>: reinterpretation of the sign, then zero extension.\<close>

definition write_i32 :: "32 word \<Rightarrow> fast_hasher \<Rightarrow> fast_hasher" where
  "write_i32 value = write_u64 (ucast value)"

definition write_u32 :: "32 word \<Rightarrow> fast_hasher \<Rightarrow> fast_hasher" where
  "write_u32 value = write_u64 (ucast value)"

definition write_i64 :: "64 word \<Rightarrow> fast_hasher \<Rightarrow> fast_hasher" where
  "write_i64 value = write_u64 value"

definition write_usize :: "64 word \<Rightarrow> fast_hasher \<Rightarrow> fast_hasher" where
  "write_usize value = write_u64 value"

subsection \<open>The finalizer is a bijection\<close>

definition xor_shift :: "u64 \<Rightarrow> u64" where
  "xor_shift x = x XOR drop_bit 33 x"

lemma xor_shift_involution [simp]: "xor_shift (xor_shift x) = x"
  by (rule bit_eqI) (auto simp: xor_shift_def bit_xor_iff bit_drop_bit_eq)

lemma inj_xor_shift: "xor_shift x = xor_shift y \<longleftrightarrow> x = y"
proof
  assume "xor_shift x = xor_shift y"
  then have "xor_shift (xor_shift x) = xor_shift (xor_shift y)" by simp
  then show "x = y" by simp
qed simp

lemma inj_mult_unit: "c' * c = (1 :: u64) \<Longrightarrow> (x * c = y * c) \<longleftrightarrow> x = y"
proof
  assume c: "c' * c = 1" and eq: "x * c = y * c"
  have "c' * c * x = c' * (x * c)" by (simp only: mult_ac)
  also have "\<dots> = c' * (y * c)" by (simp only: eq)
  also have "\<dots> = c' * c * y" by (simp only: mult_ac)
  finally show "x = y" by (simp add: c)
qed simp

lemma inj_mult_first: "x * (0xff51afd7ed558ccd :: u64) = y * 0xff51afd7ed558ccd \<longleftrightarrow> x = y"
  by (rule inj_mult_unit [of "0x4f74430c22a54005"]) simp

lemma inj_mult_second: "x * (0xc4ceb9fe1a85ec53 :: u64) = y * 0xc4ceb9fe1a85ec53 \<longleftrightarrow> x = y"
  by (rule inj_mult_unit [of "0x9cb4b2f8129337db"]) simp

lemma xor_left_cancel: "(a :: u64) XOR x = a XOR y \<longleftrightarrow> x = y"
proof
  assume "a XOR x = a XOR y"
  then have "a XOR (a XOR x) = a XOR (a XOR y)" by simp
  then show "x = y" by (simp add: xor.assoc [symmetric])
qed simp

lemma hash_write_u64:
  "hash (write_u64 v h) =
     xor_shift (xor_shift (xor_shift (hash h XOR v) * 0xff51afd7ed558ccd) * 0xc4ceb9fe1a85ec53)"
  by (simp add: write_u64_def Let_def xor_shift_def)

lemma write_u64_inj: "hash (write_u64 v h) = hash (write_u64 w h) \<longleftrightarrow> v = w"
  by (simp only: hash_write_u64 inj_xor_shift inj_mult_first inj_mult_second xor_left_cancel)

lemma ucast_32_64_inj: "(ucast (v :: 32 word) :: u64) = ucast w \<longleftrightarrow> v = w"
proof
  assume eq: "(ucast v :: u64) = ucast w"
  show "v = w"
  proof (rule bit_word_eqI)
    fix n assume "n < LENGTH(32)"
    then show "bit v n = bit w n" using arg_cong [OF eq, of "\<lambda>x. bit x n"] by (simp add: bit_ucast_iff)
  qed
qed simp

subsection \<open>Properties\<close>

text \<open>
  Hashing two different integer keys of the same width from the same hasher state never
  collides: the integer paths of \<open>FastHasher\<close> are injective.
\<close>

theorem integer_keys_do_not_collide:
  "(finish (write_u64 v h) = finish (write_u64 w h) \<longleftrightarrow> v = w) \<and>
   (finish (write_i64 v h) = finish (write_i64 w h) \<longleftrightarrow> v = w) \<and>
   (finish (write_usize v h) = finish (write_usize w h) \<longleftrightarrow> v = w) \<and>
   (finish (write_i32 x h) = finish (write_i32 y h) \<longleftrightarrow> x = y) \<and>
   (finish (write_u32 x h) = finish (write_u32 y h) \<longleftrightarrow> x = y)"
  by (simp only: finish_def write_i64_def write_usize_def write_i32_def write_u32_def write_u64_inj
      ucast_32_64_inj simp_thms)

end
