(* ===== verification/Dense_Bits.thy ===== *)
theory Dense_Bits
  imports Dodam_Prelude
begin

text \<open>
  The bitmaps of \<open>dense.rs\<close>: vectors of \<open>u64\<close> words in which bit \<open>i mod 64\<close> of word \<open>i div 64\<close>
  records key \<open>i\<close>, the bound below which a key is kept densely, the key range a join may push
  down, and the stand-alone probe \<open>DenseI64Probe\<close>.
\<close>

named_theorems bitmap_simps \<open>effect of the word operations on the represented bits\<close>

subsection \<open>Definitions\<close>

abbreviation (input) DEFAULT_MAX_DENSE_I64_KEY :: nat where
  "DEFAULT_MAX_DENSE_I64_KEY \<equiv> 20000000"

definition DEFAULT_MAX_DENSE_I64_SET_BYTES :: nat where
  "DEFAULT_MAX_DENSE_I64_SET_BYTES = 16 * 1024 * 1024"

text \<open>
  The argument is the value of \<open>DODAM_DENSE_I64_SET_BYTES\<close> parsed as a \<open>usize\<close>, \<open>None\<close> when the
  variable is unset or does not parse.
\<close>

definition default_max_dense_i64_set_key :: "nat option \<Rightarrow> nat" where
  "default_max_dense_i64_set_key env =
     (let max_bytes = (case env of Some value \<Rightarrow> if value > 0 then value
                                                 else DEFAULT_MAX_DENSE_I64_SET_BYTES
                                 | None \<Rightarrow> DEFAULT_MAX_DENSE_I64_SET_BYTES)
      in u64_sat (max_bytes * 4) - 1)"

definition adaptive_dense_index :: "int \<Rightarrow> nat \<Rightarrow> nat option" where
  "adaptive_dense_index key max_dense_key =
     (case usize_try_from key of
        None \<Rightarrow> None
      | Some index \<Rightarrow> if index \<le> max_dense_key then Some index else None)"

definition selective_i64_range :: "int \<Rightarrow> int \<Rightarrow> nat \<Rightarrow> (int \<times> int) option" where
  "selective_i64_range min_key max_key len =
     (if len = 0 \<or> min_key < 0 \<or> max_key < min_key then None
      else case Option.bind (Option.bind (i64_checked (max_key - min_key)) (\<lambda>d. i64_checked (d + 1)))
                            usize_try_from of
             None \<Rightarrow> None
           | Some width \<Rightarrow>
               if width \<le> max (u64_sat (len * 8)) 1024 then Some (min_key, max_key) else None)"

text \<open>\<open>words[index / 64] |= 1_u64 << (index % 64)\<close>.\<close>

definition set_word_bit :: "nat \<Rightarrow> u64 list \<Rightarrow> u64 list" where
  "set_word_bit index words =
     words[index div 64 := words ! (index div 64) OR push_bit (index mod 64) 1]"

text \<open>\<open>((word >> (index % 64)) & 1) != 0\<close>.\<close>

definition word_bit_is_set :: "nat \<Rightarrow> u64 \<Rightarrow> bool" where
  "word_bit_is_set index word \<longleftrightarrow> drop_bit (index mod 64) word AND 1 \<noteq> 0"

definition adaptive_i64_words_contains :: "u64 list \<Rightarrow> int \<Rightarrow> bool" where
  "adaptive_i64_words_contains words key =
     (case usize_try_from key of
        None \<Rightarrow> False
      | Some index \<Rightarrow> (case vec_get words (index div 64) of
                         None \<Rightarrow> False
                       | Some word \<Rightarrow> word_bit_is_set index word))"

fun set_bits_from :: "nat \<Rightarrow> bool list \<Rightarrow> u64 list \<Rightarrow> u64 list" where
  "set_bits_from index [] words = words"
| "set_bits_from index (present # rest) words =
     set_bits_from (Suc index) rest (if present then set_word_bit index words else words)"

definition adaptive_i64_set_words_from_contains :: "bool list \<Rightarrow> u64 list" where
  "adaptive_i64_set_words_from_contains contains =
     set_bits_from 0 contains (replicate (div_ceil (length contains) 64) 0)"

record dense_i64_probe =
  probe_words :: "u64 list"

fun probe_insert_keys :: "nat \<Rightarrow> int list \<Rightarrow> u64 list \<Rightarrow> u64 list option" where
  "probe_insert_keys max_key [] words = Some words"
| "probe_insert_keys max_key (key # keys) words =
     (case usize_try_from key of
        None \<Rightarrow> None
      | Some index \<Rightarrow>
          if index > max_key then None
          else probe_insert_keys max_key keys (set_word_bit index words))"

definition from_keys_with_max_key :: "int list \<Rightarrow> nat \<Rightarrow> dense_i64_probe option" where
  "from_keys_with_max_key keys max_key =
     map_option (\<lambda>words. \<lparr>probe_words = words\<rparr>)
       (probe_insert_keys max_key keys (replicate (div_ceil (max_key + 1) 64) 0))"

definition probe_contains :: "dense_i64_probe \<Rightarrow> int \<Rightarrow> bool" where
  "probe_contains probe key = adaptive_i64_words_contains (probe_words probe) key"

subsection \<open>The set of bits a word vector represents\<close>

definition bitmap :: "u64 list \<Rightarrow> nat set" where
  "bitmap words = {i. i div 64 < length words \<and> bit (words ! (i div 64)) (i mod 64)}"

lemma word_bit_is_set_iff [simp, bitmap_simps]: "word_bit_is_set i w \<longleftrightarrow> bit w (i mod 64)"
proof -
  have "drop_bit (i mod 64) w AND 1 = of_bool (odd (drop_bit (i mod 64) w))"
    by (simp add: and_one_eq mod_2_eq_odd)
  then show ?thesis by (simp add: word_bit_is_set_def bit_iff_odd_drop_bit)
qed

lemma words_contains_iff [bitmap_simps]:
  "adaptive_i64_words_contains words key \<longleftrightarrow> 0 \<le> key \<and> nat key \<in> bitmap words"
  by (auto simp: adaptive_i64_words_contains_def bitmap_def rust_simps split: option.splits)

lemma length_set_word_bit [simp]: "length (set_word_bit i words) = length words"
  by (simp add: set_word_bit_def)

lemma bitmap_set_word_bit [bitmap_simps]:
  assumes "i div 64 < length words"
  shows "bitmap (set_word_bit i words) = insert i (bitmap words)"
proof -
  have "bit (push_bit (i mod 64) 1 :: u64) (j mod 64) \<longleftrightarrow> j mod 64 = i mod 64" for j
    by (auto simp: push_bit_eq_mult bit_exp_iff)
  moreover have "j = i" if "j div 64 = i div 64" "j mod 64 = i mod 64" for j
    using that by (metis div_mult_mod_eq)
  ultimately show ?thesis using assms
    by (auto simp: bitmap_def set_word_bit_def nth_list_update bit_or_iff)
qed

lemma bitmap_replicate_0 [simp, bitmap_simps]: "bitmap (replicate n 0) = {}"
  by (auto simp: bitmap_def)

lemma bitmap_vec_resize [bitmap_simps]:
  "length words \<le> n \<Longrightarrow> bitmap (vec_resize n 0 words) = bitmap words"
  by (auto simp: bitmap_def nth_vec_resize split: if_splits)

lemma bitmap_Nil [simp]: "bitmap [] = {}"
  by (simp add: bitmap_def)

lemma div_ceil_64_bound: "i < n \<Longrightarrow> i div 64 < div_ceil n 64"
  by (simp add: div_ceil_def)

lemma div_ceil_64_Suc: "div_ceil (Suc i) 64 = i div 64 + 1"
  by (simp add: div_ceil_def)

lemma div_ceil_64_mono: "m \<le> n \<Longrightarrow> div_ceil m 64 \<le> div_ceil n 64"
  by (simp add: div_ceil_def div_le_mono)

lemma bitmap_set_bits_from:
  assumes "\<forall>i < length contains. (k + i) div 64 < length words"
  shows "length (set_bits_from k contains words) = length words"
    and "bitmap (set_bits_from k contains words) =
           bitmap words \<union> {k + i | i. i < length contains \<and> contains ! i}"
proof -
  have "length (set_bits_from k contains words) = length words \<and>
      bitmap (set_bits_from k contains words) =
        bitmap words \<union> {k + i | i. i < length contains \<and> contains ! i}"
    using assms
  proof (induction contains arbitrary: k words)
    case Nil
    then show ?case by simp
  next
    case (Cons c contains)
    let ?words = "if c then set_word_bit k words else words"
    have k: "k div 64 < length words" using Cons.prems by force
    have "\<forall>i < length contains. (Suc k + i) div 64 < length ?words"
    proof (intro allI impI)
      fix i assume "i < length contains"
      then show "(Suc k + i) div 64 < length ?words" using Cons.prems by (auto dest: spec [of _ "Suc i"])
    qed
    note IH = Cons.IH [OF this]
    have "{k + i | i. i < length (c # contains) \<and> (c # contains) ! i} =
        (if c then {k} else {}) \<union> {Suc k + i | i. i < length contains \<and> contains ! i}"
      by (auto simp: less_Suc_eq_0_disj)
    with IH k show ?case by (auto simp: bitmap_set_word_bit)
  qed
  then show "length (set_bits_from k contains words) = length words"
    and "bitmap (set_bits_from k contains words) =
           bitmap words \<union> {k + i | i. i < length contains \<and> contains ! i}" by auto
qed

lemma bitmap_words_from_contains [bitmap_simps]:
  "bitmap (adaptive_i64_set_words_from_contains contains) =
     {i. i < length contains \<and> contains ! i}"
  using bitmap_set_bits_from(2) [of contains 0 "replicate (div_ceil (length contains) 64) 0"]
  by (simp add: adaptive_i64_set_words_from_contains_def div_ceil_64_bound)

lemma length_words_from_contains [simp]:
  "length (adaptive_i64_set_words_from_contains contains) = div_ceil (length contains) 64"
  using bitmap_set_bits_from(1) [of contains 0 "replicate (div_ceil (length contains) 64) 0"]
  by (simp add: adaptive_i64_set_words_from_contains_def div_ceil_64_bound)

subsection \<open>Dense indexes, key ranges, the probe\<close>

lemma adaptive_dense_index_eq_Some [rust_simps]:
  "adaptive_dense_index key m = Some i \<longleftrightarrow> 0 \<le> key \<and> i = nat key \<and> nat key \<le> m"
  by (auto simp: adaptive_dense_index_def rust_simps split: option.splits)

lemma adaptive_dense_index_eq_None [rust_simps]:
  "adaptive_dense_index key m = None \<longleftrightarrow> key < 0 \<or> m < nat key"
  by (auto simp: adaptive_dense_index_def usize_try_from_def split: option.splits)

lemma selective_i64_range_SomeD:
  assumes "selective_i64_range a b n = Some r"
  shows "r = (a, b) \<and> 0 \<le> a \<and> a \<le> b \<and> 0 < n \<and> nat (b - a + 1) \<le> max (u64_sat (n * 8)) 1024"
  using assms
  by (auto simp: selective_i64_range_def rust_simps Option.bind_eq_Some_conv split: if_splits option.splits)

lemma selective_i64_range_exact:
  assumes "0 < n" "0 \<le> a" "a \<le> b" "b < i64_max" "nat (b - a + 1) \<le> max (u64_sat (n * 8)) 1024"
  shows "selective_i64_range a b n = Some (a, b)"
proof -
  have "i64_checked (b - a) = Some (b - a)" and "i64_checked (b - a + 1) = Some (b - a + 1)"
    using assms by (auto simp: is_i64_def rust_simps)
  moreover have "usize_try_from (b - a + 1) = Some (nat (b - a + 1))" using assms by (simp add: rust_simps)
  ultimately show ?thesis using assms by (simp add: selective_i64_range_def)
qed

lemma probe_insert_keys_SomeD:
  "probe_insert_keys m keys words = Some words' \<Longrightarrow> m div 64 < length words \<Longrightarrow>
     bitmap words' = bitmap words \<union> nat ` set keys \<and> (\<forall>k \<in> set keys. 0 \<le> k \<and> nat k \<le> m)"
proof (induction keys arbitrary: words)
  case Nil
  then show ?case by simp
next
  case (Cons k keys)
  then have k: "0 \<le> k" "nat k \<le> m"
    and rec: "probe_insert_keys m keys (set_word_bit (nat k) words) = Some words'"
    by (auto simp: rust_simps split: option.splits if_splits)
  from k Cons.prems(2) have "nat k div 64 < length words"
    by (meson div_le_mono le_less_trans)
  with Cons.IH [OF rec] Cons.prems(2) k show ?case by (auto simp: bitmap_set_word_bit)
qed

lemma probe_insert_keys_None_iff:
  "probe_insert_keys m keys words = None \<longleftrightarrow> (\<exists>k \<in> set keys. k < 0 \<or> m < nat k)"
  by (induction keys arbitrary: words) (auto simp: usize_try_from_def split: option.splits)

subsection \<open>Properties\<close>

text \<open>
  \<open>DenseI64Probe::from_keys_with_max_key\<close> succeeds exactly on keys between 0 and the given
  bound, and the probe then answers membership in the key list.
\<close>

theorem probe_answers_membership:
  "case from_keys_with_max_key keys max_key of
     None \<Rightarrow> \<exists>k \<in> set keys. k < 0 \<or> int max_key < k
   | Some probe \<Rightarrow> (\<forall>k \<in> set keys. 0 \<le> k \<and> k \<le> int max_key) \<and>
       (\<forall>k. probe_contains probe k = (k \<in> set keys))"
proof (cases "from_keys_with_max_key keys max_key")
  case None
  then have "probe_insert_keys max_key keys (replicate (div_ceil (max_key + 1) 64) 0) = None"
    by (simp add: from_keys_with_max_key_def)
  then have "\<exists>k \<in> set keys. k < 0 \<or> int max_key < k"
    unfolding probe_insert_keys_None_iff by (auto simp: zless_nat_eq_int_zless)
  with None show ?thesis by simp
next
  case (Some probe)
  then obtain words where w: "probe_insert_keys max_key keys (replicate (div_ceil (max_key + 1) 64) 0) = Some words"
    and p: "probe = \<lparr>probe_words = words\<rparr>"
    by (auto simp: from_keys_with_max_key_def)
  have rng: "\<forall>k \<in> set keys. 0 \<le> k \<and> nat k \<le> max_key" and b: "bitmap words = nat ` set keys"
    using probe_insert_keys_SomeD [OF w] by (simp_all add: div_ceil_64_bound)
  have "0 \<le> k \<and> nat k \<in> nat ` set keys \<longleftrightarrow> k \<in> set keys" for k
    using rng by (metis (no_types, lifting) eq_nat_nat_iff image_iff)
  then have "probe_contains probe k = (k \<in> set keys)" for k
    by (simp add: probe_contains_def p words_contains_iff b)
  with Some rng show ?thesis by auto
qed

theorem probe_answers_membership_witness:
  "probe_contains (the (from_keys_with_max_key [3, 70] 100)) 70 \<and> from_keys_with_max_key [3, 101] 100 = None"
proof -
  obtain probe where "from_keys_with_max_key [3, 70] 100 = Some probe"
    by (auto simp: from_keys_with_max_key_def usize_try_from_def)
  then show ?thesis
    using probe_answers_membership [of "[3, 70]" 100] probe_answers_membership [of "[3, 101]" 100]
    by (auto split: option.splits)
qed

end
