(* ===== verification/Dense_Set.thy ===== *)
theory Dense_Set
  imports Dense_Bits
begin

text \<open>
  \<open>AdaptiveI64Set\<close> of \<open>dense.rs\<close>: a set of \<open>i64\<close> keys kept as a bitmap while every key is a small
  nonnegative number and as a hash set from the first key that is not; and \<open>DenseAtomicU8\<close>, the
  marker vector that parallel scans fill and turn into such a set.

  A hash set of the standard library is a finite set; where the code iterates over one, the model
  takes the list of its elements in iteration order.  The interface the joins rely on is the locale
  \<open>i64_set\<close>, interpreted on the model's operations.
\<close>

subsection \<open>State and operations\<close>

datatype adaptive_i64_set =
    SetDense (set_contains: "bool list") (set_words: "u64 list") (set_count: nat)
             (set_max_dense_key: nat)
  | SetHash (set_keys: "int set")

definition set_new_dense :: "nat option \<Rightarrow> adaptive_i64_set" where
  "set_new_dense env = SetDense [] [] 0 (default_max_dense_i64_set_key env)"

fun set_len :: "adaptive_i64_set \<Rightarrow> nat" where
  "set_len (SetDense contains words len max_dense_key) = len"
| "set_len (SetHash keys) = card keys"

definition set_is_empty :: "adaptive_i64_set \<Rightarrow> bool" where
  "set_is_empty s \<longleftrightarrow> set_len s = 0"

fun contains :: "adaptive_i64_set \<Rightarrow> int \<Rightarrow> bool" where
  "contains (SetDense cs words len max_dense_key) key = adaptive_i64_words_contains words key"
| "contains (SetHash keys) key = (key \<in> keys)"

fun dense_contains_slice :: "adaptive_i64_set \<Rightarrow> bool list option" where
  "dense_contains_slice (SetDense cs words len max_dense_key) = Some cs"
| "dense_contains_slice (SetHash keys) = None"

fun dense_word_slice :: "adaptive_i64_set \<Rightarrow> u64 list option" where
  "dense_word_slice (SetDense cs words len max_dense_key) = Some words"
| "dense_word_slice (SetHash keys) = None"

definition contains_cached :: "adaptive_i64_set \<Rightarrow> bool list option \<Rightarrow> int \<Rightarrow> bool" where
  "contains_cached s dense_contains key =
     (case dense_contains of
        Some cs \<Rightarrow> (case Option.bind (usize_try_from key) (vec_get cs) of
                      None \<Rightarrow> False | Some b \<Rightarrow> b)
      | None \<Rightarrow> contains s key)"

fun set_selective_key_range :: "adaptive_i64_set \<Rightarrow> (int \<times> int) option" where
  "set_selective_key_range (SetDense cs words len max_dense_key) =
     (case (position (\<lambda>b. b) cs, rposition (\<lambda>b. b) cs) of
        (Some min_key, Some max_key) \<Rightarrow> selective_i64_range (int min_key) (int max_key) len
      | _ \<Rightarrow> None)"
| "set_selective_key_range (SetHash keys) =
     (if keys = {} then None else selective_i64_range (Min keys) (Max keys) (card keys))"

definition adaptive_i64_set_dense_to_hash :: "bool list \<Rightarrow> int set" where
  "adaptive_i64_set_dense_to_hash cs =
     set (map (\<lambda>(key, present). int key)
            (filter (\<lambda>(key, present). present) (zip [0..<length cs] cs)))"

text \<open>The body shared by \<open>insert\<close> and \<open>try_insert_dense_values\<close>: mark one index that is in range.\<close>

definition mark_index :: "nat \<Rightarrow> bool list \<times> u64 list \<times> nat \<Rightarrow> bool list \<times> u64 list \<times> nat" where
  "mark_index index = (\<lambda>(cs, words, len).
     if \<not> cs ! index then (cs[index := True], set_word_bit index words, len + 1)
     else (cs, words, len))"

fun set_insert :: "int \<Rightarrow> adaptive_i64_set \<Rightarrow> adaptive_i64_set" where
  "set_insert key (SetDense cs words len max_dense_key) =
     (case adaptive_dense_index key max_dense_key of
        None \<Rightarrow> SetHash (insert key (adaptive_i64_set_dense_to_hash cs))
      | Some index \<Rightarrow>
          (let (cs, words) =
                 (if index \<ge> length cs
                  then (vec_resize (index + 1) False cs, vec_resize (index div 64 + 1) 0 words)
                  else (cs, words));
               (cs, words, len) = mark_index index (cs, words, len)
           in SetDense cs words len max_dense_key))"
| "set_insert key (SetHash keys) = SetHash (insert key keys)"

text \<open>The first loop of \<open>try_insert_dense_values\<close>: the largest index, \<open>None\<close> on a key that is not dense.\<close>

fun max_dense_index :: "nat \<Rightarrow> int list \<Rightarrow> nat \<Rightarrow> nat option" where
  "max_dense_index max_dense_key [] max_index = Some max_index"
| "max_dense_index max_dense_key (key # values) max_index =
     (case adaptive_dense_index key max_dense_key of
        None \<Rightarrow> None
      | Some index \<Rightarrow> max_dense_index max_dense_key values (max max_index index))"

fun try_insert_dense_values :: "int list \<Rightarrow> adaptive_i64_set \<Rightarrow> bool \<times> adaptive_i64_set" where
  "try_insert_dense_values values (SetHash keys) = (False, SetHash keys)"
| "try_insert_dense_values values (SetDense cs words len max_dense_key) =
     (case max_dense_index max_dense_key values 0 of
        None \<Rightarrow> (False, SetDense cs words len max_dense_key)
      | Some max_index \<Rightarrow>
          (let (cs, words) =
                 (if max_index \<ge> length cs
                  then (vec_resize (max_index + 1) False cs, vec_resize (max_index div 64 + 1) 0 words)
                  else (cs, words));
               (cs, words, len) = fold (\<lambda>key. mark_index (nat key)) values (cs, words, len)
           in (True, SetDense cs words len max_dense_key)))"

text \<open>\<open>from_hash\<close>: \<open>values\<close> lists the given hash set in iteration order.\<close>

definition mark_contains :: "nat \<Rightarrow> bool list \<times> nat \<Rightarrow> bool list \<times> nat" where
  "mark_contains index = (\<lambda>(cs, len).
     if \<not> cs ! index then (cs[index := True], len + 1) else (cs, len))"

definition set_from_hash :: "nat option \<Rightarrow> int list \<Rightarrow> adaptive_i64_set" where
  "set_from_hash env values =
     (if values = [] then set_new_dense env
      else case max_dense_index (default_max_dense_i64_set_key env) values 0 of
             None \<Rightarrow> SetHash (set values)
           | Some max_key \<Rightarrow>
               (let (cs, len) = fold (\<lambda>key. mark_contains (nat key)) values
                                     (replicate (max_key + 1) False, 0)
                in SetDense cs (adaptive_i64_set_words_from_contains cs) len
                            (default_max_dense_i64_set_key env)))"

subsubsection \<open>\<open>DenseAtomicU8\<close>\<close>

record dense_atomic_u8 =
  markers :: "8 word list"

definition atomic_zeroed :: "nat \<Rightarrow> dense_atomic_u8" where
  "atomic_zeroed len = \<lparr>markers = replicate len 0\<rparr>"

definition from_values_parallel :: "8 word list \<Rightarrow> dense_atomic_u8" where
  "from_values_parallel values = \<lparr>markers = values\<rparr>"

definition store_present :: "nat \<Rightarrow> dense_atomic_u8 \<Rightarrow> dense_atomic_u8" where
  "store_present index m =
     (if index < length (markers m) then m\<lparr>markers := (markers m)[index := 1]\<rparr> else m)"

definition into_adaptive_i64_set :: "nat option \<Rightarrow> dense_atomic_u8 \<Rightarrow> adaptive_i64_set" where
  "into_adaptive_i64_set env m =
     (let cs = map (\<lambda>marker. marker \<noteq> 0) (markers m)
      in SetDense cs (adaptive_i64_set_words_from_contains cs) (length (filter (\<lambda>b. b) cs))
                  (default_max_dense_i64_set_key env))"

subsection \<open>Abstraction and invariant\<close>

definition marked :: "bool list \<Rightarrow> nat set" where
  "marked cs = {i. i < length cs \<and> cs ! i}"

fun elems :: "adaptive_i64_set \<Rightarrow> int set" where
  "elems (SetDense cs words len max_dense_key) = int ` marked cs"
| "elems (SetHash keys) = keys"

text \<open>The two representations of the dense set agree: bytes, bits and the count.\<close>

definition dense_rep :: "bool list \<times> u64 list \<times> nat \<Rightarrow> bool" where
  "dense_rep = (\<lambda>(cs, words, len).
     length words = div_ceil (length cs) 64 \<and> bitmap words = marked cs \<and>
     len = length (filter (\<lambda>b. b) cs))"

fun set_invar :: "adaptive_i64_set \<Rightarrow> bool" where
  "set_invar (SetDense cs words len max_dense_key) = dense_rep (cs, words, len)"
| "set_invar (SetHash keys) = finite keys"

lemma finite_marked [simp]: "finite (marked cs)"
  by (simp add: marked_def)

lemma card_marked: "card (marked cs) = length (filter (\<lambda>b. b) cs)"
  by (simp add: marked_def length_filter_conv_card)

lemma marked_resize [simp]: "length cs \<le> n \<Longrightarrow> marked (vec_resize n False cs) = marked cs"
  by (auto simp: marked_def nth_vec_resize split: if_splits)

lemma marked_update: "i < length cs \<Longrightarrow> marked (cs[i := True]) = insert i (marked cs)"
  by (auto simp: marked_def nth_list_update)

lemma marked_replicate [simp]: "marked (replicate n False) = {}"
  by (auto simp: marked_def)

lemma marked_Nil [simp]: "marked [] = {}"
  by (simp add: marked_def)

lemma dense_rep_count: "dense_rep (cs, words, len) \<Longrightarrow> len = card (marked cs)"
  by (simp add: dense_rep_def card_marked)

lemma dense_rep_resize:
  assumes "dense_rep (cs, words, len)" "length cs \<le> index"
  shows "dense_rep (vec_resize (index + 1) False cs, vec_resize (index div 64 + 1) 0 words, len)"
proof -
  have "length words \<le> index div 64 + 1"
    using assms div_ceil_64_mono [of "length cs" "Suc index"]
    by (simp add: dense_rep_def div_ceil_64_Suc)
  then show ?thesis using assms
    by (simp add: dense_rep_def div_ceil_64_Suc bitmap_vec_resize filter_vec_resize)
qed

lemma dense_rep_mark:
  assumes "dense_rep (cs, words, len)" "index < length cs"
  shows "dense_rep (mark_index index (cs, words, len))"
    and "marked (fst (mark_index index (cs, words, len))) = insert index (marked cs)"
    and "length (fst (mark_index index (cs, words, len))) = length cs"
proof -
  have "index div 64 < length words"
    using assms by (simp add: dense_rep_def div_ceil_64_bound)
  then show "dense_rep (mark_index index (cs, words, len))"
    using assms card_marked [of "cs[index := True]"] card_marked [of cs]
    by (auto simp: mark_index_def dense_rep_def bitmap_set_word_bit marked_update)
      (auto simp: marked_def)
  show "marked (fst (mark_index index (cs, words, len))) = insert index (marked cs)"
    using assms by (auto simp: mark_index_def marked_update) (auto simp: marked_def)
  show "length (fst (mark_index index (cs, words, len))) = length cs"
    by (simp add: mark_index_def)
qed

lemma dense_rep_mark_fold:
  assumes "dense_rep st" "\<forall>i \<in> set ixs. i < length (fst st)"
  shows "dense_rep (fold mark_index ixs st)"
    and "marked (fst (fold mark_index ixs st)) = marked (fst st) \<union> set ixs"
proof -
  have "dense_rep (fold mark_index ixs st) \<and>
      marked (fst (fold mark_index ixs st)) = marked (fst st) \<union> set ixs"
    using assms
  proof (induction ixs arbitrary: st)
    case (Cons i ixs)
    obtain cs words len where st: "st = (cs, words, len)" by (cases st)
    then show ?case
      using Cons.prems Cons.IH [of "mark_index i st"] dense_rep_mark [of cs words len i] by auto
  qed simp
  then show "dense_rep (fold mark_index ixs st)"
    and "marked (fst (fold mark_index ixs st)) = marked (fst st) \<union> set ixs" by auto
qed

lemma dense_to_hash_eq [simp]: "adaptive_i64_set_dense_to_hash cs = int ` marked cs"
proof -
  have "set (zip [0..<length cs] cs) = {(i, cs ! i) | i. i < length cs}"
    by (force simp: set_zip)
  then show ?thesis by (auto simp: adaptive_i64_set_dense_to_hash_def marked_def)
qed

lemma max_dense_index_SomeD:
  "max_dense_index m vals k = Some r \<Longrightarrow>
     k \<le> r \<and> (\<forall>x \<in> set vals. 0 \<le> x \<and> nat x \<le> m \<and> nat x \<le> r)"
  by (induction vals arbitrary: k) (fastforce simp: rust_simps split: option.splits)+

lemma max_dense_index_None_iff:
  "max_dense_index m vals k = None \<longleftrightarrow> (\<exists>x \<in> set vals. x < 0 \<or> m < nat x)"
  by (induction vals arbitrary: k) (auto simp: rust_simps split: option.splits)

lemma mark_contains_pair:
  "mark_contains i (cs, len) = (if \<not> cs ! i then (cs[i := True], len + 1) else (cs, len))"
  by (simp add: mark_contains_def)

lemma fold_mark_contains:
  assumes "\<forall>i \<in> set ixs. i < length cs" "len = length (filter (\<lambda>b. b) cs)"
  shows "marked (fst (fold mark_contains ixs (cs, len))) = marked cs \<union> set ixs \<and>
    snd (fold mark_contains ixs (cs, len)) = length (filter (\<lambda>b. b) (fst (fold mark_contains ixs (cs, len))))"
  using assms
proof (induction ixs arbitrary: cs len)
  case (Cons i ixs)
  have "length (filter (\<lambda>b. b) (cs[i := True])) = Suc (length (filter (\<lambda>b. b) cs))"
    if "\<not> cs ! i"
  proof -
    have "i \<notin> marked cs" using that by (simp add: marked_def)
    then show ?thesis using Cons.prems by (simp add: card_marked [symmetric] marked_update)
  qed
  moreover have "insert i (marked cs) = marked cs" if "cs ! i"
    using that Cons.prems by (auto simp: marked_def)
  ultimately show ?case using Cons.prems
    by (auto simp: mark_contains_pair marked_update Cons.IH)
qed simp

subsection \<open>Every operation keeps the invariant and implements the set operation\<close>

lemma set_new_dense_correct [simp]:
  "set_invar (set_new_dense env)" "elems (set_new_dense env) = {}"
  by (simp_all add: set_new_dense_def dense_rep_def div_ceil_def)

lemma contains_correct: "set_invar s \<Longrightarrow> contains s key \<longleftrightarrow> key \<in> elems s"
  by (cases s) (auto simp: words_contains_iff dense_rep_def mem_int_image)

lemma contains_cached_correct:
  "set_invar s \<Longrightarrow> contains_cached s (dense_contains_slice s) key \<longleftrightarrow> key \<in> elems s"
proof (cases s)
  case (SetDense cs words len m)
  then show ?thesis
    by (auto simp: contains_cached_def marked_def mem_int_image usize_try_from_def vec_get_def
        split: option.splits if_splits)
qed (simp add: contains_cached_def)

lemma finite_elems: "set_invar s \<Longrightarrow> finite (elems s)"
  by (cases s) auto

lemma set_len_correct: "set_invar s \<Longrightarrow> set_len s = card (elems s)"
  by (cases s) (simp_all add: dense_rep_def card_marked card_image)

lemma set_insert_correct:
  assumes "set_invar s"
  shows "set_invar (set_insert key s) \<and> elems (set_insert key s) = insert key (elems s)"
proof (cases s)
  case (SetHash keys)
  with assms show ?thesis by simp
next
  case (SetDense cs words len m)
  show ?thesis
  proof (cases "adaptive_dense_index key m")
    case None
    then show ?thesis using SetDense by simp
  next
    case (Some index)
    then have key: "key = int index" by (simp add: rust_simps)
    define cs' where "cs' = (if index \<ge> length cs then vec_resize (index + 1) False cs else cs)"
    define ws' where "ws' = (if index \<ge> length cs then vec_resize (index div 64 + 1) 0 words else words)"
    have rep: "dense_rep (cs', ws', len)" and "index < length cs'" and m: "marked cs' = marked cs"
      using assms SetDense dense_rep_resize [of cs words len index] by (auto simp: cs'_def ws'_def)
    note * = dense_rep_mark [OF rep \<open>index < length cs'\<close>]
    have "set_insert key s = (let (cs, words, len) = mark_index index (cs', ws', len) in SetDense cs words len m)"
      using SetDense Some by (simp add: cs'_def ws'_def)
    then show ?thesis using * SetDense m key by (auto split: prod.splits)
  qed
qed

lemma try_insert_dense_values_correct:
  assumes "set_invar s" "try_insert_dense_values vals s = (ok, s')"
  shows "set_invar s' \<and> elems s' = (if ok then elems s \<union> set vals else elems s)"
proof (cases s)
  case (SetHash keys)
  with assms show ?thesis by auto
next
  case (SetDense cs words len m)
  show ?thesis
  proof (cases "max_dense_index m vals 0")
    case None
    with assms SetDense show ?thesis by auto
  next
    case (Some k)
    define cs' where "cs' = (if k \<ge> length cs then vec_resize (k + 1) False cs else cs)"
    define ws' where "ws' = (if k \<ge> length cs then vec_resize (k div 64 + 1) 0 words else words)"
    have rep: "dense_rep (cs', ws', len)" and "k < length cs'" and m: "marked cs' = marked cs"
      using assms(1) SetDense dense_rep_resize [of cs words len k] by (auto simp: cs'_def ws'_def)
    have vals_ok: "\<forall>x \<in> set vals. 0 \<le> x \<and> nat x \<le> k"
      using max_dense_index_SomeD [OF Some] by auto
    then have "\<forall>i \<in> set (map nat vals). i < length (fst (cs', ws', len))"
      using \<open>k < length cs'\<close> by auto
    note * = dense_rep_mark_fold [OF rep this]
    have "int ` nat ` set vals = set vals" using vals_ok by force
    moreover have "(ok, s') = (let (cs, words, len) = fold mark_index (map nat vals) (cs', ws', len)
        in (True, SetDense cs words len m))"
      using assms(2) [symmetric] SetDense Some by (simp add: cs'_def ws'_def fold_map comp_def)
    ultimately show ?thesis using * SetDense m by (auto split: prod.splits simp: image_Un)
  qed
qed

lemma set_from_hash_correct:
  "set_invar (set_from_hash env vals) \<and> elems (set_from_hash env vals) = set vals"
proof (cases "max_dense_index (default_max_dense_i64_set_key env) vals 0")
  case None
  then show ?thesis by (auto simp: set_from_hash_def)
next
  case (Some k)
  then have vals_ok: "\<forall>x \<in> set vals. 0 \<le> x \<and> nat x \<le> k"
    using max_dense_index_SomeD [OF Some] by auto
  define r where "r = fold mark_contains (map nat vals) (replicate (k + 1) False, 0)"
  have *: "marked (fst r) = set (map nat vals) \<and> snd r = length (filter (\<lambda>b. b) (fst r))"
    using vals_ok fold_mark_contains [of "map nat vals" "replicate (k + 1) False" 0]
    by (simp add: r_def less_Suc_eq_le del: replicate_Suc)
  have "int ` nat ` set vals = set vals" using vals_ok by force
  moreover have "set_from_hash env vals = (if vals = [] then set_new_dense env
      else SetDense (fst r) (adaptive_i64_set_words_from_contains (fst r)) (snd r)
        (default_max_dense_i64_set_key env))"
    using Some by (simp add: set_from_hash_def r_def fold_map comp_def case_prod_unfold Let_def)
  ultimately show ?thesis using * by (auto simp: dense_rep_def bitmap_words_from_contains marked_def)
qed

text \<open>The key range a join pushes down is the exact range of the keys, and it is nonnegative.\<close>

lemma set_selective_key_range_SomeD:
  assumes "set_invar s" "set_selective_key_range s = Some (lo, hi)"
  shows "elems s \<noteq> {} \<and> lo = Min (elems s) \<and> hi = Max (elems s) \<and> 0 \<le> lo"
proof (cases s)
  case (SetHash keys)
  with assms show ?thesis by (auto dest!: selective_i64_range_SomeD split: if_splits)
next
  case (SetDense cs words len m)
  with assms(2) obtain a b where ab: "position (\<lambda>b. b) cs = Some a" "rposition (\<lambda>b. b) cs = Some b"
    and r: "selective_i64_range (int a) (int b) len = Some (lo, hi)"
    by (auto split: option.splits)
  note a = position_SomeD [OF ab(1)] and b = rposition_SomeD [OF ab(2)]
  have "Min (int ` marked cs) = int a"
  proof (rule Min_eqI)
    show "int a \<in> int ` marked cs" using a by (simp add: marked_def)
    show "int a \<le> y" if "y \<in> int ` marked cs" for y
      using that a by (auto simp: marked_def) (meson not_le)
  qed simp
  moreover have "Max (int ` marked cs) = int b"
  proof (rule Max_eqI)
    show "int b \<in> int ` marked cs" using b by (simp add: marked_def)
    show "y \<le> int b" if "y \<in> int ` marked cs" for y
      using that b by (auto simp: marked_def)
  qed simp
  moreover have "a \<in> marked cs" using a by (simp add: marked_def)
  ultimately show ?thesis using SetDense selective_i64_range_SomeD [OF r] by auto
qed

lemma fold_store_present:
  "markers (fold store_present ixs m) =
     map (\<lambda>i. if i \<in> set ixs then 1 else markers m ! i) [0..<length (markers m)]"
proof (induction ixs arbitrary: m)
  case Nil
  then show ?case by (simp add: map_nth)
next
  case (Cons i ixs)
  then show ?case by (auto simp: store_present_def nth_list_update intro!: nth_equalityI)
qed

lemma into_adaptive_i64_set_correct:
  "set_invar (into_adaptive_i64_set env m) \<and>
   elems (into_adaptive_i64_set env m) = int ` {i. i < length (markers m) \<and> markers m ! i \<noteq> 0}"
  by (auto simp: into_adaptive_i64_set_def Let_def dense_rep_def bitmap_words_from_contains marked_def)

subsection \<open>The interface of an integer key set\<close>

locale i64_set =
  fixes empty :: 's
    and ins :: "int \<Rightarrow> 's \<Rightarrow> 's"
    and mem :: "'s \<Rightarrow> int \<Rightarrow> bool"
    and size :: "'s \<Rightarrow> nat"
    and key_set :: "'s \<Rightarrow> int set"
    and invar :: "'s \<Rightarrow> bool"
  assumes invar_empty: "invar empty"
    and key_set_empty: "key_set empty = {}"
    and invar_ins: "invar s \<Longrightarrow> invar (ins k s)"
    and key_set_ins: "invar s \<Longrightarrow> key_set (ins k s) = insert k (key_set s)"
    and mem_iff: "invar s \<Longrightarrow> mem s k \<longleftrightarrow> k \<in> key_set s"
    and size_eq: "invar s \<Longrightarrow> size s = card (key_set s)"
begin

lemma fold_ins:
  "invar s \<Longrightarrow> invar (fold ins ks s) \<and> key_set (fold ins ks s) = key_set s \<union> set ks"
  by (induction ks arbitrary: s) (auto simp: invar_ins key_set_ins)

lemma build: "invar (fold ins ks empty) \<and> key_set (fold ins ks empty) = set ks"
  using fold_ins [OF invar_empty] by (simp add: key_set_empty)

lemma mem_build: "mem (fold ins ks empty) k \<longleftrightarrow> k \<in> set ks"
  using build by (simp add: mem_iff)

lemma size_build: "distinct ks \<Longrightarrow> size (fold ins ks empty) = length ks"
  using build by (simp add: size_eq distinct_card)

text \<open>A semi-join probe: the rows whose key is in the build side.\<close>

lemma probe_filter:
  "filter (\<lambda>row. mem (fold ins (map key build_rows) empty) (key row)) rows =
     filter (\<lambda>row. \<exists>b \<in> set build_rows. key b = key row) rows"
proof -
  have "k \<in> key ` set build_rows \<longleftrightarrow> (\<exists>b \<in> set build_rows. key b = k)" for k by blast
  then show ?thesis by (simp add: mem_build)
qed

end

interpretation adaptive_set: i64_set "set_new_dense env" set_insert contains set_len elems set_invar
  for env
  by unfold_locales (simp_all add: set_insert_correct contains_correct set_len_correct)

subsection \<open>Properties\<close>

text \<open>
  C23: whatever keys are inserted, and whether or not the set switches from the dense to the hash
  representation on the way, \<open>contains\<close> answers membership in the inserted keys and \<open>len\<close> counts
  the distinct ones.
\<close>

theorem adaptive_set_contains_inserted:
  "contains (fold set_insert keys (set_new_dense env)) k = (k \<in> set keys) \<and>
   set_len (fold set_insert keys (set_new_dense env)) = card (set keys) \<and>
   set_is_empty (fold set_insert keys (set_new_dense env)) = (keys = [])"
  using adaptive_set.build [of keys env]
  by (simp add: adaptive_set.mem_build set_len_correct set_is_empty_def)

text \<open>
  \<open>try_insert_dense_values\<close> is all or nothing: it succeeds exactly when the set is dense and
  every value is a dense index, and then adds all of them; otherwise no answer of the set changes.
\<close>

theorem adaptive_set_bulk_insert_atomic:
  assumes "set_invar s" "try_insert_dense_values vals s = (ok, s')"
  shows "set_invar s' \<and> (\<forall>k. contains s' k = (contains s k \<or> ok \<and> k \<in> set vals)) \<and>
    (ok \<longleftrightarrow> (\<exists>cs words len m. s = SetDense cs words len m \<and> (\<forall>x \<in> set vals. 0 \<le> x \<and> x \<le> int m)))"
proof -
  have "ok \<longleftrightarrow> (\<exists>cs words len m. s = SetDense cs words len m \<and> max_dense_index m vals 0 \<noteq> None)"
    using assms(2) by (cases s) (auto simp: Let_def split: option.splits prod.splits)
  moreover have "max_dense_index m vals 0 \<noteq> None \<longleftrightarrow> (\<forall>x \<in> set vals. 0 \<le> x \<and> x \<le> int m)" for m
    unfolding max_dense_index_None_iff by (auto simp: not_less nat_le_iff)
  ultimately show ?thesis
    using try_insert_dense_values_correct [OF assms] assms(1) by (auto simp: contains_correct)
qed

theorem adaptive_set_bulk_insert_atomic_witness:
  "\<not> contains (snd (try_insert_dense_values [3, -1] (SetDense [] [] 0 100))) 3 \<and>
   contains (snd (try_insert_dense_values [3, 70] (SetDense [] [] 0 100))) 70"
proof -
  have inv: "set_invar (SetDense [] [] 0 100)" by (simp add: dense_rep_def div_ceil_def)
  show ?thesis
    using adaptive_set_bulk_insert_atomic [OF inv surjective_pairing, of "[3, -1]"]
      adaptive_set_bulk_insert_atomic [OF inv surjective_pairing, of "[3, 70]"]
    by (simp add: words_contains_iff del: try_insert_dense_values.simps)
qed

text \<open>
  When a set offers a key range for pushing down into a scan, the range is tight: every member
  lies in it and both ends are members, so no matching row is skipped.
\<close>

theorem adaptive_set_pushed_range_tight:
  assumes "set_invar s" "set_selective_key_range s = Some (lo, hi)"
  shows "(\<forall>k. contains s k \<longrightarrow> lo \<le> k \<and> k \<le> hi) \<and> contains s lo \<and> contains s hi"
  using set_selective_key_range_SomeD [OF assms] finite_elems [OF assms(1)] contains_correct [OF assms(1)]
  by simp

theorem adaptive_set_pushed_range_tight_witness:
  "contains (set_insert 7 (set_insert 4 (SetHash {}))) 4 \<and>
   set_selective_key_range (set_insert 7 (set_insert 4 (SetHash {}))) = Some (4, 7)"
proof -
  have r: "set_selective_key_range (set_insert 7 (set_insert 4 (SetHash {}))) = Some (4, 7)"
    by (simp add: selective_i64_range_def rust_defs)
  moreover have "set_invar (set_insert 7 (set_insert 4 (SetHash {})))" by simp
  ultimately show ?thesis using adaptive_set_pushed_range_tight by blast
qed

text \<open>
  The markers that parallel workers store through \<open>DenseAtomicU8\<close> give, in whatever order the
  stores happen, the set of the stored in-range indices.
\<close>

theorem atomic_markers_any_order:
  "contains (into_adaptive_i64_set env (fold store_present ixs (atomic_zeroed n))) k =
     (0 \<le> k \<and> nat k < n \<and> nat k \<in> set ixs)"
  using into_adaptive_i64_set_correct [of env "fold store_present ixs (atomic_zeroed n)"]
  by (auto simp: contains_correct fold_store_present atomic_zeroed_def mem_int_image split: if_splits)

end
