(* ===== verification/Dense_Map.thy ===== *)
theory Dense_Map
  imports Dense_Set "HOL-Library.Finite_Map"
begin

text \<open>
  \<open>AdaptiveI64Map\<close> and \<open>DenseI64BoolLookup\<close> of \<open>dense.rs\<close>: maps from \<open>i64\<close> keys that keep small
  nonnegative keys in a vector.  The adaptive map turns itself into a hash map at the first other
  key, the boolean lookup ignores such keys.  A hash map of the standard library is a finite map;
  where the code iterates over one, the model takes its entries as a list in iteration order.
  \<open>V::default()\<close> is the argument \<open>dflt\<close>.  The interface of both maps is the locale \<open>i64_map\<close>.
\<close>

subsection \<open>State and operations\<close>

datatype 'v adaptive_i64_map =
    MapDense (map_values: "'v list") (map_present: "bool list") (map_words: "u64 list")
             (map_count: nat)
  | MapHash (map_hash: "(int, 'v) fmap")

definition map_new_dense :: "'v adaptive_i64_map" where
  "map_new_dense = MapDense [] [] [] 0"

definition map_mark :: "nat \<Rightarrow> int \<times> 'v \<Rightarrow> 'v list \<times> bool list \<times> u64 list \<times> nat
    \<Rightarrow> 'v list \<times> bool list \<times> u64 list \<times> nat" where
  "map_mark index = (\<lambda>(key, value) (values, rep). (values[index := value], mark_index index rep))"

text \<open>\<open>from_hash\<close>; \<open>entries\<close> lists the given hash map in iteration order.\<close>

definition map_from_hash :: "'v \<Rightarrow> (int \<times> 'v) list \<Rightarrow> 'v adaptive_i64_map" where
  "map_from_hash dflt entries =
     (if entries = [] then map_new_dense
      else case max_dense_index DEFAULT_MAX_DENSE_I64_KEY (map fst entries) 0 of
             None \<Rightarrow> MapHash (fmap_of_list entries)
           | Some max_key \<Rightarrow>
               (let (vs, present, words, len) =
                      fold (\<lambda>(key, value). map_mark (nat key) (key, value)) entries
                        (replicate (max_key + 1) dflt, replicate (max_key + 1) False,
                         replicate (div_ceil (max_key + 1) 64) 0, 0)
                in MapDense vs present words len))"

text \<open>The word test followed by \<open>values.get(index)\<close>, as in \<open>get\<close> and \<open>get_cached_words\<close>.\<close>

definition words_lookup :: "'v list \<Rightarrow> u64 list \<Rightarrow> int \<Rightarrow> 'v option" where
  "words_lookup vs words key =
     (case usize_try_from key of
        None \<Rightarrow> None
      | Some index \<Rightarrow>
          (case vec_get words (index div 64) of
             None \<Rightarrow> None
           | Some word \<Rightarrow> if word_bit_is_set index word then vec_get vs index else None))"

fun map_get :: "'v adaptive_i64_map \<Rightarrow> int \<Rightarrow> 'v option" where
  "map_get (MapDense vs present words len) key = words_lookup vs words key"
| "map_get (MapHash hash) key = fmlookup hash key"

fun dense_slices :: "'v adaptive_i64_map \<Rightarrow> ('v list \<times> bool list) option" where
  "dense_slices (MapDense vs present words len) = Some (vs, present)"
| "dense_slices (MapHash hash) = None"

fun dense_word_slices :: "'v adaptive_i64_map \<Rightarrow> ('v list \<times> u64 list) option" where
  "dense_word_slices (MapDense vs present words len) = Some (vs, words)"
| "dense_word_slices (MapHash hash) = None"

definition get_cached ::
    "'v adaptive_i64_map \<Rightarrow> ('v list \<times> bool list) option \<Rightarrow> int \<Rightarrow> 'v option" where
  "get_cached m slices key =
     (case slices of
        Some (vs, present) \<Rightarrow>
          (case usize_try_from key of
             None \<Rightarrow> None
           | Some index \<Rightarrow> (case vec_get present index of
                              None \<Rightarrow> None
                            | Some b \<Rightarrow> if b then Some (vs ! index) else None))
      | None \<Rightarrow> map_get m key)"

definition get_cached_words ::
    "'v adaptive_i64_map \<Rightarrow> ('v list \<times> u64 list) option \<Rightarrow> int \<Rightarrow> 'v option" where
  "get_cached_words m slices key =
     (case slices of Some (vs, words) \<Rightarrow> words_lookup vs words key | None \<Rightarrow> map_get m key)"

fun map_is_empty :: "'v adaptive_i64_map \<Rightarrow> bool" where
  "map_is_empty (MapDense vs present words len) \<longleftrightarrow> len = 0"
| "map_is_empty (MapHash hash) \<longleftrightarrow> hash = fmempty"

fun map_selective_key_range :: "'v adaptive_i64_map \<Rightarrow> (int \<times> int) option" where
  "map_selective_key_range (MapDense vs present words len) =
     (case (position (\<lambda>b. b) present, rposition (\<lambda>b. b) present) of
        (Some min_key, Some max_key) \<Rightarrow> selective_i64_range (int min_key) (int max_key) len
      | _ \<Rightarrow> None)"
| "map_selective_key_range (MapHash hash) =
     (if fmdom' hash = {} then None
      else selective_i64_range (Min (fmdom' hash)) (Max (fmdom' hash)) (card (fmdom' hash)))"

definition adaptive_i64_map_dense_to_hash :: "'v list \<Rightarrow> bool list \<Rightarrow> (int, 'v) fmap" where
  "adaptive_i64_map_dense_to_hash vs present =
     fmap_of_list (map (\<lambda>(key, value, present). (int key, value))
       (filter (\<lambda>(key, value, present). present) (zip [0..<length vs] (zip vs present))))"

text \<open>Growing the three vectors of the dense representation so that \<open>index\<close> is in range.\<close>

definition map_reserve :: "'v \<Rightarrow> nat \<Rightarrow> 'v list \<times> bool list \<times> u64 list
    \<Rightarrow> 'v list \<times> bool list \<times> u64 list" where
  "map_reserve dflt index = (\<lambda>(vs, present, words).
     if index \<ge> length vs
     then (vec_resize (index + 1) dflt vs, vec_resize (index + 1) False present,
           vec_resize (index div 64 + 1) 0 words)
     else (vs, present, words))"

fun map_insert :: "'v \<Rightarrow> int \<Rightarrow> 'v \<Rightarrow> 'v adaptive_i64_map \<Rightarrow> 'v adaptive_i64_map" where
  "map_insert dflt key value (MapDense vs present words len) =
     (case adaptive_dense_index key DEFAULT_MAX_DENSE_I64_KEY of
        None \<Rightarrow> MapHash (fmupd key value (adaptive_i64_map_dense_to_hash vs present))
      | Some index \<Rightarrow>
          (let (vs, present, words) = map_reserve dflt index (vs, present, words);
               (present, words, len) = mark_index index (present, words, len)
           in MapDense (vs[index := value]) present words len))"
| "map_insert dflt key value (MapHash hash) = MapHash (fmupd key value hash)"

text \<open>\<open>entry(key).or_insert_with(init)\<close> followed by the update closure.\<close>

definition entry_update :: "int \<Rightarrow> 'v \<Rightarrow> ('v \<Rightarrow> 'v) \<Rightarrow> (int, 'v) fmap \<Rightarrow> (int, 'v) fmap" where
  "entry_update key init upd hash =
     fmupd key (upd (case fmlookup hash key of None \<Rightarrow> init | Some v \<Rightarrow> v)) hash"

fun map_update :: "'v \<Rightarrow> int \<Rightarrow> 'v \<Rightarrow> ('v \<Rightarrow> 'v) \<Rightarrow> 'v adaptive_i64_map \<Rightarrow> 'v adaptive_i64_map" where
  "map_update dflt key init upd (MapDense vs present words len) =
     (case adaptive_dense_index key DEFAULT_MAX_DENSE_I64_KEY of
        None \<Rightarrow> MapHash (entry_update key init upd (adaptive_i64_map_dense_to_hash vs present))
      | Some index \<Rightarrow>
          (let (vs, present, words) = map_reserve dflt index (vs, present, words);
               vs = (if \<not> present ! index then vs[index := init] else vs);
               (present, words, len) = mark_index index (present, words, len)
           in MapDense (vs[index := upd (vs ! index)]) present words len))"
| "map_update dflt key init upd (MapHash hash) = MapHash (entry_update key init upd hash)"

fun into_filtered_hash :: "('v \<Rightarrow> bool) \<Rightarrow> 'v adaptive_i64_map \<Rightarrow> (int, 'v) fmap" where
  "into_filtered_hash predicate (MapDense vs present words len) =
     fmap_of_list (map (\<lambda>(key, value, present). (int key, value))
       (filter (\<lambda>(key, value, present). present \<and> predicate value)
         (zip [0..<length vs] (zip vs present))))"
| "into_filtered_hash predicate (MapHash hash) =
     fmfilter (\<lambda>key. case fmlookup hash key of None \<Rightarrow> False | Some v \<Rightarrow> predicate v) hash"

subsubsection \<open>\<open>DenseI64BoolLookup\<close>\<close>

record dense_i64_bool_lookup =
  bl_present :: "bool list"
  bl_values :: "bool list"
  bl_len :: nat

definition bool_lookup_default :: dense_i64_bool_lookup where
  "bool_lookup_default = \<lparr>bl_present = [], bl_values = [], bl_len = 0\<rparr>"

definition bool_lookup_is_empty :: "dense_i64_bool_lookup \<Rightarrow> bool" where
  "bool_lookup_is_empty l \<longleftrightarrow> bl_len l = 0"

definition bool_lookup_insert :: "int \<Rightarrow> bool \<Rightarrow> dense_i64_bool_lookup \<Rightarrow> dense_i64_bool_lookup" where
  "bool_lookup_insert key value l =
     (case adaptive_dense_index key DEFAULT_MAX_DENSE_I64_KEY of
        None \<Rightarrow> l
      | Some index \<Rightarrow>
          (let l = (if index \<ge> length (bl_present l)
                    then l\<lparr>bl_present := vec_resize (index + 1) False (bl_present l),
                           bl_values := vec_resize (index + 1) False (bl_values l)\<rparr>
                    else l);
               l = (if \<not> bl_present l ! index
                    then l\<lparr>bl_present := (bl_present l)[index := True], bl_len := bl_len l + 1\<rparr>
                    else l)
           in l\<lparr>bl_values := (bl_values l)[index := value]\<rparr>))"

definition bool_lookup_get :: "dense_i64_bool_lookup \<Rightarrow> int \<Rightarrow> bool option" where
  "bool_lookup_get l key =
     (case usize_try_from key of
        None \<Rightarrow> None
      | Some index \<Rightarrow>
          if index < length (bl_present l) \<and> bl_present l ! index
          then Some (bl_values l ! index) else None)"

subsection \<open>Abstraction and invariant\<close>

text \<open>The partial function the dense vectors stand for.\<close>

definition dense_fun :: "'v list \<Rightarrow> bool list \<Rightarrow> int \<Rightarrow> 'v option" where
  "dense_fun vs present key =
     (if 0 \<le> key \<and> nat key \<in> marked present then Some (vs ! nat key) else None)"

fun map_of_adaptive :: "'v adaptive_i64_map \<Rightarrow> int \<Rightarrow> 'v option" where
  "map_of_adaptive (MapDense vs present words len) = dense_fun vs present"
| "map_of_adaptive (MapHash hash) = fmlookup hash"

fun map_invar :: "'v adaptive_i64_map \<Rightarrow> bool" where
  "map_invar (MapDense vs present words len) \<longleftrightarrow>
     length vs = length present \<and> dense_rep (present, words, len)"
| "map_invar (MapHash hash) \<longleftrightarrow> True"

definition bool_lookup_invar :: "dense_i64_bool_lookup \<Rightarrow> bool" where
  "bool_lookup_invar l \<longleftrightarrow>
     length (bl_values l) = length (bl_present l) \<and>
     bl_len l = length (filter (\<lambda>b. b) (bl_present l))"

lemma fmlookup_fmupd [simp]: "fmlookup (fmupd k v m) = (fmlookup m)(k \<mapsto> v)"
  by (simp add: fun_eq_iff)

lemma dense_fun_cong:
  "marked p = marked q \<Longrightarrow> (\<And>i. i \<in> marked q \<Longrightarrow> vs ! i = ws ! i) \<Longrightarrow> dense_fun vs p = dense_fun ws q"
  by (auto simp: dense_fun_def fun_eq_iff)

lemma words_lookup_eq:
  assumes "length vs = length present" "dense_rep (present, words, len)"
  shows "words_lookup vs words = dense_fun vs present"
proof
  fix key
  show "words_lookup vs words key = dense_fun vs present key"
  proof (cases "0 \<le> key")
    case False
    then show ?thesis by (simp add: words_lookup_def dense_fun_def usize_try_from_def)
  next
    case True
    have "nat key \<in> marked present \<longleftrightarrow> nat key \<in> bitmap words"
      using assms(2) by (simp add: dense_rep_def)
    moreover have "nat key < length vs" if "nat key \<in> marked present"
      using that assms(1) by (simp add: marked_def)
    ultimately show ?thesis using True
      by (auto simp: words_lookup_def dense_fun_def usize_try_from_def vec_get_def bitmap_def)
  qed
qed

lemma map_get_correct: "map_invar m \<Longrightarrow> map_get m = map_of_adaptive m"
  by (cases m) (auto simp: fun_eq_iff words_lookup_eq)

lemma zip3_conv:
  assumes "length vs = length present"
  shows "zip [0..<length vs] (zip vs present) =
    map (\<lambda>i. (i, vs ! i, present ! i)) [0..<length vs]"
  using assms by (intro nth_equalityI) auto

lemma map_of_filtered_slots:
  assumes "length vs = length present"
  shows "map_of (map (\<lambda>(key, value, present). (int key, value))
      (filter (\<lambda>(key, value, present). present \<and> P value) (zip [0..<length vs] (zip vs present)))) k =
    (case dense_fun vs present k of None \<Rightarrow> None | Some v \<Rightarrow> if P v then Some v else None)"
proof -
  let ?js = "filter (\<lambda>i. present ! i \<and> P (vs ! i)) [0..<length vs]"
  have "map (\<lambda>(key, value, present). (int key, value))
      (filter (\<lambda>(key, value, present). present \<and> P value) (zip [0..<length vs] (zip vs present))) =
      map (\<lambda>i. (int i, vs ! i)) ?js"
    by (simp add: zip3_conv [OF assms] filter_map comp_def case_prod_unfold)
  moreover have "map_of (map (\<lambda>i. (int i, vs ! i)) js) k =
      (if 0 \<le> k \<and> nat k \<in> set js then Some (vs ! nat k) else None)" for js
    by (induction js) auto
  ultimately show ?thesis using assms by (auto simp: dense_fun_def marked_def)
qed

lemma dense_to_hash_lookup:
  assumes "length vs = length present"
  shows "fmlookup (adaptive_i64_map_dense_to_hash vs present) = dense_fun vs present"
  using map_of_filtered_slots [OF assms, of "\<lambda>_. True"]
  by (auto simp: adaptive_i64_map_dense_to_hash_def fmlookup_of_list fun_eq_iff split: option.splits)

lemma map_reserve_invar:
  assumes "length vs = length present" "dense_rep (present, words, len)"
    "map_reserve dflt index (vs, present, words) = (vs', present', words')"
  shows "length vs' = length present' \<and> dense_rep (present', words', len) \<and> index < length present' \<and>
    dense_fun vs' present' = dense_fun vs present"
proof -
  have "index < length present' \<and> marked present' = marked present \<and>
    dense_rep (present', words', len) \<and> length vs' = length present' \<and>
    (\<forall>i < length vs. vs' ! i = vs ! i)"
    using assms dense_rep_resize [of present words len index]
    by (auto simp: map_reserve_def nth_vec_resize split: if_splits)
  then show ?thesis using assms(1) by (auto simp: dense_fun_def fun_eq_iff) (auto simp: marked_def)
qed

text \<open>Writing a slot and marking it updates the represented function at that key.\<close>

lemma dense_fun_write:
  assumes "length vs = length present" "dense_rep (present, words, len)" "index < length present"
    "mark_index index (present, words, len) = (present', words', len')"
  shows "length (vs[index := v]) = length present' \<and> dense_rep (present', words', len') \<and>
    dense_fun (vs[index := v]) present' = (dense_fun vs present)(int index \<mapsto> v)"
proof -
  note * = dense_rep_mark [OF assms(2,3), unfolded assms(4)]
  then show ?thesis using assms(1,3)
    by (auto simp: dense_fun_def fun_eq_iff nth_list_update)
qed

lemma map_insert_correct:
  assumes "map_invar m"
  shows "map_invar (map_insert dflt key v m) \<and>
    map_of_adaptive (map_insert dflt key v m) = (map_of_adaptive m)(key \<mapsto> v)"
proof (cases m)
  case (MapHash hash)
  then show ?thesis by simp
next
  case (MapDense vs present words len)
  with assms have inv: "length vs = length present" "dense_rep (present, words, len)" by auto
  show ?thesis
  proof (cases "adaptive_dense_index key DEFAULT_MAX_DENSE_I64_KEY")
    case None
    then show ?thesis using MapDense inv by (simp add: dense_to_hash_lookup)
  next
    case (Some index)
    then have key: "key = int index" by (simp add: rust_simps)
    obtain vs' present' words' where r: "map_reserve dflt index (vs, present, words) = (vs', present', words')"
      by (metis prod_cases3)
    note r' = map_reserve_invar [OF inv r]
    obtain p w l where k: "mark_index index (present', words', len) = (p, w, l)" by (metis prod_cases3)
    show ?thesis
      using MapDense Some r r' k key dense_fun_write [of vs' present' words' len index p w l v] by simp
  qed
qed

lemma map_update_correct:
  assumes "map_invar m"
  shows "map_invar (map_update dflt key init upd m) \<and>
    map_of_adaptive (map_update dflt key init upd m) =
      (map_of_adaptive m)(key \<mapsto> upd (case map_of_adaptive m key of None \<Rightarrow> init | Some v \<Rightarrow> v))"
proof (cases m)
  case (MapHash hash)
  then show ?thesis by (simp add: entry_update_def)
next
  case (MapDense vs present words len)
  with assms have inv: "length vs = length present" "dense_rep (present, words, len)" by auto
  show ?thesis
  proof (cases "adaptive_dense_index key DEFAULT_MAX_DENSE_I64_KEY")
    case None
    then show ?thesis using MapDense inv by (simp add: dense_to_hash_lookup entry_update_def)
  next
    case (Some index)
    then have key: "key = int index" by (simp add: rust_simps)
    obtain vs' present' words' where r: "map_reserve dflt index (vs, present, words) = (vs', present', words')"
      by (metis prod_cases3)
    note r' = map_reserve_invar [OF inv r]
    obtain p w l where k: "mark_index index (present', words', len) = (p, w, l)" by (metis prod_cases3)
    define vs2 where "vs2 = (if \<not> present' ! index then vs'[index := init] else vs')"
    have cur: "vs2 ! index = (case dense_fun vs present key of None \<Rightarrow> init | Some v \<Rightarrow> v)"
      using r' key by (auto simp: vs2_def dense_fun_def marked_def fun_eq_iff dest!: spec [of _ key])
    have "vs2[index := x] = vs'[index := x]" for x by (simp add: vs2_def)
    then show ?thesis
      using MapDense Some r r' k key cur vs2_def
        dense_fun_write [of vs' present' words' len index p w l "upd (vs2 ! index)"]
      by simp
  qed
qed

text \<open>The vector builder of \<open>from_hash\<close>: entries in range, one slot each.\<close>

lemma fold_map_mark:
  assumes "length vs = length present" "dense_rep (present, words, len)"
    "\<forall>k \<in> set (map fst entries). 0 \<le> k \<and> nat k < length present"
    "fold (\<lambda>(key, value). map_mark (nat key) (key, value)) entries (vs, present, words, len) =
       (vs', present', words', len')"
  shows "length vs' = length present' \<and> dense_rep (present', words', len') \<and>
    dense_fun vs' present' = dense_fun vs present ++ map_of (rev entries)"
  using assms
proof (induction entries arbitrary: vs present words len)
  case Nil
  then show ?case by simp
next
  case (Cons e entries)
  obtain k v where e: "e = (k, v)" by (cases e)
  obtain p w l where m: "mark_index (nat k) (present, words, len) = (p, w, l)" by (metis prod_cases3)
  have k: "0 \<le> k" "nat k < length present" using Cons.prems(3) e by auto
  note step = dense_fun_write [OF Cons.prems(1,2) k(2) m, of v]
  have len: "length p = length present" using step Cons.prems(1) by simp
  have "length vs' = length present' \<and> dense_rep (present', words', len') \<and>
      dense_fun vs' present' = dense_fun (vs[nat k := v]) p ++ map_of (rev entries)"
    using step Cons.prems(3,4) len e m
    by (intro Cons.IH [where words = w and len = l]) (auto simp: map_mark_def)
  moreover have "(dense_fun vs present)(k \<mapsto> v) ++ map_of (rev entries) =
      dense_fun vs present ++ map_of (rev (e # entries))"
    unfolding e by (rule map_upd_then_rev)
  ultimately show ?case using step k by simp
qed

lemma map_new_dense_correct [simp]:
  "map_invar map_new_dense" "map_of_adaptive map_new_dense = Map.empty"
  by (simp_all add: map_new_dense_def dense_rep_def div_ceil_def dense_fun_def fun_eq_iff)

lemma map_from_hash_correct:
  assumes "distinct (map fst entries)"
  shows "map_invar (map_from_hash dflt entries) \<and>
    map_of_adaptive (map_from_hash dflt entries) = map_of entries"
proof (cases "max_dense_index DEFAULT_MAX_DENSE_I64_KEY (map fst entries) 0")
  case None
  then show ?thesis by (auto simp: map_from_hash_def fmlookup_of_list map_new_dense_def)
next
  case (Some k)
  let ?z = "(replicate (k + 1) dflt, replicate (k + 1) False, replicate (div_ceil (k + 1) 64) (0 :: u64), 0 :: nat)"
  obtain vs present words len where r: "fold (\<lambda>(key, value). map_mark (nat key) (key, value)) entries ?z =
      (vs, present, words, len)" by (cases "fold (\<lambda>(key, value). map_mark (nat key) (key, value)) entries ?z") blast
  have ks: "\<forall>x \<in> set (map fst entries). 0 \<le> x \<and> nat x < k + 1"
    using max_dense_index_SomeD [OF Some] by auto
  have "length vs = length present \<and> dense_rep (present, words, len) \<and>
      dense_fun vs present = dense_fun (replicate (k + 1) dflt) (replicate (k + 1) False) ++ map_of (rev entries)"
    by (rule fold_map_mark [OF _ _ _ r]) (use ks in \<open>simp_all add: dense_rep_def del: replicate_Suc\<close>)
  moreover have "dense_fun (replicate (k + 1) dflt) (replicate (k + 1) False) = Map.empty"
    by (simp add: dense_fun_def fun_eq_iff del: replicate_Suc)
  moreover have "map_of (rev entries) = map_of entries"
    using map_of_rev_distinct [OF assms] .
  ultimately have "map_invar (MapDense vs present words len)"
      "map_of_adaptive (MapDense vs present words len) = map_of entries" by simp_all
  then show ?thesis using Some r by (auto simp: map_from_hash_def simp del: replicate_Suc)
qed

lemma into_filtered_hash_correct:
  assumes "map_invar m"
  shows "fmlookup (into_filtered_hash P m) =
    (\<lambda>k. case map_of_adaptive m k of None \<Rightarrow> None | Some v \<Rightarrow> if P v then Some v else None)"
proof (cases m)
  case (MapHash hash)
  then show ?thesis by (auto simp: fun_eq_iff split: option.splits)
next
  case (MapDense vs present words len)
  with assms have "length vs = length present" by simp
  from map_of_filtered_slots [OF this, of P] show ?thesis
    using MapDense by (simp add: fmlookup_of_list fun_eq_iff)
qed

lemma get_cached_correct:
  assumes "map_invar m"
  shows "get_cached m (dense_slices m) = map_of_adaptive m"
    and "get_cached_words m (dense_word_slices m) = map_of_adaptive m"
proof -
  show "get_cached m (dense_slices m) = map_of_adaptive m"
    by (cases m) (auto simp: get_cached_def fun_eq_iff dense_fun_def marked_def usize_try_from_def
        vec_get_def)
  show "get_cached_words m (dense_word_slices m) = map_of_adaptive m"
    using assms by (cases m) (auto simp: get_cached_words_def fun_eq_iff words_lookup_eq)
qed

lemma dom_dense_fun: "dom (dense_fun vs present) = int ` marked present"
  by (auto simp: dense_fun_def dom_def mem_int_image split: if_splits)

lemma map_is_empty_correct: "map_invar m \<Longrightarrow> map_is_empty m \<longleftrightarrow> map_of_adaptive m = Map.empty"
proof (cases m)
  case (MapHash hash)
  then show ?thesis by (auto intro: fmap_ext)
next
  case (MapDense vs present words len)
  assume "map_invar m"
  then have "len = card (marked present)" using MapDense by (auto dest: dense_rep_count)
  moreover have "dense_fun vs present = Map.empty \<longleftrightarrow> marked present = {}"
    using dom_dense_fun [of vs present] by (metis dom_eq_empty_conv image_is_empty)
  ultimately show ?thesis using MapDense by simp
qed

text \<open>The pushed-down key range of a map is that of the set of its keys.\<close>

lemma map_selective_key_range_eq:
  assumes "map_invar m"
  shows "\<exists>s. set_invar s \<and> elems s = dom (map_of_adaptive m) \<and>
    map_selective_key_range m = set_selective_key_range s"
proof (cases m)
  case (MapDense vs present words len)
  then show ?thesis using assms
    by (intro exI [of _ "SetDense present words len 0"]) (simp add: dom_dense_fun)
next
  case (MapHash hash)
  then show ?thesis
    by (intro exI [of _ "SetHash (fmdom' hash)"]) simp
qed

subsection \<open>\<open>DenseI64BoolLookup\<close>\<close>

lemma bool_lookup_get_eq:
  "bool_lookup_get l = dense_fun (bl_values l) (bl_present l)"
  by (auto simp: bool_lookup_get_def dense_fun_def marked_def fun_eq_iff usize_try_from_def)

lemma bool_lookup_insert_correct:
  assumes "bool_lookup_invar l"
  shows "bool_lookup_invar (bool_lookup_insert key v l) \<and>
    bool_lookup_get (bool_lookup_insert key v l) =
      (if 0 \<le> key \<and> nat key \<le> DEFAULT_MAX_DENSE_I64_KEY then (bool_lookup_get l)(key \<mapsto> v)
       else bool_lookup_get l)"
proof (cases "adaptive_dense_index key DEFAULT_MAX_DENSE_I64_KEY")
  case None
  then have "\<not> (0 \<le> key \<and> nat key \<le> DEFAULT_MAX_DENSE_I64_KEY)" by (auto simp: rust_simps)
  with None show ?thesis using assms by (auto simp: bool_lookup_insert_def)
next
  case (Some i)
  then have key: "key = int i" "i \<le> DEFAULT_MAX_DENSE_I64_KEY" by (auto simp: rust_simps)
  define p where "p = (if i \<ge> length (bl_present l) then vec_resize (i + 1) False (bl_present l) else bl_present l)"
  define vs where "vs = (if i \<ge> length (bl_present l) then vec_resize (i + 1) False (bl_values l) else bl_values l)"
  have inv: "length (bl_values l) = length (bl_present l)"
    "bl_len l = length (filter (\<lambda>b. b) (bl_present l))"
    using assms by (auto simp: bool_lookup_invar_def)
  have p: "i < length p" "length vs = length p" "marked p = marked (bl_present l)"
    using inv by (auto simp: p_def vs_def)
  have d: "dense_fun vs p = dense_fun (bl_values l) (bl_present l)"
    using inv p(3) by (intro dense_fun_cong) (auto simp: vs_def nth_vec_resize marked_def)
  have rep: "dense_rep (p, adaptive_i64_set_words_from_contains p, bl_len l)"
    using inv(2) p(3) by (simp add: dense_rep_def bitmap_words_from_contains marked_def [symmetric] card_marked [symmetric])
  obtain p' w' len' where mk: "mark_index i (p, adaptive_i64_set_words_from_contains p, bl_len l) = (p', w', len')"
    by (metis prod_cases3)
  have "bool_lookup_insert key v l = \<lparr>bl_present = p', bl_values = vs[i := v], bl_len = len'\<rparr>"
    using mk Some by (cases l) (auto simp: bool_lookup_insert_def mark_index_def p_def vs_def Let_def split: if_splits)
  then show ?thesis
    using dense_fun_write [OF p(2) rep p(1) mk, of v] d key
    by (auto simp: bool_lookup_get_eq bool_lookup_invar_def dense_rep_def)
qed

subsection \<open>The interface of an integer key map\<close>

text \<open>\<open>accepts k\<close> says whether the map stores key \<open>k\<close>; other keys are ignored.\<close>

locale i64_map =
  fixes empty :: 'm
    and upd :: "int \<Rightarrow> 'v \<Rightarrow> 'm \<Rightarrow> 'm"
    and get :: "'m \<Rightarrow> int \<Rightarrow> 'v option"
    and invar :: "'m \<Rightarrow> bool"
    and accepts :: "int \<Rightarrow> bool"
  assumes invar_empty: "invar empty"
    and get_empty: "get empty = Map.empty"
    and invar_upd: "invar m \<Longrightarrow> invar (upd k v m)"
    and get_upd: "invar m \<Longrightarrow> get (upd k v m) = (if accepts k then (get m)(k \<mapsto> v) else get m)"
begin

lemma fold_upd:
  "invar m \<Longrightarrow> invar (fold (\<lambda>(k, v). upd k v) kvs m) \<and>
     get (fold (\<lambda>(k, v). upd k v) kvs m) =
       get m ++ map_of (rev (filter (\<lambda>(k, v). accepts k) kvs))"
proof (induction kvs arbitrary: m)
  case (Cons e kvs)
  obtain k v where "e = (k, v)" by (cases e)
  with Cons show ?case by (auto simp: invar_upd get_upd fun_eq_iff map_add_def split: option.splits)
qed simp

text \<open>The last accepted pair for a key wins.\<close>

lemma build:
  "invar (fold (\<lambda>(k, v). upd k v) kvs empty) \<and>
   get (fold (\<lambda>(k, v). upd k v) kvs empty) = map_of (rev (filter (\<lambda>(k, v). accepts k) kvs))"
  using fold_upd [OF invar_empty] by (simp add: get_empty)

end

interpretation adaptive_map: i64_map map_new_dense "map_insert dflt" map_get map_invar "\<lambda>_. True"
  for dflt
proof unfold_locales
  show "map_get map_new_dense = Map.empty" by (simp add: map_get_correct)
  show "map_invar (map_insert dflt k v m)" if "map_invar m" for m k and v :: 'a
    using that by (simp add: map_insert_correct)
  show "map_get (map_insert dflt k v m) = (if True then (map_get m)(k \<mapsto> v) else map_get m)"
    if "map_invar m" for m k and v :: 'a
    using that map_insert_correct [OF that] by (simp add: map_get_correct)
qed simp

interpretation bool_lookup: i64_map bool_lookup_default bool_lookup_insert bool_lookup_get
    bool_lookup_invar "\<lambda>k. 0 \<le> k \<and> nat k \<le> DEFAULT_MAX_DENSE_I64_KEY"
  by unfold_locales
    (simp_all add: bool_lookup_insert_correct,
     simp_all add: bool_lookup_default_def bool_lookup_invar_def bool_lookup_get_eq dense_fun_def fun_eq_iff)

subsection \<open>Properties\<close>

text \<open>
  C22: a map built by inserts returns, on each of its three lookup paths, the value written last for
  the key, whichever of its representations the keys led to.
\<close>

theorem adaptive_map_last_write_wins:
  "let m = fold (\<lambda>(k, v). map_insert dflt k v) kvs map_new_dense
   in map_get m = map_of (rev kvs) \<and> get_cached m (dense_slices m) = map_of (rev kvs) \<and>
      get_cached_words m (dense_word_slices m) = map_of (rev kvs) \<and>
      (map_is_empty m \<longleftrightarrow> kvs = [])"
proof -
  define m where "m = fold (\<lambda>(k, v). map_insert dflt k v) kvs map_new_dense"
  have m: "map_invar m" "map_get m = map_of (rev kvs)"
    using adaptive_map.build [of dflt kvs] by (simp_all add: m_def)
  then have f: "map_of_adaptive m = map_of (rev kvs)" by (simp add: map_get_correct)
  have "map_of (rev kvs) = Map.empty \<longleftrightarrow> kvs = []" by (cases kvs rule: rev_cases) (auto simp: fun_eq_iff)
  then show ?thesis
    using m f by (simp add: m_def [symmetric] Let_def get_cached_correct map_is_empty_correct)
qed

text \<open>
  \<open>update\<close> applies the function to the stored value, or to the initial one when the key is new,
  and leaves every other key alone; the map stays well formed.
\<close>

theorem adaptive_map_update_entry:
  assumes "map_invar m"
  shows "map_invar (map_update dflt key init upd m) \<and>
    map_get (map_update dflt key init upd m) =
      (map_get m)(key \<mapsto> upd (case map_get m key of None \<Rightarrow> init | Some v \<Rightarrow> v))"
  using assms map_update_correct [OF assms, of dflt key init upd] by (simp add: map_get_correct)

theorem adaptive_map_update_entry_witness:
  "map_get (map_update 0 5 10 (\<lambda>v. v + 1) map_new_dense) 5 = Some (11 :: int)"
  using adaptive_map_update_entry [OF map_new_dense_correct(1), of "0 :: int" 5 10 "\<lambda>v. v + 1"]
  by (simp add: map_get_correct)

text \<open>\<open>into_filtered_hash\<close> keeps exactly the entries whose value passes the predicate.\<close>

theorem adaptive_map_filtered:
  assumes "map_invar m"
  shows "fmlookup (into_filtered_hash P m) k = Some v \<longleftrightarrow> map_get m k = Some v \<and> P v"
  using assms by (auto simp: into_filtered_hash_correct map_get_correct split: option.splits if_splits)

theorem adaptive_map_filtered_witness:
  "fmlookup (into_filtered_hash (\<lambda>v. 0 < v) (map_insert 0 5 10 map_new_dense)) 5 = Some (10 :: int)"
proof -
  have "map_invar (map_insert (0 :: int) 5 10 map_new_dense)"
    "map_get (map_insert (0 :: int) 5 10 map_new_dense) 5 = Some 10"
    by (simp_all add: map_insert_correct map_get_correct)
  then show ?thesis by (simp add: adaptive_map_filtered)
qed

text \<open>
  \<open>DenseI64BoolLookup\<close> keeps the last flag written for every key between 0 and its bound, and
  drops writes to any other key.
\<close>

theorem bool_lookup_last_write_in_range:
  "bool_lookup_get (fold (\<lambda>(k, v). bool_lookup_insert k v) kvs bool_lookup_default) =
     map_of (rev (filter (\<lambda>(k, v). 0 \<le> k \<and> nat k \<le> DEFAULT_MAX_DENSE_I64_KEY) kvs))"
  using bool_lookup.build [of kvs] by simp

end
