(* ===== verification/Dense_Range_Map.thy ===== *)
theory Dense_Range_Map
  imports Dense_Map
begin

text \<open>
  \<open>DenseI64Map\<close> and \<open>PackedU32PairDistinct\<close> of \<open>dense.rs\<close>.  A \<open>DenseI64Map\<close> keeps the keys of one
  range \<open>base_key ..\<close> in a vector whose free slots hold the value \<open>missing\<close>, or falls back to an
  adaptive map; a packed pair list counts the distinct second components of each first component.

  The only floating-point step, \<open>width as f64 <= row_count as f64 * max_amplification\<close> together with
  the test that the factor is finite and at least one, is the argument \<open>amplification_ok\<close>: it decides
  between two representations and no result depends on it.
\<close>

subsection \<open>\<open>DenseI64Map\<close>: state and operations\<close>

record 'v dense_i64_map =
  dense :: "'v list"
  base_key :: int
  missing :: 'v
  fallback :: "'v adaptive_i64_map option"

definition dm_new :: "'v \<Rightarrow> 'v dense_i64_map" where
  "dm_new miss = \<lparr>dense = [], base_key = 0, missing = miss, fallback = None\<rparr>"

definition dense_i64_range_within_amplification ::
    "(int \<Rightarrow> nat \<Rightarrow> bool) \<Rightarrow> int \<Rightarrow> int \<Rightarrow> nat \<Rightarrow> bool" where
  "dense_i64_range_within_amplification amplification_ok min_key max_key row_count =
     (if row_count = 0 then True
      else case Option.bind (i64_checked (max_key - min_key)) (\<lambda>w. i64_checked (w + 1)) of
             None \<Rightarrow> False
           | Some width \<Rightarrow> amplification_ok width row_count)"

definition reserve_dense_range ::
    "int \<Rightarrow> int \<Rightarrow> nat \<Rightarrow> 'v dense_i64_map \<Rightarrow> bool \<times> 'v dense_i64_map" where
  "reserve_dense_range min_key max_key max_entries m =
     (if min_key < 0 \<or> max_key < min_key then (False, m)
      else case (if dense m = [] then Some (min_key, max_key)
                 else case Option.bind (i64_checked (base_key m + int (length (dense m))))
                                       (\<lambda>v. i64_checked (v - 1)) of
                        None \<Rightarrow> None
                      | Some current_max \<Rightarrow> Some (min (base_key m) min_key, max current_max max_key)) of
             None \<Rightarrow> (False, m)
           | Some (new_min, new_max) \<Rightarrow>
               (case Option.bind (Option.bind (i64_checked (new_max - new_min))
                                              (\<lambda>w. i64_checked (w + 1))) usize_try_from of
                  None \<Rightarrow> (False, m)
                | Some width \<Rightarrow>
                    if width > max_entries then (False, m)
                    else if dense m = [] then
                      (True, m\<lparr>base_key := new_min, dense := vec_resize width (missing m) (dense m)\<rparr>)
                    else if new_min = base_key m then
                      (True, if width > length (dense m)
                             then m\<lparr>dense := vec_resize width (missing m) (dense m)\<rparr> else m)
                    else
                      (let offset = nat (base_key m - new_min)
                       in (True, m\<lparr>base_key := new_min,
                                   dense := replicate offset (missing m) @ dense m @
                                     replicate (width - offset - length (dense m)) (missing m)\<rparr>))))"

definition insert_dense_key :: "int \<Rightarrow> 'v \<Rightarrow> 'v dense_i64_map \<Rightarrow> 'v dense_i64_map" where
  "insert_dense_key key value m =
     (case Option.bind (i64_checked (key - base_key m)) usize_try_from of
        None \<Rightarrow> m
      | Some index \<Rightarrow>
          if index < length (dense m) then m\<lparr>dense := (dense m)[index := value]\<rparr> else m)"

text \<open>The loop over the keys in \<open>from_pairs_with_dense_range_policy\<close>: \<open>None\<close> at a negative key.\<close>

fun key_bounds :: "(int \<times> 'v) list \<Rightarrow> int \<Rightarrow> int \<Rightarrow> (int \<times> int) option" where
  "key_bounds [] min_key max_key = Some (min_key, max_key)"
| "key_bounds ((key, value) # pairs) min_key max_key =
     (if key < 0 then None else key_bounds pairs (min min_key key) (max max_key key))"

definition hash_of_pairs :: "(int \<times> 'v) list \<Rightarrow> (int, 'v) fmap" where
  "hash_of_pairs pairs = fold (\<lambda>(key, value). fmupd key value) pairs fmempty"

definition from_pairs_with_dense_range_policy ::
    "(int \<Rightarrow> nat \<Rightarrow> bool) \<Rightarrow> (int \<times> 'v) list \<Rightarrow> 'v \<Rightarrow> nat \<Rightarrow> 'v dense_i64_map" where
  "from_pairs_with_dense_range_policy amplification_ok pairs miss max_entries =
     (let m = dm_new miss;
          fallback_map = m\<lparr>fallback := Some (MapHash (hash_of_pairs pairs))\<rparr>
      in if pairs = [] then m
         else case key_bounds pairs i64_max i64_min of
                None \<Rightarrow> fallback_map
              | Some (min_key, max_key) \<Rightarrow>
                  if dense_i64_range_within_amplification amplification_ok min_key max_key (length pairs)
                  then (case reserve_dense_range min_key max_key max_entries m of
                          (True, m) \<Rightarrow> fold (\<lambda>(key, value). insert_dense_key key value) pairs m
                        | (False, m) \<Rightarrow> fallback_map)
                  else fallback_map)"

definition dm_get :: "'v dense_i64_map \<Rightarrow> int \<Rightarrow> 'v option" where
  "dm_get m key =
     (case fallback m of
        Some fb \<Rightarrow> map_get fb key
      | None \<Rightarrow>
          (case Option.bind (Option.bind (i64_checked (key - base_key m)) usize_try_from)
                            (vec_get (dense m)) of
             None \<Rightarrow> None
           | Some v \<Rightarrow> if v \<noteq> missing m then Some v else None))"

definition dm_len :: "'v dense_i64_map \<Rightarrow> nat" where
  "dm_len m =
     (case fallback m of
        Some (MapDense vs present words len) \<Rightarrow> len
      | Some (MapHash hash) \<Rightarrow> card (fmdom' hash)
      | None \<Rightarrow> length (filter (\<lambda>v. v \<noteq> missing m) (dense m)))"

definition dm_is_empty :: "'v dense_i64_map \<Rightarrow> bool" where
  "dm_is_empty m \<longleftrightarrow> dm_len m = 0"

definition dm_selective_key_range :: "'v dense_i64_map \<Rightarrow> (int \<times> int) option" where
  "dm_selective_key_range m =
     (case fallback m of
        Some fb \<Rightarrow> map_selective_key_range fb
      | None \<Rightarrow>
          (case (position (\<lambda>v. v \<noteq> missing m) (dense m), rposition (\<lambda>v. v \<noteq> missing m) (dense m)) of
             (Some min_offset, Some max_offset) \<Rightarrow>
               selective_i64_range (base_key m + int min_offset) (base_key m + int max_offset) (dm_len m)
           | _ \<Rightarrow> None))"

fun insert_slots :: "'v \<Rightarrow> 'v \<Rightarrow> int \<Rightarrow> 'v list \<Rightarrow> 'v adaptive_i64_map \<Rightarrow> 'v adaptive_i64_map" where
  "insert_slots dflt miss key [] fb = fb"
| "insert_slots dflt miss key (value # vs) fb =
     insert_slots dflt miss (key + 1) vs
       (if value \<noteq> miss then map_insert dflt key value fb else fb)"

definition dm_convert_to_fallback :: "'v \<Rightarrow> 'v dense_i64_map \<Rightarrow> 'v dense_i64_map" where
  "dm_convert_to_fallback dflt m =
     (if fallback m \<noteq> None then m
      else m\<lparr>dense := [],
             fallback := Some (insert_slots dflt (missing m) (base_key m) (dense m) map_new_dense)\<rparr>)"

subsection \<open>\<open>DenseI64Map\<close>: invariant and correctness\<close>

text \<open>The keys of the dense range are nonnegative \<open>i64\<close> values, and a fallback map is well formed.\<close>

definition dm_invar :: "'v dense_i64_map \<Rightarrow> bool" where
  "dm_invar m \<longleftrightarrow>
     0 \<le> base_key m \<and> base_key m + int (length (dense m)) \<le> i64_max \<and>
     (\<forall>fb. fallback m = Some fb \<longrightarrow> map_invar fb)"

text \<open>Lookup in the dense range, without the machine arithmetic.\<close>

definition range_fun :: "'v dense_i64_map \<Rightarrow> int \<Rightarrow> 'v option" where
  "range_fun m key =
     (if base_key m \<le> key \<and> nat (key - base_key m) < length (dense m) \<and>
         dense m ! nat (key - base_key m) \<noteq> missing m
      then Some (dense m ! nat (key - base_key m)) else None)"

lemma dm_index:
  assumes "0 \<le> base" "is_i64 key"
  shows "Option.bind (i64_checked (key - base)) usize_try_from =
    (if base \<le> key then Some (nat (key - base)) else None)"
  using assms by (auto simp: i64_checked_def usize_try_from_def is_i64_def)

lemma dm_get_dense:
  assumes "dm_invar m" "fallback m = None" "is_i64 key"
  shows "dm_get m key = range_fun m key"
  using assms dm_index [of "base_key m" key]
  by (auto simp: dm_get_def dm_invar_def range_fun_def vec_get_def)

lemma dm_get_new [simp]: "is_i64 key \<Longrightarrow> dm_get (dm_new miss) key = None"
  by (simp add: dm_get_dense dm_invar_def dm_new_def range_fun_def)

lemma insert_dense_key_correct:
  assumes "dm_invar m" "fallback m = None" "v \<noteq> missing m"
    "base_key m \<le> key" "nat (key - base_key m) < length (dense m)"
  shows "dm_invar (insert_dense_key key v m) \<and> fallback (insert_dense_key key v m) = None \<and>
    base_key (insert_dense_key key v m) = base_key m \<and> missing (insert_dense_key key v m) = missing m \<and>
    length (dense (insert_dense_key key v m)) = length (dense m) \<and>
    range_fun (insert_dense_key key v m) = (range_fun m)(key \<mapsto> v)"
proof -
  have "is_i64 key" using assms by (auto simp: dm_invar_def is_i64_def)
  then have "insert_dense_key key v m = m\<lparr>dense := (dense m)[nat (key - base_key m) := v]\<rparr>"
    using assms dm_index [of "base_key m" key] by (simp add: insert_dense_key_def dm_invar_def)
  moreover have "key' = key" if "base_key m \<le> key'" "nat (key' - base_key m) = nat (key - base_key m)" for key'
    using that assms(4) by linarith
  ultimately show ?thesis using assms
    by (auto simp: dm_invar_def range_fun_def fun_eq_iff nth_list_update)
qed

lemma padded_nth:
  "i < a + length xs + b \<Longrightarrow>
     (replicate a x @ xs @ replicate b x) ! i = (if a \<le> i \<and> i < a + length xs then xs ! (i - a) else x)"
  by (auto simp: nth_append not_less)

lemma range_fun_padded:
  assumes "fallback m' = fallback m" "missing m' = missing m" "base_key m' \<le> base_key m"
    "dense m' = replicate (nat (base_key m - base_key m')) (missing m) @ dense m @ replicate b (missing m)"
  shows "range_fun m' = range_fun m"
proof
  fix key
  let ?a = "nat (base_key m - base_key m')"
  show "range_fun m' key = range_fun m key"
  proof (cases "base_key m' \<le> key \<and> nat (key - base_key m') < ?a + length (dense m) + b")
    case True
    have sub: "nat (key - base_key m') - ?a = nat (key - base_key m)" if "base_key m \<le> key"
      using that assms(3) by linarith
    have iff: "?a \<le> nat (key - base_key m') \<and> nat (key - base_key m') < ?a + length (dense m) \<longleftrightarrow>
        base_key m \<le> key \<and> nat (key - base_key m) < length (dense m)"
      using True assms(3) by auto
    have "dense m' ! nat (key - base_key m') =
        (if base_key m \<le> key \<and> nat (key - base_key m) < length (dense m)
         then dense m ! (nat (key - base_key m') - ?a) else missing m)"
      unfolding assms(4) using True by (subst padded_nth) (simp_all only: iff)
    also have "\<dots> = (if base_key m \<le> key \<and> nat (key - base_key m) < length (dense m)
         then dense m ! nat (key - base_key m) else missing m)"
      using sub by simp
    finally have "dense m' ! nat (key - base_key m') =
        (if base_key m \<le> key \<and> nat (key - base_key m) < length (dense m)
         then dense m ! nat (key - base_key m) else missing m)" .
    then show ?thesis using True assms by (auto simp: range_fun_def)
  next
    case False
    then show ?thesis using assms by (auto simp: range_fun_def)
  qed
qed

text \<open>A successful reservation keeps every lookup and makes the requested keys storable.\<close>

lemma reserve_dense_range_correct:
  assumes "dm_invar m" "fallback m = None" "max_key < i64_max"
    "reserve_dense_range min_key max_key max_entries m = (True, m')"
  shows "dm_invar m' \<and> fallback m' = None \<and> missing m' = missing m \<and> range_fun m' = range_fun m \<and>
    base_key m' \<le> min_key \<and> max_key < base_key m' + int (length (dense m')) \<and>
    length (dense m') \<le> max (length (dense m)) max_entries"
proof -
  have rng: "0 \<le> min_key" "min_key \<le> max_key"
    using assms(4) by (auto simp: reserve_dense_range_def split: if_splits)
  show ?thesis
  proof (cases "dense m = []")
    case True
    then have "nat (max_key - min_key + 1) \<le> max_entries \<and>
        m' = m\<lparr>base_key := min_key, dense := replicate (nat (max_key - min_key + 1)) (missing m)\<rparr>"
      using assms(4) rng
      by (auto simp: reserve_dense_range_def rust_simps Option.bind_eq_Some_conv vec_resize_def
          split: if_splits option.splits)
    then show ?thesis using True assms(1-3) rng
      by (auto simp: dm_invar_def range_fun_def fun_eq_iff)
  next
    case False
    define cur where "cur = base_key m + int (length (dense m)) - 1"
    define lo where "lo = min (base_key m) min_key"
    define hi where "hi = max cur max_key"
    have inv: "0 \<le> base_key m" "cur < i64_max" "base_key m \<le> cur"
      using assms(1) False by (auto simp: dm_invar_def cur_def Suc_le_eq)
    have "Option.bind (i64_checked (base_key m + int (length (dense m)))) (\<lambda>v. i64_checked (v - 1)) = Some cur"
      using inv by (auto simp: Option.bind_eq_Some_conv rust_simps is_i64_def cur_def)
    moreover have "Option.bind (Option.bind (i64_checked (hi - lo)) (\<lambda>w. i64_checked (w + 1))) usize_try_from =
        Some (nat (hi - lo + 1))"
      using inv rng assms(3) by (auto simp: Option.bind_eq_Some_conv rust_simps is_i64_def lo_def hi_def)
    ultimately have w: "nat (hi - lo + 1) \<le> max_entries" and
      m': "m' = (if lo = base_key m
                 then (if nat (hi - lo + 1) > length (dense m)
                       then m\<lparr>dense := vec_resize (nat (hi - lo + 1)) (missing m) (dense m)\<rparr> else m)
                 else m\<lparr>base_key := lo, dense := replicate (nat (base_key m - lo)) (missing m) @ dense m @
                   replicate (nat (hi - lo + 1) - nat (base_key m - lo) - length (dense m)) (missing m)\<rparr>)"
      using assms(4) rng False
      by (auto simp: reserve_dense_range_def lo_def [symmetric] hi_def [symmetric] Let_def split: if_splits)
    have len: "int (length (dense m)) = cur - base_key m + 1" by (simp add: cur_def)
    have le: "nat (base_key m - lo) + length (dense m) \<le> nat (hi - lo + 1)"
      using inv by (simp add: lo_def hi_def cur_def)
    have d: "length (dense m') = nat (hi - lo + 1)" "base_key m' = lo" "fallback m' = None" "missing m' = missing m"
      using m' le len inv assms(2) by (auto simp: hi_def lo_def split: if_splits)
    have "\<exists>b. dense m' = replicate (nat (base_key m - base_key m')) (missing m) @ dense m @
        replicate b (missing m)"
      using m' d(2) by (auto simp: vec_resize_def)
    then have r: "range_fun m' = range_fun m"
      using d assms(2) by (auto intro!: range_fun_padded simp: lo_def)
    have "0 \<le> lo" "lo \<le> min_key" "max_key \<le> hi" "hi < i64_max" "lo \<le> hi"
      using inv rng assms(3) by (auto simp: lo_def hi_def)
    then have "dm_invar m'" "max_key < base_key m' + int (length (dense m'))"
      using d by (auto simp: dm_invar_def)
    then show ?thesis using d r w \<open>lo \<le> min_key\<close> by simp
  qed
qed

lemma key_bounds_SomeD:
  "key_bounds pairs lo hi = Some (a, b) \<Longrightarrow>
     a \<le> lo \<and> hi \<le> b \<and> (b = hi \<or> b \<in> fst ` set pairs) \<and>
     (\<forall>(k, v) \<in> set pairs. 0 \<le> k \<and> a \<le> k \<and> k \<le> b)"
proof (induction pairs lo hi rule: key_bounds.induct)
  case (2 key v pairs lo hi)
  then have "key_bounds pairs (min lo key) (max hi key) = Some (a, b)" and "0 \<le> key"
    by (auto split: if_splits)
  with "2.IH" show ?case by (auto simp: max_def split: if_splits)
qed simp

lemma fold_insert_dense_key:
  assumes "dm_invar m" "fallback m = None"
    "\<forall>(k, v) \<in> set pairs. v \<noteq> missing m \<and> base_key m \<le> k \<and> nat (k - base_key m) < length (dense m)"
  shows "let m' = fold (\<lambda>(key, value). insert_dense_key key value) pairs m
    in dm_invar m' \<and> fallback m' = None \<and> range_fun m' = range_fun m ++ map_of (rev pairs)"
  using assms
proof (induction pairs arbitrary: m)
  case (Cons p pairs)
  obtain k v where p: "p = (k, v)" by (cases p)
  have "dm_invar (insert_dense_key k v m) \<and> fallback (insert_dense_key k v m) = None \<and>
    base_key (insert_dense_key k v m) = base_key m \<and> missing (insert_dense_key k v m) = missing m \<and>
    length (dense (insert_dense_key k v m)) = length (dense m) \<and>
    range_fun (insert_dense_key k v m) = (range_fun m)(k \<mapsto> v)"
    using Cons.prems p by (intro insert_dense_key_correct) auto
  then show ?case
    using Cons.IH [of "insert_dense_key k v m"] Cons.prems(3) p map_upd_then_rev [of "range_fun m" k v pairs]
    by (simp add: Let_def fun_upd_def del: rev.simps)
qed simp

lemma hash_of_pairs_lookup: "fmlookup (hash_of_pairs pairs) = map_of (rev pairs)"
proof -
  have "fmlookup (fold (\<lambda>(key, value). fmupd key value) pairs m) = fmlookup m ++ map_of (rev pairs)" for m
    by (induction pairs arbitrary: m) (auto simp: map_upd_then_rev simp del: rev.simps(2))
  then show ?thesis by (simp add: hash_of_pairs_def fun_eq_iff map_add_def split: option.splits)
qed

lemma fallback_map_get:
  "dm_get (m\<lparr>fallback := Some (MapHash (hash_of_pairs pairs))\<rparr>) key = map_of (rev pairs) key"
  by (simp add: dm_get_def hash_of_pairs_lookup)

text \<open>
  Whatever representation the policy picks, the map is the function of the pairs in which later
  pairs override earlier ones.
\<close>

lemma from_pairs_get:
  assumes "\<forall>(k, v) \<in> set pairs. is_i64 k \<and> k < i64_max \<and> v \<noteq> miss" "is_i64 key"
  shows "dm_get (from_pairs_with_dense_range_policy amp pairs miss max_entries) key =
    map_of (rev pairs) key"
proof (cases "pairs = []")
  case True
  then show ?thesis using assms(2) by (simp add: from_pairs_with_dense_range_policy_def)
next
  case ne: False
  show ?thesis
  proof (cases "key_bounds pairs i64_max i64_min")
    case None
    then show ?thesis using ne by (simp add: from_pairs_with_dense_range_policy_def fallback_map_get)
  next
    case (Some ab)
    obtain a b where ab: "ab = (a, b)" by (cases ab)
    note kb = key_bounds_SomeD [OF Some [unfolded ab]]
    have b: "b < i64_max"
      using kb ne assms(1) by (cases pairs) auto
    obtain ok m' where r: "reserve_dense_range a b max_entries (dm_new miss) = (ok, m')" by fastforce
    show ?thesis
    proof (cases "dense_i64_range_within_amplification amp a b (length pairs) \<and> ok")
      case False
      then show ?thesis using ne Some ab r
        by (auto simp: from_pairs_with_dense_range_policy_def fallback_map_get Let_def)
    next
      case True
      have inv0: "dm_invar (dm_new miss)" "fallback (dm_new miss) = None"
        by (auto simp: dm_invar_def dm_new_def)
      have e: "range_fun (dm_new miss) = Map.empty" by (simp add: dm_new_def range_fun_def fun_eq_iff)
      note res = reserve_dense_range_correct [OF inv0 b, of a max_entries m'] 
      have m': "dm_invar m' \<and> fallback m' = None \<and> missing m' = miss \<and> range_fun m' = Map.empty \<and>
          base_key m' \<le> a \<and> b < base_key m' + int (length (dense m'))"
        using res r True e by (simp add: dm_new_def)
      have "\<forall>(k, v) \<in> set pairs. v \<noteq> missing m' \<and> base_key m' \<le> k \<and>
          nat (k - base_key m') < length (dense m')"
        using assms(1) kb m' by fastforce
      note f = fold_insert_dense_key [OF _ _ this]
      have "from_pairs_with_dense_range_policy amp pairs miss max_entries =
          fold (\<lambda>(key, value). insert_dense_key key value) pairs m'"
        using ne Some ab r True by (simp add: from_pairs_with_dense_range_policy_def)
      then show ?thesis
        using f m' dm_get_dense [OF _ _ assms(2), of "fold (\<lambda>(key, value). insert_dense_key key value) pairs m'"]
        by (simp add: Let_def)
    qed
  qed
qed

lemma insert_slots_correct:
  assumes "map_invar fb"
  shows "map_invar (insert_slots dflt miss key vs fb) \<and>
    map_of_adaptive (insert_slots dflt miss key vs fb) = (\<lambda>k.
      if key \<le> k \<and> nat (k - key) < length vs \<and> vs ! nat (k - key) \<noteq> miss
      then Some (vs ! nat (k - key)) else map_of_adaptive fb k)"
  using assms
proof (induction vs arbitrary: key fb)
  case (Cons v vs)
  let ?fb = "if v \<noteq> miss then map_insert dflt key v fb else fb"
  have "map_invar ?fb" using Cons.prems by (simp add: map_insert_correct)
  moreover have "nat (k - key) = Suc (nat (k - (key + 1)))" if "key < k" for k
    using that by linarith
  ultimately show ?case using Cons.IH [of ?fb "key + 1"] Cons.prems
    by (auto simp: fun_eq_iff map_insert_correct nth_Cons' less_le)
qed simp

text \<open>Converting to the fallback map changes no lookup.\<close>

lemma dm_convert_to_fallback_correct:
  assumes "dm_invar m" "is_i64 key"
  shows "dm_invar (dm_convert_to_fallback dflt m) \<and> fallback (dm_convert_to_fallback dflt m) \<noteq> None \<and>
    dm_get (dm_convert_to_fallback dflt m) key = dm_get m key"
proof (cases "fallback m")
  case (Some fb)
  then show ?thesis using assms by (simp add: dm_convert_to_fallback_def)
next
  case None
  have "map_invar (map_new_dense :: 'a adaptive_i64_map)" by simp
  note ins = insert_slots_correct [OF this, of dflt "missing m" "base_key m" "dense m"]
  then show ?thesis using assms None
    by (auto simp: dm_convert_to_fallback_def dm_invar_def dm_get_dense [OF assms(1) None assms(2)])
      (auto simp: dm_get_def map_get_correct range_fun_def)
qed

subsection \<open>\<open>PackedU32PairDistinct\<close>\<close>

record packed_u32_pair_distinct =
  packed_pairs :: "u64 list"

definition packed_new :: packed_u32_pair_distinct where
  "packed_new = \<lparr>packed_pairs = []\<rparr>"

definition pack_u32_pair :: "nat \<Rightarrow> int \<Rightarrow> u64 option" where
  "pack_u32_pair first second =
     (if first < 2 ^ 32 \<and> 0 \<le> second \<and> second < 2 ^ 32
      then Some (push_bit 32 (of_nat first) OR of_int second) else None)"

definition unpack_u32_pair_first :: "u64 \<Rightarrow> nat" where
  "unpack_u32_pair_first key = unat (drop_bit 32 key)"

definition packed_push ::
    "nat \<Rightarrow> int \<Rightarrow> packed_u32_pair_distinct \<Rightarrow> bool \<times> packed_u32_pair_distinct" where
  "packed_push first second p =
     (case pack_u32_pair first second of
        None \<Rightarrow> (False, p)
      | Some key \<Rightarrow> (True, p\<lparr>packed_pairs := packed_pairs p @ [key]\<rparr>))"

definition packed_append ::
    "packed_u32_pair_distinct \<Rightarrow> packed_u32_pair_distinct \<Rightarrow> packed_u32_pair_distinct" where
  "packed_append p other = p\<lparr>packed_pairs := packed_pairs p @ packed_pairs other\<rparr>"

text \<open>\<open>counts.get_mut(first)\<close> and the increment.\<close>

definition bump_count :: "u64 \<Rightarrow> nat list \<Rightarrow> nat list" where
  "bump_count key counts =
     (let first = unpack_u32_pair_first key
      in if first < length counts then counts[first := counts ! first + 1] else counts)"

definition counts_by_first :: "nat \<Rightarrow> packed_u32_pair_distinct \<Rightarrow> nat list" where
  "counts_by_first first_count p =
     fold bump_count (remdups_adj (sort (packed_pairs p))) (replicate first_count 0)"

lemma pack_u32_pair_uint:
  "pack_u32_pair first second = Some key \<Longrightarrow>
     first < 2 ^ 32 \<and> 0 \<le> second \<and> second < 2 ^ 32 \<and> uint key = int first * 2 ^ 32 + second"
proof -
  assume a: "pack_u32_pair first second = Some key"
  then have r: "first < 2 ^ 32" "0 \<le> second" "second < 2 ^ 32"
    and key: "key = push_bit 32 (of_nat first) OR of_int second"
    by (auto simp: pack_u32_pair_def split: if_splits)
  have f: "uint (push_bit 32 (of_nat first) :: u64) = int first * 2 ^ 32"
    using r(1) by (simp add: push_bit_eq_mult uint_word_ariths unsigned_of_nat take_bit_eq_mod)
  have s: "uint (of_int second :: u64) = second"
    using r(2,3) by (simp add: unsigned_of_int take_bit_eq_mod)
  have "(push_bit 32 (of_nat first) :: u64) AND of_int second = 0"
  proof (rule bit_eqI)
    fix n
    have "bit (of_int second :: u64) n \<Longrightarrow> n < 32"
      using r(2,3) bit_take_bit_iff [of 32 second n] by (simp add: bit_word_of_int_iff take_bit_int_eq_self)
    then show "bit ((push_bit 32 (of_nat first) :: u64) AND of_int second) n = bit 0 n"
      by (auto simp: bit_and_iff bit_push_bit_iff)
  qed
  then have "key = push_bit 32 (of_nat first) + of_int second"
    using key by (simp add: disjunctive_add_eq_or)
  then have "uint key = int first * 2 ^ 32 + second"
    using r f s by (simp add: uint_plus_if')
  with r show ?thesis by simp
qed

lemma unpack_pack: "pack_u32_pair first second = Some key \<Longrightarrow> unpack_u32_pair_first key = first"
proof -
  assume "pack_u32_pair first second = Some key"
  from pack_u32_pair_uint [OF this] have "uint key div 2 ^ 32 = int first" by simp
  moreover have "int (unat key div 2 ^ 32) = uint key div 2 ^ 32" by (simp only: zdiv_int uint_nat) simp
  ultimately have "unat key div 2 ^ 32 = first" by (simp only: of_nat_eq_iff)
  then show ?thesis unfolding unpack_u32_pair_first_def unat_drop_bit_eq by (simp only: drop_bit_eq_div)
qed

lemma pack_u32_pair_inj:
  assumes "pack_u32_pair a s = Some key" "pack_u32_pair b t = Some key"
  shows "a = b \<and> s = t"
proof -
  have "a = b" using unpack_pack [OF assms(1)] unpack_pack [OF assms(2)] by simp
  then show ?thesis using pack_u32_pair_uint [OF assms(1)] pack_u32_pair_uint [OF assms(2)] by simp
qed

lemma distinct_dedup_sorted: "sorted xs \<Longrightarrow> distinct (remdups_adj xs)"
  by (induction xs rule: remdups_adj.induct) (auto simp: less_le)

lemma length_fold_bump_count [simp]: "length (fold bump_count ks counts) = length counts"
  by (induction ks arbitrary: counts) (auto simp: bump_count_def Let_def)

lemma fold_bump_count_nth:
  "f < length counts \<Longrightarrow>
     fold bump_count ks counts ! f = counts ! f + length (filter (\<lambda>k. unpack_u32_pair_first k = f) ks)"
proof (induction ks arbitrary: counts)
  case (Cons k ks)
  have "length (bump_count k counts) = length counts" by (simp add: bump_count_def Let_def)
  with Cons show ?case by (simp add: bump_count_def Let_def)
qed simp

lemma counts_by_first_nth:
  assumes "f < n"
  shows "counts_by_first n p ! f = card {k \<in> set (packed_pairs p). unpack_u32_pair_first k = f}"
proof -
  have "distinct (remdups_adj (sort (packed_pairs p)))" by (simp add: distinct_dedup_sorted)
  then have "length (filter (\<lambda>k. unpack_u32_pair_first k = f) (remdups_adj (sort (packed_pairs p)))) =
      card (set (filter (\<lambda>k. unpack_u32_pair_first k = f) (remdups_adj (sort (packed_pairs p)))))"
    by (intro distinct_card [symmetric] distinct_filter)
  then show ?thesis using assms by (simp add: counts_by_first_def fold_bump_count_nth)
qed

text \<open>Pushing a list of pairs, stopping the count of failures in the flag.\<close>

fun push_all :: "(nat \<times> int) list \<Rightarrow> packed_u32_pair_distinct \<Rightarrow> bool \<times> packed_u32_pair_distinct" where
  "push_all [] p = (True, p)"
| "push_all ((first, second) # rest) p =
     (case packed_push first second p of
        (ok, p) \<Rightarrow> (case push_all rest p of (oks, p) \<Rightarrow> (ok \<and> oks, p)))"

lemma push_all_True:
  "push_all ps p = (True, p') \<Longrightarrow>
     set (packed_pairs p') = set (packed_pairs p) \<union> {k. \<exists>(a, s) \<in> set ps. pack_u32_pair a s = Some k} \<and>
     (\<forall>(a, s) \<in> set ps. pack_u32_pair a s \<noteq> None)"
proof (induction ps arbitrary: p)
  case (Cons as ps)
  obtain a s where as: "as = (a, s)" by (cases as)
  with Cons.prems obtain k where k: "pack_u32_pair a s = Some k"
    by (auto simp: packed_push_def split: option.splits prod.splits)
  then have "push_all ps (p\<lparr>packed_pairs := packed_pairs p @ [k]\<rparr>) = (True, p')"
    using Cons.prems as by (auto simp: packed_push_def split: prod.splits)
  from Cons.IH [OF this] k as show ?case by auto
qed simp

lemma counts_of_pushed_pairs:
  assumes "push_all ps packed_new = (True, p)" "f < n"
  shows "counts_by_first n p ! f = card {s. (f, s) \<in> set ps}"
proof -
  note pa = push_all_True [OF assms(1)]
  let ?K = "{k \<in> set (packed_pairs p). unpack_u32_pair_first k = f}"
  let ?pack = "\<lambda>s. the (pack_u32_pair f s)"
  have "?K = ?pack ` {s. (f, s) \<in> set ps}"
  proof (intro set_eqI iffI)
    fix k assume "k \<in> ?K"
    then obtain a s where "(a, s) \<in> set ps" "pack_u32_pair a s = Some k" "unpack_u32_pair_first k = f"
      using pa by (auto simp: packed_new_def)
    then show "k \<in> ?pack ` {s. (f, s) \<in> set ps}" using unpack_pack [of a s k]
      by (auto intro!: image_eqI [of _ _ s])
  next
    fix k assume "k \<in> ?pack ` {s. (f, s) \<in> set ps}"
    then obtain s where s: "(f, s) \<in> set ps" "k = ?pack s" by auto
    then have "pack_u32_pair f s = Some k" using pa by auto
    then show "k \<in> ?K" using s(1) pa unpack_pack by auto
  qed
  moreover have "inj_on ?pack {s. (f, s) \<in> set ps}"
  proof (rule inj_onI)
    fix s t assume "s \<in> {s. (f, s) \<in> set ps}" "t \<in> {s. (f, s) \<in> set ps}" "?pack s = ?pack t"
    then have "pack_u32_pair f s = Some (?pack s)" "pack_u32_pair f t = Some (?pack s)" using pa by auto
    then show "s = t" using pack_u32_pair_inj by blast
  qed
  ultimately show ?thesis using counts_by_first_nth [OF assms(2), of p] by (simp add: card_image)
qed

subsection \<open>Properties\<close>

text \<open>
  \<open>DenseI64Map::from_pairs_with_dense_range_policy\<close> gives the function in which later pairs
  override earlier ones, for every memory bound and amplification policy, and converting the result
  to its fallback representation changes no lookup.  The values are not the \<open>missing\<close> marker, and the
  keys are below \<open>i64::MAX\<close>.
\<close>

theorem dense_range_map_policy_irrelevant:
  assumes "\<forall>(k, v) \<in> set kvs. is_i64 k \<and> k < i64_max \<and> v \<noteq> miss" "is_i64 key"
  shows "dm_get (from_pairs_with_dense_range_policy amp kvs miss max_entries) key = map_of (rev kvs) key"
  using assms by (rule from_pairs_get)

theorem dense_range_map_policy_irrelevant_witness:
  "dm_get (from_pairs_with_dense_range_policy (\<lambda>w n. w \<le> 4 * int n) [(3, 30), (9, 90), (3, 31)] 0 100) 3 =
     Some (31 :: int)"
  using dense_range_map_policy_irrelevant [of "[(3, 30), (9, 90), (3, 31)]" "0 :: int" 3 "\<lambda>w n. w \<le> 4 * int n" 100]
  by (simp add: is_i64_def)

text \<open>
  A successful \<open>reserve_dense_range\<close> makes the requested keys storable without changing any
  lookup, keeps the invariant, and never grows the vector beyond the larger of its old length and
  the given bound.
\<close>

theorem reserve_keeps_lookups:
  assumes "dm_invar m" "fallback m = None" "max_key < i64_max" "is_i64 key"
    "reserve_dense_range min_key max_key max_entries m = (True, m')"
  shows "dm_invar m' \<and> dm_get m' key = dm_get m key \<and>
    base_key m' \<le> min_key \<and> max_key < base_key m' + int (length (dense m')) \<and>
    length (dense m') \<le> max (length (dense m)) max_entries"
  using reserve_dense_range_correct [OF assms(1-3,5)] assms(1,2,4) by (simp add: dm_get_dense)

theorem reserve_keeps_lookups_witness:
  "dm_get (snd (reserve_dense_range 2 9 100 \<lparr>dense = [7 :: int], base_key = 5, missing = 0, fallback = None\<rparr>)) 5 =
     Some 7"
proof -
  let ?m = "\<lparr>dense = [7 :: int], base_key = 5, missing = 0, fallback = None\<rparr>"
  have r: "reserve_dense_range 2 9 100 ?m = (True, snd (reserve_dense_range 2 9 100 ?m))"
    by (simp add: reserve_dense_range_def rust_defs)
  have "dm_invar ?m" by (simp add: dm_invar_def)
  from reserve_keeps_lookups [OF this _ _ _ r, of 5] show ?thesis
    by (simp add: is_i64_def dm_get_def i64_checked_def usize_try_from_def vec_get_def)
qed

text \<open>Converting a map to its fallback representation changes no lookup and keeps the invariant.\<close>

theorem convert_to_fallback_keeps_lookups:
  assumes "dm_invar m" "is_i64 key"
  shows "dm_invar (dm_convert_to_fallback dflt m) \<and> dm_get (dm_convert_to_fallback dflt m) key = dm_get m key"
  using dm_convert_to_fallback_correct [OF assms, of dflt] by simp

theorem convert_to_fallback_keeps_lookups_witness:
  "dm_get (dm_convert_to_fallback 0 \<lparr>dense = [0, 8 :: int], base_key = 5, missing = 0, fallback = None\<rparr>) 6 = Some 8"
proof -
  let ?m = "\<lparr>dense = [0, 8 :: int], base_key = 5, missing = 0, fallback = None\<rparr>"
  have "dm_invar ?m" by (simp add: dm_invar_def)
  from convert_to_fallback_keeps_lookups [OF this, of 6 0] show ?thesis
    by (simp add: is_i64_def dm_get_def i64_checked_def usize_try_from_def vec_get_def)
qed

text \<open>
  Pushing pairs into \<open>PackedU32PairDistinct\<close> and counting by first component gives, for each
  first component below the bound, the number of distinct second components pushed with it.
\<close>

theorem packed_pairs_count_distinct:
  assumes "push_all ps packed_new = (True, p)" "f < n"
  shows "counts_by_first n p ! f = card {s. (f, s) \<in> set ps}"
  using assms by (rule counts_of_pushed_pairs)

theorem packed_pairs_count_distinct_witness:
  "counts_by_first 3 (snd (push_all [(1, 7), (2, 7), (1, 9), (1, 7)] packed_new)) ! 1 = 2"
proof -
  have "push_all [(1, 7), (2, 7), (1, 9), (1, 7)] packed_new =
      (True, snd (push_all [(1, 7), (2, 7), (1, 9), (1, 7)] packed_new))"
    by (simp add: packed_push_def pack_u32_pair_def)
  from packed_pairs_count_distinct [OF this, of 1 3]
  have "counts_by_first 3 (snd (push_all [(1, 7), (2, 7), (1, 9), (1, 7)] packed_new)) ! 1 =
      card {s. (1 :: nat, s :: int) \<in> set [(1, 7), (2, 7), (1, 9), (1, 7)]}" by simp
  also have "{s. (1 :: nat, s :: int) \<in> set [(1, 7), (2, 7), (1, 9), (1, 7)]} = {7, 9}" by auto
  finally show ?thesis by simp
qed

end
