(* ===== verification/Dense_Rank.thy ===== *)
theory Dense_Rank
  imports Dense_Range_Map
begin

text \<open>
  \<open>DenseI64RankMap\<close> of \<open>dense.rs\<close>: a bitmap of the keys, the number of set bits before each word,
  and one value per set bit, so that the slot of a key is its rank.  Modelled are the sequential
  builder \<open>from_pairs\<close>, the builder \<open>from_chunks_parallel\<close> with both of its ways to place the
  values, and the lookups.  Both builders give the function in which the last pair of a key wins.

  \<open>size_of_t\<close> is \<open>size_of::<T>()\<close> and \<open>dflt\<close> is \<open>T::default()\<close>.
\<close>

subsection \<open>State and operations\<close>

record 'v dense_i64_rank_map =
  rm_words :: "u64 list"
  rank_prefixes :: "nat list"
  rm_values :: "'v list"
  rm_min_key :: int
  rm_max_key :: int

record dense_i64_rank_chunk =
  cb_words :: "u64 list"
  base_word :: nat
  cb_min_key :: int
  cb_max_key :: int
  pair_count :: nat

definition u32_try_from :: "nat \<Rightarrow> nat option" where
  "u32_try_from n = (if n < 2 ^ 32 then Some n else None)"

definition count_ones :: "u64 \<Rightarrow> nat" where
  "count_ones w = length (filter (bit w) [0..<64])"

text \<open>\<open>word & (1_u64 << bit_index).wrapping_sub(1)\<close>.\<close>

definition lower_bits :: "u64 \<Rightarrow> nat \<Rightarrow> u64" where
  "lower_bits word bit_index = word AND (push_bit bit_index 1 - 1)"

definition dense_i64_rank_from_parts :: "u64 list \<Rightarrow> nat list \<Rightarrow> int \<Rightarrow> nat option" where
  "dense_i64_rank_from_parts words prefixes key =
     (case usize_try_from key of
        None \<Rightarrow> None
      | Some index \<Rightarrow>
          (case vec_get words (index div 64) of
             None \<Rightarrow> None
           | Some word \<Rightarrow>
               if word AND push_bit (index mod 64) 1 = 0 then None
               else map_option (\<lambda>p. p + count_ones (lower_bits word (index mod 64)))
                      (vec_get prefixes (index div 64))))"

text \<open>The first loop of \<open>from_pairs\<close>.\<close>

fun rank_scan :: "(int \<times> 'v) list \<Rightarrow> int \<Rightarrow> int \<Rightarrow> nat \<Rightarrow> (int \<times> int \<times> nat) option" where
  "rank_scan [] min_key max_key cnt = Some (min_key, max_key, cnt)"
| "rank_scan ((key, value) # pairs) min_key max_key cnt =
     (case usize_try_from key of
        None \<Rightarrow> None
      | Some _ \<Rightarrow>
          (case usize_checked (cnt + 1) of
             None \<Rightarrow> None
           | Some cnt \<Rightarrow> rank_scan pairs (min min_key key) (max max_key key) cnt))"

text \<open>Word cnt and estimated size, with every overflow check of the builders.\<close>

definition rank_layout :: "nat \<Rightarrow> int \<Rightarrow> nat \<Rightarrow> (nat \<times> nat) option" where
  "rank_layout size_of_t max_key cnt =
     Option.bind (usize_try_from max_key) (\<lambda>max_index.
     Option.bind (map_option (\<lambda>n. div_ceil n 64) (usize_checked (max_index + 1))) (\<lambda>word_count.
     Option.bind (usize_checked (word_count * 8)) (\<lambda>bitmap_bytes.
     Option.bind (usize_checked (word_count * 4)) (\<lambda>rank_bytes.
     Option.bind (usize_checked (cnt * size_of_t)) (\<lambda>value_bytes.
     Option.bind (usize_checked (bitmap_bytes + rank_bytes)) (\<lambda>b.
     Option.bind (usize_checked (b + value_bytes)) (\<lambda>estimated_bytes.
     Some (word_count, estimated_bytes))))))))"

text \<open>The loop that fills \<open>rank_prefixes\<close> and counts the values.\<close>

fun rank_prefix_loop :: "u64 list \<Rightarrow> nat \<Rightarrow> (nat list \<times> nat) option" where
  "rank_prefix_loop [] value_count = Some ([], value_count)"
| "rank_prefix_loop (word # words) value_count =
     Option.bind (u32_try_from value_count) (\<lambda>prefix.
     Option.bind (usize_checked (value_count + count_ones word)) (\<lambda>value_count.
     map_option (\<lambda>(prefixes, tot). (prefix # prefixes, tot)) (rank_prefix_loop words value_count)))"

definition rank_prefixes_of :: "u64 list \<Rightarrow> (nat list \<times> nat) option" where
  "rank_prefixes_of words =
     Option.bind (rank_prefix_loop words 0) (\<lambda>(prefixes, value_count).
     map_option (\<lambda>_. (prefixes, value_count)) (u32_try_from value_count))"

definition mark_keys :: "(int \<times> 'v) list \<Rightarrow> u64 list \<Rightarrow> u64 list" where
  "mark_keys pairs words = fold (\<lambda>(key, value). set_word_bit (nat key)) pairs words"

text \<open>\<open>values[rank] = value\<close> in the last loop of \<open>from_pairs\<close>.\<close>

definition place_by_rank :: "u64 list \<Rightarrow> nat list \<Rightarrow> int \<times> 'v \<Rightarrow> 'v list \<Rightarrow> 'v list" where
  "place_by_rank words prefixes kv vs =
     (let index = nat (fst kv);
          rank = prefixes ! (index div 64) + count_ones (lower_bits (words ! (index div 64)) (index mod 64))
      in vs[rank := snd kv])"

definition rank_from_pairs ::
    "nat \<Rightarrow> 'v \<Rightarrow> (int \<times> 'v) list \<Rightarrow> nat \<Rightarrow> 'v dense_i64_rank_map option" where
  "rank_from_pairs size_of_t dflt pairs max_bytes =
     Option.bind (rank_scan pairs i64_max i64_min 0) (\<lambda>(min_key, max_key, cnt).
     if cnt = 0 then None
     else
       Option.bind (rank_layout size_of_t max_key cnt) (\<lambda>(word_count, estimated_bytes).
       if estimated_bytes > max_bytes then None
       else
         let words = mark_keys pairs (replicate word_count 0)
         in Option.bind (rank_prefixes_of words) (\<lambda>(prefixes, value_count).
            Some \<lparr>rm_words = words, rank_prefixes = prefixes,
                  rm_values = fold (place_by_rank words prefixes) pairs (replicate value_count dflt),
                  rm_min_key = min_key, rm_max_key = max_key\<rparr>)))"

definition dense_i64_rank_chunk_bitmap ::
    "nat \<Rightarrow> (int \<times> 'v) list \<Rightarrow> dense_i64_rank_chunk option" where
  "dense_i64_rank_chunk_bitmap max_bytes pairs =
     (if pairs = [] then
        Some \<lparr>cb_words = [], base_word = 0, cb_min_key = 0, cb_max_key = -1, pair_count = 0\<rparr>
      else
        Option.bind (key_bounds pairs i64_max i64_min) (\<lambda>(min_key, max_key).
        Option.bind (usize_try_from min_key) (\<lambda>min_index.
        Option.bind (usize_try_from max_key) (\<lambda>max_index.
          let base = min_index div 64; max_word = max_index div 64
          in if max_word < base then None
             else
               Option.bind (usize_checked (max_word - base + 1)) (\<lambda>word_count.
               Option.bind (usize_checked (word_count * 8)) (\<lambda>bytes.
               if bytes > max_bytes then None
               else Some \<lparr>cb_words = fold (\<lambda>(key, value) ws.
                              ws[nat key div 64 - base :=
                                 ws ! (nat key div 64 - base) OR push_bit (nat key mod 64) 1])
                              pairs (replicate word_count 0),
                          base_word = base, cb_min_key = min_key, cb_max_key = max_key,
                          pair_count = length pairs\<rparr>))))))"

text \<open>\<open>words[base_word + offset] |= word\<close> for the words of one chunk.\<close>

fun or_words :: "nat \<Rightarrow> u64 list \<Rightarrow> u64 list \<Rightarrow> u64 list" where
  "or_words i [] words = words"
| "or_words i (w # ws) words = or_words (Suc i) ws (words[i := words ! i OR w])"

text \<open>The totals over the nonempty chunks: least key, greatest key, pairs, local words.\<close>

fun chunk_totals ::
    "dense_i64_rank_chunk list \<Rightarrow> int \<Rightarrow> int \<Rightarrow> nat \<Rightarrow> nat \<Rightarrow> (int \<times> int \<times> nat \<times> nat) option" where
  "chunk_totals [] min_key max_key cnt local_words = Some (min_key, max_key, cnt, local_words)"
| "chunk_totals (c # cs) min_key max_key cnt local_words =
     (if pair_count c = 0 then chunk_totals cs min_key max_key cnt local_words
      else
        Option.bind (usize_checked (cnt + pair_count c)) (\<lambda>cnt.
        Option.bind (usize_checked (local_words + length (cb_words c))) (\<lambda>local_words.
        chunk_totals cs (min min_key (cb_min_key c)) (max max_key (cb_max_key c)) cnt local_words)))"

text \<open>The \<open>try_fold\<close> that decides whether the chunks are ordered and do not overlap.\<close>

fun ordered_from :: "int option \<Rightarrow> dense_i64_rank_chunk list \<Rightarrow> bool" where
  "ordered_from previous_max [] = True"
| "ordered_from previous_max (c # cs) =
     (if (case previous_max of Some m \<Rightarrow> m \<ge> cb_min_key c | None \<Rightarrow> False) then False
      else ordered_from (Some (cb_max_key c)) cs)"

text \<open>The loop of one chunk of the ordered path: write at the rank relative to the chunk.\<close>

fun place_relative ::
    "u64 list \<Rightarrow> nat list \<Rightarrow> nat \<Rightarrow> (int \<times> 'v) list \<Rightarrow> 'v list \<Rightarrow> 'v list option" where
  "place_relative words prefixes base_rank [] vs = Some vs"
| "place_relative words prefixes base_rank ((key, value) # pairs) vs =
     Option.bind (dense_i64_rank_from_parts words prefixes key) (\<lambda>rank.
     if rank < base_rank then None
     else if rank - base_rank < length vs
     then place_relative words prefixes base_rank pairs (vs[rank - base_rank := value])
     else None)"

definition chunk_values ::
    "u64 list \<Rightarrow> nat list \<Rightarrow> 'v \<Rightarrow> (int \<times> 'v) list \<Rightarrow> 'v list option" where
  "chunk_values words prefixes dflt pairs =
     (if pairs = [] then Some []
      else
        Option.bind (dense_i64_rank_from_parts words prefixes (Min (set (map fst pairs)))) (\<lambda>base_rank.
        place_relative words prefixes base_rank pairs (replicate (length pairs) dflt)))"

text \<open>The loop of the other path, over all pairs in chunk order.\<close>

fun place_all :: "u64 list \<Rightarrow> nat list \<Rightarrow> (int \<times> 'v) list \<Rightarrow> 'v list \<Rightarrow> 'v list option" where
  "place_all words prefixes [] vs = Some vs"
| "place_all words prefixes ((key, value) # pairs) vs =
     Option.bind (dense_i64_rank_from_parts words prefixes key) (\<lambda>rank.
     place_all words prefixes pairs (vs[rank := value]))"

definition rank_from_chunks_parallel ::
    "nat \<Rightarrow> 'v \<Rightarrow> (int \<times> 'v) list list \<Rightarrow> nat \<Rightarrow> 'v dense_i64_rank_map option" where
  "rank_from_chunks_parallel size_of_t dflt chunks max_bytes =
     Option.bind (those (map (dense_i64_rank_chunk_bitmap max_bytes) chunks)) (\<lambda>bitmaps.
     Option.bind (chunk_totals bitmaps i64_max i64_min 0 0) (\<lambda>(min_key, max_key, cnt, local_words).
     if cnt = 0 then None
     else
       Option.bind (rank_layout size_of_t max_key cnt) (\<lambda>(word_count, estimated_bytes).
       Option.bind (usize_checked (local_words * 8)) (\<lambda>local_bytes.
       if estimated_bytes > max_bytes \<or> local_bytes > max_bytes then None
       else
         let ordered = ordered_from None (filter (\<lambda>c. pair_count c > 0) bitmaps);
             words = fold (\<lambda>c. or_words (base_word c) (cb_words c)) bitmaps (replicate word_count 0)
         in Option.bind (rank_prefixes_of words) (\<lambda>(prefixes, value_count).
            Option.bind
              (if ordered \<and> value_count = cnt
               then Option.bind (those (map (chunk_values words prefixes dflt) chunks)) (\<lambda>vss.
                    if length (concat vss) = value_count then Some (concat vss) else None)
               else place_all words prefixes (concat chunks) (replicate value_count dflt))
              (\<lambda>vs. Some \<lparr>rm_words = words, rank_prefixes = prefixes, rm_values = vs,
                           rm_min_key = min_key, rm_max_key = max_key\<rparr>))))))"

definition rank_get :: "'v dense_i64_rank_map \<Rightarrow> int \<Rightarrow> 'v option" where
  "rank_get m key =
     (case usize_try_from key of
        None \<Rightarrow> None
      | Some index \<Rightarrow>
          (case vec_get (rm_words m) (index div 64) of
             None \<Rightarrow> None
           | Some word \<Rightarrow>
               if word AND push_bit (index mod 64) 1 = 0 then None
               else (case vec_get (rank_prefixes m) (index div 64) of
                       None \<Rightarrow> None
                     | Some p \<Rightarrow> vec_get (rm_values m) (p + count_ones (lower_bits word (index mod 64))))))"

definition rank_contains_key :: "'v dense_i64_rank_map \<Rightarrow> int \<Rightarrow> bool" where
  "rank_contains_key m key \<longleftrightarrow> rank_get m key \<noteq> None"

definition rank_is_empty :: "'v dense_i64_rank_map \<Rightarrow> bool" where
  "rank_is_empty m \<longleftrightarrow> rm_values m = []"

definition rank_selective_key_range :: "'v dense_i64_rank_map \<Rightarrow> (int \<times> int) option" where
  "rank_selective_key_range m = selective_i64_range (rm_min_key m) (rm_max_key m) (length (rm_values m))"

subsection \<open>Ranks\<close>

definition card_below :: "nat set \<Rightarrow> nat \<Rightarrow> nat" where
  "card_below B i = card {j \<in> B. j < i}"

lemma finite_bitmap [simp]: "finite (bitmap words)"
proof (rule finite_subset)
  show "bitmap words \<subseteq> {..< 64 * length words}"
    by (auto simp: bitmap_def less_mult_imp_div_less)
qed simp

lemma card_below_mono_strict: "finite B \<Longrightarrow> i \<in> B \<Longrightarrow> i < j \<Longrightarrow> card_below B i < card_below B j"
  unfolding card_below_def by (rule psubset_card_mono) auto

lemma card_below_inj: "finite B \<Longrightarrow> i \<in> B \<Longrightarrow> j \<in> B \<Longrightarrow> card_below B i = card_below B j \<longleftrightarrow> i = j"
  by (metis card_below_mono_strict less_irrefl linorder_neqE_nat)

lemma card_below_less: "finite B \<Longrightarrow> i \<in> B \<Longrightarrow> card_below B i < card B"
  unfolding card_below_def by (rule psubset_card_mono) auto

lemma upt_64:
  "[0..<64] = [0, 1, 2, 3, 4, 5, 6, 7, 8, 9, 10, 11, 12, 13, 14, 15, 16, 17, 18, 19, 20, 21, 22, 23, 24, 25,
     26, 27, 28, 29, 30, 31, 32, 33, 34, 35, 36, 37, 38, 39, 40, 41, 42, 43, 44, 45, 46, 47, 48, 49, 50, 51,
     52, 53, 54, 55, 56, 57, 58, 59, 60, 61, 62, 63]"
  by (simp add: upt_rec)

lemmas rank_eval = dense_i64_rank_chunk_bitmap_def rust_defs rank_layout_def Let_def rank_prefixes_of_def
  u32_try_from_def count_ones_def upt_64 chunk_values_def dense_i64_rank_from_parts_def vec_get_def
  lower_bits_def mark_keys_def set_word_bit_def

lemma count_ones_eq: "count_ones w = card {b. b < 64 \<and> bit w b}"
proof -
  have "count_ones w = card (set (filter (bit w) [0..<64]))"
    unfolding count_ones_def by (rule distinct_card [symmetric]) simp
  then show ?thesis by (simp add: conj_commute)
qed

lemma count_ones_lower_bits: "n < 64 \<Longrightarrow> count_ones (lower_bits w n) = card {b. b < n \<and> bit w b}"
proof -
  assume "n < 64"
  moreover have "push_bit n 1 - 1 = (mask n :: u64)" by (simp add: mask_eq_exp_minus_1 push_bit_eq_mult)
  ultimately have "{b. b < 64 \<and> bit (lower_bits w n) b} = {b. b < n \<and> bit w b}"
    by (auto simp: lower_bits_def bit_and_iff bit_mask_iff)
  then show ?thesis by (simp add: count_ones_eq)
qed

lemma bitmap_Cons: "bitmap (w # ws) = {b. b < 64 \<and> bit w b} \<union> (\<lambda>i. 64 + i) ` bitmap ws"
proof (intro set_eqI iffI)
  fix i assume i: "i \<in> bitmap (w # ws)"
  show "i \<in> {b. b < 64 \<and> bit w b} \<union> (\<lambda>i. 64 + i) ` bitmap ws"
  proof (cases "i < 64")
    case False
    then have "i = 64 + (i - 64)" "i - 64 \<in> bitmap ws"
      using i by (auto simp: bitmap_def nth_Cons' le_div_geq le_mod_geq)
    then show ?thesis by blast
  qed (use i in \<open>simp add: bitmap_def\<close>)
qed (auto simp: bitmap_def)

lemma rank_prefix_loop_SomeD:
  "rank_prefix_loop words n = Some (ps, tot) \<Longrightarrow>
     length ps = length words \<and> tot = n + card (bitmap words) \<and>
     (\<forall>i < length words. ps ! i = n + card_below (bitmap words) (64 * i))"
proof (induction words arbitrary: n ps)
  case (Cons w ws)
  from Cons.prems obtain ps' where ps: "ps = n # ps'"
    and r: "rank_prefix_loop ws (n + count_ones w) = Some (ps', tot)"
    by (auto simp: Option.bind_eq_Some_conv u32_try_from_def rust_simps split: if_splits)
  note IH = Cons.IH [OF r]
  have disj: "{b. b < 64 \<and> bit w b} \<inter> (\<lambda>i. 64 + i) ` X = {}" for X by auto
  have "card (bitmap (w # ws)) = count_ones w + card (bitmap ws)"
    unfolding bitmap_Cons count_ones_eq by (subst card_Un_disjoint [OF _ _ disj]) (auto simp: card_image)
  moreover have "card_below (bitmap (w # ws)) (64 * Suc i) = count_ones w + card_below (bitmap ws) (64 * i)" for i
  proof -
    have "{j \<in> bitmap (w # ws). j < 64 * Suc i} =
        {b. b < 64 \<and> bit w b} \<union> (\<lambda>i. 64 + i) ` {j \<in> bitmap ws. j < 64 * i}"
      unfolding bitmap_Cons by auto
    then show ?thesis unfolding card_below_def count_ones_eq
      by (simp only:) (subst card_Un_disjoint [OF _ _ disj], auto simp: card_image)
  qed
  ultimately show ?case using IH ps by (auto simp: nth_Cons card_below_def split: nat.splits)
qed simp

text \<open>The rank the code computes for a key is the number of smaller keys.\<close>

lemma rank_eq_card_below:
  assumes "rank_prefixes_of words = Some (ps, tot)" "i div 64 < length words"
  shows "ps ! (i div 64) + count_ones (lower_bits (words ! (i div 64)) (i mod 64)) =
    card_below (bitmap words) i"
proof -
  let ?q = "i div 64" and ?B = "bitmap words"
  have p: "ps ! ?q = card_below ?B (64 * ?q)"
    using assms rank_prefix_loop_SomeD [of words 0 ps tot]
    by (auto simp: rank_prefixes_of_def Option.bind_eq_Some_conv)
  have "{j \<in> ?B. j < i} = {j \<in> ?B. j < 64 * ?q} \<union> (\<lambda>c. 64 * ?q + c) ` {c. c < i mod 64 \<and> bit (words ! ?q) c}"
  proof (intro set_eqI iffI)
    fix j assume j: "j \<in> {j \<in> ?B. j < i}"
    show "j \<in> {j \<in> ?B. j < 64 * ?q} \<union> (\<lambda>c. 64 * ?q + c) ` {c. c < i mod 64 \<and> bit (words ! ?q) c}"
    proof (cases "j < 64 * ?q")
      case False
      then have "j div 64 = ?q" using j by (simp add: not_less) (metis div_le_mono div_mult_self1_is_m le_antisym less_imp_le zero_less_numeral)
      then have "j = 64 * ?q + j mod 64" "bit (words ! ?q) (j mod 64)"
        using j mult_div_mod_eq [of 64 j] by (auto simp: bitmap_def)
      moreover have "j mod 64 < i mod 64"
        using j \<open>j = 64 * ?q + j mod 64\<close> mult_div_mod_eq [of 64 i] by (metis (lifting) CollectD add_less_cancel_left)
      ultimately show ?thesis by blast
    qed (use j in simp)
  next
    fix j assume "j \<in> {j \<in> ?B. j < 64 * ?q} \<union> (\<lambda>c. 64 * ?q + c) ` {c. c < i mod 64 \<and> bit (words ! ?q) c}"
    then show "j \<in> {j \<in> ?B. j < i}"
    proof
      assume "j \<in> (\<lambda>c. 64 * ?q + c) ` {c. c < i mod 64 \<and> bit (words ! ?q) c}"
      then obtain c where c: "j = 64 * ?q + c" "c < i mod 64" "bit (words ! ?q) c" by blast
      then have "c < 64" using mod_less_divisor [of 64 i] by simp
      moreover have "j < i" using c mult_div_mod_eq [of 64 i] by linarith
      ultimately show ?thesis using c assms(2) by (simp add: bitmap_def)
    qed (use mult_div_mod_eq [of 64 i] in auto)
  qed
  then have "card_below ?B i = card_below ?B (64 * ?q) + card {c. c < i mod 64 \<and> bit (words ! ?q) c}"
    unfolding card_below_def
    by (simp only:) (subst card_Un_disjoint, auto simp: card_image)
  then show ?thesis by (simp add: p count_ones_lower_bits)
qed


subsection \<open>The map a rank structure represents\<close>

text \<open>
  \<open>ranked words ps total\<close>: the prefixes belong to the words, so that ranks are in range.
\<close>

definition ranked :: "u64 list \<Rightarrow> nat list \<Rightarrow> nat \<Rightarrow> bool" where
  "ranked words ps n \<longleftrightarrow> length ps = length words \<and> n = card (bitmap words) \<and>
     (\<forall>i. i div 64 < length words \<longrightarrow>
        ps ! (i div 64) + count_ones (lower_bits (words ! (i div 64)) (i mod 64)) = card_below (bitmap words) i)"

lemma rank_prefixes_of_ranked: "rank_prefixes_of words = Some (ps, n) \<Longrightarrow> ranked words ps n"
  using rank_prefix_loop_SomeD [of words 0 ps n] rank_eq_card_below [of words ps n]
  by (auto simp: ranked_def rank_prefixes_of_def Option.bind_eq_Some_conv)

lemma word_and_bit_zero: "n < 64 \<Longrightarrow> (w :: u64) AND push_bit n 1 = 0 \<longleftrightarrow> \<not> bit w n"
proof -
  assume "n < 64"
  then have "bit (w AND push_bit n 1) m \<longleftrightarrow> m = n \<and> bit w n" for m
    by (auto simp: bit_and_iff push_bit_eq_mult bit_exp_iff)
  then show ?thesis by (metis bit_0_eq bit_eqI bot_apply bot_bool_def)
qed

lemma word_and_exp_zero: "n < 64 \<Longrightarrow> (w :: u64) AND 2 ^ n = 0 \<longleftrightarrow> \<not> bit w n"
  using word_and_bit_zero [of n w] by (simp add: push_bit_eq_mult)

lemma rank_from_parts_eq:
  assumes "ranked words ps n"
  shows "dense_i64_rank_from_parts words ps key =
    (if 0 \<le> key \<and> nat key \<in> bitmap words then Some (card_below (bitmap words) (nat key)) else None)"
  using assms
  by (auto simp: dense_i64_rank_from_parts_def ranked_def usize_try_from_def vec_get_def word_and_exp_zero bitmap_def)

lemma rank_get_eq:
  assumes "ranked (rm_words m) (rank_prefixes m) n" "length (rm_values m) = n"
  shows "rank_get m key =
    (if 0 \<le> key \<and> nat key \<in> bitmap (rm_words m)
     then Some (rm_values m ! card_below (bitmap (rm_words m)) (nat key)) else None)"
proof -
  have "rank_get m key = Option.bind (dense_i64_rank_from_parts (rm_words m) (rank_prefixes m) key) (vec_get (rm_values m))"
    by (auto simp: rank_get_def dense_i64_rank_from_parts_def split: option.splits)
  moreover have "n = card (bitmap (rm_words m))" using assms(1) by (simp add: ranked_def)
  ultimately show ?thesis using assms(2)
    by (simp add: rank_from_parts_eq [OF assms(1)] vec_get_def card_below_less)
qed

text \<open>
  \<open>ranks pairs B vs\<close>: the slots hold the last value of each key.
\<close>

definition holds_last :: "nat set \<Rightarrow> (int \<times> 'v) list \<Rightarrow> 'v list \<Rightarrow> bool" where
  "holds_last B kvs vs \<longleftrightarrow> length vs = card B \<and>
     (\<forall>i \<in> B. map_of (rev kvs) (int i) = Some (vs ! card_below B i))"

lemma rank_get_holds_last:
  assumes "ranked (rm_words m) (rank_prefixes m) n" "holds_last (bitmap (rm_words m)) kvs (rm_values m)"
    "bitmap (rm_words m) = nat ` fst ` set kvs" "\<forall>(k, v) \<in> set kvs. 0 \<le> k"
  shows "rank_get m key = map_of (rev kvs) key"
proof -
  have len: "length (rm_values m) = n" using assms(1,2) by (simp add: ranked_def holds_last_def)
  show ?thesis
  proof (cases "0 \<le> key \<and> nat key \<in> bitmap (rm_words m)")
    case True
    then show ?thesis using assms(2) by (auto simp: rank_get_eq [OF assms(1) len] holds_last_def)
  next
    case False
    then have "key \<notin> fst ` set kvs" using assms(3,4) by auto
    then have "map_of (rev kvs) key = None" by (simp add: map_of_eq_None_iff)
    then show ?thesis using False by (simp add: rank_get_eq [OF assms(1) len])
  qed
qed

lemma fold_write_ranks:
  assumes "finite B" "\<forall>(k, v) \<in> set kvs. 0 \<le> k \<and> nat k \<in> B" "length vs = card B"
  shows "let vs' = fold (\<lambda>(k, v) vs. vs[card_below B (nat k) := v]) kvs vs
    in length vs' = card B \<and> (\<forall>i \<in> B. vs' ! card_below B i =
         (case map_of (rev kvs) (int i) of None \<Rightarrow> vs ! card_below B i | Some v \<Rightarrow> v))"
  using assms(2,3)
proof (induction kvs arbitrary: vs)
  case (Cons kv kvs)
  obtain k v where kv: "kv = (k, v)" by (cases kv)
  let ?vs = "vs[card_below B (nat k) := v]"
  have k: "0 \<le> k" "nat k \<in> B" using Cons.prems kv by auto
  have upd: "?vs ! card_below B i = (if int i = k then v else vs ! card_below B i)" if "i \<in> B" for i
    using that k Cons.prems(2) by (auto simp: nth_list_update card_below_inj card_below_less assms(1))
  have "let vs' = fold (\<lambda>(k, v) vs. vs[card_below B (nat k) := v]) kvs ?vs
    in length vs' = card B \<and> (\<forall>i \<in> B. vs' ! card_below B i =
         (case map_of (rev kvs) (int i) of None \<Rightarrow> ?vs ! card_below B i | Some v \<Rightarrow> v))"
    using Cons.prems by (intro Cons.IH) auto
  then show ?case by (auto simp: kv Let_def upd map_add_def split: option.splits)
qed simp

lemma fold_write_holds_last:
  assumes "B = nat ` fst ` set kvs" "\<forall>(k, v) \<in> set kvs. 0 \<le> k" "length vs = card B"
  shows "holds_last B kvs (fold (\<lambda>(k, v) vs. vs[card_below B (nat k) := v]) kvs vs)"
proof -
  let ?vs = "fold (\<lambda>(k, v) vs. vs[card_below B (nat k) := v]) kvs vs"
  have fin: "finite B" and dom: "\<forall>(k, v) \<in> set kvs. 0 \<le> k \<and> nat k \<in> B"
    using assms(1,2) by force+
  note w = fold_write_ranks [OF fin dom assms(3), unfolded Let_def]
  show ?thesis unfolding holds_last_def
  proof (intro conjI ballI)
    show "length ?vs = card B" using w by blast
    fix i assume i: "i \<in> B"
    then obtain k v where "(k, v) \<in> set kvs" "i = nat k" "0 \<le> k" using assms(1,2) by fastforce
    then have "int i \<in> fst ` set (rev kvs)" by force
    then obtain u where u: "map_of (rev kvs) (int i) = Some u" by (metis not_Some_eq map_of_eq_None_iff)
    with w i show "map_of (rev kvs) (int i) = Some (?vs ! card_below B i)" by simp
  qed
qed

subsection \<open>The sequential builder\<close>

lemma rank_scan_SomeD:
  "rank_scan kvs lo hi n = Some (a, b, n') \<Longrightarrow>
     n' = n + length kvs \<and> a \<le> lo \<and> hi \<le> b \<and> (b = hi \<or> b \<in> fst ` set kvs) \<and>
     (\<forall>(k, v) \<in> set kvs. 0 \<le> k \<and> a \<le> k \<and> k \<le> b)"
proof (induction kvs lo hi n rule: rank_scan.induct)
  case (2 key v kvs lo hi n)
  from "2.prems" have k: "0 \<le> key" and
    r: "rank_scan kvs (min lo key) (max hi key) (n + 1) = Some (a, b, n')"
    by (auto simp: rust_simps usize_checked_def split: option.splits if_splits)
  from "2.IH" [of "nat key" "n + 1"] k r "2.prems" show ?case
    by (auto simp: rust_simps usize_try_from_def usize_checked_def max_def split: if_splits)
qed simp

lemma rank_layout_SomeD:
  "rank_layout sz max_key n = Some (word_count, bytes) \<Longrightarrow>
     0 \<le> max_key \<and> word_count = nat max_key div 64 + 1 \<and> bytes = word_count * 12 + n * sz"
  by (auto simp: rank_layout_def Option.bind_eq_Some_conv rust_simps div_ceil_64_Suc)

lemma mark_keys_bitmap:
  "\<forall>(k, v) \<in> set kvs. nat k div 64 < length words \<Longrightarrow>
     length (mark_keys kvs words) = length words \<and>
     bitmap (mark_keys kvs words) = bitmap words \<union> nat ` fst ` set kvs"
proof (induction kvs arbitrary: words)
  case (Cons kv kvs)
  obtain k v where kv: "kv = (k, v)" by (cases kv)
  from Cons.IH [of "set_word_bit (nat k) words"] Cons.prems kv show ?case
    by (auto simp: mark_keys_def bitmap_set_word_bit)
qed (simp add: mark_keys_def)

lemma fold_place_by_rank:
  assumes "ranked words ps n" "\<forall>(k, v) \<in> set kvs. nat k div 64 < length words"
  shows "fold (place_by_rank words ps) kvs vs =
    fold (\<lambda>(k, v) vs. vs[card_below (bitmap words) (nat k) := v]) kvs vs"
  using assms(1,2)
  by (intro List.fold_cong) (auto simp: place_by_rank_def Let_def ranked_def fun_eq_iff)

lemma rank_from_pairs_get:
  assumes "rank_from_pairs sz dflt kvs max_bytes = Some m"
  shows "rank_get m key = map_of (rev kvs) key"
proof -
  from assms obtain a b word_count bytes words ps n where
    scan: "rank_scan kvs i64_max i64_min 0 = Some (a, b, length kvs)" and
    layout: "rank_layout sz b (length kvs) = Some (word_count, bytes)" and
    words: "words = mark_keys kvs (replicate word_count 0)" and
    ps: "rank_prefixes_of words = Some (ps, n)" and
    m: "m = \<lparr>rm_words = words, rank_prefixes = ps,
         rm_values = fold (place_by_rank words ps) kvs (replicate n dflt), rm_min_key = a, rm_max_key = b\<rparr>"
    by (auto simp: rank_from_pairs_def Option.bind_eq_Some_conv Let_def split: if_splits dest!: rank_scan_SomeD)
  note scan' = rank_scan_SomeD [OF scan] and layout' = rank_layout_SomeD [OF layout]
  have rng: "\<forall>(k, v) \<in> set kvs. nat k div 64 < length (replicate word_count (0 :: u64))"
    using scan' layout' by (auto simp: less_Suc_eq_le intro!: div_le_mono)
  have B: "length words = word_count" "bitmap words = nat ` fst ` set kvs"
    using mark_keys_bitmap [OF rng] words by auto
  note r = rank_prefixes_of_ranked [OF ps]
  have nonneg: "\<forall>(k, v) \<in> set kvs. 0 \<le> k" using scan' by auto
  have "rm_values m = fold (\<lambda>(k, v) vs. vs[card_below (bitmap words) (nat k) := v]) kvs (replicate n dflt)"
    using rng B(1) by (simp add: m fold_place_by_rank [OF r])
  then have "holds_last (bitmap words) kvs (rm_values m)"
    using fold_write_holds_last [OF B(2) nonneg, of "replicate n dflt"] r by (simp add: ranked_def)
  then show ?thesis
    using rank_get_holds_last [of m n kvs key] r B(2) nonneg by (simp add: m)
qed

text \<open>The builder succeeds whenever the keys are indices and the layout fits the byte budget.\<close>

lemma rank_scan_total:
  "\<forall>(k, v) \<in> set kvs. 0 \<le> k \<Longrightarrow> n + length kvs \<le> u64_max \<Longrightarrow>
     \<exists>a b. rank_scan kvs lo hi n = Some (a, b, n + length kvs)"
proof (induction kvs lo hi n rule: rank_scan.induct)
  case (2 key v kvs lo hi n)
  from "2.IH" [of "nat key" "n + 1"] "2.prems" show ?case
    by (auto simp: usize_try_from_def usize_checked_def)
qed simp

lemma rank_prefix_loop_total:
  "n + card (bitmap words) < 2 ^ 32 \<Longrightarrow> rank_prefix_loop words n \<noteq> None"
proof (induction words arbitrary: n)
  case (Cons w ws)
  have "{b. b < 64 \<and> bit w b} \<inter> (\<lambda>i. 64 + i) ` bitmap ws = {}" by auto
  then have "card (bitmap (w # ws)) = count_ones w + card (bitmap ws)"
    unfolding bitmap_Cons count_ones_eq by (subst card_Un_disjoint) (auto simp: card_image)
  then show ?case using Cons by (auto simp: u32_try_from_def usize_checked_def)
qed simp

lemma rank_prefixes_of_total:
  assumes "card (bitmap words) < 2 ^ 32"
  shows "\<exists>ps n. rank_prefixes_of words = Some (ps, n)"
proof -
  obtain ps n where r: "rank_prefix_loop words 0 = Some (ps, n)"
    using rank_prefix_loop_total [of 0 words] assms by auto
  with rank_prefix_loop_SomeD [OF r] assms show ?thesis
    by (auto simp: rank_prefixes_of_def u32_try_from_def)
qed

lemma rank_layout_total:
  assumes "0 \<le> max_key" "max_key \<le> i64_max" "(nat max_key div 64 + 1) * 12 + n * sz \<le> u64_max"
  shows "rank_layout sz max_key n = Some (nat max_key div 64 + 1, (nat max_key div 64 + 1) * 12 + n * sz)"
proof -
  have "nat max_key + 1 \<le> u64_max" using assms(1,2) by simp
  with assms show ?thesis
    by (simp add: rank_layout_def usize_try_from_def usize_checked_def div_ceil_64_Suc)
qed

lemma rank_from_pairs_total:
  assumes "kvs \<noteq> []" "\<forall>(k, v) \<in> set kvs. 0 \<le> k \<and> k \<le> hi" "hi \<le> i64_max" "length kvs < 2 ^ 32"
    "(nat hi div 64 + 1) * 12 + length kvs * sz \<le> max_bytes" "max_bytes \<le> u64_max"
  shows "\<exists>m. rank_from_pairs sz dflt kvs max_bytes = Some m"
proof -
  obtain a b where scan: "rank_scan kvs i64_max i64_min 0 = Some (a, b, length kvs)"
    using rank_scan_total [of kvs 0 i64_max i64_min] assms(2,4) by fastforce
  note scan' = rank_scan_SomeD [OF scan]
  obtain k0 v0 where "(k0, v0) \<in> set kvs" using assms(1) by (cases kvs) auto
  then have b: "0 \<le> b" "b \<le> hi" using scan' assms(2) by fastforce+
  let ?wc = "nat b div 64 + 1"
  have "?wc \<le> nat hi div 64 + 1" using b by (simp add: div_le_mono)
  then have bytes: "?wc * 12 + length kvs * sz \<le> max_bytes"
    using assms(5) by (meson add_le_mono1 mult_le_mono1 order_trans)
  then have layout: "rank_layout sz b (length kvs) = Some (?wc, ?wc * 12 + length kvs * sz)"
    using b assms(3,6) by (intro rank_layout_total) auto
  let ?words = "mark_keys kvs (replicate ?wc 0)"
  have rng: "\<forall>(k, v) \<in> set kvs. nat k div 64 < length (replicate ?wc (0 :: u64))"
    using scan' by (auto simp: less_Suc_eq_le intro!: div_le_mono)
  have "card (bitmap ?words) \<le> card (fst ` set kvs)"
    using mark_keys_bitmap [OF rng] by (simp add: card_image_le del: replicate_Suc)
  also have "\<dots> \<le> length kvs" using card_image_le [of "set kvs" fst] card_length [of kvs] by simp
  finally have "card (bitmap ?words) < 2 ^ 32" using assms(4) by simp
  from rank_prefixes_of_total [OF this] obtain ps n where "rank_prefixes_of ?words = Some (ps, n)" by blast
  then show ?thesis using scan layout bytes assms(1)
    by (simp add: rank_from_pairs_def Let_def)
qed

subsection \<open>The parallel builder\<close>

lemma bitmap_or_word:
  assumes "i < length words"
  shows "bitmap (words[i := words ! i OR w]) = bitmap words \<union> (\<lambda>b. 64 * i + b) ` {b. b < 64 \<and> bit w b}"
proof (intro set_eqI iffI)
  fix j assume j: "j \<in> bitmap (words[i := words ! i OR w])"
  show "j \<in> bitmap words \<union> (\<lambda>b. 64 * i + b) ` {b. b < 64 \<and> bit w b}"
  proof (cases "j div 64 = i \<and> bit w (j mod 64)")
    case True
    then have "j = 64 * i + j mod 64" using mult_div_mod_eq [of 64 j] by simp
    then show ?thesis using True by (intro UnI2 image_eqI [of _ _ "j mod 64"]) auto
  next
    case False
    then show ?thesis using j assms
      by (auto simp: bitmap_def nth_list_update bit_or_iff split: if_splits)
  qed
qed (use assms in \<open>auto simp: bitmap_def nth_list_update bit_or_iff\<close>)

lemma or_words_bitmap:
  "i + length ws \<le> length words \<Longrightarrow>
     length (or_words i ws words) = length words \<and>
     bitmap (or_words i ws words) = bitmap words \<union> (\<lambda>b. 64 * i + b) ` bitmap ws"
proof (induction i ws words rule: or_words.induct)
  case (2 i w ws words)
  have "(\<lambda>b. 64 * i + b) ` bitmap (w # ws) =
      (\<lambda>b. 64 * i + b) ` {b. b < 64 \<and> bit w b} \<union> (\<lambda>b. 64 * Suc i + b) ` bitmap ws"
    unfolding bitmap_Cons by (auto simp: image_Un image_image add.assoc)
  then show ?case using 2 by (simp add: bitmap_or_word Un_assoc)
qed simp

text \<open>What the bitmap of one chunk records.\<close>

definition chunk_ok :: "(int \<times> 'v) list \<Rightarrow> dense_i64_rank_chunk \<Rightarrow> bool" where
  "chunk_ok kvs c \<longleftrightarrow>
     pair_count c = length kvs \<and>
     (\<forall>(k, v) \<in> set kvs. 0 \<le> k \<and> cb_min_key c \<le> k \<and> k \<le> cb_max_key c) \<and>
     (\<lambda>b. 64 * base_word c + b) ` bitmap (cb_words c) = nat ` fst ` set kvs \<and>
     (if kvs = [] then cb_words c = []
      else base_word c + length (cb_words c) = nat (cb_max_key c) div 64 + 1)"

lemma fold_local_bits:
  assumes "\<forall>(k, v) \<in> set kvs. base \<le> nat k div 64 \<and> nat k div 64 - base < length ws"
  shows "let ws' = fold (\<lambda>(key, value) ws. ws[nat key div 64 - base :=
            ws ! (nat key div 64 - base) OR push_bit (nat key mod 64) 1]) kvs ws
    in length ws' = length ws \<and>
       (\<lambda>b. 64 * base + b) ` bitmap ws' = (\<lambda>b. 64 * base + b) ` bitmap ws \<union> nat ` fst ` set kvs"
  using assms
proof (induction kvs arbitrary: ws)
  case (Cons kv kvs)
  obtain k v where kv: "kv = (k, v)" by (cases kv)
  define i where "i = nat k - 64 * base"
  have k: "base \<le> nat k div 64" "nat k div 64 - base < length ws" using Cons.prems kv by auto
  have "64 * base \<le> nat k" using k(1) by (simp add: less_eq_div_iff_mult_less_eq mult.commute)
  then have nk: "nat k = 64 * base + i" by (simp add: i_def)
  then have i: "i div 64 = nat k div 64 - base" "i mod 64 = nat k mod 64" by simp_all
  have "ws[nat k div 64 - base := ws ! (nat k div 64 - base) OR push_bit (nat k mod 64) 1] = set_word_bit i ws"
    by (simp only: set_word_bit_def i)
  moreover have "bitmap (set_word_bit i ws) = insert i (bitmap ws)"
    using k(2) i(1) by (intro bitmap_set_word_bit) simp
  ultimately show ?case
    using Cons.IH [of "set_word_bit i ws"] Cons.prems kv nk by (auto simp: Let_def)
qed simp

lemma word_span: "(p :: nat) \<le> q \<Longrightarrow> q \<le> r \<Longrightarrow> p \<le> q \<and> q - p < r - p + 1 \<and> p + (r - p + 1) = r + 1"
  by linarith

lemma chunk_bitmap_ok:
  assumes "dense_i64_rank_chunk_bitmap max_bytes kvs = Some c"
  shows "chunk_ok kvs c"
proof (cases "kvs = []")
  case True
  with assms show ?thesis by (auto simp: dense_i64_rank_chunk_bitmap_def chunk_ok_def)
next
  case False
  with assms obtain a b where kb: "key_bounds kvs i64_max i64_min = Some (a, b)"
    by (auto simp: dense_i64_rank_chunk_bitmap_def Option.bind_eq_Some_conv simp del: replicate_Suc)
  with assms False have "0 \<le> a" "0 \<le> b"
    by (simp_all add: dense_i64_rank_chunk_bitmap_def usize_try_from_def del: replicate_Suc split: if_splits)
  with assms False kb have le: "nat a div 64 \<le> nat b div 64"
    and c: "c = \<lparr>cb_words = fold (\<lambda>(key, value) ws. ws[nat key div 64 - nat a div 64 :=
              ws ! (nat key div 64 - nat a div 64) OR push_bit (nat key mod 64) 1]) kvs
              (replicate (nat b div 64 - nat a div 64 + 1) 0),
            base_word = nat a div 64, cb_min_key = a, cb_max_key = b, pair_count = length kvs\<rparr>"
    by (simp_all add: dense_i64_rank_chunk_bitmap_def usize_try_from_def usize_checked_def Let_def
        del: replicate_Suc split: if_splits)
  note kb' = key_bounds_SomeD [OF kb]
  have "nat a div 64 \<le> nat k div 64 \<and> nat k div 64 - nat a div 64 < nat b div 64 - nat a div 64 + 1"
    if "(k, v) \<in> set kvs" for k v
  proof -
    have "nat a \<le> nat k" "nat k \<le> nat b" using kb' that by auto
    then have "nat a div 64 \<le> nat k div 64" "nat k div 64 \<le> nat b div 64" by (auto intro: div_le_mono)
    then show ?thesis using word_span by blast
  qed
  then have "\<forall>(k, v) \<in> set kvs. nat a div 64 \<le> nat k div 64 \<and>
      nat k div 64 - nat a div 64 < length (replicate (nat b div 64 - nat a div 64 + 1) (0 :: u64))"
    by (auto simp del: replicate_Suc)
  note l = fold_local_bits [OF this]
  have sel: "base_word c = nat a div 64" "cb_min_key c = a" "cb_max_key c = b" "pair_count c = length kvs"
    by (simp_all add: c)
  have "length (cb_words c) = nat b div 64 - nat a div 64 + 1"
    "(\<lambda>b. 64 * (nat a div 64) + b) ` bitmap (cb_words c) = nat ` fst ` set kvs"
    using l by (simp_all add: c Let_def del: replicate_Suc)
  moreover have "nat a div 64 + (nat b div 64 - nat a div 64 + 1) = nat b div 64 + 1"
    using word_span [OF order_refl le] by blast
  ultimately show ?thesis using False kb' unfolding chunk_ok_def sel by (simp only: if_False simp_thms) blast
qed

lemma those_map_SomeD: "those (map f xs) = Some ys \<Longrightarrow> list_all2 (\<lambda>x y. f x = Some y) xs ys"
  by (induction xs arbitrary: ys) (auto split: option.splits)

lemma chunk_totals_SomeD:
  "chunk_totals cs lo hi n w = Some (a, b, n', w') \<Longrightarrow> list_all2 chunk_ok chunks cs \<Longrightarrow>
     n' = n + length (concat chunks) \<and> a \<le> lo \<and> hi \<le> b \<and> (\<forall>c \<in> set cs. pair_count c \<noteq> 0 \<longrightarrow> cb_max_key c \<le> b)"
proof (induction cs arbitrary: lo hi n w chunks)
  case (Cons c cs)
  obtain kvs rest where ch: "chunks = kvs # rest" "chunk_ok kvs c" "list_all2 chunk_ok rest cs"
    using Cons.prems(2) by (auto simp: list_all2_Cons2)
  show ?case
  proof (cases "pair_count c = 0")
    case True
    then show ?thesis using Cons.IH [OF _ ch(3), of lo hi n w] Cons.prems(1) ch by (auto simp: chunk_ok_def)
  next
    case False
    then obtain w2 where "chunk_totals cs (min lo (cb_min_key c)) (max hi (cb_max_key c)) (n + pair_count c) w2 =
        Some (a, b, n', w')"
      using Cons.prems(1) by (auto simp: Option.bind_eq_Some_conv rust_simps)
    from Cons.IH [OF this ch(3)] show ?thesis using ch by (auto simp: chunk_ok_def)
  qed
qed simp

lemma fold_or_words_bitmap:
  assumes "list_all2 chunk_ok chunks cs" "\<forall>c \<in> set cs. base_word c + length (cb_words c) \<le> length words \<or> cb_words c = []"
  shows "bitmap (fold (\<lambda>c. or_words (base_word c) (cb_words c)) cs words) =
    bitmap words \<union> nat ` fst ` set (concat chunks)"
  using assms
proof (induction chunks cs arbitrary: words rule: list_all2_induct)
  case (Cons kvs chunks c cs)
  have "length (or_words (base_word c) (cb_words c) words) = length words \<and>
      bitmap (or_words (base_word c) (cb_words c) words) = bitmap words \<union> nat ` fst ` set kvs"
    using Cons.prems Cons.hyps(1) or_words_bitmap [of "base_word c" "cb_words c" words]
    by (auto simp: chunk_ok_def)
  then show ?case using Cons.IH [of "or_words (base_word c) (cb_words c) words"] Cons.prems
    by (auto simp: image_Un)
qed simp

lemma place_all_eq:
  assumes "ranked words ps n" "\<forall>(k, v) \<in> set kvs. 0 \<le> k \<and> nat k \<in> bitmap words"
  shows "place_all words ps kvs vs =
    Some (fold (\<lambda>(k, v) vs. vs[card_below (bitmap words) (nat k) := v]) kvs vs)"
  using assms(2) by (induction kvs arbitrary: vs) (auto simp: rank_from_parts_eq [OF assms(1)])

lemma place_relative_SomeD:
  assumes "ranked words ps n" "place_relative words ps base kvs vs = Some vs'" "distinct (map fst kvs)"
    "\<forall>(k, v) \<in> set kvs. 0 \<le> k \<and> nat k \<in> bitmap words"
  shows "length vs' = length vs \<and>
    (\<forall>(k, v) \<in> set kvs. base \<le> card_below (bitmap words) (nat k) \<and>
       card_below (bitmap words) (nat k) - base < length vs \<and>
       vs' ! (card_below (bitmap words) (nat k) - base) = v) \<and>
    (\<forall>i. (\<forall>(k, v) \<in> set kvs. i \<noteq> card_below (bitmap words) (nat k) - base) \<longrightarrow> vs' ! i = vs ! i)"
  using assms(2-)
proof (induction kvs arbitrary: vs)
  case (Cons kv kvs)
  obtain k v where kv: "kv = (k, v)" by (cases kv)
  let ?r = "\<lambda>k. card_below (bitmap words) (nat k)"
  have k: "0 \<le> k" "nat k \<in> bitmap words" using Cons.prems kv by auto
  have step: "base \<le> ?r k" "?r k - base < length vs"
    "place_relative words ps base kvs (vs[?r k - base := v]) = Some vs'"
    using Cons.prems(1) kv k by (auto simp: rank_from_parts_eq [OF assms(1)] not_less split: if_splits)
  have dom: "\<forall>(k, v) \<in> set kvs. 0 \<le> k \<and> nat k \<in> bitmap words" and dist: "distinct (map fst kvs)"
    using Cons.prems by auto
  note IH = Cons.IH [OF step(3) dist dom]
  have other: "?r k - base \<noteq> ?r k' - base" if "(k', v') \<in> set kvs" for k' v'
  proof -
    have "k \<noteq> k'" using Cons.prems(2) that kv by force
    moreover have "0 \<le> k'" "nat k' \<in> bitmap words" "base \<le> ?r k'" using dom IH that by auto
    ultimately have "?r k \<noteq> ?r k'" using k by (auto simp: card_below_inj)
    then show ?thesis using step(1) \<open>base \<le> ?r k'\<close> by linarith
  qed
  then have "vs' ! (?r k - base) = vs[?r k - base := v] ! (?r k - base)" using IH by fast
  then have "vs' ! (?r k - base) = v" using step(2) by simp
  then show ?case using IH kv step by (auto simp: nth_list_update)
qed auto

lemma ordered_from_sorted:
  "ordered_from prev cs \<Longrightarrow> \<forall>c \<in> set cs. cb_min_key c \<le> cb_max_key c \<Longrightarrow>
     sorted_wrt (\<lambda>c d. cb_max_key c < cb_min_key d) cs \<and>
     (\<forall>m. prev = Some m \<longrightarrow> (\<forall>c \<in> set cs. m < cb_min_key c))"
proof (induction prev cs rule: ordered_from.induct)
  case (2 prev c cs)
  then have "sorted_wrt (\<lambda>c d. cb_max_key c < cb_min_key d) cs" "\<forall>d \<in> set cs. cb_max_key c < cb_min_key d"
    and "\<forall>m. prev = Some m \<longrightarrow> m < cb_min_key c"
    by (auto split: if_splits option.splits)
  then show ?case using "2.prems"(2) by fastforce
qed simp

lemma card_nat_keys:
  assumes "\<forall>(k, v) \<in> set kvs. 0 \<le> k" "distinct (map fst kvs)"
  shows "card (nat ` fst ` set kvs) = length kvs"
proof -
  have "\<forall>k \<in> set (map fst kvs). 0 \<le> k" using assms(1) by auto
  then have "inj_on nat (set (map fst kvs))" by (intro inj_onI) (metis eq_nat_nat_iff)
  with assms(2) have "distinct (map nat (map fst kvs))" by (simp only: distinct_map)
  from distinct_card [OF this] show ?thesis by (simp add: image_image)
qed

text \<open>In ordered chunks with distinct keys, the rank of a chunk's least key is the number of pairs before it.\<close>

lemma ordered_chunks_base_rank:
  assumes "distinct (map fst (concat (pre @ [kvs] @ post)))" "kvs \<noteq> []"
    "\<forall>(k, v) \<in> set (concat (pre @ [kvs] @ post)). 0 \<le> k"
    "\<forall>(k, v) \<in> set (concat pre). \<forall>(k', v') \<in> set kvs. k < k'"
    "\<forall>(k, v) \<in> set kvs. \<forall>(k', v') \<in> set (concat post). k < k'"
  shows "card_below (nat ` fst ` set (concat (pre @ [kvs] @ post))) (nat (Min (set (map fst kvs)))) =
    length (concat pre)"
proof -
  let ?m = "Min (set (map fst kvs))"
  have m: "?m \<in> fst ` set kvs" "\<forall>k \<in> fst ` set kvs. ?m \<le> k"
    using assms(2) Min_in [of "set (map fst kvs)"] by auto
  then obtain v0 where m0: "(?m, v0) \<in> set kvs" by force
  have "{j \<in> nat ` fst ` set (concat (pre @ [kvs] @ post)). j < nat ?m} = nat ` fst ` set (concat pre)"
  proof (intro set_eqI iffI)
    fix j assume "j \<in> {j \<in> nat ` fst ` set (concat (pre @ [kvs] @ post)). j < nat ?m}"
    then obtain kv where j: "kv \<in> set (concat (pre @ [kvs] @ post))" "j = nat (fst kv)" "j < nat ?m" by blast
    obtain k v where "kv = (k, v)" by (cases kv)
    with j have kv: "(k, v) \<in> set (concat (pre @ [kvs] @ post))" "j = nat k" "nat k < nat ?m" by simp_all
    then have "k < ?m" by simp
    have "(k, v) \<notin> set kvs"
    proof
      assume "(k, v) \<in> set kvs"
      then have "k \<in> fst ` set kvs" by (rule image_eqI [rotated]) simp
      with m(2) \<open>k < ?m\<close> show False by (meson leD)
    qed
    moreover have "(k, v) \<notin> set (concat post)"
    proof
      assume "(k, v) \<in> set (concat post)"
      with m0 assms(5) have "?m < k" by fast
      with \<open>k < ?m\<close> show False by simp
    qed
    ultimately show "j \<in> nat ` fst ` set (concat pre)" using kv by force
  next
    fix j assume "j \<in> nat ` fst ` set (concat pre)"
    then obtain kv where j: "kv \<in> set (concat pre)" "j = nat (fst kv)" by blast
    obtain k v where "kv = (k, v)" by (cases kv)
    with j have kv: "(k, v) \<in> set (concat pre)" "j = nat k" by simp_all
    then have "k < ?m" using m0 assms(4) by fast
    moreover have "0 \<le> k" using kv(1) assms(3) by auto
    ultimately show "j \<in> {j \<in> nat ` fst ` set (concat (pre @ [kvs] @ post)). j < nat ?m}" using kv by force
  qed
  moreover have "card (nat ` fst ` set (concat pre)) = length (concat pre)"
    using assms(1,3) by (intro card_nat_keys) auto
  ultimately show ?thesis by (simp add: card_below_def)
qed

lemma concat_nth_offset:
  "length xs \<le> i \<Longrightarrow> i - length xs < length ys \<Longrightarrow> (xs @ ys @ zs) ! i = ys ! (i - length xs)"
  by (simp add: nth_append)

lemma list_all2_length_concat:
  "list_all2 (\<lambda>x y. length y = length x) xss yss \<Longrightarrow> length (concat yss) = length (concat xss)"
  by (induction rule: list_all2_induct) auto

text \<open>The ordered path: concatenating the values of the chunks puts every value at its rank.\<close>

lemma ordered_values_holds_last:
  assumes r: "ranked words ps n" and B: "bitmap words = nat ` fst ` set (concat chunks)"
    and nonneg: "\<forall>(k, v) \<in> set (concat chunks). 0 \<le> k"
    and dist: "distinct (map fst (concat chunks))"
    and ord: "\<And>pre kvs post. chunks = pre @ [kvs] @ post \<Longrightarrow>
      (\<forall>(k, v) \<in> set (concat pre). \<forall>(k', v') \<in> set kvs. k < k') \<and>
      (\<forall>(k, v) \<in> set kvs. \<forall>(k', v') \<in> set (concat post). k < k')"
    and vss: "list_all2 (\<lambda>kvs vs. chunk_values words ps dflt kvs = Some vs) chunks vss"
  shows "holds_last (bitmap words) (concat chunks) (concat vss)"
proof -
  let ?r = "\<lambda>k. card_below (bitmap words) (nat k)"
  have dom: "0 \<le> k \<and> nat k \<in> bitmap words" if "(k, v) \<in> set (concat chunks)" for k v
    using that nonneg B by (auto simp: image_iff) (metis fst_conv)
  have chunk: "length vs = length kvs \<and> (\<forall>(k, v) \<in> set kvs.
      ?r (Min (set (map fst kvs))) \<le> ?r k \<and> ?r k - ?r (Min (set (map fst kvs))) < length vs \<and>
      vs ! (?r k - ?r (Min (set (map fst kvs)))) = v)"
    if "kvs \<in> set chunks" "chunk_values words ps dflt kvs = Some vs" for kvs vs
  proof (cases "kvs = []")
    case False
    have d: "distinct (map fst kvs)" using dist that(1) by (induction chunks) auto
    have dm: "\<forall>(k, v) \<in> set kvs. 0 \<le> k \<and> nat k \<in> bitmap words" using dom that(1) by auto
    have "place_relative words ps (?r (Min (set (map fst kvs)))) kvs (replicate (length kvs) dflt) = Some vs"
      using that(2) False by (auto simp: chunk_values_def rank_from_parts_eq [OF r] split: if_splits)
    from place_relative_SomeD [OF r this d dm] show ?thesis by auto
  qed (use that in \<open>simp add: chunk_values_def\<close>)
  have lens: "list_all2 (\<lambda>kvs vs. length vs = length kvs) chunks vss"
    using vss by (rule list.rel_mono_strong) (use chunk in blast)
  have placed: "concat vss ! ?r k = v" if "(k, v) \<in> set (concat chunks)" for k v
  proof -
    from that obtain kvs where kvs: "kvs \<in> set chunks" "(k, v) \<in> set kvs" by auto
    then obtain pre post where sp: "chunks = pre @ [kvs] @ post" by (metis append_Cons append_Nil split_list)
    then obtain vpre vs vpost where v: "vss = vpre @ [vs] @ vpost" and lp: "length vpre = length pre"
      and cv: "chunk_values words ps dflt kvs = Some vs"
      using vss by (auto simp: list_all2_append1 list_all2_Cons1)
    have "length (concat vpre) = length (concat pre)"
      using lens lp by (intro list_all2_length_concat) (simp add: sp v list_all2_append)
    moreover have "?r (Min (set (map fst kvs))) = length (concat pre)"
      using ordered_chunks_base_rank [of pre kvs post] ord [OF sp] dist nonneg kvs(2)
      unfolding B sp by fastforce
    ultimately show ?thesis using chunk [OF kvs(1) cv] kvs(2)
      by (auto simp: v concat_nth_offset)
  qed
  have len: "length (concat vss) = card (bitmap words)"
    unfolding B card_nat_keys [OF nonneg dist] by (rule list_all2_length_concat [OF lens])
  have last: "map_of (rev (concat chunks)) (int i) = Some v" if "(int i, v) \<in> set (concat chunks)" for i v
    using that dist by (intro map_of_is_SomeI) (auto simp: rev_map [symmetric])
  show ?thesis unfolding holds_last_def
  proof (intro conjI ballI len)
    fix i assume "i \<in> bitmap words"
    then obtain kv where kv0: "kv \<in> set (concat chunks)" "i = nat (fst kv)" unfolding B by blast
    obtain k v where "kv = (k, v)" by (cases kv)
    with kv0 have kv: "(k, v) \<in> set (concat chunks)" "i = nat k" by simp_all
    then have "(int i, v) \<in> set (concat chunks)" using dom [OF kv(1)] by simp
    then show "map_of (rev (concat chunks)) (int i) = Some (concat vss ! card_below (bitmap words) i)"
      using last [of i v] placed [of "int i" v] by simp
  qed
qed

lemma card_nat_keys_eq_distinct:
  assumes "card (nat ` fst ` set kvs) = length kvs"
  shows "distinct (map fst kvs)"
proof (rule card_distinct)
  have "card (nat ` fst ` set kvs) \<le> card (fst ` set kvs)" by (rule card_image_le) simp
  then show "card (set (map fst kvs)) = length (map fst kvs)"
    using assms card_length [of "map fst kvs"] by simp
qed

lemma keys_in_image: "(k, v) \<in> set kvs \<Longrightarrow> f k \<in> f ` fst ` set kvs"
  by force

lemma list_all2_in_right: "list_all2 P xs ys \<Longrightarrow> y \<in> set ys \<Longrightarrow> \<exists>x \<in> set xs. P x y"
  by (induction rule: list_all2_induct) auto

lemma ordered_from_chunks:
  assumes "ordered_from None (filter (\<lambda>c. pair_count c > 0) cs)" "list_all2 chunk_ok chunks cs"
    "chunks = pre @ [kvs] @ post"
  shows "(\<forall>(k, v) \<in> set (concat pre). \<forall>(k', v') \<in> set kvs. k < k') \<and>
    (\<forall>(k, v) \<in> set kvs. \<forall>(k', v') \<in> set (concat post). k < k')"
proof -
  have ne: "cb_min_key d \<le> cb_max_key d" if "chunk_ok x d" "x \<noteq> []" for x :: "(int \<times> 'a) list" and d
    using that by (cases x) (auto simp: chunk_ok_def)
  have "\<forall>d \<in> set (filter (\<lambda>c. pair_count c > 0) cs). cb_min_key d \<le> cb_max_key d"
  proof
    fix d assume d: "d \<in> set (filter (\<lambda>c. pair_count c > 0) cs)"
    then obtain x :: "(int \<times> 'a) list" where "chunk_ok x d" using list_all2_in_right [OF assms(2), of d] by auto
    moreover have "x \<noteq> []" using calculation d by (auto simp: chunk_ok_def)
    ultimately show "cb_min_key d \<le> cb_max_key d" by (rule ne)
  qed
  then have sw: "sorted_wrt (\<lambda>c d. cb_max_key c < cb_min_key d) (filter (\<lambda>c. pair_count c > 0) cs)"
    using ordered_from_sorted [OF assms(1)] by blast
  obtain cpre c cpost where cs: "cs = cpre @ [c] @ cpost" "list_all2 chunk_ok pre cpre" "chunk_ok kvs c"
    "list_all2 chunk_ok post cpost"
    using assms(2,3) by (auto simp: list_all2_append1 list_all2_Cons1)
  have cov: "\<exists>d \<in> set ds. pair_count d > 0 \<and> cb_min_key d \<le> k \<and> k \<le> cb_max_key d"
    if "list_all2 chunk_ok xs ds" "(k, v) \<in> set (concat xs)" for k v and xs :: "(int \<times> 'a) list list" and ds
    using that by (induction rule: list_all2_induct) (auto simp: chunk_ok_def)
  have in_c: "pair_count c > 0 \<and> cb_min_key c \<le> k \<and> k \<le> cb_max_key c" if "(k, v) \<in> set kvs" for k v
    using that cs(3) by (auto simp: chunk_ok_def)
  have "k < k'" if "(k, v) \<in> set (concat pre)" "(k', v') \<in> set kvs" for k v k' v'
    using cov [OF cs(2) that(1)] in_c [OF that(2)] sw cs(1) by (fastforce simp: sorted_wrt_append)
  moreover have "k < k'" if "(k, v) \<in> set kvs" "(k', v') \<in> set (concat post)" for k v k' v'
    using cov [OF cs(4) that(2)] in_c [OF that(1)] sw cs(1) by (fastforce simp: sorted_wrt_append)
  ultimately show ?thesis by blast
qed

lemma rank_from_chunks_get:
  assumes "rank_from_chunks_parallel sz dflt chunks max_bytes = Some m"
  shows "rank_get m key = map_of (rev (concat chunks)) key"
proof -
  from assms obtain cs a b tot lw wc bytes words ps n vs where
    cs: "those (map (dense_i64_rank_chunk_bitmap max_bytes) chunks) = Some cs" and
    tot: "chunk_totals cs i64_max i64_min 0 0 = Some (a, b, tot, lw)" and
    layout: "rank_layout sz b tot = Some (wc, bytes)" and
    words: "words = fold (\<lambda>c. or_words (base_word c) (cb_words c)) cs (replicate wc 0)" and
    ps: "rank_prefixes_of words = Some (ps, n)" and
    vs: "(if ordered_from None (filter (\<lambda>c. pair_count c > 0) cs) \<and> n = tot
          then Option.bind (those (map (chunk_values words ps dflt) chunks)) (\<lambda>vss.
               if length (concat vss) = n then Some (concat vss) else None)
          else place_all words ps (concat chunks) (replicate n dflt)) = Some vs" and
    m: "m = \<lparr>rm_words = words, rank_prefixes = ps, rm_values = vs, rm_min_key = a, rm_max_key = b\<rparr>"
    unfolding rank_from_chunks_parallel_def Let_def
    by (auto simp: Option.bind_eq_Some_conv split: if_splits prod.splits)
  have ok: "list_all2 chunk_ok chunks cs"
    using those_map_SomeD [OF cs] by (rule list.rel_mono_strong) (rule chunk_bitmap_ok)
  note tot' = chunk_totals_SomeD [OF tot ok] and layout' = rank_layout_SomeD [OF layout]
  have fits: "\<forall>c \<in> set cs. base_word c + length (cb_words c) \<le> length (replicate wc (0 :: u64)) \<or> cb_words c = []"
  proof
    fix c assume c: "c \<in> set cs"
    then obtain kvs :: "(int \<times> 'a) list" where "chunk_ok kvs c" using list_all2_in_right [OF ok] by blast
    then show "base_word c + length (cb_words c) \<le> length (replicate wc (0 :: u64)) \<or> cb_words c = []"
      using tot' c layout' by (auto simp: chunk_ok_def intro!: div_le_mono split: if_splits)
  qed
  have B: "bitmap words = nat ` fst ` set (concat chunks)"
    using fold_or_words_bitmap [OF ok fits] by (simp add: words)
  have nonneg: "\<forall>(k, v) \<in> set (concat chunks). 0 \<le> k"
    using ok by (induction rule: list_all2_induct) (auto simp: chunk_ok_def)
  note r = rank_prefixes_of_ranked [OF ps]
  have "holds_last (bitmap words) (concat chunks) vs"
  proof (cases "ordered_from None (filter (\<lambda>c. pair_count c > 0) cs) \<and> n = tot")
    case True
    then obtain vss where vss: "those (map (chunk_values words ps dflt) chunks) = Some vss" "vs = concat vss"
      using vs by (auto simp: Option.bind_eq_Some_conv split: if_splits)
    have "distinct (map fst (concat chunks))"
      using True r tot' by (intro card_nat_keys_eq_distinct) (simp only: ranked_def B [symmetric], simp)
    from ordered_values_holds_last [OF r B nonneg this ordered_from_chunks [OF conjunct1 [OF True] ok]
        those_map_SomeD [OF vss(1)]]
    show ?thesis by (simp only: vss(2))
  next
    case False
    have "\<forall>(k, v) \<in> set (concat chunks). 0 \<le> k \<and> nat k \<in> bitmap words"
      unfolding B using nonneg by (auto simp del: set_concat intro: keys_in_image)
    from place_all_eq [OF r this] False vs have
      "vs = fold (\<lambda>(k, v) vs. vs[card_below (bitmap words) (nat k) := v]) (concat chunks) (replicate n dflt)"
      by auto
    then show ?thesis using fold_write_holds_last [OF B nonneg, of "replicate n dflt"] r
      by (simp add: ranked_def)
  qed
  then show ?thesis using rank_get_holds_last [of m n "concat chunks" key] r B nonneg by (simp add: m)
qed

subsection \<open>Properties\<close>

text \<open>
  \<open>DenseI64RankMap::from_pairs\<close> succeeds whenever its keys are indices and its layout fits the
  byte budget, and the map then returns the last value of every key.
\<close>

theorem rank_map_from_pairs:
  assumes "kvs \<noteq> []" "\<forall>(k, v) \<in> set kvs. 0 \<le> k \<and> k \<le> hi" "hi \<le> i64_max" "length kvs < 2 ^ 32"
    "(nat hi div 64 + 1) * 12 + length kvs * sz \<le> max_bytes" "max_bytes \<le> u64_max"
  shows "\<exists>m. rank_from_pairs sz dflt kvs max_bytes = Some m \<and> rank_get m = map_of (rev kvs)"
  using rank_from_pairs_total [OF assms, of dflt] rank_from_pairs_get [of sz dflt kvs max_bytes]
  by (metis ext)

theorem rank_map_from_pairs_witness:
  "\<exists>m. rank_from_pairs 8 0 [(3, 30), (70, 700 :: int)] 1000 = Some m \<and> rank_get m 70 = Some 700"
  using rank_map_from_pairs [of "[(3, 30), (70, 700)]" 70 8 1000 "0 :: int"] by fastforce

text \<open>
  C20: the parallel builder \<open>from_chunks_parallel\<close> answers every lookup like the sequential one on the
  concatenated chunks, whether it places the values chunk by chunk (ordered chunks without overlap)
  or one at a time.
\<close>

theorem rank_map_parallel_equals_sequential:
  assumes "rank_from_chunks_parallel sz dflt chunks max_bytes = Some m"
    "rank_from_pairs sz dflt (concat chunks) max_bytes' = Some m'"
  shows "rank_get m = rank_get m'"
  using rank_from_chunks_get [OF assms(1)] rank_from_pairs_get [OF assms(2)] by (simp add: fun_eq_iff)

theorem rank_map_parallel_equals_sequential_witness:
  "\<exists>m m'. rank_from_chunks_parallel 8 (0 :: int) [[(2, 50), (1, 30)], [], [(3, 700)]] 1000 = Some m \<and>
     rank_from_pairs 8 0 (concat [[(2, 50), (1, 30)], [], [(3, 700)]]) 1000 = Some m' \<and>
     rank_get m = rank_get m'"
proof -
  have "rank_from_chunks_parallel 8 (0 :: int) [[(2, 50), (1, 30)], [], [(3, 700)]] 1000 \<noteq> None"
    by (simp add: rank_from_chunks_parallel_def rank_eval)
  then obtain m where m: "rank_from_chunks_parallel 8 (0 :: int) [[(2, 50), (1, 30)], [], [(3, 700)]] 1000 = Some m"
    by blast
  have "rank_from_pairs 8 (0 :: int) (concat [[(2, 50), (1, 30)], [], [(3, 700)]]) 1000 \<noteq> None"
    by (simp add: rank_from_pairs_def rank_eval)
  then obtain m' where m': "rank_from_pairs 8 (0 :: int) (concat [[(2, 50), (1, 30)], [], [(3, 700)]]) 1000 = Some m'"
    by blast
  from rank_map_parallel_equals_sequential [OF m m'] m m' show ?thesis by blast
qed

end
