(* ===== verification/Rust_Strings.thy ===== *)
theory Rust_Strings
  imports Dodam_Prelude
begin

text \<open>
  The string operations of the Rust standard library that the engine uses on expressions:
  trimming, splitting, ASCII case folding, and the decimal notation of \<open>i64\<close>.  A \<open>str\<close> is a
  \<open>string\<close> whose characters are code points below 256; \<open>char::is_whitespace\<close> is the
  \<open>White_Space\<close> property on that range.
\<close>

definition is_whitespace :: "char \<Rightarrow> bool" where
  "is_whitespace c \<longleftrightarrow> (let n = of_char c :: nat in (9 \<le> n \<and> n \<le> 13) \<or> n = 32 \<or> n = 133 \<or> n = 160)"

definition ascii_lower :: "char \<Rightarrow> char" where
  "ascii_lower c = (let n = of_char c :: nat in if 65 \<le> n \<and> n \<le> 90 then char_of (n + 32) else c)"

definition to_ascii_lowercase :: "string \<Rightarrow> string" where
  "to_ascii_lowercase s = map ascii_lower s"

definition eq_ignore_ascii_case :: "string \<Rightarrow> string \<Rightarrow> bool" where
  "eq_ignore_ascii_case a b \<longleftrightarrow> to_ascii_lowercase a = to_ascii_lowercase b"

definition is_ascii :: "string \<Rightarrow> bool" where
  "is_ascii s \<longleftrightarrow> list_all (\<lambda>c. (of_char c :: nat) < 128) s"

definition trim_start :: "string \<Rightarrow> string" where
  "trim_start s = dropWhile is_whitespace s"

definition trim :: "string \<Rightarrow> string" where
  "trim s = rev (dropWhile is_whitespace (rev (trim_start s)))"

fun split_once :: "char \<Rightarrow> string \<Rightarrow> (string \<times> string) option" where
  "split_once d [] = None"
| "split_once d (c # s) =
     (if c = d then Some ([], s) else map_option (\<lambda>(a, b). (c # a, b)) (split_once d s))"

definition strip_suffix :: "char \<Rightarrow> string \<Rightarrow> string option" where
  "strip_suffix d s = (if s \<noteq> [] \<and> last s = d then Some (butlast s) else None)"

text \<open>\<open>split_whitespace\<close>: the maximal runs of other characters.\<close>

fun split_words :: "string \<Rightarrow> string \<Rightarrow> string list" where
  "split_words word [] = (if word = [] then [] else [word])"
| "split_words word (c # s) =
     (if is_whitespace c then (if word = [] then split_words [] s else word # split_words [] s)
      else split_words (word @ [c]) s)"

definition split_whitespace :: "string \<Rightarrow> string list" where
  "split_whitespace s = split_words [] s"

text \<open>\<open>str::split\<close> on one character.\<close>

fun split_char :: "char \<Rightarrow> string \<Rightarrow> string list" where
  "split_char d [] = [[]]"
| "split_char d (c # s) =
     (if c = d then [] # split_char d s
      else case split_char d s of [] \<Rightarrow> [[c]] | part # parts \<Rightarrow> (c # part) # parts)"

subsection \<open>Decimal notation\<close>

definition digit_char :: "nat \<Rightarrow> char" where
  "digit_char d = char_of (48 + d)"

definition digit_value :: "char \<Rightarrow> nat option" where
  "digit_value c = (let n = of_char c :: nat in if 48 \<le> n \<and> n \<le> 57 then Some (n - 48) else None)"

fun show_nat :: "nat \<Rightarrow> string" where
  "show_nat n = (if n < 10 then [digit_char n] else show_nat (n div 10) @ [digit_char (n mod 10)])"

declare show_nat.simps [simp del]

definition show_int :: "int \<Rightarrow> string" where
  "show_int i = (if i < 0 then CHR ''-'' # show_nat (nat (- i)) else show_nat (nat i))"

fun parse_digits :: "string \<Rightarrow> nat \<Rightarrow> nat option" where
  "parse_digits [] n = Some n"
| "parse_digits (c # s) n =
     (case digit_value c of None \<Rightarrow> None | Some d \<Rightarrow> parse_digits s (10 * n + d))"

text \<open>
  \<open>str::parse::<i64>\<close>: an optional sign, at least one digit, and a value in range.  The library
  checks for overflow digit by digit, which fails exactly when the final value is out of range.
\<close>

definition parse_signed :: "string \<Rightarrow> int option" where
  "parse_signed s =
     (case s of
        [] \<Rightarrow> None
      | c # rest \<Rightarrow>
          (let ds = (if c = CHR ''-'' \<or> c = CHR ''+'' then rest else s)
           in if ds = [] then None
              else map_option (\<lambda>n. if c = CHR ''-'' then - int n else int n) (parse_digits ds 0)))"

definition parse_i64 :: "string \<Rightarrow> int option" where
  "parse_i64 s =
     (case s of
        [] \<Rightarrow> None
      | c # rest \<Rightarrow>
          (let neg = (c = CHR ''-''); ds = (if c = CHR ''-'' \<or> c = CHR ''+'' then rest else s)
           in if ds = [] then None
              else case parse_digits ds 0 of
                     None \<Rightarrow> None
                   | Some n \<Rightarrow> i64_checked (if neg then - int n else int n)))"

text \<open>\<open>str::parse::<usize>\<close>: a minus sign is not accepted.\<close>

definition parse_usize :: "string \<Rightarrow> nat option" where
  "parse_usize s =
     (case s of
        [] \<Rightarrow> None
      | c # rest \<Rightarrow>
          (let ds = (if c = CHR ''+'' then rest else s)
           in if ds = [] then None
              else case parse_digits ds 0 of None \<Rightarrow> None | Some n \<Rightarrow> usize_checked n))"

lemma digit_value_digit_char [simp]: "d < 10 \<Longrightarrow> digit_value (digit_char d) = Some d"
  by (simp add: digit_value_def digit_char_def Let_def)

lemma parse_digits_append:
  "parse_digits (a @ b) n = Option.bind (parse_digits a n) (parse_digits b)"
  by (induction a arbitrary: n) (auto split: option.splits)

lemma parse_digits_show_nat [simp]: "parse_digits (show_nat n) 0 = Some n"
proof (induction n rule: show_nat.induct)
  case (1 n)
  then show ?case by (subst show_nat.simps) (auto simp: parse_digits_append)
qed

lemma show_nat_digits: "c \<in> set (show_nat n) \<Longrightarrow> \<exists>d < 10. c = digit_char d"
proof (induction n rule: show_nat.induct)
  case (1 n)
  have "\<exists>d < 10. digit_char (n mod 10) = digit_char d" by (rule exI [of _ "n mod 10"]) simp
  with 1 show ?case by (subst (asm) show_nat.simps) (auto split: if_splits)
qed

lemma show_nat_nonempty [simp]: "show_nat n \<noteq> []"
  by (subst show_nat.simps) simp

lemma digit_char_not: 
  assumes "d < 10"
  shows "digit_char d \<noteq> CHR ''-''" "digit_char d \<noteq> CHR ''+''" "\<not> is_whitespace (digit_char d)"
    "ascii_lower (digit_char d) = digit_char d" "(of_char (digit_char d) :: nat) = 48 + d"
proof -
  have n: "(of_char (digit_char d) :: nat) = 48 + d" using assms by (simp add: digit_char_def)
  have "(of_char (CHR ''-'') :: nat) = 45" "(of_char (CHR ''+'') :: nat) = 43" by simp_all
  with n show "digit_char d \<noteq> CHR ''-''" "digit_char d \<noteq> CHR ''+''"
    by (auto dest!: arg_cong [of _ _ "of_char :: char \<Rightarrow> nat"] simp del: of_char_Char)
  show "\<not> is_whitespace (digit_char d)" using n assms by (simp add: is_whitespace_def)
  show "ascii_lower (digit_char d) = digit_char d" using n assms by (simp add: ascii_lower_def)
  show "(of_char (digit_char d) :: nat) = 48 + d" by (rule n)
qed

lemma parse_i64_show_int [simp]:
  assumes "is_i64 i"
  shows "parse_i64 (show_int i) = Some i"
proof (cases "i < 0")
  case True
  then show ?thesis using assms by (simp add: parse_i64_def show_int_def i64_checked_def)
next
  case False
  obtain c s where cs: "show_nat (nat i) = c # s" by (cases "show_nat (nat i)") auto
  then obtain d where "d < 10" "c = digit_char d" using show_nat_digits [of c "nat i"] by auto
  then have "c \<noteq> CHR ''-''" "c \<noteq> CHR ''+''" by (simp_all add: digit_char_not)
  moreover have "parse_digits (c # s) 0 = Some (nat i)" using parse_digits_show_nat [of "nat i"] cs by simp
  ultimately show ?thesis using False assms cs
    by (simp add: parse_i64_def show_int_def i64_checked_def del: parse_digits.simps)
qed

lemma parse_usize_show_nat [simp]:
  assumes "n \<le> u64_max"
  shows "parse_usize (show_nat n) = Some n"
proof -
  obtain c s where cs: "show_nat n = c # s" by (cases "show_nat n") auto
  then obtain d where "d < 10" "c = digit_char d" using show_nat_digits [of c n] by auto
  then have "c \<noteq> CHR ''+''" by (simp add: digit_char_not)
  moreover have "parse_digits (c # s) 0 = Some n" using parse_digits_show_nat [of n] cs by simp
  ultimately show ?thesis using assms cs by (simp add: parse_usize_def usize_checked_def del: parse_digits.simps)
qed

lemma show_nat_inject [simp]: "show_nat m = show_nat n \<longleftrightarrow> m = n"
  by (metis option.inject parse_digits_show_nat)

lemma split_char_nonempty [simp]: "split_char d s \<noteq> []"
  by (induction s) (auto split: list.splits)

lemma split_char_single: "split_char d p = [part] \<Longrightarrow> part = p \<and> d \<notin> set p"
  by (induction p arbitrary: part) (auto split: if_splits list.splits)

lemma parse_i64_signed: "parse_i64 s = Option.bind (parse_signed s) i64_checked"
  by (auto simp: parse_i64_def parse_signed_def Let_def split: list.splits option.splits)

text \<open>The integers that \<open>parse::<i32>\<close>, \<open>parse::<u32>\<close> and \<open>parse::<i128>\<close> accept.\<close>

definition parse_i32 :: "string \<Rightarrow> int option" where
  "parse_i32 s = Option.bind (parse_signed s) (\<lambda>v. if - (2 ^ 31) \<le> v \<and> v < 2 ^ 31 then Some v else None)"

definition parse_u32 :: "string \<Rightarrow> nat option" where
  "parse_u32 s = Option.bind (parse_usize s) (\<lambda>n. if n < 2 ^ 32 then Some n else None)"

definition i128_checked :: "int \<Rightarrow> int option" where
  "i128_checked v = (if - (2 ^ 127) \<le> v \<and> v < 2 ^ 127 then Some v else None)"

definition parse_i128 :: "string \<Rightarrow> int option" where
  "parse_i128 s = Option.bind (parse_signed s) i128_checked"

lemma parse_signed_show_nat [simp]: "parse_signed (show_nat n) = Some (int n)"
proof -
  obtain c s where cs: "show_nat n = c # s" by (cases "show_nat n") auto
  then obtain d where "d < 10" "c = digit_char d" using show_nat_digits [of c n] by auto
  then have "c \<noteq> CHR ''-''" "c \<noteq> CHR ''+''" by (simp_all add: digit_char_not)
  moreover have "parse_digits (c # s) 0 = Some n" using parse_digits_show_nat [of n] cs by simp
  ultimately show ?thesis using cs by (simp add: parse_signed_def del: parse_digits.simps)
qed

lemma parse_u32_show_nat [simp]: "n < 2 ^ 32 \<Longrightarrow> parse_u32 (show_nat n) = Some n"
  by (simp add: parse_u32_def)

end
