(* ===== verification/Logical_Expr.thy ===== *)
theory Logical_Expr
  imports Rust_Strings
begin

text \<open>
  The query-facing expressions of \<open>execution/logical.rs\<close> and the error type of \<open>error.rs\<close>: filters,
  projections, sort keys and aggregate calls with their textual forms, the columns a filter reads,
  and the split of a filter into the conjuncts that may prune row groups and the residual filter.

  An \<open>f64\<close> literal is its bit pattern; \<open>str::parse::<f64>\<close> is the argument \<open>parse_f64\<close> of the
  functions that call it, and the notation \<open>f64::to_string\<close> the argument \<open>show_f64\<close>.
\<close>

subsection \<open>Errors\<close>

text \<open>
  The variants whose payload is a third-party error or type (\<open>Io\<close>, \<open>Json\<close>, \<open>Parquet\<close>, \<open>Arrow\<close>, and
  the data types of the \<open>Unsupported...Type\<close> variants) carry that payload as a string.
\<close>

datatype dodam_error =
    MissingPath string
  | UnsupportedTablePath string
  | UnsupportedStorageLocation string
  | UnsupportedStorageFormat string
  | UnknownColumn string
  | AmbiguousColumn string
  | UnknownTableQualifier string
  | InvalidCast string
  | TypeMismatch string
  | InvalidFilter string
  | InvalidAggregate string
  | InvalidOrderBy string
  | UnsupportedSql string
  | UnsupportedFilterType string string
  | UnsupportedAggregateType string string string
  | UnsupportedGroupByType string string
  | Io string
  | Json string
  | Parquet string
  | Arrow string

subsection \<open>Aggregate calls\<close>

datatype aggregate_expr =
    CountStar
  | Count string
  | CountDistinct string
  | Sum string
  | Avg string
  | AggMin string
  | AggMax string

definition aggregate_expr_parse :: "string \<Rightarrow> dodam_error + aggregate_expr" where
  "aggregate_expr_parse input0 =
     (let input = trim input0; err = Inl (InvalidAggregate input)
      in case split_once CHR ''('' input of
           None \<Rightarrow> err
         | Some (func, rest) \<Rightarrow>
             (case strip_suffix CHR '')'' rest of
                None \<Rightarrow> err
              | Some column0 \<Rightarrow>
                  (let f = to_ascii_lowercase (trim func); column = trim column0
                   in if f = ''count'' \<and> column = ''*'' then Inr CountStar
                      else if f = ''count_distinct'' \<and> column \<noteq> [] then Inr (CountDistinct column)
                      else if f = ''count'' \<and> column \<noteq> [] then Inr (Count column)
                      else if f = ''sum'' \<and> column \<noteq> [] then Inr (Sum column)
                      else if f = ''avg'' \<and> column \<noteq> [] then Inr (Avg column)
                      else if f = ''min'' \<and> column \<noteq> [] then Inr (AggMin column)
                      else if f = ''max'' \<and> column \<noteq> [] then Inr (AggMax column)
                      else err)))"

fun referenced_column :: "aggregate_expr \<Rightarrow> string option" where
  "referenced_column CountStar = None"
| "referenced_column (Count column) = Some column"
| "referenced_column (CountDistinct column) = Some column"
| "referenced_column (Sum column) = Some column"
| "referenced_column (Avg column) = Some column"
| "referenced_column (AggMin column) = Some column"
| "referenced_column (AggMax column) = Some column"

fun show_aggregate_expr :: "aggregate_expr \<Rightarrow> string" where
  "show_aggregate_expr CountStar = ''count(*)''"
| "show_aggregate_expr (Count column) = ''count('' @ column @ '')''"
| "show_aggregate_expr (CountDistinct column) = ''count(DISTINCT '' @ column @ '')''"
| "show_aggregate_expr (Sum column) = ''sum('' @ column @ '')''"
| "show_aggregate_expr (Avg column) = ''avg('' @ column @ '')''"
| "show_aggregate_expr (AggMin column) = ''min('' @ column @ '')''"
| "show_aggregate_expr (AggMax column) = ''max('' @ column @ '')''"

subsection \<open>Sort keys and projections\<close>

record sort_expr =
  sort_column :: string
  descending :: bool
  nulls_first :: bool

type_synonym sort_key = "sort_expr list"

definition sort_key_new :: "sort_expr list \<Rightarrow> dodam_error + sort_key" where
  "sort_key_new expressions =
     (if expressions = [] then Inl (InvalidOrderBy ''expected at least one sort expression'')
      else Inr expressions)"

definition sort_expr_parse :: "string \<Rightarrow> dodam_error + sort_expr" where
  "sort_expr_parse input0 =
     (let input = trim input0
      in if input = [] then Inl (InvalidOrderBy input)
         else case split_whitespace input of
                [column] \<Rightarrow> Inr \<lparr>sort_column = column, descending = False, nulls_first = False\<rparr>
              | [column, direction] \<Rightarrow>
                  if eq_ignore_ascii_case direction ''asc''
                  then Inr \<lparr>sort_column = column, descending = False, nulls_first = False\<rparr>
                  else if eq_ignore_ascii_case direction ''desc''
                  then Inr \<lparr>sort_column = column, descending = True, nulls_first = False\<rparr>
                  else Inl (InvalidOrderBy input)
              | _ \<Rightarrow> Inl (InvalidOrderBy input))"

datatype projection = ProjAll | ProjColumns "string list"

subsection \<open>Filter expressions\<close>

datatype comparison_op = Eq | NotEq | Lt | LtEq | Gt | GtEq

datatype literal_value =
    LitNull
  | LitBoolean bool
  | LitInt64 int
  | LitFloat64 u64
  | LitUtf8 string

record comparison_expr =
  cmp_column :: string
  cmp_op :: comparison_op
  cmp_value :: literal_value

datatype expr =
    BooleanLit "bool option"
  | Comparison comparison_expr
  | ColumnComparison string comparison_op string
  | InList string "literal_value list" bool bool
  | Like string string bool "char option" bool
  | IsNull string bool
  | Not expr
  | And expr expr
  | Or expr expr

definition literal_parse :: "(string \<Rightarrow> u64 option) \<Rightarrow> string \<Rightarrow> literal_value" where
  "literal_parse parse_f64 value =
     (if eq_ignore_ascii_case value ''true'' then LitBoolean True
      else if eq_ignore_ascii_case value ''false'' then LitBoolean False
      else case parse_i64 value of
             Some v \<Rightarrow> LitInt64 v
           | None \<Rightarrow> (case parse_f64 value of Some v \<Rightarrow> LitFloat64 v | None \<Rightarrow> LitUtf8 value))"

fun show_literal :: "(u64 \<Rightarrow> string) \<Rightarrow> literal_value \<Rightarrow> string" where
  "show_literal show_f64 LitNull = ''NULL''"
| "show_literal show_f64 (LitBoolean b) = (if b then ''true'' else ''false'')"
| "show_literal show_f64 (LitInt64 v) = show_int v"
| "show_literal show_f64 (LitFloat64 v) = show_f64 v"
| "show_literal show_f64 (LitUtf8 s) = s"

definition invalid_literal :: "(u64 \<Rightarrow> string) \<Rightarrow> string \<Rightarrow> literal_value \<Rightarrow> dodam_error" where
  "invalid_literal show_f64 column v = InvalidFilter (column @ ''='' @ show_literal show_f64 v)"

fun as_i32 :: "(u64 \<Rightarrow> string) \<Rightarrow> literal_value \<Rightarrow> string \<Rightarrow> dodam_error + int" where
  "as_i32 show_f64 (LitInt64 v) column =
     (if - (2 ^ 31) \<le> v \<and> v < 2 ^ 31 then Inr v else Inl (invalid_literal show_f64 column (LitInt64 v)))"
| "as_i32 show_f64 v column = Inl (invalid_literal show_f64 column v)"

fun as_i64 :: "(u64 \<Rightarrow> string) \<Rightarrow> literal_value \<Rightarrow> string \<Rightarrow> dodam_error + int" where
  "as_i64 show_f64 (LitInt64 v) column = Inr v"
| "as_i64 show_f64 v column = Inl (invalid_literal show_f64 column v)"

fun as_u64 :: "(u64 \<Rightarrow> string) \<Rightarrow> literal_value \<Rightarrow> string \<Rightarrow> dodam_error + nat" where
  "as_u64 show_f64 (LitInt64 v) column =
     (if 0 \<le> v then Inr (nat v) else Inl (invalid_literal show_f64 column (LitInt64 v)))"
| "as_u64 show_f64 v column = Inl (invalid_literal show_f64 column v)"

fun as_f64 ::
    "(u64 \<Rightarrow> string) \<Rightarrow> (int \<Rightarrow> u64) \<Rightarrow> literal_value \<Rightarrow> string \<Rightarrow> dodam_error + u64" where
  "as_f64 show_f64 i64_as_f64 (LitInt64 v) column = Inr (i64_as_f64 v)"
| "as_f64 show_f64 i64_as_f64 (LitFloat64 v) column = Inr v"
| "as_f64 show_f64 i64_as_f64 v column = Inl (invalid_literal show_f64 column v)"

fun as_bool :: "(u64 \<Rightarrow> string) \<Rightarrow> literal_value \<Rightarrow> string \<Rightarrow> dodam_error + bool" where
  "as_bool show_f64 (LitBoolean b) column = Inr b"
| "as_bool show_f64 v column = Inl (invalid_literal show_f64 column v)"

text \<open>\<open>if !columns.iter().any(..) { columns.push(..) }\<close>.\<close>

definition push_new :: "'a \<Rightarrow> 'a list \<Rightarrow> 'a list" where
  "push_new x xs = (if x \<in> set xs then xs else xs @ [x])"

fun collect_referenced_columns :: "expr \<Rightarrow> string list \<Rightarrow> string list" where
  "collect_referenced_columns (BooleanLit b) columns = columns"
| "collect_referenced_columns (Comparison c) columns = push_new (cmp_column c) columns"
| "collect_referenced_columns (ColumnComparison left op right) columns =
     push_new right (push_new left columns)"
| "collect_referenced_columns (InList column vs negated has_null) columns = push_new column columns"
| "collect_referenced_columns (Like column pattern negated escape ci) columns = push_new column columns"
| "collect_referenced_columns (IsNull column negated) columns = push_new column columns"
| "collect_referenced_columns (Not e) columns = collect_referenced_columns e columns"
| "collect_referenced_columns (And l r) columns =
     collect_referenced_columns r (collect_referenced_columns l columns)"
| "collect_referenced_columns (Or l r) columns =
     collect_referenced_columns r (collect_referenced_columns l columns)"

definition referenced_columns :: "expr \<Rightarrow> string list" where
  "referenced_columns e = collect_referenced_columns e []"

fun collect_conjuncts :: "expr \<Rightarrow> expr list \<Rightarrow> expr list" where
  "collect_conjuncts (And l r) cs = collect_conjuncts r (collect_conjuncts l cs)"
| "collect_conjuncts (BooleanLit b) cs = cs"
| "collect_conjuncts (Not e) cs = cs"
| "collect_conjuncts (InList column vs negated has_null) cs = cs"
| "collect_conjuncts (IsNull column negated) cs = cs"
| "collect_conjuncts e cs = cs @ [e]"

definition conjuncts :: "expr \<Rightarrow> expr list" where
  "conjuncts e = collect_conjuncts e []"

subsection \<open>Conjuncts that may prune row groups\<close>

text \<open>The byte string after the last string with a given prefix; a \<open>u8\<close> is a character.\<close>

fun bump_from_last :: "string \<Rightarrow> string option" where
  "bump_from_last [] = None"
| "bump_from_last (b # rest) =
     (if (of_char b :: nat) \<noteq> 255 then Some (rev (char_of (of_char b + 1 :: nat) # rest))
      else bump_from_last rest)"

definition ascii_prefix_upper_bound :: "string \<Rightarrow> string option" where
  "ascii_prefix_upper_bound prefix = bump_from_last (rev prefix)"

definition like_prefix_pruning_range ::
    "string \<Rightarrow> char option \<Rightarrow> (string \<times> string option) option" where
  "like_prefix_pruning_range pattern escape =
     (if escape \<noteq> None \<or> CHR ''_'' \<in> set pattern \<or> (pattern \<noteq> [] \<and> hd pattern = CHR ''%'') then None
      else case strip_suffix CHR ''%'' pattern of
             None \<Rightarrow> None
           | Some prefix \<Rightarrow>
               if prefix = [] \<or> CHR ''%'' \<in> set prefix \<or> \<not> is_ascii prefix then None
               else Some (prefix, ascii_prefix_upper_bound prefix))"

fun supports_row_group_pruning :: "expr \<Rightarrow> bool" where
  "supports_row_group_pruning (Comparison c) = (cmp_op c \<noteq> NotEq)"
| "supports_row_group_pruning (And l r) = (supports_row_group_pruning l \<and> supports_row_group_pruning r)"
| "supports_row_group_pruning (Or l r) = (supports_row_group_pruning l \<and> supports_row_group_pruning r)"
| "supports_row_group_pruning (Like column pattern negated escape ci) =
     (\<not> negated \<and> \<not> ci \<and> like_prefix_pruning_range pattern escape \<noteq> None)"
| "supports_row_group_pruning _ = False"

record predicate_set =
  pushdown :: "expr list"
  residual :: "expr option"

definition predicate_set_new :: "expr option \<Rightarrow> predicate_set" where
  "predicate_set_new filter0 =
     \<lparr>pushdown = (case filter0 of None \<Rightarrow> [] | Some e \<Rightarrow> filter supports_row_group_pruning (conjuncts e)),
      residual = filter0\<rparr>"


subsection \<open>The columns of a filter\<close>

fun expr_columns :: "expr \<Rightarrow> string set" where
  "expr_columns (BooleanLit b) = {}"
| "expr_columns (Comparison c) = {cmp_column c}"
| "expr_columns (ColumnComparison left op right) = {left, right}"
| "expr_columns (InList column vs negated has_null) = {column}"
| "expr_columns (Like column pattern negated escape ci) = {column}"
| "expr_columns (IsNull column negated) = {column}"
| "expr_columns (Not e) = expr_columns e"
| "expr_columns (And l r) = expr_columns l \<union> expr_columns r"
| "expr_columns (Or l r) = expr_columns l \<union> expr_columns r"

lemma set_push_new [simp]: "set (push_new x xs) = insert x (set xs)"
  by (auto simp: push_new_def)

lemma distinct_push_new [simp]: "distinct (push_new x xs) \<longleftrightarrow> distinct xs"
  by (simp add: push_new_def)

lemma set_collect_referenced_columns [simp]:
  "set (collect_referenced_columns e columns) = set columns \<union> expr_columns e"
  by (induction e arbitrary: columns) auto

lemma distinct_collect_referenced_columns [simp]:
  "distinct (collect_referenced_columns e columns) \<longleftrightarrow> distinct columns"
  by (induction e arbitrary: columns) auto

lemma set_referenced_columns [simp]: "set (referenced_columns e) = expr_columns e"
  by (simp add: referenced_columns_def)

lemma distinct_referenced_columns [simp]: "distinct (referenced_columns e)"
  by (simp add: referenced_columns_def)

subsection \<open>Prefix ranges\<close>

text \<open>The order of byte strings.\<close>

fun bytes_less :: "string \<Rightarrow> string \<Rightarrow> bool" where
  "bytes_less a [] = False"
| "bytes_less [] (y # ys) = True"
| "bytes_less (x # xs) (y # ys) =
     ((of_char x :: nat) < of_char y \<or> x = y \<and> bytes_less xs ys)"

lemma bytes_less_append_same [simp]: "bytes_less (a @ s) (a @ t) = bytes_less s t"
  by (induction a) auto

lemma bytes_prefix_range:
  assumes "(of_char b :: nat) \<noteq> 255"
  shows "take (Suc (length q)) s = q @ [b] \<longleftrightarrow>
    \<not> bytes_less s (q @ [b]) \<and> bytes_less s (q @ [char_of (of_char b + 1 :: nat)])"
proof (induction q arbitrary: s)
  case Nil
  have "(of_char b :: nat) < 256" by simp
  with assms have b: "(of_char b :: nat) < 255" by linarith
  then have n: "(of_char (char_of (of_char b + 1 :: nat)) :: nat) = of_char b + 1" by simp
  show ?case
  proof (cases s)
    case (Cons c t)
    have "c = b \<longleftrightarrow> (of_char c :: nat) = of_char b" by (simp add: of_char_eq_iff)
    with Cons n show ?thesis by (auto simp: less_Suc_eq)
  qed simp
next
  case (Cons a q)
  show ?case
  proof (cases s)
    case (Cons c t)
    then show ?thesis using Cons.IH [of t] by (auto simp: of_char_eq_iff)
  qed simp
qed

lemma ascii_prefix_upper_bound_ascii:
  assumes "is_ascii p" "p \<noteq> []"
  obtains q b where "p = q @ [b]" "(of_char b :: nat) \<noteq> 255"
    "ascii_prefix_upper_bound p = Some (q @ [char_of (of_char b + 1 :: nat)])"
proof (cases p rule: rev_cases)
  case (snoc q b)
  then have "(of_char b :: nat) < 128" using assms(1) by (simp add: is_ascii_def)
  then show ?thesis using that [of q b] snoc by (simp add: ascii_prefix_upper_bound_def)
qed (use assms in simp)

lemma like_prefix_pruning_range_SomeD:
  assumes "like_prefix_pruning_range pattern escape = Some (prefix, upper)"
  shows "escape = None \<and> pattern = prefix @ ''%'' \<and> prefix \<noteq> [] \<and>
    CHR ''%'' \<notin> set prefix \<and> CHR ''_'' \<notin> set prefix \<and> is_ascii prefix \<and>
    upper = ascii_prefix_upper_bound prefix"
proof -
  have p: "strip_suffix CHR ''%'' pattern = Some prefix" and
    rest: "escape = None" "CHR ''_'' \<notin> set pattern" "prefix \<noteq> []" "CHR ''%'' \<notin> set prefix" "is_ascii prefix"
      "upper = ascii_prefix_upper_bound prefix"
    using assms by (auto simp: like_prefix_pruning_range_def split: if_splits option.splits)
  from p have "pattern = prefix @ ''%''"
    by (auto simp: strip_suffix_def split: if_splits) (metis append_butlast_last_id)
  with rest show ?thesis by simp
qed

lemma trim_no_outer_space:
  assumes "s \<noteq> []" "\<not> is_whitespace (hd s)" "\<not> is_whitespace (last s)"
  shows "trim s = s"
proof -
  have "dropWhile is_whitespace s = s" using assms(1,2) by (cases s) auto
  moreover have "dropWhile is_whitespace (rev s) = rev s" using assms(1,3) by (cases s rule: rev_cases) auto
  ultimately show ?thesis by (simp add: trim_def trim_start_def)
qed

lemma trim_eq_self:
  assumes "trim s = s" "s \<noteq> []"
  shows "\<not> is_whitespace (hd s)" "\<not> is_whitespace (last s)"
proof -
  have l1: "length (dropWhile is_whitespace s) = length s"
  proof -
    have "length s = length (dropWhile is_whitespace (rev (trim_start s)))"
      using arg_cong [OF assms(1), of length] by (simp add: trim_def)
    also have "\<dots> \<le> length (trim_start s)" using length_dropWhile_le [of is_whitespace "rev (trim_start s)"] by simp
    also have "\<dots> \<le> length s" by (simp add: trim_start_def length_dropWhile_le)
    finally show ?thesis using \<open>length s = _\<close> by (simp add: trim_start_def)
  qed
  show h: "\<not> is_whitespace (hd s)"
  proof
    assume "is_whitespace (hd s)"
    then obtain a t where "s = a # t" "is_whitespace a" using assms(2) by (cases s) auto
    with l1 length_dropWhile_le [of is_whitespace t] show False by simp
  qed
  then have "trim_start s = s" using assms(2) by (cases s) (auto simp: trim_start_def)
  then have "dropWhile is_whitespace (rev s) = rev s"
    using arg_cong [OF assms(1), of rev] by (simp add: trim_def)
  moreover obtain a t where "rev s = a # t" "last s = a" using assms(2) by (cases s rule: rev_cases) auto
  ultimately show "\<not> is_whitespace (last s)"
    using length_dropWhile_le [of is_whitespace t] by (auto dest!: arg_cong [of _ _ length] split: if_splits)
qed

lemma split_once_append:
  "d \<notin> set a \<Longrightarrow> split_once d (a @ d # b) = Some (a, b)"
  by (induction a) auto

text \<open>A call \<open>name(column)\<close> is taken apart into its name and column.\<close>

lemma aggregate_call_parts:
  assumes "name \<noteq> []" "CHR ''('' \<notin> set name" "\<not> is_whitespace (hd name)"
  shows "trim (name @ ''('' @ column @ '')'') = name @ ''('' @ column @ '')''"
    "split_once CHR ''('' (name @ ''('' @ column @ '')'') = Some (name, column @ '')'')"
    "strip_suffix CHR '')'' (column @ '')'') = Some column"
  using assms by (simp_all add: trim_no_outer_space is_whitespace_def split_once_append strip_suffix_def)

lemma aggregate_parse_call:
  assumes "name \<in> {''count'', ''count_distinct'', ''sum'', ''avg'', ''min'', ''max''}"
    "column \<noteq> []" "trim column = column"
  shows "aggregate_expr_parse (name @ ''('' @ column @ '')'') =
    Inr (if name = ''count'' then if column = ''*'' then CountStar else Count column
         else if name = ''count_distinct'' then CountDistinct column
         else if name = ''sum'' then Sum column else if name = ''avg'' then Avg column
         else if name = ''min'' then AggMin column else AggMax column)"
proof -
  have "name \<noteq> [] \<and> CHR ''('' \<notin> set name \<and> \<not> is_whitespace (hd name) \<and>
      to_ascii_lowercase (trim name) = name"
    using assms(1) by (elim insertE emptyE) (simp only:, code_simp)+
  with assms show ?thesis
    by (auto simp: aggregate_expr_parse_def aggregate_call_parts [of name column, simplified])
qed

lemma split_words_plain:
  "\<forall>c \<in> set w. \<not> is_whitespace c \<Longrightarrow>
     split_words word (w @ rest) = split_words (word @ w) rest"
  by (induction w arbitrary: word) auto

subsection \<open>Properties\<close>

text \<open>
  The columns a filter reports as referenced are exactly the columns that occur in it, each once.
\<close>

theorem referenced_columns_exact:
  "set (referenced_columns e) = expr_columns e \<and> distinct (referenced_columns e)"
  by simp

text \<open>
  A \<open>LIKE 'prefix%'\<close> pattern that is used for pruning describes a byte range: a string starts
  with the prefix exactly when it is at least the prefix and below the upper bound.
\<close>

theorem like_prefix_range_exact:
  assumes "like_prefix_pruning_range pattern escape = Some (prefix, upper)"
  shows "\<exists>ub. upper = Some ub \<and>
    (\<forall>s. take (length prefix) s = prefix \<longleftrightarrow> \<not> bytes_less s prefix \<and> bytes_less s ub)"
proof -
  note p = like_prefix_pruning_range_SomeD [OF assms]
  then obtain q b where "prefix = q @ [b]" "(of_char b :: nat) \<noteq> 255"
    "upper = Some (q @ [char_of (of_char b + 1 :: nat)])"
    by (metis ascii_prefix_upper_bound_ascii)
  then show ?thesis using bytes_prefix_range [of b q] by auto
qed

theorem like_prefix_range_exact_witness:
  "like_prefix_pruning_range ''ab%'' None = Some (''ab'', Some ''ac'') \<and>
   (\<forall>s. take 2 s = ''ab'' \<longleftrightarrow> \<not> bytes_less s ''ab'' \<and> bytes_less s ''ac'')"
proof -
  have r: "like_prefix_pruning_range ''ab%'' None = Some (''ab'', Some ''ac'')" by code_simp
  from like_prefix_range_exact [OF r] r show ?thesis by (simp add: numeral_2_eq_2)
qed

text \<open>
  C32: the displayed form of an aggregate call parses back to the call, for every function but
  \<open>count distinct\<close>, whose displayed form parses as \<open>count\<close> of a column named \<open>DISTINCT ...\<close>.
\<close>

theorem aggregate_display_parse:
  assumes "column \<noteq> []" "trim column = column" "column \<noteq> ''*''"
  shows "aggregate_expr_parse (show_aggregate_expr CountStar) = Inr CountStar \<and>
    (\<forall>f \<in> {Count, Sum, Avg, AggMin, AggMax}.
       aggregate_expr_parse (show_aggregate_expr (f column)) = Inr (f column)) \<and>
    aggregate_expr_parse (show_aggregate_expr (CountDistinct column)) = Inr (Count (''DISTINCT '' @ column)) \<and>
    aggregate_expr_parse (''count_distinct('' @ column @ '')'') = Inr (CountDistinct column)"
proof -
  have d: "trim (''DISTINCT '' @ column) = ''DISTINCT '' @ column"
    using trim_eq_self [OF assms(2,1)] assms(1) by (intro trim_no_outer_space) (auto simp: is_whitespace_def)
  have star: "aggregate_expr_parse (show_aggregate_expr CountStar) = Inr CountStar" by code_simp
  show ?thesis
    using star assms d
      aggregate_parse_call [of "''count''" column] aggregate_parse_call [of "''sum''" column]
      aggregate_parse_call [of "''avg''" column] aggregate_parse_call [of "''min''" column]
      aggregate_parse_call [of "''max''" column] aggregate_parse_call [of "''count''" "''DISTINCT '' @ column"]
      aggregate_parse_call [of "''count_distinct''" column]
    by simp
qed

theorem aggregate_display_parse_witness:
  "aggregate_expr_parse (show_aggregate_expr (CountDistinct ''id'')) = Inr (Count ''DISTINCT id'')"
proof -
  have "trim ''id'' = ''id''" by code_simp
  then show ?thesis using aggregate_display_parse [of "''id''"] by simp
qed

text \<open>
  An order-by expression is a column, optionally followed by a direction in any case; the column
  and the direction are read back, and nulls sort last.
\<close>

theorem sort_expr_parse_word:
  assumes "column \<noteq> []" "\<forall>c \<in> set column. \<not> is_whitespace c"
  shows "sort_expr_parse column = Inr \<lparr>sort_column = column, descending = False, nulls_first = False\<rparr> \<and>
    sort_expr_parse (column @ '' asc'') = Inr \<lparr>sort_column = column, descending = False, nulls_first = False\<rparr> \<and>
    sort_expr_parse (column @ '' DESC'') = Inr \<lparr>sort_column = column, descending = True, nulls_first = False\<rparr> \<and>
    sort_expr_parse (column @ '' up'') = Inl (InvalidOrderBy (column @ '' up''))"
proof -
  have ends: "\<not> is_whitespace (hd column)" "\<not> is_whitespace (last column)" using assms by auto
  have t: "trim column = column" using ends assms(1) by (intro trim_no_outer_space)
  have t': "trim (column @ w) = column @ w" if "w \<noteq> []" "\<not> is_whitespace (last w)" for w
    using that ends assms(1) by (intro trim_no_outer_space) auto
  have w: "split_whitespace (column @ '' '' @ w) = column # split_words [] w" for w
    using assms by (simp add: split_whitespace_def split_words_plain is_whitespace_def)
  have w0: "split_whitespace column = [column]"
    using split_words_plain [OF assms(2), of "[]" "[]"] assms(1) by (simp add: split_whitespace_def)
  have dirs: "split_words [] ''asc'' = [''asc'']" "split_words [] ''DESC'' = [''DESC'']" "split_words [] ''up'' = [''up'']"
    "eq_ignore_ascii_case ''asc'' ''asc''" "\<not> eq_ignore_ascii_case ''DESC'' ''asc''"
    "eq_ignore_ascii_case ''DESC'' ''desc''" "\<not> eq_ignore_ascii_case ''up'' ''asc''" "\<not> eq_ignore_ascii_case ''up'' ''desc''"
    by code_simp+
  have last: "\<not> is_whitespace CHR ''c''" "\<not> is_whitespace CHR ''C''" "\<not> is_whitespace CHR ''p''" by code_simp+
  show ?thesis
    using t t' [of "'' asc''"] t' [of "'' DESC''"] t' [of "'' up''"] w [of "''asc''"] w [of "''DESC''"] w [of "''up''"] w0 assms(1) dirs last
    by (simp add: sort_expr_parse_def Let_def)
qed

theorem sort_expr_parse_word_witness:
  "sort_expr_parse ''id DESC'' = Inr \<lparr>sort_column = ''id'', descending = True, nulls_first = False\<rparr>"
proof -
  have "\<forall>c \<in> set ''id''. \<not> is_whitespace c" by code_simp
  then show ?thesis using sort_expr_parse_word [of "''id''"] by simp
qed

end
