(* ===== verification/Filter_Parser.thy ===== *)
theory Filter_Parser
  imports Logical_Expr
begin

text \<open>
  \<open>FilterExpr::parse\<close> of \<open>execution/logical.rs\<close>: the tokenizer \<open>tokenize_filter\<close> and the recursive
  descent parser \<open>FilterParser\<close>.  The parser's state \<open>(tokens, position)\<close> is the list of the tokens
  from \<open>position\<close> on; a \<open>peekable\<close> character iterator is the rest of the input.

  The parser's functions call each other on what the others left over, so their termination rests on
  the lemma that every successful call consumes a token, proved on the domain of the functions first.
\<close>

subsection \<open>Tokens\<close>

datatype filter_token =
    Ident string
  | StringTok string
  | Op comparison_op
  | Comma
  | LParen
  | RParen
  | AndTok
  | OrTok
  | NotTok
  | InTok
  | IsTok
  | NullTok

text \<open>The loop of \<open>read_quoted\<close>: \<open>None\<close> when the input ends inside the literal.\<close>

fun read_quoted_loop :: "char \<Rightarrow> bool \<Rightarrow> string \<Rightarrow> string \<Rightarrow> (string \<times> string) option" where
  "read_quoted_loop quote escaped value [] = None"
| "read_quoted_loop quote escaped value (ch # chars) =
     (if escaped then read_quoted_loop quote False (value @ [ch]) chars
      else if ch = CHR 0x5C then read_quoted_loop quote True value chars
      else if ch = quote then Some (value, chars)
      else read_quoted_loop quote False (value @ [ch]) chars)"

definition read_quoted :: "string \<Rightarrow> string \<Rightarrow> char \<Rightarrow> dodam_error + (string \<times> string)" where
  "read_quoted input chars quote =
     (case read_quoted_loop quote False [] (tl chars) of
        None \<Rightarrow> Inl (InvalidFilter input)
      | Some r \<Rightarrow> Inr r)"

text \<open>\<open>chars.next(); if chars.peek() is '=' { chars.next(); .. } else { .. }\<close> after the first character.\<close>

definition peek_eq :: "string \<Rightarrow> bool" where
  "peek_eq chars \<longleftrightarrow> chars \<noteq> [] \<and> hd chars = CHR ''=''"

fun read_operator :: "string \<Rightarrow> comparison_op option \<times> string" where
  "read_operator [] = (None, [])"
| "read_operator (first # chars) =
     (if first = CHR ''='' then (Some Eq, chars)
      else if first = CHR ''!'' then
        (if peek_eq chars then (Some NotEq, tl chars) else (None, chars))
      else if first = CHR ''<'' then
        (if peek_eq chars then (Some LtEq, tl chars) else (Some Lt, chars))
      else if first = CHR ''>'' then
        (if peek_eq chars then (Some GtEq, tl chars) else (Some Gt, chars))
      else (None, first # chars))"

definition ends_ident :: "char \<Rightarrow> bool" where
  "ends_ident ch \<longleftrightarrow> is_whitespace ch \<or>
     ch \<in> {CHR ''='', CHR ''!'', CHR ''<'', CHR ''>'', CHR 0x27, CHR 0x22, CHR '','', CHR '')''}"

text \<open>The identifier read so far and the rest; \<open>paren_depth\<close> is a saturating \<open>u32\<close>.\<close>

fun read_ident :: "nat \<Rightarrow> string \<Rightarrow> string \<times> string" where
  "read_ident paren_depth [] = ([], [])"
| "read_ident paren_depth (ch # chars) =
     (if paren_depth = 0 \<and> ends_ident ch then ([], ch # chars)
      else
        (let depth = (if ch = CHR ''('' then min (paren_depth + 1) (2 ^ 32 - 1)
                      else if ch = CHR '')'' then paren_depth - 1 else paren_depth)
         in case read_ident depth chars of (value, rest) \<Rightarrow> (ch # value, rest)))"

definition keyword_or_ident :: "string \<Rightarrow> filter_token" where
  "keyword_or_ident value =
     (if eq_ignore_ascii_case value ''and'' then AndTok
      else if eq_ignore_ascii_case value ''or'' then OrTok
      else if eq_ignore_ascii_case value ''not'' then NotTok
      else if eq_ignore_ascii_case value ''in'' then InTok
      else if eq_ignore_ascii_case value ''is'' then IsTok
      else if eq_ignore_ascii_case value ''null'' then NullTok
      else Ident value)"

lemma read_quoted_loop_length:
  "read_quoted_loop q esc v chars = Some (s, rest) \<Longrightarrow> length rest < length chars"
  by (induction q esc v chars rule: read_quoted_loop.induct) (auto split: if_splits)

lemma read_quoted_length:
  "read_quoted input chars q = Inr (s, rest) \<Longrightarrow> length rest < length chars"
  using read_quoted_loop_length [of q False "[]" "tl chars" s rest]
  by (cases chars) (auto simp: read_quoted_def split: option.splits)

lemma read_operator_length:
  "read_operator chars = (r, rest) \<Longrightarrow> length rest \<le> length chars \<and> (r \<noteq> None \<longrightarrow> length rest < length chars)"
  by (cases chars) (auto split: if_splits simp: less_Suc_eq_le)

lemma read_ident_append: "read_ident d chars = (v, rest) \<Longrightarrow> v @ rest = chars"
  by (induction d chars arbitrary: v rest rule: read_ident.induct) (auto simp: Let_def split: if_splits prod.splits)

lemma read_ident_length:
  "read_ident d chars = (v, rest) \<Longrightarrow> v \<noteq> [] \<Longrightarrow> length rest < length chars"
  using read_ident_append [of d chars v rest] by (auto dest: arg_cong [of _ _ length])

function tokenize_loop :: "string \<Rightarrow> string \<Rightarrow> filter_token list \<Rightarrow> dodam_error + filter_token list" where
  "tokenize_loop input [] tokens = Inr tokens"
| "tokenize_loop input (ch # chars) tokens =
     (if is_whitespace ch then tokenize_loop input chars tokens
      else if ch = CHR 0x27 \<or> ch = CHR 0x22 then
        (case read_quoted input (ch # chars) ch of
           Inl e \<Rightarrow> Inl e
         | Inr (value, rest) \<Rightarrow> tokenize_loop input rest (tokens @ [StringTok value]))
      else if ch = CHR ''('' then tokenize_loop input chars (tokens @ [LParen])
      else if ch = CHR '')'' then tokenize_loop input chars (tokens @ [RParen])
      else if ch = CHR '','' then tokenize_loop input chars (tokens @ [Comma])
      else
        (case read_operator (ch # chars) of
           (Some op, rest) \<Rightarrow> tokenize_loop input rest (tokens @ [Op op])
         | (None, rest) \<Rightarrow>
             (case read_ident 0 rest of (value, rest') \<Rightarrow>
                if value = [] then Inl (InvalidFilter input)
                else tokenize_loop input rest' (tokens @ [keyword_or_ident value]))))"
  by pat_completeness auto

termination
proof (relation "measure (\<lambda>(input, chars, tokens). length chars)", goal_cases)
  case (3 input ch chars tokens x a b)
  then show ?case using read_quoted_length [of input "ch # chars" ch] by fastforce
next
  case (7 input ch chars tokens a b x y)
  then show ?case
    using read_operator_length [of "ch # chars" None b] read_ident_length [of 0 b x y]
    by (metis in_measure case_prod_conv less_le_trans)
next
  case (8 input ch chars tokens a b op)
  then show ?case using read_operator_length [of "ch # chars" "Some op" b] by (metis in_measure case_prod_conv option.distinct(1))
qed simp_all

definition tokenize_filter :: "string \<Rightarrow> dodam_error + filter_token list" where
  "tokenize_filter input =
     try_bind (tokenize_loop input input []) (\<lambda>tokens.
       if tokens = [] then Inl (InvalidFilter input) else Inr tokens)"

subsection \<open>The parser\<close>

definition match_token :: "filter_token \<Rightarrow> filter_token list \<Rightarrow> filter_token list option" where
  "match_token t ts = (if ts \<noteq> [] \<and> hd ts = t then Some (tl ts) else None)"

abbreviation (input) match_and where "match_and \<equiv> match_token AndTok"
abbreviation (input) match_or where "match_or \<equiv> match_token OrTok"
abbreviation (input) match_not where "match_not \<equiv> match_token NotTok"
abbreviation (input) match_in where "match_in \<equiv> match_token InTok"
abbreviation (input) match_is where "match_is \<equiv> match_token IsTok"
abbreviation (input) match_lparen where "match_lparen \<equiv> match_token LParen"
abbreviation (input) match_comma where "match_comma \<equiv> match_token Comma"

definition expect_token ::
    "string \<Rightarrow> filter_token \<Rightarrow> filter_token list \<Rightarrow> dodam_error + filter_token list" where
  "expect_token input t ts =
     (case match_token t ts of Some rest \<Rightarrow> Inr rest | None \<Rightarrow> Inl (InvalidFilter input))"

abbreviation (input) expect_in where "expect_in input \<equiv> expect_token input InTok"
abbreviation (input) expect_null where "expect_null input \<equiv> expect_token input NullTok"
abbreviation (input) expect_lparen where "expect_lparen input \<equiv> expect_token input LParen"
abbreviation (input) expect_rparen where "expect_rparen input \<equiv> expect_token input RParen"

definition expect_ident ::
    "string \<Rightarrow> filter_token list \<Rightarrow> dodam_error + (string \<times> filter_token list)" where
  "expect_ident input ts =
     (case ts of
        Ident value # rest \<Rightarrow> if value \<noteq> [] then Inr (value, rest) else Inl (InvalidFilter input)
      | _ \<Rightarrow> Inl (InvalidFilter input))"

definition expect_op ::
    "string \<Rightarrow> filter_token list \<Rightarrow> dodam_error + (comparison_op \<times> filter_token list)" where
  "expect_op input ts =
     (case ts of Op op # rest \<Rightarrow> Inr (op, rest) | _ \<Rightarrow> Inl (InvalidFilter input))"

definition expect_literal ::
    "(string \<Rightarrow> u64 option) \<Rightarrow> string \<Rightarrow> filter_token list \<Rightarrow> dodam_error + (literal_value \<times> filter_token list)" where
  "expect_literal parse_f64 input ts =
     (case ts of
        Ident value # rest \<Rightarrow> Inr (literal_parse parse_f64 value, rest)
      | StringTok value # rest \<Rightarrow> Inr (LitUtf8 value, rest)
      | _ \<Rightarrow> Inl (InvalidFilter input))"

lemma match_token_SomeD: "match_token t ts = Some rest \<Longrightarrow> ts = t # rest"
  by (cases ts) (auto simp: match_token_def split: if_splits)

lemma expect_token_InrD: "expect_token input t ts = Inr rest \<Longrightarrow> ts = t # rest"
  by (auto simp: expect_token_def split: option.splits dest: match_token_SomeD)

lemma expect_ident_InrD: "expect_ident input ts = Inr (v, rest) \<Longrightarrow> ts = Ident v # rest \<and> v \<noteq> []"
  by (auto simp: expect_ident_def split: list.splits filter_token.splits if_splits)

lemma expect_op_InrD: "expect_op input ts = Inr (op, rest) \<Longrightarrow> ts = Op op # rest"
  by (auto simp: expect_op_def split: list.splits filter_token.splits)

lemma expect_literal_InrD: "expect_literal pf input ts = Inr (v, rest) \<Longrightarrow> \<exists>t. ts = t # rest"
  by (auto simp: expect_literal_def split: list.splits filter_token.splits)

function in_values_loop ::
    "(string \<Rightarrow> u64 option) \<Rightarrow> string \<Rightarrow> literal_value list \<Rightarrow> filter_token list \<Rightarrow>
       dodam_error + (literal_value list \<times> filter_token list)" where
  "in_values_loop pf input vs ts =
     try_bind (expect_literal pf input ts) (\<lambda>(v, ts).
       case match_comma ts of
         Some ts \<Rightarrow> in_values_loop pf input (vs @ [v]) ts
       | None \<Rightarrow> try_bind (expect_rparen input ts) (\<lambda>ts. Inr (vs @ [v], ts)))"
  by pat_completeness auto

termination
  by (relation "measure (\<lambda>(pf, input, vs, ts). length ts)")
    (auto dest!: expect_literal_InrD match_token_SomeD)

declare in_values_loop.simps [simp del]

definition parse_in_values ::
    "(string \<Rightarrow> u64 option) \<Rightarrow> string \<Rightarrow> filter_token list \<Rightarrow>
       dodam_error + (literal_value list \<times> filter_token list)" where
  "parse_in_values pf input ts = try_bind (expect_lparen input ts) (in_values_loop pf input [])"

text \<open>\<open>parse_primary\<close> after the opening parenthesis has not matched.\<close>

definition parse_atom ::
    "(string \<Rightarrow> u64 option) \<Rightarrow> string \<Rightarrow> filter_token list \<Rightarrow> dodam_error + (expr \<times> filter_token list)" where
  "parse_atom pf input ts =
     try_bind (expect_ident input ts) (\<lambda>(column, ts).
       case match_is ts of
         Some ts \<Rightarrow>
           (let (negated, ts) = (case match_not ts of Some ts \<Rightarrow> (True, ts) | None \<Rightarrow> (False, ts))
            in try_bind (expect_null input ts) (\<lambda>ts. Inr (IsNull column negated, ts)))
       | None \<Rightarrow>
           (case match_not ts of
              Some ts \<Rightarrow>
                try_bind (expect_in input ts) (\<lambda>ts.
                try_bind (parse_in_values pf input ts) (\<lambda>(vs, ts).
                Inr (InList column vs True False, ts)))
            | None \<Rightarrow>
                (case match_in ts of
                   Some ts \<Rightarrow>
                     try_bind (parse_in_values pf input ts) (\<lambda>(vs, ts).
                     Inr (InList column vs False False, ts))
                 | None \<Rightarrow>
                     try_bind (expect_op input ts) (\<lambda>(op, ts).
                     try_bind (expect_literal pf input ts) (\<lambda>(value, ts).
                     Inr (Comparison \<lparr>cmp_column = column, cmp_op = op, cmp_value = value\<rparr>, ts))))))"

function (domintros)
    parse_or and or_loop and parse_and and and_loop and parse_not and parse_primary where
  "parse_or pf input ts =
     try_bind (parse_and pf input ts) (\<lambda>(e, ts). or_loop pf input e ts)"
| "or_loop pf input e ts =
     (case match_or ts of
        None \<Rightarrow> Inr (e, ts)
      | Some ts \<Rightarrow> try_bind (parse_and pf input ts) (\<lambda>(right, ts). or_loop pf input (Or e right) ts))"
| "parse_and pf input ts =
     try_bind (parse_not pf input ts) (\<lambda>(e, ts). and_loop pf input e ts)"
| "and_loop pf input e ts =
     (case match_and ts of
        None \<Rightarrow> Inr (e, ts)
      | Some ts \<Rightarrow> try_bind (parse_not pf input ts) (\<lambda>(right, ts). and_loop pf input (And e right) ts))"
| "parse_not pf input ts =
     (case match_not ts of
        Some ts \<Rightarrow> try_bind (parse_not pf input ts) (\<lambda>(e, ts). Inr (Not e, ts))
      | None \<Rightarrow> parse_primary pf input ts)"
| "parse_primary pf input ts =
     (case match_lparen ts of
        Some ts \<Rightarrow>
          try_bind (parse_or pf input ts) (\<lambda>(e, ts).
          try_bind (expect_rparen input ts) (\<lambda>ts. Inr (e, ts)))
      | None \<Rightarrow> (parse_atom pf input ts :: dodam_error + (expr \<times> filter_token list)))"
  by pat_completeness auto


text \<open>Every successful call consumes at least one token; the loops never give tokens back.\<close>

lemma in_values_loop_length:
  "in_values_loop pf input vs ts = Inr (r, rest) \<Longrightarrow> length rest < length ts"
proof (induction pf input vs ts rule: in_values_loop.induct)
  case (1 pf input vs ts)
  from "1.prems" obtain v ts1 where lit: "expect_literal pf input ts = Inr (v, ts1)"
    by (subst (asm) in_values_loop.simps) (auto simp: rust_simps)
  then obtain t where ts: "ts = t # ts1" by (auto dest: expect_literal_InrD)
  show ?case
  proof (cases "match_comma ts1")
    case None
    with "1.prems" lit have "expect_rparen input ts1 = Inr rest"
      by (subst (asm) in_values_loop.simps) (auto simp: rust_simps)
    then show ?thesis using ts by (auto dest: expect_token_InrD)
  next
    case (Some ts2)
    with "1.prems" lit have "in_values_loop pf input (vs @ [v]) ts2 = Inr (r, rest)"
      by (subst (asm) in_values_loop.simps) simp
    from "1.IH" [OF lit refl Some this] show ?thesis using Some ts by (auto dest: match_token_SomeD)
  qed
qed

lemma parse_in_values_length:
  "parse_in_values pf input ts = Inr (r, rest) \<Longrightarrow> length rest < length ts"
  by (auto simp: parse_in_values_def rust_simps dest!: expect_token_InrD in_values_loop_length)

lemma parse_atom_length:
  "parse_atom pf input ts = Inr (e, rest) \<Longrightarrow> length rest < length ts"
proof -
  assume p: "parse_atom pf input ts = Inr (e, rest)"
  then obtain column ts1 where id: "expect_ident input ts = Inr (column, ts1)"
    by (auto simp: parse_atom_def rust_simps)
  then have ts: "ts = Ident column # ts1" by (auto dest: expect_ident_InrD)
  show ?thesis
  proof (cases "match_is ts1")
    case (Some ts2)
    then show ?thesis using p id ts
      by (cases "match_not ts2")
        (auto simp: parse_atom_def rust_simps dest!: match_token_SomeD expect_token_InrD)
  next
    case is_none: None
    show ?thesis
    proof (cases "match_not ts1")
      case (Some ts2)
      then show ?thesis using p id ts is_none
        by (auto simp: parse_atom_def rust_simps dest!: match_token_SomeD expect_token_InrD parse_in_values_length)
    next
      case None
      then show ?thesis using p id ts is_none
        by (cases "match_in ts1")
          (auto simp: parse_atom_def rust_simps
            dest!: match_token_SomeD expect_op_InrD expect_literal_InrD parse_in_values_length)
    qed
  qed
qed

lemma parse_consumes_dom:
  "parse_or_or_loop_parse_and_and_loop_parse_not_parse_primary_dom (Inl (Inl (pf, input, ts))) \<Longrightarrow>
     \<forall>r rest. parse_or pf input ts = Inr (r, rest) \<longrightarrow> length rest < length ts"
  "parse_or_or_loop_parse_and_and_loop_parse_not_parse_primary_dom (Inl (Inr (Inl (pf, input, e, ts)))) \<Longrightarrow>
     \<forall>r rest. or_loop pf input e ts = Inr (r, rest) \<longrightarrow> length rest \<le> length ts"
  "parse_or_or_loop_parse_and_and_loop_parse_not_parse_primary_dom (Inl (Inr (Inr (pf, input, ts)))) \<Longrightarrow>
     \<forall>r rest. parse_and pf input ts = Inr (r, rest) \<longrightarrow> length rest < length ts"
  "parse_or_or_loop_parse_and_and_loop_parse_not_parse_primary_dom (Inr (Inl (pf, input, e, ts))) \<Longrightarrow>
     \<forall>r rest. and_loop pf input e ts = Inr (r, rest) \<longrightarrow> length rest \<le> length ts"
  "parse_or_or_loop_parse_and_and_loop_parse_not_parse_primary_dom (Inr (Inr (Inl (pf, input, ts)))) \<Longrightarrow>
     \<forall>r rest. parse_not pf input ts = Inr (r, rest) \<longrightarrow> length rest < length ts"
  "parse_or_or_loop_parse_and_and_loop_parse_not_parse_primary_dom (Inr (Inr (Inr (pf, input, ts)))) \<Longrightarrow>
     \<forall>r rest. parse_primary pf input ts = Inr (r, rest) \<longrightarrow> length rest < length ts"
proof (induction pf input ts and pf input e ts and pf input ts and pf input e ts and pf input ts and pf input ts
    rule: parse_or_or_loop_parse_and_and_loop_parse_not_parse_primary.pinduct)
  case (1 pf input ts)
  then show ?case by (fastforce simp: parse_or.psimps rust_simps)
next
  case (2 pf input e ts)
  then show ?case
    by (fastforce simp: or_loop.psimps rust_simps split: option.splits dest: match_token_SomeD)
next
  case (3 pf input ts)
  then show ?case by (fastforce simp: parse_and.psimps rust_simps)
next
  case (4 pf input e ts)
  then show ?case
    by (fastforce simp: and_loop.psimps rust_simps split: option.splits dest: match_token_SomeD)
next
  case (5 pf input ts)
  then show ?case
    by (fastforce simp: parse_not.psimps rust_simps split: option.splits dest: match_token_SomeD)
next
  case (6 pf input ts)
  then show ?case
    by (fastforce simp: parse_primary.psimps rust_simps split: option.splits
        dest: match_token_SomeD expect_token_InrD parse_atom_length)
qed

text \<open>The parser terminates: calls on the same tokens go down the levels, all others on fewer tokens.\<close>

termination parse_or
proof (relation "measures [\<lambda>x. case x of
      Inl (Inl (pf, input, ts)) \<Rightarrow> length ts
    | Inl (Inr (Inl (pf, input, e, ts))) \<Rightarrow> length ts
    | Inl (Inr (Inr (pf, input, ts))) \<Rightarrow> length ts
    | Inr (Inl (pf, input, e, ts)) \<Rightarrow> length ts
    | Inr (Inr (Inl (pf, input, ts))) \<Rightarrow> length ts
    | Inr (Inr (Inr (pf, input, ts))) \<Rightarrow> length ts,
    \<lambda>x. case x of
      Inl (Inl _) \<Rightarrow> 3
    | Inl (Inr (Inl _)) \<Rightarrow> 0
    | Inl (Inr (Inr _)) \<Rightarrow> 2
    | Inr (Inl _) \<Rightarrow> 0
    | Inr (Inr (Inl _)) \<Rightarrow> 1
    | Inr (Inr (Inr _)) \<Rightarrow> 0]", goal_cases)
qed (auto dest!: match_token_SomeD parse_consumes_dom)


declare parse_or.simps [simp del] or_loop.simps [simp del] parse_and.simps [simp del]
  and_loop.simps [simp del] parse_not.simps [simp del] parse_primary.simps [simp del]

definition filter_expr_parse :: "(string \<Rightarrow> u64 option) \<Rightarrow> string \<Rightarrow> dodam_error + expr" where
  "filter_expr_parse pf input =
     try_bind (tokenize_filter input) (\<lambda>tokens.
     try_bind (parse_or pf input tokens) (\<lambda>(e, rest).
     if rest \<noteq> [] then Inl (InvalidFilter input) else Inr e))"

subsection \<open>Writing a filter as tokens\<close>

fun literal_ok :: "literal_value \<Rightarrow> bool" where
  "literal_ok (LitBoolean b) = True"
| "literal_ok (LitInt64 v) = is_i64 v"
| "literal_ok (LitUtf8 s) = True"
| "literal_ok _ = False"

fun literal_token :: "literal_value \<Rightarrow> filter_token" where
  "literal_token (LitBoolean b) = Ident (if b then ''true'' else ''false'')"
| "literal_token (LitInt64 v) = Ident (show_int v)"
| "literal_token (LitUtf8 s) = StringTok s"
| "literal_token _ = NullTok"

fun comma_separated :: "filter_token list \<Rightarrow> filter_token list" where
  "comma_separated [] = []"
| "comma_separated [t] = [t]"
| "comma_separated (t # u # ts) = t # Comma # comma_separated (u # ts)"

definition in_parens :: "bool \<Rightarrow> filter_token list \<Rightarrow> filter_token list" where
  "in_parens b ts = (if b then LParen # ts @ [RParen] else ts)"

text \<open>Parentheses only where the precedence of the context asks for them.\<close>

fun render :: "nat \<Rightarrow> expr \<Rightarrow> filter_token list" where
  "render level (Comparison c) = [Ident (cmp_column c), Op (cmp_op c), literal_token (cmp_value c)]"
| "render level (InList column vs negated has_null) =
     Ident column # (if negated then [NotTok] else []) @
       InTok # LParen # comma_separated (map literal_token vs) @ [RParen]"
| "render level (IsNull column negated) =
     Ident column # IsTok # (if negated then [NotTok] else []) @ [NullTok]"
| "render level (Not e) = NotTok # render 2 e"
| "render level (And l r) = in_parens (1 < level) (render 1 l @ AndTok # render 2 r)"
| "render level (Or l r) = in_parens (0 < level) (render 0 l @ OrTok # render 1 r)"
| "render level _ = []"

definition ident_ok :: "string \<Rightarrow> bool" where
  "ident_ok s \<longleftrightarrow> s \<noteq> [] \<and> list_all (\<lambda>c. \<not> ends_ident c \<and> c \<noteq> CHR ''('') s \<and> keyword_or_ident s = Ident s"

text \<open>The filters the syntax can express, with columns that are plain identifiers.\<close>

fun filter_ok :: "expr \<Rightarrow> bool" where
  "filter_ok (Comparison c) = (ident_ok (cmp_column c) \<and> literal_ok (cmp_value c))"
| "filter_ok (InList column vs negated has_null) =
     (ident_ok column \<and> vs \<noteq> [] \<and> list_all literal_ok vs \<and> \<not> has_null)"
| "filter_ok (IsNull column negated) = ident_ok column"
| "filter_ok (Not e) = filter_ok e"
| "filter_ok (And l r) = (filter_ok l \<and> filter_ok r)"
| "filter_ok (Or l r) = (filter_ok l \<and> filter_ok r)"
| "filter_ok _ = False"

subsection \<open>Parsing what was written\<close>

lemma match_token_simps [simp]:
  "match_token t [] = None"
  "match_token t (u # ts) = (if u = t then Some ts else None)"
  by (simp_all add: match_token_def)

lemma expect_token_Cons [simp]:
  "expect_token input t (u # ts) = (if u = t then Inr ts else Inl (InvalidFilter input))"
  by (simp add: expect_token_def)

lemma show_int_first:
  assumes "show_int v = c # s"
  shows "(c = CHR ''-'' \<or> (\<exists>d < 10. c = digit_char d)) \<and> (\<forall>x \<in> set s. \<exists>d < 10. x = digit_char d)"
  using assms show_nat_digits [of _ "nat v"] show_nat_digits [of _ "nat (- v)"]
  by (auto simp: show_int_def split: if_splits)

lemma show_int_char:
  assumes "c \<in> set (show_int v)"
  shows "(of_char c :: nat) = 45 \<or> (48 \<le> (of_char c :: nat) \<and> (of_char c :: nat) \<le> 57)"
proof -
  obtain a s where "show_int v = a # s" using assms by (cases "show_int v") auto
  from show_int_first [OF this] assms this show ?thesis by (auto simp: digit_char_not)
qed

lemma show_int_not_word:
  assumes "w \<noteq> []" "list_all (\<lambda>c. 97 \<le> (of_char c :: nat)) (to_ascii_lowercase w)"
  shows "\<not> eq_ignore_ascii_case (show_int v) w"
proof
  assume eq: "eq_ignore_ascii_case (show_int v) w"
  obtain c s where cs: "show_int v = c # s"
    by (cases "show_int v") (auto simp: show_int_def split: if_splits)
  have n: "(of_char c :: nat) \<le> 57" using show_int_char [of c v] cs by auto
  then have "ascii_lower c = c" by (simp add: ascii_lower_def Let_def)
  with eq cs assms n show False by (auto simp: eq_ignore_ascii_case_def to_ascii_lowercase_def)
qed

lemma literal_parse_show_int: "is_i64 v \<Longrightarrow> literal_parse pf (show_int v) = LitInt64 v"
proof -
  assume "is_i64 v"
  moreover have "\<not> eq_ignore_ascii_case (show_int v) ''true''" "\<not> eq_ignore_ascii_case (show_int v) ''false''"
    by (rule show_int_not_word, simp, code_simp)+
  ultimately show ?thesis by (simp add: literal_parse_def)
qed

lemma literal_parse_bool:
  "literal_parse pf ''true'' = LitBoolean True" "literal_parse pf ''false'' = LitBoolean False"
proof -
  have "eq_ignore_ascii_case ''true'' ''true''" "\<not> eq_ignore_ascii_case ''false'' ''true''"
    "eq_ignore_ascii_case ''false'' ''false''" by code_simp+
  then show "literal_parse pf ''true'' = LitBoolean True" "literal_parse pf ''false'' = LitBoolean False"
    by (simp_all add: literal_parse_def)
qed

lemma expect_literal_token [simp]:
  "literal_ok v \<Longrightarrow> expect_literal pf input (literal_token v # rest) = Inr (v, rest)"
  by (cases v) (auto simp: expect_literal_def literal_parse_show_int literal_parse_bool)

lemma in_values_loop_render:
  "ws \<noteq> [] \<Longrightarrow> list_all literal_ok ws \<Longrightarrow>
     in_values_loop pf input vs (comma_separated (map literal_token ws) @ RParen # rest) = Inr (vs @ ws, rest)"
proof (induction ws arbitrary: vs)
  case (Cons w ws)
  show ?case
  proof (cases ws)
    case Nil
    then show ?thesis using Cons.prems by (subst in_values_loop.simps) simp
  next
    case (Cons w' ws')
    with Cons.prems Cons.IH [of "vs @ [w]"] show ?thesis
      by (subst in_values_loop.simps) simp
  qed
qed simp

lemma parse_in_values_render:
  "ws \<noteq> [] \<Longrightarrow> list_all literal_ok ws \<Longrightarrow>
     parse_in_values pf input (LParen # comma_separated (map literal_token ws) @ RParen # rest) = Inr (ws, rest)"
  by (simp add: parse_in_values_def in_values_loop_render)

lemma parse_atom_render:
  assumes "filter_ok e" "\<forall>f. e \<noteq> Not f" "\<forall>l r. e \<noteq> And l r" "\<forall>l r. e \<noteq> Or l r"
  shows "parse_atom pf input (render k e @ rest) = Inr (e, rest)"
  using assms
  by (cases e) (auto simp: parse_atom_def expect_ident_def expect_op_def ident_ok_def parse_in_values_render)

definition not_and :: "filter_token list \<Rightarrow> bool" where
  "not_and ts \<longleftrightarrow> match_and ts = None"

lemma parse_and_of_not:
  "parse_not pf input ts = Inr (e, rest) \<Longrightarrow> parse_and pf input ts = and_loop pf input e rest"
  by (simp add: parse_and.simps)

lemma parse_or_of_and:
  "parse_and pf input ts = and_loop pf input e rest \<Longrightarrow> not_and rest \<Longrightarrow>
     parse_or pf input ts = or_loop pf input e rest"
  by (simp add: parse_or.simps and_loop.simps not_and_def)

lemma parse_not_of_parens:
  "parse_or pf input (ts @ RParen # rest) = or_loop pf input e (RParen # rest) \<Longrightarrow>
     parse_not pf input (LParen # ts @ RParen # rest) = Inr (e, rest)"
  by (simp add: parse_not.simps parse_primary.simps or_loop.simps)

lemma parse_render:
  "filter_ok e \<Longrightarrow>
     (\<forall>rest. not_and rest \<longrightarrow> parse_or pf input (render 0 e @ rest) = or_loop pf input e rest) \<and>
     (\<forall>rest. parse_and pf input (render 1 e @ rest) = and_loop pf input e rest) \<and>
     (\<forall>rest. parse_not pf input (render 2 e @ rest) = Inr (e, rest))"
proof (induction e)
  case (Not e)
  then have "parse_not pf input (render k (Not e) @ rest) = Inr (Not e, rest)" for k rest
    by (simp add: parse_not.simps [of _ _ "NotTok # _"])
  then show ?case by (blast intro: parse_and_of_not parse_or_of_and)
next
  case (And l r)
  then have b: "parse_and pf input (render 1 (And l r) @ rest) = and_loop pf input (And l r) rest" for rest
    by (simp add: in_parens_def and_loop.simps [of _ _ _ "AndTok # _"])
  then have a: "not_and rest \<Longrightarrow> parse_or pf input (render 1 (And l r) @ rest) = or_loop pf input (And l r) rest" for rest
    by (rule parse_or_of_and)
  have "parse_not pf input (render 2 (And l r) @ rest) = Inr (And l r, rest)" for rest
    using a [of "RParen # rest"] parse_not_of_parens [of pf input "render 1 (And l r)" rest "And l r"]
    by (simp add: in_parens_def not_and_def)
  then show ?case using a b by (simp add: in_parens_def)
next
  case (Or l r)
  then have a: "not_and rest \<Longrightarrow> parse_or pf input (render 0 (Or l r) @ rest) = or_loop pf input (Or l r) rest" for rest
    by (simp add: in_parens_def not_and_def or_loop.simps [of _ _ _ "OrTok # _"] and_loop.simps [of _ _ _ rest])
  have c: "parse_not pf input (render k (Or l r) @ rest) = Inr (Or l r, rest)" if "0 < k" for k rest
    using a [of "RParen # rest"] parse_not_of_parens [of pf input "render 0 (Or l r)" rest "Or l r"] that
    by (simp add: in_parens_def not_and_def)
  show ?case using a c [of 1, THEN parse_and_of_not] c [of 2] by simp
next
  case (Comparison c)
  then have "parse_not pf input (render k (Comparison c) @ rest) = Inr (Comparison c, rest)" for k rest
    using parse_atom_render [of "Comparison c" pf input k rest] by (simp add: parse_not.simps parse_primary.simps)
  then show ?case by (blast intro: parse_and_of_not parse_or_of_and)
next
  case (InList c vs n h)
  then have "parse_not pf input (render k (InList c vs n h) @ rest) = Inr (InList c vs n h, rest)" for k rest
    using parse_atom_render [of "InList c vs n h" pf input k rest] by (simp add: parse_not.simps parse_primary.simps)
  then show ?case by (blast intro: parse_and_of_not parse_or_of_and)
next
  case (IsNull c n)
  then have "parse_not pf input (render k (IsNull c n) @ rest) = Inr (IsNull c n, rest)" for k rest
    using parse_atom_render [of "IsNull c n" pf input k rest] by (simp add: parse_not.simps parse_primary.simps)
  then show ?case by (blast intro: parse_and_of_not parse_or_of_and)
qed simp_all


subsection \<open>Writing tokens as text\<close>

definition escape_quoted :: "string \<Rightarrow> string" where
  "escape_quoted s = concat (map (\<lambda>c. if c = CHR 0x5C \<or> c = CHR 0x27 then [CHR 0x5C, c] else [c]) s)"

fun print_token :: "filter_token \<Rightarrow> string" where
  "print_token (Ident s) = s"
| "print_token (StringTok s) = CHR 0x27 # escape_quoted s @ [CHR 0x27]"
| "print_token (Op op) =
     (case op of Eq \<Rightarrow> ''='' | NotEq \<Rightarrow> ''!='' | Lt \<Rightarrow> ''<'' | LtEq \<Rightarrow> ''<='' | Gt \<Rightarrow> ''>'' | GtEq \<Rightarrow> ''>='')"
| "print_token Comma = '',''"
| "print_token LParen = ''(''"
| "print_token RParen = '')''"
| "print_token AndTok = ''and''"
| "print_token OrTok = ''or''"
| "print_token NotTok = ''not''"
| "print_token InTok = ''in''"
| "print_token IsTok = ''is''"
| "print_token NullTok = ''null''"

definition print_tokens :: "filter_token list \<Rightarrow> string" where
  "print_tokens ts = concat (map (\<lambda>t. print_token t @ '' '') ts)"

definition print_filter :: "expr \<Rightarrow> string" where
  "print_filter e = print_tokens (render 0 e)"

fun token_ok :: "filter_token \<Rightarrow> bool" where
  "token_ok (Ident s) = ident_ok s"
| "token_ok t = True"

lemma read_quoted_loop_escaped:
  "read_quoted_loop CHR 0x27 False v (escape_quoted s @ CHR 0x27 # rest) = Some (v @ s, rest)"
  by (induction s arbitrary: v) (auto simp: escape_quoted_def)

lemma read_ident_word:
  assumes "list_all (\<lambda>c. \<not> ends_ident c \<and> c \<noteq> CHR ''('') s" "rest \<noteq> []" "ends_ident (hd rest)"
  shows "read_ident 0 (s @ rest) = (s, rest)"
  using assms
proof (induction s)
  case Nil
  then show ?case by (cases rest) auto
next
  case (Cons c s)
  then have "c \<noteq> CHR '')''" by (auto simp: ends_ident_def)
  with Cons show ?case by (auto simp: Let_def)
qed

lemma is_whitespace_space [simp]: "is_whitespace CHR '' ''"
  by code_simp

lemma ends_ident_space [simp]: "ends_ident CHR '' ''"
  by code_simp

text \<open>A word that is no punctuation is read up to the next space and classified.\<close>

lemma tokenize_word:
  assumes "w \<noteq> []" "list_all (\<lambda>c. \<not> ends_ident c \<and> c \<noteq> CHR ''('') w"
  shows "tokenize_loop input (w @ CHR '' '' # rest) acc =
    tokenize_loop input (CHR '' '' # rest) (acc @ [keyword_or_ident w])"
proof -
  obtain c s where w: "w = c # s" using assms(1) by (cases w) auto
  have c: "\<not> ends_ident c" "c \<noteq> CHR ''(''" using assms(2) w by auto
  have "read_operator (w @ CHR '' '' # rest) = (None, w @ CHR '' '' # rest)"
    using c by (auto simp: w ends_ident_def)
  moreover have "read_ident 0 (w @ CHR '' '' # rest) = (w, CHR '' '' # rest)"
    using read_ident_word [OF assms(2), of "CHR '' '' # rest"] by simp
  ultimately show ?thesis using c assms(1)
    by (simp add: w ends_ident_def del: read_operator.simps read_ident.simps)
qed

lemma tokenize_space [simp]:
  "tokenize_loop input (CHR '' '' # rest) acc = tokenize_loop input rest acc"
  by (simp add: is_whitespace_def)

lemma keyword_words:
  "keyword_or_ident ''and'' = AndTok" "keyword_or_ident ''or'' = OrTok" "keyword_or_ident ''not'' = NotTok"
  "keyword_or_ident ''in'' = InTok" "keyword_or_ident ''is'' = IsTok" "keyword_or_ident ''null'' = NullTok"
  by code_simp+

lemma plain_keywords:
  "w \<in> {''and'', ''or'', ''not'', ''in'', ''is'', ''null''} \<Longrightarrow>
     list_all (\<lambda>c. \<not> ends_ident c \<and> c \<noteq> CHR ''('') w"
  by (elim insertE emptyE) (simp only:, code_simp)+

lemma tokenize_keyword:
  "w \<in> {''and'', ''or'', ''not'', ''in'', ''is'', ''null''} \<Longrightarrow>
     tokenize_loop input (w @ CHR '' '' # rest) acc = tokenize_loop input rest (acc @ [keyword_or_ident w])"
  using tokenize_word [OF _ plain_keywords, of w input rest acc] by auto

lemma not_space: "\<not> is_whitespace CHR 0x27" "\<not> is_whitespace CHR ''(''" "\<not> is_whitespace CHR '')''"
  "\<not> is_whitespace CHR '',''" "\<not> is_whitespace CHR ''=''" "\<not> is_whitespace CHR ''!''"
  "\<not> is_whitespace CHR ''<''" "\<not> is_whitespace CHR ''>''"
  by code_simp+

lemma tokenize_print_token:
  assumes "token_ok t"
  shows "tokenize_loop input (print_token t @ CHR '' '' # rest) acc = tokenize_loop input rest (acc @ [t])"
proof (cases t)
  case (Ident s)
  then show ?thesis using assms tokenize_word [of s input rest acc] by (simp add: ident_ok_def)
next
  case (StringTok s)
  then show ?thesis using read_quoted_loop_escaped [of "[]" s "CHR '' '' # rest"]
    by (simp add: read_quoted_def not_space)
next
  case (Op op)
  then show ?thesis by (cases op) (simp_all add: not_space peek_eq_def)
next
  case AndTok
  then show ?thesis using tokenize_keyword [of "''and''" input rest acc] keyword_words by simp
next
  case OrTok
  then show ?thesis using tokenize_keyword [of "''or''" input rest acc] keyword_words by simp
next
  case NotTok
  then show ?thesis using tokenize_keyword [of "''not''" input rest acc] keyword_words by simp
next
  case InTok
  then show ?thesis using tokenize_keyword [of "''in''" input rest acc] keyword_words by simp
next
  case IsTok
  then show ?thesis using tokenize_keyword [of "''is''" input rest acc] keyword_words by simp
next
  case NullTok
  then show ?thesis using tokenize_keyword [of "''null''" input rest acc] keyword_words by simp
qed (simp_all add: not_space)

lemma tokenize_print_tokens:
  "list_all token_ok ts \<Longrightarrow> tokenize_loop input (print_tokens ts @ rest) acc = tokenize_loop input rest (acc @ ts)"
proof (induction ts arbitrary: acc)
  case (Cons t ts)
  then show ?case using tokenize_print_token [of t input "print_tokens ts @ rest" acc]
    by (simp add: print_tokens_def)
qed (simp add: print_tokens_def)

lemma show_int_ident_ok: "ident_ok (show_int v)"
proof -
  have ne: "show_int v \<noteq> []" by (auto simp: show_int_def)
  have "\<not> ends_ident c \<and> c \<noteq> CHR ''(''" if "c \<in> set (show_int v)" for c
    using show_int_char [OF that] by (auto simp: ends_ident_def is_whitespace_def)
  moreover have "keyword_or_ident (show_int v) = Ident (show_int v)"
  proof -
    have "\<not> eq_ignore_ascii_case (show_int v) w" if "w \<in> {''and'', ''or'', ''not'', ''in'', ''is'', ''null''}" for w
    proof (rule show_int_not_word)
      show "w \<noteq> []" using that by auto
      show "list_all (\<lambda>c. 97 \<le> (of_char c :: nat)) (to_ascii_lowercase w)"
        using that by (elim insertE emptyE) (simp only:, code_simp)+
    qed
    then show ?thesis by (simp add: keyword_or_ident_def)
  qed
  ultimately show ?thesis using ne by (simp add: ident_ok_def list_all_iff)
qed

lemma literal_token_ok: "literal_ok v \<Longrightarrow> token_ok (literal_token v)"
proof (cases v)
  case (LitBoolean b)
  have "ident_ok ''true''" "ident_ok ''false''" by code_simp+
  then show ?thesis using LitBoolean by simp
qed (simp_all add: show_int_ident_ok)

lemma comma_separated_ok: "list_all token_ok ts \<Longrightarrow> list_all token_ok (comma_separated ts)"
  by (induction ts rule: comma_separated.induct) auto

lemma render_ok: "filter_ok e \<Longrightarrow> list_all token_ok (render k e)"
proof (induction e arbitrary: k)
  case (InList c vs n h)
  then have "list_all token_ok (map literal_token vs)" by (auto simp: list_all_iff literal_token_ok)
  with InList show ?case by (simp add: comma_separated_ok)
qed (auto simp: in_parens_def literal_token_ok)

lemma render_nonempty: "filter_ok e \<Longrightarrow> render k e \<noteq> []"
  by (cases e) (auto simp: in_parens_def)

subsection \<open>What the parser returns\<close>

text \<open>The shape of every parsed filter.\<close>

fun parsed_shape :: "expr \<Rightarrow> bool" where
  "parsed_shape (Comparison c) = (cmp_column c \<noteq> [] \<and> cmp_value c \<noteq> LitNull)"
| "parsed_shape (InList column vs negated has_null) =
     (column \<noteq> [] \<and> vs \<noteq> [] \<and> LitNull \<notin> set vs \<and> \<not> has_null)"
| "parsed_shape (IsNull column negated) = (column \<noteq> [])"
| "parsed_shape (Not e) = parsed_shape e"
| "parsed_shape (And l r) = (parsed_shape l \<and> parsed_shape r)"
| "parsed_shape (Or l r) = (parsed_shape l \<and> parsed_shape r)"
| "parsed_shape _ = False"

text \<open>A result is well shaped, or it is the error that names the input.\<close>

definition good_result :: "string \<Rightarrow> ('a \<Rightarrow> bool) \<Rightarrow> dodam_error + ('a \<times> 'b) \<Rightarrow> bool" where
  "good_result input ok r = (case r of Inl e \<Rightarrow> e = InvalidFilter input | Inr (x, _) \<Rightarrow> ok x)"

lemma good_result_bind:
  assumes "good_result input ok r" "\<And>x y. r = Inr (x, y) \<Longrightarrow> ok x \<Longrightarrow> good_result input ok' (f (x, y))"
  shows "good_result input ok' (try_bind r f)"
  using assms by (cases r) (auto simp: good_result_def)

lemma good_result_expect:
  "(\<And>ts'. good_result input ok (f ts')) \<Longrightarrow> good_result input ok (try_bind (expect_token input t ts) f)"
  by (auto simp: expect_token_def good_result_def split: option.splits)

lemma good_value: "ok x \<Longrightarrow> good_result input ok (Inr (x, ts))"
  by (simp add: good_result_def)

lemma good_literal: "good_result input (\<lambda>v. v \<noteq> LitNull) (expect_literal pf input ts)"
  by (auto simp: expect_literal_def good_result_def literal_parse_def
      split: list.splits filter_token.splits option.splits)

lemma good_in_values_loop:
  "LitNull \<notin> set vs \<Longrightarrow>
     good_result input (\<lambda>vs. vs \<noteq> [] \<and> LitNull \<notin> set vs) (in_values_loop pf input vs ts)"
proof (induction pf input vs ts rule: in_values_loop.induct)
  case (1 pf input vs ts)
  show ?case
    by (subst in_values_loop.simps, rule good_result_bind [OF good_literal])
      (use 1 in \<open>auto split: option.splits intro!: good_result_expect good_value\<close>)
qed

lemma good_in_values:
  "good_result input (\<lambda>vs. vs \<noteq> [] \<and> LitNull \<notin> set vs) (parse_in_values pf input ts)"
  unfolding parse_in_values_def by (rule good_result_expect) (simp add: good_in_values_loop)

lemma good_ident: "good_result input (\<lambda>c. c \<noteq> []) (expect_ident input ts)"
  by (auto simp: expect_ident_def good_result_def split: list.splits filter_token.splits)

lemma good_op: "good_result input (\<lambda>_. True) (expect_op input ts)"
  by (auto simp: expect_op_def good_result_def split: list.splits filter_token.splits)

lemma good_atom: "good_result input parsed_shape (parse_atom pf input ts)"
  unfolding parse_atom_def
  by (rule good_result_bind [OF good_ident])
    (auto split: option.splits simp: Let_def
      intro!: good_result_expect good_result_bind [OF good_in_values] good_result_bind [OF good_op]
        good_result_bind [OF good_literal] good_value)

lemma good_parse:
  "good_result input parsed_shape (parse_or pf input ts)"
  "parsed_shape e \<Longrightarrow> good_result input parsed_shape (or_loop pf input e ts)"
  "good_result input parsed_shape (parse_and pf input ts)"
  "parsed_shape e \<Longrightarrow> good_result input parsed_shape (and_loop pf input e ts)"
  "good_result input parsed_shape (parse_not pf input ts)"
  "good_result input parsed_shape (parse_primary pf input ts)"
proof (induction pf input ts and pf input e ts and pf input ts and pf input e ts and pf input ts and pf input ts
    rule: parse_or_or_loop_parse_and_and_loop_parse_not_parse_primary.induct)
  case (1 pf input ts)
  then show ?case by (subst parse_or.simps) (auto intro!: good_result_bind [OF "1.IH"(1)])
next
  case (2 pf input e ts)
  then show ?case
    by (subst or_loop.simps) (auto split: option.splits intro!: good_value good_result_bind [OF "2.IH"(1)])
next
  case (3 pf input ts)
  then show ?case by (subst parse_and.simps) (auto intro!: good_result_bind [OF "3.IH"(1)])
next
  case (4 pf input e ts)
  then show ?case
    by (subst and_loop.simps) (auto split: option.splits intro!: good_value good_result_bind [OF "4.IH"(1)])
next
  case (5 pf input ts)
  then show ?case
    by (subst parse_not.simps) (auto split: option.splits intro!: good_value good_result_bind [OF "5.IH"(2)])
next
  case (6 pf input ts)
  then show ?case
    by (subst parse_primary.simps)
      (auto split: option.splits intro!: good_atom good_value good_result_expect good_result_bind [OF "6.IH"(1)])
qed

lemma tokenize_loop_error: "tokenize_loop input chars ts = Inl e \<Longrightarrow> e = InvalidFilter input"
  by (induction input chars ts rule: tokenize_loop.induct)
    (auto simp: read_quoted_def simp del: read_operator.simps read_ident.simps
      split: if_splits sum.splits prod.splits option.splits)


lemma tokenize_print_filter:
  "filter_ok e \<Longrightarrow> tokenize_filter (print_filter e) = Inr (render 0 e)"
  using tokenize_print_tokens [OF render_ok, of e "print_filter e" 0 "[]" "[]"]
  by (simp add: tokenize_filter_def print_filter_def render_nonempty)

lemma parse_rendered:
  "filter_ok e \<Longrightarrow> parse_or pf input (render 0 e) = Inr (e, [])"
  using parse_render [of e pf input] by (auto simp: not_and_def or_loop.simps dest: spec [of _ "[]"])

subsection \<open>Properties\<close>

text \<open>
  C11: every filter the syntax can express, written out with no more parentheses than precedence
  needs, with quoted and escaped strings and decimal numbers, parses back to itself.
\<close>

theorem filter_parse_round_trip:
  assumes "filter_ok e"
  shows "filter_expr_parse pf (print_filter e) = Inr e"
  using assms by (simp add: filter_expr_parse_def tokenize_print_filter parse_rendered)

theorem filter_parse_round_trip_witness:
  "filter_expr_parse (\<lambda>_. None)
     (print_filter (Or (Not (IsNull ''a'' False))
        (And (Comparison \<lparr>cmp_column = ''id'', cmp_op = GtEq, cmp_value = LitInt64 (-7)\<rparr>)
             (InList ''b'' [LitUtf8 [CHR 0x27], LitBoolean True] True False)))) =
   Inr (Or (Not (IsNull ''a'' False))
        (And (Comparison \<lparr>cmp_column = ''id'', cmp_op = GtEq, cmp_value = LitInt64 (-7)\<rparr>)
             (InList ''b'' [LitUtf8 [CHR 0x27], LitBoolean True] True False)))"
proof -
  have "ident_ok ''a''" "ident_ok ''id''" "ident_ok ''b''" by code_simp+
  then show ?thesis by (intro filter_parse_round_trip) (simp add: is_i64_def)
qed

text \<open>
  C24: on any input the parser terminates with a filter in which every column is named, every value
  list is nonempty and no literal is null, or with the invalid-filter error that carries the input.
\<close>

theorem filter_parse_total_and_shaped:
  "case filter_expr_parse pf input of Inl err \<Rightarrow> err = InvalidFilter input | Inr e \<Rightarrow> parsed_shape e"
proof (cases "tokenize_filter input")
  case (Inl err)
  then have "err = InvalidFilter input"
    by (auto simp: tokenize_filter_def rust_simps split: if_splits dest: tokenize_loop_error)
  with Inl show ?thesis by (simp add: filter_expr_parse_def)
next
  case (Inr ts)
  then show ?thesis using good_parse(1) [of input pf ts]
    by (cases "parse_or pf input ts") (auto simp: filter_expr_parse_def good_result_def)
qed

text \<open>
  C33: an exclamation mark in front of a filter is read and dropped, so that \<open>!a = 1\<close> is accepted as
  \<open>a = 1\<close>: \<open>read_operator\<close> consumes it before it finds that no \<open>=\<close> follows.
\<close>

theorem leading_bang_is_dropped:
  assumes "filter_ok (Comparison c)"
  shows "filter_expr_parse pf (CHR ''!'' # print_filter (Comparison c)) = Inr (Comparison c)"
proof -
  obtain a w where w: "cmp_column c = a # w" "\<not> ends_ident a"
    using assms by (cases "cmp_column c") (auto simp: ident_ok_def)
  then have na: "a \<noteq> CHR ''=''" by (auto simp: ends_ident_def)
  let ?input = "CHR ''!'' # print_filter (Comparison c)"
  let ?tail = "print_tokens [Op (cmp_op c), literal_token (cmp_value c)]"
  have p: "print_filter (Comparison c) = cmp_column c @ CHR '' '' # ?tail"
    by (simp add: print_filter_def print_tokens_def)
  have "list_all (\<lambda>c. \<not> ends_ident c \<and> c \<noteq> CHR ''('') (cmp_column c)" "keyword_or_ident (cmp_column c) = Ident (cmp_column c)"
    using assms by (simp_all add: ident_ok_def)
  then have "read_ident 0 (cmp_column c @ CHR '' '' # ?tail) = (cmp_column c, CHR '' '' # ?tail)"
    using read_ident_word [of "cmp_column c" "CHR '' '' # ?tail"] by simp
  then have "tokenize_loop ?input ?input [] = tokenize_loop ?input (CHR '' '' # ?tail) [Ident (cmp_column c)]"
    using w na \<open>keyword_or_ident _ = _\<close> unfolding p
    by (subst tokenize_loop.simps(2)) (simp add: not_space peek_eq_def del: read_ident.simps tokenize_loop.simps tokenize_space)
  also have "\<dots> = Inr (render 0 (Comparison c))"
    using tokenize_print_tokens [of "[Op (cmp_op c), literal_token (cmp_value c)]" ?input "[]" "[Ident (cmp_column c)]"] assms
    by (simp add: literal_token_ok del: tokenize_loop.simps(2))
  finally show ?thesis using parse_rendered [OF assms, of pf ?input]
    by (simp add: filter_expr_parse_def tokenize_filter_def)
qed

theorem leading_bang_is_dropped_witness:
  "filter_expr_parse (\<lambda>_. None) (CHR ''!'' # print_filter (Comparison \<lparr>cmp_column = ''a'', cmp_op = Eq, cmp_value = LitInt64 1\<rparr>)) =
     Inr (Comparison \<lparr>cmp_column = ''a'', cmp_op = Eq, cmp_value = LitInt64 1\<rparr>)"
proof -
  have "ident_ok ''a''" by code_simp
  then show ?thesis by (intro leading_bang_is_dropped) (simp add: is_i64_def)
qed

end
