(* ===== verification/Cost_Model.thy ===== *)
theory Cost_Model
  imports Dodam_Prelude
begin

text \<open>
  The decisions of \<open>cost.rs\<close> that work on integers: join strategy and build side, partition counts,
  pipeline memory strategy, worker counts, and the gap up to which late materialization coalesces
  selected rows into runs.  A \<open>u64\<close>, \<open>u128\<close> or \<open>usize\<close> is a \<open>nat\<close> with the saturation written out.
  The decisions that compare \<open>f64\<close> ratios are not modelled.
\<close>

subsection \<open>Joins\<close>

datatype join_type = JoinInner | JoinLeft | JoinRight | JoinFull | JoinSemi

datatype join_build_side = BuildLeft | BuildRight

datatype join_algorithm = AlgAuto | AlgSortMerge

datatype join_execution_strategy =
    ExecHash join_build_side
  | ExecPartitionedHash nat nat
  | ExecSortMerge

record join_cost_input =
  left_estimated_bytes :: nat
  right_estimated_bytes :: nat
  jc_memory_limit_bytes :: nat
  requested_algorithm :: join_algorithm
  jc_join_type :: join_type
  jc_left_keys :: nat
  jc_right_keys :: nat

definition partition_count_bytes :: "nat \<Rightarrow> nat \<Rightarrow> nat" where
  "partition_count_bytes estimated_build_bytes memory_limit_bytes =
     (let limit = max memory_limit_bytes 1;
          partitions = u64_sat (estimated_build_bytes + (limit - 1)) div limit
      in clamp_nat 2 1024 partitions)"

definition choose_build_side :: "join_type \<Rightarrow> nat \<Rightarrow> nat \<Rightarrow> join_build_side" where
  "choose_build_side join_type left_bytes right_bytes =
     (case join_type of
        JoinSemi \<Rightarrow> BuildRight
      | _ \<Rightarrow> if left_bytes \<le> right_bytes then BuildLeft else BuildRight)"

definition partitionable :: "join_type \<Rightarrow> bool" where
  "partitionable t \<longleftrightarrow> t \<in> {JoinInner, JoinFull, JoinSemi}"

definition cost_choose_join_strategy :: "join_cost_input \<Rightarrow> join_execution_strategy" where
  "cost_choose_join_strategy input =
     (let build_side = choose_build_side (jc_join_type input) (left_estimated_bytes input) (right_estimated_bytes input);
          is_single_key_inner = (jc_join_type input = JoinInner \<and> jc_left_keys input = 1 \<and> jc_right_keys input = 1);
          smaller = min (left_estimated_bytes input) (right_estimated_bytes input)
      in if requested_algorithm input = AlgSortMerge \<and> is_single_key_inner then ExecSortMerge
         else if partitionable (jc_join_type input) \<and> smaller > jc_memory_limit_bytes input
         then ExecPartitionedHash (partition_count_bytes smaller (jc_memory_limit_bytes input)) (jc_memory_limit_bytes input)
         else ExecHash build_side)"

subsection \<open>Pipelines and workers\<close>

datatype pipeline_memory_strategy = InMemory | Partitioned nat | External

definition partition_count_u128 :: "nat \<Rightarrow> nat \<Rightarrow> nat" where
  "partition_count_u128 estimated_bytes memory_limit_bytes =
     clamp_nat 2 1024
       (u128_sat (estimated_bytes + (memory_limit_bytes - 1)) div max memory_limit_bytes 1)"

definition choose_pipeline_memory_strategy :: "nat \<Rightarrow> nat \<Rightarrow> nat \<Rightarrow> pipeline_memory_strategy" where
  "choose_pipeline_memory_strategy estimated_rows estimated_row_width memory_limit_bytes =
     (let estimated_bytes = u128_sat (estimated_rows * max estimated_row_width 1);
          memory_limit = max memory_limit_bytes 1
      in if estimated_bytes \<le> memory_limit then InMemory
         else if estimated_bytes \<le> u128_sat (memory_limit * 1024)
         then Partitioned (partition_count_u128 estimated_bytes memory_limit)
         else External)"

definition choose_streaming_left_deep_join :: "nat \<Rightarrow> nat \<Rightarrow> nat \<Rightarrow> bool" where
  "choose_streaming_left_deep_join table_count projected_output_columns estimated_final_rows \<longleftrightarrow>
     table_count = 3 \<and> projected_output_columns \<le> 16 \<and> estimated_final_rows \<le> 10000000"

definition choose_parallel_workers :: "nat \<Rightarrow> nat \<Rightarrow> nat \<Rightarrow> nat" where
  "choose_parallel_workers row_groups available_parallelism max_workers =
     min (min (max available_parallelism 1) (max max_workers 1)) (max row_groups 1)"

definition choose_ordered_primitive_row_group_chunk :: "nat \<Rightarrow> nat \<Rightarrow> nat \<Rightarrow> nat \<Rightarrow> nat \<Rightarrow> nat" where
  "choose_ordered_primitive_row_group_chunk limit row_groups available_parallelism small_limit_rows max_workers =
     (if limit \<le> max small_limit_rows 1 then 1
      else choose_parallel_workers row_groups available_parallelism max_workers)"

definition choose_row_group_map_chunk :: "nat option \<Rightarrow> nat \<Rightarrow> nat" where
  "choose_row_group_map_chunk requested_chunk default_chunk =
     (case requested_chunk of
        Some chunk \<Rightarrow> if chunk > 0 then chunk else max default_chunk 1
      | None \<Rightarrow> max default_chunk 1)"

definition choose_expression_aggregate_late_row_group_chunk :: "bool \<Rightarrow> nat option \<Rightarrow> nat \<Rightarrow> nat \<Rightarrow> nat" where
  "choose_expression_aggregate_late_row_group_chunk ordered_output output_limit default_chunk ordered_limit_chunk =
     (let default = max default_chunk 1
      in if ordered_output \<and> output_limit \<noteq> None then max ordered_limit_chunk default else default)"

definition choose_primitive_parquet_sink :: "bool \<Rightarrow> nat \<Rightarrow> nat \<Rightarrow> bool" where
  "choose_primitive_parquet_sink supported rows min_rows \<longleftrightarrow> supported \<and> rows \<ge> max min_rows 1"

definition choose_ordered_primitive_sink :: "nat \<Rightarrow> nat \<Rightarrow> bool \<Rightarrow> bool" where
  "choose_ordered_primitive_sink limit small_limit_rows large_auto_enabled \<longleftrightarrow>
     limit \<le> max small_limit_rows 1 \<or> (large_auto_enabled \<and> limit > max small_limit_rows 1)"

definition choose_dense_i32_block_accumulate :: "nat \<Rightarrow> nat \<Rightarrow> nat \<Rightarrow> nat \<Rightarrow> nat \<Rightarrow> bool" where
  "choose_dense_i32_block_accumulate rows min_rows sample_rows sample_unique max_sample_unique \<longleftrightarrow>
     sample_rows \<ge> 64 \<and> rows \<ge> max min_rows 1 \<and> sample_unique \<le> max max_sample_unique 1"

datatype primitive_order_limit_strategy = OrderedScan | PostScanTopK

definition choose_primitive_order_limit_strategy ::
    "bool \<Rightarrow> nat \<Rightarrow> nat \<Rightarrow> bool \<Rightarrow> bool \<Rightarrow> bool \<Rightarrow> bool \<Rightarrow> primitive_order_limit_strategy" where
  "choose_primitive_order_limit_strategy has_limit offset sort_keys descending nulls_first
       sort_key_projected sort_key_is_i64 =
     (if has_limit \<and> offset = 0 \<and> sort_keys = 1 \<and> descending \<and> \<not> nulls_first \<and> sort_key_projected \<and>
         sort_key_is_i64
      then PostScanTopK else OrderedScan)"

subsection \<open>Coalescing selected rows\<close>

record late_coalesce_gap_input =
  selected_rows :: nat
  natural_selector_runs :: nat
  candidate_selector_runs :: nat
  candidate_payload_rows :: nat
  selector_run_cost_rows :: nat
  max_payload_expansion_rows_per_selected :: nat

definition choose_late_coalesce_candidate :: "late_coalesce_gap_input \<Rightarrow> bool" where
  "choose_late_coalesce_candidate input =
     (if selected_rows input = 0 then False
      else if candidate_payload_rows input < selected_rows input then False
      else
        (let max_payload_rows = u64_sat (selected_rows input +
               u64_sat (selected_rows input * max_payload_expansion_rows_per_selected input));
             run_cost = max (selector_run_cost_rows input) 1;
             natural_cost = u64_sat (selected_rows input + u64_sat (natural_selector_runs input * run_cost));
             candidate_cost = u64_sat (candidate_payload_rows input +
               u64_sat (candidate_selector_runs input * run_cost))
         in if candidate_payload_rows input > max_payload_rows then False
            else candidate_cost < natural_cost))"

text \<open>The loop of \<open>late_coalesce_candidate_metrics\<close> over the offsets after the first.\<close>

fun coalesce_loop :: "nat \<Rightarrow> nat list \<Rightarrow> nat \<Rightarrow> nat \<Rightarrow> nat \<Rightarrow> nat \<times> nat" where
  "coalesce_loop max_gap [] previous runs payload_rows = (runs, payload_rows)"
| "coalesce_loop max_gap (offset # offsets) previous runs payload_rows =
     (if offset \<le> previous then coalesce_loop max_gap offsets previous runs payload_rows
      else
        (let gap = offset - previous - 1
         in if gap \<le> max_gap
            then coalesce_loop max_gap offsets offset runs (u64_sat (u64_sat (payload_rows + gap) + 1))
            else coalesce_loop max_gap offsets offset (u64_sat (runs + 1)) (u64_sat (payload_rows + 1))))"

definition late_coalesce_candidate_metrics :: "nat list \<Rightarrow> nat \<Rightarrow> nat \<times> nat" where
  "late_coalesce_candidate_metrics selected_offsets max_gap =
     (case selected_offsets of
        [] \<Rightarrow> (0, 0)
      | first # offsets \<Rightarrow> coalesce_loop max_gap offsets first 1 1)"

text \<open>One candidate: is it accepted, and at what cost.\<close>

definition coalesce_candidate_cost :: "nat list \<Rightarrow> nat \<Rightarrow> nat \<Rightarrow> nat \<Rightarrow> nat option" where
  "coalesce_candidate_cost selected_offsets candidate run_cost_rows expansion =
     (let (runs, payload_rows) = late_coalesce_candidate_metrics selected_offsets candidate
      in if choose_late_coalesce_candidate
              \<lparr>selected_rows = length selected_offsets, natural_selector_runs = length selected_offsets,
               candidate_selector_runs = runs, candidate_payload_rows = payload_rows,
               selector_run_cost_rows = run_cost_rows, max_payload_expansion_rows_per_selected = expansion\<rparr>
         then Some (u64_sat (payload_rows + u64_sat (runs * max run_cost_rows 1))) else None)"

text \<open>The \<open>while\<close> loop; \<open>None\<close> means that it does not end.\<close>

partial_function (option) gap_loop ::
    "nat list \<Rightarrow> nat \<Rightarrow> nat \<Rightarrow> nat \<Rightarrow> nat \<Rightarrow> nat \<Rightarrow> nat \<Rightarrow> (nat \<times> nat) option" where
  "gap_loop selected_offsets max_gap run_cost_rows expansion candidate best_gap best_cost =
     (if candidate \<le> max_gap then
        (let (best_gap, best_cost) =
               (case coalesce_candidate_cost selected_offsets candidate run_cost_rows expansion of
                  Some cost \<Rightarrow> if cost < best_cost then (candidate, cost) else (best_gap, best_cost)
                | None \<Rightarrow> (best_gap, best_cost));
             candidate = u64_sat (candidate * 2)
         in if candidate = 0 then Some (best_gap, best_cost)
            else gap_loop selected_offsets max_gap run_cost_rows expansion candidate best_gap best_cost)
      else Some (best_gap, best_cost))"

definition choose_late_coalesce_max_gap :: "nat list \<Rightarrow> nat \<Rightarrow> nat \<Rightarrow> nat \<Rightarrow> nat option" where
  "choose_late_coalesce_max_gap selected_offsets max_gap run_cost_rows expansion =
     (if max_gap = 0 \<or> length selected_offsets \<le> 1 then Some 0
      else
        (let natural_cost = u64_sat (length selected_offsets +
               u64_sat (length selected_offsets * max run_cost_rows 1))
         in case gap_loop selected_offsets max_gap run_cost_rows expansion 1 0 natural_cost of
              None \<Rightarrow> None
            | Some (best_gap, best_cost) \<Rightarrow>
                if best_gap < max_gap then
                  (case coalesce_candidate_cost selected_offsets max_gap run_cost_rows expansion of
                     Some cost \<Rightarrow> if cost < best_cost then Some max_gap else Some best_gap
                   | None \<Rightarrow> Some best_gap)
                else Some best_gap))"

subsection \<open>Lemmas\<close>

lemma clamp_nat_bounds: "lo \<le> hi \<Longrightarrow> lo \<le> clamp_nat lo hi x \<and> clamp_nat lo hi x \<le> hi"
  by (simp add: clamp_nat_def)

lemma ceil_div_covers: "0 < d \<Longrightarrow> n \<le> (n + (d - 1)) div d * d" for n d :: nat
proof -
  assume "0 < d"
  then have "(n + (d - 1)) mod d \<le> d - 1" by (metis Suc_diff_1 less_Suc_eq_le mod_less_divisor)
  moreover have "(n + (d - 1)) div d * d + (n + (d - 1)) mod d = n + (d - 1)" by simp
  ultimately show ?thesis by linarith
qed

lemma ceil_div_le: "0 < d \<Longrightarrow> n \<le> k * d \<Longrightarrow> (n + (d - 1)) div d \<le> k" for n d k :: nat
proof -
  assume d: "0 < d" "n \<le> k * d"
  then have "(n + (d - 1)) div d \<le> (k * d + (d - 1)) div d" by (intro div_le_mono) simp
  also have "\<dots> = k" using d(1) by (subst div_mult_self3) auto
  finally show ?thesis .
qed

lemma clamped_partitions_cover:
  assumes "0 < d" "n \<le> 1024 * d"
  shows "n \<le> clamp_nat 2 1024 ((n + (d - 1)) div d) * d"
proof -
  have "(n + (d - 1)) div d \<le> clamp_nat 2 1024 ((n + (d - 1)) div d)"
    using ceil_div_le [OF assms] by (simp add: clamp_nat_def)
  then have "(n + (d - 1)) div d * d \<le> clamp_nat 2 1024 ((n + (d - 1)) div d) * d" by (rule mult_le_mono1)
  with ceil_div_covers [OF assms(1), of n] show ?thesis by linarith
qed

text \<open>What the loop over the candidate gaps has found so far.\<close>

definition gap_found :: "nat list \<Rightarrow> nat \<Rightarrow> nat \<Rightarrow> nat \<Rightarrow> nat \<Rightarrow> nat \<Rightarrow> nat \<Rightarrow> bool" where
  "gap_found offs max_gap rc ex natural bg bc \<longleftrightarrow>
     (bg = 0 \<and> bc = natural) \<or>
     (1 \<le> bg \<and> bg \<le> max_gap \<and> coalesce_candidate_cost offs bg rc ex = Some bc \<and> bc < natural)"

lemma gap_loop_terminates:
  assumes "max_gap < u64_max" "1 \<le> candidate" "gap_found offs max_gap rc ex natural bg bc"
  shows "\<exists>bg' bc'. gap_loop offs max_gap rc ex candidate bg bc = Some (bg', bc') \<and>
    gap_found offs max_gap rc ex natural bg' bc'"
  using assms(2,3)
proof (induction "max_gap + 1 - candidate" arbitrary: candidate bg bc rule: less_induct)
  case less
  show ?case
  proof (cases "candidate \<le> max_gap")
    case False
    then show ?thesis using less.prems by (subst gap_loop.simps) simp
  next
    case True
    define upd where "upd = (case coalesce_candidate_cost offs candidate rc ex of
        Some cost \<Rightarrow> if cost < bc then (candidate, cost) else (bg, bc) | None \<Rightarrow> (bg, bc))"
    obtain bg1 bc1 where u: "upd = (bg1, bc1)" by (cases upd)
    have "bc \<le> natural" using less.prems(2) by (auto simp: gap_found_def)
    then have f: "gap_found offs max_gap rc ex natural bg1 bc1"
      using less.prems True u by (auto simp: upd_def gap_found_def split: option.splits if_splits)
    let ?c = "u64_sat (candidate * 2)"
    have c: "candidate < ?c" using True assms(1) less.prems(1) by (simp add: u64_sat_def min_def)
    then have "\<exists>bg' bc'. gap_loop offs max_gap rc ex ?c bg1 bc1 = Some (bg', bc') \<and>
        gap_found offs max_gap rc ex natural bg' bc'"
      using True less.prems(1) f by (intro less.hyps) auto
    moreover have "gap_loop offs max_gap rc ex candidate bg bc = gap_loop offs max_gap rc ex ?c bg1 bc1"
      using True c u by (subst gap_loop.simps) (simp add: upd_def Let_def)
    ultimately show ?thesis by simp
  qed
qed

lemma gap_loop_unbounded:
  assumes "gap_loop offs m rc ex c bg bc = Some r"
  shows "m = u64_max \<longrightarrow> 1 \<le> c \<longrightarrow> c \<le> u64_max \<longrightarrow> False"
proof (rule gap_loop.raw_induct [OF _ assms,
      where P = "\<lambda>offs m rc ex c bg bc r. m = u64_max \<longrightarrow> 1 \<le> c \<longrightarrow> c \<le> u64_max \<longrightarrow> False"], intro impI)
  fix gl :: "nat list \<Rightarrow> nat \<Rightarrow> nat \<Rightarrow> nat \<Rightarrow> nat \<Rightarrow> nat \<Rightarrow> nat \<Rightarrow> (nat \<times> nat) option"
  fix offs and m rc ex c bg bc :: nat and r
  assume IH: "\<And>offs m rc ex c bg bc r. gl offs m rc ex c bg bc = Some r \<Longrightarrow>
      m = u64_max \<longrightarrow> 1 \<le> c \<longrightarrow> c \<le> u64_max \<longrightarrow> False"
    and eq: "(if c \<le> m then
        (let (best_gap, best_cost) =
               (case coalesce_candidate_cost offs c rc ex of
                  Some cost \<Rightarrow> if cost < bc then (c, cost) else (bg, bc)
                | None \<Rightarrow> (bg, bc));
             candidate = u64_sat (c * 2)
         in if candidate = 0 then Some (best_gap, best_cost)
            else gl offs m rc ex candidate best_gap best_cost)
      else Some (bg, bc)) = Some r"
    and m: "m = u64_max" "1 \<le> c" "c \<le> u64_max"
  have c2: "1 \<le> u64_sat (c * 2)" "u64_sat (c * 2) \<le> u64_max" "u64_sat (c * 2) \<noteq> 0"
    using m by (auto simp: u64_sat_def min_def)
  obtain bg1 bc1 where "gl offs m rc ex (u64_sat (c * 2)) bg1 bc1 = Some r"
    using eq m c2 by (auto simp: Let_def split: prod.splits if_splits)
  from IH [OF this] m(1) c2 show False by blast
qed

lemma gap_loop_diverges:
  "1 \<le> c \<Longrightarrow> c \<le> u64_max \<Longrightarrow> gap_loop offs u64_max rc ex c bg bc = None"
  using gap_loop_unbounded [of offs u64_max rc ex c bg bc] by (cases "gap_loop offs u64_max rc ex c bg bc") auto

subsection \<open>Properties\<close>

text \<open>
  C29: the pipeline memory strategy keeps its promise: in memory only when the estimate fits, with
  partitions only when the given number of them (between 2 and 1024) makes each one fit, and external
  only beyond 1024 times the limit.
\<close>

theorem pipeline_memory_strategy_fits:
  assumes "rows * max width 1 + max limit 1 * 1024 \<le> u128_max"
  shows "case choose_pipeline_memory_strategy rows width limit of
      InMemory \<Rightarrow> rows * max width 1 \<le> max limit 1
    | Partitioned p \<Rightarrow> 2 \<le> p \<and> p \<le> 1024 \<and> max limit 1 < rows * max width 1 \<and> rows * max width 1 \<le> p * max limit 1
    | External \<Rightarrow> 1024 * max limit 1 < rows * max width 1"
proof -
  define est where "est = rows * max width 1"
  define lim where "lim = max limit 1"
  have l: "0 < lim" "est + lim * 1024 \<le> u128_max" using assms by (simp_all add: lim_def est_def)
  have e: "est + (lim - 1) \<le> u128_max" "est \<le> u128_max" "lim * 1024 \<le> u128_max" using l by linarith+
  have s: "u128_sat est = est" "u128_sat (lim * 1024) = lim * 1024" "u128_sat (est + (lim - 1)) = est + (lim - 1)"
    using e by (auto intro: u128_sat_id)
  have pc: "partition_count_u128 est lim = clamp_nat 2 1024 ((est + (lim - 1)) div lim)"
    using l(1) by (simp only: partition_count_u128_def s(3)) simp
  have ch: "choose_pipeline_memory_strategy rows width limit =
      (if est \<le> lim then InMemory else if est \<le> lim * 1024 then Partitioned (partition_count_u128 est lim) else External)"
    unfolding choose_pipeline_memory_strategy_def Let_def est_def [symmetric] lim_def [symmetric] s ..
  have "est \<le> lim * 1024 \<Longrightarrow> est \<le> partition_count_u128 est lim * lim"
    using clamped_partitions_cover [OF l(1), of est] by (simp add: pc mult.commute)
  moreover have "2 \<le> partition_count_u128 est lim" "partition_count_u128 est lim \<le> 1024"
    unfolding pc by (simp_all add: clamp_nat_bounds)
  ultimately show ?thesis unfolding ch est_def [symmetric] lim_def [symmetric]
    by (simp add: mult.commute)
qed

theorem pipeline_memory_strategy_fits_witness:
  "choose_pipeline_memory_strategy 1000 8 100 = Partitioned 80 \<and> 1000 * max 8 1 \<le> 80 * max 100 (1 :: nat)"
proof -
  have "choose_pipeline_memory_strategy 1000 8 100 = Partitioned 80"
    by (simp add: choose_pipeline_memory_strategy_def partition_count_u128_def rust_defs Let_def)
  then show ?thesis using pipeline_memory_strategy_fits [of 1000 8 100] by simp
qed

text \<open>
  When the strategy for an inner or full join is a hash join, it builds the smaller input and
  that input fits the memory limit; a partitioned hash join has between 2 and 1024 partitions.
\<close>

theorem hash_join_builds_fitting_side:
  assumes "jc_join_type input \<in> {JoinInner, JoinFull}"
  shows "case cost_choose_join_strategy input of
      ExecHash side \<Rightarrow>
        (case side of BuildLeft \<Rightarrow> left_estimated_bytes input | BuildRight \<Rightarrow> right_estimated_bytes input) =
          min (left_estimated_bytes input) (right_estimated_bytes input) \<and>
        min (left_estimated_bytes input) (right_estimated_bytes input) \<le> jc_memory_limit_bytes input
    | ExecPartitionedHash p _ \<Rightarrow> 2 \<le> p \<and> p \<le> 1024 \<and>
        jc_memory_limit_bytes input < min (left_estimated_bytes input) (right_estimated_bytes input)
    | ExecSortMerge \<Rightarrow> requested_algorithm input = AlgSortMerge"
  using assms
  by (auto simp: cost_choose_join_strategy_def Let_def choose_build_side_def partitionable_def
      partition_count_bytes_def clamp_nat_def)

theorem hash_join_builds_fitting_side_witness:
  "cost_choose_join_strategy \<lparr>left_estimated_bytes = 50, right_estimated_bytes = 900, jc_memory_limit_bytes = 100,
     requested_algorithm = AlgAuto, jc_join_type = JoinInner, jc_left_keys = 1, jc_right_keys = 1\<rparr> = ExecHash BuildLeft \<and>
   min 50 900 \<le> (100 :: nat)"
proof -
  let ?i = "\<lparr>left_estimated_bytes = 50, right_estimated_bytes = 900, jc_memory_limit_bytes = 100,
     requested_algorithm = AlgAuto, jc_join_type = JoinInner, jc_left_keys = 1, jc_right_keys = 1\<rparr>"
  have "cost_choose_join_strategy ?i = ExecHash BuildLeft" by code_simp
  then show ?thesis using hash_join_builds_fitting_side [of ?i] by simp
qed

text \<open>
  A semi join always builds its right input, but the decision to partition looks at the smaller
  input: a small left input keeps the plain hash join however far the right one exceeds the limit.
\<close>

theorem semi_join_build_exceeds_limit:
  assumes "jc_join_type input = JoinSemi" "left_estimated_bytes input \<le> jc_memory_limit_bytes input"
    "jc_memory_limit_bytes input < right_estimated_bytes input"
  shows "cost_choose_join_strategy input = ExecHash BuildRight"
  using assms by (simp add: cost_choose_join_strategy_def Let_def choose_build_side_def partitionable_def)

theorem semi_join_build_exceeds_limit_witness:
  "cost_choose_join_strategy \<lparr>left_estimated_bytes = 1, right_estimated_bytes = 1000000, jc_memory_limit_bytes = 10,
     requested_algorithm = AlgAuto, jc_join_type = JoinSemi, jc_left_keys = 1, jc_right_keys = 1\<rparr> = ExecHash BuildRight"
  by (rule semi_join_build_exceeds_limit) simp_all

text \<open>
  C30: below the largest \<open>usize\<close> the search for the coalescing gap ends, and the gap it returns is 0 or
  a gap within the bound whose estimated cost is below the cost of not coalescing.
\<close>

theorem coalesce_gap_search_ends:
  assumes "max_gap < u64_max"
  shows "\<exists>g. choose_late_coalesce_max_gap offs max_gap rc ex = Some g \<and> g \<le> max_gap \<and>
    (g = 0 \<or> (\<exists>cost. coalesce_candidate_cost offs g rc ex = Some cost \<and>
       cost < u64_sat (length offs + u64_sat (length offs * max rc 1))))"
proof (cases "max_gap = 0 \<or> length offs \<le> 1")
  case True
  then show ?thesis by (simp add: choose_late_coalesce_max_gap_def)
next
  case False
  let ?nat = "u64_sat (length offs + u64_sat (length offs * max rc 1))"
  have "gap_found offs max_gap rc ex ?nat 0 ?nat" by (simp add: gap_found_def)
  from gap_loop_terminates [OF assms _ this, of 1] obtain bg bc where
    l: "gap_loop offs max_gap rc ex 1 0 ?nat = Some (bg, bc)" and f: "gap_found offs max_gap rc ex ?nat bg bc"
    by auto
  have "bc \<le> ?nat" using f by (auto simp: gap_found_def)
  then show ?thesis using False l f
    by (auto simp: choose_late_coalesce_max_gap_def Let_def gap_found_def split: option.splits)
qed

theorem coalesce_gap_search_ends_witness:
  "\<exists>g. choose_late_coalesce_max_gap [10, 12, 14] 8 4 8 = Some g \<and> g \<le> 8"
  using coalesce_gap_search_ends [of 8 "[10, 12, 14]" 4 8] by auto

text \<open>
  C31: with the largest \<open>usize\<close> as bound the search never ends: the candidate saturates at the bound,
  and the test that would stop it, that the candidate became 0, never succeeds.
\<close>

theorem coalesce_gap_search_diverges:
  assumes "2 \<le> length offs"
  shows "choose_late_coalesce_max_gap offs u64_max rc ex = None"
  using assms gap_loop_diverges [of 1 offs rc ex 0] by (simp add: choose_late_coalesce_max_gap_def Let_def)

theorem coalesce_gap_search_diverges_witness:
  "choose_late_coalesce_max_gap [1, 2] u64_max 4 8 = None"
  by (rule coalesce_gap_search_diverges) simp

end
