(* ===== verification/Plan_Types.thy ===== *)
theory Plan_Types
  imports Logical_Expr Cost_Model
begin

text \<open>
  The plans of \<open>plan.rs\<close> and the part of \<open>catalog.rs\<close> they rest on: file fragments and table
  statistics, the logical plan, the physical plan node with its operator, execution configuration and
  partitioning, the builder methods of \<open>PhysicalPlanNode\<close>, and the displays and estimates of plans.

  A \<open>PathBuf\<close> is its text.  \<open>RecordBatch\<close> belongs to the \<open>arrow\<close> crate: it is the type variable
  \<open>'b\<close> of the physical plan.  A struct that holds itself (\<open>PhysicalOperatorNode\<close>) is a datatype with
  selectors, the other structs are records.
\<close>

subsection \<open>Tables\<close>

datatype storage_format = FormatParquet | FormatCsv | FormatJson | FormatArrowIpc

datatype storage_location = LocalPath string | ObjectUri string

record file_fragment_statistics =
  fs_rows :: nat
  fs_row_groups :: nat
  fs_compressed_bytes :: nat

record file_fragment =
  location :: storage_location
  fragment_format :: storage_format
  fragment_statistics :: "file_fragment_statistics option"
  partition_values :: "(string \<times> string) list"

definition file_fragment_new :: "storage_location \<Rightarrow> storage_format \<Rightarrow> file_fragment" where
  "file_fragment_new loc fmt =
     \<lparr>location = loc, fragment_format = fmt, fragment_statistics = None, partition_values = []\<rparr>"

definition local_parquet :: "string \<Rightarrow> file_fragment" where
  "local_parquet path = file_fragment_new (LocalPath path) FormatParquet"

fun show_storage_format :: "storage_format \<Rightarrow> string" where
  "show_storage_format FormatParquet = ''Parquet''"
| "show_storage_format FormatCsv = ''Csv''"
| "show_storage_format FormatJson = ''Json''"
| "show_storage_format FormatArrowIpc = ''ArrowIpc''"

definition require_format :: "storage_format \<Rightarrow> file_fragment \<Rightarrow> dodam_error + unit" where
  "require_format expected fragment =
     (if fragment_format fragment = expected then Inr ()
      else Inl (UnsupportedStorageFormat (show_storage_format (fragment_format fragment))))"

definition parquet_local_path :: "file_fragment \<Rightarrow> dodam_error + string" where
  "parquet_local_path fragment =
     try_bind (require_format FormatParquet fragment) (\<lambda>_.
       case location fragment of
         LocalPath path \<Rightarrow> Inr path
       | ObjectUri uri \<Rightarrow> Inl (UnsupportedStorageLocation uri))"

record table_statistics =
  ts_fragments :: nat
  ts_rows :: nat
  ts_row_groups :: nat
  ts_compressed_bytes :: nat

definition table_statistics_default :: table_statistics where
  "table_statistics_default = \<lparr>ts_fragments = 0, ts_rows = 0, ts_row_groups = 0, ts_compressed_bytes = 0\<rparr>"

definition add_fragment_statistics :: "file_fragment_statistics \<Rightarrow> table_statistics \<Rightarrow> table_statistics" where
  "add_fragment_statistics fragment table =
     \<lparr>ts_fragments = ts_fragments table + 1,
      ts_rows = u64_sat (ts_rows table + fs_rows fragment),
      ts_row_groups = u64_sat (ts_row_groups table + fs_row_groups fragment),
      ts_compressed_bytes = u64_sat (ts_compressed_bytes table + fs_compressed_bytes fragment)\<rparr>"

definition from_fragments :: "file_fragment list \<Rightarrow> table_statistics" where
  "from_fragments fragments =
     fold add_fragment_statistics (List.map_filter fragment_statistics fragments) table_statistics_default"

subsection \<open>Logical plans\<close>

record plan_table_source =
  src_fragments :: "file_fragment list"
  src_format :: storage_format
  src_statistics :: table_statistics

record logical_scan =
  scan_source :: plan_table_source
  batch_size :: nat
  scan_projection :: projection
  scan_filter :: "expr option"
  scan_order_by :: "sort_key option"
  scan_limit :: "nat option"
  scan_distinct :: bool

datatype copy_format = CopyCsv

datatype logical_plan =
    TableScan logical_scan
  | LProjection logical_plan projection
  | LFilter logical_plan expr
  | LAggregate logical_plan "aggregate_expr list" "string list"
  | LJoin logical_plan logical_plan join_type "string list" "string list" string string projection
  | LSort logical_plan sort_key "nat option"
  | LLimit logical_plan nat
  | LDistinct logical_plan
  | LCopy logical_plan copy_format string

subsection \<open>Physical plans\<close>

datatype exchange_kind = HashRepartition "string list" nat | Broadcast | Gather

datatype sink_kind = SinkCsv | SinkMemory

datatype physical_operator =
    OpScan | OpMemory | OpIpc | OpFilter | OpProjection | OpAggregate | OpLocalFold | OpFinalMerge
  | OpDirectPrimitiveFold | OpHashJoin | OpPartitionedHashJoin | OpSortMergeJoin | OpSort | OpLimit
  | OpDistinct | OpExchange exchange_kind | OpSink sink_kind | OpEmpty | OpOther string

datatype partitioning =
    PartUnknown
  | PartSingle
  | PartHash "string list" nat
  | PartRoundRobin nat
  | PartFileRange nat

record min_max_fold =
  decimal_precision :: nat
  decimal_scale :: int
  max_decimal :: bool
  decimal_min :: "int option"
  decimal_max :: "int option"
  date_min :: "int option"
  date_max :: "int option"

datatype direct_primitive_fold_mode =
    SingleKeyCountSum string string aggregate_expr aggregate_expr
  | SingleKeyCountSumMinMax string string "aggregate_expr list" min_max_fold
  | TwoKeyCountSumMinMax string string string "aggregate_expr list" min_max_fold

datatype 'b execution_config =
    CfgScan "file_fragment list" nat projection "expr list"
  | CfgMemory "'b list"
  | CfgIpc "string list"
  | CfgFilter expr
  | CfgProjection projection
  | CfgSort sort_key "nat option"
  | CfgLimit nat
  | CfgDistinct
  | CfgLocalFold "string list" "aggregate_expr list"
  | CfgFinalMerge "string list" "aggregate_expr list"
  | CfgDirectPrimitiveFold string nat "nat list" "(string \<times> string) list" direct_primitive_fold_mode
  | CfgHashJoin "string list" "string list" string string join_build_side join_type projection
  | CfgPartitionedHashJoin "string list" "string list" string string nat nat join_type projection
  | CfgSortMergeJoin string string string string

type_synonym output_ordering = "string list"

datatype 'b plan_node =
  PlanNode (node_operator: physical_operator) (attributes: "(string \<times> string) list")
    (node_children: "'b plan_node list") (partitioning_ref: partitioning)
    (node_ordering: output_ordering) (execution_config: "'b execution_config option")

fun from_name :: "string \<Rightarrow> physical_operator" where
  "from_name name =
     (if name = ''ScanExec'' then OpScan
      else if name = ''MemoryExec'' then OpMemory
      else if name = ''IpcExec'' then OpIpc
      else if name = ''FilterExec'' then OpFilter
      else if name = ''ProjectionExec'' then OpProjection
      else if name = ''AggregateExec'' then OpAggregate
      else if name = ''LocalFoldExec'' then OpLocalFold
      else if name = ''FinalMergeExec'' then OpFinalMerge
      else if name = ''DirectPrimitiveFoldExec'' then OpDirectPrimitiveFold
      else if name = ''JoinExec'' then OpHashJoin
      else if name = ''PartitionedHashJoinExec'' then OpPartitionedHashJoin
      else if name = ''SortMergeJoinExec'' then OpSortMergeJoin
      else if name = ''SortExec'' then OpSort
      else if name = ''LimitExec'' then OpLimit
      else if name = ''DistinctExec'' then OpDistinct
      else if name = ''CsvSinkExec'' then OpSink SinkCsv
      else if name = ''MemorySinkExec'' then OpSink SinkMemory
      else if name = ''EmptyExec'' then OpEmpty
      else OpOther name)"

declare from_name.simps [simp del]

fun operator_name :: "physical_operator \<Rightarrow> string" where
  "operator_name OpScan = ''ScanExec''"
| "operator_name OpMemory = ''MemoryExec''"
| "operator_name OpIpc = ''IpcExec''"
| "operator_name OpFilter = ''FilterExec''"
| "operator_name OpProjection = ''ProjectionExec''"
| "operator_name OpAggregate = ''AggregateExec''"
| "operator_name OpLocalFold = ''LocalFoldExec''"
| "operator_name OpFinalMerge = ''FinalMergeExec''"
| "operator_name OpDirectPrimitiveFold = ''DirectPrimitiveFoldExec''"
| "operator_name OpHashJoin = ''JoinExec''"
| "operator_name OpPartitionedHashJoin = ''PartitionedHashJoinExec''"
| "operator_name OpSortMergeJoin = ''SortMergeJoinExec''"
| "operator_name OpSort = ''SortExec''"
| "operator_name OpLimit = ''LimitExec''"
| "operator_name OpDistinct = ''DistinctExec''"
| "operator_name (OpExchange (HashRepartition keys partitions)) = ''HashRepartitionExchangeExec''"
| "operator_name (OpExchange Broadcast) = ''BroadcastExchangeExec''"
| "operator_name (OpExchange Gather) = ''GatherExchangeExec''"
| "operator_name (OpSink SinkCsv) = ''CsvSinkExec''"
| "operator_name (OpSink SinkMemory) = ''MemorySinkExec''"
| "operator_name OpEmpty = ''EmptyExec''"
| "operator_name (OpOther name) = name"

definition node_new :: "string \<Rightarrow> 'b plan_node" where
  "node_new name = PlanNode (from_name name) [] [] PartUnknown [] None"

definition node_exchange :: "exchange_kind \<Rightarrow> 'b plan_node" where
  "node_exchange kind = PlanNode (OpExchange kind) [] [] PartUnknown [] None"

fun with_attr :: "string \<Rightarrow> string \<Rightarrow> 'b plan_node \<Rightarrow> 'b plan_node" where
  "with_attr key value (PlanNode op attrs cs p ord ex) = PlanNode op (attrs @ [(key, value)]) cs p ord ex"

fun with_child :: "'b plan_node \<Rightarrow> 'b plan_node \<Rightarrow> 'b plan_node" where
  "with_child child (PlanNode op attrs cs p ord ex) = PlanNode op attrs (cs @ [child]) p ord ex"

fun with_partitioning :: "partitioning \<Rightarrow> 'b plan_node \<Rightarrow> 'b plan_node" where
  "with_partitioning p' (PlanNode op attrs cs p ord ex) = PlanNode op attrs cs p' ord ex"

fun with_ordering :: "output_ordering \<Rightarrow> 'b plan_node \<Rightarrow> 'b plan_node" where
  "with_ordering ord' (PlanNode op attrs cs p ord ex) = PlanNode op attrs cs p ord' ex"

fun with_execution :: "'b execution_config \<Rightarrow> 'b plan_node \<Rightarrow> 'b plan_node" where
  "with_execution ex' (PlanNode op attrs cs p ord ex) = PlanNode op attrs cs p ord (Some ex')"

definition node_memory :: "'b list \<Rightarrow> 'b plan_node" where
  "node_memory batches = with_execution (CfgMemory batches) (node_new ''MemoryExec'')"

definition node_ipc :: "string list \<Rightarrow> 'b plan_node" where
  "node_ipc files = with_execution (CfgIpc files) (node_new ''IpcExec'')"

subsection \<open>Texts and estimates\<close>

fun join_strs :: "string \<Rightarrow> string list \<Rightarrow> string" where
  "join_strs sep [] = []"
| "join_strs sep [s] = s"
| "join_strs sep (s # t # ss) = s @ sep @ join_strs sep (t # ss)"

definition bracketed :: "string list \<Rightarrow> string" where
  "bracketed ss = ''['' @ join_strs '','' ss @ '']''"

fun projection_display :: "projection \<Rightarrow> string" where
  "projection_display ProjAll = ''*''"
| "projection_display (ProjColumns columns) = bracketed columns"

definition sort_key_display :: "sort_key \<Rightarrow> string" where
  "sort_key_display order_by =
     bracketed (map (\<lambda>e. sort_column e @ (if descending e then '' DESC'' else '' ASC'')) order_by)"

definition aggregate_exprs_display :: "aggregate_expr list \<Rightarrow> string" where
  "aggregate_exprs_display aggregates = bracketed (map show_aggregate_expr aggregates)"

definition limit_display :: "nat option \<Rightarrow> string" where
  "limit_display limit = (case limit of Some n \<Rightarrow> show_nat n | None \<Rightarrow> ''none'')"

fun show_join_type :: "join_type \<Rightarrow> string" where
  "show_join_type JoinInner = ''Inner''"
| "show_join_type JoinLeft = ''Left''"
| "show_join_type JoinRight = ''Right''"
| "show_join_type JoinFull = ''Full''"
| "show_join_type JoinSemi = ''Semi''"

fun show_build_side :: "join_build_side \<Rightarrow> string" where
  "show_build_side BuildLeft = ''Left''"
| "show_build_side BuildRight = ''Right''"

fun render_text_into :: "nat \<Rightarrow> 'b plan_node \<Rightarrow> string list" where
  "render_text_into indent (PlanNode op attrs cs p ord ex) =
     (concat (replicate indent ''  '') @ operator_name op @
        concat (map (\<lambda>(key, value). '' '' @ key @ ''='' @ value) attrs)) #
     concat (map (render_text_into (indent + 1)) cs)"

definition render_text :: "'b plan_node \<Rightarrow> string" where
  "render_text node = join_strs ''\<newline>'' (render_text_into 0 node)"

fun estimated_logical_bytes :: "logical_plan \<Rightarrow> nat" where
  "estimated_logical_bytes (TableScan scan) =
     max (ts_compressed_bytes (src_statistics (scan_source scan)))
       (u64_sat (ts_rows (src_statistics (scan_source scan)) * 8))"
| "estimated_logical_bytes (LProjection input _) = estimated_logical_bytes input"
| "estimated_logical_bytes (LFilter input _) = estimated_logical_bytes input"
| "estimated_logical_bytes (LSort input _ _) = estimated_logical_bytes input"
| "estimated_logical_bytes (LLimit input _) = estimated_logical_bytes input"
| "estimated_logical_bytes (LDistinct input) = estimated_logical_bytes input"
| "estimated_logical_bytes (LCopy input _ _) = estimated_logical_bytes input"
| "estimated_logical_bytes (LAggregate input _ _) = estimated_logical_bytes input"
| "estimated_logical_bytes (LJoin left right _ _ _ _ _ _) =
     u64_sat (estimated_logical_bytes left + estimated_logical_bytes right)"

subsection \<open>Lemmas\<close>

text \<open>The named operators and their names.\<close>

lemma from_name_simps [simp]:
  "from_name ''ScanExec'' = OpScan" "from_name ''MemoryExec'' = OpMemory" "from_name ''IpcExec'' = OpIpc"
  "from_name ''FilterExec'' = OpFilter" "from_name ''ProjectionExec'' = OpProjection"
  "from_name ''AggregateExec'' = OpAggregate" "from_name ''LocalFoldExec'' = OpLocalFold"
  "from_name ''FinalMergeExec'' = OpFinalMerge" "from_name ''DirectPrimitiveFoldExec'' = OpDirectPrimitiveFold"
  "from_name ''JoinExec'' = OpHashJoin" "from_name ''PartitionedHashJoinExec'' = OpPartitionedHashJoin"
  "from_name ''SortMergeJoinExec'' = OpSortMergeJoin" "from_name ''SortExec'' = OpSort"
  "from_name ''LimitExec'' = OpLimit" "from_name ''DistinctExec'' = OpDistinct"
  "from_name ''CsvSinkExec'' = OpSink SinkCsv" "from_name ''MemorySinkExec'' = OpSink SinkMemory"
  "from_name ''EmptyExec'' = OpEmpty"
  by (simp_all add: from_name.simps)

lemma from_name_operator_name:
  "(\<forall>k. op \<noteq> OpExchange k) \<Longrightarrow> (\<forall>n. op = OpOther n \<longrightarrow> from_name n = OpOther n) \<Longrightarrow>
     from_name (operator_name op) = op"
  by (cases op rule: operator_name.cases) simp_all

lemma node_of_builders [simp]:
  "node_operator (with_attr k v n) = node_operator n" "node_children (with_attr k v n) = node_children n"
  "partitioning_ref (with_attr k v n) = partitioning_ref n"
  "execution_config (with_attr k v n) = execution_config n"
  "attributes (with_attr k v n) = attributes n @ [(k, v)]"
  "node_operator (with_child c n) = node_operator n" "node_children (with_child c n) = node_children n @ [c]"
  "partitioning_ref (with_child c n) = partitioning_ref n"
  "execution_config (with_child c n) = execution_config n"
  "attributes (with_child c n) = attributes n"
  "node_operator (with_partitioning p n) = node_operator n"
  "node_children (with_partitioning p n) = node_children n"
  "partitioning_ref (with_partitioning p n) = p"
  "execution_config (with_partitioning p n) = execution_config n"
  "attributes (with_partitioning p n) = attributes n"
  "node_operator (with_ordering r n) = node_operator n" "node_children (with_ordering r n) = node_children n"
  "partitioning_ref (with_ordering r n) = partitioning_ref n"
  "execution_config (with_ordering r n) = execution_config n"
  "attributes (with_ordering r n) = attributes n"
  "node_operator (with_execution e n) = node_operator n" "node_children (with_execution e n) = node_children n"
  "partitioning_ref (with_execution e n) = partitioning_ref n"
  "execution_config (with_execution e n) = Some e"
  "attributes (with_execution e n) = attributes n"
  by (cases n; simp)+

lemma node_of_new [simp]:
  "node_operator (node_new name) = from_name name" "node_children (node_new name) = []"
  "partitioning_ref (node_new name) = PartUnknown" "execution_config (node_new name) = None"
  "attributes (node_new name) = []"
  "node_operator (node_exchange kind) = OpExchange kind" "node_children (node_exchange kind) = []"
  "partitioning_ref (node_exchange kind) = PartUnknown" "execution_config (node_exchange kind) = None"
  "attributes (node_exchange kind) = []"
  by (simp_all add: node_new_def node_exchange_def)

text \<open>Every statistic of a table is the sum over its fragments, capped at the largest \<open>u64\<close>.\<close>

lemma u64_sat_add: "u64_sat (u64_sat a + b) = u64_sat (a + b)"
  by (simp add: u64_sat_def min_def)

lemma u64_sat_le_max: "u64_sat a \<le> u64_max"
  by (simp add: u64_sat_def)

lemma fold_add_fragment_statistics:
  "ts_rows t \<le> u64_max \<Longrightarrow>
     ts_rows (fold add_fragment_statistics fs t) = u64_sat (ts_rows t + sum_list (map fs_rows fs))"
  "ts_compressed_bytes t \<le> u64_max \<Longrightarrow>
     ts_compressed_bytes (fold add_fragment_statistics fs t) =
       u64_sat (ts_compressed_bytes t + sum_list (map fs_compressed_bytes fs))"
  by (induction fs arbitrary: t)
    (simp_all add: add_fragment_statistics_def u64_sat_add add.assoc u64_sat_le_max, simp_all add: u64_sat_def)

end
