(* ===== verification/Physical_Planner.thy ===== *)
theory Physical_Planner
  imports Plan_Types "HOL-Library.Monad_Syntax"
begin

text \<open>
  \<open>PhysicalPlanner\<close> of \<open>plan.rs\<close>: the translation of a logical plan into a tree of physical operators,
  the choice of the join strategy, and the exchanges that bring an input into the distribution its
  consumer needs.

  The code ends in \<open>unreachable!\<close> when a join is planned with an unresolved strategy; such a panic is
  \<open>None\<close>, and it is shown that planning never reaches it.
\<close>

subsection \<open>Options\<close>

datatype physical_join_strategy =
    StrategyAuto nat
  | StrategyHash join_build_side
  | StrategyPartitionedHash nat nat
  | StrategySortMerge

record planning_options =
  default_join_strategy :: physical_join_strategy
  insert_exchanges :: bool
  default_shuffle_partitions :: nat

definition planning_options_default :: planning_options where
  "planning_options_default =
     \<lparr>default_join_strategy = StrategyAuto (128 * 1024 * 1024), insert_exchanges = False,
      default_shuffle_partitions = 1\<rparr>"

subsection \<open>Exchanges\<close>

definition ensure_single :: "planning_options \<Rightarrow> 'b plan_node \<Rightarrow> 'b plan_node" where
  "ensure_single opts input =
     (if \<not> insert_exchanges opts \<or> partitioning_ref input = PartSingle then input
      else with_partitioning PartSingle
             (with_child input (with_attr ''required_distribution'' ''single'' (node_exchange Gather))))"

definition ensure_hash :: "planning_options \<Rightarrow> 'b plan_node \<Rightarrow> string list \<Rightarrow> nat \<Rightarrow> 'b plan_node" where
  "ensure_hash opts input keys partitions =
     (if \<not> insert_exchanges opts then input
      else if partitioning_ref input = PartHash keys partitions then input
      else with_partitioning (PartHash keys partitions)
             (with_child input
               (with_attr ''required_distribution'' (''hash'' @ bracketed keys)
                 (node_exchange (HashRepartition keys partitions)))))"

subsection \<open>Scans\<close>

definition logical_scan_projection :: "logical_scan \<Rightarrow> projection" where
  "logical_scan_projection scan =
     (case scan_projection scan of
        ProjAll \<Rightarrow> ProjAll
      | ProjColumns output_columns \<Rightarrow>
          (let columns = (case scan_filter scan of
                 Some f \<Rightarrow> fold push_new (referenced_columns f) output_columns
               | None \<Rightarrow> output_columns);
               columns = (if scan_distinct scan then columns
                 else case scan_order_by scan of
                        Some order_by \<Rightarrow> fold push_new (map sort_column order_by) columns
                      | None \<Rightarrow> columns)
           in ProjColumns columns))"

definition project_scan_output :: "'b plan_node \<Rightarrow> projection \<Rightarrow> 'b plan_node" where
  "project_scan_output input projection =
     with_partitioning (partitioning_ref input)
       (with_child input
         (with_execution (CfgProjection projection)
           (with_attr ''projection'' (projection_display projection) (node_new ''ProjectionExec''))))"

definition filter_exec :: "'b plan_node \<Rightarrow> expr \<Rightarrow> 'b plan_node" where
  "filter_exec input f =
     with_partitioning (partitioning_ref input)
       (with_child input
         (with_execution (CfgFilter f) (with_attr ''predicate'' ''logical'' (node_new ''FilterExec''))))"

definition sort_exec :: "'b plan_node \<Rightarrow> sort_key \<Rightarrow> nat option \<Rightarrow> 'b plan_node" where
  "sort_exec input order_by limit =
     with_ordering (map sort_column order_by)
       (with_child input
         (with_execution (CfgSort order_by limit)
           (with_attr ''limit'' (limit_display limit)
             (with_attr ''order_by'' (sort_key_display order_by) (node_new ''SortExec'')))))"

definition limit_exec :: "planning_options \<Rightarrow> 'b plan_node \<Rightarrow> nat \<Rightarrow> 'b plan_node" where
  "limit_exec opts input limit =
     with_partitioning PartSingle
       (with_child (ensure_single opts input)
         (with_execution (CfgLimit limit) (with_attr ''limit'' (show_nat limit) (node_new ''LimitExec''))))"

definition distinct_exec :: "planning_options \<Rightarrow> 'b plan_node \<Rightarrow> 'b plan_node" where
  "distinct_exec opts input =
     with_partitioning PartSingle
       (with_child (ensure_single opts input) (with_execution CfgDistinct (node_new ''DistinctExec'')))"

definition scan_exec :: "logical_scan \<Rightarrow> 'b plan_node" where
  "scan_exec scan =
     (let scan_proj = logical_scan_projection scan;
          predicates = predicate_set_new (scan_filter scan);
          source = scan_source scan; stats = src_statistics source
      in with_partitioning (PartFileRange (max (length (src_fragments source)) 1))
           (with_execution (CfgScan (src_fragments source) (batch_size scan) scan_proj (pushdown predicates))
             (with_attr ''pushdown_predicates'' (show_nat (length (pushdown predicates)))
               (with_attr ''projection'' (projection_display scan_proj)
                 (with_attr ''batch_size'' (show_nat (batch_size scan))
                   (with_attr ''compressed_bytes'' (show_nat (ts_compressed_bytes stats))
                     (with_attr ''row_groups'' (show_nat (ts_row_groups stats))
                       (with_attr ''rows'' (show_nat (ts_rows stats))
                         (with_attr ''fragments'' (show_nat (length (src_fragments source)))
                           (with_attr ''format'' (show_storage_format (src_format source))
                             (node_new ''ScanExec'')))))))))))"

definition plan_scan :: "planning_options \<Rightarrow> logical_scan \<Rightarrow> 'b plan_node" where
  "plan_scan opts scan =
     (let current = scan_exec scan;
          current = (case residual (predicate_set_new (scan_filter scan)) of
            Some f \<Rightarrow> filter_exec current f
          | None \<Rightarrow> current);
          needs_output_projection = (logical_scan_projection scan \<noteq> scan_projection scan);
          current = (if scan_distinct scan
            then distinct_exec opts
                   (if needs_output_projection then project_scan_output current (scan_projection scan) else current)
            else current);
          current = (case scan_order_by scan of
            Some order_by \<Rightarrow> sort_exec (ensure_single opts current) order_by (scan_limit scan)
          | None \<Rightarrow> current);
          current = (if \<not> scan_distinct scan \<and> needs_output_projection
            then project_scan_output current (scan_projection scan) else current)
      in case scan_limit scan of
           Some limit \<Rightarrow> limit_exec opts current limit
         | None \<Rightarrow> current)"

subsection \<open>Joins\<close>

definition choose_join_strategy :: "planning_options \<Rightarrow> logical_plan \<Rightarrow> logical_plan \<Rightarrow> join_type \<Rightarrow> physical_join_strategy" where
  "choose_join_strategy opts left right join_type =
     (case default_join_strategy opts of
        StrategyAuto memory_limit \<Rightarrow>
          (let memory_limit_bytes = max memory_limit 1;
               left_bytes = estimated_logical_bytes left;
               right_bytes = estimated_logical_bytes right;
               build_side = (if join_type = JoinSemi then BuildRight
                 else if left_bytes \<le> right_bytes then BuildLeft else BuildRight);
               build_bytes = (case build_side of BuildLeft \<Rightarrow> left_bytes | BuildRight \<Rightarrow> right_bytes)
           in if join_type \<in> {JoinInner, JoinFull, JoinSemi} \<and> build_bytes > memory_limit_bytes
              then StrategyPartitionedHash (partition_count_bytes build_bytes memory_limit_bytes) memory_limit_bytes
              else StrategyHash build_side)
      | strategy \<Rightarrow> strategy)"

definition first_or_default :: "string list \<Rightarrow> string" where
  "first_or_default keys = (case keys of [] \<Rightarrow> [] | k # _ \<Rightarrow> k)"

definition join_attrs ::
    "join_type \<Rightarrow> string list \<Rightarrow> string list \<Rightarrow> projection \<Rightarrow> 'b plan_node \<Rightarrow> 'b plan_node" where
  "join_attrs join_type left_keys right_keys output_projection node =
     with_attr ''output_projection'' (projection_display output_projection)
       (with_attr ''right_keys'' (bracketed right_keys)
         (with_attr ''left_keys'' (bracketed left_keys)
           (with_attr ''type'' (show_join_type join_type) node)))"

definition plan_join ::
    "planning_options \<Rightarrow> physical_join_strategy \<Rightarrow> join_type \<Rightarrow> string list \<Rightarrow> string list \<Rightarrow> string \<Rightarrow> string \<Rightarrow>
       projection \<Rightarrow> 'b plan_node \<Rightarrow> 'b plan_node \<Rightarrow> 'b plan_node option" where
  "plan_join opts strategy join_type left_keys right_keys left_prefix right_prefix output_projection left right =
     (case strategy of
        StrategyAuto _ \<Rightarrow> None
      | StrategyHash build_side \<Rightarrow>
          Some (with_child right (with_child left
            (join_attrs join_type left_keys right_keys output_projection
              (with_execution
                 (CfgHashJoin left_keys right_keys left_prefix right_prefix build_side join_type output_projection)
                 (with_attr ''build'' (show_build_side build_side)
                   (with_attr ''strategy'' ''hash'' (node_new ''JoinExec'')))))))
      | StrategyPartitionedHash partitions memory_limit_bytes \<Rightarrow>
          Some (with_child (ensure_hash opts right right_keys partitions)
            (with_child (ensure_hash opts left left_keys partitions)
              (with_partitioning (PartHash left_keys partitions)
                (join_attrs join_type left_keys right_keys output_projection
                  (with_execution
                     (CfgPartitionedHashJoin left_keys right_keys left_prefix right_prefix partitions
                       memory_limit_bytes join_type output_projection)
                     (with_attr ''memory_limit_bytes'' (show_nat memory_limit_bytes)
                       (with_attr ''partitions'' (show_nat partitions)
                         (with_attr ''strategy'' ''partitioned_hash''
                           (node_new ''PartitionedHashJoinExec'')))))))))
      | StrategySortMerge \<Rightarrow>
          Some (with_child right (with_child left
            (join_attrs join_type left_keys right_keys output_projection
              (with_execution
                 (CfgSortMergeJoin (first_or_default left_keys) (first_or_default right_keys) left_prefix right_prefix)
                 (with_attr ''strategy'' ''sort_merge'' (node_new ''SortMergeJoinExec'')))))))"

subsection \<open>The planner\<close>

definition plan_aggregate_input :: "planning_options \<Rightarrow> 'b plan_node \<Rightarrow> string list \<Rightarrow> 'b plan_node" where
  "plan_aggregate_input opts input group_by =
     (if group_by = [] then ensure_single opts input
      else ensure_hash opts input group_by (default_shuffle_partitions opts))"

definition fold_attrs :: "string list \<Rightarrow> aggregate_expr list \<Rightarrow> 'b plan_node \<Rightarrow> 'b plan_node" where
  "fold_attrs group_by aggregates node =
     with_attr ''aggregates'' (aggregate_exprs_display aggregates)
       (with_attr ''group_by'' (bracketed group_by)
         (with_attr ''mode'' (if group_by = [] then ''global'' else ''grouped'') node))"

definition aggregate_exec :: "'b plan_node \<Rightarrow> aggregate_expr list \<Rightarrow> string list \<Rightarrow> 'b plan_node" where
  "aggregate_exec input aggregates group_by =
     (let local_fold =
            with_child input (with_execution (CfgLocalFold group_by aggregates)
              (fold_attrs group_by aggregates (node_new ''LocalFoldExec'')))
      in with_child local_fold (with_execution (CfgFinalMerge group_by aggregates)
           (fold_attrs group_by aggregates (node_new ''FinalMergeExec''))))"

primrec plan_node :: "planning_options \<Rightarrow> logical_plan \<Rightarrow> 'b plan_node option" where
  "plan_node opts (TableScan scan) = Some (plan_scan opts scan)"
| "plan_node opts (LProjection input projection) = do {
     input \<leftarrow> plan_node opts input;
     Some (project_scan_output input projection)
   }"
| "plan_node opts (LFilter input f) = do {
     input \<leftarrow> plan_node opts input;
     Some (filter_exec input f)
   }"
| "plan_node opts (LAggregate input aggregates group_by) = do {
     input \<leftarrow> plan_node opts input;
     Some (aggregate_exec (plan_aggregate_input opts input group_by) aggregates group_by)
   }"
| "plan_node opts (LJoin left right join_type left_keys right_keys left_prefix right_prefix output_projection) = do {
     l \<leftarrow> plan_node opts left;
     r \<leftarrow> plan_node opts right;
     plan_join opts (choose_join_strategy opts left right join_type) join_type left_keys right_keys
       left_prefix right_prefix output_projection l r
   }"
| "plan_node opts (LSort input order_by limit) = do {
     input \<leftarrow> plan_node opts input;
     Some (sort_exec (ensure_single opts input) order_by limit)
   }"
| "plan_node opts (LLimit input limit) = do {
     input \<leftarrow> plan_node opts input;
     Some (limit_exec opts input limit)
   }"
| "plan_node opts (LDistinct input) = do {
     input \<leftarrow> plan_node opts input;
     Some (distinct_exec opts input)
   }"
| "plan_node opts (LCopy input format target) = do {
     input \<leftarrow> plan_node opts input;
     Some (with_child input (with_attr ''target'' target
       (node_new (case format of CopyCsv \<Rightarrow> ''CsvSinkExec''))))
   }"

subsection \<open>Lemmas\<close>

lemma choose_join_strategy_resolved: "choose_join_strategy opts left right join_type \<noteq> StrategyAuto m"
  by (auto simp: choose_join_strategy_def Let_def split: physical_join_strategy.splits)

lemma plan_join_resolved:
  "(\<And>m. strategy \<noteq> StrategyAuto m) \<Longrightarrow> \<exists>n. plan_join opts strategy jt lk rk lp rp proj left right = Some n"
  by (cases strategy) (auto simp: plan_join_def)

lemma plan_node_total: "\<exists>n :: 'b plan_node. plan_node opts plan = Some n"
proof (induction plan)
  case (LJoin left right jt lk rk lp rp proj)
  then obtain l r :: "'b plan_node" where "plan_node opts left = Some l" "plan_node opts right = Some r" by blast
  then show ?case
    using plan_join_resolved [of "choose_join_strategy opts left right jt" opts jt lk rk lp rp proj l r]
      choose_join_strategy_resolved by simp
qed auto

subsection \<open>Distribution\<close>

text \<open>
  What an operator needs of its inputs.  Sources have none.  A filter, a projection, a sink and an exchange
  work on any partition of their input.  A sort, a limit, a distinct and a global fold see all rows in one
  partition, a grouped fold sees its input partitioned by the grouping columns, and a final merge sits
  directly on its fold.  A join finds equal keys in the same partition: both inputs are single, or both are
  partitioned by their keys into equally many partitions; the partitioned hash join needs the second.
\<close>

definition co_located :: "string list \<Rightarrow> string list \<Rightarrow> partitioning list \<Rightarrow> bool" where
  "co_located left_keys right_keys inputs \<longleftrightarrow>
     inputs = [PartSingle, PartSingle] \<or> (\<exists>n. inputs = [PartHash left_keys n, PartHash right_keys n])"

definition distribution_met :: "'b plan_node \<Rightarrow> bool" where
  "distribution_met node \<longleftrightarrow>
     (let inputs = map partitioning_ref (node_children node)
      in case execution_config node of
           None \<Rightarrow> length inputs = 1
         | Some (CfgScan _ _ _ _) \<Rightarrow> inputs = []
         | Some (CfgMemory _) \<Rightarrow> inputs = []
         | Some (CfgIpc _) \<Rightarrow> inputs = []
         | Some (CfgDirectPrimitiveFold _ _ _ _ _) \<Rightarrow> inputs = []
         | Some (CfgFilter _) \<Rightarrow> length inputs = 1
         | Some (CfgProjection _) \<Rightarrow> length inputs = 1
         | Some (CfgSort _ _) \<Rightarrow> inputs = [PartSingle]
         | Some (CfgLimit _) \<Rightarrow> inputs = [PartSingle]
         | Some CfgDistinct \<Rightarrow> inputs = [PartSingle]
         | Some (CfgLocalFold keys _) \<Rightarrow>
             (if keys = [] then inputs = [PartSingle] else \<exists>n. inputs = [PartHash keys n])
         | Some (CfgFinalMerge keys aggregates) \<Rightarrow>
             map execution_config (node_children node) = [Some (CfgLocalFold keys aggregates)]
         | Some (CfgHashJoin lk rk _ _ _ _ _) \<Rightarrow> co_located lk rk inputs
         | Some (CfgPartitionedHashJoin lk rk _ _ n _ _ _) \<Rightarrow> inputs = [PartHash lk n, PartHash rk n]
         | Some (CfgSortMergeJoin lk rk _ _) \<Rightarrow> co_located [lk] [rk] inputs)"

text \<open>An exchange has one input and declares the partitioning it produces.\<close>

definition exchange_ok :: "'b plan_node \<Rightarrow> bool" where
  "exchange_ok node \<longleftrightarrow>
     (case node_operator node of
        OpExchange (HashRepartition keys n) \<Rightarrow> length (node_children node) = 1 \<and> partitioning_ref node = PartHash keys n
      | OpExchange Gather \<Rightarrow> length (node_children node) = 1 \<and> partitioning_ref node = PartSingle
      | OpExchange Broadcast \<Rightarrow> False
      | _ \<Rightarrow> True)"

text \<open>The joins that are not partitioned, and the options under which every join is.\<close>

definition plain_join :: "'b plan_node \<Rightarrow> bool" where
  "plain_join node \<longleftrightarrow>
     (case execution_config node of
        Some (CfgHashJoin _ _ _ _ _ _ _) \<Rightarrow> True
      | Some (CfgSortMergeJoin _ _ _ _) \<Rightarrow> True
      | _ \<Rightarrow> False)"

definition always_partitioned :: "planning_options \<Rightarrow> bool" where
  "always_partitioned opts \<longleftrightarrow> (case default_join_strategy opts of StrategyPartitionedHash _ _ \<Rightarrow> True | _ \<Rightarrow> False)"

primrec every_node :: "('b plan_node \<Rightarrow> bool) \<Rightarrow> 'b plan_node \<Rightarrow> bool" where
  "every_node P (PlanNode op attrs cs p ord ex) \<longleftrightarrow>
     P (PlanNode op attrs cs p ord ex) \<and> list_all id (map (every_node P) cs)"

lemma every_node_iff: "every_node P n \<longleftrightarrow> P n \<and> (\<forall>c \<in> set (node_children n). every_node P c)"
  by (cases n) (simp add: list_all_iff)

lemma every_node_mono: "every_node P n \<Longrightarrow> (\<And>m. P m \<Longrightarrow> Q m) \<Longrightarrow> every_node Q n"
  by (induction n) (auto simp: list_all_iff)

definition operator_ok :: "planning_options \<Rightarrow> 'b plan_node \<Rightarrow> bool" where
  "operator_ok opts m \<longleftrightarrow> exchange_ok m \<and> (distribution_met m \<or> plain_join m \<and> \<not> always_partitioned opts)"

abbreviation well_distributed :: "planning_options \<Rightarrow> 'b plan_node \<Rightarrow> bool" where
  "well_distributed opts \<equiv> every_node (operator_ok opts)"

lemmas operator_ok_defs = operator_ok_def distribution_met_def exchange_ok_def plain_join_def

lemma well_distributed_ensure_single:
  assumes "well_distributed opts n" "insert_exchanges opts"
  shows "well_distributed opts (ensure_single opts n)" "partitioning_ref (ensure_single opts n) = PartSingle"
  using assms by (auto simp: ensure_single_def operator_ok_defs every_node_iff [of _ "with_partitioning _ _"])

lemma well_distributed_ensure_hash:
  assumes "well_distributed opts n" "insert_exchanges opts"
  shows "well_distributed opts (ensure_hash opts n keys k)"
    "partitioning_ref (ensure_hash opts n keys k) = PartHash keys k"
  using assms by (auto simp: ensure_hash_def operator_ok_defs every_node_iff [of _ "with_partitioning _ _"])

lemmas well_distributed_ensure = well_distributed_ensure_single well_distributed_ensure_hash

lemma well_distributed_unary [simp]:
  "well_distributed opts (project_scan_output n proj) \<longleftrightarrow> well_distributed opts n"
  "well_distributed opts (filter_exec n f) \<longleftrightarrow> well_distributed opts n"
  "well_distributed opts (scan_exec scan)"
  "well_distributed opts (sort_exec n key lim) \<longleftrightarrow> well_distributed opts n \<and> partitioning_ref n = PartSingle"
  by (subst every_node_iff, simp add: project_scan_output_def filter_exec_def sort_exec_def scan_exec_def
      operator_ok_defs Let_def conj_commute)+

lemma well_distributed_single:
  assumes "well_distributed opts n" "insert_exchanges opts"
  shows "well_distributed opts (sort_exec (ensure_single opts n) key lim)"
    "well_distributed opts (limit_exec opts n k)" "well_distributed opts (distinct_exec opts n)"
  using well_distributed_ensure_single [OF assms]
  by (simp, (subst every_node_iff, simp add: limit_exec_def distinct_exec_def operator_ok_defs)+)

lemma well_distributed_aggregate:
  assumes "well_distributed opts n" "insert_exchanges opts"
  shows "well_distributed opts (aggregate_exec (plan_aggregate_input opts n keys) aggs keys)"
proof -
  define i where "i = plan_aggregate_input opts n keys"
  have i: "well_distributed opts i"
    "if keys = [] then partitioning_ref i = PartSingle else \<exists>k. partitioning_ref i = PartHash keys k"
    using well_distributed_ensure [OF assms] by (auto simp: i_def plan_aggregate_input_def)
  have "well_distributed opts (with_child i (with_execution (CfgLocalFold keys aggs)
      (fold_attrs keys aggs (node_new ''LocalFoldExec''))))"
    by (subst every_node_iff) (use i in \<open>simp add: fold_attrs_def operator_ok_defs split: if_splits\<close>)
  then show ?thesis
    by (subst every_node_iff) (simp add: i_def [symmetric] aggregate_exec_def fold_attrs_def operator_ok_defs)
qed

lemma well_distributed_scan: "insert_exchanges opts \<Longrightarrow> well_distributed opts (plan_scan opts scan)"
  by (auto simp: plan_scan_def Let_def simp del: well_distributed_unary(4)
      intro!: well_distributed_single split: option.splits)

lemma choose_always_partitioned:
  "always_partitioned opts \<Longrightarrow> \<exists>p m. choose_join_strategy opts left right jt = StrategyPartitionedHash p m"
  by (auto simp: always_partitioned_def choose_join_strategy_def split: physical_join_strategy.splits)

lemma well_distributed_join:
  assumes "well_distributed opts l" "well_distributed opts r" "insert_exchanges opts"
    "always_partitioned opts \<Longrightarrow> \<exists>p m. strategy = StrategyPartitionedHash p m"
    "plan_join opts strategy jt lk rk lp rp proj l r = Some n"
  shows "well_distributed opts n"
proof -
  note e = well_distributed_ensure_hash [OF assms(1,3)] well_distributed_ensure_hash [OF assms(2,3)]
  show ?thesis
  proof (cases strategy)
    case (StrategyAuto m)
    with assms(5) show ?thesis by (simp add: plan_join_def)
  qed (subst every_node_iff, use assms(4,5) in \<open>auto simp: plan_join_def join_attrs_def operator_ok_defs
      assms(1,2) e\<close>)+
qed

lemma well_distributed_plan_node:
  "insert_exchanges opts \<Longrightarrow> plan_node opts plan = Some n \<Longrightarrow> well_distributed opts n"
proof (induction plan arbitrary: n)
  case (TableScan scan)
  then show ?case by (auto intro: well_distributed_scan)
next
  case (LJoin left right jt lk rk lp rp proj)
  then show ?case by (auto simp: bind_eq_Some_conv intro: well_distributed_join choose_always_partitioned)
next
  case (LCopy input fmt target)
  then obtain i where "well_distributed opts i"
    "n = with_child i (with_attr ''target'' target (node_new (case fmt of CopyCsv \<Rightarrow> ''CsvSinkExec'')))"
    by (auto simp: bind_eq_Some_conv)
  then show ?case
    by (subst every_node_iff) (simp add: operator_ok_defs split: copy_format.splits)
qed (auto simp: bind_eq_Some_conv simp del: well_distributed_unary(4)
    intro!: well_distributed_single well_distributed_aggregate)

text \<open>Without exchanges no operator of the plan is one.\<close>

primrec exchange_free :: "'b plan_node \<Rightarrow> bool" where
  "exchange_free (PlanNode op attrs cs p ord ex) \<longleftrightarrow> (\<forall>k. op \<noteq> OpExchange k) \<and> list_all id (map exchange_free cs)"

lemma exchange_free_builders [simp]:
  "exchange_free (with_attr k v n) \<longleftrightarrow> exchange_free n"
  "exchange_free (with_child c n) \<longleftrightarrow> exchange_free n \<and> exchange_free c"
  "exchange_free (with_partitioning p n) \<longleftrightarrow> exchange_free n"
  "exchange_free (with_ordering r n) \<longleftrightarrow> exchange_free n"
  "exchange_free (with_execution e n) \<longleftrightarrow> exchange_free n"
  "exchange_free (node_new name :: 'b plan_node) \<longleftrightarrow> (\<forall>k. from_name name \<noteq> OpExchange k)"
  by ((cases n; auto simp: list_all_iff); fail)+ (simp add: node_new_def)

lemma exchange_free_plan_node:
  "\<not> insert_exchanges opts \<Longrightarrow> plan_node opts plan = Some n \<Longrightarrow> exchange_free n"
proof (induction plan arbitrary: n)
  case (TableScan scan)
  then show ?case
    by (auto simp: plan_scan_def Let_def scan_exec_def filter_exec_def distinct_exec_def project_scan_output_def
        sort_exec_def limit_exec_def ensure_single_def split: option.splits)
next
  case (LJoin left right jt lk rk lp rp proj)
  then show ?case
    by (cases "choose_join_strategy opts left right jt")
      (auto simp: bind_eq_Some_conv plan_join_def join_attrs_def ensure_hash_def)
qed (auto simp: bind_eq_Some_conv project_scan_output_def filter_exec_def sort_exec_def limit_exec_def
    distinct_exec_def aggregate_exec_def fold_attrs_def plan_aggregate_input_def ensure_single_def ensure_hash_def
    split: copy_format.splits)

subsection \<open>Columns of a scan\<close>

lemma set_fold_push_new: "set (fold push_new cs acc) = set acc \<union> set cs"
  by (induction cs arbitrary: acc) (auto simp: set_push_new)

lemma distinct_fold_push_new: "distinct acc \<Longrightarrow> distinct (fold push_new cs acc)"
  by (induction cs arbitrary: acc) (auto simp: distinct_push_new)

lemma prefix_fold_push_new: "\<exists>rest. fold push_new cs acc = acc @ rest"
proof (induction cs arbitrary: acc)
  case (Cons c cs)
  obtain r where "fold push_new cs (push_new c acc) = push_new c acc @ r" using Cons.IH by blast
  moreover have "\<exists>r'. push_new c acc = acc @ r'" by (simp add: push_new_def)
  ultimately show ?case by auto
qed simp

text \<open>The columns the operators above the scan use: the output, the filter and the sort key.\<close>

definition scan_needed_columns :: "logical_scan \<Rightarrow> string list \<Rightarrow> string set" where
  "scan_needed_columns scan output =
     set output \<union> (case scan_filter scan of Some f \<Rightarrow> expr_columns f | None \<Rightarrow> {}) \<union>
     (case scan_order_by scan of
        Some key \<Rightarrow> if scan_distinct scan then {} else sort_column ` set key | None \<Rightarrow> {})"

lemma logical_scan_projection_columns:
  "scan_projection scan = ProjColumns output \<Longrightarrow>
     \<exists>cs rest. logical_scan_projection scan = ProjColumns cs \<and> cs = output @ rest \<and>
       set cs = scan_needed_columns scan output \<and> (distinct output \<longrightarrow> distinct cs)"
  using prefix_fold_push_new
  by (auto simp: logical_scan_projection_def scan_needed_columns_def Let_def set_fold_push_new set_referenced_columns
      distinct_fold_push_new split: option.splits) (metis append.assoc prefix_fold_push_new)+

subsection \<open>Properties\<close>

text \<open>
  C18: with exchanges enabled the planner returns a plan for every logical plan (it never reaches its
  \<open>unreachable!\<close>), in which every exchange produces the partitioning it declares and every operator other than
  a plain hash or sort-merge join finds its inputs in the distribution it needs: sorts, limits, distincts and
  global folds one partition, grouped folds their grouping columns, partitioned hash joins their keys on
  both sides in equally many partitions.  The plain joins are the only exception, as they get no exchange;
  under the partitioned hash strategy there are none of them, and every operator is met.
\<close>

theorem planned_inputs_meet_distributions:
  assumes "insert_exchanges opts"
  shows "\<exists>n :: 'b plan_node. plan_node opts plan = Some n \<and>
    every_node (\<lambda>m. exchange_ok m \<and> (distribution_met m \<or> plain_join m)) n \<and>
    (always_partitioned opts \<longrightarrow> every_node distribution_met n)"
proof -
  obtain n :: "'b plan_node" where n: "plan_node opts plan = Some n" using plan_node_total by blast
  have "every_node (operator_ok opts) n" by (rule well_distributed_plan_node [OF assms n])
  then have "every_node (\<lambda>m. exchange_ok m \<and> (distribution_met m \<or> plain_join m)) n"
    "always_partitioned opts \<Longrightarrow> every_node distribution_met n"
    by (auto elim!: every_node_mono simp: operator_ok_def)
  with n show ?thesis by blast
qed

theorem planned_inputs_meet_distributions_witness:
  "\<exists>n :: nat plan_node. plan_node \<lparr>default_join_strategy = StrategyPartitionedHash 8 1024, insert_exchanges = True,
     default_shuffle_partitions = 4\<rparr>
     (LJoin (LDistinct (TableScan \<lparr>scan_source = \<lparr>src_fragments = [], src_format = FormatParquet,
        src_statistics = table_statistics_default\<rparr>, batch_size = 1024, scan_projection = ProjAll, scan_filter = None,
        scan_order_by = None, scan_limit = None, scan_distinct = False\<rparr>))
      (LAggregate (TableScan \<lparr>scan_source = \<lparr>src_fragments = [], src_format = FormatParquet,
        src_statistics = table_statistics_default\<rparr>, batch_size = 1024, scan_projection = ProjAll, scan_filter = None,
        scan_order_by = None, scan_limit = None, scan_distinct = False\<rparr>) [] [''g''])
      JoinInner [''k''] [''g''] ''a'' ''b'' ProjAll) = Some n \<and> every_node distribution_met n"
  using planned_inputs_meet_distributions [of "\<lparr>default_join_strategy = StrategyPartitionedHash 8 1024,
      insert_exchanges = True, default_shuffle_partitions = 4\<rparr>"]
  by (simp del: plan_node.simps add: always_partitioned_def) blast

text \<open>
  The exception is real.  A plain join takes its inputs as they are, so it is met exactly when they happen
  to be co-located; two scanned tables never are.
\<close>

theorem plain_join_gets_no_exchange:
  assumes "strategy = StrategyHash side" "plan_join opts strategy jt lk rk lp rp proj l r = Some n"
  shows "node_children n = [l, r] \<and>
    (distribution_met n \<longleftrightarrow> co_located lk rk [partitioning_ref l, partitioning_ref r])"
  using assms by (auto simp: plan_join_def join_attrs_def distribution_met_def)

theorem scans_are_not_co_located: "\<not> co_located lk rk [partitioning_ref (scan_exec a), partitioning_ref (scan_exec b)]"
  by (simp add: co_located_def scan_exec_def Let_def)

text \<open>
  The automatic join strategy respects the memory limit: a hash join of a type that can be partitioned
  builds a side that fits, a partitioned one has between 2 and 1024 partitions, each of which fits when 1024
  of them can.
\<close>

theorem auto_join_strategy_fits:
  assumes "default_join_strategy opts = StrategyAuto m"
    "estimated_logical_bytes left + max m 1 \<le> u64_max" "estimated_logical_bytes right + max m 1 \<le> u64_max"
  shows "case choose_join_strategy opts left right jt of
      StrategyHash side \<Rightarrow> partitionable jt \<longrightarrow>
        (case side of BuildLeft \<Rightarrow> estimated_logical_bytes left | BuildRight \<Rightarrow> estimated_logical_bytes right) \<le> max m 1
    | StrategyPartitionedHash p limit \<Rightarrow> limit = max m 1 \<and> 2 \<le> p \<and> p \<le> 1024 \<and> partitionable jt \<and>
        (let bytes = (if jt = JoinSemi then estimated_logical_bytes right
           else min (estimated_logical_bytes left) (estimated_logical_bytes right))
         in limit < bytes \<and> (bytes \<le> 1024 * limit \<longrightarrow> bytes \<le> p * limit))
    | _ \<Rightarrow> False"
proof -
  have cover: "b \<le> 1024 * max m 1 \<Longrightarrow> b \<le> partition_count_bytes b (max m 1) * max m 1"
    if "b + max m 1 \<le> u64_max" for b
    using clamped_partitions_cover [of "max m 1" b] that
    by (simp add: partition_count_bytes_def u64_sat_def Let_def mult.commute)
  have range: "2 \<le> partition_count_bytes b k" "partition_count_bytes b k \<le> 1024" for b k
    by (simp_all add: partition_count_bytes_def Let_def clamp_nat_def)
  note c = cover [OF assms(2)] cover [OF assms(3)]
  show ?thesis
    unfolding choose_join_strategy_def assms(1) Let_def partitionable_def
    using c range by (auto simp: min_def Let_def simp del: One_nat_def)
qed

theorem auto_join_strategy_fits_witness:
  "case choose_join_strategy planning_options_default
      (LDistinct (TableScan \<lparr>scan_source = \<lparr>src_fragments = [], src_format = FormatParquet,
         src_statistics = table_statistics_default\<rparr>, batch_size = 1024, scan_projection = ProjAll, scan_filter = None,
         scan_order_by = None, scan_limit = None, scan_distinct = False\<rparr>))
      (TableScan \<lparr>scan_source = \<lparr>src_fragments = [], src_format = FormatParquet,
         src_statistics = table_statistics_default\<rparr>, batch_size = 1024, scan_projection = ProjAll, scan_filter = None,
         scan_order_by = None, scan_limit = None, scan_distinct = False\<rparr>) JoinInner of
      StrategyHash side \<Rightarrow> True | _ \<Rightarrow> False"
proof -
  let ?s = "TableScan \<lparr>scan_source = \<lparr>src_fragments = [], src_format = FormatParquet,
         src_statistics = table_statistics_default\<rparr>, batch_size = 1024, scan_projection = ProjAll, scan_filter = None,
         scan_order_by = None, scan_limit = None, scan_distinct = False\<rparr>"
  have b: "estimated_logical_bytes ?s = 0" by (simp add: table_statistics_default_def u64_sat_def)
  show ?thesis
    using auto_join_strategy_fits [of planning_options_default "128 * 1024 * 1024" "LDistinct ?s" ?s JoinInner] b
    by (auto simp: planning_options_default_def Let_def split: physical_join_strategy.splits)
qed

text \<open>
  A scan with a column list reads the columns in their order, followed by the columns that only the
  filter or (without distinct) the sort key uses, and nothing else.
\<close>

theorem scan_reads_needed_columns:
  assumes "scan_projection scan = ProjColumns output" "distinct output"
  shows "\<exists>cs rest. logical_scan_projection scan = ProjColumns cs \<and> cs = output @ rest \<and> distinct cs \<and>
    set cs = set output \<union> (case scan_filter scan of Some f \<Rightarrow> expr_columns f | None \<Rightarrow> {}) \<union>
      (case scan_order_by scan of
         Some key \<Rightarrow> if scan_distinct scan then {} else sort_column ` set key | None \<Rightarrow> {})"
  using logical_scan_projection_columns [OF assms(1)] assms(2) unfolding scan_needed_columns_def by blast

theorem scan_reads_needed_columns_witness:
  "\<exists>cs rest. logical_scan_projection \<lparr>scan_source = \<lparr>src_fragments = [], src_format = FormatParquet,
      src_statistics = table_statistics_default\<rparr>, batch_size = 1024, scan_projection = ProjColumns [''a''],
      scan_filter = Some (IsNull ''b'' False),
      scan_order_by = Some [\<lparr>sort_column = ''c'', descending = True, nulls_first = False\<rparr>],
      scan_limit = None, scan_distinct = False\<rparr> = ProjColumns cs \<and> cs = [''a''] @ rest \<and> set cs = {''a'', ''b'', ''c''}"
  using scan_reads_needed_columns [of "\<lparr>scan_source = \<lparr>src_fragments = [], src_format = FormatParquet,
      src_statistics = table_statistics_default\<rparr>, batch_size = 1024, scan_projection = ProjColumns [''a''],
      scan_filter = Some (IsNull ''b'' False),
      scan_order_by = Some [\<lparr>sort_column = ''c'', descending = True, nulls_first = False\<rparr>],
      scan_limit = None, scan_distinct = False\<rparr>" "[''a'']"] by fastforce

end
