(* ===== verification/Stage_Planner.thy ===== *)
theory Stage_Planner
  imports Physical_Planner
begin

text \<open>
  \<open>StagePlanner\<close> and \<open>TaskPlanner\<close> of \<open>plan.rs\<close>: a physical plan is cut at its exchanges into stages, and
  every stage becomes one task per partition (or per scanned fragment), with the fragments and the shuffle
  partitions the task reads.  The mutable planner is threaded through as a record.
\<close>

subsection \<open>Stages\<close>

record 'b stage_plan =
  stage_id :: nat
  stage_root :: "'b plan_node"
  input_stages :: "nat list"
  stage_partitioning :: partitioning

record 'b stage_planner =
  next_stage_id :: nat
  planned_stages :: "'b stage_plan list"

definition exchange_partitioning :: "exchange_kind \<Rightarrow> partitioning" where
  "exchange_partitioning kind =
     (case kind of
        HashRepartition keys partitions \<Rightarrow> PartHash keys partitions
      | Broadcast \<Rightarrow> PartUnknown
      | Gather \<Rightarrow> PartSingle)"

definition partition_count :: "partitioning \<Rightarrow> nat" where
  "partition_count p =
     (case p of
        PartUnknown \<Rightarrow> 1
      | PartSingle \<Rightarrow> 1
      | PartHash _ partitions \<Rightarrow> partitions
      | PartRoundRobin partitions \<Rightarrow> partitions
      | PartFileRange partitions \<Rightarrow> partitions)"

definition extend_unique :: "nat list \<Rightarrow> nat list \<Rightarrow> nat list" where
  "extend_unique target source = fold push_new source target"

definition push_stage_with_partitioning ::
    "'b plan_node \<Rightarrow> nat list \<Rightarrow> partitioning \<Rightarrow> 'b stage_planner \<Rightarrow> nat \<times> 'b stage_planner" where
  "push_stage_with_partitioning root inputs p planner =
     (let i = next_stage_id planner
      in (i, planner\<lparr>next_stage_id := i + 1,
            planned_stages := planned_stages planner @
              [\<lparr>stage_id = i, stage_root = root, input_stages = inputs, stage_partitioning = p\<rparr>]\<rparr>))"

definition push_stage :: "'b plan_node \<Rightarrow> nat list \<Rightarrow> 'b stage_planner \<Rightarrow> nat \<times> 'b stage_planner" where
  "push_stage root inputs planner = push_stage_with_partitioning root inputs (partitioning_ref root) planner"

fun rewrite_exchange_inputs ::
    "'b plan_node \<Rightarrow> 'b stage_planner \<Rightarrow> ('b plan_node \<times> nat list) \<times> 'b stage_planner"
and rewrite_children ::
    "'b plan_node list \<Rightarrow> nat list \<Rightarrow> 'b stage_planner \<Rightarrow> ('b plan_node list \<times> nat list) \<times> 'b stage_planner" where
  "rewrite_exchange_inputs (PlanNode op attrs cs p ord ex) planner =
     (case op of
        OpExchange kind \<Rightarrow>
          (case cs of
             [] \<Rightarrow> ((PlanNode op attrs [] p ord ex, []), planner)
           | input # _ \<Rightarrow>
               (let ((root, inputs), planner) = rewrite_exchange_inputs input planner;
                    p = exchange_partitioning kind;
                    (i, planner) = push_stage_with_partitioning root inputs p planner
                in ((with_partitioning p (with_attr ''input_stage'' (show_nat i) (PlanNode op attrs [] p ord ex)), [i]),
                    planner)))
      | _ \<Rightarrow>
          (let ((cs, inputs), planner) = rewrite_children cs [] planner
           in ((PlanNode op attrs cs p ord ex, inputs), planner)))"
| "rewrite_children [] inputs planner = (([], inputs), planner)"
| "rewrite_children (c # cs) inputs planner =
     (let ((c, child_inputs), planner) = rewrite_exchange_inputs c planner;
          ((cs, inputs), planner) = rewrite_children cs (extend_unique inputs child_inputs) planner
      in ((c # cs, inputs), planner))"

definition split_stages :: "'b plan_node \<Rightarrow> 'b stage_plan list" where
  "split_stages root =
     (let ((root, inputs), planner) = rewrite_exchange_inputs root \<lparr>next_stage_id = 0, planned_stages = []\<rparr>
      in planned_stages (snd (push_stage root inputs planner)))"

subsection \<open>Tasks\<close>

datatype task_input = ScanFragment file_fragment | ShufflePartition nat nat

record 'b task_plan =
  task_stage_id :: nat
  task_partition :: nat
  task_root :: "'b plan_node"
  task_inputs :: "task_input list"

record 'b execution_graph =
  graph_stages :: "'b stage_plan list"
  graph_tasks :: "'b task_plan list"

fun scan_fragments :: "'b plan_node \<Rightarrow> file_fragment list" where
  "scan_fragments (PlanNode op attrs cs p ord ex) =
     (case ex of Some (CfgScan fragments _ _ _) \<Rightarrow> fragments | _ \<Rightarrow> []) @ concat (map scan_fragments cs)"

definition input_partition_count :: "'b stage_plan list \<Rightarrow> nat \<Rightarrow> nat" where
  "input_partition_count stages input_stage =
     (case find (\<lambda>s. stage_id s = input_stage) stages of
        Some s \<Rightarrow> max (partition_count (stage_partitioning s)) 1
      | None \<Rightarrow> 1)"

definition shuffle_inputs :: "'b stage_plan list \<Rightarrow> nat \<Rightarrow> nat \<Rightarrow> nat \<Rightarrow> task_input list" where
  "shuffle_inputs stages partitions part input_stage =
     (let input_partitions = input_partition_count stages input_stage
      in if partitions = 1 then map (ShufflePartition input_stage) [0 ..< input_partitions]
         else [ShufflePartition input_stage (min part (input_partitions - 1))])"

definition stage_tasks :: "'b stage_plan list \<Rightarrow> 'b stage_plan \<Rightarrow> 'b task_plan list" where
  "stage_tasks stages stage =
     (let fragments = scan_fragments (stage_root stage);
          task = (\<lambda>part inputs. \<lparr>task_stage_id = stage_id stage, task_partition = part,
            task_root = stage_root stage, task_inputs = inputs\<rparr>)
      in if fragments \<noteq> [] \<and> input_stages stage = [] then
           (if stage_partitioning stage = PartSingle then [task 0 (map ScanFragment fragments)]
            else map (\<lambda>(part, fragment). task part [ScanFragment fragment]) (enumerate 0 fragments))
         else
           (let partitions = max (partition_count (stage_partitioning stage)) 1
            in map (\<lambda>part. task part
                 (concat (map (shuffle_inputs stages partitions part) (input_stages stage)))) [0 ..< partitions]))"

definition plan_tasks :: "'b stage_plan list \<Rightarrow> 'b task_plan list" where
  "plan_tasks stages = concat (map (stage_tasks stages) stages)"

definition plan_execution_graph :: "'b plan_node \<Rightarrow> 'b execution_graph" where
  "plan_execution_graph root =
     (let stages = split_stages root in \<lparr>graph_stages = stages, graph_tasks = plan_tasks stages\<rparr>)"

subsection \<open>Plans that can be cut\<close>

text \<open>Every exchange has one input, no \<open>input_stage\<close> attribute yet, and writes at least one partition.\<close>

definition exchange_plain :: "physical_operator \<Rightarrow> (string \<times> string) list \<Rightarrow> bool" where
  "exchange_plain op attrs \<longleftrightarrow>
     (case op of
        OpExchange kind \<Rightarrow> ''input_stage'' \<notin> fst ` set attrs \<and>
          (case kind of HashRepartition _ n \<Rightarrow> 0 < n | Broadcast \<Rightarrow> False | Gather \<Rightarrow> True)
      | _ \<Rightarrow> True)"

primrec stageable :: "'b plan_node \<Rightarrow> bool" where
  "stageable (PlanNode op attrs cs p ord ex) \<longleftrightarrow>
     list_all id (map stageable cs) \<and> exchange_plain op attrs \<and> ((\<exists>k. op = OpExchange k) \<longrightarrow> length cs = 1)"

lemma stageable_builders [simp]:
  "stageable (with_partitioning p n) \<longleftrightarrow> stageable n"
  "stageable (with_ordering r n) \<longleftrightarrow> stageable n"
  "stageable (with_execution e n) \<longleftrightarrow> stageable n"
  by (cases n; simp)+

lemma stageable_operator:
  "\<forall>k. op \<noteq> OpExchange k \<Longrightarrow> stageable (PlanNode op attrs cs p ord ex) \<longleftrightarrow> list_all stageable cs"
  by (cases op) (simp_all add: exchange_plain_def list_all_iff)

lemma stageable_with:
  "\<forall>k. node_operator n \<noteq> OpExchange k \<Longrightarrow> stageable (with_attr key v n) \<longleftrightarrow> stageable n"
  "\<forall>k. node_operator n \<noteq> OpExchange k \<Longrightarrow> stageable (with_child c n) \<longleftrightarrow> stageable n \<and> stageable c"
  "\<forall>k. from_name name \<noteq> OpExchange k \<Longrightarrow> stageable (node_new name)"
    apply (cases n; simp add: stageable_operator del: stageable.simps)
   apply (cases n; simp add: stageable_operator del: stageable.simps)
  apply (simp add: node_new_def stageable_operator del: stageable.simps)
  done

lemma stageable_ensure:
  "stageable n \<Longrightarrow> stageable (ensure_single opts n)"
  "stageable n \<Longrightarrow> 0 < k \<Longrightarrow> stageable (ensure_hash opts n keys k)"
  by (auto simp: ensure_single_def ensure_hash_def node_exchange_def exchange_plain_def)

lemma stageable_execs:
  "stageable n \<Longrightarrow> stageable (project_scan_output n proj)"
  "stageable n \<Longrightarrow> stageable (filter_exec n f)"
  "stageable n \<Longrightarrow> stageable (sort_exec n key lim)"
  "stageable n \<Longrightarrow> stageable (limit_exec opts n k)"
  "stageable n \<Longrightarrow> stageable (distinct_exec opts n)"
  "stageable n \<Longrightarrow> 0 < default_shuffle_partitions opts \<Longrightarrow>
     stageable (aggregate_exec (plan_aggregate_input opts n keys) aggs keys)"
  "stageable (scan_exec scan)"
  by (simp_all add: project_scan_output_def filter_exec_def sort_exec_def limit_exec_def distinct_exec_def
      aggregate_exec_def plan_aggregate_input_def fold_attrs_def scan_exec_def Let_def stageable_with stageable_ensure)

lemma stageable_plan_scan: "stageable (plan_scan opts scan)"
  by (auto simp: plan_scan_def Let_def intro!: stageable_execs stageable_ensure split: option.splits)

text \<open>Options under which every exchange writes at least one partition.\<close>

definition positive_partitions :: "planning_options \<Rightarrow> bool" where
  "positive_partitions opts \<longleftrightarrow> 0 < default_shuffle_partitions opts \<and>
     (\<forall>n m. default_join_strategy opts = StrategyPartitionedHash n m \<longrightarrow> 0 < n)"

lemma choose_join_strategy_positive:
  "positive_partitions opts \<Longrightarrow> choose_join_strategy opts l r jt = StrategyPartitionedHash n m \<Longrightarrow> 0 < n"
  by (auto simp: choose_join_strategy_def positive_partitions_def Let_def partition_count_bytes_def clamp_nat_def
      split: physical_join_strategy.splits if_splits)

lemma stageable_plan_join:
  assumes "stageable l" "stageable r" "\<And>n m. strategy = StrategyPartitionedHash n m \<Longrightarrow> 0 < n"
    "plan_join opts strategy jt lk rk lp rp proj l r = Some node"
  shows "stageable node"
  using assms
  by (cases strategy) (auto simp: plan_join_def join_attrs_def stageable_with stageable_ensure)

lemma stageable_plan_node:
  "positive_partitions opts \<Longrightarrow> plan_node opts plan = Some n \<Longrightarrow> stageable n"
proof (induction plan arbitrary: n)
  case (TableScan scan)
  then show ?case by (auto intro: stageable_plan_scan)
next
  case (LJoin left right jt lk rk lp rp proj)
  then show ?case
    by (auto simp: bind_eq_Some_conv intro: stageable_plan_join dest: choose_join_strategy_positive)
next
  case (LCopy input fmt target)
  then show ?case by (auto simp: bind_eq_Some_conv stageable_with split: copy_format.splits)
qed (auto simp: bind_eq_Some_conv positive_partitions_def intro!: stageable_execs stageable_ensure)

subsection \<open>The cut\<close>

text \<open>
  The \<open>input_stage\<close> attributes of the exchanges that are left in a stage; a broadcast has no stage that
  the local execution could read.
\<close>

definition plan_attr :: "'b plan_node \<Rightarrow> string \<Rightarrow> string option" where
  "plan_attr n key = map_of (attributes n) key"

fun exchange_attrs :: "'b plan_node \<Rightarrow> string option list" where
  "exchange_attrs (PlanNode op attrs cs p ord ex) =
     (case op of
        OpExchange kind \<Rightarrow> [if kind = Broadcast then None else map_of attrs ''input_stage'']
      | _ \<Rightarrow> concat (map exchange_attrs cs))"

definition stage_sound :: "'b stage_plan \<Rightarrow> bool" where
  "stage_sound s \<longleftrightarrow> exchange_attrs (stage_root s) = map (\<lambda>i. Some (show_nat i)) (input_stages s)"

definition shuffle_output :: "partitioning \<Rightarrow> bool" where
  "shuffle_output p \<longleftrightarrow> p = PartSingle \<or> (\<exists>keys n. p = PartHash keys n \<and> 0 < n)"

fun stages_ok :: "nat \<Rightarrow> 'b stage_plan list \<Rightarrow> bool" where
  "stages_ok k [] \<longleftrightarrow> True"
| "stages_ok k (s # ss) \<longleftrightarrow> stage_id s = k \<and> set (input_stages s) \<subseteq> {..<k} \<and> stage_sound s \<and> stages_ok (Suc k) ss"

lemma stages_ok_append [simp]:
  "stages_ok k (xs @ ys) \<longleftrightarrow> stages_ok k xs \<and> stages_ok (k + length xs) ys"
  by (induction xs arbitrary: k) auto

text \<open>
  Stages numbered from \<open>k\<close>, of which \<open>pending\<close> have no consumer among them: every other one is the
  input of exactly one of them.
\<close>

definition segment :: "nat \<Rightarrow> 'b stage_plan list \<Rightarrow> nat list \<Rightarrow> bool" where
  "segment k new pending \<longleftrightarrow> stages_ok k new \<and> (\<forall>s \<in> set new. shuffle_output (stage_partitioning s)) \<and>
     mset (concat (map input_stages new)) + mset pending = mset [k ..< k + length new]"

lemma segment_Nil [simp]: "segment k [] []"
  by (simp add: segment_def)

lemma upt_append_lengths: "mset [k ..< k + (a + b)] = mset [k ..< k + a] + mset [k + a ..< k + a + b]"
  using upt_add_eq_append [of k "k + a" b] by (metis add.assoc le_add1 mset_append)

lemma segment_append:
  assumes "segment k xs ps" "segment (k + length xs) ys qs"
  shows "segment k (xs @ ys) (ps @ qs)"
proof -
  have m: "mset (concat (map input_stages xs)) + mset ps = mset [k ..< k + length xs]"
    "mset (concat (map input_stages ys)) + mset qs = mset [k + length xs ..< k + length xs + length ys]"
    using assms by (simp_all add: segment_def)
  have "mset (concat (map input_stages (xs @ ys))) + mset (ps @ qs) = mset [k ..< k + length (xs @ ys)]"
    unfolding length_append upt_append_lengths m [symmetric] by (simp add: ac_simps)
  with assms show ?thesis by (auto simp: segment_def)
qed

lemma segment_pending: "segment k new pending \<Longrightarrow> set pending \<subseteq> {k ..< k + length new}"
proof -
  assume "segment k new pending"
  then have "mset (concat (map input_stages new)) + mset pending = mset [k ..< k + length new]"
    by (simp add: segment_def)
  then have "set_mset (mset pending) \<subseteq> set_mset (mset [k ..< k + length new])"
    by (metis mset_subset_eq_add_right set_mset_mono)
  then show ?thesis by simp
qed

lemma segment_push:
  assumes "segment k new pending" "exchange_attrs root = map (\<lambda>i. Some (show_nat i)) pending" "shuffle_output p"
  shows "segment k (new @ [\<lparr>stage_id = k + length new, stage_root = root, input_stages = pending,
    stage_partitioning = p\<rparr>]) [k + length new]"
  using assms segment_pending [OF assms(1)] by (auto simp: segment_def stage_sound_def)

definition extends :: "'b stage_planner \<Rightarrow> 'b stage_plan list \<Rightarrow> 'b stage_planner \<Rightarrow> bool" where
  "extends pl new pl' \<longleftrightarrow> next_stage_id pl = length (planned_stages pl) \<and>
     planned_stages pl' = planned_stages pl @ new \<and> next_stage_id pl' = length (planned_stages pl')"

definition stages_fragments :: "'b stage_plan list \<Rightarrow> file_fragment multiset" where
  "stages_fragments ss = mset (concat (map (\<lambda>s. scan_fragments (stage_root s)) ss))"

lemma stages_fragments_simps [simp]:
  "stages_fragments [] = {#}"
  "stages_fragments (xs @ ys) = stages_fragments xs + stages_fragments ys"
  "stages_fragments [s] = mset (scan_fragments (stage_root s))"
  by (simp_all add: stages_fragments_def)

lemma extends_trans:
  "extends pl xs pl1 \<Longrightarrow> extends pl1 ys pl2 \<Longrightarrow> extends pl (xs @ ys) pl2"
  by (simp add: extends_def)

lemma push_stage_extends:
  "next_stage_id pl = length (planned_stages pl) \<Longrightarrow>
   push_stage_with_partitioning root ins p pl = (i, pl') \<Longrightarrow>
     i = next_stage_id pl \<and>
     extends pl [\<lparr>stage_id = next_stage_id pl, stage_root = root, input_stages = ins, stage_partitioning = p\<rparr>] pl'"
  by (auto simp: push_stage_with_partitioning_def extends_def Let_def)

lemma extend_unique_fresh:
  "set inputs \<subseteq> {..<k} \<Longrightarrow> set extra \<subseteq> {k..} \<Longrightarrow> distinct extra \<Longrightarrow> extend_unique inputs extra = inputs @ extra"
proof (induction extra arbitrary: inputs rule: rev_induct)
  case (snoc m ms)
  then have "extend_unique inputs ms = inputs @ ms" by simp
  moreover have "m \<notin> set (inputs @ ms)" using snoc.prems by auto
  ultimately show ?case by (simp add: extend_unique_def push_new_def)
qed (simp add: extend_unique_def)

lemma segment_distinct: "segment k new pending \<Longrightarrow> distinct pending"
proof -
  assume "segment k new pending"
  then have "mset (concat (map input_stages new)) + mset pending = mset [k ..< k + length new]"
    by (simp add: segment_def)
  then have "mset (concat (map input_stages new) @ pending) = mset [k ..< k + length new]" by simp
  then have "distinct (concat (map input_stages new) @ pending)"
    by (metis distinct_upt mset_eq_imp_distinct_iff)
  then show ?thesis by simp
qed

lemma shuffle_output_exchange:
  "exchange_plain (OpExchange kind) attrs \<Longrightarrow> shuffle_output (exchange_partitioning kind)"
  by (auto simp: exchange_plain_def shuffle_output_def exchange_partitioning_def split: exchange_kind.splits)

definition attrs_of :: "nat list \<Rightarrow> string option list" where
  "attrs_of ins = map (\<lambda>i. Some (show_nat i)) ins"

lemma rewrite_spec:
  "stageable n \<Longrightarrow> next_stage_id pl = length (planned_stages pl) \<Longrightarrow>
   rewrite_exchange_inputs n pl = ((n', ins), pl') \<Longrightarrow>
   \<exists>new. extends pl new pl' \<and> segment (next_stage_id pl) new ins \<and> exchange_attrs n' = attrs_of ins \<and>
     stages_fragments new + mset (scan_fragments n') = mset (scan_fragments n)"
  "list_all stageable cs \<Longrightarrow> next_stage_id pl = length (planned_stages pl) \<Longrightarrow>
   set inputs \<subseteq> {..<next_stage_id pl} \<Longrightarrow> rewrite_children cs inputs pl = ((cs', ins), pl') \<Longrightarrow>
   \<exists>new extra. extends pl new pl' \<and> ins = inputs @ extra \<and> segment (next_stage_id pl) new extra \<and>
     concat (map exchange_attrs cs') = attrs_of extra \<and>
     stages_fragments new + mset (concat (map scan_fragments cs')) = mset (concat (map scan_fragments cs))"
proof (induction n pl and cs inputs pl arbitrary: n' ins pl' and cs' ins pl'
    rule: rewrite_exchange_inputs_rewrite_children.induct)
  case (1 op attrs cs p ord ex pl)
  show ?case
  proof (cases "\<exists>k. op = OpExchange k")
    case False
    then have rw: "rewrite_exchange_inputs (PlanNode op attrs cs p ord ex) pl =
        (let ((cs, inputs), planner) = rewrite_children cs [] pl in ((PlanNode op attrs cs p ord ex, inputs), planner))"
      by (cases op) simp_all
    obtain cs1 ins1 pl1 where r: "rewrite_children cs [] pl = ((cs1, ins1), pl1)" by (metis prod.collapse)
    have st: "list_all stageable cs" using "1.prems"(1) by (simp add: list_all_iff)
    have ea: "exchange_attrs (PlanNode op attrs cs1 p ord ex) = concat (map exchange_attrs cs1)"
      using False by (cases op) simp_all
    have "\<exists>new extra. extends pl new pl1 \<and> ins1 = [] @ extra \<and> segment (next_stage_id pl) new extra \<and>
       concat (map exchange_attrs cs1) = attrs_of extra \<and>
       stages_fragments new + mset (concat (map scan_fragments cs1)) = mset (concat (map scan_fragments cs))"
      using False st "1.prems"(2) r by (cases op) (rule "1.IH"; simp)+
    then obtain new where new: "extends pl new pl1" "segment (next_stage_id pl) new ins1"
      "concat (map exchange_attrs cs1) = attrs_of ins1"
      "stages_fragments new + mset (concat (map scan_fragments cs1)) = mset (concat (map scan_fragments cs))"
      by auto
    have res: "n' = PlanNode op attrs cs1 p ord ex" "ins = ins1" "pl' = pl1"
      using "1.prems"(3) unfolding rw r by simp_all
    show ?thesis unfolding res ea using new by (intro exI [of _ new]) (simp flip: new(4) add: ac_simps)
  next
    case True
    then obtain kind where op: "op = OpExchange kind" by blast
    with "1.prems"(1) obtain input where cs: "cs = [input]" by (auto simp: length_Suc_conv)
    obtain root ins1 pl1 where r: "rewrite_exchange_inputs input pl = ((root, ins1), pl1)" by (metis prod.collapse)
    have st: "stageable input" using "1.prems"(1) cs by simp
    obtain new where new: "extends pl new pl1" "segment (next_stage_id pl) new ins1" "exchange_attrs root = attrs_of ins1"
      "stages_fragments new + mset (scan_fragments root) = mset (scan_fragments input)"
      using "1.IH"(16) [OF op cs st "1.prems"(2) r] by blast
    obtain i pl2 where push: "push_stage_with_partitioning root ins1 (exchange_partitioning kind) pl1 = (i, pl2)"
      by (metis prod.collapse)
    have np: "next_stage_id pl1 = next_stage_id pl + length new" using new(1) by (simp add: extends_def)
    let ?s = "\<lparr>stage_id = next_stage_id pl + length new, stage_root = root, input_stages = ins1,
      stage_partitioning = exchange_partitioning kind\<rparr>"
    have pe: "i = next_stage_id pl + length new" "extends pl1 [?s] pl2"
      using push_stage_extends [OF _ push] new(1) np by (simp_all add: extends_def)
    have seg: "segment (next_stage_id pl) (new @ [?s]) [i]"
    proof -
      have "exchange_plain (OpExchange kind) attrs" using "1.prems"(1) op by simp
      from segment_push [OF new(2) new(3) [unfolded attrs_of_def] shuffle_output_exchange [OF this]]
      show ?thesis by (simp add: pe(1))
    qed
    have "n' = with_partitioning (exchange_partitioning kind) (with_attr ''input_stage'' (show_nat i)
        (PlanNode op attrs [] p ord ex))" "ins = [i]" "pl' = pl2"
      using "1.prems"(3) op cs r push by (auto simp: Let_def)
    moreover have "map_of (attrs @ [(''input_stage'', show_nat i)]) ''input_stage'' = Some (show_nat i)"
      using "1.prems"(1) op
      by (auto simp: exchange_plain_def map_add_def split: option.splits dest!: map_of_SomeD)
        (metis fst_conv image_eqI)
    moreover have "kind \<noteq> Broadcast" using "1.prems"(1) op by (auto simp: exchange_plain_def)
    ultimately show ?thesis
      using seg extends_trans [OF new(1) pe(2)] new(4) op cs
      by (intro exI [of _ "new @ [?s]"]) (simp add: attrs_of_def union_commute union_assoc)
  qed
next
  case (2 inputs pl)
  then show ?case by (intro exI [of _ "[]"]) (auto simp: extends_def attrs_of_def)
next
  case (3 c cs inputs pl)
  obtain c1 ins1 pl1 where r1: "rewrite_exchange_inputs c pl = ((c1, ins1), pl1)" by (metis prod.collapse)
  obtain new1 where n1: "extends pl new1 pl1" "segment (next_stage_id pl) new1 ins1" "exchange_attrs c1 = attrs_of ins1"
     "stages_fragments new1 + mset (scan_fragments c1) = mset (scan_fragments c)"
    using "3.IH"(1) [OF _ "3.prems"(2) r1] "3.prems"(1) by auto
  have np: "next_stage_id pl1 = next_stage_id pl + length new1" "next_stage_id pl1 = length (planned_stages pl1)"
    using n1(1) by (simp_all add: extends_def)
  have eu: "extend_unique inputs ins1 = inputs @ ins1"
    using extend_unique_fresh [OF "3.prems"(3)] segment_pending [OF n1(2)] segment_distinct [OF n1(2)]
    by (auto simp: subset_iff)
  obtain cs2 ins2 pl2 where r2: "rewrite_children cs (extend_unique inputs ins1) pl1 = ((cs2, ins2), pl2)"
    by (metis prod.collapse)
  have sub: "set (extend_unique inputs ins1) \<subseteq> {..<next_stage_id pl1}"
    using eu "3.prems"(3) segment_pending [OF n1(2)] np(1) by (auto simp: subset_iff)
  obtain new2 extra2 where n2: "extends pl1 new2 pl2" "ins2 = inputs @ ins1 @ extra2" "segment (next_stage_id pl1) new2 extra2"
     "concat (map exchange_attrs cs2) = attrs_of extra2"
     "stages_fragments new2 + mset (concat (map scan_fragments cs2)) = mset (concat (map scan_fragments cs))"
    using "3.IH"(2) [OF r1 [symmetric] refl refl _ np(2) sub r2] "3.prems"(1) eu by auto
  have "((cs', ins), pl') = ((c1 # cs2, ins2), pl2)" using "3.prems"(4) r1 r2 by (simp add: Let_def)
  then show ?case
    using extends_trans [OF n1(1) n2(1)] segment_append [OF n1(2)] n1(3,4) n2(2-5) np(1)
    by (intro exI [of _ "new1 @ new2"] exI [of _ "ins1 @ extra2"])
      (auto simp: attrs_of_def ac_simps simp flip: n1(4) n2(5))
qed

text \<open>The stages of a plan.\<close>

lemma split_stages_spec:
  assumes "stageable root"
  shows "\<exists>new last. split_stages root = new @ [last] \<and> segment 0 new (input_stages last) \<and>
    stage_id last = length new \<and> stage_sound last \<and> stage_partitioning last = partitioning_ref (stage_root last) \<and>
    stages_fragments (new @ [last]) = mset (scan_fragments root)"
proof -
  let ?p0 = "\<lparr>next_stage_id = 0, planned_stages = []\<rparr> :: 'a stage_planner"
  obtain root' ins pl where r: "rewrite_exchange_inputs root ?p0 = ((root', ins), pl)" by (metis prod.collapse)
  from rewrite_spec(1) [OF assms _ r] obtain new where
    n: "extends ?p0 new pl" "segment 0 new ins" "exchange_attrs root' = attrs_of ins"
      "stages_fragments new + mset (scan_fragments root') = mset (scan_fragments root)"
    by auto
  let ?s = "\<lparr>stage_id = length new, stage_root = root', input_stages = ins,
      stage_partitioning = partitioning_ref root'\<rparr>"
  have "split_stages root = new @ [?s]"
    using r n(1) by (simp add: split_stages_def push_stage_def push_stage_with_partitioning_def extends_def Let_def)
  then show ?thesis using n
    by (intro exI [of _ new] exI [of _ ?s]) (simp add: stage_sound_def attrs_of_def)
qed

lemma stages_ok_nth: "stages_ok k ss \<Longrightarrow> i < length ss \<Longrightarrow>
    stage_id (ss ! i) = k + i \<and> set (input_stages (ss ! i)) \<subseteq> {..<k + i} \<and> stage_sound (ss ! i)"
  by (induction ss arbitrary: k i) (auto simp: nth_Cons split: nat.splits, fastforce+)

lemma split_stages_ok:
  assumes "stageable root"
  shows "stages_ok 0 (split_stages root)" "split_stages root \<noteq> []"
    "mset (concat (map input_stages (split_stages root))) = mset [0 ..< length (split_stages root) - 1]"
    "stages_fragments (split_stages root) = mset (scan_fragments root)"
    "i < length (split_stages root) - 1 \<Longrightarrow> shuffle_output (stage_partitioning (split_stages root ! i))"
proof -
  obtain new last where s: "split_stages root = new @ [last]" "segment 0 new (input_stages last)"
    "stage_id last = length new" "stage_sound last" "stages_fragments (new @ [last]) = mset (scan_fragments root)"
    using split_stages_spec [OF assms] by blast
  show "stages_ok 0 (split_stages root)"
    using s segment_pending [OF s(2)] by (auto simp: segment_def)
  show "split_stages root \<noteq> []" "stages_fragments (split_stages root) = mset (scan_fragments root)"
    using s by auto
  show "mset (concat (map input_stages (split_stages root))) = mset [0 ..< length (split_stages root) - 1]"
    using s(1,2) by (simp add: segment_def)
  show "i < length (split_stages root) - 1 \<Longrightarrow> shuffle_output (stage_partitioning (split_stages root ! i))"
    using s(1,2) by (simp add: segment_def nth_append)
qed

lemma find_stage:
  assumes "stages_ok 0 stages" "i < length stages"
  shows "find (\<lambda>s. stage_id s = i) stages = Some (stages ! i)"
  unfolding find_Some_iff using assms stages_ok_nth [OF assms(1)] by (intro exI [of _ i]) auto

lemma input_partition_count_eq:
  "stages_ok 0 stages \<Longrightarrow> i < length stages \<Longrightarrow>
     input_partition_count stages i = max (partition_count (stage_partitioning (stages ! i))) 1"
  by (simp add: input_partition_count_def find_stage)

lemma map_snd_enumerate: "map (\<lambda>p. f (snd p)) (enumerate k xs) = map f xs"
  by (induction xs arbitrary: k) simp_all

text \<open>How often the tasks of a stage read a partition of one of its input stages.\<close>

definition stage_reads :: "'b stage_plan list \<Rightarrow> 'b stage_plan \<Rightarrow> task_input list" where
  "stage_reads stages stage = concat (map task_inputs (stage_tasks stages stage))"

definition task_count :: "'b stage_plan \<Rightarrow> nat" where
  "task_count stage = max (partition_count (stage_partitioning stage)) 1"

lemma count_list_concat: "count_list (concat xss) x = sum_list (map (\<lambda>xs. count_list xs x) xss)"
  by (induction xss) simp_all

lemma sum_list_delta_distinct:
  "distinct is \<Longrightarrow> sum_list (map (\<lambda>j. if j = i then f j else (0::nat)) is) = (if i \<in> set is then f i else 0)"
  by (induction "is") auto

lemma count_shuffle_inputs:
  "count_list (shuffle_inputs stages n q j) (ShufflePartition i p) =
     (if j \<noteq> i then 0
      else if n = 1 then (if p < input_partition_count stages i then 1 else 0)
      else if min q (input_partition_count stages i - 1) = p then 1 else 0)"
proof -
  have "count_list (map (ShufflePartition j) [0 ..< m]) (ShufflePartition i p) = (if j = i \<and> p < m then 1 else 0)" for m
    by (induction m) auto
  then show ?thesis by (auto simp: shuffle_inputs_def Let_def)
qed

lemma stage_reads_count:
  assumes "input_stages stage \<noteq> []" "distinct (input_stages stage)" "i \<in> set (input_stages stage)"
  shows "count_list (stage_reads stages stage) (ShufflePartition i p) =
    (if task_count stage = 1 then (if p < input_partition_count stages i then 1 else 0)
     else card {q. q < task_count stage \<and> min q (input_partition_count stages i - 1) = p})"
proof -
  let ?n = "task_count stage" and ?m = "input_partition_count stages i"
  define c where "c q = (if ?n = 1 then (if p < ?m then 1 else 0) else if min q (?m - 1) = p then (1::nat) else 0)" for q
  have "count_list (concat (map (shuffle_inputs stages ?n q) (input_stages stage))) (ShufflePartition i p) = c q" for q
  proof -
    have "count_list (concat (map (shuffle_inputs stages ?n q) (input_stages stage))) (ShufflePartition i p) =
        sum_list (map (\<lambda>j. if j = i then c q else 0) (input_stages stage))"
      unfolding count_list_concat map_map comp_def count_shuffle_inputs
      by (intro arg_cong [where f = sum_list] map_cong refl) (simp add: c_def)
    then show ?thesis using sum_list_delta_distinct [OF assms(2), of i "\<lambda>_. c q"] assms(3) by simp
  qed
  moreover have "stage_reads stages stage =
      concat (map (\<lambda>q. concat (map (shuffle_inputs stages ?n q) (input_stages stage))) [0 ..< ?n])"
    using assms(1) by (simp add: stage_reads_def stage_tasks_def task_count_def Let_def comp_def)
  ultimately have "count_list (stage_reads stages stage) (ShufflePartition i p) = sum_list (map c [0 ..< ?n])"
    by (simp add: count_list_concat [of "map _ [0 ..< ?n]"] comp_def)
  also have "\<dots> = (\<Sum>q<?n. c q)"
    by (simp add: sum_list_distinct_conv_sum_set atLeast0LessThan)
  also have "\<dots> = (if ?n = 1 then (if p < ?m then 1 else 0) else card {q. q < ?n \<and> min q (?m - 1) = p})"
  proof (cases "?n = 1")
    case False
    then have "(\<Sum>q<?n. c q) = (\<Sum>q<?n. if min q (?m - 1) = p then 1 else 0)" unfolding c_def by simp
    also have "\<dots> = card ({..<?n} \<inter> {q. min q (?m - 1) = p})" by (subst sum.If_cases) simp_all
    also have "{..<?n} \<inter> {q. min q (?m - 1) = p} = {q. q < ?n \<and> min q (?m - 1) = p}" by auto
    finally show ?thesis unfolding if_not_P [OF False] .
  qed (simp add: c_def)
  finally show ?thesis .
qed

lemma split_inputs_distinct:
  assumes "stageable root" "s < length (split_stages root)"
  shows "distinct (input_stages (split_stages root ! s))"
proof -
  have "distinct (concat (map input_stages (split_stages root)))"
    using split_stages_ok(3) [OF assms(1)] by (metis distinct_upt mset_eq_imp_distinct_iff)
  then show ?thesis using assms(2) by (simp add: distinct_concat_iff)
qed

lemma split_reads_count:
  assumes "stageable root" "s < length (split_stages root)" "i \<in> set (input_stages (split_stages root ! s))"
  shows "count_list (stage_reads (split_stages root) (split_stages root ! s)) (ShufflePartition i p) =
    (let n = task_count (split_stages root ! s); m = task_count (split_stages root ! i)
     in if n = 1 then (if p < m then 1 else 0) else card {q. q < n \<and> min q (m - 1) = p})"
proof -
  have "i < length (split_stages root)"
    using stages_ok_nth [OF split_stages_ok(1) [OF assms(1)] assms(2)] assms(2,3) by auto
  then have m: "input_partition_count (split_stages root) i = task_count (split_stages root ! i)"
    using input_partition_count_eq [OF split_stages_ok(1) [OF assms(1)]] by (simp add: task_count_def)
  have "input_stages (split_stages root ! s) \<noteq> []" using assms(3) by auto
  from stage_reads_count [OF this split_inputs_distinct [OF assms(1,2)] assms(3), of "split_stages root" p]
  show ?thesis unfolding m Let_def .
qed

text \<open>A grouped aggregate over a partitioned join, each with its own number of partitions.\<close>

definition demo_scan :: logical_plan where
  "demo_scan = TableScan \<lparr>scan_source = \<lparr>src_fragments = [local_parquet ''a'', local_parquet ''b''],
     src_format = FormatParquet, src_statistics = table_statistics_default\<rparr>, batch_size = 1024,
     scan_projection = ProjAll, scan_filter = None, scan_order_by = None, scan_limit = None, scan_distinct = False\<rparr>"

definition demo_options :: "nat \<Rightarrow> nat \<Rightarrow> planning_options" where
  "demo_options join_partitions shuffle_partitions =
     \<lparr>default_join_strategy = StrategyPartitionedHash join_partitions 1024, insert_exchanges = True,
      default_shuffle_partitions = shuffle_partitions\<rparr>"

definition demo_plan :: logical_plan where
  "demo_plan = LAggregate (LJoin demo_scan demo_scan JoinInner [''k''] [''id''] ''l'' ''r'' ProjAll) [CountStar] [''g'']"

definition demo_root :: "nat \<Rightarrow> nat \<Rightarrow> nat list plan_node" where
  "demo_root join_partitions shuffle_partitions = the (plan_node (demo_options join_partitions shuffle_partitions) demo_plan)"

lemma demo_root_planned: "plan_node (demo_options j k) demo_plan = Some (demo_root j k)"
  unfolding demo_root_def using plan_node_total by (metis option.sel)

lemma demo_positive: "0 < j \<Longrightarrow> 0 < k \<Longrightarrow> positive_partitions (demo_options j k)"
  by (simp add: demo_options_def positive_partitions_def)

lemmas demo_stageable = stageable_plan_node [OF demo_positive demo_root_planned]

lemma demo_stages:
  "map (\<lambda>s. (stage_id s, input_stages s, stage_partitioning s)) (split_stages (demo_root 8 4)) =
     [(0, [], PartHash [''k''] 8), (1, [], PartHash [''id''] 8), (2, [0, 1], PartHash [''g''] 4), (3, [2], PartUnknown)]"
  by code_simp

subsection \<open>Properties\<close>

text \<open>
  C16: cutting a plan at its exchanges gives stages numbered by their position; each stage reads only from
  earlier ones, its exchanges name exactly its input stages, every stage but the last is the input of
  exactly one stage, and the scanned fragments are those of the plan, none lost and none repeated.
\<close>

theorem split_stages_form_a_tree:
  assumes "positive_partitions opts" "plan_node opts plan = Some (root :: 'b plan_node)"
  shows "stages_ok 0 (split_stages root) \<and>
    mset (concat (map input_stages (split_stages root))) = mset [0 ..< length (split_stages root) - 1] \<and>
    mset (concat (map (\<lambda>s. scan_fragments (stage_root s)) (split_stages root))) = mset (scan_fragments root)"
  using split_stages_ok(1,3,4) [OF stageable_plan_node [OF assms]] by (simp add: stages_fragments_def)

theorem split_stages_form_a_tree_witness:
  "stages_ok 0 (split_stages (demo_root 8 4)) \<and> length (split_stages (demo_root 8 4)) = 4"
proof -
  have "length (split_stages (demo_root 8 4)) = 4" using arg_cong [OF demo_stages, of length] by simp
  with split_stages_form_a_tree [OF demo_positive demo_root_planned, of 8 4] show ?thesis by simp
qed

text \<open>
  C17: when a stage runs a single task, or as many tasks as its input stage has partitions, its tasks
  together read every partition of that input exactly once and no other partition of it.
\<close>

theorem shuffle_partitions_read_once:
  assumes "positive_partitions opts" "plan_node opts plan = Some (root :: 'b plan_node)"
    "s < length (split_stages root)" "i \<in> set (input_stages (split_stages root ! s))"
    "task_count (split_stages root ! s) \<in> {1, task_count (split_stages root ! i)}"
  shows "count_list (stage_reads (split_stages root) (split_stages root ! s)) (ShufflePartition i p) =
    (if p < task_count (split_stages root ! i) then 1 else 0)"
proof -
  have "{q. q < n \<and> min q (n - 1) = p} = (if p < n then {p} else {})" for n by auto
  then have "card {q. q < n \<and> min q (n - 1) = p} = (if p < n then 1 else 0)" for n by simp
  with split_reads_count [OF stageable_plan_node [OF assms(1,2)] assms(3,4), of p] assms(5) show ?thesis
    by (auto simp: Let_def)
qed

theorem shuffle_partitions_read_once_witness:
  "count_list (stage_reads (split_stages (demo_root 4 4)) (split_stages (demo_root 4 4) ! 2)) (ShufflePartition 0 3) = 1"
proof -
  let ?ss = "split_stages (demo_root 4 4)"
  have "map (\<lambda>s. (input_stages s, stage_partitioning s)) ?ss =
      [([], PartHash [''k''] 4), ([], PartHash [''id''] 4), ([0, 1], PartHash [''g''] 4), ([2], PartUnknown)]"
    by code_simp
  then have m: "length ?ss = 4" "input_stages (?ss ! 2) = [0, 1]" "stage_partitioning (?ss ! 2) = PartHash [''g''] 4"
      "stage_partitioning (?ss ! 0) = PartHash [''k''] 4"
    by (auto simp: numeral_eq_Suc Suc_length_conv)
  show ?thesis
    using shuffle_partitions_read_once [OF demo_positive demo_root_planned, of 4 4 2 0 3] m
    by (simp add: task_count_def partition_count_def)
qed

text \<open>
  C34: when a stage runs several tasks and its input stage has more partitions than that, the partitions
  beyond the number of tasks are read by no task, and the rows in them are lost; with fewer partitions the last one
  is read by several tasks.
\<close>

theorem mismatched_shuffle_reads:
  assumes "positive_partitions opts" "plan_node opts plan = Some (root :: 'b plan_node)"
    "s < length (split_stages root)" "i \<in> set (input_stages (split_stages root ! s))"
    "1 < task_count (split_stages root ! s)"
  shows "(task_count (split_stages root ! s) \<le> p \<longrightarrow>
      ShufflePartition i p \<notin> set (stage_reads (split_stages root) (split_stages root ! s))) \<and>
    (task_count (split_stages root ! i) < task_count (split_stages root ! s) \<longrightarrow>
      count_list (stage_reads (split_stages root) (split_stages root ! s))
        (ShufflePartition i (task_count (split_stages root ! i) - 1)) =
      task_count (split_stages root ! s) - task_count (split_stages root ! i) + 1)"
proof -
  let ?n = "task_count (split_stages root ! s)" and ?m = "task_count (split_stages root ! i)"
  note c = split_reads_count [OF stageable_plan_node [OF assms(1,2)] assms(3,4)]
  have "?n \<le> p \<Longrightarrow> {q. q < ?n \<and> min q (?m - 1) = p} = {}" by auto
  then have lost: "?n \<le> p \<Longrightarrow> count_list (stage_reads (split_stages root) (split_stages root ! s)) (ShufflePartition i p) = 0"
    using c [of p] assms(5) by (simp add: Let_def)
  have m1: "1 \<le> ?m" by (simp add: task_count_def)
  then have "?m < ?n \<Longrightarrow> {q. q < ?n \<and> min q (?m - 1) = ?m - 1} = {?m - 1 ..< ?n}" by auto
  then have "?m < ?n \<Longrightarrow> count_list (stage_reads (split_stages root) (split_stages root ! s)) (ShufflePartition i (?m - 1)) =
      ?n - ?m + 1"
    using c [of "?m - 1"] assms(5) m1 by (simp add: Let_def)
  with lost show ?thesis by (auto simp: count_list_0_iff)
qed

theorem mismatched_shuffle_reads_witness:
  "ShufflePartition 0 5 \<notin> set (stage_reads (split_stages (demo_root 8 4)) (split_stages (demo_root 8 4) ! 2))"
proof -
  let ?ss = "split_stages (demo_root 8 4)"
  have m: "length ?ss = 4" "input_stages (?ss ! 2) = [0, 1]" "stage_partitioning (?ss ! 2) = PartHash [''g''] 4"
    using demo_stages by (auto simp: numeral_eq_Suc Suc_length_conv)
  show ?thesis
    using mismatched_shuffle_reads [OF demo_positive demo_root_planned, of 8 4 2 0 5] m
    by (simp add: task_count_def partition_count_def)
qed

text \<open>
  A stage that scans and has no input stage hands each of its fragments to exactly one task.
\<close>

theorem scan_fragments_assigned_once:
  assumes "scan_fragments (stage_root stage) \<noteq> []" "input_stages stage = []"
  shows "concat (map task_inputs (stage_tasks stages stage)) = map ScanFragment (scan_fragments (stage_root stage))"
  using assms by (simp add: stage_tasks_def Let_def comp_def split_def map_snd_enumerate)

theorem scan_fragments_assigned_once_witness:
  "concat (map task_inputs (stage_tasks [] \<lparr>stage_id = 0,
     stage_root = (plan_scan (demo_options 2 2) (case demo_scan of TableScan s \<Rightarrow> s) :: nat plan_node),
     input_stages = [], stage_partitioning = PartFileRange 2\<rparr>)) =
   [ScanFragment (local_parquet ''a''), ScanFragment (local_parquet ''b'')]"
proof -
  let ?r = "plan_scan (demo_options 2 2) (case demo_scan of TableScan s \<Rightarrow> s) :: nat plan_node"
  have r: "scan_fragments ?r = [local_parquet ''a'', local_parquet ''b'']" by code_simp
  show ?thesis
    by (subst scan_fragments_assigned_once) (simp_all add: r)
qed

end
