(* ===== verification/Shuffle_Store.thy ===== *)
theory Shuffle_Store
  imports Stage_Planner
begin

text \<open>
  The local shuffle of \<open>engine.rs\<close>: \<open>LocalShuffleStore\<close> keeps, for every partition of a stage, the files
  its tasks wrote, and \<open>repartition_batches_by_hash\<close> distributes the rows of a task's output.

  Batches are values of the \<open>arrow\<close> crate.  What the code uses of them, and the writing of an IPC file,
  are the fields of \<open>batch_ops\<close>.  The store carries the contents of the files it has written.  Write
  times and metric counters are left out.
\<close>

record 'b batch_ops =
  num_rows :: "'b \<Rightarrow> nat"
  memory_size :: "'b \<Rightarrow> nat"
  column_names :: "'b \<Rightarrow> string list"
  row_hashes :: "'b \<Rightarrow> nat list \<Rightarrow> dodam_error + nat list"
  take_rows :: "'b \<Rightarrow> nat list \<Rightarrow> dodam_error + 'b"
  write_ipc :: "string \<Rightarrow> 'b list \<Rightarrow> dodam_error + nat"

subsection \<open>The store\<close>

record shuffle_file =
  file_path :: string
  file_batches :: nat
  file_rows :: nat
  file_bytes :: nat

record 'b shuffle_store =
  store_root :: string
  store_files :: "nat \<times> nat \<rightharpoonup> shuffle_file list"
  store_sequence :: nat
  file_target_bytes :: nat
  disk :: "string \<rightharpoonup> 'b list"

definition store_new :: "string \<Rightarrow> nat \<Rightarrow> 'b shuffle_store" where
  "store_new root target =
     \<lparr>store_root = root, store_files = Map.empty, store_sequence = 0, file_target_bytes = target, disk = Map.empty\<rparr>"

definition shuffle_path :: "string \<Rightarrow> nat \<Rightarrow> nat \<Rightarrow> nat \<Rightarrow> string" where
  "shuffle_path root stage part sequence =
     root @ ''/stage-'' @ show_nat stage @ ''-partition-'' @ show_nat part @ ''-'' @ show_nat sequence @ ''.arrow''"

definition files_of :: "'b shuffle_store \<Rightarrow> nat \<times> nat \<Rightarrow> shuffle_file list" where
  "files_of store key = (case store_files store key of Some fs \<Rightarrow> fs | None \<Rightarrow> [])"

definition write_partition_file ::
    "'b batch_ops \<Rightarrow> nat \<Rightarrow> nat \<Rightarrow> 'b list \<Rightarrow> 'b shuffle_store \<Rightarrow> dodam_error + 'b shuffle_store" where
  "write_partition_file ops stage part batches store =
     (if batches = [] then Inr store
      else
        (let path = shuffle_path (store_root store) stage part (store_sequence store);
             store = store\<lparr>store_sequence := u64_sat (store_sequence store + 1)\<rparr>
         in try_bind (write_ipc ops path batches) (\<lambda>bytes.
              Inr (store\<lparr>disk := (disk store)(path \<mapsto> batches),
                   store_files := (store_files store)((stage, part) \<mapsto> files_of store (stage, part) @
                     [\<lparr>file_path = path, file_batches = length batches,
                       file_rows = sum_list (map (num_rows ops) batches), file_bytes = bytes\<rparr>])\<rparr>))))"

text \<open>The loop over the non-empty batches: a file is closed before it would exceed the target.\<close>

fun write_batches ::
    "'b batch_ops \<Rightarrow> nat \<Rightarrow> nat \<Rightarrow> 'b list \<Rightarrow> 'b list \<Rightarrow> nat \<Rightarrow> 'b shuffle_store \<Rightarrow> dodam_error + 'b shuffle_store" where
  "write_batches ops stage part [] current bytes store =
     (if current \<noteq> [] then write_partition_file ops stage part current store else Inr store)"
| "write_batches ops stage part (b # bs) current bytes store =
     (let batch_bytes = max (u64_sat (memory_size ops b)) 1
      in if current \<noteq> [] \<and> u64_sat (bytes + batch_bytes) > file_target_bytes store
         then try_bind (write_partition_file ops stage part current store) (\<lambda>store.
                write_batches ops stage part bs [b] batch_bytes store)
         else write_batches ops stage part bs (current @ [b]) (u64_sat (bytes + batch_bytes)) store)"

definition write_partition ::
    "'b batch_ops \<Rightarrow> nat \<Rightarrow> nat \<Rightarrow> 'b list \<Rightarrow> 'b shuffle_store \<Rightarrow> dodam_error + 'b shuffle_store" where
  "write_partition ops stage part batches store =
     try_bind (write_batches ops stage part (filter (\<lambda>b. num_rows ops b > 0) batches) [] 0 store) (\<lambda>store.
       Inr (store\<lparr>store_files := (store_files store)((stage, part) \<mapsto> files_of store (stage, part))\<rparr>))"

definition partition_artifacts :: "'b shuffle_store \<Rightarrow> nat \<Rightarrow> nat \<Rightarrow> dodam_error + shuffle_file list" where
  "partition_artifacts store stage part =
     (case store_files store (stage, part) of
        None \<Rightarrow> Inl (UnsupportedSql (''missing shuffle partition stage='' @ show_nat stage @
          '' partition='' @ show_nat part))
      | Some fs \<Rightarrow> Inr fs)"

definition partition_files :: "'b shuffle_store \<Rightarrow> nat \<Rightarrow> nat \<Rightarrow> dodam_error + string list" where
  "partition_files store stage part =
     try_bind (partition_artifacts store stage part) (\<lambda>fs. Inr (map file_path fs))"

subsection \<open>Hash repartitioning\<close>

definition rsplit_once :: "char \<Rightarrow> string \<Rightarrow> (string \<times> string) option" where
  "rsplit_once d s = map_option (\<lambda>(a, b). (rev b, rev a)) (split_once d (rev s))"

definition physical_batch_column_index :: "'b batch_ops \<Rightarrow> 'b \<Rightarrow> string \<Rightarrow> dodam_error + nat" where
  "physical_batch_column_index ops batch column =
     (case position (\<lambda>name. name = column) (column_names ops batch) of
        Some i \<Rightarrow> Inr i
      | None \<Rightarrow>
          (let suffix = (case rsplit_once CHR ''.'' column of Some (_, s) \<Rightarrow> s | None \<Rightarrow> column)
           in case position (\<lambda>name. name = suffix) (column_names ops batch) of
                Some i \<Rightarrow> Inr i
              | None \<Rightarrow> Inl (UnsupportedSql (''unknown shuffle key column '' @ column @ ''; available columns='' @
                  bracketed (column_names ops batch)))))"

text \<open>The loop over the rows of a batch, which sends each row index to the bucket of its hash.\<close>

fun bucket_rows :: "nat \<Rightarrow> nat list \<Rightarrow> nat \<Rightarrow> nat list list \<Rightarrow> dodam_error + nat list list" where
  "bucket_rows partitions [] row_index indices = Inr indices"
| "bucket_rows partitions (h # hs) row_index indices =
     (if row_index < 2 ^ 32
      then bucket_rows partitions hs (row_index + 1)
             (indices[h mod partitions := indices ! (h mod partitions) @ [row_index]])
      else Inl (UnsupportedSql ''hash shuffle currently supports up to u32::MAX rows per batch''))"

definition take_bucket :: "'b batch_ops \<Rightarrow> 'b \<Rightarrow> nat list \<Rightarrow> 'b list \<Rightarrow> dodam_error + 'b list" where
  "take_bucket ops batch rows out =
     (if rows = [] then Inr out else try_bind (take_rows ops batch rows) (\<lambda>taken. Inr (out @ [taken])))"

definition repartition_batch ::
    "'b batch_ops \<Rightarrow> string list \<Rightarrow> nat \<Rightarrow> 'b \<Rightarrow> 'b list list \<Rightarrow> dodam_error + 'b list list" where
  "repartition_batch ops keys partitions batch output =
     (if num_rows ops batch = 0 then Inr output
      else
        try_bind (map_try (physical_batch_column_index ops batch) keys) (\<lambda>columns.
        try_bind (row_hashes ops batch columns) (\<lambda>hashes.
        try_bind (bucket_rows partitions hashes 0 (replicate partitions [])) (\<lambda>indices.
        map_try (\<lambda>(rows, out). take_bucket ops batch rows out) (zip indices output)))))"

definition repartition_batches_by_hash ::
    "'b batch_ops \<Rightarrow> 'b list \<Rightarrow> string list \<Rightarrow> nat \<Rightarrow> dodam_error + 'b list list" where
  "repartition_batches_by_hash ops batches keys partitions =
     (if partitions = 0
      then Inl (UnsupportedSql ''hash repartition requires at least one partition'')
      else fold_try (repartition_batch ops keys partitions) batches (replicate partitions []))"

subsection \<open>Lemmas on the store\<close>

text \<open>What reading the files of a partition in order returns.\<close>

definition contents :: "'b shuffle_store \<Rightarrow> nat \<times> nat \<Rightarrow> 'b list" where
  "contents store key = concat (map (\<lambda>f. case disk store (file_path f) of Some bs \<Rightarrow> bs | None \<Rightarrow> []) (files_of store key))"

definition writes_succeed :: "'b batch_ops \<Rightarrow> bool" where
  "writes_succeed ops \<longleftrightarrow> (\<forall>path bs. \<exists>n. write_ipc ops path bs = Inr n)"

definition store_ok :: "'b shuffle_store \<Rightarrow> bool" where
  "store_ok store \<longleftrightarrow> (\<forall>key. \<forall>f \<in> set (files_of store key).
     \<exists>s p q. q < store_sequence store \<and> file_path f = shuffle_path (store_root store) s p q)"

text \<open>Paths of different sequence numbers differ.\<close>

lemma digit_not_dash: "c \<in> set (show_nat n) \<Longrightarrow> c \<noteq> CHR ''-''"
  by (auto dest!: show_nat_digits simp: digit_char_not)

lemma shuffle_path_inject: "shuffle_path r s p q = shuffle_path r s' p' q' \<Longrightarrow> q = q'"
proof -
  define seq where "seq path = rev (takeWhile (\<lambda>c. c \<noteq> CHR ''-'') (drop 6 (rev path)))" for path :: string
  have "seq (shuffle_path r s p q) = show_nat q" for r s p q
  proof -
    have "takeWhile (\<lambda>c. c \<noteq> CHR ''-'') (rev (show_nat q) @ CHR ''-'' # rest) = rev (show_nat q)" for rest
      by (subst takeWhile_append2) (auto dest: digit_not_dash)
    then show ?thesis by (simp add: seq_def shuffle_path_def)
  qed
  then show "shuffle_path r s p q = shuffle_path r s' p' q' \<Longrightarrow> q = q'" by (metis show_nat_inject)
qed

text \<open>A store after some writes to one partition: batches are appended there and nothing else changes.\<close>

definition appended :: "nat \<times> nat \<Rightarrow> 'b list \<Rightarrow> nat \<Rightarrow> 'b shuffle_store \<Rightarrow> 'b shuffle_store \<Rightarrow> bool" where
  "appended key bs n store store' \<longleftrightarrow> store_ok store' \<and>
     store_sequence store \<le> store_sequence store' \<and> store_sequence store' \<le> store_sequence store + n \<and>
     store_root store' = store_root store \<and> file_target_bytes store' = file_target_bytes store \<and>
     (\<forall>k. contents store' k = contents store k @ (if k = key then bs else [])) \<and>
     dom (store_files store) \<subseteq> dom (store_files store') \<and> dom (store_files store') \<subseteq> insert key (dom (store_files store))"

lemma appended_refl: "store_ok store \<Longrightarrow> appended key [] n store store"
  by (auto simp: appended_def)

lemma appended_trans:
  "appended key xs m s1 s2 \<Longrightarrow> appended key ys n s2 s3 \<Longrightarrow> appended key (xs @ ys) (m + n) s1 s3"
  unfolding appended_def by (elim conjE, intro conjI) (simp_all, blast+)

lemma write_partition_file_appends:
  assumes "writes_succeed ops" "store_ok store" "store_sequence store < u64_max" "batches \<noteq> []"
  shows "\<exists>store'. write_partition_file ops stage part batches store = Inr store' \<and>
    appended (stage, part) batches 1 store store'"
proof -
  let ?path = "shuffle_path (store_root store) stage part (store_sequence store)"
  obtain n where n: "write_ipc ops ?path batches = Inr n" using assms(1) by (auto simp: writes_succeed_def)
  define f where "f = \<lparr>file_path = ?path, file_batches = length batches,
    file_rows = sum_list (map (num_rows ops) batches), file_bytes = n\<rparr>"
  define store' where "store' = store\<lparr>store_sequence := store_sequence store + 1,
     disk := (disk store)(?path \<mapsto> batches),
     store_files := (store_files store)((stage, part) \<mapsto> files_of store (stage, part) @ [f])\<rparr>"
  have w: "write_partition_file ops stage part batches store = Inr store'"
    using assms(3,4) n by (simp add: write_partition_file_def Let_def store'_def f_def u64_sat_def files_of_def)
  have fo: "files_of store' k = files_of store k @ (if k = (stage, part) then [f] else [])" for k
    by (simp add: files_of_def store'_def)
  have "file_path g \<noteq> ?path" if "g \<in> set (files_of store k)" for g k
    using assms(2) that shuffle_path_inject unfolding store_ok_def by (metis less_irrefl)
  then have eq: "map (\<lambda>f. case disk store' (file_path f) of Some bs \<Rightarrow> bs | None \<Rightarrow> []) (files_of store k) =
      map (\<lambda>f. case disk store (file_path f) of Some bs \<Rightarrow> bs | None \<Rightarrow> []) (files_of store k)" for k
    by (intro map_cong refl) (simp add: store'_def)
  have "disk store' (file_path f) = Some batches" by (simp add: store'_def f_def)
  then have "contents store' k = contents store k @ (if k = (stage, part) then batches else [])" for k
    unfolding contents_def fo map_append concat_append eq by simp
  moreover have "store_ok store'"
    using assms(2) unfolding store_ok_def fo by (fastforce simp: store'_def f_def less_Suc_eq split: if_splits)
  ultimately show ?thesis using w by (auto simp: appended_def store'_def)
qed

lemma write_batches_appends:
  assumes "writes_succeed ops"
  shows "store_ok store \<Longrightarrow> store_sequence store + length bs + length current \<le> u64_max \<Longrightarrow>
    \<exists>store'. write_batches ops stage part bs current bytes store = Inr store' \<and>
      appended (stage, part) (current @ bs) (length bs + length current) store store'"
proof (induction bs arbitrary: current bytes store)
  case Nil
  show ?case
  proof (cases "current = []")
    case True
    then show ?thesis using Nil by (simp add: appended_refl)
  next
    case False
    then have "store_sequence store < u64_max" using Nil.prems(2) by (cases current) auto
    from write_partition_file_appends [OF assms Nil.prems(1) this False, of stage part] obtain store' where
      "write_partition_file ops stage part current store = Inr store'" "appended (stage, part) current 1 store store'"
      by blast
    then show ?thesis using False by (cases current) (auto simp: appended_def)
  qed
next
  case (Cons b bs)
  show ?case
  proof (cases "current \<noteq> [] \<and> u64_sat (bytes + max (u64_sat (memory_size ops b)) 1) > file_target_bytes store")
    case True
    then have "store_sequence store < u64_max" using Cons.prems(2) by auto
    from write_partition_file_appends [OF assms Cons.prems(1) this, of current stage part] True obtain s1 where
      s1: "write_partition_file ops stage part current store = Inr s1" "appended (stage, part) current 1 store s1"
      by blast
    obtain c cur where cur: "current = c # cur" using True by (cases current) auto
    have "store_ok s1" "store_sequence s1 + length bs + length [b] \<le> u64_max"
      using s1(2) Cons.prems(2) cur by (auto simp: appended_def)
    from Cons.IH [OF this] obtain s2 where
      s2: "write_batches ops stage part bs [b] (max (u64_sat (memory_size ops b)) 1) s1 = Inr s2"
        "appended (stage, part) ([b] @ bs) (length bs + length [b]) s1 s2"
      by blast
    have "appended (stage, part) (current @ b # bs) (length (b # bs) + length current) store s2"
      using appended_trans [OF s1(2) s2(2)] cur by (auto simp: appended_def)
    then show ?thesis using True s1(1) s2(1) by (simp add: Let_def)
  next
    case False
    from Cons.IH [of store "current @ [b]"] Cons.prems False show ?thesis by (auto simp: Let_def)
  qed
qed

lemma write_partition_appends:
  assumes "writes_succeed ops" "store_ok store" "store_sequence store + length batches \<le> u64_max"
  shows "\<exists>store'. write_partition ops stage part batches store = Inr store' \<and>
    appended (stage, part) (filter (\<lambda>b. num_rows ops b > 0) batches) (length batches) store store' \<and>
    (stage, part) \<in> dom (store_files store')"
proof -
  let ?bs = "filter (\<lambda>b. num_rows ops b > 0) batches"
  have "length ?bs \<le> length batches" by simp
  then have "store_sequence store + length ?bs + length [] \<le> u64_max"
    unfolding list.size add_0_right using assms(3) by linarith
  from write_batches_appends [OF assms(1,2) this, of stage part 0] obtain s1 where
    s1: "write_batches ops stage part ?bs [] 0 store = Inr s1" "appended (stage, part) ?bs (length ?bs) store s1"
    by auto
  let ?s2 = "s1\<lparr>store_files := (store_files s1)((stage, part) \<mapsto> files_of s1 (stage, part))\<rparr>"
  have fo: "files_of ?s2 k = files_of s1 k" for k by (auto simp: files_of_def)
  have "contents ?s2 k = contents s1 k" for k unfolding contents_def fo by simp
  moreover have "store_ok ?s2 = store_ok s1" unfolding store_ok_def fo by simp
  ultimately have "appended (stage, part) ?bs (length batches) store ?s2"
    using s1(2) le_trans [OF _ add_le_mono [OF order_refl \<open>length ?bs \<le> length batches\<close>]]
    by (auto simp: appended_def)
  then show ?thesis using s1(1) by (simp add: write_partition_def)
qed

lemma contents_read:
  "partition_files store stage part = Inr paths \<Longrightarrow>
     contents store (stage, part) = concat (map (\<lambda>p. case disk store p of Some bs \<Rightarrow> bs | None \<Rightarrow> []) paths)"
  by (auto simp: partition_files_def partition_artifacts_def contents_def files_of_def rust_simps comp_def
      split: option.splits)

subsection \<open>Lemmas on repartitioning\<close>

text \<open>The rows a partition receives: those whose hash is congruent to it, in their order.\<close>

definition bucket :: "nat \<Rightarrow> nat list \<Rightarrow> nat \<Rightarrow> nat list" where
  "bucket n hashes p = filter (\<lambda>i. hashes ! i mod n = p) [0 ..< length hashes]"

lemma bucket_rows_eq:
  assumes "0 < n"
  shows "length hs + k \<le> 2 ^ 32 \<Longrightarrow> length indices = n \<Longrightarrow>
    bucket_rows n hs k indices =
      Inr (map (\<lambda>p. indices ! p @ map (\<lambda>i. i + k) (bucket n hs p)) [0 ..< n])"
proof (induction hs arbitrary: k indices)
  case Nil
  then show ?case by (simp add: bucket_def) (metis map_nth)
next
  case (Cons h hs)
  have b: "bucket n (h # hs) p = (if h mod n = p then [0] else []) @ map Suc (bucket n hs p)" for p
    unfolding bucket_def by (simp add: upt_conv_Cons filter_map comp_def flip: map_Suc_upt del: upt_Suc)
  have "bucket_rows n (h # hs) k indices =
      bucket_rows n hs (k + 1) (indices[h mod n := indices ! (h mod n) @ [k]])"
    using Cons.prems(1) by simp
  also have "\<dots> = Inr (map (\<lambda>p. indices[h mod n := indices ! (h mod n) @ [k]] ! p @
      map (\<lambda>i. i + (k + 1)) (bucket n hs p)) [0 ..< n])"
    using Cons.prems by (intro Cons.IH) simp_all
  also have "\<dots> = Inr (map (\<lambda>p. indices ! p @ map (\<lambda>i. i + k) (bucket n (h # hs) p)) [0 ..< n])"
    unfolding sum.inject using Cons.prems(2) assms by (intro map_cong refl) (auto simp: b nth_list_update)
  finally show ?case .
qed

text \<open>The pieces of a batch.\<close>

definition piece :: "('b \<Rightarrow> nat list \<Rightarrow> 'b) \<Rightarrow> ('b \<Rightarrow> nat list) \<Rightarrow> nat \<Rightarrow> nat \<Rightarrow> 'b \<Rightarrow> 'b list" where
  "piece tk hs n p b = (if bucket n (hs b) p = [] then [] else [tk b (bucket n (hs b) p)])"

lemma repartition_batch_eq:
  assumes "0 < n" "length output = n" "num_rows ops b \<noteq> 0"
    "map_try (physical_batch_column_index ops b) keys = Inr cols" "row_hashes ops b cols = Inr (hs b)"
    "length (hs b) \<le> 2 ^ 32" "\<And>rows. take_rows ops b rows = Inr (tk b rows)"
  shows "repartition_batch ops keys n b output = Inr (map (\<lambda>p. output ! p @ piece tk hs n p b) [0 ..< n])"
proof -
  have "bucket_rows n (hs b) 0 (replicate n []) = Inr (map (bucket n (hs b)) [0 ..< n])"
    using bucket_rows_eq [OF assms(1), of "hs b" 0 "replicate n []"] assms(6) by simp
  then have "repartition_batch ops keys n b output =
      map_try (\<lambda>(rows, out). take_bucket ops b rows out) (zip (map (bucket n (hs b)) [0 ..< n]) output)"
    using assms(3-5) by (simp add: repartition_batch_def)
  also have "zip (map (bucket n (hs b)) [0 ..< n]) output = map (\<lambda>p. (bucket n (hs b) p, output ! p)) [0 ..< n]"
    using assms(2) by (intro nth_equalityI) simp_all
  also have "map_try (\<lambda>(rows, out). take_bucket ops b rows out) \<dots> =
      Inr (map (\<lambda>(rows, out). out @ (if rows = [] then [] else [tk b rows])) (map (\<lambda>p. (bucket n (hs b) p, output ! p)) [0 ..< n]))"
    by (rule map_try_Inr) (auto simp: take_bucket_def assms(7))
  finally show ?thesis by (simp add: piece_def comp_def)
qed

lemma repartition_loop_eq:
  assumes "0 < n"
  shows "length outs = n \<Longrightarrow>
    (\<And>b. b \<in> set batches \<Longrightarrow> num_rows ops b \<noteq> 0 \<Longrightarrow>
       map_try (physical_batch_column_index ops b) keys = Inr (cols b) \<and> row_hashes ops b (cols b) = Inr (hs b) \<and>
       length (hs b) \<le> 2 ^ 32 \<and> (\<forall>rows. take_rows ops b rows = Inr (tk b rows))) \<Longrightarrow>
    fold_try (repartition_batch ops keys n) batches outs =
      Inr (map (\<lambda>p. outs ! p @ concat (map (piece tk hs n p) (filter (\<lambda>b. num_rows ops b \<noteq> 0) batches))) [0 ..< n])"
proof (induction batches arbitrary: outs)
  case Nil
  then show ?case by simp (metis map_nth)
next
  case (Cons b bs)
  show ?case
  proof (cases "num_rows ops b = 0")
    case True
    then show ?thesis using Cons by (simp add: repartition_batch_def)
  next
    case False
    then have "repartition_batch ops keys n b outs = Inr (map (\<lambda>p. outs ! p @ piece tk hs n p b) [0 ..< n])"
      using Cons.prems(2) [of b] by (intro repartition_batch_eq [OF assms Cons.prems(1)]) auto
    moreover have "fold_try (repartition_batch ops keys n) bs (map (\<lambda>p. outs ! p @ piece tk hs n p b) [0 ..< n]) =
       Inr (map (\<lambda>q. map (\<lambda>p. outs ! p @ piece tk hs n p b) [0 ..< n] ! q @
         concat (map (piece tk hs n q) (filter (\<lambda>b. num_rows ops b \<noteq> 0) bs))) [0 ..< n])"
      using Cons.prems(2) by (intro Cons.IH) auto
    ultimately show ?thesis using False by simp
  qed
qed

lemma repartition_total:
  assumes "0 < n" "\<And>b. b \<in> set batches \<Longrightarrow> num_rows ops b \<noteq> 0 \<Longrightarrow>
       map_try (physical_batch_column_index ops b) keys = Inr (cols b) \<and> row_hashes ops b (cols b) = Inr (hs b) \<and>
       length (hs b) \<le> 2 ^ 32 \<and> (\<forall>rows. take_rows ops b rows = Inr (tk b rows))"
  shows "repartition_batches_by_hash ops batches keys n =
    Inr (map (\<lambda>p. concat (map (piece tk hs n p) (filter (\<lambda>b. num_rows ops b \<noteq> 0) batches))) [0 ..< n])"
  using repartition_loop_eq [OF assms(1), of "replicate n []" batches ops keys cols hs tk] assms
  by (simp add: repartition_batches_by_hash_def)

subsection \<open>Properties\<close>

text \<open>Batches for the witnesses: a batch is the list of the hashes of its rows.\<close>

definition demo_ops :: "nat list batch_ops" where
  "demo_ops = \<lparr>num_rows = length, memory_size = (\<lambda>b. 8 * length b), column_names = (\<lambda>_. [''k'']),
     row_hashes = (\<lambda>b _. Inr b), take_rows = (\<lambda>b rows. Inr (map (nth b) rows)), write_ipc = (\<lambda>_ bs. Inr (length bs))\<rparr>"

text \<open>
  C19: whatever the target size of a file, writing batches to a partition and reading its files back in
  order returns what was there before followed by the non-empty batches, in their order; no other
  partition changes, and the partition exists afterwards even when nothing was written.
\<close>

theorem shuffle_write_read_round_trip:
  assumes "writes_succeed ops" "store_ok store" "store_sequence store + length batches \<le> u64_max"
  shows "\<exists>store' paths. write_partition ops stage part batches store = Inr store' \<and>
    partition_files store' stage part = Inr paths \<and>
    concat (map (\<lambda>p. case disk store' p of Some bs \<Rightarrow> bs | None \<Rightarrow> []) paths) =
      contents store (stage, part) @ filter (\<lambda>b. num_rows ops b > 0) batches \<and>
    (\<forall>key. key \<noteq> (stage, part) \<longrightarrow> contents store' key = contents store key) \<and> store_ok store'"
proof -
  obtain store' where s: "write_partition ops stage part batches store = Inr store'"
      "appended (stage, part) (filter (\<lambda>b. num_rows ops b > 0) batches) (length batches) store store'"
      "(stage, part) \<in> dom (store_files store')"
    using write_partition_appends [OF assms] by blast
  then obtain paths where p: "partition_files store' stage part = Inr paths"
    by (auto simp: partition_files_def partition_artifacts_def)
  show ?thesis using s(1,2) p contents_read [OF p] by (auto simp: appended_def)
qed

theorem shuffle_write_read_round_trip_witness:
  "\<exists>store' paths. write_partition demo_ops 0 1 [[5, 6], [], [7]] (store_new ''tmp'' 1) = Inr store' \<and>
    partition_files store' 0 1 = Inr paths \<and>
    concat (map (\<lambda>p. case disk store' p of Some bs \<Rightarrow> bs | None \<Rightarrow> []) paths) = [[5, 6], [7]]"
proof -
  have "writes_succeed demo_ops" by (simp add: writes_succeed_def demo_ops_def)
  moreover have "store_ok (store_new ''tmp'' 1 :: nat list shuffle_store)"
    by (simp add: store_ok_def store_new_def files_of_def)
  moreover have "contents (store_new ''tmp'' 1) (0, 1) = ([] :: nat list list)"
    by (simp add: contents_def store_new_def files_of_def)
  ultimately show ?thesis
    using shuffle_write_read_round_trip [of demo_ops "store_new ''tmp'' 1" "[[5, 6], [], [7]]" 0 1]
    by (auto simp: demo_ops_def store_new_def)
qed

text \<open>
  C21: hash repartitioning into \<open>n\<close> partitions gives partition \<open>p\<close>, for every non-empty batch in order, the
  rows whose hash is congruent to \<open>p\<close> modulo \<open>n\<close>, in their order: every row goes to exactly one partition.
\<close>

theorem repartition_distributes_rows:
  assumes "0 < n" "\<And>b. b \<in> set batches \<Longrightarrow> num_rows ops b \<noteq> 0 \<Longrightarrow>
       map_try (physical_batch_column_index ops b) keys = Inr (cols b) \<and> row_hashes ops b (cols b) = Inr (hs b) \<and>
       length (hs b) = num_rows ops b \<and> num_rows ops b \<le> 2 ^ 32 \<and> (\<forall>rows. take_rows ops b rows = Inr (tk b rows))"
  shows "repartition_batches_by_hash ops batches keys n =
      Inr (map (\<lambda>p. concat (map (piece tk hs n p) (filter (\<lambda>b. num_rows ops b \<noteq> 0) batches))) [0 ..< n]) \<and>
    (\<forall>b \<in> set batches. num_rows ops b \<noteq> 0 \<longrightarrow>
      (\<forall>i < num_rows ops b. \<forall>p < n. i \<in> set (bucket n (hs b) p) \<longleftrightarrow> p = hs b ! i mod n) \<and>
      (\<forall>p. sorted (bucket n (hs b) p) \<and> distinct (bucket n (hs b) p)))"
proof
  show "repartition_batches_by_hash ops batches keys n =
      Inr (map (\<lambda>p. concat (map (piece tk hs n p) (filter (\<lambda>b. num_rows ops b \<noteq> 0) batches))) [0 ..< n])"
    by (rule repartition_total [OF assms(1)]) (use assms(2) in fastforce)
  show "\<forall>b \<in> set batches. num_rows ops b \<noteq> 0 \<longrightarrow>
      (\<forall>i < num_rows ops b. \<forall>p < n. i \<in> set (bucket n (hs b) p) \<longleftrightarrow> p = hs b ! i mod n) \<and>
      (\<forall>p. sorted (bucket n (hs b) p) \<and> distinct (bucket n (hs b) p))"
    using assms(2) by (auto simp: bucket_def sorted_wrt_filter)
qed

theorem repartition_distributes_rows_witness:
  "repartition_batches_by_hash demo_ops [[5, 6, 9], []] [''t.k''] 2 = Inr [[[6]], [[5, 9]]]"
proof -
  let ?tk = "\<lambda>b rows. map (nth b) rows"
  have k: "map_try (physical_batch_column_index demo_ops b) [''t.k''] = Inr [0]" for b
    by (simp add: physical_batch_column_index_def demo_ops_def rsplit_once_def)
  have e: "map (\<lambda>p. concat (map (piece ?tk (\<lambda>b. b) 2 p) (filter (\<lambda>b. num_rows demo_ops b \<noteq> 0) [[5, 6, 9], []]))) [0 ..< 2] =
      [[[6]], [[5, 9]]]"
    by code_simp
  show ?thesis
    using repartition_distributes_rows [of 2 "[[5, 6, 9], []]" demo_ops "[''t.k'']" "\<lambda>_. [0]" "\<lambda>b. b" ?tk]
    unfolding e k by (simp add: demo_ops_def)
qed

end
