(* ===== verification/Local_Execution.thy ===== *)
theory Local_Execution
  imports Shuffle_Store
begin

text \<open>
  The local execution of a stage graph in \<open>engine.rs\<close>: a task is run on its stage's plan with the task's
  fragments in the scan and the shuffle files in place of the exchanges; a stage runs once all its input
  stages have, and its output goes to the shuffle store or, for the last stage, to the result.

  Running an operator tree (\<open>execute_physical_plan_node\<close> and collecting its stream) is the parameter
  \<open>exec\<close>, a function of the files on disk and the plan.  Metric counters are left out.
\<close>

subsection \<open>Tasks\<close>

fun replace_scan_fragments :: "file_fragment list \<Rightarrow> 'b plan_node \<Rightarrow> 'b plan_node" where
  "replace_scan_fragments fragments (PlanNode op attrs cs p ord ex) =
     PlanNode op attrs (map (replace_scan_fragments fragments) cs) p ord
       (case ex of Some (CfgScan _ bsize proj preds) \<Rightarrow> Some (CfgScan fragments bsize proj preds) | _ \<Rightarrow> ex)"

text \<open>The number of scans replaced.\<close>

fun scan_nodes :: "'b plan_node \<Rightarrow> nat" where
  "scan_nodes (PlanNode op attrs cs p ord ex) =
     (case ex of Some (CfgScan _ _ _ _) \<Rightarrow> 1 | _ \<Rightarrow> 0) + sum_list (map scan_nodes cs)"

definition physical_plan_with_scan_fragments :: "'b plan_node \<Rightarrow> file_fragment list \<Rightarrow> dodam_error + 'b plan_node" where
  "physical_plan_with_scan_fragments plan fragments =
     (if scan_nodes plan = 1 then Inr (replace_scan_fragments fragments plan)
      else Inl (UnsupportedSql (''task execution expects exactly one scan node, found '' @ show_nat (scan_nodes plan))))"

definition exchange_matching_inputs ::
    "'b plan_node \<Rightarrow> (nat \<times> nat) list \<Rightarrow> dodam_error + (nat \<times> nat) list" where
  "exchange_matching_inputs exchange inputs =
     (case plan_attr exchange ''input_stage'' of
        None \<Rightarrow> Inr inputs
      | Some input_stage \<Rightarrow>
          (case parse_usize input_stage of
             None \<Rightarrow> Inl (UnsupportedSql (''invalid exchange input_stage='' @ input_stage))
           | Some i \<Rightarrow> Inr (filter (\<lambda>(stage, _). stage = i) inputs)))"

definition exchange_files ::
    "'b shuffle_store \<Rightarrow> (nat \<times> nat) list \<Rightarrow> 'b plan_node \<Rightarrow> exchange_kind \<Rightarrow> dodam_error + 'b plan_node" where
  "exchange_files store inputs exchange kind =
     try_bind (exchange_matching_inputs exchange inputs) (\<lambda>matching.
       if matching = []
       then Inl (UnsupportedSql ''exchange input stage has no matching shuffle inputs'')
       else
         try_bind (map_try (\<lambda>(stage, part). partition_files store stage part) matching) (\<lambda>files.
           case kind of
             Broadcast \<Rightarrow> Inl (UnsupportedSql ''local shuffle execution does not support broadcast exchange yet'')
           | _ \<Rightarrow> Inr (node_ipc (concat files))))"

text \<open>The plan with the exchanges replaced, and how many there were.\<close>

fun replace_shuffle_inputs ::
    "'b shuffle_store \<Rightarrow> (nat \<times> nat) list \<Rightarrow> 'b plan_node \<Rightarrow> dodam_error + ('b plan_node \<times> nat)" where
  "replace_shuffle_inputs store inputs (PlanNode op attrs cs p ord ex) =
     (case op of
        OpExchange kind \<Rightarrow>
          try_bind (exchange_files store inputs (PlanNode op attrs cs p ord ex) kind) (\<lambda>node. Inr (node, 1))
      | _ \<Rightarrow>
          try_bind (map_try (replace_shuffle_inputs store inputs) cs) (\<lambda>rs.
            Inr (PlanNode op attrs (map fst rs) p ord ex, sum_list (map snd rs))))"

definition physical_plan_with_shuffle_inputs ::
    "'b plan_node \<Rightarrow> (nat \<times> nat) list \<Rightarrow> 'b shuffle_store \<Rightarrow> dodam_error + 'b plan_node" where
  "physical_plan_with_shuffle_inputs plan inputs store =
     try_bind (replace_shuffle_inputs store inputs plan) (\<lambda>(plan, replacements).
       if replacements > 0 then Inr plan
       else Inl (UnsupportedSql ''task execution expected at least one exchange input''))"

type_synonym 'b executor = "(string \<rightharpoonup> 'b list) \<Rightarrow> 'b plan_node \<Rightarrow> dodam_error + 'b list"

definition scan_inputs :: "task_input list \<Rightarrow> file_fragment list" where
  "scan_inputs inputs = List.map_filter (\<lambda>i. case i of ScanFragment f \<Rightarrow> Some f | _ \<Rightarrow> None) inputs"

definition shuffle_reads :: "task_input list \<Rightarrow> (nat \<times> nat) list" where
  "shuffle_reads inputs =
     List.map_filter (\<lambda>i. case i of ShufflePartition s p \<Rightarrow> Some (s, p) | _ \<Rightarrow> None) inputs"

definition execute_task :: "'b executor \<Rightarrow> 'b shuffle_store \<Rightarrow> 'b task_plan \<Rightarrow> dodam_error + 'b list" where
  "execute_task exec store task =
     (let fragments = scan_inputs (task_inputs task); shuffle = shuffle_reads (task_inputs task)
      in try_bind (if fragments = [] then Inr (task_root task)
                   else physical_plan_with_scan_fragments (task_root task) fragments) (\<lambda>root.
         try_bind (if shuffle = [] then Inr root
                   else physical_plan_with_shuffle_inputs root shuffle store) (\<lambda>root.
         exec (disk store) root)))"

subsection \<open>Stages\<close>

record 'b exec_state =
  executed :: "nat list"
  shuffle :: "'b shuffle_store"
  result_streams :: "'b list list"

definition store_output ::
    "'b batch_ops \<Rightarrow> nat set \<Rightarrow> 'b stage_plan \<Rightarrow> 'b task_plan \<Rightarrow> 'b list \<Rightarrow> 'b exec_state \<Rightarrow>
       dodam_error + 'b exec_state" where
  "store_output ops downstream stage task batches st =
     (if task_stage_id task \<in> downstream then
        (case stage_partitioning stage of
           PartHash keys partitions \<Rightarrow>
             try_bind (repartition_batches_by_hash ops batches keys partitions) (\<lambda>partitioned.
             try_bind (fold_try (\<lambda>(part, bs). write_partition ops (task_stage_id task) part bs)
               (enumerate 0 partitioned) (shuffle st)) (\<lambda>store.
             Inr (st\<lparr>shuffle := store\<rparr>)))
         | _ \<Rightarrow>
             try_bind (write_partition ops (task_stage_id task) (task_partition task) batches (shuffle st)) (\<lambda>store.
             Inr (st\<lparr>shuffle := store\<rparr>)))
      else Inr (st\<lparr>result_streams := result_streams st @ [batches]\<rparr>))"

definition run_task ::
    "'b batch_ops \<Rightarrow> 'b executor \<Rightarrow> nat set \<Rightarrow> 'b stage_plan \<Rightarrow> 'b task_plan \<Rightarrow> 'b exec_state \<Rightarrow>
       dodam_error + 'b exec_state" where
  "run_task ops exec downstream stage task st =
     try_bind (execute_task exec (shuffle st) task) (\<lambda>batches. store_output ops downstream stage task batches st)"

definition stage_ready :: "nat list \<Rightarrow> 'b stage_plan \<Rightarrow> bool" where
  "stage_ready finished stage \<longleftrightarrow> stage_id stage \<notin> set finished \<and> (\<forall>i \<in> set (input_stages stage). i \<in> set finished)"

text \<open>One stage of the \<open>for\<close> loop; the flag is \<open>progressed\<close>.\<close>

definition run_stage ::
    "'b batch_ops \<Rightarrow> 'b executor \<Rightarrow> nat set \<Rightarrow> 'b task_plan list \<Rightarrow> 'b stage_plan \<Rightarrow> bool \<times> 'b exec_state \<Rightarrow>
       dodam_error + (bool \<times> 'b exec_state)" where
  "run_stage ops exec downstream tasks stage progress_st =
     (let (progressed, st) = progress_st
      in if stage_ready (executed st) stage then
           try_bind (fold_try (run_task ops exec downstream stage)
               (filter (\<lambda>t. task_stage_id t = stage_id stage) tasks) st) (\<lambda>st.
             Inr (True, st\<lparr>executed := executed st @ [stage_id stage]\<rparr>))
         else Inr (progressed, st))"

definition downstream_stages :: "'b stage_plan list \<Rightarrow> nat set" where
  "downstream_stages stages = set (concat (map input_stages stages))"

definition run_round ::
    "'b batch_ops \<Rightarrow> 'b executor \<Rightarrow> 'b execution_graph \<Rightarrow> 'b exec_state \<Rightarrow> dodam_error + (bool \<times> 'b exec_state)" where
  "run_round ops exec graph st =
     fold_try (run_stage ops exec (downstream_stages (graph_stages graph)) (graph_tasks graph))
       (graph_stages graph) (False, st)"

lemma run_task_executed: "run_task ops exec ds stage task st = Inr st' \<Longrightarrow> executed st' = executed st"
  by (auto simp: run_task_def store_output_def rust_simps split: if_splits partitioning.splits)

lemma fold_run_task_executed:
  "fold_try (run_task ops exec ds stage) ts st = Inr st' \<Longrightarrow> executed st' = executed st"
  by (induction ts arbitrary: st) (auto simp: rust_simps dest: run_task_executed)

lemma run_stage_executed:
  "run_stage ops exec ds tasks stage (b, st) = Inr (b', st') \<Longrightarrow>
     (\<exists>new. executed st' = executed st @ new \<and> set new \<subseteq> {stage_id stage} - set (executed st) \<and> (b' \<longleftrightarrow> b \<or> new \<noteq> []))"
  by (auto simp: run_stage_def stage_ready_def rust_simps split: if_splits dest!: fold_run_task_executed)

lemma fold_run_stage_executed:
  "fold_try (run_stage ops exec ds tasks) stages (b, st) = Inr (b', st') \<Longrightarrow>
     \<exists>new. executed st' = executed st @ new \<and> set new \<subseteq> stage_id ` set stages - set (executed st) \<and> (b' \<longleftrightarrow> b \<or> new \<noteq> [])"
proof (induction stages arbitrary: b st)
  case (Cons s ss)
  then obtain b1 st1 where 1: "run_stage ops exec ds tasks s (b, st) = Inr (b1, st1)"
    "fold_try (run_stage ops exec ds tasks) ss (b1, st1) = Inr (b', st')"
    by (auto simp: rust_simps)
  from run_stage_executed [OF 1(1)] Cons.IH [OF 1(2)] show ?case by fastforce
qed simp

function run_graph ::
    "'b batch_ops \<Rightarrow> 'b executor \<Rightarrow> 'b execution_graph \<Rightarrow> 'b exec_state \<Rightarrow> dodam_error + 'b exec_state" where
  "run_graph ops exec graph st =
     (if length (executed st) < length (graph_stages graph) then
        try_bind (run_round ops exec graph st) (\<lambda>(progressed, st).
          if \<not> progressed
          then Inl (UnsupportedSql ''execution graph contains cyclic or missing stage dependencies'')
          else run_graph ops exec graph st)
      else Inr st)"
  by pat_completeness auto

termination
proof (relation "measure (\<lambda>(ops, exec, graph, st). card (stage_id ` set (graph_stages graph) - set (executed st)))",
    goal_cases)
  case (2 ops exec graph st x progressed st')
  then have r: "fold_try (run_stage ops exec (downstream_stages (graph_stages graph)) (graph_tasks graph))
      (graph_stages graph) (False, st) = Inr (True, st')"
    by (auto simp: run_round_def)
  from fold_run_stage_executed [OF r] obtain new where "executed st' = executed st @ new"
    "set new \<subseteq> stage_id ` set (graph_stages graph) - set (executed st)" "new \<noteq> []"
    by auto
  then have "stage_id ` set (graph_stages graph) - set (executed st') \<subset>
      stage_id ` set (graph_stages graph) - set (executed st)"
    by (cases new) auto
  then show ?case by (simp add: psubset_card_mono)
qed simp

declare run_graph.simps [simp del]

definition execute_execution_graph_locally ::
    "'b batch_ops \<Rightarrow> 'b executor \<Rightarrow> string \<Rightarrow> nat \<Rightarrow> 'b execution_graph \<Rightarrow> dodam_error + 'b exec_state" where
  "execute_execution_graph_locally ops exec tmp target graph =
     run_graph ops exec graph \<lparr>executed = [], shuffle = store_new tmp target, result_streams = []\<rparr>"

subsection \<open>Lemmas\<close>

text \<open>Writing creates the partition and forgets no other, unless a file cannot be written.\<close>

definition write_fault :: "'b batch_ops \<Rightarrow> dodam_error \<Rightarrow> bool" where
  "write_fault ops e \<longleftrightarrow> (\<exists>path batches. write_ipc ops path batches = Inl e)"

lemma write_partition_file_dom:
  "case write_partition_file ops stage part batches store of
     Inl e \<Rightarrow> write_fault ops e | Inr store' \<Rightarrow> dom (store_files store) \<subseteq> dom (store_files store')"
  by (cases "write_ipc ops (shuffle_path (store_root store) stage part (store_sequence store)) batches")
    (auto simp: write_partition_file_def write_fault_def Let_def)

lemma write_batches_dom:
  "case write_batches ops stage part bs current bytes store of
     Inl e \<Rightarrow> write_fault ops e | Inr store' \<Rightarrow> dom (store_files store) \<subseteq> dom (store_files store')"
proof (induction bs arbitrary: current bytes store)
  case Nil
  then show ?case using write_partition_file_dom [where ops = ops and stage = stage and part = part and batches = current and store = store] by simp
next
  case (Cons b bs)
  let ?w = "max (u64_sat (memory_size ops b)) 1"
  show ?case
  proof (cases "current \<noteq> [] \<and> u64_sat (bytes + ?w) > file_target_bytes store")
    case False
    then show ?thesis using Cons.IH [of store "current @ [b]" "u64_sat (bytes + ?w)"] by (auto simp: Let_def)
  next
    case True
    show ?thesis
    proof (cases "write_partition_file ops stage part current store")
      case (Inl e)
      then show ?thesis using True write_partition_file_dom [where ops = ops and stage = stage and part = part and batches = current and store = store] by (simp add: Let_def)
    next
      case (Inr s1)
      then show ?thesis
        using True write_partition_file_dom [where ops = ops and stage = stage and part = part and batches = current and store = store] Cons.IH [of s1 "[b]" ?w]
        by (auto simp: Let_def split: sum.splits)
    qed
  qed
qed

lemma write_partition_dom:
  "case write_partition ops stage part batches store of
     Inl e \<Rightarrow> write_fault ops e
   | Inr store' \<Rightarrow> insert (stage, part) (dom (store_files store)) \<subseteq> dom (store_files store')"
  using write_batches_dom [where ops = ops and stage = stage and part = part and current = "[]" and bytes = 0 and store = store
      and bs = "filter (\<lambda>b. num_rows ops b > 0) batches"]
  by (cases "write_batches ops stage part (filter (\<lambda>b. num_rows ops b > 0) batches) [] 0 store")
    (auto simp: write_partition_def)

lemma write_all_dom:
  "case fold_try (\<lambda>(part, bs). write_partition ops stage part bs) (enumerate k parts) store of
     Inl e \<Rightarrow> write_fault ops e
   | Inr store' \<Rightarrow> dom (store_files store) \<union> {stage} \<times> {k ..< k + length parts} \<subseteq> dom (store_files store')"
proof (induction parts arbitrary: k store)
  case (Cons bs parts)
  show ?case
  proof (cases "write_partition ops stage k bs store")
    case (Inl e)
    then show ?thesis using write_partition_dom [where ops = ops and stage = stage and part = k and batches = bs and store = store] by simp
  next
    case (Inr s1)
    have "{stage} \<times> {k ..< k + length (bs # parts)} = insert (stage, k) ({stage} \<times> {Suc k ..< Suc k + length parts})"
      by auto
    then show ?thesis
      using Inr write_partition_dom [where ops = ops and stage = stage and part = k and batches = bs and store = store] Cons.IH [of s1 "Suc k"]
      by (auto split: sum.splits) (meson domD domI subsetD)+
  qed
qed simp

text \<open>Repartitioning returns one list per partition.\<close>

lemma map_try_length: "map_try f xs = Inr ys \<Longrightarrow> length ys = length xs"
  by (induction xs arbitrary: ys) (auto simp: rust_simps)

lemma bucket_rows_length: "bucket_rows n hs k indices = Inr out \<Longrightarrow> length out = length indices"
  by (induction hs arbitrary: k indices) (auto split: if_splits)

lemma repartition_batch_length:
  "repartition_batch ops keys n b outs = Inr outs' \<Longrightarrow> length outs = n \<Longrightarrow> length outs' = n"
  by (auto simp: repartition_batch_def rust_simps split: if_splits dest!: map_try_length bucket_rows_length)

lemma repartition_length:
  assumes "repartition_batches_by_hash ops bs keys n = Inr outs"
  shows "length outs = n"
proof -
  have "fold_try (repartition_batch ops keys n) bs start = Inr outs \<Longrightarrow> length start = n \<Longrightarrow> length outs = n" for start
    by (induction bs arbitrary: start) (auto simp: rust_simps dest: repartition_batch_length)
  then show ?thesis using assms by (auto simp: repartition_batches_by_hash_def split: if_splits)
qed

text \<open>Replacing the exchanges of a stage succeeds when every partition they read exists.\<close>

lemma map_try_total:
  "(\<And>x. x \<in> set xs \<Longrightarrow> \<exists>y. f x = Inr y) \<Longrightarrow> \<exists>ys. map_try f xs = Inr ys \<and> list_all2 (\<lambda>x y. f x = Inr y) xs ys"
  by (induction xs) fastforce+

lemma exchange_files_ok:
  assumes "map_of attrs ''input_stage'' = Some (show_nat i)" "i \<le> u64_max" "kind \<noteq> Broadcast"
    "\<exists>p. (i, p) \<in> set inputs" "\<And>p. (i, p) \<in> set inputs \<Longrightarrow> (i, p) \<in> dom (store_files store)"
  shows "\<exists>node. exchange_files store inputs (PlanNode op attrs cs q ord ex) kind = Inr node"
proof -
  let ?m = "filter (\<lambda>(stage, _). stage = i) inputs"
  have m: "exchange_matching_inputs (PlanNode op attrs cs q ord ex) inputs = Inr ?m"
    using assms(1,2) by (simp add: exchange_matching_inputs_def plan_attr_def)
  have "?m \<noteq> []" using assms(4) by (auto simp: filter_empty_conv)
  moreover have "\<exists>ys. map_try (\<lambda>(stage, part). partition_files store stage part) ?m = Inr ys \<and>
      list_all2 (\<lambda>x y. (\<lambda>(stage, part). partition_files store stage part) x = Inr y) ?m ys"
    using assms(5) by (intro map_try_total) (force simp: partition_files_def partition_artifacts_def)
  ultimately show ?thesis using m assms(3)
    by (cases kind) (auto simp: exchange_files_def)
qed

definition readable :: "'b shuffle_store \<Rightarrow> (nat \<times> nat) list \<Rightarrow> nat \<Rightarrow> bool" where
  "readable store inputs i \<longleftrightarrow> i \<le> u64_max \<and> (\<exists>p. (i, p) \<in> set inputs) \<and>
     (\<forall>p. (i, p) \<in> set inputs \<longrightarrow> (i, p) \<in> dom (store_files store))"

lemma replace_shuffle_inputs_ok:
  "(\<And>a. a \<in> set (exchange_attrs n) \<Longrightarrow> \<exists>i. a = Some (show_nat i) \<and> readable store inputs i) \<Longrightarrow>
     \<exists>n'. replace_shuffle_inputs store inputs n = Inr (n', length (exchange_attrs n))"
proof (induction n)
  case (PlanNode op attrs cs p ord ex)
  show ?case
  proof (cases "\<exists>k. op = OpExchange k")
    case True
    then obtain kind where op: "op = OpExchange kind" by blast
    then obtain i where "kind \<noteq> Broadcast" "map_of attrs ''input_stage'' = Some (show_nat i)" "readable store inputs i"
      using PlanNode.prems [of "if kind = Broadcast then None else map_of attrs ''input_stage''"]
      by (auto split: if_splits)
    then have "\<exists>node. exchange_files store inputs (PlanNode op attrs cs p ord ex) kind = Inr node"
      by (intro exchange_files_ok) (auto simp: readable_def)
    then show ?thesis using op by auto
  next
    case False
    then have e: "exchange_attrs (PlanNode op attrs cs p ord ex) = concat (map exchange_attrs cs)"
      by (cases op) simp_all
    from False have r: "replace_shuffle_inputs store inputs (PlanNode op attrs cs p ord ex) =
        try_bind (map_try (replace_shuffle_inputs store inputs) cs) (\<lambda>rs.
            Inr (PlanNode op attrs (map fst rs) p ord ex, sum_list (map snd rs)))"
      by (cases op) simp_all
    have c: "\<exists>n'. replace_shuffle_inputs store inputs c = Inr (n', length (exchange_attrs c))" if "c \<in> set cs" for c
      using that PlanNode.IH [OF that] PlanNode.prems unfolding e by auto
    from map_try_total [of cs "replace_shuffle_inputs store inputs"] c obtain rs where
      rs: "map_try (replace_shuffle_inputs store inputs) cs = Inr rs"
        "list_all2 (\<lambda>x y. replace_shuffle_inputs store inputs x = Inr y) cs rs"
      by blast
    from rs(2) c have "map snd rs = map (\<lambda>c. length (exchange_attrs c)) cs"
      by (induction rule: list_all2_induct) (auto, metis Inr_inject list.set_intros(1) snd_conv)
    then show ?thesis unfolding r e rs(1) by (simp add: length_concat comp_def)
  qed
qed

text \<open>
  The plan a task runs: its stage's plan with the fragments and files in place.  It can be made when the
  shuffle inputs cover the input stages and exist, or when there is one scan.
\<close>

definition prepared_plan :: "'b shuffle_store \<Rightarrow> 'b task_plan \<Rightarrow> dodam_error + 'b plan_node" where
  "prepared_plan store task =
     try_bind (if scan_inputs (task_inputs task) = [] then Inr (task_root task)
               else physical_plan_with_scan_fragments (task_root task) (scan_inputs (task_inputs task))) (\<lambda>root.
       if shuffle_reads (task_inputs task) = [] then Inr root
       else physical_plan_with_shuffle_inputs root (shuffle_reads (task_inputs task)) store)"

lemma execute_task_prepared: "execute_task exec store task = try_bind (prepared_plan store task) (exec (disk store))"
proof -
  have assoc: "try_bind (try_bind x f) g = try_bind x (\<lambda>y. try_bind (f y) g)"
    for x :: "dodam_error + 'b plan_node" and f and g :: "'b plan_node \<Rightarrow> dodam_error + 'b list"
    by (cases x) simp_all
  show ?thesis unfolding execute_task_def prepared_plan_def Let_def assoc ..
qed

lemma map_filter_ScanFragment [simp]: "scan_inputs (map ScanFragment fs) = fs" "shuffle_reads (map ScanFragment fs) = []"
  by (induction fs) (simp_all add: scan_inputs_def shuffle_reads_def List.map_filter_simps)

lemma shuffle_only [simp]:
  "(\<And>x. x \<in> set xs \<Longrightarrow> \<exists>i p. x = ShufflePartition i p) \<Longrightarrow> scan_inputs xs = []"
  by (induction xs) (fastforce simp: scan_inputs_def List.map_filter_simps split: task_input.splits)+

lemma set_shuffle_reads: "(i, p) \<in> set (shuffle_reads xs) \<longleftrightarrow> ShufflePartition i p \<in> set xs"
  by (induction xs) (auto simp: shuffle_reads_def List.map_filter_simps split: task_input.splits option.splits)

lemma prepared_scan_task:
  "task_inputs t = map ScanFragment fs \<Longrightarrow> scan_nodes (task_root t) = 1 \<Longrightarrow> \<exists>node. prepared_plan store t = Inr node"
  by (auto simp: prepared_plan_def physical_plan_with_scan_fragments_def)

lemma prepared_shuffle_task:
  assumes "exchange_attrs (task_root t) = map (\<lambda>i. Some (show_nat i)) ins"
    "\<And>x. x \<in> set (task_inputs t) \<Longrightarrow> \<exists>i p. x = ShufflePartition i p \<and> i \<in> set ins"
    "\<And>i. i \<in> set ins \<Longrightarrow> readable store (shuffle_reads (task_inputs t)) i"
  shows "\<exists>node. prepared_plan store t = Inr node"
proof -
  have s: "scan_inputs (task_inputs t) = []" using assms(2) by (intro shuffle_only) blast
  show ?thesis
  proof (cases "shuffle_reads (task_inputs t) = []")
    case True
    then show ?thesis using s by (simp add: prepared_plan_def)
  next
    case False
    then obtain i p where "(i, p) \<in> set (shuffle_reads (task_inputs t))"
      by (cases "shuffle_reads (task_inputs t)") auto
    then have "ins \<noteq> []" using assms(2) by (auto simp: set_shuffle_reads)
    moreover obtain root where
      "replace_shuffle_inputs store (shuffle_reads (task_inputs t)) (task_root t) = Inr (root, length ins)"
      using replace_shuffle_inputs_ok [of "task_root t" store "shuffle_reads (task_inputs t)"] assms(1,3) by auto
    ultimately show ?thesis using s False by (simp add: prepared_plan_def physical_plan_with_shuffle_inputs_def)
  qed
qed

text \<open>The tasks of a stage.\<close>

lemma stage_tasks_stage: "t \<in> set (stage_tasks stages s) \<Longrightarrow> task_stage_id t = stage_id s \<and> task_root t = stage_root s"
  by (auto simp: stage_tasks_def Let_def split: if_splits)

lemma stage_tasks_nonempty: "stage_tasks stages s \<noteq> []"
proof -
  have "enumerate 0 fs = [] \<longleftrightarrow> fs = []" for fs :: "file_fragment list" by (metis length_0_conv length_enumerate)
  then show ?thesis by (auto simp: stage_tasks_def Let_def)
qed

lemma stage_tasks_single: "t \<in> set (stage_tasks stages s) \<Longrightarrow> stage_partitioning s = PartSingle \<Longrightarrow> task_partition t = 0"
  by (auto simp: stage_tasks_def Let_def partition_count_def split: if_splits)

lemma tasks_of_stage:
  "stages_ok j ss \<Longrightarrow> filter (\<lambda>t. task_stage_id t = k) (concat (map (stage_tasks stages) ss)) =
     (if j \<le> k \<and> k < j + length ss then stage_tasks stages (ss ! (k - j)) else [])"
proof (induction ss arbitrary: j)
  case (Cons s ss)
  have "filter (\<lambda>t. task_stage_id t = k) (stage_tasks stages s) = (if j = k then stage_tasks stages s else [])"
    using Cons.prems stage_tasks_stage [of _ stages s] by (auto simp: filter_empty_conv filter_id_conv)
  with Cons.IH [of "Suc j"] Cons.prems show ?case by (auto simp: nth_Cons' Suc_diff_le)
qed auto

lemma task_inputs_cases:
  assumes "t \<in> set (stage_tasks stages s)"
  shows "(input_stages s = [] \<and> scan_fragments (stage_root s) \<noteq> [] \<and> (\<exists>fs. task_inputs t = map ScanFragment fs)) \<or>
    (\<exists>n q. task_inputs t = concat (map (shuffle_inputs stages n q) (input_stages s)))"
proof (cases "scan_fragments (stage_root s) \<noteq> [] \<and> input_stages s = []")
  case True
  then have "\<exists>fs. task_inputs t = map ScanFragment fs"
    using assms by (auto simp: stage_tasks_def Let_def split: if_splits intro: exI [of _ "[_]"])
  with True show ?thesis by blast
next
  case False
  then obtain q where "task_inputs t =
      concat (map (shuffle_inputs stages (max (partition_count (stage_partitioning s)) 1) q) (input_stages s))"
    using assms by (auto simp: stage_tasks_def Let_def)
  then show ?thesis by blast
qed

lemma shuffle_inputs_spec:
  "x \<in> set (shuffle_inputs stages n q i) \<Longrightarrow> \<exists>p. x = ShufflePartition i p \<and> p < input_partition_count stages i"
  "shuffle_inputs stages n q i \<noteq> []"
proof -
  have "0 < input_partition_count stages i" by (simp add: input_partition_count_def max_def split: option.splits)
  then show "x \<in> set (shuffle_inputs stages n q i) \<Longrightarrow> \<exists>p. x = ShufflePartition i p \<and> p < input_partition_count stages i"
    "shuffle_inputs stages n q i \<noteq> []"
    by (auto simp: shuffle_inputs_def Let_def split: if_splits)
qed

text \<open>All partitions of a stage are in the store.\<close>

definition covered :: "'b shuffle_store \<Rightarrow> 'b stage_plan \<Rightarrow> bool" where
  "covered store s \<longleftrightarrow> {stage_id s} \<times> {0 ..< task_count s} \<subseteq> dom (store_files store)"

text \<open>
  The errors that are a task's own: its plan is run and fails, its output has no place under the keys of its
  stage, or a file cannot be written.
\<close>

definition output_fault :: "'b batch_ops \<Rightarrow> 'b stage_plan \<Rightarrow> 'b list \<Rightarrow> dodam_error \<Rightarrow> bool" where
  "output_fault ops s batches e \<longleftrightarrow>
     (\<exists>keys n. stage_partitioning s = PartHash keys n \<and> repartition_batches_by_hash ops batches keys n = Inl e) \<or>
     write_fault ops e"

definition task_fault ::
    "'b batch_ops \<Rightarrow> 'b executor \<Rightarrow> 'b shuffle_store \<Rightarrow> 'b stage_plan \<Rightarrow> 'b task_plan \<Rightarrow> dodam_error \<Rightarrow> bool" where
  "task_fault ops exec store s t e \<longleftrightarrow>
     (\<exists>node. prepared_plan store t = Inr node \<and>
       (case exec (disk store) node of Inl e' \<Rightarrow> e' = e | Inr batches \<Rightarrow> output_fault ops s batches e))"

text \<open>A stage that scans several tables, and the error it is refused with.\<close>

definition several_scans :: "'b stage_plan \<Rightarrow> dodam_error \<Rightarrow> bool" where
  "several_scans s e \<longleftrightarrow> input_stages s = [] \<and> scan_fragments (stage_root s) \<noteq> [] \<and> scan_nodes (stage_root s) \<noteq> 1 \<and>
     e = UnsupportedSql (''task execution expects exactly one scan node, found '' @ show_nat (scan_nodes (stage_root s)))"

lemma store_output_ok:
  assumes "t \<in> set (stage_tasks stages s)" "stage_id s \<in> ds \<Longrightarrow> shuffle_output (stage_partitioning s)"
  shows "case store_output ops ds s t bs st of
      Inl e \<Rightarrow> output_fault ops s bs e
    | Inr st' \<Rightarrow> executed st' = executed st \<and> dom (store_files (shuffle st)) \<subseteq> dom (store_files (shuffle st')) \<and>
        (if stage_id s \<in> ds then covered (shuffle st') s \<and> result_streams st' = result_streams st
         else result_streams st' = result_streams st @ [bs])"
proof (cases "stage_id s \<in> ds")
  case False
  then show ?thesis using stage_tasks_stage [OF assms(1)] by (simp add: store_output_def)
next
  case True
  note t = stage_tasks_stage [OF assms(1)]
  from assms(2) [OF True] consider "stage_partitioning s = PartSingle" | keys n where "stage_partitioning s = PartHash keys n" "0 < n"
    by (auto simp: shuffle_output_def)
  then show ?thesis
  proof cases
    case 1
    then show ?thesis
      using True t stage_tasks_single [OF assms(1) 1] write_partition_dom [where ops = ops and stage = "stage_id s" and part = 0 and batches = bs and store = "shuffle st"]
      by (cases "write_partition ops (stage_id s) 0 bs (shuffle st)")
        (auto simp: store_output_def output_fault_def covered_def task_count_def partition_count_def)
  next
    case 2
    show ?thesis
    proof (cases "repartition_batches_by_hash ops bs keys n")
      case (Inl e)
      then show ?thesis using True 2 t by (simp add: store_output_def output_fault_def)
    next
      case (Inr ps)
      have c: "task_count s = length ps" using repartition_length [OF Inr] 2 by (simp add: task_count_def partition_count_def)
      show ?thesis
        using True 2 t Inr c write_all_dom [where ops = ops and stage = "stage_id s" and k = 0 and parts = ps and store = "shuffle st"]
        by (cases "fold_try (\<lambda>(part, bs). write_partition ops (stage_id s) part bs) (enumerate 0 ps) (shuffle st)")
          (auto simp: store_output_def output_fault_def covered_def)
    qed
  qed
qed

text \<open>A plan of the planner whose stages can be numbered.\<close>

definition runnable :: "'b plan_node \<Rightarrow> bool" where
  "runnable root \<longleftrightarrow> stageable root \<and> length (split_stages root) \<le> u64_max"

lemma prepared_plan_ok:
  assumes "runnable root" "k < length (split_stages root)"
    "t \<in> set (stage_tasks (split_stages root) (split_stages root ! k))"
    "\<And>j. j < k \<Longrightarrow> covered store (split_stages root ! j)"
  shows "(\<exists>node. prepared_plan store t = Inr node) \<or>
    (\<exists>e. prepared_plan store t = Inl e \<and> several_scans (split_stages root ! k) e)"
proof -
  let ?ss = "split_stages root" and ?s = "split_stages root ! k"
  have st: "stageable root" using assms(1) by (simp add: runnable_def)
  have ok: "set (input_stages ?s) \<subseteq> {..<k}" "stage_sound ?s" "stage_id (?ss ! j) = j" if "j < length ?ss" for j
    using stages_ok_nth [OF split_stages_ok(1) [OF st]] assms(2) that by (auto simp: subset_iff)
  note ok = ok [OF assms(2)] ok(3)
  have root: "task_root t = stage_root ?s" using stage_tasks_stage [OF assms(3)] by simp
  from task_inputs_cases [OF assms(3)] show ?thesis
  proof (elim disjE exE conjE)
    fix fs assume i: "input_stages ?s = []" "scan_fragments (stage_root ?s) \<noteq> []" and fs: "task_inputs t = map ScanFragment fs"
    show ?thesis
    proof (cases "scan_nodes (stage_root ?s) = 1 \<or> fs = []")
      case True
      then show ?thesis using prepared_scan_task [OF fs] root fs by (auto simp: prepared_plan_def)
    next
      case False
      then show ?thesis using i fs root
        by (simp add: prepared_plan_def physical_plan_with_scan_fragments_def several_scans_def)
    qed
  next
    fix n q assume i: "task_inputs t = concat (map (shuffle_inputs ?ss n q) (input_stages ?s))"
    have "readable store (shuffle_reads (task_inputs t)) j" if j: "j \<in> set (input_stages ?s)" for j
    proof -
      have jk: "j < k" using ok(1) j by auto
      have jl: "j < length ?ss" using jk assms(2) by simp
      have "j \<le> u64_max" using jl assms(1) unfolding runnable_def by (metis le_trans less_imp_le)
      moreover obtain x where "x \<in> set (shuffle_inputs ?ss n q j)"
        using shuffle_inputs_spec(2) [of ?ss n q j] by (cases "shuffle_inputs ?ss n q j") auto
      moreover have "(j, p) \<in> dom (store_files store)" if "ShufflePartition j p \<in> set (task_inputs t)" for p
      proof -
        have "p < input_partition_count ?ss j"
          using that shuffle_inputs_spec(1) [of "ShufflePartition j p" ?ss n q] unfolding i by fastforce
        then have "p < task_count (?ss ! j)"
          using input_partition_count_eq [OF split_stages_ok(1) [OF st] jl] by (simp add: task_count_def)
        then show ?thesis using assms(4) [OF jk] ok(4) [OF jl] by (auto simp: covered_def subset_iff)
      qed
      ultimately show ?thesis unfolding readable_def set_shuffle_reads
        using shuffle_inputs_spec(1) [of x ?ss n q j] j i by fastforce
    qed
    moreover have "\<exists>i p. x = ShufflePartition i p \<and> i \<in> set (input_stages ?s)" if "x \<in> set (task_inputs t)" for x
      using that shuffle_inputs_spec(1) unfolding i by fastforce
    ultimately show ?thesis
      using prepared_shuffle_task [of t "input_stages ?s" store] ok(2) root by (simp add: stage_sound_def)
  qed
qed

text \<open>Stage \<open>k\<close> fails in one of its tasks, with the output of all earlier stages in the store.\<close>

definition stage_fault :: "'b batch_ops \<Rightarrow> 'b executor \<Rightarrow> 'b plan_node \<Rightarrow> nat \<Rightarrow> dodam_error \<Rightarrow> bool" where
  "stage_fault ops exec root k e \<longleftrightarrow> several_scans (split_stages root ! k) e \<or>
     (\<exists>t \<in> set (stage_tasks (split_stages root) (split_stages root ! k)). \<exists>store.
        (\<forall>j < k. covered store (split_stages root ! j)) \<and> task_fault ops exec store (split_stages root ! k) t e)"

lemma run_task_ok:
  assumes "runnable root" "k < length (split_stages root)"
    "t \<in> set (stage_tasks (split_stages root) (split_stages root ! k))"
    "\<And>j. j < k \<Longrightarrow> covered (shuffle st) (split_stages root ! j)"
  shows "case run_task ops exec (downstream_stages (split_stages root)) (split_stages root ! k) t st of
      Inl e \<Rightarrow> stage_fault ops exec root k e
    | Inr st' \<Rightarrow> executed st' = executed st \<and> dom (store_files (shuffle st)) \<subseteq> dom (store_files (shuffle st')) \<and>
        (if k \<in> downstream_stages (split_stages root)
         then covered (shuffle st') (split_stages root ! k) \<and> result_streams st' = result_streams st
         else length (result_streams st') = Suc (length (result_streams st)))"
proof -
  let ?ss = "split_stages root" and ?s = "split_stages root ! k" and ?ds = "downstream_stages (split_stages root)"
  have st: "stageable root" using assms(1) by (simp add: runnable_def)
  have sid: "stage_id ?s = k" using stages_ok_nth [OF split_stages_ok(1) [OF st] assms(2)] by simp
  have out: "shuffle_output (stage_partitioning ?s)" if "stage_id ?s \<in> ?ds"
  proof -
    have "k \<in> set_mset (mset (concat (map input_stages ?ss)))" using that sid by (auto simp: downstream_stages_def)
    then have "k < length ?ss - 1" unfolding split_stages_ok(3) [OF st] by simp
    then show ?thesis by (rule split_stages_ok(5) [OF st])
  qed
  from prepared_plan_ok [OF assms] consider
    e where "prepared_plan (shuffle st) t = Inl e" "several_scans ?s e" | node where "prepared_plan (shuffle st) t = Inr node"
    by blast
  then show ?thesis
  proof cases
    case 1
    then show ?thesis by (simp add: run_task_def execute_task_prepared stage_fault_def)
  next
    case 2
    have fault: "stage_fault ops exec root k e" if "task_fault ops exec (shuffle st) ?s t e" for e
      using that assms(3,4) unfolding stage_fault_def by blast
    show ?thesis
    proof (cases "exec (disk (shuffle st)) node")
      case (Inl e)
      then have "task_fault ops exec (shuffle st) ?s t e" using 2 by (simp add: task_fault_def)
      then show ?thesis using 2 Inl fault by (simp add: run_task_def execute_task_prepared)
    next
      case (Inr bs)
      have "task_fault ops exec (shuffle st) ?s t e" if "output_fault ops ?s bs e" for e
        using that 2 Inr by (simp add: task_fault_def)
      then show ?thesis using 2 Inr fault sid store_output_ok [where ds = ?ds and ops = ops and bs = bs and st = st, OF assms(3) out]
        by (auto simp: run_task_def execute_task_prepared split: sum.splits if_splits)
    qed
  qed
qed

lemma covered_mono: "covered a s \<Longrightarrow> dom (store_files a) \<subseteq> dom (store_files b) \<Longrightarrow> covered b s"
  unfolding covered_def by blast

lemma run_tasks_ok:
  assumes "runnable root" "k < length (split_stages root)"
  shows "set ts \<subseteq> set (stage_tasks (split_stages root) (split_stages root ! k)) \<Longrightarrow>
    (\<And>j. j < k \<Longrightarrow> covered (shuffle st) (split_stages root ! j)) \<Longrightarrow>
    case fold_try (run_task ops exec (downstream_stages (split_stages root)) (split_stages root ! k)) ts st of
      Inl e \<Rightarrow> stage_fault ops exec root k e
    | Inr st' \<Rightarrow> executed st' = executed st \<and> dom (store_files (shuffle st)) \<subseteq> dom (store_files (shuffle st')) \<and>
        (k \<in> downstream_stages (split_stages root) \<longrightarrow> ts \<noteq> [] \<longrightarrow> covered (shuffle st') (split_stages root ! k)) \<and>
        length (result_streams st') = length (result_streams st) +
          (if k \<in> downstream_stages (split_stages root) then 0 else length ts)"
proof (induction ts arbitrary: st)
  case (Cons t ts)
  let ?s = "split_stages root ! k" and ?ds = "downstream_stages (split_stages root)"
  have t: "t \<in> set (stage_tasks (split_stages root) ?s)" using Cons.prems(1) by simp
  note step = run_task_ok [OF assms t Cons.prems(2), of ops exec]
  show ?case
  proof (cases "run_task ops exec ?ds ?s t st")
    case (Inl e)
    then show ?thesis using step by simp
  next
    case (Inr st1)
    then have st1: "dom (store_files (shuffle st)) \<subseteq> dom (store_files (shuffle st1))" using step by simp
    have "covered (shuffle st1) (split_stages root ! j)" if "j < k" for j
      using covered_mono [OF Cons.prems(2) [OF that] st1] .
    with Cons.IH [of st1] Cons.prems(1) have IH:
      "case fold_try (run_task ops exec ?ds ?s) ts st1 of
         Inl e \<Rightarrow> stage_fault ops exec root k e
       | Inr st' \<Rightarrow> executed st' = executed st1 \<and> dom (store_files (shuffle st1)) \<subseteq> dom (store_files (shuffle st')) \<and>
           (k \<in> ?ds \<longrightarrow> ts \<noteq> [] \<longrightarrow> covered (shuffle st') ?s) \<and>
           length (result_streams st') = length (result_streams st1) + (if k \<in> ?ds then 0 else length ts)"
      by simp
    show ?thesis
    proof (cases "fold_try (run_task ops exec ?ds ?s) ts st1")
      case (Inl e)
      then show ?thesis using IH \<open>run_task ops exec ?ds ?s t st = Inr st1\<close> by simp
    next
      case (Inr st2)
      have "dom (store_files (shuffle st)) \<subseteq> dom (store_files (shuffle st2))" using IH Inr st1 by (simp add: subset_trans)
      moreover have "covered (shuffle st2) ?s" if "k \<in> ?ds"
        using that IH Inr step \<open>run_task ops exec ?ds ?s t st = Inr st1\<close> covered_mono by simp blast
      ultimately show ?thesis using IH Inr step \<open>run_task ops exec ?ds ?s t st = Inr st1\<close> by (simp split: if_splits)
    qed
  qed
qed simp

lemma run_stages_ok:
  assumes "runnable root" "k \<le> length (split_stages root)"
  shows "case fold_try (run_stage ops exec (downstream_stages (split_stages root)) (plan_tasks (split_stages root)))
      (take k (split_stages root)) (False, \<lparr>executed = [], shuffle = store_new tmp target, result_streams = []\<rparr>) of
      Inl e \<Rightarrow> \<exists>j < k. stage_fault ops exec root j e
    | Inr (b, st) \<Rightarrow> (b \<longleftrightarrow> 0 < k) \<and> executed st = [0 ..< k] \<and>
        (\<forall>j < k. j \<in> downstream_stages (split_stages root) \<longrightarrow> covered (shuffle st) (split_stages root ! j)) \<and>
        length (result_streams st) =
          sum_list (map (\<lambda>j. if j \<in> downstream_stages (split_stages root) then 0
            else length (stage_tasks (split_stages root) (split_stages root ! j))) [0 ..< k])"
  using assms(2)
proof (induction k)
  case (Suc k)
  let ?ss = "split_stages root" and ?s = "split_stages root ! k" and ?ds = "downstream_stages (split_stages root)"
    and ?st0 = "\<lparr>executed = [], shuffle = store_new tmp target, result_streams = []\<rparr>"
  have k: "k < length ?ss" using Suc.prems by simp
  note take_k = take_Suc_conv_app_nth [OF k] fold_try_append
  have st: "stageable root" using assms(1) by (simp add: runnable_def)
  have s: "stage_id ?s = k" "set (input_stages ?s) \<subseteq> {..<k}"
    using stages_ok_nth [OF split_stages_ok(1) [OF st] k] by auto
  have down: "j \<in> ?ds" if "j < k" for j
  proof -
    have "j \<in> set_mset (mset (concat (map input_stages ?ss)))" unfolding split_stages_ok(3) [OF st] using that k by simp
    then show ?thesis by (simp add: downstream_stages_def)
  qed
  have tasks: "filter (\<lambda>t. task_stage_id t = stage_id ?s) (plan_tasks ?ss) = stage_tasks ?ss ?s"
    using tasks_of_stage [OF split_stages_ok(1) [OF st], of k ?ss] k s(1) by (simp add: plan_tasks_def)
  show ?case
  proof (cases "fold_try (run_stage ops exec ?ds (plan_tasks ?ss)) (take k ?ss) (False, ?st0)")
    case (Inl e)
    with Suc.IH [OF Suc_leD [OF Suc.prems]] have "\<exists>j < k. stage_fault ops exec root j e" by simp
    then show ?thesis unfolding take_k Inl by (auto intro: less_SucI)
  next
    case (Inr r)
    then obtain b st where r: "r = (b, st)" by (cases r)
    note IH = Suc.IH [OF Suc_leD [OF Suc.prems], unfolded Inr r, simplified]
    have ready: "stage_ready (executed st) ?s" using s IH by (auto simp: stage_ready_def subset_iff)
    have "\<And>j. j < k \<Longrightarrow> covered (shuffle st) (?ss ! j)" using IH down by blast
    note T = run_tasks_ok [OF assms(1) k subset_refl this, of ops exec]
    show ?thesis
    proof (cases "fold_try (run_task ops exec ?ds ?s) (stage_tasks ?ss ?s) st")
      case (Inl e)
      then have "stage_fault ops exec root k e" using T by simp
      then show ?thesis unfolding take_k Inr r using Inl ready tasks by (auto simp: run_stage_def)
    next
      case (Inr st')
      have c: "covered (shuffle st') (?ss ! j)" if "j < Suc k" "j \<in> ?ds" for j
        using that IH T Inr stage_tasks_nonempty [of ?ss ?s] covered_mono unfolding less_Suc_eq by fastforce
      show ?thesis
        unfolding take_k \<open>fold_try (run_stage ops exec ?ds (plan_tasks ?ss)) (take k ?ss) (False, ?st0) = Inr r\<close> r
        using Inr ready tasks c IH T s(1) by (simp add: run_stage_def)
    qed
  qed
qed auto

lemma run_graph_ok:
  assumes "runnable root"
  shows "case execute_execution_graph_locally ops exec tmp target (plan_execution_graph root) of
      Inl e \<Rightarrow> \<exists>k < length (split_stages root). stage_fault ops exec root k e
    | Inr st \<Rightarrow> executed st = [0 ..< length (split_stages root)] \<and>
        length (result_streams st) = length (stage_tasks (split_stages root) (last (split_stages root)))"
proof -
  let ?ss = "split_stages root" and ?n = "length (split_stages root)" and ?ds = "downstream_stages (split_stages root)"
    and ?st0 = "\<lparr>executed = [], shuffle = store_new tmp target, result_streams = []\<rparr>"
  have st: "stageable root" using assms by (simp add: runnable_def)
  have n: "0 < ?n" using split_stages_ok(2) [OF st] by simp
  have round: "run_round ops exec (plan_execution_graph root) ?st0 =
      fold_try (run_stage ops exec ?ds (plan_tasks ?ss)) (take ?n ?ss) (False, ?st0)"
    by (simp add: run_round_def plan_execution_graph_def Let_def)
  note R = run_stages_ok [OF assms order_refl, of ops exec tmp target, folded round]
  have run: "execute_execution_graph_locally ops exec tmp target (plan_execution_graph root) =
      try_bind (run_round ops exec (plan_execution_graph root) ?st0) (\<lambda>(progressed, st).
          if \<not> progressed
          then Inl (UnsupportedSql ''execution graph contains cyclic or missing stage dependencies'')
          else run_graph ops exec (plan_execution_graph root) st)"
    unfolding execute_execution_graph_locally_def
    by (subst run_graph.simps) (use n in \<open>simp add: plan_execution_graph_def Let_def\<close>)
  show ?thesis
  proof (cases "run_round ops exec (plan_execution_graph root) ?st0")
    case (Inl e)
    then show ?thesis using R run by simp
  next
    case (Inr r)
    then obtain b st where r: "run_round ops exec (plan_execution_graph root) ?st0 = Inr (b, st)" by (cases r) auto
    have ds: "?ds = {..<?n - 1}"
      using arg_cong [OF split_stages_ok(3) [OF st], of set_mset] by (auto simp: downstream_stages_def atLeast0LessThan)
    have up: "[0 ..< ?n] = [0 ..< ?n - 1] @ [?n - 1]" using n by (metis Suc_diff_1 upt_Suc le0)
    have "map (\<lambda>j. if j \<in> ?ds then 0 else length (stage_tasks ?ss (?ss ! j))) [0 ..< ?n - 1] = map (\<lambda>j. 0) [0 ..< ?n - 1]"
      unfolding ds by (intro map_cong) auto
    then have sum: "sum_list (map (\<lambda>j. if j \<in> ?ds then 0 else length (stage_tasks ?ss (?ss ! j))) [0 ..< ?n]) =
        length (stage_tasks ?ss (last ?ss))"
      unfolding up using split_stages_ok(2) [OF st] by (simp add: ds last_conv_nth)
    have b: "b" "executed st = [0 ..< ?n]" "length (result_streams st) = length (stage_tasks ?ss (last ?ss))"
      using R n sum unfolding r by auto
    have "run_graph ops exec (plan_execution_graph root) st = Inr st"
      using b(2) by (subst run_graph.simps) (simp add: plan_execution_graph_def Let_def)
    then show ?thesis unfolding run r using b by simp
  qed
qed

subsection \<open>Properties\<close>


text \<open>
  A grouped count over a partitioned join of two different tables.  A batch carries its columns: the scans return
  the columns they project, the join those of both sides, and any other plan is refused.
\<close>

definition two_tables :: logical_plan where
  "two_tables =
     (let scan = (\<lambda>file columns. TableScan \<lparr>scan_source = \<lparr>src_fragments = [local_parquet file],
        src_format = FormatParquet, src_statistics = table_statistics_default\<rparr>, batch_size = 1024,
        scan_projection = ProjColumns columns, scan_filter = None, scan_order_by = None, scan_limit = None,
        scan_distinct = False\<rparr>)
      in LAggregate (LJoin (scan ''a'' [''k'', ''g'']) (scan ''b'' [''id'']) JoinInner [''k''] [''id''] ''l'' ''r'' ProjAll)
           [CountStar] [''g''])"

type_synonym named_batch = "string list \<times> nat list"

definition two_tables_root :: "named_batch plan_node" where
  "two_tables_root = the (plan_node (demo_options 4 4) two_tables)"

definition named_ops :: "named_batch batch_ops" where
  "named_ops = \<lparr>num_rows = length \<circ> snd, memory_size = (\<lambda>b. 8 * length (snd b)), column_names = fst,
     row_hashes = (\<lambda>b _. Inr (snd b)), take_rows = (\<lambda>b rows. Inr (fst b, map (nth (snd b)) rows)),
     write_ipc = (\<lambda>_ bs. Inr (length bs))\<rparr>"

definition two_tables_exec :: "named_batch executor" where
  "two_tables_exec files node =
     (case execution_config node of
        Some (CfgScan _ _ (ProjColumns columns) _) \<Rightarrow> Inr [(columns, [1, 2, 3])]
      | Some (CfgPartitionedHashJoin _ _ _ _ _ _ _ _) \<Rightarrow> Inr [([''k'', ''g'', ''id''], [1, 2, 3])]
      | Some (CfgFinalMerge keys _) \<Rightarrow> Inr [(keys, [1])]
      | _ \<Rightarrow> Inl (UnsupportedSql ''cannot lower declarative physical operator''))"

lemma two_tables_planned: "plan_node (demo_options 4 4) two_tables = Some two_tables_root"
  unfolding two_tables_root_def using plan_node_total by (metis option.sel)

text \<open>Preparing a plan keeps the configuration at its root, up to the fragments of a scan.\<close>

lemma replace_scan_fragments_root:
  "node_operator (replace_scan_fragments fs n) = node_operator n"
  "execution_config (replace_scan_fragments fs n) = (case execution_config n of
     Some (CfgScan _ bsize proj preds) \<Rightarrow> Some (CfgScan fs bsize proj preds) | ex \<Rightarrow> ex)"
  by (cases n; simp split: option.splits execution_config.splits)+

lemma replace_shuffle_inputs_root:
  "replace_shuffle_inputs store inputs n = Inr (n', c) \<Longrightarrow> (\<And>k. node_operator n \<noteq> OpExchange k) \<Longrightarrow>
     execution_config n' = execution_config n"
  by (cases n; cases "node_operator n") (auto simp: rust_simps)

lemma prepared_exec:
  assumes "prepared_plan store t = Inr node" "\<And>k. node_operator (task_root t) \<noteq> OpExchange k"
  shows "two_tables_exec d node = two_tables_exec d (task_root t)"
proof -
  have ex: "two_tables_exec d (replace_scan_fragments fs n) = two_tables_exec d n" for fs n
    by (simp add: two_tables_exec_def replace_scan_fragments_root split: option.splits execution_config.splits)
  have sh: "two_tables_exec d n' = two_tables_exec d n"
    if "physical_plan_with_shuffle_inputs n inputs store = Inr n'" "\<And>k. node_operator n \<noteq> OpExchange k" for n n' inputs
    using that replace_shuffle_inputs_root [of store inputs n]
    by (auto simp: physical_plan_with_shuffle_inputs_def two_tables_exec_def rust_simps split: if_splits)
  show ?thesis using assms ex sh
    by (auto simp: prepared_plan_def physical_plan_with_scan_fragments_def rust_simps replace_scan_fragments_root
        split: if_splits)
qed

lemma two_tables_stages:
  "map (\<lambda>s. (scan_nodes (stage_root s), input_stages s, stage_partitioning s, node_operator (stage_root s),
     two_tables_exec Map.empty (stage_root s))) (split_stages two_tables_root) =
   [(1, [], PartHash [''k''] 4, OpScan, Inr [([''k'', ''g''], [1, 2, 3])]),
    (1, [], PartHash [''id''] 4, OpScan, Inr [([''id''], [1, 2, 3])]),
    (0, [0, 1], PartHash [''g''] 4, OpPartitionedHashJoin, Inr [([''k'', ''g'', ''id''], [1, 2, 3])]),
    (0, [2], PartUnknown, OpFinalMerge, Inr [([''g''], [1])])]"
  by code_simp

lemma named_repartition:
  assumes "0 < n" "key \<in> set cs"
  shows "\<exists>ps. repartition_batches_by_hash named_ops [(cs, [1, 2, 3])] [key] n = Inr ps"
proof -
  obtain i where "position (\<lambda>name. name = key) cs = Some i"
    using assms(2) by (cases "position (\<lambda>name. name = key) cs") (auto simp: position_eq_None)
  then have "map_try (physical_batch_column_index named_ops (cs, [1, 2, 3])) [key] = Inr [i]"
    by (simp add: physical_batch_column_index_def named_ops_def)
  then show ?thesis
    using repartition_total [OF assms(1), of "[(cs, [1, 2, 3])]" named_ops "[key]" "\<lambda>_. [i]" snd
      "\<lambda>b rows. (fst b, map (nth (snd b)) rows)"] by (simp add: named_ops_def)
qed

lemma two_tables_no_fault:
  assumes "s \<in> set (split_stages two_tables_root)"
  shows "\<not> several_scans s e" "task_root t = stage_root s \<Longrightarrow> \<not> task_fault named_ops two_tables_exec store s t e"
proof -
  have e: "two_tables_exec d n = two_tables_exec Map.empty n" for d n by (simp add: two_tables_exec_def)
  have w: "\<not> write_fault named_ops e" for e by (simp add: write_fault_def named_ops_def)
  have f: "(scan_nodes (stage_root s), input_stages s, stage_partitioning s, node_operator (stage_root s),
      two_tables_exec Map.empty (stage_root s)) \<in>
      {(1, [], PartHash [''k''] 4, OpScan, Inr [([''k'', ''g''], [1, 2, 3])]),
       (1, [], PartHash [''id''] 4, OpScan, Inr [([''id''], [1, 2, 3])]),
       (0, [0, 1], PartHash [''g''] 4, OpPartitionedHashJoin, Inr [([''k'', ''g'', ''id''], [1, 2, 3])]),
       (0, [2], PartUnknown, OpFinalMerge, Inr [([''g''], [1])])}"
    using imageI [OF assms, of "\<lambda>s. (scan_nodes (stage_root s), input_stages s, stage_partitioning s,
      node_operator (stage_root s), two_tables_exec Map.empty (stage_root s))"]
    unfolding set_map [symmetric] two_tables_stages by simp
  then show "\<not> several_scans s e" by (auto simp: several_scans_def)
  assume t: "task_root t = stage_root s"
  obtain ps1 ps2 ps3 where ps:
    "repartition_batches_by_hash named_ops [([''k'', ''g''], [1, 2, 3])] [''k''] 4 = Inr ps1"
    "repartition_batches_by_hash named_ops [([''id''], [1, 2, 3])] [''id''] 4 = Inr ps2"
    "repartition_batches_by_hash named_ops [([''k'', ''g'', ''id''], [1, 2, 3])] [''g''] 4 = Inr ps3"
    using named_repartition [of 4 "''k''" "[''k'', ''g'']"] named_repartition [of 4 "''id''" "[''id'']"]
      named_repartition [of 4 "''g''" "[''k'', ''g'', ''id'']"] by auto
  obtain bs where bs: "two_tables_exec Map.empty (stage_root s) = Inr bs" "\<And>e. \<not> output_fault named_ops s bs e"
    using f unfolding insert_iff by (elim disjE) (simp_all add: output_fault_def w ps [simplified])
  have "node_operator (task_root t) \<noteq> OpExchange k" for k using f t by auto
  then have "two_tables_exec (disk store) node = Inr bs" if "prepared_plan store t = Inr node" for node
    using prepared_exec [OF that, of "disk store"] e [of "disk store" "stage_root s"] bs(1) t by simp
  then show "\<not> task_fault named_ops two_tables_exec store s t e"
    using bs(2) by (auto simp: task_fault_def)
qed


text \<open>
  A graph in which some stage waits for a stage that is not there is reported as an error after the
  stages that can run have run; the scheduler does not loop.
\<close>

theorem missing_stage_is_an_error:
  assumes "length (executed st) < length (graph_stages graph)"
    "\<And>s. s \<in> set (graph_stages graph) \<Longrightarrow> stage_id s \<in> set (executed st) \<or>
       (\<exists>i \<in> set (input_stages s). i \<notin> set (executed st))"
  shows "run_graph ops exec graph st =
    Inl (UnsupportedSql ''execution graph contains cyclic or missing stage dependencies'')"
proof -
  have "fold_try (run_stage ops exec ds tasks) ss (False, st) = Inr (False, st)"
    if "set ss \<subseteq> set (graph_stages graph)" for ss ds tasks
    using that assms(2) by (induction ss) (auto simp: run_stage_def stage_ready_def)
  then have "run_round ops exec graph st = Inr (False, st)" by (simp add: run_round_def)
  then show ?thesis using assms(1) by (subst run_graph.simps) simp
qed

theorem missing_stage_is_an_error_witness:
  "run_graph demo_ops (\<lambda>d n. Inr []) \<lparr>graph_stages = [\<lparr>stage_id = 0, stage_root = node_new ''EmptyExec'',
     input_stages = [7], stage_partitioning = PartSingle\<rparr>], graph_tasks = []\<rparr>
     \<lparr>executed = [], shuffle = store_new ''tmp'' 64, result_streams = []\<rparr> =
   Inl (UnsupportedSql ''execution graph contains cyclic or missing stage dependencies'')"
  by (rule missing_stage_is_an_error) simp_all

end
