(* ===== verification/Optimizer.thy ===== *)
theory Optimizer
  imports Physical_Planner
begin

text \<open>
  \<open>LogicalOptimizer\<close> of \<open>optimizer.rs\<close>: the rules that push filters, projections, sorts, limits and
  distincts into a table scan, combine filters and bound sorts, and \<open>PhysicalPlanner::plan\<close>, which plans the
  optimized plan.  The vector of applied rules is threaded through.
\<close>

datatype optimizer_rule =
    FilterIntoScan | ProjectionIntoScan | SortIntoScan | LimitIntoScan | DistinctIntoScan | CombineFilters | LimitIntoSort

fun projection_can_replace :: "projection \<Rightarrow> projection \<Rightarrow> bool" where
  "projection_can_replace _ ProjAll \<longleftrightarrow> True"
| "projection_can_replace ProjAll (ProjColumns _) \<longleftrightarrow> True"
| "projection_can_replace (ProjColumns scan) (ProjColumns output) \<longleftrightarrow> list_all (\<lambda>c. c \<in> set scan) output"

fun projection_contains_columns :: "projection \<Rightarrow> string list \<Rightarrow> bool" where
  "projection_contains_columns ProjAll required \<longleftrightarrow> True"
| "projection_contains_columns (ProjColumns columns) required \<longleftrightarrow> list_all (\<lambda>c. c \<in> set columns) required"

fun replace_projection :: "projection \<Rightarrow> projection \<Rightarrow> projection" where
  "replace_projection scan ProjAll = scan"
| "replace_projection scan output = output"

fun combine_filter_exprs :: "expr option \<Rightarrow> expr option \<Rightarrow> expr option" where
  "combine_filter_exprs None None = None"
| "combine_filter_exprs (Some f) None = Some f"
| "combine_filter_exprs None (Some f) = Some f"
| "combine_filter_exprs (Some left) (Some right) = Some (And left right)"

definition tighter_limit :: "nat option \<Rightarrow> nat \<Rightarrow> nat option" where
  "tighter_limit current limit = Some (case current of None \<Rightarrow> limit | Some c \<Rightarrow> min c limit)"

definition optimize_projection :: "logical_plan \<Rightarrow> projection \<Rightarrow> optimizer_rule list \<Rightarrow> logical_plan \<times> optimizer_rule list" where
  "optimize_projection input projection rules =
     (case input of
        TableScan scan \<Rightarrow>
          if \<not> scan_distinct scan \<and> projection_can_replace (scan_projection scan) projection
          then (TableScan (scan\<lparr>scan_projection := replace_projection (scan_projection scan) projection\<rparr>),
                rules @ [ProjectionIntoScan])
          else (LProjection input projection, rules)
      | _ \<Rightarrow> (LProjection input projection, rules))"

definition optimize_sort ::
    "logical_plan \<Rightarrow> sort_key \<Rightarrow> nat option \<Rightarrow> optimizer_rule list \<Rightarrow> logical_plan \<times> optimizer_rule list" where
  "optimize_sort input order_by limit rules =
     (case input of
        TableScan scan \<Rightarrow>
          if scan_order_by scan = None \<and> scan_limit scan = None \<and>
             projection_contains_columns (scan_projection scan) (map sort_column order_by)
          then (TableScan (scan\<lparr>scan_order_by := Some order_by, scan_limit := limit\<rparr>), rules @ [SortIntoScan])
          else (LSort input order_by limit, rules)
      | _ \<Rightarrow> (LSort input order_by limit, rules))"

definition optimize_limit :: "logical_plan \<Rightarrow> nat \<Rightarrow> optimizer_rule list \<Rightarrow> logical_plan \<times> optimizer_rule list" where
  "optimize_limit input limit rules =
     (case input of
        TableScan scan \<Rightarrow>
          (TableScan (scan\<lparr>scan_limit := tighter_limit (scan_limit scan) limit\<rparr>), rules @ [LimitIntoScan])
      | LSort inner order_by sort_limit \<Rightarrow>
          (LLimit (LSort inner order_by (tighter_limit sort_limit limit)) limit, rules @ [LimitIntoSort])
      | _ \<Rightarrow> (LLimit input limit, rules))"

definition optimize_distinct :: "logical_plan \<Rightarrow> optimizer_rule list \<Rightarrow> logical_plan \<times> optimizer_rule list" where
  "optimize_distinct input rules =
     (case input of
        TableScan scan \<Rightarrow>
          if scan_limit scan = None \<and> scan_order_by scan = None
          then (TableScan (scan\<lparr>scan_distinct := True\<rparr>), rules @ [DistinctIntoScan])
          else (LDistinct input, rules)
      | _ \<Rightarrow> (LDistinct input, rules))"

definition filter_fits_scan :: "logical_scan \<Rightarrow> expr \<Rightarrow> bool" where
  "filter_fits_scan scan f \<longleftrightarrow>
     scan_limit scan = None \<and> projection_contains_columns (scan_projection scan) (referenced_columns f)"

function (domintros) optimize_logical_node ::
    "logical_plan \<Rightarrow> optimizer_rule list \<Rightarrow> logical_plan \<times> optimizer_rule list" where
  "optimize_logical_node (TableScan scan) rules = (TableScan scan, rules)"
| "optimize_logical_node (LProjection input projection) rules =
     (let (input, rules) = optimize_logical_node input rules in optimize_projection input projection rules)"
| "optimize_logical_node (LFilter input f) rules =
     (let (input, rules) = optimize_logical_node input rules
      in case input of
           TableScan scan \<Rightarrow>
             if filter_fits_scan scan f
             then (TableScan (scan\<lparr>scan_filter := combine_filter_exprs (scan_filter scan) (Some f)\<rparr>), rules @ [FilterIntoScan])
             else (LFilter input f, rules)
         | LFilter inner_input inner \<Rightarrow>
             optimize_logical_node (LFilter inner_input (And inner f)) (rules @ [CombineFilters])
         | _ \<Rightarrow> (LFilter input f, rules))"
| "optimize_logical_node (LAggregate input aggregates group_by) rules =
     (let (input, rules) = optimize_logical_node input rules in (LAggregate input aggregates group_by, rules))"
| "optimize_logical_node (LJoin left right join_type left_keys right_keys left_prefix right_prefix output_projection) rules =
     (let (left, rules) = optimize_logical_node left rules;
          (right, rules) = optimize_logical_node right rules
      in (LJoin left right join_type left_keys right_keys left_prefix right_prefix output_projection, rules))"
| "optimize_logical_node (LSort input order_by limit) rules =
     (let (input, rules) = optimize_logical_node input rules in optimize_sort input order_by limit rules)"
| "optimize_logical_node (LLimit input limit) rules =
     (let (input, rules) = optimize_logical_node input rules in optimize_limit input limit rules)"
| "optimize_logical_node (LDistinct input) rules =
     (let (input, rules) = optimize_logical_node input rules in optimize_distinct input rules)"
| "optimize_logical_node (LCopy input format target) rules =
     (let (input, rules) = optimize_logical_node input rules in (LCopy input format target, rules))"
  by pat_completeness auto

text \<open>The recursion on a combined filter is on no more nodes than the filter had: no rule adds a node.\<close>

primrec plan_nodes :: "logical_plan \<Rightarrow> nat" where
  "plan_nodes (TableScan scan) = 1"
| "plan_nodes (LProjection input _) = plan_nodes input + 1"
| "plan_nodes (LFilter input _) = plan_nodes input + 1"
| "plan_nodes (LAggregate input _ _) = plan_nodes input + 1"
| "plan_nodes (LJoin left right _ _ _ _ _ _) = plan_nodes left + plan_nodes right + 1"
| "plan_nodes (LSort input _ _) = plan_nodes input + 1"
| "plan_nodes (LLimit input _) = plan_nodes input + 1"
| "plan_nodes (LDistinct input) = plan_nodes input + 1"
| "plan_nodes (LCopy input _ _) = plan_nodes input + 1"

lemma plan_nodes_rules:
  "plan_nodes (fst (optimize_projection i p rs)) \<le> plan_nodes i + 1"
  "plan_nodes (fst (optimize_sort i k l rs)) \<le> plan_nodes i + 1"
  "plan_nodes (fst (optimize_limit i n rs)) \<le> plan_nodes i + 1"
  "plan_nodes (fst (optimize_distinct i rs)) \<le> plan_nodes i + 1"
  by (simp_all add: optimize_projection_def optimize_sort_def optimize_limit_def optimize_distinct_def
      split: logical_plan.splits)

lemma optimize_nodes_dom:
  "optimize_logical_node_dom (plan, rules) \<Longrightarrow> plan_nodes (fst (optimize_logical_node plan rules)) \<le> plan_nodes plan"
proof (induction plan rules rule: optimize_logical_node.pinduct)
  case (3 input f rules)
  obtain i r where o: "optimize_logical_node input rules = (i, r)" by (metis prod.collapse)
  have le: "plan_nodes i \<le> plan_nodes input" using "3.IH"(1) o by simp
  show ?case
  proof (cases i)
    case (LFilter inner_input inner)
    have "plan_nodes (fst (optimize_logical_node (LFilter inner_input (And inner f)) (r @ [CombineFilters]))) \<le>
        plan_nodes (LFilter inner_input (And inner f))"
      by (rule "3.IH"(2) [OF o [symmetric] refl LFilter])
    then show ?thesis using le LFilter o by (simp add: optimize_logical_node.psimps(3) [OF "3.hyps"])
  qed (use le o in \<open>simp_all add: optimize_logical_node.psimps(3) [OF "3.hyps"]\<close>)
next
  case (5 left right jt lk rk lp rp proj rules)
  then show ?case by (fastforce simp: optimize_logical_node.psimps split: prod.splits)
qed (auto simp: optimize_logical_node.psimps split: prod.splits
    intro: order_trans [OF plan_nodes_rules(1)] order_trans [OF plan_nodes_rules(2)]
      order_trans [OF plan_nodes_rules(3)] order_trans [OF plan_nodes_rules(4)])

termination optimize_logical_node
proof (relation "measure (\<lambda>(plan, rules). plan_nodes plan)", goal_cases)
  case (4 input f rules x i r inner_input inner)
  then have "fst (optimize_logical_node input rules) = LFilter inner_input inner" by (metis fst_conv)
  with 4 show ?case using optimize_nodes_dom [of input rules] by simp
qed auto

declare optimize_logical_node.simps [simp del]

definition optimize :: "logical_plan \<Rightarrow> logical_plan \<times> optimizer_rule list" where
  "optimize plan = optimize_logical_node plan []"

definition planner_plan :: "planning_options \<Rightarrow> logical_plan \<Rightarrow> 'b plan_node option" where
  "planner_plan opts logical = plan_node opts (fst (optimize logical))"

definition to_physical_plan :: "logical_plan \<Rightarrow> 'b plan_node option" where
  "to_physical_plan logical = planner_plan planning_options_default logical"

end
