(* ===== verification/Plan_Semantics.thy ===== *)
theory Plan_Semantics
  imports Optimizer Stage_Planner
begin

text \<open>
  The meaning of physical plans without exchanges, and the proof that the optimizer keeps it.

  A row maps column names to values.  The meaning of a plan is the set of row lists its execution may
  return: a scan returns the rows of its fragments in any order and may leave out rows that fail a
  pushed-down predicate, a sort returns any sorted permutation, a distinct one copy of each row in any order.
  What the plan takes from the storage and the kernels is the parameter \<open>engine\<close>: the rows of a list of
  fragments, comparisons on a row, the order of a sort key, joins and aggregates.
\<close>

subsection \<open>Rows and engines\<close>

type_synonym 'v row = "string \<rightharpoonup> 'v"

record 'v engine =
  table_rows :: "file_fragment list \<Rightarrow> 'v row list"
  eval_leaf :: "expr \<Rightarrow> 'v row \<Rightarrow> bool option"
  row_le :: "sort_key \<Rightarrow> 'v row \<Rightarrow> 'v row \<Rightarrow> bool"
  join_rows :: "join_type \<Rightarrow> string list \<Rightarrow> string list \<Rightarrow> string \<Rightarrow> string \<Rightarrow> projection \<Rightarrow>
    'v row list \<Rightarrow> 'v row list \<Rightarrow> 'v row list set"
  merge_join_rows :: "string \<Rightarrow> string \<Rightarrow> string \<Rightarrow> string \<Rightarrow> 'v row list \<Rightarrow> 'v row list \<Rightarrow> 'v row list set"
  fold_rows :: "string list \<Rightarrow> aggregate_expr list \<Rightarrow> 'v row list \<Rightarrow> 'v row list set"
  merge_rows :: "string list \<Rightarrow> aggregate_expr list \<Rightarrow> 'v row list \<Rightarrow> 'v row list set"

text \<open>Comparisons and sort keys look only at their columns, and a sort key is a total preorder.\<close>

definition engine_ok :: "'v engine \<Rightarrow> bool" where
  "engine_ok E \<longleftrightarrow>
     (\<forall>e r r'. (\<forall>c \<in> expr_columns e. r c = r' c) \<longrightarrow> eval_leaf E e r = eval_leaf E e r') \<and>
     (\<forall>key r r' s s'. (\<forall>c \<in> sort_column ` set key. r c = r' c \<and> s c = s' c) \<longrightarrow> row_le E key r s = row_le E key r' s') \<and>
     (\<forall>key r s. row_le E key r s \<or> row_le E key s r) \<and>
     (\<forall>key r s t. row_le E key r s \<longrightarrow> row_le E key s t \<longrightarrow> row_le E key r t)"

text \<open>Three-valued logic, as in the evaluation of filters: \<open>None\<close> is unknown.\<close>

fun kleene_and :: "bool option \<Rightarrow> bool option \<Rightarrow> bool option" where
  "kleene_and (Some False) _ = Some False"
| "kleene_and _ (Some False) = Some False"
| "kleene_and (Some True) b = b"
| "kleene_and a (Some True) = a"
| "kleene_and None None = None"

fun kleene_or :: "bool option \<Rightarrow> bool option \<Rightarrow> bool option" where
  "kleene_or (Some True) _ = Some True"
| "kleene_or _ (Some True) = Some True"
| "kleene_or (Some False) b = b"
| "kleene_or a (Some False) = a"
| "kleene_or None None = None"

fun eval_expr :: "'v engine \<Rightarrow> expr \<Rightarrow> 'v row \<Rightarrow> bool option" where
  "eval_expr E (BooleanLit b) r = b"
| "eval_expr E (Not e) r = map_option HOL.Not (eval_expr E e r)"
| "eval_expr E (And a b) r = kleene_and (eval_expr E a r) (eval_expr E b r)"
| "eval_expr E (Or a b) r = kleene_or (eval_expr E a r) (eval_expr E b r)"
| "eval_expr E e r = eval_leaf E e r"

definition holds :: "'v engine \<Rightarrow> expr \<Rightarrow> 'v row \<Rightarrow> bool" where
  "holds E e r \<longleftrightarrow> eval_expr E e r = Some True"

fun project :: "projection \<Rightarrow> 'v row \<Rightarrow> 'v row" where
  "project ProjAll r = r"
| "project (ProjColumns cs) r = r |` set cs"

definition take_opt :: "nat option \<Rightarrow> 'a list \<Rightarrow> 'a list" where
  "take_opt limit xs = (case limit of None \<Rightarrow> xs | Some n \<Rightarrow> take n xs)"

subsection \<open>Execution\<close>

definition scan_results :: "'v engine \<Rightarrow> file_fragment list \<Rightarrow> projection \<Rightarrow> expr list \<Rightarrow> 'v row list set" where
  "scan_results E fragments proj preds =
     {map (project proj) ys | ys. mset ys \<subseteq># mset (table_rows E fragments) \<and>
        filter_mset (\<lambda>r. \<forall>p \<in> set preds. holds E p r) (mset (table_rows E fragments)) \<subseteq># mset ys}"

definition sort_results :: "('a \<Rightarrow> 'a \<Rightarrow> bool) \<Rightarrow> nat option \<Rightarrow> 'a list \<Rightarrow> 'a list set" where
  "sort_results le limit xs = {take_opt limit ys | ys. sorted_wrt le ys \<and> mset ys = mset xs}"

definition distinct_results :: "'a list \<Rightarrow> 'a list set" where
  "distinct_results xs = {ys. distinct ys \<and> set ys = set xs}"

definition exec_config :: "'v engine \<Rightarrow> 'b execution_config option \<Rightarrow> 'v row list set list \<Rightarrow> 'v row list set" where
  "exec_config E ex inputs =
     (case ex of
        Some (CfgScan fragments _ proj preds) \<Rightarrow> scan_results E fragments proj preds
      | Some (CfgFilter f) \<Rightarrow> filter (holds E f) ` (inputs ! 0)
      | Some (CfgProjection proj) \<Rightarrow> map (project proj) ` (inputs ! 0)
      | Some (CfgSort key limit) \<Rightarrow> (\<Union>xs \<in> inputs ! 0. sort_results (row_le E key) limit xs)
      | Some (CfgLimit n) \<Rightarrow> take n ` (inputs ! 0)
      | Some CfgDistinct \<Rightarrow> (\<Union>xs \<in> inputs ! 0. distinct_results xs)
      | Some (CfgLocalFold keys aggs) \<Rightarrow> (\<Union>xs \<in> inputs ! 0. fold_rows E keys aggs xs)
      | Some (CfgFinalMerge keys aggs) \<Rightarrow> (\<Union>xs \<in> inputs ! 0. merge_rows E keys aggs xs)
      | Some (CfgHashJoin lk rk lp rp _ jt proj) \<Rightarrow>
          (\<Union>xs \<in> inputs ! 0. \<Union>ys \<in> inputs ! 1. join_rows E jt lk rk lp rp proj xs ys)
      | Some (CfgPartitionedHashJoin lk rk lp rp _ _ jt proj) \<Rightarrow>
          (\<Union>xs \<in> inputs ! 0. \<Union>ys \<in> inputs ! 1. join_rows E jt lk rk lp rp proj xs ys)
      | Some (CfgSortMergeJoin lk rk lp rp) \<Rightarrow>
          (\<Union>xs \<in> inputs ! 0. \<Union>ys \<in> inputs ! 1. merge_join_rows E lk rk lp rp xs ys)
      | None \<Rightarrow> inputs ! 0
      | _ \<Rightarrow> {})"

primrec exec_node :: "'v engine \<Rightarrow> 'b plan_node \<Rightarrow> 'v row list set" where
  "exec_node E (PlanNode op attrs cs p ord ex) = exec_config E ex (map (exec_node E) cs)"

lemma exec_node_eq: "exec_node E n = exec_config E (execution_config n) (map (exec_node E) (node_children n))"
  by (cases n) simp

text \<open>The meaning of a logical plan: that of the physical plan the planner makes of it.\<close>

definition plan_results :: "planning_options \<Rightarrow> 'v engine \<Rightarrow> logical_plan \<Rightarrow> 'v row list set" where
  "plan_results opts E plan = exec_node E (the (plan_node opts plan :: unit plan_node option))"

subsection \<open>Sorted permutations\<close>

definition preorder_on_rows :: "('a \<Rightarrow> 'a \<Rightarrow> bool) \<Rightarrow> bool" where
  "preorder_on_rows le \<longleftrightarrow> (\<forall>a b. le a b \<or> le b a) \<and> (\<forall>a b c. le a b \<longrightarrow> le b c \<longrightarrow> le a c)"

fun insert_by :: "('a \<Rightarrow> 'a \<Rightarrow> bool) \<Rightarrow> 'a \<Rightarrow> 'a list \<Rightarrow> 'a list" where
  "insert_by le x [] = [x]"
| "insert_by le x (y # ys) = (if le x y then x # y # ys else y # insert_by le x ys)"

lemma set_insert_by [simp]: "set (insert_by le x ys) = insert x (set ys)"
  by (induction ys) auto

lemma mset_insert_by [simp]: "mset (insert_by le x ys) = add_mset x (mset ys)"
  by (induction ys) auto

lemma sorted_insert_by: "preorder_on_rows le \<Longrightarrow> sorted_wrt le ys \<Longrightarrow> sorted_wrt le (insert_by le x ys)"
  by (induction ys) (auto simp: preorder_on_rows_def)

lemma filter_insert_by: "\<not> P x \<Longrightarrow> filter P (insert_by le x ys) = filter P ys"
  by (induction ys) auto

text \<open>A sorted list can be extended to a sorted list with given further elements.\<close>

lemma sorted_extend:
  assumes "preorder_on_rows le" "sorted_wrt le ys" "\<forall>y \<in> set ys. P y" "\<forall>x \<in> set xs. \<not> P x"
  shows "\<exists>zs. sorted_wrt le zs \<and> mset zs = mset ys + mset xs \<and> filter P zs = ys"
  using assms(4)
proof (induction xs)
  case Nil
  then show ?case using assms(2,3) by (intro exI [of _ ys]) simp
next
  case (Cons x xs)
  then obtain zs where z: "sorted_wrt le zs" "mset zs = mset ys + mset xs" "filter P zs = ys" by auto
  have "filter P (insert_by le x zs) = ys" using z(3) Cons.prems by (subst filter_insert_by) simp_all
  moreover have "mset (insert_by le x zs) = mset ys + mset (x # xs)" using z(2) by simp
  ultimately show ?case using sorted_insert_by [OF assms(1) z(1), of x] by blast
qed

lemma mset_eq_map_perm: "mset ws = mset (map g zs) \<Longrightarrow> \<exists>zs'. ws = map g zs' \<and> mset zs' = mset zs"
proof (induction ws arbitrary: zs)
  case (Cons w ws)
  then have "w \<in># mset (map g zs)" by (metis list.set_intros(1) set_mset_mset)
  then obtain z where z: "z \<in> set zs" "w = g z" by auto
  then have m: "mset zs = add_mset z (mset (remove1 z zs))" by simp
  have "mset (map g zs) = add_mset (g z) (mset (map g (remove1 z zs)))"
    unfolding mset_map by (subst m) (rule image_mset_add_mset)
  then have "mset ws = mset (map g (remove1 z zs))" using Cons.prems z(2) by simp
  from Cons.IH [OF this] obtain zs' where "ws = map g zs'" "mset zs' = mset (remove1 z zs)" by blast
  then show ?case using z by (intro exI [of _ "z # zs'"]) simp
qed simp

subsection \<open>Filters and projections\<close>

lemma kleene_and_True [simp]: "kleene_and a b = Some True \<longleftrightarrow> a = Some True \<and> b = Some True"
  by (cases "(a, b)" rule: kleene_and.cases) auto

lemma holds_And [simp]: "holds E (And a b) r \<longleftrightarrow> holds E a r \<and> holds E b r"
  by (simp add: holds_def)

lemma engine_okD:
  assumes "engine_ok E"
  shows "\<forall>e r r'. (\<forall>c \<in> expr_columns e. r c = r' c) \<longrightarrow> eval_leaf E e r = eval_leaf E e r'"
    "\<forall>key r r' s s'. (\<forall>c \<in> sort_column ` set key. r c = r' c \<and> s c = s' c) \<longrightarrow> row_le E key r s = row_le E key r' s'"
    "\<forall>key r s. row_le E key r s \<or> row_le E key s r"
    "\<forall>key r s t. row_le E key r s \<longrightarrow> row_le E key s t \<longrightarrow> row_le E key r t"
  using assms unfolding engine_ok_def by - (elim conjE, assumption)+

lemma eval_leaf_cong:
  "engine_ok E \<Longrightarrow> (\<And>c. c \<in> expr_columns e \<Longrightarrow> r c = r' c) \<Longrightarrow> eval_leaf E e r = eval_leaf E e r'"
  by (rule engine_okD(1) [rule_format])

lemma row_le_cong:
  "engine_ok E \<Longrightarrow> (\<And>c. c \<in> sort_column ` set key \<Longrightarrow> r c = r' c \<and> s c = s' c) \<Longrightarrow>
     row_le E key r s = row_le E key r' s'"
  by (rule engine_okD(2) [rule_format])

lemma eval_expr_cong:
  "engine_ok E \<Longrightarrow> (\<And>c. c \<in> expr_columns e \<Longrightarrow> r c = r' c) \<Longrightarrow> eval_expr E e r = eval_expr E e r'"
proof (induction e)
  case (Not e)
  then show ?case by simp
next
  case (And a b)
  then have "eval_expr E a r = eval_expr E a r'" "eval_expr E b r = eval_expr E b r'" by simp_all
  then show ?case by simp
next
  case (Or a b)
  then have "eval_expr E a r = eval_expr E a r'" "eval_expr E b r = eval_expr E b r'" by simp_all
  then show ?case by simp
qed (unfold eval_expr.simps; (rule refl | erule eval_leaf_cong, blast))+

text \<open>The columns a projection keeps.\<close>

definition keeps :: "projection \<Rightarrow> string set \<Rightarrow> bool" where
  "keeps proj cs \<longleftrightarrow> (case proj of ProjAll \<Rightarrow> True | ProjColumns columns \<Rightarrow> cs \<subseteq> set columns)"

lemma project_idem [simp]: "project proj (project proj r) = project proj r"
  by (cases proj) simp_all

lemma project_same: "keeps proj cs \<Longrightarrow> c \<in> cs \<Longrightarrow> project proj r c = r c"
  by (cases proj) (auto simp: keeps_def)

lemma holds_project: "engine_ok E \<Longrightarrow> keeps proj (expr_columns f) \<Longrightarrow> holds E f (project proj r) = holds E f r"
  unfolding holds_def by (subst eval_expr_cong [of E f "project proj r" r]) (auto dest: project_same)

lemma row_le_project:
  "engine_ok E \<Longrightarrow> keeps proj (sort_column ` set key) \<Longrightarrow>
     row_le E key (project proj r) (project proj s) = row_le E key r s"
  by (erule row_le_cong) (simp add: project_same)

lemma engine_preorder:
  assumes "engine_ok E"
  shows "preorder_on_rows (row_le E key)"
proof -
  have "\<forall>r s. row_le E key r s \<or> row_le E key s r"
    using engine_okD(3) [OF assms] by (rule spec)
  moreover have "\<forall>r s t. row_le E key r s \<longrightarrow> row_le E key s t \<longrightarrow> row_le E key r t"
    using engine_okD(4) [OF assms] by (rule spec)
  ultimately show ?thesis unfolding preorder_on_rows_def by (rule conjI)
qed

lemma collect_conjuncts_hold:
  "holds E e r \<Longrightarrow> \<forall>p \<in> set acc. holds E p r \<Longrightarrow> \<forall>p \<in> set (collect_conjuncts e acc). holds E p r"
proof (induction e acc rule: collect_conjuncts.induct)
  case (1 a b acc)
  have ab: "holds E a r" "holds E b r" using "1.prems"(1) by simp_all
  show ?case unfolding collect_conjuncts.simps by (rule "1.IH"(2) [OF ab(2) "1.IH"(1) [OF ab(1) "1.prems"(2)]])
qed auto

lemma conjuncts_hold: "holds E e r \<Longrightarrow> p \<in> set (conjuncts e) \<Longrightarrow> holds E p r"
  using collect_conjuncts_hold [of E e r "[]"] by (simp add: conjuncts_def)

lemma pushdown_holds:
  "p \<in> set (pushdown (predicate_set_new (Some f))) \<Longrightarrow> holds E f r \<Longrightarrow> holds E p r"
  by (auto simp: predicate_set_new_def intro: conjuncts_hold)

lemma keeps_contains: "keeps proj (set cs) \<longleftrightarrow> projection_contains_columns proj cs"
  by (cases proj) (auto simp: keeps_def list_all_iff)

subsection \<open>What a scan returns\<close>

definition filtered_rows :: "'v engine \<Rightarrow> logical_scan \<Rightarrow> 'v row list" where
  "filtered_rows E scan =
     filter (\<lambda>r. case scan_filter scan of None \<Rightarrow> True | Some f \<Rightarrow> holds E f r)
       (table_rows E (src_fragments (scan_source scan)))"

definition order_le :: "'v engine \<Rightarrow> sort_key option \<Rightarrow> 'v row \<Rightarrow> 'v row \<Rightarrow> bool" where
  "order_le E order_by = (case order_by of None \<Rightarrow> \<lambda>_ _. True | Some key \<Rightarrow> row_le E key)"

lemma order_le_simps [simp]: "order_le E None = (\<lambda>_ _. True)" "order_le E (Some key) = row_le E key"
  by (simp_all add: order_le_def)

text \<open>The rows a scan orders: the filtered rows, or with distinct their projections once each.\<close>

definition scan_basis :: "'v engine \<Rightarrow> logical_scan \<Rightarrow> 'v row multiset" where
  "scan_basis E scan =
     (if scan_distinct scan then mset_set (project (scan_projection scan) ` set (filtered_rows E scan))
      else mset (filtered_rows E scan))"

definition scan_output :: "logical_scan \<Rightarrow> 'v row \<Rightarrow> 'v row" where
  "scan_output scan = (if scan_distinct scan then (\<lambda>r. r) else project (scan_projection scan))"

definition scan_spec :: "'v engine \<Rightarrow> logical_scan \<Rightarrow> 'v row list set" where
  "scan_spec E scan =
     {take_opt (scan_limit scan) (map (scan_output scan) ys) | ys.
        mset ys = scan_basis E scan \<and> sorted_wrt (order_le E (scan_order_by scan)) ys}"

text \<open>
  A scan is sensible when a sort with distinct uses only columns of the output; the optimizer makes no others,
  and with others the code sorts by a column that is not there.
\<close>

definition scan_sensible :: "logical_scan \<Rightarrow> bool" where
  "scan_sensible scan \<longleftrightarrow>
     (scan_distinct scan \<longrightarrow> (\<forall>key. scan_order_by scan = Some key \<longrightarrow>
        keeps (scan_projection scan) (sort_column ` set key)))"

lemma take_opt_map: "take_opt l (map f xs) = map f (take_opt l xs)"
  by (simp add: take_opt_def take_map split: option.splits)

lemma scan_filter_results:
  assumes "engine_ok E" "keeps proj (expr_columns f)" "\<And>p r. p \<in> set preds \<Longrightarrow> holds E f r \<Longrightarrow> holds E p r"
  shows "filter (holds E f) ` scan_results E fs proj preds =
    {map (project proj) ys | ys. mset ys = mset (filter (holds E f) (table_rows E fs))}"
proof (intro subset_antisym subsetI)
  let ?T = "table_rows E fs" and ?P = "\<lambda>r. \<forall>p \<in> set preds. holds E p r"
  have hp: "holds E f \<circ> project proj = holds E f" using holds_project [OF assms(1,2)] by (simp add: fun_eq_iff)
  {
    fix xs assume "xs \<in> filter (holds E f) ` scan_results E fs proj preds"
    then obtain ys where ys: "xs = filter (holds E f) (map (project proj) ys)" "mset ys \<subseteq># mset ?T"
      "filter_mset ?P (mset ?T) \<subseteq># mset ys"
      by (auto simp: scan_results_def)
    have eq: "filter_mset (holds E f) (filter_mset ?P (mset ?T)) = filter_mset (holds E f) (mset ?T)"
      unfolding filter_filter_mset
    proof (rule filter_mset_cong [OF refl], rule iffI)
      fix r assume "?P r \<and> holds E f r" then show "holds E f r" ..
    next
      fix r assume h: "holds E f r"
      have "holds E p r" if "p \<in> set preds" for p by (rule assms(3) [OF that h])
      with h show "?P r \<and> holds E f r" by blast
    qed
    have "filter_mset (holds E f) (mset ys) = filter_mset (holds E f) (mset ?T)"
      by (rule subset_mset.antisym [OF multiset_filter_mono [OF ys(2)] multiset_filter_mono [OF ys(3), of "holds E f", unfolded eq]])
    then have "mset (filter (holds E f) ys) = mset (filter (holds E f) ?T)" by simp
    moreover have "xs = map (project proj) (filter (holds E f) ys)" using ys(1) hp by (simp add: filter_map)
    ultimately show "xs \<in> {map (project proj) ys | ys. mset ys = mset (filter (holds E f) ?T)}" by blast
  next
    fix xs assume "xs \<in> {map (project proj) ys | ys. mset ys = mset (filter (holds E f) ?T)}"
    then obtain ys where ys: "xs = map (project proj) ys" "mset ys = mset (filter (holds E f) ?T)" by blast
    let ?zs = "ys @ filter (\<lambda>r. \<not> holds E f r) ?T"
    have m: "mset ?zs = mset ?T" using ys(2) by (simp add: multiset_partition [symmetric])
    then have "map (project proj) ?zs \<in> scan_results E fs proj preds"
      unfolding scan_results_def by (auto intro!: exI [of _ ?zs])
    moreover have "set ys = {r \<in> set ?T. holds E f r}" using ys(2) by (metis set_filter set_mset_mset)
    then have "filter (holds E f) (map (project proj) ?zs) = xs"
      using ys(1) hp by (simp add: filter_map filter_id_conv)
    ultimately show "xs \<in> filter (holds E f) ` scan_results E fs proj preds" by blast
  }
qed

lemma scan_all_results:
  "scan_results E fs proj [] = {map (project proj) ys | ys. mset ys = mset (table_rows E fs)}"
  by (auto simp: scan_results_def intro: subset_mset.antisym)

lemma scan_projection_keeps:
  assumes "scan_projection scan = ProjColumns output"
  shows "keeps (logical_scan_projection scan) (scan_needed_columns scan output)"
  using logical_scan_projection_columns [OF assms] by (auto simp: keeps_def)

lemma keeps_mono: "keeps proj cs \<Longrightarrow> ds \<subseteq> cs \<Longrightarrow> keeps proj ds"
  by (cases proj) (auto simp: keeps_def)

lemma scan_projection_all: "scan_projection scan = ProjAll \<Longrightarrow> logical_scan_projection scan = ProjAll"
  by (simp add: logical_scan_projection_def)

lemma scan_keeps:
  "scan_filter scan = Some f \<Longrightarrow> keeps (logical_scan_projection scan) (expr_columns f)"
  "scan_order_by scan = Some key \<Longrightarrow> \<not> scan_distinct scan \<Longrightarrow> keeps (logical_scan_projection scan) (sort_column ` set key)"
  "project (scan_projection scan) (project (logical_scan_projection scan) r) = project (scan_projection scan) r"
proof -
  have "keeps (logical_scan_projection scan) (expr_columns f)" if "scan_filter scan = Some f"
  proof (cases "scan_projection scan")
    case (ProjColumns outs)
    show ?thesis
      by (rule keeps_mono [OF scan_projection_keeps [OF ProjColumns]]) (use that in \<open>auto simp: scan_needed_columns_def\<close>)
  qed (simp add: scan_projection_all keeps_def)
  then show "scan_filter scan = Some f \<Longrightarrow> keeps (logical_scan_projection scan) (expr_columns f)" .
  have "keeps (logical_scan_projection scan) (sort_column ` set key)"
    if "scan_order_by scan = Some key" "\<not> scan_distinct scan"
  proof (cases "scan_projection scan")
    case (ProjColumns outs)
    show ?thesis
      by (rule keeps_mono [OF scan_projection_keeps [OF ProjColumns]]) (use that in \<open>auto simp: scan_needed_columns_def\<close>)
  qed (simp add: scan_projection_all keeps_def)
  then show "scan_order_by scan = Some key \<Longrightarrow> \<not> scan_distinct scan \<Longrightarrow>
    keeps (logical_scan_projection scan) (sort_column ` set key)" .
  show "project (scan_projection scan) (project (logical_scan_projection scan) r) = project (scan_projection scan) r"
  proof (cases "scan_projection scan")
    case (ProjColumns outs)
    then obtain cs rest where "logical_scan_projection scan = ProjColumns cs" "cs = outs @ rest"
      using logical_scan_projection_columns by blast
    then show ?thesis using ProjColumns by (auto simp: Int_absorb1)
  qed (simp add: scan_projection_all)
qed

lemma mset_eq_mset_set: "finite A \<Longrightarrow> mset zs = mset_set A \<longleftrightarrow> distinct zs \<and> set zs = A"
proof
  assume A: "finite A" "mset zs = mset_set A"
  obtain xs where xs: "set xs = A" "distinct xs" using finite_distinct_list [OF A(1)] by blast
  then have "mset xs = mset zs" using A(2) mset_set_set [OF xs(2)] by simp
  then show "distinct zs \<and> set zs = A" using xs by (metis mset_eq_imp_distinct_iff mset_eq_setD)
qed (auto simp: mset_set_set)

lemma sort_results_map:
  assumes "\<And>a b. le (g a) (g b) = le' a b"
  shows "(\<Union>xs \<in> {map g ys | ys. mset ys = M}. sort_results le limit xs) =
    {take_opt limit (map g zs) | zs. mset zs = M \<and> sorted_wrt le' zs}"
proof (intro subset_antisym subsetI)
  fix ws assume "ws \<in> (\<Union>xs \<in> {map g ys | ys. mset ys = M}. sort_results le limit xs)"
  then obtain ys vs where v: "mset ys = M" "ws = take_opt limit vs" "sorted_wrt le vs" "mset vs = mset (map g ys)"
    by (auto simp: sort_results_def)
  from mset_eq_map_perm [OF v(4)] obtain zs where "vs = map g zs" "mset zs = mset ys" by blast
  then show "ws \<in> {take_opt limit (map g zs) | zs. mset zs = M \<and> sorted_wrt le' zs}"
    using v(1-3) by (auto simp: sorted_wrt_map assms)
next
  fix ws assume "ws \<in> {take_opt limit (map g zs) | zs. mset zs = M \<and> sorted_wrt le' zs}"
  then obtain zs where "ws = take_opt limit (map g zs)" "mset zs = M" "sorted_wrt le' zs" by blast
  then show "ws \<in> (\<Union>xs \<in> {map g ys | ys. mset ys = M}. sort_results le limit xs)"
    by (auto simp: sort_results_def sorted_wrt_map assms intro!: exI [of _ "map g zs"])
qed

subsection \<open>Execution of the planned nodes\<close>

lemma exec_builders:
  "exec_node E (project_scan_output n proj) = map (project proj) ` exec_node E n"
  "exec_node E (filter_exec n f) = filter (holds E f) ` exec_node E n"
  "exec_node E (sort_exec n key limit) = (\<Union>xs \<in> exec_node E n. sort_results (row_le E key) limit xs)"
  "\<not> insert_exchanges opts \<Longrightarrow> exec_node E (limit_exec opts n k) = take k ` exec_node E n"
  "\<not> insert_exchanges opts \<Longrightarrow> exec_node E (distinct_exec opts n) = (\<Union>xs \<in> exec_node E n. distinct_results xs)"
  "exec_node E (scan_exec scan) = scan_results E (src_fragments (scan_source scan)) (logical_scan_projection scan)
     (pushdown (predicate_set_new (scan_filter scan)))"
  by (subst exec_node_eq, simp add: project_scan_output_def filter_exec_def sort_exec_def limit_exec_def
      distinct_exec_def scan_exec_def exec_config_def ensure_single_def Let_def)+

lemma exec_aggregate:
  "exec_node E (aggregate_exec n aggs keys) =
     (\<Union>xs \<in> exec_node E n. \<Union>ys \<in> fold_rows E keys aggs xs. merge_rows E keys aggs ys)"
proof -
  have "exec_node E (with_child n (with_execution (CfgLocalFold keys aggs) (fold_attrs keys aggs (node_new ''LocalFoldExec'')))) =
      (\<Union>xs \<in> exec_node E n. fold_rows E keys aggs xs)"
    by (subst exec_node_eq) (simp add: fold_attrs_def exec_config_def)
  then show ?thesis
    unfolding aggregate_exec_def Let_def by (subst exec_node_eq) (simp add: fold_attrs_def exec_config_def)
qed

lemma scanned_and_filtered:
  assumes "engine_ok E"
  shows "exec_node E (case residual (predicate_set_new (scan_filter scan)) of
      Some f \<Rightarrow> filter_exec (scan_exec scan) f | None \<Rightarrow> scan_exec scan) =
    {map (project (logical_scan_projection scan)) ys | ys. mset ys = mset (filtered_rows E scan)}"
proof (cases "scan_filter scan")
  case None
  then show ?thesis by (simp add: exec_builders predicate_set_new_def scan_all_results filtered_rows_def)
next
  case (Some f)
  have "filter (holds E f) ` scan_results E (src_fragments (scan_source scan)) (logical_scan_projection scan)
      (pushdown (predicate_set_new (Some f))) =
    {map (project (logical_scan_projection scan)) ys | ys.
       mset ys = mset (filter (holds E f) (table_rows E (src_fragments (scan_source scan))))}"
    by (rule scan_filter_results [OF assms scan_keeps(1) [OF Some]]) (rule pushdown_holds)
  then show ?thesis using Some by (simp add: exec_builders filtered_rows_def predicate_set_new_def)
qed

lemma take_opt_twice [simp]: "take_opt l (take_opt l xs) = take_opt l xs"
  by (simp add: take_opt_def split: option.splits)

lemma exec_limit:
  "\<not> insert_exchanges opts \<Longrightarrow>
     exec_node E (case lim of Some k \<Rightarrow> limit_exec opts n k | None \<Rightarrow> n) = take_opt lim ` exec_node E n"
  by (cases lim) (simp_all add: exec_builders take_opt_def)

lemma sorted_wrt_True: "sorted_wrt (\<lambda>_ _. True) xs"
  by (induction xs) simp_all

definition sort_limit :: "sort_key option \<Rightarrow> nat option \<Rightarrow> nat option" where
  "sort_limit order limit = (if order = None then None else limit)"

lemma exec_sort:
  assumes "exec_node E n = {map g ys | ys. mset ys = M}"
    "\<And>key a b. order = Some key \<Longrightarrow> row_le E key (g a) (g b) = row_le E key a b"
  shows "exec_node E (case order of Some key \<Rightarrow> sort_exec n key lim | None \<Rightarrow> n) =
    (\<lambda>zs. take_opt (sort_limit order lim) (map g zs)) ` {zs. mset zs = M \<and> sorted_wrt (order_le E order) zs}"
proof (cases order)
  case None
  then show ?thesis using assms(1) by (auto simp: sorted_wrt_True take_opt_def sort_limit_def)
next
  case (Some key)
  have "(\<Union>xs \<in> {map g ys | ys. mset ys = M}. sort_results (row_le E key) lim xs) =
      {take_opt lim (map g zs) | zs. mset zs = M \<and> sorted_wrt (row_le E key) zs}"
    by (rule sort_results_map) (rule assms(2) [OF Some])
  then show ?thesis using Some assms(1) by (auto simp: exec_builders sort_limit_def)
qed

lemma take_opt_compose:
  assumes "\<And>r. p (q r) = p r"
  shows "take_opt lim (map p (take_opt (sort_limit order lim) (map q zs))) = take_opt lim (map p zs)"
  by (simp add: take_opt_map [symmetric] comp_def assms) (simp add: sort_limit_def take_opt_def split: option.splits)

lemma distinct_of_permutations:
  "(\<Union>xs \<in> {map g ys | ys. mset ys = mset rows}. distinct_results xs) = {zs. mset zs = mset_set (g ` set rows)}"
proof -
  have "distinct_results (map g ys) = {zs. mset zs = mset_set (g ` set rows)}" if "mset ys = mset rows" for ys
    using mset_eq_setD [OF that] by (simp add: distinct_results_def mset_eq_mset_set)
  then show ?thesis by blast
qed

lemma exec_plan_scan:
  assumes "\<not> insert_exchanges opts" "engine_ok E" "scan_sensible scan"
  shows "exec_node E (plan_scan opts scan :: 'b plan_node) = scan_spec E scan"
proof -
  let ?S = "scan_projection scan" and ?S' = "logical_scan_projection scan"
  let ?M = "mset (filtered_rows E scan)" and ?lim = "scan_limit scan" and ?ord = "scan_order_by scan"
  define n1 where "n1 = (case residual (predicate_set_new (scan_filter scan)) of
      Some f \<Rightarrow> filter_exec (scan_exec scan) f | None \<Rightarrow> (scan_exec scan :: 'b plan_node))"
  have n1: "exec_node E n1 = {map (project ?S') ys | ys. mset ys = ?M}"
    unfolding n1_def by (rule scanned_and_filtered [OF assms(2)])
  show ?thesis
  proof (cases "scan_distinct scan")
    case False
    define n2 where "n2 = (case ?ord of Some key \<Rightarrow> sort_exec n1 key ?lim | None \<Rightarrow> n1)"
    have n2: "exec_node E n2 = (\<lambda>zs. take_opt (sort_limit ?ord ?lim) (map (project ?S') zs)) `
        {zs. mset zs = ?M \<and> sorted_wrt (order_le E ?ord) zs}"
      unfolding n2_def by (rule exec_sort [OF n1]) (rule row_le_project [OF assms(2) scan_keeps(2) [OF _ False]])
    define n3 where "n3 = (if ?S' \<noteq> ?S then project_scan_output n2 ?S else n2)"
    have "exec_node E n3 = map (project ?S) ` exec_node E n2"
    proof (cases "?S' = ?S")
      case True
      then have "map (project ?S) xs = xs" if "xs \<in> exec_node E n2" for xs
        using that by (auto simp: n2 take_opt_map comp_def)
      then show ?thesis using True by (simp add: n3_def)
    qed (simp add: n3_def exec_builders)
    moreover have "plan_scan opts scan = (case ?lim of Some k \<Rightarrow> limit_exec opts n3 k | None \<Rightarrow> n3)"
      using False assms(1)
      by (simp add: plan_scan_def Let_def n3_def n2_def n1_def ensure_single_def split: option.splits)
    ultimately have "exec_node E (plan_scan opts scan :: 'b plan_node) = take_opt ?lim ` map (project ?S) ` exec_node E n2"
      by (simp add: exec_limit [OF assms(1)])
    then show ?thesis
      unfolding n2 image_image take_opt_compose [where p = "project ?S" and q = "project ?S'", OF scan_keeps(3)]
      by (auto simp: scan_spec_def scan_basis_def scan_output_def False)
  next
    case True
    let ?A = "project ?S ` set (filtered_rows E scan)"
    define n2 where "n2 = (if ?S' \<noteq> ?S then project_scan_output n1 ?S else n1)"
    have n2: "exec_node E n2 = {map (project ?S) ys | ys. mset ys = ?M}"
    proof (cases "?S' = ?S")
      case False
      have "{map (project ?S') ys | ys. mset ys = ?M} = map (project ?S') ` {ys. mset ys = ?M}" by auto
      then have "exec_node E n2 = map (project ?S) ` map (project ?S') ` {ys. mset ys = ?M}"
        using False by (simp add: n2_def exec_builders n1)
      then show ?thesis by (auto simp: image_image comp_def scan_keeps(3))
    qed (simp add: n2_def n1)
    define n3 where "n3 = distinct_exec opts n2"
    have n3: "exec_node E n3 = {map (\<lambda>r. r) ys | ys. mset ys = mset_set ?A}"
      unfolding n3_def exec_builders(5) [OF assms(1)] n2 distinct_of_permutations by simp
    define n4 where "n4 = (case ?ord of Some key \<Rightarrow> sort_exec n3 key ?lim | None \<Rightarrow> n3)"
    have n4: "exec_node E n4 = (\<lambda>zs. take_opt (sort_limit ?ord ?lim) (map (\<lambda>r. r) zs)) `
        {zs. mset zs = mset_set ?A \<and> sorted_wrt (order_le E ?ord) zs}"
      unfolding n4_def by (rule exec_sort [OF n3]) simp
    have "plan_scan opts scan = (case ?lim of Some k \<Rightarrow> limit_exec opts n4 k | None \<Rightarrow> n4)"
      using True assms(1)
      by (simp add: plan_scan_def Let_def n4_def n3_def n2_def n1_def ensure_single_def split: option.splits)
    then have "exec_node E (plan_scan opts scan :: 'b plan_node) = take_opt ?lim ` map (\<lambda>r. r) ` exec_node E n4"
      by (simp add: exec_limit [OF assms(1)])
    then show ?thesis
      unfolding n4 image_image take_opt_compose [where p = "\<lambda>r. r" and q = "\<lambda>r. r", OF refl]
      by (auto simp: scan_spec_def scan_basis_def scan_output_def True)
  qed
qed

subsection \<open>The results of logical plans\<close>

primrec plan_sensible :: "logical_plan \<Rightarrow> bool" where
  "plan_sensible (TableScan scan) \<longleftrightarrow> scan_sensible scan"
| "plan_sensible (LProjection input _) \<longleftrightarrow> plan_sensible input"
| "plan_sensible (LFilter input _) \<longleftrightarrow> plan_sensible input"
| "plan_sensible (LAggregate input _ _) \<longleftrightarrow> plan_sensible input"
| "plan_sensible (LJoin left right _ _ _ _ _ _) \<longleftrightarrow> plan_sensible left \<and> plan_sensible right"
| "plan_sensible (LSort input _ _) \<longleftrightarrow> plan_sensible input"
| "plan_sensible (LLimit input _) \<longleftrightarrow> plan_sensible input"
| "plan_sensible (LDistinct input) \<longleftrightarrow> plan_sensible input"
| "plan_sensible (LCopy input _ _) \<longleftrightarrow> plan_sensible input"

definition planned :: "planning_options \<Rightarrow> logical_plan \<Rightarrow> unit plan_node" where
  "planned opts plan = the (plan_node opts plan)"

lemma planned_Some: "plan_node opts plan = Some (planned opts plan)"
  unfolding planned_def using plan_node_total by (metis option.sel)

lemma plan_results_planned: "plan_results opts E plan = exec_node E (planned opts plan)"
  by (simp add: plan_results_def planned_def)

lemma plan_results_scan:
  "\<not> insert_exchanges opts \<Longrightarrow> engine_ok E \<Longrightarrow> scan_sensible scan \<Longrightarrow>
     plan_results opts E (TableScan scan) = scan_spec E scan"
  by (simp add: plan_results_def exec_plan_scan)

lemma plan_results_unary:
  assumes "\<not> insert_exchanges opts"
  shows "plan_results opts E (LProjection i proj) = map (project proj) ` plan_results opts E i"
    "plan_results opts E (LFilter i f) = filter (holds E f) ` plan_results opts E i"
    "plan_results opts E (LSort i key limit) = (\<Union>xs \<in> plan_results opts E i. sort_results (row_le E key) limit xs)"
    "plan_results opts E (LLimit i n) = take n ` plan_results opts E i"
    "plan_results opts E (LDistinct i) = (\<Union>xs \<in> plan_results opts E i. distinct_results xs)"
    "plan_results opts E (LAggregate i aggs keys) =
       (\<Union>xs \<in> plan_results opts E i. \<Union>ys \<in> fold_rows E keys aggs xs. merge_rows E keys aggs ys)"
    "plan_results opts E (LCopy i fmt target) = plan_results opts E i"
proof -
  note p = planned_Some [of opts i]
  show "plan_results opts E (LProjection i proj) = map (project proj) ` plan_results opts E i"
    "plan_results opts E (LFilter i f) = filter (holds E f) ` plan_results opts E i"
    "plan_results opts E (LSort i key limit) = (\<Union>xs \<in> plan_results opts E i. sort_results (row_le E key) limit xs)"
    "plan_results opts E (LLimit i n) = take n ` plan_results opts E i"
    "plan_results opts E (LDistinct i) = (\<Union>xs \<in> plan_results opts E i. distinct_results xs)"
    using assms by (simp_all add: plan_results_def p exec_builders ensure_single_def)
  show "plan_results opts E (LAggregate i aggs keys) =
       (\<Union>xs \<in> plan_results opts E i. \<Union>ys \<in> fold_rows E keys aggs xs. merge_rows E keys aggs ys)"
    using assms
    by (simp add: plan_results_def p exec_aggregate plan_aggregate_input_def ensure_single_def ensure_hash_def)
  show "plan_results opts E (LCopy i fmt target) = plan_results opts E i"
    by (simp add: plan_results_def p) (subst exec_node_eq, simp add: exec_config_def)
qed

lemma exec_plan_join:
  assumes "\<not> insert_exchanges opts" "plan_join opts strategy jt lk rk lp rp proj l r = Some n"
  shows "exec_node E n = (\<Union>xs \<in> exec_node E l. \<Union>ys \<in> exec_node E r.
    if strategy = StrategySortMerge then merge_join_rows E (first_or_default lk) (first_or_default rk) lp rp xs ys
    else join_rows E jt lk rk lp rp proj xs ys)"
proof (cases strategy)
  case (StrategyAuto m)
  with assms(2) show ?thesis by (simp add: plan_join_def)
next
  case (StrategyHash side)
  then have cfg: "execution_config n = Some (CfgHashJoin lk rk lp rp side jt proj)" and cs: "node_children n = [l, r]"
    using assms(2) by (auto simp: plan_join_def join_attrs_def)
  show ?thesis by (subst exec_node_eq) (simp add: cfg cs exec_config_def StrategyHash)
next
  case (StrategyPartitionedHash k m)
  then have cfg: "execution_config n = Some (CfgPartitionedHashJoin lk rk lp rp k m jt proj)" and cs: "node_children n = [l, r]"
    using assms by (auto simp: plan_join_def join_attrs_def ensure_hash_def)
  show ?thesis by (subst exec_node_eq) (simp add: cfg cs exec_config_def StrategyPartitionedHash)
next
  case StrategySortMerge
  then have cfg: "execution_config n = Some (CfgSortMergeJoin (first_or_default lk) (first_or_default rk) lp rp)"
    and cs: "node_children n = [l, r]"
    using assms(2) by (auto simp: plan_join_def join_attrs_def)
  show ?thesis by (subst exec_node_eq) (simp add: cfg cs exec_config_def StrategySortMerge)
qed

text \<open>What a join returns depends on its inputs only through their results and their estimates.\<close>

lemma plan_results_join:
  assumes "plan_results opts E l' = plan_results opts E l" "plan_results opts E r' = plan_results opts E r"
    "estimated_logical_bytes l' = estimated_logical_bytes l" "estimated_logical_bytes r' = estimated_logical_bytes r"
    "\<not> insert_exchanges opts"
  shows "plan_results opts E (LJoin l' r' jt lk rk lp rp proj) = plan_results opts E (LJoin l r jt lk rk lp rp proj)"
proof -
  have s: "choose_join_strategy opts l' r' jt = choose_join_strategy opts l r jt"
    unfolding choose_join_strategy_def assms(3,4) ..
  have j: "plan_join opts (choose_join_strategy opts a b jt) jt lk rk lp rp proj (planned opts a) (planned opts b) =
      Some (planned opts (LJoin a b jt lk rk lp rp proj))" for a b
    using planned_Some [of opts "LJoin a b jt lk rk lp rp proj"]
    by (simp add: planned_Some [of opts a] planned_Some [of opts b])
  show ?thesis
    unfolding plan_results_planned exec_plan_join [OF assms(5) j] s assms(1,2) [unfolded plan_results_planned] ..
qed

subsection \<open>The rules\<close>

lemma scan_spec_image:
  "scan_spec E s = (\<lambda>ys. take_opt (scan_limit s) (map (scan_output s) ys)) `
     {ys. mset ys = scan_basis E s \<and> sorted_wrt (order_le E (scan_order_by s)) ys}"
  by (auto simp: scan_spec_def)

lemma scan_spec_projection:
  assumes "\<not> scan_distinct scan" "projection_can_replace (scan_projection scan) proj"
  shows "scan_spec E (scan\<lparr>scan_projection := replace_projection (scan_projection scan) proj\<rparr>) =
    map (project proj) ` scan_spec E scan"
proof -
  have p: "project proj (project (scan_projection scan) r) = project (replace_projection (scan_projection scan) proj) r" for r
    using assms(2) by (cases "(scan_projection scan, proj)" rule: projection_can_replace.cases)
      (auto simp: list_all_iff Int_absorb1 subset_iff)
  show ?thesis
    unfolding scan_spec_image image_image
    using assms(1) by (simp add: scan_basis_def scan_output_def filtered_rows_def take_opt_map comp_def p)
qed

lemma filter_image_sorted:
  assumes "preorder_on_rows le"
  shows "filter P ` {ys. mset ys = M \<and> sorted_wrt le ys} = {ys. mset ys = filter_mset P M \<and> sorted_wrt le ys}"
proof (intro subset_antisym subsetI)
  fix ys assume "ys \<in> {ys. mset ys = filter_mset P M \<and> sorted_wrt le ys}"
  then have ys: "mset ys = filter_mset P M" "sorted_wrt le ys" by auto
  obtain xs where xs: "mset xs = filter_mset (\<lambda>x. \<not> P x) M" using ex_mset by blast
  have "\<forall>y \<in> set ys. P y" "\<forall>x \<in> set xs. \<not> P x"
    using arg_cong [OF ys(1), of set_mset] arg_cong [OF xs, of set_mset] by auto
  from sorted_extend [OF assms ys(2) this] obtain zs where "sorted_wrt le zs" "mset zs = mset ys + mset xs" "filter P zs = ys"
    by blast
  then show "ys \<in> filter P ` {ys. mset ys = M \<and> sorted_wrt le ys}"
    using ys(1) xs multiset_partition [of M P] by (metis (mono_tags, lifting) image_eqI mem_Collect_eq)
qed (auto simp: sorted_wrt_filter)

lemma scan_spec_filter:
  assumes "engine_ok E" "filter_fits_scan scan f"
  shows "scan_spec E (scan\<lparr>scan_filter := combine_filter_exprs (scan_filter scan) (Some f)\<rparr>) =
    filter (holds E f) ` scan_spec E scan"
proof -
  let ?P = "holds E f" and ?S = "scan_projection scan"
  let ?s = "scan\<lparr>scan_filter := combine_filter_exprs (scan_filter scan) (Some f)\<rparr>"
  have keep: "keeps ?S (expr_columns f)"
    using assms(2) keeps_contains [of ?S "referenced_columns f"] by (simp add: filter_fits_scan_def set_referenced_columns)
  have hp: "?P (project ?S r) = ?P r" for r by (rule holds_project [OF assms(1) keep])
  have rows: "filtered_rows E ?s = filter ?P (filtered_rows E scan)"
    by (cases "scan_filter scan") (auto simp: filtered_rows_def intro!: filter_cong)
  have out: "?P (scan_output scan r) = ?P r" for r by (simp add: scan_output_def hp)
  have "scan_basis E ?s = filter_mset ?P (scan_basis E scan)"
  proof (cases "scan_distinct scan")
    case True
    have "project ?S ` {r \<in> set (filtered_rows E scan). ?P r} = {r \<in> project ?S ` set (filtered_rows E scan). ?P r}"
      using hp by auto
    then show ?thesis using True by (simp add: scan_basis_def rows filter_mset_mset_set)
  qed (simp add: scan_basis_def rows)
  moreover have pre: "preorder_on_rows (order_le E (scan_order_by scan))"
    using engine_preorder [OF assms(1)] by (cases "scan_order_by scan") (simp_all add: preorder_on_rows_def)
  ultimately have b: "{ys. mset ys = scan_basis E ?s \<and> sorted_wrt (order_le E (scan_order_by ?s)) ys} =
      filter ?P ` {ys. mset ys = scan_basis E scan \<and> sorted_wrt (order_le E (scan_order_by scan)) ys}"
    by (simp add: filter_image_sorted)
  have lim: "scan_limit scan = None" using assms(2) by (simp add: filter_fits_scan_def)
  show ?thesis
    unfolding scan_spec_image b image_image using lim
    by (intro image_cong refl) (simp add: take_opt_def scan_output_def filter_map comp_def hp)
qed

lemma scan_spec_unordered:
  "scan_order_by s = None \<Longrightarrow> scan_limit s = None \<Longrightarrow>
     scan_spec E s = {map (scan_output s) ys | ys. mset ys = scan_basis E s}"
  by (simp add: scan_spec_def sorted_wrt_True take_opt_def)

lemma scan_spec_sort:
  assumes "engine_ok E" "scan_order_by scan = None" "scan_limit scan = None"
    "projection_contains_columns (scan_projection scan) (map sort_column key)"
  shows "scan_spec E (scan\<lparr>scan_order_by := Some key, scan_limit := limit\<rparr>) =
    (\<Union>xs \<in> scan_spec E scan. sort_results (row_le E key) limit xs)"
proof -
  have keep: "keeps (scan_projection scan) (sort_column ` set key)"
    using assms(4) by (simp add: keeps_contains [symmetric])
  have "row_le E key (scan_output scan a) (scan_output scan b) = row_le E key a b" for a b
    by (simp add: scan_output_def row_le_project [OF assms(1) keep])
  then show ?thesis
    unfolding scan_spec_unordered [OF assms(2,3)]
    by (subst sort_results_map [where le' = "row_le E key"])
      (simp_all add: scan_spec_def scan_basis_def scan_output_def filtered_rows_def)
qed

lemma take_tighter_limit: "take_opt (tighter_limit l n) xs = take n (take_opt l xs)"
  by (simp add: take_opt_def tighter_limit_def min.commute split: option.splits)

lemma scan_spec_limit:
  "scan_spec E (scan\<lparr>scan_limit := tighter_limit (scan_limit scan) n\<rparr>) = take n ` scan_spec E scan"
  unfolding scan_spec_image image_image
  by (simp add: take_tighter_limit scan_basis_def scan_output_def filtered_rows_def)

lemma sort_results_limit:
  "take n ` sort_results le (tighter_limit l n) xs = take n ` sort_results le l xs"
  by (auto simp: sort_results_def take_tighter_limit image_iff intro!: exI)

lemma scan_spec_distinct:
  assumes "scan_order_by scan = None" "scan_limit scan = None"
  shows "scan_spec E (scan\<lparr>scan_distinct := True\<rparr>) = (\<Union>xs \<in> scan_spec E scan. distinct_results xs)"
proof -
  let ?A = "project (scan_projection scan) ` set (filtered_rows E scan)"
  obtain rows where rows: "mset rows = scan_basis E scan" using ex_mset by blast
  have "set rows = set_mset (scan_basis E scan)" using rows set_mset_mset by metis
  then have "scan_output scan ` set rows = ?A"
    by (simp add: scan_basis_def scan_output_def)
  then show ?thesis
    unfolding scan_spec_unordered [OF assms] rows [symmetric] distinct_of_permutations
    using assms by (simp add: scan_spec_unordered scan_basis_def scan_output_def filtered_rows_def)
qed

subsection \<open>The optimizer keeps the meaning of plans\<close>

text \<open>A rewriting is sound when results, estimates and well-formedness stay.\<close>

definition rewrites_to :: "planning_options \<Rightarrow> 'v engine \<Rightarrow> logical_plan \<Rightarrow> logical_plan \<Rightarrow> bool" where
  "rewrites_to opts E plan plan' \<longleftrightarrow>
     (plan_sensible plan \<longrightarrow> plan_sensible plan' \<and> plan_results opts E plan' = plan_results opts E plan) \<and>
     estimated_logical_bytes plan' = estimated_logical_bytes plan"

lemma rewrites_trans [trans]: "rewrites_to opts E a b \<Longrightarrow> rewrites_to opts E b c \<Longrightarrow> rewrites_to opts E a c"
  by (simp add: rewrites_to_def)

lemma rewrites_refl [simp]: "rewrites_to opts E a a"
  by (simp add: rewrites_to_def)

lemma rewrites_cong:
  assumes "\<not> insert_exchanges opts" "rewrites_to opts E i i'"
  shows "rewrites_to opts E (LProjection i proj) (LProjection i' proj)"
    "rewrites_to opts E (LFilter i f) (LFilter i' f)"
    "rewrites_to opts E (LSort i key limit) (LSort i' key limit)"
    "rewrites_to opts E (LLimit i n) (LLimit i' n)"
    "rewrites_to opts E (LDistinct i) (LDistinct i')"
    "rewrites_to opts E (LAggregate i aggs keys) (LAggregate i' aggs keys)"
    "rewrites_to opts E (LCopy i fmt target) (LCopy i' fmt target)"
  using assms by (simp_all add: rewrites_to_def plan_results_unary)

lemma rewrites_join:
  assumes "\<not> insert_exchanges opts" "rewrites_to opts E l l'" "rewrites_to opts E r r'"
  shows "rewrites_to opts E (LJoin l r jt lk rk lp rp proj) (LJoin l' r' jt lk rk lp rp proj)"
  using assms plan_results_join [OF _ _ _ _ assms(1), of E l' l r' r] by (simp add: rewrites_to_def)

lemma rewrites_projection:
  assumes "\<not> insert_exchanges opts" "engine_ok E"
  shows "rewrites_to opts E (LProjection i proj) (fst (optimize_projection i proj rules))"
  using assms
  by (cases i) (simp_all add: optimize_projection_def rewrites_to_def plan_results_unary plan_results_scan
      scan_spec_projection scan_sensible_def)

lemma rewrites_sort:
  assumes "\<not> insert_exchanges opts" "engine_ok E"
  shows "rewrites_to opts E (LSort i key limit) (fst (optimize_sort i key limit rules))"
  using assms
  by (cases i) (simp_all add: optimize_sort_def rewrites_to_def plan_results_unary plan_results_scan
      scan_spec_sort scan_sensible_def keeps_contains [symmetric])

lemma rewrites_limit:
  assumes "\<not> insert_exchanges opts" "engine_ok E"
  shows "rewrites_to opts E (LLimit i n) (fst (optimize_limit i n rules))"
  using assms
  by (cases i) (simp_all add: optimize_limit_def rewrites_to_def plan_results_unary plan_results_scan
      scan_spec_limit scan_sensible_def image_UN sort_results_limit)

lemma rewrites_distinct:
  assumes "\<not> insert_exchanges opts" "engine_ok E"
  shows "rewrites_to opts E (LDistinct i) (fst (optimize_distinct i rules))"
  using assms
  by (cases i) (simp_all add: optimize_distinct_def rewrites_to_def plan_results_unary plan_results_scan
      scan_spec_distinct scan_sensible_def)

lemma rewrites_filter_scan:
  assumes "\<not> insert_exchanges opts" "engine_ok E" "filter_fits_scan scan f"
  shows "rewrites_to opts E (LFilter (TableScan scan) f)
    (TableScan (scan\<lparr>scan_filter := combine_filter_exprs (scan_filter scan) (Some f)\<rparr>))"
  using assms by (simp add: rewrites_to_def plan_results_unary plan_results_scan scan_spec_filter scan_sensible_def)

lemma rewrites_combined_filters:
  assumes "\<not> insert_exchanges opts"
  shows "rewrites_to opts E (LFilter (LFilter i f) g) (LFilter i (And f g))"
proof -
  have "holds E (And f g) = (\<lambda>r. holds E f r \<and> holds E g r)" by (simp add: fun_eq_iff)
  then show ?thesis using assms by (simp add: rewrites_to_def plan_results_unary image_image)
qed

lemma optimize_node_rewrites:
  assumes "\<not> insert_exchanges opts" "engine_ok E"
  shows "rewrites_to opts E plan (fst (optimize_logical_node plan rules))"
proof (induction plan rules rule: optimize_logical_node.induct)
  case (2 input proj rules)
  then show ?case
    using rewrites_trans [OF rewrites_cong(1) [OF assms(1)] rewrites_projection [OF assms]]
    by (simp add: optimize_logical_node.simps split_beta Let_def)
next
  case (3 input f rules)
  obtain i r where o: "optimize_logical_node input rules = (i, r)" by (metis prod.collapse)
  have i: "rewrites_to opts E (LFilter input f) (LFilter i f)"
    using rewrites_cong(2) [OF assms(1)] "3.IH"(1) o by simp
  show ?case
  proof (cases i)
    case (TableScan scan)
    then show ?thesis
      using i o rewrites_trans [OF i] rewrites_filter_scan [OF assms, of scan f]
      by (simp add: optimize_logical_node.simps)
  next
    case (LFilter inner_input inner)
    have "rewrites_to opts E (LFilter inner_input (And inner f))
        (fst (optimize_logical_node (LFilter inner_input (And inner f)) (r @ [CombineFilters])))"
      by (rule "3.IH"(2) [OF o [symmetric] refl LFilter])
    then show ?thesis
      using rewrites_trans [OF i [unfolded LFilter] rewrites_trans [OF rewrites_combined_filters [OF assms(1)]]] LFilter o
      by (simp add: optimize_logical_node.simps(3))
  qed (use i o in \<open>simp_all add: optimize_logical_node.simps(3)\<close>)
next
  case (4 input aggs keys rules)
  then show ?case
    using rewrites_cong(6) [OF assms(1)] by (simp add: optimize_logical_node.simps split_beta Let_def)
next
  case (5 l r jt lk rk lp rp proj rules)
  then show ?case
    using rewrites_join [OF assms(1) "5.IH"(1) "5.IH"(2) [OF refl prod.collapse]] by (simp add: optimize_logical_node.simps split_beta Let_def)
next
  case (6 input key limit rules)
  then show ?case
    using rewrites_trans [OF rewrites_cong(3) [OF assms(1)] rewrites_sort [OF assms]]
    by (simp add: optimize_logical_node.simps split_beta Let_def)
next
  case (7 input n rules)
  then show ?case
    using rewrites_trans [OF rewrites_cong(4) [OF assms(1)] rewrites_limit [OF assms]]
    by (simp add: optimize_logical_node.simps split_beta Let_def)
next
  case (8 input rules)
  then show ?case
    using rewrites_trans [OF rewrites_cong(5) [OF assms(1)] rewrites_distinct [OF assms]]
    by (simp add: optimize_logical_node.simps split_beta Let_def)
next
  case (9 input fmt target rules)
  then show ?case
    using rewrites_cong(7) [OF assms(1)] by (simp add: optimize_logical_node.simps split_beta Let_def)
qed (simp add: optimize_logical_node.simps)

text \<open>
  C1: the optimizer keeps the results of a plan.  For every engine whose comparisons and sort keys look only at
  their columns, the lists of rows that the execution of the optimized plan may return are exactly those of the
  plan as written, for every composition of filters, projections, sorts, limits, distincts, joins and aggregates.
\<close>

theorem optimizer_preserves_results:
  assumes "\<not> insert_exchanges opts" "engine_ok E" "plan_sensible plan"
  shows "plan_results opts E (fst (optimize plan)) = plan_results opts E plan"
  using optimize_node_rewrites [OF assms(1,2), of plan "[]"] assms(3) by (simp add: rewrites_to_def optimize_def)

definition demo_engine :: "nat engine" where
  "demo_engine = \<lparr>table_rows = \<lambda>fragments. [[''a'' \<mapsto> 2], [''a'' \<mapsto> 1, ''b'' \<mapsto> 7], [''a'' \<mapsto> 3]],
     eval_leaf = \<lambda>e r. (case e of IsNull c negated \<Rightarrow> Some ((r c = None) \<noteq> negated) | _ \<Rightarrow> None),
     row_le = \<lambda>key r s. (case key of [] \<Rightarrow> True
       | k # _ \<Rightarrow> (case r (sort_column k) of None \<Rightarrow> True
           | Some x \<Rightarrow> (case s (sort_column k) of None \<Rightarrow> False | Some y \<Rightarrow> x \<le> y))),
     join_rows = \<lambda>_ _ _ _ _ _ xs ys. {xs @ ys}, merge_join_rows = \<lambda>_ _ _ _ xs ys. {xs @ ys},
     fold_rows = \<lambda>_ _ xs. {xs}, merge_rows = \<lambda>_ _ xs. {xs}\<rparr>"

lemma demo_engine_ok: "engine_ok demo_engine"
  unfolding engine_ok_def demo_engine_def
  by (auto split: expr.splits list.splits option.splits)

definition demo_query :: logical_plan where
  "demo_query = LLimit (LSort (LFilter (LFilter demo_scan (IsNull ''b'' False)) (IsNull ''c'' False))
     [\<lparr>sort_column = ''a'', descending = False, nulls_first = False\<rparr>] None) 1"

theorem optimizer_preserves_results_witness:
  "plan_results (planning_options_default\<lparr>insert_exchanges := False\<rparr>) demo_engine (fst (optimize demo_query)) =
     plan_results (planning_options_default\<lparr>insert_exchanges := False\<rparr>) demo_engine demo_query \<and>
   snd (optimize demo_query) = [FilterIntoScan, FilterIntoScan, SortIntoScan, LimitIntoScan]"
proof -
  have "plan_sensible demo_query" by (simp add: demo_query_def demo_scan_def scan_sensible_def)
  moreover have "snd (optimize demo_query) = [FilterIntoScan, FilterIntoScan, SortIntoScan, LimitIntoScan]"
    by (simp add: demo_query_def demo_scan_def optimize_def optimize_logical_node.simps optimize_limit_def
        optimize_sort_def filter_fits_scan_def tighter_limit_def)
  ultimately show ?thesis using optimizer_preserves_results [OF _ demo_engine_ok] by simp
qed

end
