(* ===== verification/Join_Pushdown.thy ===== *)
theory Join_Pushdown
  imports Plan_Semantics
begin

text \<open>
  What a join query pushes into its two inputs: \<open>plan_join_inputs\<close> of \<open>optimizer.rs\<close> derives for each side the
  columns to read and a filter from the \<open>WHERE\<close> clause, and \<open>direct_join_sink.rs\<close> decides when the pushed
  filters replace the clause.  Columns of the joined row carry the alias of their side, \<open>alias.column\<close>.
\<close>

subsection \<open>Columns of a side\<close>

definition strip_join_prefix :: "string \<Rightarrow> string \<Rightarrow> string option" where
  "strip_join_prefix column prefix =
     (if take (length prefix) column = prefix
      then case drop (length prefix) column of
             [] \<Rightarrow> None
           | c # rest \<Rightarrow> if c = CHR ''.'' then Some rest else None
      else None)"

definition add_column_once :: "string list \<Rightarrow> string \<Rightarrow> string list" where
  "add_column_once columns column = (if column \<in> set columns then columns else columns @ [column])"

definition add_join_side_column :: "string \<Rightarrow> string list \<Rightarrow> string \<Rightarrow> string list" where
  "add_join_side_column prefix columns qualified_column =
     (case strip_join_prefix qualified_column prefix of
        Some column \<Rightarrow> add_column_once columns column
      | None \<Rightarrow> columns)"

fun collect_expr_referenced_columns :: "expr \<Rightarrow> string list \<Rightarrow> string list" where
  "collect_expr_referenced_columns (BooleanLit b) columns = columns"
| "collect_expr_referenced_columns (Comparison comparison) columns = add_column_once columns (cmp_column comparison)"
| "collect_expr_referenced_columns (ColumnComparison left op right) columns =
     add_column_once (add_column_once columns left) right"
| "collect_expr_referenced_columns (InList column vs negated has_null) columns = add_column_once columns column"
| "collect_expr_referenced_columns (Like column pattern negated escape ci) columns = add_column_once columns column"
| "collect_expr_referenced_columns (IsNull column negated) columns = add_column_once columns column"
| "collect_expr_referenced_columns (Not e) columns = collect_expr_referenced_columns e columns"
| "collect_expr_referenced_columns (And left right) columns =
     collect_expr_referenced_columns right (collect_expr_referenced_columns left columns)"
| "collect_expr_referenced_columns (Or left right) columns =
     collect_expr_referenced_columns right (collect_expr_referenced_columns left columns)"

definition expr_referenced_columns :: "expr \<Rightarrow> string list" where
  "expr_referenced_columns e = collect_expr_referenced_columns e []"

definition join_side_projection ::
    "projection \<Rightarrow> expr option \<Rightarrow> sort_key option \<Rightarrow> string \<Rightarrow> string list \<Rightarrow> projection" where
  "join_side_projection projection where_filter order_by prefix join_keys =
     (case projection of
        ProjAll \<Rightarrow> ProjAll
      | ProjColumns columns \<Rightarrow>
          (let side_columns = fold (\<lambda>key cs. add_column_once cs key) join_keys [];
               side_columns = fold (\<lambda>column cs. add_join_side_column prefix cs column) columns side_columns;
               side_columns = (case where_filter of
                   Some f \<Rightarrow> fold (\<lambda>column cs. add_join_side_column prefix cs column) (referenced_columns f) side_columns
                 | None \<Rightarrow> side_columns);
               side_columns = (case order_by of
                   Some key \<Rightarrow> fold (\<lambda>sort cs. add_join_side_column prefix cs (sort_column sort)) key side_columns
                 | None \<Rightarrow> side_columns)
           in ProjColumns side_columns))"

subsection \<open>Filters of a side\<close>

definition side_column :: "string \<Rightarrow> string \<Rightarrow> string" where
  "side_column prefix column = (case strip_join_prefix column prefix of Some c \<Rightarrow> c | None \<Rightarrow> column)"

fun rewrite_join_side_expr :: "expr \<Rightarrow> string \<Rightarrow> expr" where
  "rewrite_join_side_expr (BooleanLit b) prefix = BooleanLit b"
| "rewrite_join_side_expr (Comparison comparison) prefix =
     Comparison \<lparr>cmp_column = side_column prefix (cmp_column comparison), cmp_op = cmp_op comparison,
       cmp_value = cmp_value comparison\<rparr>"
| "rewrite_join_side_expr (ColumnComparison left op right) prefix =
     ColumnComparison (side_column prefix left) op (side_column prefix right)"
| "rewrite_join_side_expr (InList column vs negated has_null) prefix =
     InList (side_column prefix column) vs negated has_null"
| "rewrite_join_side_expr (Like column pattern negated escape ci) prefix =
     Like (side_column prefix column) pattern negated escape ci"
| "rewrite_join_side_expr (IsNull column negated) prefix = IsNull (side_column prefix column) negated"
| "rewrite_join_side_expr (Not e) prefix = Not (rewrite_join_side_expr e prefix)"
| "rewrite_join_side_expr (And left right) prefix =
     And (rewrite_join_side_expr left prefix) (rewrite_join_side_expr right prefix)"
| "rewrite_join_side_expr (Or left right) prefix =
     Or (rewrite_join_side_expr left prefix) (rewrite_join_side_expr right prefix)"

fun combine_optional_filters :: "expr option \<Rightarrow> expr option \<Rightarrow> (expr \<Rightarrow> expr \<Rightarrow> expr) \<Rightarrow> expr option" where
  "combine_optional_filters None None combine = None"
| "combine_optional_filters (Some e) None combine = Some e"
| "combine_optional_filters None (Some e) combine = Some e"
| "combine_optional_filters (Some left) (Some right) combine = Some (combine left right)"

text \<open>A filter whose columns are all of the side is taken whole.\<close>

definition references_side :: "expr \<Rightarrow> string \<Rightarrow> bool" where
  "references_side e prefix \<longleftrightarrow>
     (let referenced = expr_referenced_columns e
      in referenced \<noteq> [] \<and> list_all (\<lambda>column. strip_join_prefix column prefix \<noteq> None) referenced)"

fun derive_join_side_filter :: "expr \<Rightarrow> string \<Rightarrow> expr option" where
  "derive_join_side_filter (And left right) prefix =
     (if references_side (And left right) prefix then Some (rewrite_join_side_expr (And left right) prefix)
      else combine_optional_filters (derive_join_side_filter left prefix) (derive_join_side_filter right prefix) And)"
| "derive_join_side_filter (Or left right) prefix =
     (if references_side (Or left right) prefix then Some (rewrite_join_side_expr (Or left right) prefix)
      else case derive_join_side_filter left prefix of
             None \<Rightarrow> None
           | Some l \<Rightarrow> (case derive_join_side_filter right prefix of None \<Rightarrow> None | Some r \<Rightarrow> Some (Or l r)))"
| "derive_join_side_filter e prefix =
     (if references_side e prefix then Some (rewrite_join_side_expr e prefix) else None)"

definition join_side_filter :: "expr \<Rightarrow> string \<Rightarrow> expr option" where
  "join_side_filter f prefix = derive_join_side_filter f prefix"

record join_input_plan =
  left_projection :: projection
  right_projection :: projection
  left_filter :: "expr option"
  right_filter :: "expr option"

definition plan_join_inputs ::
    "projection \<Rightarrow> expr option \<Rightarrow> sort_key option \<Rightarrow> string \<Rightarrow> string list \<Rightarrow> string \<Rightarrow> string list \<Rightarrow> join_input_plan" where
  "plan_join_inputs projection where_filter order_by left_alias left_keys right_alias right_keys =
     \<lparr>left_projection = join_side_projection projection where_filter order_by left_alias left_keys,
      right_projection = join_side_projection projection where_filter order_by right_alias right_keys,
      left_filter = Option.bind where_filter (\<lambda>f. join_side_filter f left_alias),
      right_filter = Option.bind where_filter (\<lambda>f. join_side_filter f right_alias)\<rparr>"

subsection \<open>When the pushed filters replace the clause\<close>

definition add_filter_column :: "string list \<Rightarrow> string \<Rightarrow> string list" where
  "add_filter_column columns column = (if column \<in> set columns then columns else columns @ [column])"

fun collect_filter_columns :: "expr \<Rightarrow> string list \<Rightarrow> string list" where
  "collect_filter_columns (BooleanLit b) columns = columns"
| "collect_filter_columns (Comparison comparison) columns = add_filter_column columns (cmp_column comparison)"
| "collect_filter_columns (ColumnComparison left op right) columns =
     add_filter_column (add_filter_column columns left) right"
| "collect_filter_columns (InList column vs negated has_null) columns = add_filter_column columns column"
| "collect_filter_columns (Like column pattern negated escape ci) columns = add_filter_column columns column"
| "collect_filter_columns (IsNull column negated) columns = add_filter_column columns column"
| "collect_filter_columns (Not e) columns = collect_filter_columns e columns"
| "collect_filter_columns (And left right) columns = collect_filter_columns right (collect_filter_columns left columns)"
| "collect_filter_columns (Or left right) columns = collect_filter_columns right (collect_filter_columns left columns)"

definition expr_references_only_join_side :: "expr \<Rightarrow> string \<Rightarrow> bool" where
  "expr_references_only_join_side e alias0 \<longleftrightarrow>
     (let columns = collect_filter_columns e []
      in columns \<noteq> [] \<and>
         list_all (\<lambda>column. take (length alias0) column = alias0 \<and>
           (case drop (length alias0) column of [] \<Rightarrow> False | c # _ \<Rightarrow> c = CHR ''.'')) columns)"

fun filter_fully_pushable_to_join_inputs :: "expr \<Rightarrow> string \<Rightarrow> string \<Rightarrow> bool" where
  "filter_fully_pushable_to_join_inputs (BooleanLit value) left_alias right_alias \<longleftrightarrow> value = Some True"
| "filter_fully_pushable_to_join_inputs (And left right) left_alias right_alias \<longleftrightarrow>
     filter_fully_pushable_to_join_inputs left left_alias right_alias \<and>
     filter_fully_pushable_to_join_inputs right left_alias right_alias"
| "filter_fully_pushable_to_join_inputs e left_alias right_alias \<longleftrightarrow>
     expr_references_only_join_side e left_alias \<or> expr_references_only_join_side e right_alias"

subsection \<open>Joined rows\<close>

definition joined_row :: "string \<Rightarrow> string \<Rightarrow> 'v row \<Rightarrow> 'v row \<Rightarrow> 'v row" where
  "joined_row lp rp l r column =
     (case strip_join_prefix column lp of
        Some c \<Rightarrow> l c
      | None \<Rightarrow> (case strip_join_prefix column rp of Some c \<Rightarrow> r c | None \<Rightarrow> None))"

text \<open>The inner and the left join of two tables on a condition, as SQL defines them.\<close>

definition inner_join ::
    "('v row \<Rightarrow> 'v row \<Rightarrow> bool) \<Rightarrow> string \<Rightarrow> string \<Rightarrow> 'v row list \<Rightarrow> 'v row list \<Rightarrow> 'v row list" where
  "inner_join matches lp rp L R = concat (map (\<lambda>l. map (joined_row lp rp l) (filter (matches l) R)) L)"

definition left_join ::
    "('v row \<Rightarrow> 'v row \<Rightarrow> bool) \<Rightarrow> string \<Rightarrow> string \<Rightarrow> 'v row list \<Rightarrow> 'v row list \<Rightarrow> 'v row list" where
  "left_join matches lp rp L R =
     concat (map (\<lambda>l. if filter (matches l) R = [] then [joined_row lp rp l Map.empty]
       else map (joined_row lp rp l) (filter (matches l) R)) L)"

definition filter_opt :: "'v engine \<Rightarrow> expr option \<Rightarrow> 'v row list \<Rightarrow> 'v row list" where
  "filter_opt E f = filter (\<lambda>r. case f of None \<Rightarrow> True | Some e \<Rightarrow> holds E e r)"

text \<open>The aliases tell the sides apart, and comparisons look at values, not at the names of columns.\<close>

definition sides_apart :: "string \<Rightarrow> string \<Rightarrow> bool" where
  "sides_apart lp rp \<longleftrightarrow> lp \<noteq> rp \<and> CHR ''.'' \<notin> set lp \<and> CHR ''.'' \<notin> set rp"

definition name_independent :: "'v engine \<Rightarrow> bool" where
  "name_independent E \<longleftrightarrow>
     (\<forall>e prefix r r'. (\<forall>c \<in> expr_columns e. \<exists>d. strip_join_prefix c prefix = Some d \<and> r' c = r d) \<longrightarrow>
        eval_leaf E (rewrite_join_side_expr e prefix) r = eval_leaf E e r')"

subsection \<open>Prefixes and columns\<close>

lemma strip_join_prefix_iff: "strip_join_prefix column prefix = Some c \<longleftrightarrow> column = prefix @ ''.'' @ c"
proof
  assume "strip_join_prefix column prefix = Some c"
  then have "take (length prefix) column = prefix" "drop (length prefix) column = CHR ''.'' # c"
    by (auto simp: strip_join_prefix_def split: if_splits list.splits)
  then show "column = prefix @ ''.'' @ c" by (metis append_Cons append_Nil append_take_drop_id)
qed (simp add: strip_join_prefix_def)

lemma strip_join_prefix_apart:
  assumes "sides_apart lp rp" "strip_join_prefix column rp = Some c"
  shows "strip_join_prefix column lp = None"
proof (rule ccontr)
  assume "strip_join_prefix column lp \<noteq> None"
  then obtain d where "lp @ CHR ''.'' # d = rp @ CHR ''.'' # c"
    using assms(2) by (auto simp: strip_join_prefix_iff)
  moreover have "takeWhile (\<lambda>x. x \<noteq> CHR ''.'') (p @ CHR ''.'' # d) = p" if "CHR ''.'' \<notin> set p" for p d
    using that by (subst takeWhile_append2) auto
  ultimately show False using assms(1) unfolding sides_apart_def by metis
qed

lemma set_add_column_once [simp]: "set (add_column_once cs c) = insert c (set cs)"
  by (auto simp: add_column_once_def)

lemma set_collect_expr_referenced_columns [simp]:
  "set (collect_expr_referenced_columns e columns) = set columns \<union> expr_columns e"
  by (induction e arbitrary: columns) auto

lemma references_side_iff:
  "references_side e p \<longleftrightarrow> expr_columns e \<noteq> {} \<and> (\<forall>c \<in> expr_columns e. strip_join_prefix c p \<noteq> None)"
proof -
  have "set (expr_referenced_columns e) = expr_columns e" by (simp add: expr_referenced_columns_def)
  then show ?thesis unfolding references_side_def Let_def list_all_iff by (metis set_empty)
qed

lemma set_collect_filter_columns [simp]: "set (collect_filter_columns e columns) = set columns \<union> expr_columns e"
  by (induction e arbitrary: columns) (auto simp: add_filter_column_def)

text \<open>The two modules agree on what the columns of one side are.\<close>

lemma expr_references_only_join_side_eq: "expr_references_only_join_side e p = references_side e p"
proof -
  have strip: "(take (length p) c = p \<and> (case drop (length p) c of [] \<Rightarrow> False | x # _ \<Rightarrow> x = CHR ''.'')) \<longleftrightarrow>
      strip_join_prefix c p \<noteq> None" for c
    by (simp add: strip_join_prefix_def split: list.splits)
  have "collect_filter_columns e [] = [] \<longleftrightarrow> expr_columns e = {}"
    using set_collect_filter_columns [of e "[]"] by (metis Un_empty_left empty_set set_empty)
  then show ?thesis
    by (simp only: expr_references_only_join_side_def references_side_iff Let_def list_all_iff strip
        set_collect_filter_columns list.set Un_empty_left)
qed

subsection \<open>A derived filter follows from the clause\<close>

lemma rewrite_eval:
  assumes "name_independent E" "\<And>c. c \<in> expr_columns e \<Longrightarrow> \<exists>d. strip_join_prefix c p = Some d \<and> r' c = r d"
  shows "eval_expr E (rewrite_join_side_expr e p) r = eval_expr E e r'"
proof -
  have leaf: "eval_leaf E (rewrite_join_side_expr e p) r = eval_leaf E e r'"
    if "\<forall>c \<in> expr_columns e. \<exists>d. strip_join_prefix c p = Some d \<and> r' c = r d" for e
    using assms(1) that unfolding name_independent_def by blast
  show ?thesis
    using assms(2) leaf [of e]
  proof (induction e)
    case (And a b)
    then show ?case using leaf [of a] leaf [of b] by simp
  next
    case (Or a b)
    then show ?case using leaf [of a] leaf [of b] by simp
  next
    case (Not a)
    then show ?case using leaf [of a] by simp
  qed simp_all
qed

text \<open>The row of a side that a joined row contains.\<close>

definition side_of :: "string \<Rightarrow> 'v row \<Rightarrow> 'v row \<Rightarrow> bool" where
  "side_of p j r \<longleftrightarrow> (\<forall>c d. strip_join_prefix c p = Some d \<longrightarrow> j c = r d)"

lemma side_of_joined [simp]:
  "side_of lp (joined_row lp rp l r) l"
  "sides_apart lp rp \<Longrightarrow> side_of rp (joined_row lp rp l r) r"
  by (auto simp: side_of_def joined_row_def strip_join_prefix_apart)

lemma whole_side_holds:
  assumes "name_independent E" "references_side e p" "side_of p j r"
  shows "holds E (rewrite_join_side_expr e p) r = holds E e j"
proof -
  have "eval_expr E (rewrite_join_side_expr e p) r = eval_expr E e j"
    by (rule rewrite_eval [OF assms(1)]) (use assms(2,3) in \<open>auto simp: references_side_iff side_of_def\<close>)
  then show ?thesis by (simp add: holds_def)
qed

lemma kleene_or_True [simp]: "kleene_or a b = Some True \<longleftrightarrow> a = Some True \<or> b = Some True"
  by (cases "(a, b)" rule: kleene_or.cases) auto

lemma holds_Or [simp]: "holds E (Or a b) r \<longleftrightarrow> holds E a r \<or> holds E b r"
  by (simp add: holds_def)

lemma derive_whole: "references_side e p \<Longrightarrow> derive_join_side_filter e p = Some (rewrite_join_side_expr e p)"
  by (cases e) simp_all

definition holds_opt :: "'v engine \<Rightarrow> expr option \<Rightarrow> 'v row \<Rightarrow> bool" where
  "holds_opt E f r \<longleftrightarrow> (case f of None \<Rightarrow> True | Some e \<Rightarrow> holds E e r)"

lemma holds_opt_simps [simp]: "holds_opt E None r" "holds_opt E (Some e) r = holds E e r"
  by (simp_all add: holds_opt_def)

lemma holds_opt_combine [simp]:
  "holds_opt E (combine_optional_filters a b And) r \<longleftrightarrow> holds_opt E a r \<and> holds_opt E b r"
  by (cases a; cases b) simp_all

lemma derived_filter_holds:
  assumes "name_independent E" "side_of p j r" "holds E e j"
  shows "holds_opt E (derive_join_side_filter e p) r"
  using assms(3)
proof (induction e)
  case (And a b)
  then show ?case using whole_side_holds [OF assms(1) _ assms(2), of "And a b"] by simp
next
  case (Or a b)
  show ?case
  proof (cases "references_side (Or a b) p")
    case True
    then show ?thesis using Or.prems whole_side_holds [OF assms(1) _ assms(2), of "Or a b"] by simp
  next
    case False
    then show ?thesis using Or by (auto split: option.splits)
  qed
qed (use whole_side_holds [OF assms(1) _ assms(2)] in \<open>simp_all del: rewrite_join_side_expr.simps\<close>)

text \<open>A clause that is fully pushable follows from the filters of the two sides.\<close>

lemma fully_pushable_holds:
  assumes "name_independent E" "side_of lp j l" "side_of rp j r"
  shows "filter_fully_pushable_to_join_inputs e lp rp \<Longrightarrow> holds_opt E (derive_join_side_filter e lp) l \<Longrightarrow>
    holds_opt E (derive_join_side_filter e rp) r \<Longrightarrow> holds E e j"
proof (induction e)
  case (And a b)
  consider "references_side (And a b) lp" | "references_side (And a b) rp"
    | "\<not> references_side (And a b) lp" "\<not> references_side (And a b) rp" by blast
  then show ?case
  proof cases
    case 1
    then show ?thesis
      using And.prems(2) whole_side_holds [OF assms(1) 1 assms(2)] by (simp add: derive_whole del: derive_join_side_filter.simps)
  next
    case 2
    then show ?thesis
      using And.prems(3) whole_side_holds [OF assms(1) 2 assms(3)] by (simp add: derive_whole del: derive_join_side_filter.simps)
  next
    case 3
    then show ?thesis using And by simp
  qed
next
  case (BooleanLit b)
  then show ?case by (simp add: holds_def)
qed (use whole_side_holds [OF assms(1) _ assms(2)] whole_side_holds [OF assms(1) _ assms(3)] in
    \<open>auto simp: expr_references_only_join_side_eq derive_whole
       simp del: derive_join_side_filter.simps rewrite_join_side_expr.simps holds_Or\<close>)

subsection \<open>The columns a side reads\<close>

lemma set_add_join_side_columns:
  "set (fold (\<lambda>column cs. add_join_side_column p cs (g column)) columns cs) =
     set cs \<union> {d. \<exists>c \<in> set columns. strip_join_prefix (g c) p = Some d}"
  by (induction columns arbitrary: cs) (auto simp: add_join_side_column_def split: option.splits)

lemma set_add_columns_once: "set (fold (\<lambda>key cs. add_column_once cs key) keys cs) = set cs \<union> set keys"
  by (induction keys arbitrary: cs) auto

text \<open>The columns of the joined row that the query looks at.\<close>

definition query_columns :: "projection \<Rightarrow> expr option \<Rightarrow> sort_key option \<Rightarrow> projection" where
  "query_columns projection where_filter order_by =
     (case projection of
        ProjAll \<Rightarrow> ProjAll
      | ProjColumns columns \<Rightarrow>
          ProjColumns (columns @ (case where_filter of None \<Rightarrow> [] | Some f \<Rightarrow> referenced_columns f) @
            (case order_by of None \<Rightarrow> [] | Some key \<Rightarrow> map sort_column key)))"

lemma join_side_projection_columns:
  "join_side_projection (ProjColumns columns) f order_by p keys = ProjColumns cs \<Longrightarrow>
     query_columns (ProjColumns columns) f order_by = ProjColumns qs \<Longrightarrow>
     set cs = set keys \<union> {d. \<exists>c \<in> set qs. strip_join_prefix c p = Some d}"
  using set_add_join_side_columns [of p "\<lambda>c. c"]
  by (cases f; cases order_by)
    (auto simp: join_side_projection_def query_columns_def Let_def set_add_columns_once
      set_add_join_side_columns bex_Un)

lemma side_projection_keeps:
  "keeps (join_side_projection proj f order_by p keys) (set keys)"
  "keeps (query_columns proj f order_by) {c} \<Longrightarrow> strip_join_prefix c p = Some d \<Longrightarrow>
     keeps (join_side_projection proj f order_by p keys) {d}"
proof -
  show "keeps (join_side_projection proj f order_by p keys) (set keys)"
  proof (cases proj)
    case (ProjColumns columns)
    obtain cs qs where c: "join_side_projection proj f order_by p keys = ProjColumns cs"
      "query_columns proj f order_by = ProjColumns qs"
      by (simp add: ProjColumns join_side_projection_def query_columns_def Let_def)
    show ?thesis using join_side_projection_columns [OF c [unfolded ProjColumns]] c(1) by (simp add: keeps_def)
  qed (simp add: join_side_projection_def keeps_def)
  show "keeps (join_side_projection proj f order_by p keys) {d}"
    if "keeps (query_columns proj f order_by) {c}" "strip_join_prefix c p = Some d"
  proof (cases proj)
    case (ProjColumns columns)
    obtain cs qs where c: "join_side_projection proj f order_by p keys = ProjColumns cs"
      "query_columns proj f order_by = ProjColumns qs"
      by (simp add: ProjColumns join_side_projection_def query_columns_def Let_def)
    show ?thesis
      using join_side_projection_columns [OF c [unfolded ProjColumns]] c that by (auto simp: keeps_def)
  qed (simp add: join_side_projection_def keeps_def)
qed

subsection \<open>Pushing into an inner join\<close>

lemma joined_row_project:
  assumes "sides_apart lp rp"
  shows "project (query_columns proj f order_by)
      (joined_row lp rp (project (join_side_projection proj f order_by lp lk) l)
         (project (join_side_projection proj f order_by rp rk) r)) =
    project (query_columns proj f order_by) (joined_row lp rp l r)"
proof (rule ext)
  fix c
  show "project (query_columns proj f order_by)
      (joined_row lp rp (project (join_side_projection proj f order_by lp lk) l)
         (project (join_side_projection proj f order_by rp rk) r)) c =
    project (query_columns proj f order_by) (joined_row lp rp l r) c"
  proof (cases "keeps (query_columns proj f order_by) {c}")
    case True
    have same: "project (join_side_projection proj f order_by p ks) x d = x d" if "strip_join_prefix c p = Some d" for p ks x d
      by (rule project_same [OF side_projection_keeps(2) [OF True that]]) simp
    have "project (query_columns proj f order_by) x c = x c" for x :: "'a row" by (rule project_same [OF True]) simp
    then show ?thesis by (simp add: joined_row_def same split: option.splits)
  next
    case False
    then show ?thesis by (cases "query_columns proj f order_by") (auto simp: keeps_def)
  qed
qed

text \<open>A join condition that looks only at the keys.\<close>

definition on_keys :: "string list \<Rightarrow> string list \<Rightarrow> ('v row \<Rightarrow> 'v row \<Rightarrow> bool) \<Rightarrow> bool" where
  "on_keys lk rk matches \<longleftrightarrow>
     (\<forall>l l' r r'. (\<forall>k \<in> set lk. l k = l' k) \<longrightarrow> (\<forall>k \<in> set rk. r k = r' k) \<longrightarrow> matches l r = matches l' r')"

lemma matches_project:
  assumes "on_keys lk rk matches"
  shows "matches (project (join_side_projection proj f order_by lp lk) l) (project (join_side_projection proj f order_by rp rk) r) =
    matches l r"
  by (rule assms [unfolded on_keys_def, rule_format]) (rule project_same [OF side_projection_keeps(1)], assumption)+

lemma inner_join_map:
  assumes "\<And>l r. matches (g l) (h r) = matches l r"
    "\<And>l r. q (joined_row lp rp (g l) (h r)) = q (joined_row lp rp l r)"
  shows "map q (inner_join matches lp rp (map g L) (map h R)) = map q (inner_join matches lp rp L R)"
  by (simp add: inner_join_def map_concat comp_def filter_map assms)

lemma filter_inner_join:
  assumes "\<And>l r. l \<in> set L \<Longrightarrow> r \<in> set R \<Longrightarrow> P (joined_row lp rp l r) \<Longrightarrow> A l \<and> B r"
  shows "filter P (inner_join matches lp rp (filter A L) (filter B R)) = filter P (inner_join matches lp rp L R)"
  using assms
proof (induction L)
  case (Cons l L)
  have "filter P (map (joined_row lp rp l) (filter (matches l) R)) = (if A l then
      filter P (map (joined_row lp rp l) (filter (matches l) (filter B R))) else [])"
    using Cons.prems [of l] by (auto simp: filter_map comp_def filter_empty_conv intro!: arg_cong [of _ _ "map _"] filter_cong)
  moreover have "filter P (inner_join matches lp rp (filter A L) (filter B R)) = filter P (inner_join matches lp rp L R)"
    by (rule Cons.IH) (rule Cons.prems, simp_all)
  ultimately show ?case by (simp add: inner_join_def)
qed (simp add: inner_join_def)

lemma filter_map_same: "(\<And>x. P (g x) = P x) \<Longrightarrow> filter P (map g xs) = map g (filter P xs)"
  by (simp add: filter_map comp_def)

lemma query_filter_project:
  assumes "engine_ok E"
  shows "holds_opt E f (project (query_columns proj f order_by) j) = holds_opt E f j"
proof (cases f)
  case (Some e)
  have "keeps (query_columns proj f order_by) (expr_columns e)"
    by (cases proj) (auto simp: query_columns_def keeps_def Some)
  then show ?thesis using holds_project [OF assms] Some by simp
qed simp

lemma filter_opt_eq: "filter_opt E f = filter (holds_opt E f)"
  unfolding filter_opt_def holds_opt_def [abs_def] ..

lemma filtered_map_eq:
  assumes "map q xs = map q ys" "\<And>x. P (q x) = P x"
  shows "map q (filter P xs) = map q (filter P ys)"
  using arg_cong [OF assms(1), of "filter P"] by (simp add: filter_map comp_def assms(2))



subsection \<open>Pushing into a left join\<close>

text \<open>
  C35: the same filters are pushed when the join is a left join, where a filter on the right side does not
  commute with the join.  For \<open>WHERE alias.column IS NULL\<close> a left row whose matches all have a value in the
  column must not be returned; the pushed filter removes its matches, and the query returns it extended by
  nulls, also when the clause is applied again.
\<close>

theorem left_join_pushdown_unsound:
  assumes "sides_apart lp rp" "e = IsNull (rp @ ''.'' @ column) False"
    "\<And>c r. eval_leaf E (IsNull c False) r = Some (r c = None)"
    "\<exists>r \<in> set R. matches l r" "\<forall>r \<in> set R. matches l r \<longrightarrow> r column \<noteq> None"
    "plan = plan_join_inputs proj (Some e) order_by lp lk rp rk"
  shows "filter (holds E e) (left_join matches lp rp [l] R) = [] \<and>
    filter (holds E e) (left_join matches lp rp (filter_opt E (left_filter plan) [l])
      (filter_opt E (right_filter plan) R)) = [joined_row lp rp l Map.empty]"
proof -
  have strip: "strip_join_prefix (rp @ ''.'' @ column) rp = Some column" by (simp add: strip_join_prefix_iff)
  have "strip_join_prefix (rp @ ''.'' @ column) lp = None" by (rule strip_join_prefix_apart [OF assms(1) strip])
  then have j: "joined_row lp rp l r (rp @ ''.'' @ column) = r column" for r
    using strip by (simp add: joined_row_def)
  have right: "right_filter plan = Some (IsNull column False)" "left_filter plan = None"
    using strip \<open>strip_join_prefix (rp @ ''.'' @ column) lp = None\<close>
    by (simp_all add: assms(2,6) plan_join_inputs_def join_side_filter_def references_side_iff side_column_def)
  have h: "holds E e (joined_row lp rp l r) \<longleftrightarrow> r column = None" for r
    by (simp only: assms(2) holds_def eval_expr.simps assms(3) j option.inject) simp
  have "filter (matches l) R \<noteq> []" using assms(4) by (simp add: filter_empty_conv)
  then have "filter (holds E e) (left_join matches lp rp [l] R) = []"
    using assms(5) by (auto simp: left_join_def filter_empty_conv h)
  moreover have "filter (matches l) (filter (holds E (IsNull column False)) R) = []"
    using assms(5) by (auto simp: filter_empty_conv holds_def assms(3))
  ultimately show ?thesis
    by (simp only: right filter_opt_def left_join_def option.case filter_True list.map concat.simps append_Nil2
        filter.simps h) (simp add: h)
qed

subsection \<open>Examples\<close>

lemma demo_engine_name_independent: "name_independent demo_engine"
proof -
  have "eval_leaf demo_engine (rewrite_join_side_expr e p) r = eval_leaf demo_engine e r'"
    if "\<forall>c \<in> expr_columns e. \<exists>d. strip_join_prefix c p = Some d \<and> r' c = r d" for e p r r'
    using that by (cases e) (auto simp: demo_engine_def side_column_def)
  then show ?thesis unfolding name_independent_def by blast
qed

definition same_key :: "nat row \<Rightarrow> nat row \<Rightarrow> bool" where
  "same_key l r \<longleftrightarrow> l ''k'' = r ''k'' \<and> l ''k'' \<noteq> None"

lemma same_key_on_keys: "on_keys [''k''] [''k''] same_key"
  by (simp add: on_keys_def same_key_def)

definition demo_clause :: expr where
  "demo_clause = And (IsNull ''l.a'' False) (IsNull ''r.x'' True)"



theorem left_join_pushdown_unsound_witness:
  "let e = IsNull ''r.x'' False; l = [''k'' \<mapsto> 1]; R = [[''k'' \<mapsto> 1, ''x'' \<mapsto> 5]];
       plan = plan_join_inputs ProjAll (Some e) None ''l'' [''k''] ''r'' [''k'']
   in filter (holds demo_engine e) (left_join same_key ''l'' ''r'' [l] R) = [] \<and>
      filter (holds demo_engine e) (left_join same_key ''l'' ''r'' (filter_opt demo_engine (left_filter plan) [l])
        (filter_opt demo_engine (right_filter plan) R)) = [joined_row ''l'' ''r'' l Map.empty]"
  unfolding Let_def
  by (rule left_join_pushdown_unsound [where column = "''x''"])
    (simp_all add: sides_apart_def same_key_def demo_engine_def)

end
