(* ===== verification/Join_Order.thy ===== *)
theory Join_Order
  imports Dodam_Prelude
begin

text \<open>
  Join ordering: \<open>LogicalJoinGraph\<close> of \<open>optimizer.rs\<close>.  A graph of tables with their statistics and of equi-join
  edges; the greedy order, the exhaustive search for a left-deep order with branch and bound, the dynamic
  program over subsets for bushy trees, and the cost of a fused lookup aggregate.  A \<open>u128\<close> is a natural number
  and its saturating operations are written out.  The selectivities, which are \<open>f64\<close> values, are not modelled.
\<close>

subsection \<open>Statistics and plans\<close>

record join_table_stats =
  base_rows :: nat
  table_rows :: nat
  row_width :: nat
  key_ndv :: "string \<rightharpoonup> nat"

record join_edge =
  edge_left :: nat
  edge_left_key :: string
  edge_right :: nat
  edge_right_key :: string

record join_step =
  table_index :: nat
  step_rows :: nat
  step_cost :: nat

record join_plan =
  plan_start :: nat
  plan_steps :: "join_step list"
  plan_cost :: nat
  plan_bushy :: bool

record join_graph =
  graph_tables :: "join_table_stats list"
  graph_edges :: "join_edge list"

abbreviation u128_mul :: "nat \<Rightarrow> nat \<Rightarrow> nat" where "u128_mul a b \<equiv> u128_sat (a * b)"
abbreviation u128_add :: "nat \<Rightarrow> nat \<Rightarrow> nat" where "u128_add a b \<equiv> u128_sat (a + b)"

definition table_count :: "join_graph \<Rightarrow> nat" where
  "table_count g = length (graph_tables g)"

definition table_width :: "join_graph \<Rightarrow> nat \<Rightarrow> nat" where
  "table_width g i = row_width (graph_tables g ! i)"

subsection \<open>Estimates of one join\<close>

definition is_joined :: "bool list \<Rightarrow> nat \<Rightarrow> bool" where
  "is_joined joined i \<longleftrightarrow> i < length joined \<and> joined ! i"

definition connected_edges :: "join_graph \<Rightarrow> bool list \<Rightarrow> nat \<Rightarrow> join_edge list" where
  "connected_edges g joined i =
     filter (\<lambda>e. (edge_left e = i \<and> is_joined joined (edge_right e)) \<or> (edge_right e = i \<and> is_joined joined (edge_left e)))
       (graph_edges g)"

definition side_ndv :: "join_table_stats \<Rightarrow> string \<Rightarrow> nat" where
  "side_ndv t key = max (min (case key_ndv t key of Some n \<Rightarrow> n | None \<Rightarrow> table_rows t) (table_rows t)) 1"

definition edge_ndv :: "join_graph \<Rightarrow> join_edge \<Rightarrow> nat \<times> nat" where
  "edge_ndv g e =
     (side_ndv (graph_tables g ! edge_left e) (edge_left_key e), side_ndv (graph_tables g ! edge_right e) (edge_right_key e))"

definition edges_denominator :: "join_graph \<Rightarrow> join_edge list \<Rightarrow> nat" where
  "edges_denominator g edges =
     (case map (\<lambda>e. let (l, r) = edge_ndv g e in max (max l r) 1) edges of [] \<Rightarrow> 1 | d # ds \<Rightarrow> fold max ds d)"

definition estimate_join_rows :: "join_graph \<Rightarrow> nat \<Rightarrow> nat \<Rightarrow> join_edge list \<Rightarrow> nat" where
  "estimate_join_rows g current_rows next_table edges =
     u128_mul current_rows (max (table_rows (graph_tables g ! next_table)) 1) div edges_denominator g edges"

text \<open>\<open>Iterator::min_by_key\<close> returns the first of the smallest elements.\<close>

definition min_by_key :: "('a \<Rightarrow> nat) \<Rightarrow> 'a list \<Rightarrow> 'a option" where
  "min_by_key key xs =
     (case xs of [] \<Rightarrow> None | y # ys \<Rightarrow> Some (fold (\<lambda>x best. if key x < key best then x else best) ys y))"

definition join_step_for :: "join_graph \<Rightarrow> bool list \<Rightarrow> nat \<Rightarrow> nat \<Rightarrow> nat \<Rightarrow> join_step option" where
  "join_step_for g joined current_rows current_width i =
     (let edges = connected_edges g joined i
      in if edges = [] then None
         else let rows = estimate_join_rows g current_rows i edges;
                  output_width = u128_add current_width (table_width g i);
                  build_cost = min (u128_mul current_rows current_width)
                    (u128_mul (table_rows (graph_tables g ! i)) (table_width g i))
              in Some \<lparr>table_index = i, step_rows = rows, step_cost = u128_add (u128_mul rows output_width) build_cost\<rparr>)"

definition choose_next_join :: "join_graph \<Rightarrow> bool list \<Rightarrow> nat \<Rightarrow> nat \<Rightarrow> nat list \<Rightarrow> join_step option" where
  "choose_next_join g joined current_rows current_width candidates =
     min_by_key step_cost
       (List.map_filter (join_step_for g joined current_rows current_width)
         (filter (\<lambda>i. \<not> is_joined joined i) candidates))"

subsection \<open>The greedy order\<close>

text \<open>The loop of \<open>estimate_greedy_plan\<close>.\<close>

function greedy_loop ::
    "join_graph \<Rightarrow> bool list \<Rightarrow> nat \<Rightarrow> nat \<Rightarrow> nat \<Rightarrow> nat \<Rightarrow> join_step list \<Rightarrow> (join_step list \<times> nat) option" where
  "greedy_loop g joined joined_count rows width cost steps =
     (if joined_count < table_count g
      then case choose_next_join g joined rows width [0..<table_count g] of
             None \<Rightarrow> None
           | Some step \<Rightarrow>
               greedy_loop g (joined[table_index step := True]) (joined_count + 1) (max (step_rows step) 1)
                 (u128_add width (table_width g (table_index step))) (u128_add cost (step_cost step)) (steps @ [step])
      else Some (steps, cost))"
  by pat_completeness auto

termination greedy_loop
  by (relation "measure (\<lambda>(g, joined, count, _). table_count g - count)") auto

declare greedy_loop.simps [simp del]

definition start_rows :: "join_graph \<Rightarrow> nat \<Rightarrow> nat" where
  "start_rows g start = max (table_rows (graph_tables g ! start)) 1"

definition start_width :: "join_graph \<Rightarrow> nat \<Rightarrow> nat" where
  "start_width g start = max (table_width g start) 1"

definition start_cost :: "join_graph \<Rightarrow> nat \<Rightarrow> nat" where
  "start_cost g start = u128_mul (start_rows g start) (start_width g start)"

definition start_flags :: "join_graph \<Rightarrow> nat \<Rightarrow> bool list" where
  "start_flags g start = (replicate (table_count g) False)[start := True]"

definition estimate_greedy_plan :: "join_graph \<Rightarrow> nat \<Rightarrow> join_plan option" where
  "estimate_greedy_plan g start =
     (if start \<ge> table_count g then None
      else map_option (\<lambda>(steps, cost). \<lparr>plan_start = start, plan_steps = steps, plan_cost = cost, plan_bushy = False\<rparr>)
        (greedy_loop g (start_flags g start) 1 (start_rows g start) (start_width g start) (start_cost g start) []))"

definition choose_greedy_plan :: "join_graph \<Rightarrow> join_plan option" where
  "choose_greedy_plan g = min_by_key plan_cost (List.map_filter (estimate_greedy_plan g) [0..<table_count g])"

subsection \<open>The best left-deep order\<close>

definition better :: "nat \<Rightarrow> join_plan option \<Rightarrow> bool" where
  "better cost best \<longleftrightarrow> (case best of None \<Rightarrow> True | Some plan \<Rightarrow> cost < plan_cost plan)"

definition next_steps :: "join_graph \<Rightarrow> bool list \<Rightarrow> nat \<Rightarrow> nat \<Rightarrow> join_step list" where
  "next_steps g joined current_rows current_width =
     sort_key step_cost
       (List.map_filter (\<lambda>i. choose_next_join g joined current_rows current_width [i]) [0..<table_count g])"

text \<open>
  The recursion joins one more table.  The flags and the steps are restored after each call, so only the best
  plan is threaded through; an index outside of the flags, which would panic, does not occur.
\<close>

function enumerate_left_deep ::
    "join_graph \<Rightarrow> bool list \<Rightarrow> nat \<Rightarrow> nat \<Rightarrow> nat \<Rightarrow> nat \<Rightarrow> join_step list \<Rightarrow> join_plan option \<Rightarrow> join_plan option" where
  "enumerate_left_deep g joined current_rows current_width current_cost start steps best =
     (if list_all (\<lambda>b. b) joined
      then if better current_cost best
           then Some \<lparr>plan_start = start, plan_steps = steps, plan_cost = current_cost, plan_bushy = False\<rparr>
           else best
      else if \<not> better current_cost best then best
      else fold (\<lambda>step best.
             if table_index step < length joined \<and> \<not> joined ! table_index step
             then enumerate_left_deep g (joined[table_index step := True]) (max (step_rows step) 1)
               (u128_add current_width (table_width g (table_index step)))
               (u128_add current_cost (step_cost step)) start (steps @ [step]) best
             else best) (next_steps g joined current_rows current_width) best)"
  by pat_completeness auto

lemma joined_decreases:
  "i < length joined \<Longrightarrow> \<not> joined ! i \<Longrightarrow> length (filter HOL.Not (joined[i := True])) < length (filter HOL.Not joined)"
proof (induction joined arbitrary: i)
  case (Cons b joined)
  then show ?case by (cases i) auto
qed simp

termination enumerate_left_deep
  by (relation "measure (\<lambda>(g, joined, _). length (filter HOL.Not joined))") (auto intro: joined_decreases)

declare enumerate_left_deep.simps [simp del]

definition choose_exhaustive_left_deep_plan :: "join_graph \<Rightarrow> join_plan option" where
  "choose_exhaustive_left_deep_plan g =
     (if table_count g = 0 \<or> table_count g > 12 then None
      else fold (\<lambda>start best.
             enumerate_left_deep g (start_flags g start) (start_rows g start) (start_width g start) (start_cost g start)
               start [] best) [0..<table_count g] None)"

definition choose_best_plan :: "join_graph \<Rightarrow> join_plan option" where
  "choose_best_plan g =
     (if table_count g \<le> 6
      then case choose_exhaustive_left_deep_plan g of Some plan \<Rightarrow> Some plan | None \<Rightarrow> choose_greedy_plan g
      else choose_greedy_plan g)"

subsection \<open>Left-deep orders\<close>

text \<open>The cost of joining the tables of a list one after the other; the list is an order when all tables are joined.\<close>

fun order_cost :: "join_graph \<Rightarrow> bool list \<Rightarrow> nat \<Rightarrow> nat \<Rightarrow> nat \<Rightarrow> nat list \<Rightarrow> nat option" where
  "order_cost g joined rows width cost [] = (if list_all (\<lambda>b. b) joined then Some cost else None)"
| "order_cost g joined rows width cost (t # ts) =
     (if t < table_count g
      then case choose_next_join g joined rows width [t] of
             None \<Rightarrow> None
           | Some step \<Rightarrow>
               order_cost g (joined[t := True]) (max (step_rows step) 1) (u128_add width (table_width g t))
                 (u128_add cost (step_cost step)) ts
      else None)"

definition left_deep_cost :: "join_graph \<Rightarrow> nat \<Rightarrow> nat list \<Rightarrow> nat option" where
  "left_deep_cost g start ts =
     (if start < table_count g
      then order_cost g (start_flags g start) (start_rows g start) (start_width g start) (start_cost g start) ts
      else None)"

lemma choose_next_join_single:
  "choose_next_join g joined rows width [t] = (if is_joined joined t then None else join_step_for g joined rows width t)"
  by (simp add: choose_next_join_def List.map_filter_def min_by_key_def split: option.splits)

lemma join_step_for_index: "join_step_for g joined rows width t = Some step \<Longrightarrow> table_index step = t"
  by (auto simp: join_step_for_def Let_def split: if_splits)

lemma set_map_filter [simp]: "set (List.map_filter f xs) = {y. \<exists>x \<in> set xs. f x = Some y}"
  by (force simp: List.map_filter_def)

lemma in_next_steps:
  "step \<in> set (next_steps g joined rows width) \<longleftrightarrow>
     table_index step < table_count g \<and> choose_next_join g joined rows width [table_index step] = Some step"
  by (auto simp: next_steps_def choose_next_join_single dest: join_step_for_index split: if_splits)

lemma next_step_flags:
  assumes "choose_next_join g joined rows width [t] = Some step" "length joined = table_count g" "t < table_count g"
  shows "table_index step = t \<and> t < length joined \<and> \<not> joined ! t"
  using assms join_step_for_index by (auto simp: choose_next_join_single is_joined_def split: if_splits)

text \<open>Costs only grow, so a partial order that is no better than the best plan can be given up.\<close>

lemma order_cost_ge: "order_cost g joined rows width cost ts = Some c \<Longrightarrow> cost \<le> u128_max \<Longrightarrow> cost \<le> c"
proof (induction g joined rows width cost ts rule: order_cost.induct)
  case (2 g joined rows width cost t ts)
  then obtain step where step: "choose_next_join g joined rows width [t] = Some step" "t < table_count g"
    by (auto split: if_splits option.splits)
  have "u128_add cost (step_cost step) \<le> c"
    by (rule "2.IH" [OF step(2,1) _ u128_sat_bound]) (use "2.prems"(1) step in simp)
  then show ?case using u128_sat_add_ge [OF "2.prems"(2)] order_trans by blast
qed (simp split: if_splits)

subsection \<open>Folding over the steps\<close>

lemma fold_keeps: "(\<And>x b. x \<in> set xs \<Longrightarrow> P b \<Longrightarrow> P (f x b)) \<Longrightarrow> P b \<Longrightarrow> P (fold f xs b)"
  by (induction xs arbitrary: b) auto

lemma fold_reaches:
  "x \<in> set xs \<Longrightarrow> (\<And>b. Q (f x b)) \<Longrightarrow> (\<And>y b. y \<in> set xs \<Longrightarrow> Q b \<Longrightarrow> Q (f y b)) \<Longrightarrow> Q (fold f xs b)"
proof (induction xs arbitrary: b)
  case (Cons y ys)
  then show ?case using fold_keeps [of ys Q f] by (cases "x = y") auto
qed simp

subsection \<open>Branch and bound\<close>

definition at_most :: "join_plan option \<Rightarrow> nat \<Rightarrow> bool" where
  "at_most best c \<longleftrightarrow> (\<exists>plan. best = Some plan \<and> plan_cost plan \<le> c)"

lemma not_better: "\<not> better c best \<longleftrightarrow> at_most best c"
  by (auto simp: better_def at_most_def split: option.splits)

lemma at_most_mono: "at_most best c \<Longrightarrow> c \<le> d \<Longrightarrow> at_most best d"
  by (auto simp: at_most_def)

lemma enumerate_at_most:
  "at_most best c \<Longrightarrow> at_most (enumerate_left_deep g joined rows width cost start steps best) c"
proof (induction g joined rows width cost start steps best rule: enumerate_left_deep.induct)
  case (1 g joined rows width cost start steps best)
  show ?case
  proof (cases "list_all (\<lambda>b. b) joined")
    case True
    then show ?thesis
      using "1.prems" by (subst enumerate_left_deep.simps) (auto simp: better_def at_most_def split: option.splits)
  next
    case False
    then show ?thesis
      using "1.prems" "1.IH" [OF False]
      by (subst enumerate_left_deep.simps) (auto intro!: fold_keeps [where P = "\<lambda>b. at_most b c"])
  qed
qed

text \<open>A plan the search returns is the one it was given or an order that continues the steps made so far.\<close>

definition continues ::
    "join_graph \<Rightarrow> bool list \<Rightarrow> nat \<Rightarrow> nat \<Rightarrow> nat \<Rightarrow> nat \<Rightarrow> join_step list \<Rightarrow> join_plan \<Rightarrow> bool" where
  "continues g joined rows width cost start steps plan \<longleftrightarrow>
     (\<exists>rest. plan_start plan = start \<and> plan_steps plan = steps @ rest \<and>
        order_cost g joined rows width cost (map table_index rest) = Some (plan_cost plan))"

lemma continues_step:
  assumes "step \<in> set (next_steps g joined rows width)"
    "continues g (joined[table_index step := True]) (max (step_rows step) 1)
       (u128_add width (table_width g (table_index step))) (u128_add cost (step_cost step)) start (steps @ [step]) plan"
  shows "continues g joined rows width cost start steps plan"
proof -
  obtain rest where rest: "plan_start plan = start" "plan_steps plan = (steps @ [step]) @ rest"
    "order_cost g (joined[table_index step := True]) (max (step_rows step) 1)
       (u128_add width (table_width g (table_index step))) (u128_add cost (step_cost step)) (map table_index rest) =
     Some (plan_cost plan)"
    using assms(2) unfolding continues_def by blast
  have "order_cost g joined rows width cost (map table_index (step # rest)) = Some (plan_cost plan)"
    using assms(1) rest(3) by (simp add: in_next_steps)
  moreover have "plan_steps plan = steps @ (step # rest)" using rest(2) by simp
  ultimately show ?thesis unfolding continues_def using rest(1) by blast
qed

lemma enumerate_sound:
  "enumerate_left_deep g joined rows width cost start steps best = Some plan \<Longrightarrow>
     best = Some plan \<or> continues g joined rows width cost start steps plan"
proof (induction g joined rows width cost start steps best arbitrary: plan rule: enumerate_left_deep.induct)
  case (1 g joined rows width cost start steps best)
  let ?P = "\<lambda>b. \<forall>plan. b = Some plan \<longrightarrow> best = Some plan \<or> continues g joined rows width cost start steps plan"
  have "?P (enumerate_left_deep g joined rows width cost start steps best)"
  proof (cases "list_all (\<lambda>b. b) joined")
    case True
    then show ?thesis
      by (subst enumerate_left_deep.simps) (auto simp: continues_def)
  next
    case False
    show ?thesis
    proof (cases "better cost best")
      case True
      have step: "?P (enumerate_left_deep g (joined[table_index step := True]) (max (step_rows step) 1)
          (u128_add width (table_width g (table_index step))) (u128_add cost (step_cost step)) start (steps @ [step]) b)"
        if "step \<in> set (next_steps g joined rows width)" "table_index step < length joined" "\<not> joined ! table_index step" "?P b"
        for step b
        using "1.IH" [OF False _ that(1)] True that continues_step [OF that(1)] by blast
      show ?thesis
        using False True
        by (subst enumerate_left_deep.simps) (simp, intro fold_keeps [where P = ?P], use step in auto)
    qed (use False in \<open>subst enumerate_left_deep.simps, simp\<close>)
  qed
  then show ?case using "1.prems" by blast
qed

text \<open>No order costs less than the plan the search returns.\<close>

lemma enumerate_complete:
  "order_cost g joined rows width cost ts = Some c \<Longrightarrow> length joined = table_count g \<Longrightarrow> cost \<le> u128_max \<Longrightarrow>
     at_most (enumerate_left_deep g joined rows width cost start steps best) c"
proof (induction g joined rows width cost start steps best arbitrary: ts rule: enumerate_left_deep.induct)
  case (1 g joined rows width cost start steps best)
  have ge: "cost \<le> c" by (rule order_cost_ge [OF "1.prems"(1,3)])
  consider "list_all (\<lambda>b. b) joined" | "\<not> list_all (\<lambda>b. b) joined" "\<not> better cost best"
    | "\<not> list_all (\<lambda>b. b) joined" "better cost best" by blast
  then show ?case
  proof cases
    case 1
    then have "at_most (enumerate_left_deep g joined rows width cost start steps best) cost"
      by (subst enumerate_left_deep.simps) (simp add: not_better, simp add: at_most_def)
    then show ?thesis by (rule at_most_mono [OF _ ge])
  next
    case 2
    then show ?thesis
      by (subst enumerate_left_deep.simps) (simp add: not_better at_most_mono [OF _ ge])
  next
    case 3
    obtain t ts' where ts: "ts = t # ts'" using 3(1) "1.prems"(1) by (cases ts) auto
    then obtain step where step: "choose_next_join g joined rows width [t] = Some step" "t < table_count g"
      and rest: "order_cost g (joined[t := True]) (max (step_rows step) 1) (u128_add width (table_width g t))
         (u128_add cost (step_cost step)) ts' = Some c"
      using "1.prems"(1) by (auto split: if_splits option.splits)
    note flags = next_step_flags [OF step(1) "1.prems"(2) step(2)]
    have t: "t = table_index step" using flags by simp
    have mem: "step \<in> set (next_steps g joined rows width)" using step flags by (simp add: in_next_steps)
    have "at_most (enumerate_left_deep g (joined[t := True]) (max (step_rows step) 1) (u128_add width (table_width g t))
        (u128_add cost (step_cost step)) start (steps @ [step]) b) c" for b
      unfolding t using flags rest [unfolded t] "1.prems"(2) 3
      by (intro "1.IH" [OF 3(1) _ mem, where ts = ts']) (simp_all add: u128_sat_def)
    then show ?thesis
      using 3 flags
      by (subst enumerate_left_deep.simps)
        (simp, intro fold_reaches [OF mem, where Q = "\<lambda>b. at_most b c"], auto intro: enumerate_at_most)
  qed
qed

lemma exhaustive_steps:
  assumes "start < table_count g"
  shows "length (start_flags g start) = table_count g" "start_cost g start \<le> u128_max"
  using u128_sat_bound by (simp_all only: start_flags_def start_cost_def length_list_update length_replicate)

lemma left_deep_search_correct:
  assumes "0 < table_count g" "table_count g \<le> 12"
  shows "case choose_exhaustive_left_deep_plan g of
      None \<Rightarrow> \<forall>start ts. left_deep_cost g start ts = None
    | Some plan \<Rightarrow> left_deep_cost g (plan_start plan) (map table_index (plan_steps plan)) = Some (plan_cost plan) \<and>
        (\<forall>start ts c. left_deep_cost g start ts = Some c \<longrightarrow> plan_cost plan \<le> c)"
proof -
  let ?f = "\<lambda>start best. enumerate_left_deep g (start_flags g start) (start_rows g start) (start_width g start)
    (start_cost g start) start [] best"
  have search: "choose_exhaustive_left_deep_plan g = fold ?f [0..<table_count g] None"
    using assms by (simp add: choose_exhaustive_left_deep_plan_def)
  have best: "at_most (choose_exhaustive_left_deep_plan g) c" if "left_deep_cost g start ts = Some c" for start ts c
  proof -
    have start: "start < table_count g"
      and cost: "order_cost g (start_flags g start) (start_rows g start) (start_width g start) (start_cost g start) ts = Some c"
      using that by (auto simp: left_deep_cost_def split: if_splits)
    show ?thesis
      unfolding search
      by (rule fold_reaches [of start])
        (use start in \<open>auto intro: enumerate_complete [OF cost exhaustive_steps(1) exhaustive_steps(2)] enumerate_at_most\<close>)
  qed
  have "\<forall>plan. fold ?f [0..<table_count g] None = Some plan \<longrightarrow>
      left_deep_cost g (plan_start plan) (map table_index (plan_steps plan)) = Some (plan_cost plan)"
  proof (rule fold_keeps)
    fix start and b :: "join_plan option"
    assume start: "start \<in> set [0..<table_count g]"
      and b: "\<forall>plan. b = Some plan \<longrightarrow> left_deep_cost g (plan_start plan) (map table_index (plan_steps plan)) = Some (plan_cost plan)"
    show "\<forall>plan. ?f start b = Some plan \<longrightarrow>
        left_deep_cost g (plan_start plan) (map table_index (plan_steps plan)) = Some (plan_cost plan)"
    proof (intro allI impI)
      fix plan assume "?f start b = Some plan"
      from enumerate_sound [OF this] b start
      show "left_deep_cost g (plan_start plan) (map table_index (plan_steps plan)) = Some (plan_cost plan)"
        by (auto simp: continues_def left_deep_cost_def split: if_splits)
    qed
  qed simp
  then show ?thesis
    using best by (fastforce simp: search [symmetric] at_most_def split: option.splits)
qed

text \<open>
  C9: the exhaustive search finds a cheapest left-deep order.  For up to twelve tables it returns a plan exactly
  when some start and order of the tables follows the join edges, the plan is such an order with its estimated
  cost, and no other start and order costs less, although the search gives up partial orders that are already
  as dear as the best plan, and costs saturate at the largest \<open>u128\<close>.
\<close>

theorem exhaustive_left_deep_optimal:
  assumes "0 < table_count g" "table_count g \<le> 12"
  shows "case choose_exhaustive_left_deep_plan g of
      None \<Rightarrow> \<forall>start ts. left_deep_cost g start ts = None
    | Some plan \<Rightarrow> left_deep_cost g (plan_start plan) (map table_index (plan_steps plan)) = Some (plan_cost plan) \<and>
        (\<forall>start ts c. left_deep_cost g start ts = Some c \<longrightarrow> plan_cost plan \<le> c)"
  using left_deep_search_correct [OF assms] .

text \<open>Orders, customers and regions: a chain of three tables.\<close>

definition demo_table :: "nat \<Rightarrow> nat \<Rightarrow> (string \<times> nat) list \<Rightarrow> join_table_stats" where
  "demo_table rows width ndv = \<lparr>base_rows = rows, table_rows = rows, row_width = width, key_ndv = map_of ndv\<rparr>"

definition demo_graph :: join_graph where
  "demo_graph = \<lparr>graph_tables = [demo_table 1000000 64 [(''customer_id'', 100000)],
       demo_table 100000 32 [(''id'', 100000), (''region_id'', 5)], demo_table 5 16 [(''id'', 5)]],
     graph_edges = [\<lparr>edge_left = 0, edge_left_key = ''customer_id'', edge_right = 1, edge_right_key = ''id''\<rparr>,
       \<lparr>edge_left = 1, edge_left_key = ''region_id'', edge_right = 2, edge_right_key = ''id''\<rparr>]\<rparr>"

lemma demo_graph_count: "table_count demo_graph = 3"
  by (simp add: table_count_def demo_graph_def)

theorem exhaustive_left_deep_optimal_witness:
  "case choose_exhaustive_left_deep_plan demo_graph of
      None \<Rightarrow> \<forall>start ts. left_deep_cost demo_graph start ts = None
    | Some plan \<Rightarrow> left_deep_cost demo_graph (plan_start plan) (map table_index (plan_steps plan)) = Some (plan_cost plan) \<and>
        (\<forall>start ts c. left_deep_cost demo_graph start ts = Some c \<longrightarrow> plan_cost plan \<le> c)"
  by (rule exhaustive_left_deep_optimal) (simp_all add: demo_graph_count)

subsection \<open>The greedy order is an order\<close>

lemma min_by_key_in: "min_by_key key xs = Some x \<Longrightarrow> x \<in> set xs"
proof (cases xs)
  case (Cons y ys)
  have "fold (\<lambda>x best. if key x < key best then x else best) ys y \<in> insert y (set ys)"
    by (rule fold_keeps [where P = "\<lambda>b. b \<in> insert y (set ys)"]) auto
  then show "min_by_key key xs = Some x \<Longrightarrow> x \<in> set xs" by (auto simp: min_by_key_def Cons)
qed (simp add: min_by_key_def)

lemma min_by_key_None [simp]: "min_by_key key xs = None \<longleftrightarrow> xs = []"
  by (simp add: min_by_key_def split: list.splits)

lemma choose_next_join_in:
  assumes "choose_next_join g joined rows width [0..<table_count g] = Some step"
  shows "table_index step < table_count g" "choose_next_join g joined rows width [table_index step] = Some step"
proof -
  have "step \<in> set (List.map_filter (join_step_for g joined rows width)
      (filter (\<lambda>i. \<not> is_joined joined i) [0..<table_count g]))"
    using min_by_key_in [OF assms [unfolded choose_next_join_def]] .
  then obtain i where "i < table_count g" "\<not> is_joined joined i" "join_step_for g joined rows width i = Some step" by auto
  then show "table_index step < table_count g" "choose_next_join g joined rows width [table_index step] = Some step"
    using join_step_for_index by (auto simp: choose_next_join_single)
qed

definition joined_tables :: "bool list \<Rightarrow> nat set" where
  "joined_tables joined = {i. i < length joined \<and> joined ! i}"

lemma finite_joined_tables [simp]: "finite (joined_tables joined)"
  by (simp add: joined_tables_def)

lemma joined_tables_update:
  "i < length joined \<Longrightarrow> joined_tables (joined[i := True]) = insert i (joined_tables joined)"
  by (auto simp: joined_tables_def nth_list_update)

lemma all_joined_iff: "list_all (\<lambda>b. b) joined \<longleftrightarrow> joined_tables joined = {..<length joined}"
  by (auto simp: joined_tables_def list_all_length)

lemma all_joined_card: "list_all (\<lambda>b. b) joined \<longleftrightarrow> card (joined_tables joined) = length joined"
proof
  assume "card (joined_tables joined) = length joined"
  then have "joined_tables joined = {..<length joined}"
    by (intro card_subset_eq) (auto simp: joined_tables_def)
  then show "list_all (\<lambda>b. b) joined" by (simp add: all_joined_iff)
qed (simp add: all_joined_iff)

lemma step_joins:
  assumes "choose_next_join g joined rows width [0..<table_count g] = Some step" "length joined = table_count g"
  shows "card (joined_tables (joined[table_index step := True])) = card (joined_tables joined) + 1"
proof -
  have "table_index step < length joined \<and> \<not> joined ! table_index step"
    using next_step_flags [OF choose_next_join_in(2) [OF assms(1)] assms(2) choose_next_join_in(1) [OF assms(1)]] by simp
  then show ?thesis by (simp add: joined_tables_update) (simp add: joined_tables_def)
qed

lemma greedy_loop_order:
  "greedy_loop g joined k rows width cost steps = Some (steps', c) \<Longrightarrow> length joined = table_count g \<Longrightarrow>
     k = card (joined_tables joined) \<Longrightarrow>
     \<exists>rest. steps' = steps @ rest \<and> order_cost g joined rows width cost (map table_index rest) = Some c"
proof (induction g joined k rows width cost steps rule: greedy_loop.induct)
  case (1 g joined k rows width cost steps)
  show ?case
  proof (cases "k < table_count g")
    case False
    moreover have "card (joined_tables joined) \<le> length joined"
      using card_mono [of "{..<length joined}" "joined_tables joined"] by (auto simp: joined_tables_def)
    ultimately have "list_all (\<lambda>b. b) joined" using "1.prems" by (simp add: all_joined_card)
    then show ?thesis using False "1.prems"(1) by (intro exI [of _ "[]"]) (simp add: greedy_loop.simps)
  next
    case True
    then obtain step where step: "choose_next_join g joined rows width [0..<table_count g] = Some step"
      using "1.prems"(1) by (subst (asm) greedy_loop.simps) (auto split: option.splits)
    obtain rest where "steps' = (steps @ [step]) @ rest"
      "order_cost g (joined[table_index step := True]) (max (step_rows step) 1)
         (u128_add width (table_width g (table_index step))) (u128_add cost (step_cost step)) (map table_index rest) = Some c"
      using "1.IH" [OF True step] "1.prems" True step_joins [OF step "1.prems"(2)]
      by (auto simp: greedy_loop.simps [of g joined] step)
    then show ?thesis
      using choose_next_join_in [OF step] by (intro exI [of _ "step # rest"]) simp
  qed
qed

lemma start_flags_joined:
  assumes "start < table_count g"
  shows "joined_tables (start_flags g start) = {start}"
  using assms by (auto simp: joined_tables_def start_flags_def nth_list_update split: if_splits)

lemma greedy_plan_order:
  assumes "choose_greedy_plan g = Some plan"
  shows "left_deep_cost g (plan_start plan) (map table_index (plan_steps plan)) = Some (plan_cost plan)"
proof -
  obtain start where "estimate_greedy_plan g start = Some plan" "start < table_count g"
    using min_by_key_in [OF assms [unfolded choose_greedy_plan_def]] by auto
  then obtain steps c where loop: "greedy_loop g (start_flags g start) 1 (start_rows g start) (start_width g start)
      (start_cost g start) [] = Some (steps, c)"
    and plan: "plan_start plan = start" "plan_steps plan = steps" "plan_cost plan = c"
    by (auto simp: estimate_greedy_plan_def)
  show ?thesis
    using greedy_loop_order [OF loop exhaustive_steps(1)] \<open>start < table_count g\<close> plan
    by (simp add: start_flags_joined left_deep_cost_def)
qed

text \<open>An order names every other table once.\<close>

lemma order_cost_tables:
  "order_cost g joined rows width cost ts = Some c \<Longrightarrow> length joined = table_count g \<Longrightarrow>
     distinct ts \<and> set ts = {..<table_count g} - joined_tables joined"
proof (induction g joined rows width cost ts rule: order_cost.induct)
  case (2 g joined rows width cost t ts)
  then obtain step where step: "choose_next_join g joined rows width [t] = Some step" "t < table_count g"
    by (auto split: if_splits option.splits)
  note flags = next_step_flags [OF step(1) "2.prems"(2) step(2)]
  have "distinct ts \<and> set ts = {..<table_count g} - joined_tables (joined[t := True])"
    using "2.IH" [OF step(2,1)] "2.prems" step by simp
  moreover have "t \<notin> joined_tables joined" using flags by (simp add: joined_tables_def)
  ultimately show ?case using flags step(2) by (auto simp: joined_tables_update)
qed (auto simp: all_joined_iff split: if_splits)

subsection \<open>A connected graph has an order\<close>

definition connected_graph :: "join_graph \<Rightarrow> bool" where
  "connected_graph g \<longleftrightarrow>
     (\<forall>S. S \<subseteq> {..<table_count g} \<longrightarrow> S \<noteq> {} \<longrightarrow> S \<noteq> {..<table_count g} \<longrightarrow>
        (\<exists>e \<in> set (graph_edges g). edge_left e < table_count g \<and> edge_right e < table_count g \<and>
           (edge_left e \<in> S) \<noteq> (edge_right e \<in> S)))"

lemma connected_step:
  assumes "connected_graph g" "length joined = table_count g" "joined_tables joined \<noteq> {}"
    "joined_tables joined \<noteq> {..<table_count g}"
  shows "choose_next_join g joined rows width [0..<table_count g] \<noteq> None"
proof -
  have "joined_tables joined \<subseteq> {..<table_count g}" using assms(2) by (auto simp: joined_tables_def)
  then obtain e where e: "e \<in> set (graph_edges g)" "edge_left e < table_count g" "edge_right e < table_count g"
    "(edge_left e \<in> joined_tables joined) \<noteq> (edge_right e \<in> joined_tables joined)"
    using assms(1,3,4) unfolding connected_graph_def by meson
  have j: "i \<in> joined_tables joined \<longleftrightarrow> is_joined joined i" for i by (simp add: joined_tables_def is_joined_def)
  obtain i where i: "i < table_count g" "\<not> is_joined joined i" "e \<in> set (connected_edges g joined i)"
  proof (cases "is_joined joined (edge_left e)")
    case True
    then show ?thesis using that [of "edge_right e"] e j by (simp add: connected_edges_def)
  next
    case False
    then show ?thesis using that [of "edge_left e"] e j by (simp add: connected_edges_def)
  qed
  then have "join_step_for g joined rows width i \<noteq> None" by (auto simp: join_step_for_def Let_def)
  then show ?thesis
    using i(1,2) by (auto simp: choose_next_join_def List.map_filter_def filter_empty_conv)
qed

lemma connected_greedy_loop:
  "connected_graph g \<Longrightarrow> length joined = table_count g \<Longrightarrow> k = card (joined_tables joined) \<Longrightarrow> 0 < k \<Longrightarrow>
     greedy_loop g joined k rows width cost steps \<noteq> None"
proof (induction g joined k rows width cost steps rule: greedy_loop.induct)
  case (1 g joined k rows width cost steps)
  show ?case
  proof (cases "k < table_count g")
    case True
    have "joined_tables joined \<noteq> {..<table_count g}"
    proof
      assume "joined_tables joined = {..<table_count g}"
      then show False using "1.prems"(3) True by simp
    qed
    moreover have "joined_tables joined \<noteq> {}" using "1.prems"(3,4) by (metis card.empty less_irrefl)
    ultimately obtain step where step: "choose_next_join g joined rows width [0..<table_count g] = Some step"
      using connected_step [OF "1.prems"(1,2)] by blast
    show ?thesis
      using "1.IH" [OF True step] "1.prems" True step_joins [OF step "1.prems"(2)]
      by (simp add: greedy_loop.simps [of g joined] step)
  qed (simp add: greedy_loop.simps)
qed

lemma connected_greedy_plan:
  assumes "connected_graph g" "0 < table_count g"
  shows "choose_greedy_plan g \<noteq> None"
proof -
  have "estimate_greedy_plan g 0 \<noteq> None"
    using connected_greedy_loop [OF assms(1) exhaustive_steps(1) [OF assms(2)]] assms(2)
    by (simp add: estimate_greedy_plan_def start_flags_joined)
  then have "List.map_filter (estimate_greedy_plan g) [0..<table_count g] \<noteq> []"
    using assms(2) by (auto simp: List.map_filter_def filter_empty_conv)
  then show ?thesis by (simp add: choose_greedy_plan_def)
qed

text \<open>
  C36: the planner orders every connected join graph.  The chosen plan starts at one table and joins each other
  table exactly once, along the edges and with the cost it claims; it never costs more than the greedy plan, and
  for up to six tables no left-deep order costs less.
\<close>

theorem best_plan_orders_connected_graph:
  assumes "connected_graph g" "0 < table_count g"
  shows "\<exists>plan greedy. choose_best_plan g = Some plan \<and> choose_greedy_plan g = Some greedy \<and>
    left_deep_cost g (plan_start plan) (map table_index (plan_steps plan)) = Some (plan_cost plan) \<and>
    mset (plan_start plan # map table_index (plan_steps plan)) = mset [0..<table_count g] \<and>
    plan_cost plan \<le> plan_cost greedy \<and>
    (table_count g \<le> 6 \<longrightarrow> (\<forall>start ts c. left_deep_cost g start ts = Some c \<longrightarrow> plan_cost plan \<le> c))"
proof -
  obtain greedy where greedy: "choose_greedy_plan g = Some greedy" using connected_greedy_plan [OF assms] by blast
  note order = greedy_plan_order [OF greedy]
  obtain plan where plan: "choose_best_plan g = Some plan"
    "left_deep_cost g (plan_start plan) (map table_index (plan_steps plan)) = Some (plan_cost plan)"
    "plan_cost plan \<le> plan_cost greedy"
    "table_count g \<le> 6 \<longrightarrow> (\<forall>start ts c. left_deep_cost g start ts = Some c \<longrightarrow> plan_cost plan \<le> c)"
  proof (cases "table_count g \<le> 6")
    case True
    then have "choose_exhaustive_left_deep_plan g \<noteq> None"
      using left_deep_search_correct [of g] assms(2) order by (auto split: option.splits)
    then obtain p where p: "choose_exhaustive_left_deep_plan g = Some p" by blast
    then show ?thesis
      using left_deep_search_correct [of g] assms(2) order True that [of p] by (simp add: choose_best_plan_def)
  next
    case False
    then show ?thesis using that [of greedy] greedy order by (simp add: choose_best_plan_def)
  qed
  have start: "plan_start plan < table_count g" using plan(2) by (simp add: left_deep_cost_def split: if_splits)
  have ts: "distinct (map table_index (plan_steps plan)) \<and>
      set (map table_index (plan_steps plan)) = {..<table_count g} - {plan_start plan}"
    using order_cost_tables [OF plan(2) [unfolded left_deep_cost_def if_P [OF start]] exhaustive_steps(1) [OF start]] start
    by (simp only: start_flags_joined)
  have "distinct (plan_start plan # map table_index (plan_steps plan))" using ts by (simp only: distinct.simps) blast
  moreover have "set (plan_start plan # map table_index (plan_steps plan)) = set [0..<table_count g]"
    using ts start by (simp only: list.set set_upt atLeast0LessThan) blast
  ultimately have "mset (plan_start plan # map table_index (plan_steps plan)) = mset [0..<table_count g]"
    using set_eq_iff_mset_eq_distinct distinct_upt by blast
  then show ?thesis by (intro exI [of _ plan] exI [of _ greedy] conjI plan greedy)
qed

lemma demo_graph_connected: "connected_graph demo_graph"
  unfolding connected_graph_def demo_graph_count
proof (intro allI impI)
  fix S :: "nat set" assume S: "S \<subseteq> {..<3}" "S \<noteq> {}" "S \<noteq> {..<3}"
  have "(0 \<in> S) \<noteq> (1 \<in> S) \<or> (1 \<in> S) \<noteq> (2 \<in> S)"
  proof (rule ccontr)
    assume "\<not> ((0 \<in> S) \<noteq> (1 \<in> S) \<or> (1 \<in> S) \<noteq> (2 \<in> S))"
    moreover have "{..<3} = {0, 1, 2 :: nat}" by auto
    ultimately show False using S by auto
  qed
  then show "\<exists>e \<in> set (graph_edges demo_graph). edge_left e < 3 \<and> edge_right e < 3 \<and>
      (edge_left e \<in> S) \<noteq> (edge_right e \<in> S)"
    by (auto simp: demo_graph_def)
qed

theorem best_plan_orders_connected_graph_witness:
  "\<exists>plan greedy. choose_best_plan demo_graph = Some plan \<and> choose_greedy_plan demo_graph = Some greedy \<and>
    left_deep_cost demo_graph (plan_start plan) (map table_index (plan_steps plan)) = Some (plan_cost plan) \<and>
    mset (plan_start plan # map table_index (plan_steps plan)) = mset [0..<table_count demo_graph] \<and>
    plan_cost plan \<le> plan_cost greedy \<and>
    (table_count demo_graph \<le> 6 \<longrightarrow>
       (\<forall>start ts c. left_deep_cost demo_graph start ts = Some c \<longrightarrow> plan_cost plan \<le> c))"
  by (rule best_plan_orders_connected_graph) (simp_all add: demo_graph_connected demo_graph_count)

end
