(* ===== verification/Join_Bushy.thy ===== *)
theory Join_Bushy
  imports Join_Order
begin

text \<open>
  Bushy join trees: the dynamic program over subsets of \<open>LogicalJoinGraph::choose_exhaustive_bushy_plan\<close>.  A
  subset of the tables is a bit mask; the masks are visited in ascending order, and for each one all its splits
  into two smaller masks by the loop \<open>left_mask = (left_mask - 1) & mask\<close>.  With at most ten tables no shift of
  the code leaves the word, so masks are natural numbers.
\<close>

subsection \<open>Trees and states\<close>

datatype join_tree =
    TreeLeaf nat nat nat nat
  | TreeJoin join_tree join_tree nat nat nat

fun estimated_rows :: "join_tree \<Rightarrow> nat" where
  "estimated_rows (TreeLeaf _ rows _ _) = rows"
| "estimated_rows (TreeJoin _ _ rows _ _) = rows"

fun estimated_width :: "join_tree \<Rightarrow> nat" where
  "estimated_width (TreeLeaf _ _ width _) = width"
| "estimated_width (TreeJoin _ _ _ width _) = width"

fun estimated_cost :: "join_tree \<Rightarrow> nat" where
  "estimated_cost (TreeLeaf _ _ _ cost) = cost"
| "estimated_cost (TreeJoin _ _ _ _ cost) = cost"

primrec tree_table_count :: "join_tree \<Rightarrow> nat" where
  "tree_table_count (TreeLeaf _ _ _ _) = 1"
| "tree_table_count (TreeJoin left right _ _ _) = tree_table_count left + tree_table_count right"

primrec collect_tables :: "join_tree \<Rightarrow> nat list \<Rightarrow> nat list" where
  "collect_tables (TreeLeaf i _ _ _) out = out @ [i]"
| "collect_tables (TreeJoin left right _ _ _) out = collect_tables right (collect_tables left out)"

record bushy_state =
  bushy_rows :: nat
  bushy_width :: nat
  bushy_cost :: nat
  bushy_plan :: join_tree

subsection \<open>The dynamic program\<close>

definition crossing_edges :: "join_graph \<Rightarrow> nat \<Rightarrow> nat \<Rightarrow> join_edge list" where
  "crossing_edges g left_mask right_mask =
     filter (\<lambda>e.
       let left_has_left = left_mask AND push_bit (edge_left e) 1 \<noteq> 0;
           left_has_right = left_mask AND push_bit (edge_right e) 1 \<noteq> 0;
           right_has_left = right_mask AND push_bit (edge_left e) 1 \<noteq> 0;
           right_has_right = right_mask AND push_bit (edge_right e) 1 \<noteq> 0
       in (left_has_left \<and> right_has_right) \<or> (left_has_right \<and> right_has_left)) (graph_edges g)"

definition estimate_bushy_join ::
    "join_graph \<Rightarrow> nat \<Rightarrow> bushy_state \<Rightarrow> nat \<Rightarrow> bushy_state \<Rightarrow> bushy_state option" where
  "estimate_bushy_join g left_mask left right_mask right =
     (let edges = crossing_edges g left_mask right_mask
      in if edges = [] then None
         else let rows = u128_mul (bushy_rows left) (bushy_rows right) div edges_denominator g edges;
                  width = u128_add (bushy_width left) (bushy_width right);
                  build_cost = min (u128_mul (bushy_rows left) (bushy_width left)) (u128_mul (bushy_rows right) (bushy_width right));
                  cost = u128_add (u128_add (u128_add (bushy_cost left) (bushy_cost right)) (u128_mul rows width)) build_cost
              in Some \<lparr>bushy_rows = max rows 1, bushy_width = width, bushy_cost = cost,
                   bushy_plan = TreeJoin (bushy_plan left) (bushy_plan right) (max rows 1) width cost\<rparr>)"

definition leaf_state :: "join_graph \<Rightarrow> nat \<Rightarrow> bushy_state" where
  "leaf_state g i =
     (let rows = start_rows g i; width = start_width g i
      in \<lparr>bushy_rows = rows, bushy_width = width, bushy_cost = u128_mul rows width,
          bushy_plan = TreeLeaf i rows width (u128_mul rows width)\<rparr>)"

text \<open>One round of the inner loop.\<close>

definition try_split ::
    "join_graph \<Rightarrow> bushy_state option list \<Rightarrow> nat \<Rightarrow> nat \<Rightarrow> bushy_state option \<Rightarrow> bushy_state option" where
  "try_split g states tmask left_mask best =
     (let right_mask = tmask XOR left_mask
      in if right_mask \<noteq> 0 \<and> left_mask < right_mask
         then case (states ! left_mask, states ! right_mask) of
                (Some left, Some right) \<Rightarrow>
                  (case estimate_bushy_join g left_mask left right_mask right of
                     Some joined \<Rightarrow>
                       if (case best of None \<Rightarrow> True | Some candidate \<Rightarrow> bushy_cost joined < bushy_cost candidate)
                       then Some joined else best
                   | None \<Rightarrow> best)
              | _ \<Rightarrow> best
         else best)"

lemma and_le_left: "(a :: nat) AND b \<le> a"
proof (induction a arbitrary: b rule: less_induct)
  case (less a)
  show ?case
  proof (cases "a = 0")
    case False
    have "a AND b = of_bool (odd a \<and> odd b) + 2 * ((a div 2) AND (b div 2))" by (rule and_rec)
    moreover have "(a div 2) AND (b div 2) \<le> a div 2" using less False by simp
    moreover have "of_bool (odd a \<and> odd b) \<le> a mod 2" by (simp add: mod_2_eq_odd)
    ultimately show ?thesis using div_mult_mod_eq [of a 2] by linarith
  qed simp
qed

function split_loop ::
    "join_graph \<Rightarrow> bushy_state option list \<Rightarrow> nat \<Rightarrow> nat \<Rightarrow> bushy_state option \<Rightarrow> bushy_state option" where
  "split_loop g states tmask left_mask best =
     (if left_mask > 0
      then split_loop g states tmask ((left_mask - 1) AND tmask) (try_split g states tmask left_mask best)
      else best)"
  by pat_completeness auto

termination split_loop
proof (relation "measure (\<lambda>(g, states, tmask, left_mask, best). left_mask)", goal_cases)
  case (2 g states tmask left_mask best)
  then show ?case using and_le_left [of "left_mask - 1" tmask] by simp
qed simp

declare split_loop.simps [simp del]

definition mask_count_ones :: "nat \<Rightarrow> nat \<Rightarrow> nat" where
  "mask_count_ones bits tmask = length (filter (bit tmask) [0..<bits])"

definition fill_state :: "join_graph \<Rightarrow> nat \<Rightarrow> bushy_state option list \<Rightarrow> bushy_state option list" where
  "fill_state g tmask states =
     (if mask_count_ones (table_count g) tmask \<le> 1 then states
      else states[tmask := split_loop g states tmask ((tmask - 1) AND tmask) None])"

definition leaf_states :: "join_graph \<Rightarrow> bushy_state option list" where
  "leaf_states g =
     fold (\<lambda>i states. states[push_bit i 1 := Some (leaf_state g i)]) [0..<table_count g]
       (replicate (push_bit (table_count g) 1) None)"

definition choose_exhaustive_bushy_plan :: "join_graph \<Rightarrow> join_tree option" where
  "choose_exhaustive_bushy_plan g =
     (if table_count g = 0 \<or> table_count g > 10 then None
      else let subset_count = push_bit (table_count g) 1;
               states = fold (fill_state g) [1..<subset_count] (leaf_states g)
           in map_option bushy_plan (states ! (subset_count - 1)))"

definition choose_exhaustive_bushy_plan_cost :: "join_graph \<Rightarrow> nat option" where
  "choose_exhaustive_bushy_plan_cost g = map_option estimated_cost (choose_exhaustive_bushy_plan g)"

subsection \<open>Which plan is run\<close>

text \<open>\<open>comma_join.rs\<close>: the flag \<open>forced\<close> is an environment variable.\<close>

definition choose_bushy_multi_input_join_execution_tree ::
    "bool \<Rightarrow> join_graph \<Rightarrow> join_plan option \<Rightarrow> join_tree option" where
  "choose_bushy_multi_input_join_execution_tree forced g left_deep_plan =
     (case choose_exhaustive_bushy_plan g of
        None \<Rightarrow> None
      | Some tree \<Rightarrow>
          if tree_table_count tree \<le> 2 then None
          else if forced then Some tree
          else case left_deep_plan of
                 None \<Rightarrow> None
               | Some plan \<Rightarrow> if u128_mul (estimated_cost tree) 100 < u128_mul (plan_cost plan) 95 then Some tree else None)"

record fusion_cost_input =
  fact_index :: nat
  dimension_count :: nat
  dimension_table_indices :: "nat list"
  small_group_cardinality_cap :: nat

text \<open>The loop over the dimensions; \<open>None\<close> is a missing table, whose cost is the largest \<open>u128\<close>.  The cap is at least one.\<close>

fun dimension_costs :: "join_graph \<Rightarrow> nat \<Rightarrow> nat list \<Rightarrow> nat \<Rightarrow> nat \<Rightarrow> (nat \<times> nat) option" where
  "dimension_costs g cap [] lookup_cost group_state_cost = Some (lookup_cost, group_state_cost)"
| "dimension_costs g cap (i # is) lookup_cost group_state_cost =
     (if i < table_count g
      then let t = graph_tables g ! i
           in dimension_costs g cap is
                (u128_add lookup_cost (u128_mul (max (table_rows t) 1) (max (row_width t) 1)))
                (u128_mul group_state_cost (clamp_nat 1 cap (table_rows t)))
      else None)"

definition estimate_join_aggregate_lookup_fusion_cost :: "join_graph \<Rightarrow> fusion_cost_input \<Rightarrow> nat" where
  "estimate_join_aggregate_lookup_fusion_cost g inp =
     (if fact_index inp < table_count g
      then case dimension_costs g (small_group_cardinality_cap inp)
                  (take (dimension_count inp) (dimension_table_indices inp)) 0 1 of
             None \<Rightarrow> u128_max
           | Some (lookup_cost, group_state_cost) \<Rightarrow>
               (let fact_rows = max (table_rows (graph_tables g ! fact_index inp)) 1;
                    fact_key_width = u128_mul (u128_add (dimension_count inp) 1) 8;
                    fact_probe_cost = u128_add (u128_mul fact_rows fact_key_width)
                      (u128_mul (u128_mul fact_rows (dimension_count inp)) 8)
                in u128_add (u128_add lookup_cost fact_probe_cost) (u128_mul group_state_cost 32))
      else u128_max)"

text \<open>\<open>join_lookup_fusion.rs\<close>.\<close>

definition best_multi_input_join_graph_cost :: "join_graph \<Rightarrow> join_plan option \<Rightarrow> nat option" where
  "best_multi_input_join_graph_cost g left_deep_plan =
     (case (map_option plan_cost left_deep_plan, choose_exhaustive_bushy_plan_cost g) of
        (None, None) \<Rightarrow> None
      | (Some c, None) \<Rightarrow> Some c
      | (None, Some d) \<Rightarrow> Some d
      | (Some c, Some d) \<Rightarrow> Some (min c d))"

definition choose_join_aggregate_lookup_fusion :: "nat \<Rightarrow> bool \<Rightarrow> nat \<Rightarrow> join_graph \<Rightarrow> join_plan option \<Rightarrow> bool" where
  "choose_join_aggregate_lookup_fusion fusion_cost forced threshold_pct g left_deep_plan \<longleftrightarrow>
     forced \<or>
     (case best_multi_input_join_graph_cost g left_deep_plan of
        None \<Rightarrow> True
      | Some cost \<Rightarrow> u128_mul fusion_cost 100 \<le> u128_mul cost threshold_pct)"

subsection \<open>Masks and sets of tables\<close>

definition mask_tables :: "nat \<Rightarrow> nat set" where
  "mask_tables tmask = {i. bit tmask i}"

lemma mask_tables_simps [simp]:
  "mask_tables (a AND b) = mask_tables a \<inter> mask_tables b"
  "mask_tables (push_bit i 1) = {i}"
  "mask_tables (2 ^ i) = {i}"
  "mask_tables 0 = {}"
  by (auto simp: mask_tables_def bit_simps)

lemma mask_tables_xor: "mask_tables b \<subseteq> mask_tables a \<Longrightarrow> mask_tables (a XOR b) = mask_tables a - mask_tables b"
  by (auto simp: mask_tables_def bit_simps)

lemma mask_tables_inject [simp]: "mask_tables a = mask_tables b \<longleftrightarrow> a = b"
  by (auto simp: mask_tables_def set_eq_iff intro: bit_eqI)

lemma mask_tables_empty [simp]: "mask_tables a = {} \<longleftrightarrow> a = 0"
  using mask_tables_inject [of a 0] by simp

lemma submask_iff: "a AND b = a \<longleftrightarrow> mask_tables a \<subseteq> mask_tables b"
  using mask_tables_inject [of "a AND b" a] by (simp add: Int_absorb2 Int_absorb1) blast

lemma submask_le: "mask_tables a \<subseteq> mask_tables b \<Longrightarrow> a \<le> b"
  using and_le_left [of b a] by (metis and.commute submask_iff)

lemma has_table: "(tmask :: nat) AND push_bit i 1 \<noteq> 0 \<longleftrightarrow> i \<in> mask_tables tmask"
  by (simp add: mask_tables_empty [symmetric] del: mask_tables_empty)

lemma mask_tables_bound: "tmask < 2 ^ n \<Longrightarrow> mask_tables tmask \<subseteq> {..<n}"
proof -
  assume "tmask < 2 ^ n"
  then have "take_bit n tmask = tmask" by (simp add: take_bit_nat_eq_self)
  then show ?thesis unfolding mask_tables_def by (metis (mono_tags, lifting) bit_take_bit_iff lessThan_iff mem_Collect_eq subsetI)
qed

text \<open>The inner loop goes through all submasks in descending order.\<close>

lemma next_submask: "s AND m = s \<Longrightarrow> l AND m = l \<Longrightarrow> s < l \<Longrightarrow> s \<le> (l - 1) AND (m :: nat)"
proof (induction m arbitrary: s l rule: less_induct)
  case (less m)
  have rec: "a AND b = of_bool (odd a \<and> odd b) + 2 * ((a div 2) AND (b div 2))" for a b :: nat by (rule and_rec)
  have split: "a = of_bool (odd a) + 2 * (a div 2)" for a :: nat by (simp add: odd_two_times_div_two_succ)
  have half: "(a div 2) AND (m div 2) = a div 2" "odd a \<longrightarrow> odd m" if "a AND m = a" for a
  proof -
    have a: "a = of_bool (odd a \<and> odd m) + 2 * ((a div 2) AND (m div 2))" using that rec [of a m] by (rule trans [OF sym])
    have "(of_bool c + 2 * x) div 2 = x" "odd (of_bool c + 2 * x) \<longleftrightarrow> c" for c and x :: nat by simp_all
    then show "(a div 2) AND (m div 2) = a div 2" "odd a \<longrightarrow> odd m" using a by metis+
  qed
  have m: "m \<noteq> 0" using less.prems by (metis and_zero_eq less_irrefl)
  show ?case
  proof (cases "odd l")
    case True
    have "(l - 1) div 2 = l div 2" "even (l - 1)" using True by presburger+
    then have "(l - 1) AND m = 2 * (l div 2)"
      using half(1) [OF less.prems(2)] rec [of "l - 1" m] by simp
    moreover have "s \<le> 2 * (l div 2)" using less.prems(3) True split [of l] by simp
    ultimately show ?thesis by simp
  next
    case False
    have l: "l = 2 * (l div 2)" using False by simp
    have lt: "s div 2 < l div 2" using less.prems(3) l by linarith
    have "(l - 1) div 2 = l div 2 - 1" "odd (l - 1)" using l lt by presburger+
    then have "(l - 1) AND m = of_bool (odd m) + 2 * ((l div 2 - 1) AND (m div 2))" using rec [of "l - 1" m] by simp
    moreover have "s div 2 \<le> (l div 2 - 1) AND (m div 2)"
      using less.IH [of "m div 2" "s div 2" "l div 2"] half(1) [OF less.prems(1)] half(1) [OF less.prems(2)] lt m by simp
    moreover have "s mod 2 \<le> of_bool (odd m)" using half(2) [OF less.prems(1)] by (simp add: mod_2_eq_odd)
    ultimately show ?thesis using div_mult_mod_eq [of s 2] by linarith
  qed
qed

lemma split_loop_keeps:
  "(\<And>l b. l AND tmask = l \<Longrightarrow> 0 < l \<Longrightarrow> P b \<Longrightarrow> P (try_split g states tmask l b)) \<Longrightarrow> left_mask AND tmask = left_mask \<Longrightarrow> P best \<Longrightarrow>
     P (split_loop g states tmask left_mask best)"
proof (induction g states tmask left_mask best rule: split_loop.induct)
  case (1 g states tmask left_mask best)
  show ?case
  proof (cases "left_mask > 0")
    case True
    have "((left_mask - 1) AND tmask) AND tmask = (left_mask - 1) AND tmask" by (simp add: and.assoc)
    then show ?thesis
      using "1.IH" [OF True "1.prems"(1)] "1.prems" True by (subst split_loop.simps) simp
  qed (use "1.prems"(3) in \<open>simp add: split_loop.simps\<close>)
qed

lemma split_loop_reaches:
  assumes "0 < s" "s AND tmask = s" "\<And>b. try_split g states tmask s b \<noteq> None"
    "\<And>l b. b \<noteq> None \<Longrightarrow> try_split g states tmask l b \<noteq> None"
  shows "left_mask AND tmask = left_mask \<Longrightarrow> s \<le> left_mask \<Longrightarrow> split_loop g states tmask left_mask best \<noteq> None"
proof (induction left_mask arbitrary: best rule: less_induct)
  case (less l)
  let ?l = "(l - 1) AND tmask"
  have sub: "?l AND tmask = ?l" by (simp add: and.assoc)
  have pos: "0 < l" using assms(1) less.prems(2) by simp
  show ?case
  proof (cases "s = l")
    case True
    have "split_loop g states tmask ?l (try_split g states tmask s best) \<noteq> None"
      by (rule split_loop_keeps [OF _ sub]) (use assms(3,4) in auto)
    then show ?thesis using pos True by (subst split_loop.simps) simp
  next
    case False
    then have "s \<le> ?l" using next_submask [OF assms(2) less.prems(1)] less.prems(2) by simp
    moreover have "?l < l" using and_le_left [of "l - 1" tmask] pos by simp
    ultimately have "split_loop g states tmask ?l (try_split g states tmask l best) \<noteq> None"
      using less.IH sub by blast
    then show ?thesis using pos by (subst split_loop.simps) simp
  qed
qed

subsection \<open>Trees of a graph\<close>

abbreviation tree_tables :: "join_tree \<Rightarrow> nat list" where "tree_tables t \<equiv> collect_tables t []"

lemma collect_tables_append: "collect_tables t out = out @ tree_tables t"
proof (induction t arbitrary: out)
  case (TreeJoin l r rows width cost)
  show ?case unfolding collect_tables.simps by (subst TreeJoin, subst TreeJoin) (subst TreeJoin(2), simp)
qed simp

lemma tree_tables_join [simp]: "tree_tables (TreeJoin l r rows width cost) = tree_tables l @ tree_tables r"
  by (simp add: collect_tables_append [of r "tree_tables l"])

declare collect_tables.simps(2) [simp del]

lemma tree_table_count: "tree_table_count t = length (tree_tables t)"
  by (induction t) simp_all

text \<open>A tree follows the graph when every join has an edge between its sides, and its estimates are those of the joins.\<close>

definition edges_between :: "join_graph \<Rightarrow> nat set \<Rightarrow> nat set \<Rightarrow> join_edge list" where
  "edges_between g A B =
     filter (\<lambda>e. (edge_left e \<in> A \<and> edge_right e \<in> B) \<or> (edge_right e \<in> A \<and> edge_left e \<in> B)) (graph_edges g)"

lemma crossing_edges_between: "crossing_edges g l r = edges_between g (mask_tables l) (mask_tables r)"
  by (simp only: crossing_edges_def edges_between_def has_table Let_def)

fun tree_follows :: "join_graph \<Rightarrow> join_tree \<Rightarrow> bool" where
  "tree_follows g (TreeLeaf i rows width cost) \<longleftrightarrow>
     i < table_count g \<and> rows = start_rows g i \<and> width = start_width g i \<and> cost = start_cost g i"
| "tree_follows g (TreeJoin l r rows width cost) \<longleftrightarrow>
     tree_follows g l \<and> tree_follows g r \<and>
     (let edges = edges_between g (set (tree_tables l)) (set (tree_tables r));
          joined = u128_mul (estimated_rows l) (estimated_rows r) div edges_denominator g edges
      in edges \<noteq> [] \<and> rows = max joined 1 \<and> width = u128_add (estimated_width l) (estimated_width r) \<and>
         cost = u128_add (u128_add (u128_add (estimated_cost l) (estimated_cost r)) (u128_mul joined width))
           (min (u128_mul (estimated_rows l) (estimated_width l)) (u128_mul (estimated_rows r) (estimated_width r))))"

definition state_ok :: "join_graph \<Rightarrow> nat \<Rightarrow> bushy_state \<Rightarrow> bool" where
  "state_ok g tmask s \<longleftrightarrow>
     tree_follows g (bushy_plan s) \<and> distinct (tree_tables (bushy_plan s)) \<and>
     set (tree_tables (bushy_plan s)) = mask_tables tmask \<and> bushy_rows s = estimated_rows (bushy_plan s) \<and>
     bushy_width s = estimated_width (bushy_plan s) \<and> bushy_cost s = estimated_cost (bushy_plan s)"

definition states_ok :: "join_graph \<Rightarrow> bushy_state option list \<Rightarrow> bool" where
  "states_ok g states \<longleftrightarrow>
     length states = 2 ^ table_count g \<and> (\<forall>tmask < 2 ^ table_count g. \<forall>s. states ! tmask = Some s \<longrightarrow> state_ok g tmask s)"

lemma estimate_bushy_join_ok:
  assumes "estimate_bushy_join g l sl r sr = Some s" "state_ok g l sl" "state_ok g r sr"
    "mask_tables l \<inter> mask_tables r = {}" "mask_tables tmask = mask_tables l \<union> mask_tables r"
  shows "state_ok g tmask s"
  using assms
  by (auto simp: estimate_bushy_join_def Let_def state_ok_def crossing_edges_between split: if_splits)

lemma try_split_ok:
  assumes "states_ok g states" "tmask < 2 ^ table_count g" "l AND tmask = l"
    "\<forall>s. best = Some s \<longrightarrow> state_ok g tmask s"
  shows "\<forall>s. try_split g states tmask l best = Some s \<longrightarrow> state_ok g tmask s"
proof (cases "tmask XOR l \<noteq> 0 \<and> l < tmask XOR l")
  case True
  have sub: "mask_tables l \<subseteq> mask_tables tmask" using assms(3) by (simp add: submask_iff)
  then have r: "mask_tables (tmask XOR l) = mask_tables tmask - mask_tables l" by (rule mask_tables_xor)
  have le: "l < 2 ^ table_count g" "tmask XOR l < 2 ^ table_count g"
    using submask_le [OF sub] submask_le [of "tmask XOR l" tmask] r assms(2) by auto
  have "state_ok g tmask s"
    if "states ! l = Some sl" "states ! (tmask XOR l) = Some sr" "estimate_bushy_join g l sl (tmask XOR l) sr = Some s" for sl sr s
    by (rule estimate_bushy_join_ok [OF that(3)]) (use that assms(1) le r sub in \<open>auto simp: states_ok_def\<close>)
  then show ?thesis using assms(4) True by (auto simp: try_split_def Let_def split: option.splits)
next
  case False
  then show ?thesis using assms(4) by (auto simp: try_split_def Let_def)
qed

lemma fill_state_ok:
  assumes "states_ok g states" "tmask < 2 ^ table_count g"
  shows "states_ok g (fill_state g tmask states)"
proof -
  have "\<forall>s. split_loop g states tmask ((tmask - 1) AND tmask) None = Some s \<longrightarrow> state_ok g tmask s"
    by (rule split_loop_keeps) (use try_split_ok [OF assms] in \<open>auto simp: and.assoc\<close>)
  then show ?thesis using assms by (auto simp: fill_state_def states_ok_def nth_list_update)
qed

lemma leaf_state_ok: "i < table_count g \<Longrightarrow> state_ok g (2 ^ i) (leaf_state g i)"
  by (simp add: state_ok_def leaf_state_def Let_def start_cost_def)

lemma leaf_states_prefix:
  "k \<le> table_count g \<Longrightarrow>
     (let states = fold (\<lambda>i states. states[push_bit i 1 := Some (leaf_state g i)]) [0..<k] (replicate (2 ^ table_count g) None)
      in states_ok g states \<and> (\<forall>i < k. states ! (2 ^ i) \<noteq> None))"
proof (induction k)
  case 0
  then show ?case by (simp add: states_ok_def)
next
  case (Suc k)
  have lt: "2 ^ i < (2 :: nat) ^ table_count g" if "i < Suc k" for i
    using that Suc.prems by (intro power_strict_increasing) auto
  show ?case
    using Suc lt by (auto simp: Let_def states_ok_def nth_list_update leaf_state_ok less_Suc_eq)
qed

lemma leaf_states_ok: "states_ok g (leaf_states g)" "i < table_count g \<Longrightarrow> leaf_states g ! (2 ^ i) \<noteq> None"
  using leaf_states_prefix [of "table_count g" g] by (simp_all add: leaf_states_def Let_def push_bit_of_1)

lemma filled_ok: "k \<le> 2 ^ table_count g \<Longrightarrow> states_ok g (fold (fill_state g) [1..<k] (leaf_states g))"
  by (rule fold_keeps [where P = "states_ok g"]) (auto intro: fill_state_ok leaf_states_ok(1))

subsection \<open>Every connected graph has a tree\<close>

text \<open>The sets of tables that can be joined one table at a time.\<close>

inductive buildable :: "join_graph \<Rightarrow> nat set \<Rightarrow> bool" for g where
  single: "i < table_count g \<Longrightarrow> buildable g {i}"
| add: "buildable g S \<Longrightarrow> i < table_count g \<Longrightarrow> i \<notin> S \<Longrightarrow> edges_between g S {i} \<noteq> [] \<Longrightarrow> buildable g (insert i S)"

lemma buildable_nonempty: "buildable g S \<Longrightarrow> S \<noteq> {}"
  by (induction rule: buildable.induct) auto

lemma order_buildable:
  "order_cost g joined rows width cost ts = Some c \<Longrightarrow> length joined = table_count g \<Longrightarrow>
     buildable g (joined_tables joined) \<Longrightarrow> buildable g {..<table_count g}"
proof (induction g joined rows width cost ts rule: order_cost.induct)
  case (2 g joined rows width cost t ts)
  then obtain step where step: "choose_next_join g joined rows width [t] = Some step" "t < table_count g"
    by (auto split: if_splits option.splits)
  note flags = next_step_flags [OF step(1) "2.prems"(2) step(2)]
  have "connected_edges g joined t \<noteq> []"
    using step(1) by (auto simp: choose_next_join_single join_step_for_def Let_def split: if_splits)
  then have "edges_between g (joined_tables joined) {t} \<noteq> []"
    by (auto simp: connected_edges_def edges_between_def filter_empty_conv joined_tables_def is_joined_def)
  moreover have "t \<notin> joined_tables joined" using flags by (simp add: joined_tables_def)
  ultimately have "buildable g (joined_tables (joined[t := True]))"
    using "2.prems"(3) step(2) flags by (simp add: joined_tables_update buildable.add)
  then show ?case using "2.IH" [OF step(2,1)] "2.prems"(1,2) step by simp
qed (auto simp: all_joined_iff split: if_splits)

lemma edges_between_commute: "edges_between g A B = edges_between g B A"
  unfolding edges_between_def by (rule filter_cong) auto

lemma try_split_found:
  assumes "states ! l = Some sl" "states ! (tmask XOR l) = Some sr" "tmask XOR l \<noteq> 0" "l < tmask XOR l"
    "edges_between g (mask_tables l) (mask_tables (tmask XOR l)) \<noteq> []"
  shows "try_split g states tmask l best \<noteq> None"
  using assms by (auto simp: try_split_def Let_def estimate_bushy_join_def crossing_edges_between split: option.splits)

lemma try_split_stays: "best \<noteq> None \<Longrightarrow> try_split g states tmask l best \<noteq> None"
  by (auto simp: try_split_def Let_def split: option.splits)

text \<open>A mask with two parts that have states and an edge between them gets a state.\<close>

lemma split_found:
  assumes "mask_tables tmask = A \<union> B" "A \<inter> B = {}" "A = mask_tables a" "B = mask_tables b" "a \<noteq> 0" "b \<noteq> 0"
    "states ! a \<noteq> None" "states ! b \<noteq> None" "edges_between g A B \<noteq> []"
  shows "split_loop g states tmask ((tmask - 1) AND tmask) None \<noteq> None"
proof -
  have main: "split_loop g states tmask ((tmask - 1) AND tmask) None \<noteq> None"
    if ab: "a' < b'" "mask_tables tmask = mask_tables a' \<union> mask_tables b'" "mask_tables a' \<inter> mask_tables b' = {}"
      "a' \<noteq> 0" "states ! a' \<noteq> None" "states ! b' \<noteq> None"
      "edges_between g (mask_tables a') (mask_tables b') \<noteq> []" for a' b'
  proof -
    have x: "tmask XOR a' = b'"
    proof -
      have "mask_tables (tmask XOR a') = mask_tables b'" using ab(2,3) by (subst mask_tables_xor) auto
      then show ?thesis by simp
    qed
    have sub: "a' AND tmask = a'" using ab(2) by (simp add: submask_iff)
    have "b' \<le> tmask" using ab(2) by (intro submask_le) auto
    then have lt: "a' < tmask" using ab(1) by simp
    have "a' \<le> (tmask - 1) AND tmask" by (rule next_submask [OF sub _ lt]) simp
    moreover obtain sa sb where "states ! a' = Some sa" "states ! b' = Some sb" using ab(5,6) by blast
    moreover have "((tmask - 1) AND tmask) AND tmask = (tmask - 1) AND tmask" by (simp add: and.assoc)
    ultimately show ?thesis
      using ab(1,4,7) x
      by (intro split_loop_reaches [OF _ sub try_split_found try_split_stays]) auto
  qed
  have "a \<noteq> b" using assms(2-5) by auto
  then consider "a < b" | "b < a" by linarith
  then show ?thesis
  proof cases
    case 1
    show ?thesis by (rule main [OF 1]) (use assms in auto)
  next
    case 2
    show ?thesis by (rule main [OF 2]) (use assms edges_between_commute [of g A B] in auto)
  qed
qed

lemma mask_count_ones_card: "mask_count_ones n tmask = card {i. i < n \<and> bit tmask i}"
proof -
  have "set (filter (bit tmask) [0..<n]) = {i. i < n \<and> bit tmask i}" by auto
  then show ?thesis unfolding mask_count_ones_def by (metis distinct_card distinct_filter distinct_upt)
qed

lemma fill_state_found:
  assumes "tmask < 2 ^ table_count g" "length states = 2 ^ table_count g" "buildable g (mask_tables tmask)"
    "\<And>i. i < table_count g \<Longrightarrow> states ! (2 ^ i) \<noteq> None"
    "\<And>m. m < tmask \<Longrightarrow> buildable g (mask_tables m) \<Longrightarrow> states ! m \<noteq> None"
  shows "fill_state g tmask states ! tmask \<noteq> None"
  using assms(3)
proof cases
  case (single i)
  then have "tmask = 2 ^ i" using mask_tables_inject [of tmask "2 ^ i"] by simp
  moreover have "split_loop g states tmask ((tmask - 1) AND tmask) None \<noteq> None \<or> mask_count_ones (table_count g) tmask \<le> 1"
  proof -
    have "{j. j < table_count g \<and> bit tmask j} \<subseteq> {i}" using single by (auto simp: mask_tables_def)
    then show ?thesis using card_mono [of "{i}"] by (fastforce simp: mask_count_ones_card)
  qed
  ultimately show ?thesis using assms(1,2,4) single by (auto simp: fill_state_def)
next
  case (add S i)
  have i: "i \<in> mask_tables tmask" "S = mask_tables tmask - {i}" using add by auto
  define m where "m = tmask XOR 2 ^ i"
  have m: "mask_tables m = S" unfolding m_def using i by (subst mask_tables_xor) auto
  have "m \<noteq> tmask" using i(1,2) m by auto
  moreover have "m \<le> tmask" using m i(2) by (intro submask_le) auto
  ultimately have "m < tmask" by simp
  then have "states ! m \<noteq> None" using assms(5) add(2) m by blast
  moreover have "m \<noteq> 0" using buildable_nonempty [OF add(2)] m by auto
  moreover have "mask_tables tmask = S \<union> mask_tables (2 ^ i)" "S \<inter> mask_tables (2 ^ i) = {}" using add by auto
  ultimately have "split_loop g states tmask ((tmask - 1) AND tmask) None \<noteq> None"
    using add(5) assms(4) [OF add(3)]
    by (intro split_found [of tmask S "mask_tables (2 ^ i)" m "2 ^ i"]) (simp_all add: m)
  moreover have "mask_count_ones (table_count g) tmask > 1"
  proof -
    obtain j where j: "j \<in> S" using buildable_nonempty [OF add(2)] by blast
    then have "{i, j} \<subseteq> {k. k < table_count g \<and> bit tmask k}"
      using mask_tables_bound [OF assms(1)] add by (auto simp: mask_tables_def)
    moreover have "i \<noteq> j" using j add(4) by blast
    ultimately show ?thesis
      using card_mono [of "{k. k < table_count g \<and> bit tmask k}" "{i, j}"] by (simp add: mask_count_ones_card)
  qed
  ultimately show ?thesis using assms(1,2) by (simp add: fill_state_def)
qed

lemma fill_state_other: "m \<noteq> tmask \<Longrightarrow> fill_state g tmask states ! m = states ! m"
  by (simp add: fill_state_def)

lemma filled_found:
  assumes "k \<le> 2 ^ table_count g"
  shows "(\<forall>i < table_count g. fold (fill_state g) [1..<k] (leaf_states g) ! (2 ^ i) \<noteq> None) \<and>
    (\<forall>m < k. buildable g (mask_tables m) \<longrightarrow> fold (fill_state g) [1..<k] (leaf_states g) ! m \<noteq> None)"
  using assms
proof (induction k)
  case 0
  then show ?case by (simp add: leaf_states_ok)
next
  case (Suc k)
  show ?case
  proof (cases "k = 0")
    case True
    then show ?thesis using leaf_states_ok(2) buildable_nonempty [of g "mask_tables 0"] by auto
  next
    case False
    let ?states = "fold (fill_state g) [1..<k] (leaf_states g)"
    have IH: "\<And>i. i < table_count g \<Longrightarrow> ?states ! (2 ^ i) \<noteq> None"
      "\<And>m. m < k \<Longrightarrow> buildable g (mask_tables m) \<Longrightarrow> ?states ! m \<noteq> None"
      using Suc by auto
    have ok: "length ?states = 2 ^ table_count g" using filled_ok [of k g] Suc.prems by (simp add: states_ok_def)
    have step: "fold (fill_state g) [1..<Suc k] (leaf_states g) = fill_state g k ?states" using False by simp
    have found: "fill_state g k ?states ! k \<noteq> None" if "buildable g (mask_tables k)"
      by (rule fill_state_found [OF _ ok that]) (use Suc.prems IH in auto)
    have "fill_state g k ?states ! (2 ^ i) \<noteq> None" if "i < table_count g" for i
      using found IH(1) [OF that] buildable.single [OF that] by (cases "2 ^ i = k") (auto simp: fill_state_other)
    then show ?thesis unfolding step using found IH(2) by (auto simp: less_Suc_eq fill_state_other)
  qed
qed

text \<open>
  C10: the dynamic program orders every connected join graph of up to ten tables.  It returns a tree that holds
  each table exactly once, joins only along edges, and carries the row, width and cost estimates of its joins.
\<close>

theorem bushy_plan_covers_connected_graph:
  assumes "connected_graph g" "0 < table_count g" "table_count g \<le> 10"
  shows "\<exists>t. choose_exhaustive_bushy_plan g = Some t \<and> mset (tree_tables t) = mset [0..<table_count g] \<and>
    tree_table_count t = table_count g \<and> tree_follows g t \<and>
    choose_exhaustive_bushy_plan_cost g = Some (estimated_cost t)"
proof -
  let ?full = "2 ^ table_count g - 1 :: nat"
  let ?states = "fold (fill_state g) [1..<2 ^ table_count g] (leaf_states g)"
  have full: "mask_tables ?full = {..<table_count g}" 
    by (simp only: mask_tables_def mask_eq_exp_minus_1 [symmetric] bit_mask_iff) (auto simp: bit_simps)
  have lt: "?full < 2 ^ table_count g" by simp
  obtain plan where plan: "choose_greedy_plan g = Some plan" using connected_greedy_plan [OF assms(1,2)] by blast
  have start: "plan_start plan < table_count g"
    using greedy_plan_order [OF plan] by (simp add: left_deep_cost_def split: if_splits)
  have "buildable g {..<table_count g}"
    by (rule order_buildable [OF greedy_plan_order [OF plan, unfolded left_deep_cost_def if_P [OF start]]
          exhaustive_steps(1) [OF start]]) (simp add: start_flags_joined [OF start] buildable.single [OF start])
  then have "?states ! ?full \<noteq> None" using filled_found [of "2 ^ table_count g" g] lt full by simp
  then obtain s where s: "?states ! ?full = Some s" by blast
  then have ok: "state_ok g ?full s" using filled_ok [of "2 ^ table_count g" g] lt by (simp add: states_ok_def)
  have t: "choose_exhaustive_bushy_plan g = Some (bushy_plan s)"
    using assms(2,3) s by (simp add: choose_exhaustive_bushy_plan_def Let_def push_bit_of_1)
  have "mset (tree_tables (bushy_plan s)) = mset [0..<table_count g]"
    using ok full set_eq_iff_mset_eq_distinct [of "tree_tables (bushy_plan s)" "[0..<table_count g]"]
    by (simp add: state_ok_def atLeast0LessThan)
  moreover from arg_cong [OF this, of size] have "tree_table_count (bushy_plan s) = table_count g"
    by (simp add: tree_table_count)
  ultimately show ?thesis using t ok by (auto simp: choose_exhaustive_bushy_plan_cost_def state_ok_def)
qed

theorem bushy_plan_covers_connected_graph_witness:
  "\<exists>t. choose_exhaustive_bushy_plan demo_graph = Some t \<and> mset (tree_tables t) = mset [0..<table_count demo_graph] \<and>
    tree_table_count t = table_count demo_graph \<and> tree_follows demo_graph t \<and>
    choose_exhaustive_bushy_plan_cost demo_graph = Some (estimated_cost t)"
  by (rule bushy_plan_covers_connected_graph) (simp_all add: demo_graph_connected demo_graph_count)

subsection \<open>A bushy tree is run only when it pays\<close>

text \<open>
  Without the override a bushy tree replaces the left-deep order only when it has at least three tables and
  its estimate is below 95 percent of the left-deep cost.  The comparison is exact although both sides saturate.
\<close>

lemma bushy_execution_pays:
  assumes "choose_bushy_multi_input_join_execution_tree False g left_deep_plan = Some tree"
  shows "\<exists>plan. left_deep_plan = Some plan \<and> 100 * estimated_cost tree < 95 * plan_cost plan \<and>
    choose_exhaustive_bushy_plan g = Some tree \<and> 2 < tree_table_count tree"
  using assms
  by (auto simp: choose_bushy_multi_input_join_execution_tree_def u128_sat_def split: option.splits if_splits)

end
