(* ===== verification/Filter_Literals.thy ===== *)
theory Filter_Literals
  imports Logical_Expr
begin

text \<open>
  How a literal of a filter becomes a value of the column's type (\<open>execution/physical.rs\<close>, with the same text in
  \<open>storage.rs\<close>): decimals with a scale, dates as days and timestamps as milliseconds since 1970.
\<close>

subsection \<open>Decimals\<close>

fun scale_loop :: "nat \<Rightarrow> int \<Rightarrow> dodam_error + int" where
  "scale_loop 0 factor = Inr factor"
| "scale_loop (Suc n) factor =
     (case i128_checked (factor * 10) of
        None \<Rightarrow> Inl (InvalidFilter ''decimal scale is too large'')
      | Some factor \<Rightarrow> scale_loop n factor)"

definition decimal_scale_factor :: "nat \<Rightarrow> dodam_error + int" where
  "decimal_scale_factor scale = scale_loop scale 1"

definition is_ascii_digit :: "char \<Rightarrow> bool" where
  "is_ascii_digit c \<longleftrightarrow> digit_value c \<noteq> None"

text \<open>Multiplication by ten for each missing fractional digit.\<close>

fun pad_loop :: "dodam_error \<Rightarrow> nat \<Rightarrow> int \<Rightarrow> dodam_error + int" where
  "pad_loop e 0 v = Inr v"
| "pad_loop e (Suc n) v = (case i128_checked (v * 10) of None \<Rightarrow> Inl e | Some v \<Rightarrow> pad_loop e n v)"

definition decimal_string_as_i128 :: "string \<Rightarrow> nat \<Rightarrow> string \<Rightarrow> dodam_error + int" where
  "decimal_string_as_i128 value0 scale column =
     (let v = trim value0; e = InvalidFilter (column @ ''='' @ v)
      in if v = [] then Inl e
         else let negative = (hd v = CHR ''-'');
                  unsigned = (if hd v = CHR ''-'' \<or> hd v = CHR ''+'' then tl v else v);
                  (whole, fractional) = (case split_once CHR ''.'' unsigned of Some p \<Rightarrow> p | None \<Rightarrow> (unsigned, []))
              in if whole = [] \<or> \<not> list_all is_ascii_digit whole then Inl e
                 else if \<not> list_all is_ascii_digit fractional then Inl e
                 else let fractional = take (min (length fractional) scale) fractional
                      in case parse_i128 whole of
                           None \<Rightarrow> Inl e
                         | Some w \<Rightarrow>
                             try_bind (decimal_scale_factor scale) (\<lambda>factor.
                               case i128_checked (w * factor) of
                                 None \<Rightarrow> Inl e
                               | Some result \<Rightarrow>
                                   try_bind (pad_loop e (scale - length fractional)
                                       (case parse_i128 fractional of Some f \<Rightarrow> f | None \<Rightarrow> 0)) (\<lambda>fractional_value.
                                     case i128_checked (result + fractional_value) of
                                       None \<Rightarrow> Inl e
                                     | Some result \<Rightarrow> Inr (if negative then - result else result))))"

definition decimal_literal_as_i128 ::
    "(u64 \<Rightarrow> string) \<Rightarrow> literal_value \<Rightarrow> int \<Rightarrow> string \<Rightarrow> dodam_error + int" where
  "decimal_literal_as_i128 show_f64 lit scale column =
     (let e = invalid_literal show_f64 column lit
      in if scale < 0 then Inl e
         else case lit of
                LitInt64 v \<Rightarrow>
                  try_bind (decimal_scale_factor (nat scale)) (\<lambda>factor.
                    case i128_checked (v * factor) of None \<Rightarrow> Inl e | Some r \<Rightarrow> Inr r)
              | LitFloat64 v \<Rightarrow> decimal_string_as_i128 (show_f64 v) (nat scale) column
              | LitUtf8 v \<Rightarrow> decimal_string_as_i128 v (nat scale) column
              | _ \<Rightarrow> Inl e)"

subsection \<open>Dates\<close>

text \<open>Division of \<open>i64\<close> values rounds towards zero.\<close>

definition rust_div :: "int \<Rightarrow> int \<Rightarrow> int" where
  "rust_div a b = (if a < 0 then - ((- a) div b) else a div b)"

definition days_from_civil :: "int \<Rightarrow> int \<Rightarrow> int \<Rightarrow> int" where
  "days_from_civil year0 month day =
     (let year = year0 - (if month \<le> 2 then 1 else 0);
          era = rust_div (if year \<ge> 0 then year else year - 399) 400;
          yoe = year - era * 400;
          doy = rust_div (153 * (month + (if month > 2 then -3 else 9)) + 2) 5 + day - 1;
          doe = yoe * 365 + rust_div yoe 4 - rust_div yoe 100 + doy
      in era * 146097 + doe - 719468)"

fun split_once_by :: "(char \<Rightarrow> bool) \<Rightarrow> string \<Rightarrow> (string \<times> string) option" where
  "split_once_by P [] = None"
| "split_once_by P (c # s) = (if P c then Some ([], s) else map_option (\<lambda>(a, b). (c # a, b)) (split_once_by P s))"

text \<open>The year, month and day of a date; \<open>None\<close> where a part is missing, surplus or no number.\<close>

definition date_parts :: "string \<Rightarrow> (int \<times> nat \<times> nat) option" where
  "date_parts date =
     (case split_char CHR ''-'' date of
        [y, m, d] \<Rightarrow>
          Option.bind (parse_i32 y) (\<lambda>year. Option.bind (parse_u32 m) (\<lambda>month. Option.bind (parse_u32 d) (\<lambda>day.
            Some (year, month, day))))
      | _ \<Rightarrow> None)"

definition month_day_ok :: "nat \<Rightarrow> nat \<Rightarrow> bool" where
  "month_day_ok month day \<longleftrightarrow> 1 \<le> month \<and> month \<le> 12 \<and> 1 \<le> day \<and> day \<le> 31"

definition parse_date_days :: "string \<Rightarrow> int option" where
  "parse_date_days value0 =
     (let date = (case split_once_by (\<lambda>c. c = CHR '' '' \<or> c = CHR ''T'') (trim value0) of
            Some (date, _) \<Rightarrow> date | None \<Rightarrow> trim value0)
      in Option.bind (date_parts date) (\<lambda>(year, month, day).
           if month_day_ok month day then Some (days_from_civil year (int month) (int day)) else None))"

definition date_literal_as_i32 :: "(u64 \<Rightarrow> string) \<Rightarrow> literal_value \<Rightarrow> string \<Rightarrow> dodam_error + int" where
  "date_literal_as_i32 show_f64 lit column =
     (let e = invalid_literal show_f64 column lit; in_i32 = (\<lambda>v. - (2 ^ 31) \<le> v \<and> v < 2 ^ 31)
      in case lit of
           LitInt64 v \<Rightarrow> if in_i32 v then Inr v else Inl e
         | LitUtf8 s \<Rightarrow> (case parse_date_days s of Some v \<Rightarrow> if in_i32 v then Inr v else Inl e | None \<Rightarrow> Inl e)
         | _ \<Rightarrow> Inl e)"

definition date_literal_as_i64 :: "(u64 \<Rightarrow> string) \<Rightarrow> literal_value \<Rightarrow> string \<Rightarrow> dodam_error + int" where
  "date_literal_as_i64 show_f64 lit column =
     (let e = invalid_literal show_f64 column lit
      in case lit of
           LitInt64 v \<Rightarrow> Inr v
         | LitUtf8 s \<Rightarrow>
             (case Option.bind (parse_date_days s) (\<lambda>days. i64_checked (days * 86400000)) of
                Some v \<Rightarrow> Inr v | None \<Rightarrow> Inl e)
         | _ \<Rightarrow> Inl e)"

subsection \<open>Timestamps\<close>

text \<open>Products the code does not check wrap around (a debug build panics).\<close>

definition i64_wrap :: "int \<Rightarrow> int" where
  "i64_wrap x = (x + 2 ^ 63) mod 2 ^ 64 - 2 ^ 63"

definition split_time_offset :: "string \<Rightarrow> (string \<times> int) option" where
  "split_time_offset time0 =
     (let time = trim time0
      in case strip_suffix CHR ''Z'' time of
           Some time \<Rightarrow> Some (time, 0)
         | None \<Rightarrow>
             (case find (\<lambda>i. time ! i = CHR ''+'' \<or> time ! i = CHR ''-'') [1..<length time] of
                None \<Rightarrow> Some (time, 0)
              | Some offset_start \<Rightarrow>
                  (let sign = (if time ! offset_start = CHR ''-'' then -1 else 1);
                       offset = drop (offset_start + 1) time
                   in Option.bind (split_once CHR '':'' offset) (\<lambda>(hours, minutes).
                        Option.bind (parse_i64 hours) (\<lambda>hours.
                        Option.bind (parse_i64 minutes) (\<lambda>minutes.
                          if hours > 23 \<or> minutes > 59 then None
                          else Some (take offset_start time, i64_wrap (sign * (hours * 60 + minutes)))))))))"

definition time_parts :: "string \<Rightarrow> (nat \<times> nat \<times> nat) option" where
  "time_parts time =
     (case split_char CHR '':'' time of
        h # rest \<Rightarrow>
          (case rest of
             [] \<Rightarrow> Option.bind (parse_u32 h) (\<lambda>hour. Some (hour, 0, 0))
           | [m] \<Rightarrow> Option.bind (parse_u32 h) (\<lambda>hour. Option.bind (parse_u32 m) (\<lambda>minute. Some (hour, minute, 0)))
           | [m, s] \<Rightarrow>
               Option.bind (parse_u32 h) (\<lambda>hour. Option.bind (parse_u32 m) (\<lambda>minute.
                 Option.bind (parse_u32 s) (\<lambda>second. Some (hour, minute, second))))
           | _ \<Rightarrow> None)
      | [] \<Rightarrow> None)"

definition parse_timestamp_millis :: "string \<Rightarrow> int option" where
  "parse_timestamp_millis value0 =
     (let v = trim value0;
          (date, time_with_zone) = (case split_once CHR '' '' v of
              Some p \<Rightarrow> p
            | None \<Rightarrow> (case split_once CHR ''T'' v of Some p \<Rightarrow> p | None \<Rightarrow> (v, ''00:00:00'')))
      in Option.bind (split_time_offset time_with_zone) (\<lambda>(time, offset_minutes).
         Option.bind (date_parts date) (\<lambda>(year, month, day).
         Option.bind (time_parts time) (\<lambda>(hour, minute, second).
           if \<not> month_day_ok month day \<or> hour > 23 \<or> minute > 59 \<or> second > 59 then None
           else Option.bind (i64_checked (days_from_civil year (int month) (int day) * 86400000)) (\<lambda>t.
                Option.bind (i64_checked (t + int hour * 3600000)) (\<lambda>t.
                Option.bind (i64_checked (t + int minute * 60000)) (\<lambda>t.
                Option.bind (i64_checked (t + int second * 1000)) (\<lambda>t.
                  i64_checked (t - i64_wrap (offset_minutes * 60000))))))))))"

datatype time_unit = UnitSecond | UnitMillisecond | UnitMicrosecond | UnitNanosecond

definition timestamp_literal_as_i64 ::
    "(u64 \<Rightarrow> string) \<Rightarrow> literal_value \<Rightarrow> time_unit \<Rightarrow> string \<Rightarrow> dodam_error + int" where
  "timestamp_literal_as_i64 show_f64 lit unit0 column =
     (let e = invalid_literal show_f64 column lit
      in try_bind (case lit of
             LitInt64 v \<Rightarrow> Inr v
           | LitUtf8 s \<Rightarrow> (case parse_timestamp_millis s of Some v \<Rightarrow> Inr v | None \<Rightarrow> Inl e)
           | _ \<Rightarrow> Inl e) (\<lambda>millis.
         case unit0 of
           UnitSecond \<Rightarrow> Inr (rust_div millis 1000)
         | UnitMillisecond \<Rightarrow> Inr millis
         | UnitMicrosecond \<Rightarrow> (case i64_checked (millis * 1000) of Some v \<Rightarrow> Inr v | None \<Rightarrow> Inl e)
         | UnitNanosecond \<Rightarrow> (case i64_checked (millis * 1000000) of Some v \<Rightarrow> Inr v | None \<Rightarrow> Inl e)))"

subsection \<open>The calendar\<close>

definition leap_year :: "int \<Rightarrow> bool" where
  "leap_year y \<longleftrightarrow> 4 dvd y \<and> (\<not> 100 dvd y \<or> 400 dvd y)"

definition days_in_month :: "int \<Rightarrow> int \<Rightarrow> int" where
  "days_in_month y m = (if m = 2 then (if leap_year y then 29 else 28) else if m \<in> {4, 6, 9, 11} then 30 else 31)"

definition valid_date :: "int \<Rightarrow> int \<Rightarrow> int \<Rightarrow> bool" where
  "valid_date y m d \<longleftrightarrow> 1 \<le> m \<and> m \<le> 12 \<and> 1 \<le> d \<and> d \<le> days_in_month y m"

definition next_date :: "int \<times> int \<times> int \<Rightarrow> int \<times> int \<times> int" where
  "next_date = (\<lambda>(y, m, d). if d < days_in_month y m then (y, m, d + 1)
     else if m < 12 then (y, m + 1, 1) else (y + 1, 1, 1))"

text \<open>The number of days before a year that begins in March.\<close>

definition days_before :: "int \<Rightarrow> int" where
  "days_before y = 365 * y + y div 4 - y div 100 + y div 400"

lemma rust_div_era: "rust_div (if y \<ge> 0 then y else y - 399) 400 = y div 400"
  unfolding rust_div_def by auto

lemma rust_div_nonneg [simp]: "0 \<le> a \<Longrightarrow> rust_div a b = a div b"
  by (simp add: rust_div_def)

lemma days_before_era: "days_before (400 * q + r) = 146097 * q + days_before r" for q r :: int
proof -
  have "(r + (100 * q) * 4) div 4 = 100 * q + r div 4" "(r + (4 * q) * 100) div 100 = 4 * q + r div 100"
    "(r + q * 400) div 400 = q + r div 400"
    by (rule div_mult_self1, simp)+
  moreover have "r + (100 * q) * 4 = 400 * q + r" "r + (4 * q) * 100 = 400 * q + r" "r + q * 400 = 400 * q + r"
    by simp_all
  ultimately have "(400 * q + r) div 4 = 100 * q + r div 4" "(400 * q + r) div 100 = 4 * q + r div 100"
    "(400 * q + r) div 400 = q + r div 400" by (simp_all only:)
  then show ?thesis unfolding days_before_def by (simp only:) simp
qed

lemma days_before_within_era: "0 \<le> r \<Longrightarrow> r < 400 \<Longrightarrow> days_before r = 365 * r + r div 4 - r div 100"
  by (simp add: days_before_def)

lemma days_from_civil_eq:
  assumes "1 \<le> m" "m \<le> 12"
  shows "days_from_civil y m d =
    days_before (if m \<le> 2 then y - 1 else y) + (153 * (m + (if m > 2 then -3 else 9)) + 2) div 5 + d - 1 - 719468"
proof -
  define z where "z = (if m \<le> 2 then y - 1 else y)"
  obtain q r where z: "z = 400 * q + r" "0 \<le> r" "r < 400"
    using that [of "z div 400" "z mod 400"] by simp
  have z': "y - (if m \<le> 2 then 1 else 0) = z" by (simp add: z_def)
  have q: "z div 400 = q" using z by simp
  have r: "z - q * 400 = r" using z by simp
  have "0 \<le> 153 * (m + (if m > 2 then -3 else 9)) + 2" using assms by auto
  moreover have "days_before z = 146097 * q + (365 * r + r div 4 - r div 100)"
    using z by (simp only: days_before_era days_before_within_era)
  ultimately show ?thesis
    unfolding days_from_civil_def Let_def rust_div_era z' q r z_def [symmetric]
    using z(2) by (simp add: algebra_simps)
qed

lemma days_before_Suc: "days_before y - days_before (y - 1) = 365 + (if leap_year y then 1 else 0)"
proof -
  have step: "y div k - (y - 1) div k = (if k dvd y then 1 else 0)" if "0 < k" for k :: int
  proof (cases "k dvd y")
    case True
    then obtain q where "y = k * q" ..
    moreover have "(k * q - 1) div k = q - 1"
      by (rule int_div_pos_eq [of _ _ _ "k - 1"]) (use that in \<open>auto simp: algebra_simps\<close>)
    ultimately show ?thesis using True that by simp
  next
    case False
    then have "0 < y mod k" using that by (metis mod_eq_0_iff_dvd pos_mod_sign le_less)
    then have "(y - 1) div k = y div k"
      by (intro int_div_pos_eq [of _ _ _ "y mod k - 1"]) (use that pos_mod_bound [OF that, of y] in auto)
    then show ?thesis using False by simp
  qed
  have "(100::int) dvd 400" "(4::int) dvd 100" by simp_all
  then have "(400 dvd y \<longrightarrow> 100 dvd y) \<and> (100 dvd y \<longrightarrow> 4 dvd y)" by (meson dvd_trans)
  then have "of_bool (leap_year y) = (if 4 dvd y then 1 else 0) - (if 100 dvd y then 1 else 0) + (if 400 dvd y then 1 else (0::int))"
    unfolding leap_year_def by simp
  also have "\<dots> = (y div 4 - (y - 1) div 4) - (y div 100 - (y - 1) div 100) + (y div 400 - (y - 1) div 400)"
    by (simp only: step [of 4] step [of 100] step [of 400] zero_less_numeral)
  finally have leap: "(if leap_year y then 1 else 0) =
    (y div 4 - (y - 1) div 4) - (y div 100 - (y - 1) div 100) + (y div 400 - (y - 1) div 400)"
    unfolding of_bool_def .
  show ?thesis unfolding days_before_def leap by algebra
qed

text \<open>
  C25: \<open>days_from_civil\<close> counts days.  The first of January 1970 is day zero, and the day after a date of the
  Gregorian calendar has the next number, across the ends of months and years and in leap years, for every year
  in both directions; so the order of dates is the order of their numbers.
\<close>

theorem days_from_civil_counts_days:
  "days_from_civil 1970 1 1 = 0 \<and>
   (valid_date y m d \<longrightarrow>
      (let (y', m', d') = next_date (y, m, d)
       in valid_date y' m' d' \<and> days_from_civil y' m' d' = days_from_civil y m d + 1))"
proof -
  have zero: "days_from_civil 1970 1 1 = 0" by (simp add: days_from_civil_def Let_def rust_div_def)
  have "days_from_civil y' m' d' = days_from_civil y m d + 1 \<and> valid_date y' m' d'"
    if v: "valid_date y m d" and n: "next_date (y, m, d) = (y', m', d')" for y' m' d'
  proof -
    have m: "1 \<le> m" "m \<le> 12" "1 \<le> d" using v by (auto simp: valid_date_def)
    then have "m = 1 \<or> m = 2 \<or> m = 3 \<or> m = 4 \<or> m = 5 \<or> m = 6 \<or> m = 7 \<or> m = 8 \<or> m = 9 \<or> m = 10 \<or> m = 11 \<or> m = 12"
      by presburger
    then consider "m = 1" | "m = 2" | "m = 3" | "m = 4" | "m = 5" | "m = 6" | "m = 7" | "m = 8" | "m = 9" | "m = 10"
      | "m = 11" | "m = 12" by blast
    then show ?thesis
      using v n m days_before_Suc [of y]
      by cases (auto simp: next_date_def valid_date_def days_in_month_def days_from_civil_eq split: if_splits)
  qed
  then show ?thesis using zero by (auto simp: Let_def split: prod.splits)
qed

theorem days_from_civil_counts_days_witness:
  "next_date (2024, 2, 28) = (2024, 2, 29) \<and> days_from_civil 2024 2 29 = days_from_civil 2024 2 28 + 1"
  using days_from_civil_counts_days [of 2024 2 28]
  by (simp add: next_date_def valid_date_def days_in_month_def leap_year_def)

subsection \<open>Decimal literals\<close>

text \<open>The number that a string of digits writes.\<close>

fun digits_nat :: "string \<Rightarrow> nat" where
  "digits_nat [] = 0"
| "digits_nat (c # s) = the (digit_value c) * 10 ^ length s + digits_nat s"

lemma digits_nat_append: "digits_nat (a @ b) = digits_nat a * 10 ^ length b + digits_nat b"
  by (induction a) (simp_all add: algebra_simps power_add)

lemma digits_nat_less: "list_all is_ascii_digit s \<Longrightarrow> digits_nat s < 10 ^ length s"
proof (induction s)
  case (Cons c s)
  then have "the (digit_value c) \<le> 9" by (auto simp: is_ascii_digit_def digit_value_def Let_def split: if_splits)
  then have "the (digit_value c) * 10 ^ length s \<le> 9 * 10 ^ length s" by (rule mult_right_mono) simp
  moreover have "digits_nat s < 10 ^ length s" using Cons by simp
  ultimately show ?case unfolding digits_nat.simps length_Cons power_Suc by linarith
qed simp

lemma parse_digits_digits:
  "list_all is_ascii_digit s \<Longrightarrow> parse_digits s n = Some (n * 10 ^ length s + digits_nat s)"
  by (induction s arbitrary: n) (auto simp: is_ascii_digit_def algebra_simps)

lemma digit_not_special:
  assumes "is_ascii_digit c"
  shows "c \<noteq> CHR ''-''" "c \<noteq> CHR ''+''" "c \<noteq> CHR ''.''" "\<not> is_whitespace c"
  using assms by (auto simp: is_ascii_digit_def digit_value_def is_whitespace_def Let_def split: if_splits)

lemma parse_signed_digits:
  "list_all is_ascii_digit s \<Longrightarrow> s \<noteq> [] \<Longrightarrow> parse_signed s = Some (int (digits_nat s))"
  using parse_digits_digits [of s 0]
  by (cases s) (auto simp: parse_signed_def Let_def digit_not_special simp del: parse_digits.simps)

lemma split_once_digits:
  "list_all is_ascii_digit w \<Longrightarrow> split_once CHR ''.'' (w @ CHR ''.'' # f) = Some (w, f)"
  by (induction w) (auto simp: digit_not_special)

lemma i128_checked_fits: "0 \<le> v \<Longrightarrow> v < 2 ^ 127 \<Longrightarrow> i128_checked v = Some v"
  by (simp add: i128_checked_def)

lemma power10_step:
  assumes "0 \<le> (v::int)" "v * 10 ^ Suc n < b"
  shows "0 \<le> v * 10" "v * 10 < b" "v * 10 * 10 ^ n < b"
proof -
  have "v * 10 * 1 \<le> v * 10 * 10 ^ n" using assms(1) by (intro mult_left_mono) simp_all
  then show "0 \<le> v * 10" "v * 10 < b" "v * 10 * 10 ^ n < b" using assms by (simp_all add: algebra_simps)
qed

lemma scale_loop_power: "0 \<le> v \<Longrightarrow> v * 10 ^ n < 2 ^ 127 \<Longrightarrow> scale_loop n v = Inr (v * 10 ^ n)"
proof (induction n arbitrary: v)
  case (Suc n)
  note p = power10_step [OF Suc.prems]
  show ?case using Suc.IH [OF p(1) p(3)] i128_checked_fits [OF p(1) p(2)] by (simp add: algebra_simps)
qed simp

lemma pad_loop_power: "0 \<le> v \<Longrightarrow> v * 10 ^ n < 2 ^ 127 \<Longrightarrow> pad_loop e n v = Inr (v * 10 ^ n)"
proof (induction n arbitrary: v)
  case (Suc n)
  note p = power10_step [OF Suc.prems]
  show ?case using Suc.IH [OF p(1) p(3)] i128_checked_fits [OF p(1) p(2)] by (simp add: algebra_simps)
qed simp

lemma truncated_digits:
  fixes scale :: nat
  assumes "list_all is_ascii_digit f"
  defines "k \<equiv> min (length f) scale"
  shows "(w * 10 ^ length f + digits_nat f) * 10 ^ scale div 10 ^ length f =
    w * 10 ^ scale + digits_nat (take k f) * 10 ^ (scale - k)"
proof (cases "length f \<le> scale")
  case True
  then have "(10::nat) ^ scale = 10 ^ (scale - length f) * 10 ^ length f" by (simp flip: power_add)
  then have "(w * 10 ^ length f + digits_nat f) * 10 ^ scale =
      (w * 10 ^ scale + digits_nat f * 10 ^ (scale - length f)) * 10 ^ length f"
    by (simp add: algebra_simps)
  then show ?thesis using True by (simp add: k_def)
next
  case False
  define a b where "a = take scale f" and "b = drop scale f"
  have f: "f = a @ b" "length a = scale" using False by (simp_all add: a_def b_def)
  have "list_all is_ascii_digit b" using assms(1) f(1) by simp
  then have b: "digits_nat b < 10 ^ length b" by (rule digits_nat_less)
  have "w * 10 ^ length f + digits_nat f = (w * 10 ^ scale + digits_nat a) * 10 ^ length b + digits_nat b"
    by (simp add: f digits_nat_append power_add algebra_simps)
  then have "(w * 10 ^ length f + digits_nat f) div 10 ^ length b = w * 10 ^ scale + digits_nat a"
    using b by simp
  moreover have "(10::nat) ^ length f = 10 ^ length b * 10 ^ scale" by (simp add: f power_add)
  ultimately show ?thesis using False f by (simp add: k_def)
qed

lemma i128_checked_nat: "i128_checked (int n) = (if n < 2 ^ 127 then Some (int n) else None)"
proof -
  have "int n < 2 ^ 127 \<longleftrightarrow> n < 2 ^ 127" using of_nat_less_iff [of n "2 ^ 127", where 'a = int] by simp
  then show ?thesis by (simp add: i128_checked_def)
qed

lemma parse_i128_digits:
  "list_all is_ascii_digit s \<Longrightarrow> s \<noteq> [] \<Longrightarrow>
     parse_i128 s = (if digits_nat s < 2 ^ 127 then Some (int (digits_nat s)) else None)"
  by (simp add: parse_i128_def parse_signed_digits i128_checked_nat)

text \<open>
  C26: what a decimal literal becomes, for every column scale up to 38.  A sign, digits, a point and digits give the
  number they write, times ten to the scale of the column and cut towards zero, exactly when its magnitude is below
  \<open>2 ^ 127\<close>, and the error that names the literal otherwise; so the value is exact when the literal has no more
  fractional digits than the column.
\<close>

theorem decimal_string_truncates:
  assumes "list_all is_ascii_digit w" "w \<noteq> []" "list_all is_ascii_digit f" "scale \<le> 38"
  shows "decimal_string_as_i128 ((if neg then ''-'' else []) @ w @ CHR ''.'' # f) scale column =
    (let value = (digits_nat w * 10 ^ length f + digits_nat f) * 10 ^ scale div 10 ^ length f
     in if value < 2 ^ 127 then Inr ((if neg then -1 else 1) * int value)
        else Inl (InvalidFilter (column @ ''='' @ (if neg then ''-'' else []) @ w @ CHR ''.'' # f)))"
proof -
  define k where "k = min (length f) scale"
  define g where "g = digits_nat (take k f)"
  let ?s = "(if neg then ''-'' else []) @ w @ CHR ''.'' # f"
  have dw: "is_ascii_digit (hd w)" using assms(1,2) by (cases w) auto
  have "\<not> is_whitespace (last (w @ CHR ''.'' # f))"
    using assms(3) digit_not_special(4) by (cases f rule: rev_cases) (auto simp: is_whitespace_def)
  then have t: "trim ?s = ?s" using dw digit_not_special(4) assms(2) by (intro trim_no_outer_space) (auto simp: is_whitespace_def)
  have tk: "list_all is_ascii_digit (take k f)" by (metis append_take_drop_id assms(3) list_all_append)
  have "g < 10 ^ k" using digits_nat_less [OF tk] by (simp add: g_def k_def)
  then have "g * 10 ^ (scale - k) < 10 ^ k * 10 ^ (scale - k)" by simp
  then have "g * 10 ^ (scale - k) < 10 ^ scale" by (simp add: k_def flip: power_add)
  moreover have s10: "(10::nat) ^ scale < 2 ^ 127"
    by (rule le_less_trans [OF power_increasing [OF assms(4)]]) simp_all
  ultimately have gs: "g * 10 ^ (scale - k) < 2 ^ 127" by linarith
  have w: "digits_nat w * 1 \<le> digits_nat w * 10 ^ scale" and g0: "g * 1 \<le> g * 10 ^ (scale - k)"
    by (intro mult_left_mono; simp)+
  have pf: "(case parse_i128 (take k f) of Some f \<Rightarrow> f | None \<Rightarrow> 0) = int g"
  proof (cases "take k f = []")
    case True
    show ?thesis unfolding g_def True by (simp add: parse_i128_def parse_signed_def)
  next
    case False
    have "g < 2 ^ 127" using gs g0 by linarith
    then show ?thesis using parse_i128_digits [OF tk False] by (simp only: g_def if_True option.case)
  qed
  have sc: "decimal_scale_factor scale = Inr (int (10 ^ scale))"
    unfolding decimal_scale_factor_def using scale_loop_power [of 1 scale] i128_checked_nat [of "10 ^ scale"] s10
    by (simp add: i128_checked_def split: if_splits)
  have pad: "pad_loop e (scale - k) (int g) = Inr (int (g * 10 ^ (scale - k)))" for e
    using pad_loop_power [of "int g" "scale - k" e] gs i128_checked_nat [of "g * 10 ^ (scale - k)"]
    by (simp add: i128_checked_def split: if_splits)
  have min_k: "min (length f) k = k" by (simp add: k_def)
  let ?e = "InvalidFilter (column @ ''='' @ ?s)" and ?w = "digits_nat w" and ?g = "g * 10 ^ (scale - k)"
  have run: "decimal_string_as_i128 ?s scale column =
      (case parse_i128 w of None \<Rightarrow> Inl ?e | Some v \<Rightarrow>
       case i128_checked (v * int (10 ^ scale)) of None \<Rightarrow> Inl ?e | Some r \<Rightarrow>
       case i128_checked (r + int ?g) of None \<Rightarrow> Inl ?e | Some r \<Rightarrow> Inr (if neg then - r else r))"
    unfolding decimal_string_as_i128_def t Let_def using dw assms(1,2,3) min_k
    by (cases neg; cases "parse_i128 w"; cases "i128_checked (the (parse_i128 w) * int (10 ^ scale))")
      (simp_all add: split_once_digits sc pf pad digit_not_special flip: k_def del: of_nat_mult of_nat_power split: option.split)
  show ?thesis
  proof (cases "?w * 10 ^ scale < 2 ^ 127")
    case True
    then have "?w < 2 ^ 127" using w by linarith
    then show ?thesis
      unfolding truncated_digits [OF assms(3)] k_def [symmetric] g_def [symmetric] run Let_def
      using True by (simp only: parse_i128_digits [OF assms(1,2)] if_True option.case
          of_nat_mult [symmetric] of_nat_add [symmetric] i128_checked_nat split: if_split) simp
  next
    case False
    then have "\<not> ?w * 10 ^ scale + ?g < 2 ^ 127" by linarith
    then show ?thesis
      unfolding truncated_digits [OF assms(3)] k_def [symmetric] g_def [symmetric] run Let_def
      using False by (simp only: parse_i128_digits [OF assms(1,2)] option.case if_False
          of_nat_mult [symmetric] i128_checked_nat split: if_split) simp
  qed
qed

theorem decimal_string_truncates_witness:
  "decimal_string_as_i128 ''-1.257'' 2 ''price'' = Inr (- 125) \<and>
   decimal_string_as_i128 ''1.5'' 38 ''price'' = Inr 150000000000000000000000000000000000000 \<and>
   decimal_string_as_i128 ''1.8'' 38 ''price'' = Inl (InvalidFilter ''price=1.8'')"
  using decimal_string_truncates [of "''1''" "''257''" 2 True "''price''"]
    decimal_string_truncates [of "''1''" "''5''" 38 False "''price''"]
    decimal_string_truncates [of "''1''" "''8''" 38 False "''price''"]
  by (simp add: is_ascii_digit_def digit_value_def)

text \<open>
  Impossible days of a month are taken for days of the next one: the last day of February and a day that
  does not exist denote the same date.
\<close>

theorem nonexistent_dates_accepted:
  "parse_date_days ''2024-02-31'' = parse_date_days ''2024-03-02'' \<and> parse_date_days ''2024-03-02'' \<noteq> None \<and>
   \<not> valid_date 2024 2 31"
  by (simp add: parse_date_days_def date_parts_def parse_i32_def parse_u32_def parse_usize_def usize_checked_def parse_signed_def digit_value_def
      month_day_ok_def days_from_civil_def rust_div_def valid_date_def days_in_month_def leap_year_def
      trim_def trim_start_def is_whitespace_def Let_def)

end
