(* ===== verification/Vector_Views.thy ===== *)
theory Vector_Views
  imports Filter_Literals Dense_Set
begin

text \<open>
  Columns and the views of them in \<open>vector.rs\<close>: record batches, raw columns decoded from Parquet, the vector views
  that give both one interface, dictionary lookups, and selections as runs of rows.

  An Arrow array is its data type with the list of its optional values; a dictionary keeps its keys and values.
  Values of all integer types are integers.  An index out of bounds, which panics, is \<open>None\<close>.
\<close>

subsection \<open>Arrays and batches\<close>

datatype cell = CellInt int | CellBool bool | CellF64 u64 | CellStr string

datatype data_type =
    Int32 | Int64 | UInt64 | Float64 | BooleanType | Date32 | Date64
  | Decimal128 nat int
  | Timestamp time_unit "string option"
  | Utf8
  | DictInt32Utf8
  | OtherType string

datatype array =
    PlainArray data_type "cell option list"
  | DictArray "int option list" "string option list"

fun array_type :: "array \<Rightarrow> data_type" where
  "array_type (PlainArray t cs) = t"
| "array_type (DictArray keys dictionary) = DictInt32Utf8"

fun array_len :: "array \<Rightarrow> nat" where
  "array_len (PlainArray t cs) = length cs"
| "array_len (DictArray keys dictionary) = length keys"

text \<open>The string a key of a dictionary stands for.\<close>

definition dictionary_lookup :: "string option list \<Rightarrow> int \<Rightarrow> string option" where
  "dictionary_lookup dictionary key =
     Option.bind (usize_try_from key) (\<lambda>key. if key < length dictionary then dictionary ! key else None)"

fun array_cells :: "array \<Rightarrow> cell option list" where
  "array_cells (PlainArray t cs) = cs"
| "array_cells (DictArray keys dictionary) =
     map (\<lambda>key. map_option CellStr (Option.bind key (dictionary_lookup dictionary))) keys"

record record_batch =
  field_names :: "string list"
  batch_columns :: "array list"
  batch_rows :: nat

fun the_int :: "cell \<Rightarrow> int" where
  "the_int (CellInt i) = i"
| "the_int c = 0"

fun the_str :: "cell \<Rightarrow> string" where
  "the_str (CellStr s) = s"
| "the_str c = []"

text \<open>\<open>downcast_ref\<close> to the array of an integer type.\<close>

fun downcast_ints :: "data_type \<Rightarrow> array \<Rightarrow> int option list option" where
  "downcast_ints t (PlainArray u cs) = (if t = u then Some (map (map_option the_int) cs) else None)"
| "downcast_ints t (DictArray keys dictionary) = None"

subsection \<open>Little-endian integers\<close>

fun le_nat :: "8 word list \<Rightarrow> nat" where
  "le_nat [] = 0"
| "le_nat (b # bs) = unat b + 256 * le_nat bs"

definition from_le_bytes :: "nat \<Rightarrow> 8 word list \<Rightarrow> int" where
  "from_le_bytes bits bs =
     (let n = int (le_nat bs) in if n < 2 ^ (bits - 1) then n else n - 2 ^ bits)"

definition slice :: "8 word list \<Rightarrow> nat \<Rightarrow> nat \<Rightarrow> 8 word list option" where
  "slice data start stop = (if start \<le> stop \<and> stop \<le> length data then Some (take (stop - start) (drop start data)) else None)"

definition read_i32_le_unaligned :: "8 word list \<Rightarrow> nat \<Rightarrow> int option" where
  "read_i32_le_unaligned data row =
     (let offset = row * 4 in map_option (from_le_bytes 32) (slice data offset (offset + 4)))"

definition read_i64_le_unaligned :: "8 word list \<Rightarrow> nat \<Rightarrow> int option" where
  "read_i64_le_unaligned data row =
     (let offset = row * 8 in map_option (from_le_bytes 64) (slice data offset (offset + 8)))"

subsection \<open>Vector views\<close>

text \<open>
  \<open>I64VectorView\<close>, \<open>I32VectorView\<close> and \<open>Date32VectorView\<close> have the same variants (the last without nullable raw
  values) and methods; they differ in the integer that \<open>RawBytes\<close> reads.
\<close>

datatype vector_view =
    ViewArrow "int option list"
  | ViewRaw "int list"
  | ViewRawBytes "8 word list" nat
  | ViewRawNullable "int list" "int list"

fun view_len :: "vector_view \<Rightarrow> nat" where
  "view_len (ViewArrow vs) = length vs"
| "view_len (ViewRaw vs) = length vs"
| "view_len (ViewRawBytes data n) = n"
| "view_len (ViewRawNullable vs def_levels) = length def_levels"

fun view_is_null :: "vector_view \<Rightarrow> nat \<Rightarrow> bool option" where
  "view_is_null (ViewArrow vs) row = map_option (\<lambda>v. v = None) (vec_get vs row)"
| "view_is_null (ViewRaw vs) row = Some False"
| "view_is_null (ViewRawBytes data n) row = Some False"
| "view_is_null (ViewRawNullable vs def_levels) row = map_option (\<lambda>level. level = 0) (vec_get def_levels row)"

definition nullable_value_index :: "int list \<Rightarrow> nat \<Rightarrow> nat" where
  "nullable_value_index def_levels row = length (filter (\<lambda>level. level \<noteq> 0) (take row def_levels))"

fun view_value :: "(8 word list \<Rightarrow> nat \<Rightarrow> int option) \<Rightarrow> vector_view \<Rightarrow> nat \<Rightarrow> int option" where
  "view_value rd (ViewArrow vs) row = Option.bind (vec_get vs row) id"
| "view_value rd (ViewRaw vs) row = vec_get vs row"
| "view_value rd (ViewRawBytes data n) row = rd data row"
| "view_value rd (ViewRawNullable vs def_levels) row =
     (if length vs = length def_levels then vec_get vs row
      else vec_get vs (nullable_value_index def_levels row))"

fun values_if_null_free :: "vector_view \<Rightarrow> int list option" where
  "values_if_null_free (ViewArrow vs) = (if None \<in> set vs then None else Some (map the vs))"
| "values_if_null_free (ViewRaw vs) = Some vs"
| "values_if_null_free (ViewRawBytes data n) = None"
| "values_if_null_free (ViewRawNullable vs def_levels) =
     (if length vs = length def_levels \<and> list_all (\<lambda>level. level \<noteq> 0) def_levels then Some vs else None)"

fun raw_nullable :: "vector_view \<Rightarrow> (int list \<times> int list) option" where
  "raw_nullable (ViewRawNullable vs def_levels) = Some (vs, def_levels)"
| "raw_nullable v = None"

fun raw_bytes :: "vector_view \<Rightarrow> (8 word list \<times> nat) option" where
  "raw_bytes (ViewRawBytes data n) = Some (data, n)"
| "raw_bytes v = None"

definition i64_value :: "vector_view \<Rightarrow> nat \<Rightarrow> int option" where
  "i64_value = view_value read_i64_le_unaligned"

definition i32_value :: "vector_view \<Rightarrow> nat \<Rightarrow> int option" where
  "i32_value = view_value read_i32_le_unaligned"

definition date32_value :: "vector_view \<Rightarrow> nat \<Rightarrow> int option" where
  "date32_value = view_value read_i32_le_unaligned"

subsection \<open>Batch views\<close>

datatype raw_column =
    RawI64 "int list"
  | RawI64Bytes "8 word list" nat
  | RawI64Nullable "int list" "int list"
  | RawI32 "int list"
  | RawI32Bytes "8 word list" nat
  | RawI32Nullable "int list" "int list"
  | RawDate32 "int list"
  | RawDate32Bytes "8 word list" nat
  | RawDecimal128I64 "int list" nat int
  | RawDecimal128I64Bytes "8 word list" nat nat int

fun raw_column_len :: "raw_column \<Rightarrow> nat" where
  "raw_column_len (RawI64 vs) = length vs"
| "raw_column_len (RawI64Bytes data n) = n"
| "raw_column_len (RawI64Nullable vs def_levels) = length def_levels"
| "raw_column_len (RawI32 vs) = length vs"
| "raw_column_len (RawI32Bytes data n) = n"
| "raw_column_len (RawI32Nullable vs def_levels) = length def_levels"
| "raw_column_len (RawDate32 vs) = length vs"
| "raw_column_len (RawDate32Bytes data n) = n"
| "raw_column_len (RawDecimal128I64 vs p s) = length vs"
| "raw_column_len (RawDecimal128I64Bytes data n p s) = n"

datatype batch_view = ViewRecordBatch record_batch | ViewRawColumns "raw_column list"

fun try_record_batch :: "batch_view \<Rightarrow> record_batch option" where
  "try_record_batch (ViewRecordBatch batch) = Some batch"
| "try_record_batch (ViewRawColumns columns) = None"

fun view_num_columns :: "batch_view \<Rightarrow> nat" where
  "view_num_columns (ViewRecordBatch batch) = length (batch_columns batch)"
| "view_num_columns (ViewRawColumns columns) = length columns"

fun view_num_rows :: "batch_view \<Rightarrow> nat" where
  "view_num_rows (ViewRecordBatch batch) = batch_rows batch"
| "view_num_rows (ViewRawColumns columns) = (case columns of [] \<Rightarrow> 0 | c # cs \<Rightarrow> raw_column_len c)"

fun view_raw_column :: "batch_view \<Rightarrow> nat \<Rightarrow> raw_column option" where
  "view_raw_column (ViewRecordBatch batch) index = None"
| "view_raw_column (ViewRawColumns columns) index = vec_get columns index"

definition view_raw_i64 :: "batch_view \<Rightarrow> nat \<Rightarrow> int list option" where
  "view_raw_i64 view index =
     Option.bind (view_raw_column view index) (\<lambda>c. case c of RawI64 vs \<Rightarrow> Some vs | _ \<Rightarrow> None)"

definition view_raw_i32_physical :: "batch_view \<Rightarrow> nat \<Rightarrow> int list option" where
  "view_raw_i32_physical view index =
     Option.bind (view_raw_column view index) (\<lambda>c. case c of RawI32 vs \<Rightarrow> Some vs | RawDate32 vs \<Rightarrow> Some vs | _ \<Rightarrow> None)"

definition view_raw_i64_i32_i32 :: "batch_view \<Rightarrow> (int list \<times> int list \<times> int list) option" where
  "view_raw_i64_i32_i32 view =
     Option.bind (view_raw_i64 view 0) (\<lambda>a.
     Option.bind (view_raw_i32_physical view 1) (\<lambda>b.
     Option.bind (view_raw_i32_physical view 2) (\<lambda>c. Some (a, b, c))))"

fun view_downcast :: "batch_view \<Rightarrow> data_type \<Rightarrow> nat \<Rightarrow> int option list option" where
  "view_downcast (ViewRecordBatch batch) t index = Option.bind (vec_get (batch_columns batch) index) (downcast_ints t)"
| "view_downcast (ViewRawColumns columns) t index = None"

fun i64_vector :: "batch_view \<Rightarrow> nat \<Rightarrow> vector_view option" where
  "i64_vector (ViewRecordBatch batch) index = map_option ViewArrow (view_downcast (ViewRecordBatch batch) Int64 index)"
| "i64_vector (ViewRawColumns columns) index =
     Option.bind (view_raw_column (ViewRawColumns columns) index) (\<lambda>c. case c of
         RawI64 vs \<Rightarrow> Some (ViewRaw vs)
       | RawI64Bytes data n \<Rightarrow> Some (ViewRawBytes data n)
       | RawI64Nullable vs def_levels \<Rightarrow> Some (ViewRawNullable vs def_levels)
       | _ \<Rightarrow> None)"

fun i32_vector :: "batch_view \<Rightarrow> nat \<Rightarrow> vector_view option" where
  "i32_vector (ViewRecordBatch batch) index = map_option ViewArrow (view_downcast (ViewRecordBatch batch) Int32 index)"
| "i32_vector (ViewRawColumns columns) index =
     Option.bind (view_raw_column (ViewRawColumns columns) index) (\<lambda>c. case c of
         RawI32 vs \<Rightarrow> Some (ViewRaw vs)
       | RawI32Bytes data n \<Rightarrow> Some (ViewRawBytes data n)
       | RawI32Nullable vs def_levels \<Rightarrow> Some (ViewRawNullable vs def_levels)
       | _ \<Rightarrow> None)"

fun date32_vector :: "batch_view \<Rightarrow> nat \<Rightarrow> vector_view option" where
  "date32_vector (ViewRecordBatch batch) index = map_option ViewArrow (view_downcast (ViewRecordBatch batch) Date32 index)"
| "date32_vector (ViewRawColumns columns) index =
     Option.bind (view_raw_column (ViewRawColumns columns) index) (\<lambda>c. case c of
         RawDate32 vs \<Rightarrow> Some (ViewRaw vs)
       | RawDate32Bytes data n \<Rightarrow> Some (ViewRawBytes data n)
       | _ \<Rightarrow> None)"

subsection \<open>Dictionary lookups\<close>

text \<open>The values of a string dictionary as byte strings; a null value has no bytes.\<close>

definition dictionary_string_key_for_value :: "string list \<Rightarrow> string \<Rightarrow> int option" where
  "dictionary_string_key_for_value dictionary target =
     Option.bind (position (\<lambda>v. v = target) dictionary) (\<lambda>index. if index < 2 ^ 31 then Some (int index) else None)"

definition flag_target :: "string list \<Rightarrow> nat option list \<Rightarrow> nat \<times> string \<Rightarrow> nat option list" where
  "flag_target dictionary flags entry =
     (case entry of (target_index, target) \<Rightarrow>
        (case dictionary_string_key_for_value dictionary target of
           None \<Rightarrow> flags
         | Some key \<Rightarrow>
             (case usize_try_from key of None \<Rightarrow> flags | Some key \<Rightarrow> flags[key := Some target_index])))"

definition dictionary_match_flags :: "string list \<Rightarrow> string list \<Rightarrow> nat option list" where
  "dictionary_match_flags dictionary targets =
     foldl (flag_target dictionary) (replicate (length dictionary) None) (enumerate 0 targets)"

definition dictionary_match_index :: "int list \<Rightarrow> nat option list \<Rightarrow> nat \<Rightarrow> nat option" where
  "dictionary_match_index keys match_flags row =
     Option.bind (vec_get keys row) (\<lambda>key. Option.bind (usize_try_from key) (\<lambda>key. Option.bind (vec_get match_flags key) id))"

definition dictionary_row_matches :: "int list \<Rightarrow> nat option list \<Rightarrow> nat \<Rightarrow> bool" where
  "dictionary_row_matches keys match_flags row \<longleftrightarrow> dictionary_match_index keys match_flags row \<noteq> None"

text \<open>Storing a key: \<open>usize::try_from(key)\<close> and \<open>store_present\<close>.\<close>

definition mark_key :: "dense_atomic_u8 \<Rightarrow> int \<Rightarrow> dense_atomic_u8" where
  "mark_key m key = (case usize_try_from key of None \<Rightarrow> m | Some index \<Rightarrow> store_present index m)"

text \<open>
  The loops over rows: the fast one over null-free keys, the other asking the view for nulls and values.  Whether
  a row matches, and the loops, are \<open>None\<close> where an index is out of bounds.
\<close>

fun mark_fast :: "(nat \<Rightarrow> bool option) \<Rightarrow> (nat \<times> int) list \<Rightarrow> dense_atomic_u8 \<Rightarrow> dense_atomic_u8 option" where
  "mark_fast matches [] m = Some m"
| "mark_fast matches ((row, key) # rest) m =
     Option.bind (matches row) (\<lambda>matched. mark_fast matches rest (if matched then mark_key m key else m))"

fun mark_rows :: "(nat \<Rightarrow> bool option) \<Rightarrow> vector_view \<Rightarrow> nat list \<Rightarrow> dense_atomic_u8 \<Rightarrow> dense_atomic_u8 option" where
  "mark_rows matches keys [] m = Some m"
| "mark_rows matches keys (row # rows) m =
     Option.bind (view_is_null keys row) (\<lambda>null.
       if null then mark_rows matches keys rows m
       else Option.bind (matches row) (\<lambda>matched.
              if \<not> matched then mark_rows matches keys rows m
              else Option.bind (i64_value keys row) (\<lambda>key. mark_rows matches keys rows (mark_key m key))))"

text \<open>A dictionary column is the buffer of its keys, which rows are valid, and its values.\<close>

definition store_i64_keys_matching_dictionary_target ::
    "vector_view \<Rightarrow> int list \<Rightarrow> bool list \<Rightarrow> string list \<Rightarrow> string \<Rightarrow> dense_atomic_u8 \<Rightarrow> dense_atomic_u8 option" where
  "store_i64_keys_matching_dictionary_target keys dictionary_keys valid dictionary target m =
     (let match_flags = dictionary_match_flags dictionary [target];
          slow = mark_rows (\<lambda>row. map_option (\<lambda>v. v \<and> dictionary_row_matches dictionary_keys match_flags row)
            (vec_get valid row)) keys [0..<view_len keys] m
      in if list_all id valid
         then case values_if_null_free keys of
                Some key_values \<Rightarrow>
                  mark_fast (\<lambda>row. Some (dictionary_row_matches dictionary_keys match_flags row)) (enumerate 0 key_values) m
              | None \<Rightarrow> slow
         else slow)"

definition store_i64_keys_matching_utf8_target ::
    "vector_view \<Rightarrow> string option list \<Rightarrow> string \<Rightarrow> dense_atomic_u8 \<Rightarrow> dense_atomic_u8 option" where
  "store_i64_keys_matching_utf8_target keys strings target m =
     (let matches = (\<lambda>row. map_option (\<lambda>s. s = Some target) (vec_get strings row));
          slow = mark_rows matches keys [0..<view_len keys] m
      in if None \<notin> set strings
         then case values_if_null_free keys of
                Some key_values \<Rightarrow> mark_fast matches (enumerate 0 key_values) m
              | None \<Rightarrow> slow
         else slow)"

subsection \<open>Selections\<close>

record selection_runs_builder =
  selected_rows :: nat

definition push_run ::
    "selection_runs_builder \<Rightarrow> (nat \<times> nat) list \<Rightarrow> nat \<Rightarrow> nat \<Rightarrow> selection_runs_builder \<times> (nat \<times> nat) list" where
  "push_run b runs start len =
     (if len = 0 then (b, runs)
      else let b = b\<lparr>selected_rows := u64_sat (selected_rows b + len)\<rparr>
           in case runs of
                [] \<Rightarrow> (b, runs @ [(start, len)])
              | _ \<Rightarrow>
                  (case last runs of (previous_start, previous_len) \<Rightarrow>
                     if u64_sat (previous_start + previous_len) = start
                     then (b, butlast runs @ [(previous_start, u64_sat (previous_len + len))])
                     else (b, runs @ [(start, len)])))"

subsection \<open>What a view holds\<close>

text \<open>The values of a column with definition levels: one per row, or one per row that is not null.\<close>

fun spread_values :: "int list \<Rightarrow> int list \<Rightarrow> int option list" where
  "spread_values vs [] = []"
| "spread_values vs (level # levels) =
     (if level = 0 then None # spread_values vs levels
      else case vs of v # vs \<Rightarrow> Some v # spread_values vs levels | [] \<Rightarrow> None # spread_values [] levels)"

fun vector_ints :: "(8 word list \<Rightarrow> nat \<Rightarrow> int option) \<Rightarrow> vector_view \<Rightarrow> int option list" where
  "vector_ints rd (ViewArrow vs) = vs"
| "vector_ints rd (ViewRaw vs) = map Some vs"
| "vector_ints rd (ViewRawBytes data n) = map (rd data) [0..<n]"
| "vector_ints rd (ViewRawNullable vs levels) =
     (if length vs = length levels then map2 (\<lambda>v level. if level = 0 then None else Some v) vs levels
      else spread_values vs levels)"

fun vector_ok :: "nat \<Rightarrow> vector_view \<Rightarrow> bool" where
  "vector_ok width (ViewArrow vs) = True"
| "vector_ok width (ViewRaw vs) = True"
| "vector_ok width (ViewRawBytes data n) = (width * n \<le> length data)"
| "vector_ok width (ViewRawNullable vs levels) =
     (length vs = length levels \<or> length vs = length (filter (\<lambda>level. level \<noteq> 0) levels))"

lemma length_spread_values [simp]: "length (spread_values vs levels) = length levels"
  by (induction vs levels rule: spread_values.induct) (auto split: list.splits)

lemma spread_values_nth:
  assumes "length vs = length (filter (\<lambda>level. level \<noteq> 0) levels)" "row < length levels"
  shows "spread_values vs levels ! row =
    (if levels ! row = 0 then None else vec_get vs (nullable_value_index levels row))"
  using assms
proof (induction vs levels arbitrary: row rule: spread_values.induct)
  case (2 vs level levels)
  show ?case
  proof (cases row)
    case 0
    then show ?thesis using 2 by (cases vs) (auto simp: nullable_value_index_def vec_get_def)
  next
    case (Suc r)
    then show ?thesis
      using 2 by (cases vs) (auto simp: nullable_value_index_def vec_get_def split: if_splits)
  qed
qed simp

lemma nullable_value_index_less:
  assumes "row < length levels" "levels ! row \<noteq> 0"
  shows "nullable_value_index levels row < length (filter (\<lambda>level. level \<noteq> 0) levels)"
proof -
  have "levels = take row levels @ levels ! row # drop (Suc row) levels" using assms(1) by (rule id_take_nth_drop)
  then have "filter (\<lambda>level. level \<noteq> 0) levels = filter (\<lambda>level. level \<noteq> 0) (take row levels @ levels ! row # drop (Suc row) levels)"
    by simp
  then show ?thesis using assms(2) by (simp add: nullable_value_index_def)
qed

text \<open>What a reader of little-endian integers promises, and what a view over it then gives.\<close>

locale le_reader =
  fixes rd :: "8 word list \<Rightarrow> nat \<Rightarrow> int option"
    and width :: nat
  assumes reads: "width * Suc row \<le> length data \<Longrightarrow> rd data row \<noteq> None"
begin

lemma reads_row: "width * n \<le> length data \<Longrightarrow> row < n \<Longrightarrow> rd data row \<noteq> None"
  by (meson reads Suc_leI mult_le_mono2 order_trans)

lemma length_ints: "length (vector_ints rd v) = view_len v"
  by (cases v) auto

lemma view_reads:
  assumes "vector_ok width v" "row < view_len v"
  shows "view_is_null v row = Some (vector_ints rd v ! row = None)"
    and "vector_ints rd v ! row \<noteq> None \<Longrightarrow> view_value rd v row = vector_ints rd v ! row"
proof -
  show "view_is_null v row = Some (vector_ints rd v ! row = None)"
  proof (cases v)
    case (ViewRawNullable vs levels)
    then show ?thesis
      using assms nullable_value_index_less [of row levels] by (auto simp: vec_get_def spread_values_nth)
  qed (use assms reads_row in \<open>auto simp: vec_get_def\<close>)
  show "view_value rd v row = vector_ints rd v ! row" if "vector_ints rd v ! row \<noteq> None"
  proof (cases v)
    case (ViewRawNullable vs levels)
    then show ?thesis using assms that by (auto simp: vec_get_def spread_values_nth split: if_splits)
  qed (use assms that in \<open>auto simp: vec_get_def\<close>)
qed

lemma null_free: "values_if_null_free v = Some raw \<Longrightarrow> vector_ints rd v = map Some raw"
proof (cases v)
  case (ViewArrow vs)
  have "None \<notin> set vs \<Longrightarrow> map (Some \<circ> the) vs = vs" by (induction vs) auto
  then show "values_if_null_free v = Some raw \<Longrightarrow> vector_ints rd v = map Some raw"
    using ViewArrow by (auto split: if_splits)
qed (auto simp: list_all_iff list_eq_iff_nth_eq set_conv_nth split: if_splits)

lemma bytes:
  assumes "raw_bytes v = Some (data, n)" "vector_ok width v"
  shows "view_len v = n" "vector_ints rd v = map (rd data) [0..<n]" "row < n \<Longrightarrow> rd data row \<noteq> None"
  using assms reads_row by (cases v; auto)+

end

interpretation i64le: le_reader read_i64_le_unaligned 8
  by unfold_locales (simp add: read_i64_le_unaligned_def slice_def Let_def)

interpretation i32le: le_reader read_i32_le_unaligned 4
  by unfold_locales (simp add: read_i32_le_unaligned_def slice_def Let_def)

subsection \<open>Keys of matching rows\<close>

text \<open>The effect of one row, and of all rows on a marker.\<close>

definition mark_row :: "int option list \<Rightarrow> (nat \<Rightarrow> bool) \<Rightarrow> nat \<Rightarrow> dense_atomic_u8 \<Rightarrow> dense_atomic_u8" where
  "mark_row ints P row m = (case ints ! row of Some key \<Rightarrow> if P row then mark_key m key else m | None \<Rightarrow> m)"

lemma enumerate_upt: "enumerate 0 xs = map (\<lambda>i. (i, xs ! i)) [0..<length xs]"
  by (rule nth_equalityI) (simp_all add: nth_enumerate_eq)

lemma mark_fast_rows:
  assumes "\<And>row. row \<in> set rows \<Longrightarrow> row < length raw \<and> matches row = Some (P row)"
  shows "mark_fast matches (map (\<lambda>i. (i, raw ! i)) rows) m = Some (fold (mark_row (map Some raw) P) rows m)"
  using assms by (induction rows arbitrary: m) (simp_all add: mark_row_def)

lemma mark_rows_rows:
  assumes "vector_ok 8 keys"
    and "\<And>row. row \<in> set rows \<Longrightarrow> row < view_len keys \<and> matches row = Some (P row)"
  shows "mark_rows matches keys rows m = Some (fold (mark_row (vector_ints read_i64_le_unaligned keys) P) rows m)"
  using assms(2)
proof (induction rows arbitrary: m)
  case (Cons row rows)
  note v = i64le.view_reads [OF assms(1), of row]
  show ?case
    using Cons v by (cases "vector_ints read_i64_le_unaligned keys ! row") (auto simp: i64_value_def mark_row_def)
qed simp

lemma markers_mark_row:
  "markers (mark_row ints P row m) =
     map (\<lambda>i. if ints ! row = Some (int i) \<and> P row then 1 else markers m ! i) [0..<length (markers m)]"
proof -
  have len: "length (markers (mark_row ints P row m)) = length (markers m)"
    by (simp add: mark_row_def mark_key_def store_present_def split: option.splits)
  show ?thesis
    by (rule nth_equalityI) (auto simp: len, auto simp: mark_row_def mark_key_def store_present_def usize_try_from_def
      nth_list_update split: option.splits)
qed

lemma markers_mark_all:
  "markers (fold (mark_row ints P) rows m) =
     map (\<lambda>i. if \<exists>row \<in> set rows. ints ! row = Some (int i) \<and> P row then 1 else markers m ! i) [0..<length (markers m)]"
  by (induction rows arbitrary: m) (auto simp: markers_mark_row map_nth intro!: nth_equalityI)

lemma store_by_rows:
  assumes "vector_ok 8 keys" "n = view_len keys" "\<And>row. row < n \<Longrightarrow> matches row = Some (P row)"
    "\<And>row. row < n \<Longrightarrow> no_nulls \<Longrightarrow> matches' row = Some (P row)"
  shows "(if no_nulls then case values_if_null_free keys of
        Some key_values \<Rightarrow> mark_fast matches' (enumerate 0 key_values) m
      | None \<Rightarrow> mark_rows matches keys [0..<n] m
     else mark_rows matches keys [0..<n] m) = Some (fold (mark_row (vector_ints read_i64_le_unaligned keys) P) [0..<n] m)"
proof -
  have slow: "mark_rows matches keys [0..<n] m = Some (fold (mark_row (vector_ints read_i64_le_unaligned keys) P) [0..<n] m)"
    using assms by (intro mark_rows_rows) auto
  have "mark_fast matches' (enumerate 0 raw) m = Some (fold (mark_row (vector_ints read_i64_le_unaligned keys) P) [0..<n] m)"
    if "values_if_null_free keys = Some raw" no_nulls for raw
  proof -
    have raw: "vector_ints read_i64_le_unaligned keys = map Some raw" using that(1) by (rule i64le.null_free)
    then have "length raw = n" using i64le.length_ints [of keys] assms(2) by simp
    then show ?thesis unfolding enumerate_upt raw using assms(4) that(2) by (subst mark_fast_rows [where P = P]) auto
  qed
  then show ?thesis using slow by (simp split: option.split)
qed

lemma position_eq_Some: "position p xs = Some i \<longleftrightarrow> i < length xs \<and> p (xs ! i) \<and> (\<forall>j < i. \<not> p (xs ! j))"
proof (induction xs arbitrary: i)
  case (Cons x xs)
  show ?case using Cons by (cases i) (auto simp: All_less_Suc2)
qed simp

lemma dictionary_row_matches_iff:
  assumes "distinct dictionary" "length dictionary \<le> 2 ^ 31"
    and "row < length keys" "0 \<le> keys ! row" "nat (keys ! row) < length dictionary"
  shows "dictionary_row_matches keys (dictionary_match_flags dictionary [target]) row \<longleftrightarrow>
    dictionary ! nat (keys ! row) = target"
proof (cases "position (\<lambda>v. v = target) dictionary")
  case None
  then have "dictionary ! nat (keys ! row) \<noteq> target" using assms(5) by (auto simp: position_eq_None)
  then show ?thesis
    using assms None by (simp add: dictionary_row_matches_def dictionary_match_index_def dictionary_match_flags_def
        flag_target_def dictionary_string_key_for_value_def vec_get_def usize_try_from_def)
next
  case (Some p)
  then have p: "p < length dictionary" "dictionary ! p = target" by (simp_all add: position_eq_Some)
  have "dictionary ! nat (keys ! row) = target \<longleftrightarrow> nat (keys ! row) = p"
    using p assms(1,5) nth_eq_iff_index_eq by blast
  then show ?thesis
    using assms p Some by (simp add: dictionary_row_matches_def dictionary_match_index_def dictionary_match_flags_def
        flag_target_def dictionary_string_key_for_value_def vec_get_def usize_try_from_def nth_list_update)
qed

text \<open>The strings of a dictionary column.\<close>

definition decode_rows :: "int list \<Rightarrow> bool list \<Rightarrow> string list \<Rightarrow> string option list" where
  "decode_rows dictionary_keys valid dictionary =
     map2 (\<lambda>key v. if v then Some (dictionary ! nat key) else None) dictionary_keys valid"

text \<open>
  C27: the keys of the rows with a string.  On a dictionary column without duplicate values and on its decoded
  strings, through the loop for null-free columns and through the one that checks each row, exactly the markers
  of the keys whose row is valid and has the target string are set, and no index is out of bounds.
\<close>

theorem store_keys_matching_target:
  assumes "vector_ok 8 keys" "length dictionary_keys = view_len keys" "length valid = view_len keys"
    and "distinct dictionary" "length dictionary \<le> 2 ^ 31"
    and "\<forall>key \<in> set dictionary_keys. 0 \<le> key \<and> nat key < length dictionary"
  defines "strings \<equiv> decode_rows dictionary_keys valid dictionary"
    and "ints \<equiv> vector_ints read_i64_le_unaligned keys"
  shows "\<exists>m'. store_i64_keys_matching_dictionary_target keys dictionary_keys valid dictionary target m = Some m' \<and>
    store_i64_keys_matching_utf8_target keys strings target m = Some m' \<and>
    markers m' = map (\<lambda>i. if \<exists>row < view_len keys. ints ! row = Some (int i) \<and> strings ! row = Some target then 1
      else markers m ! i) [0..<length (markers m)]"
proof -
  let ?n = "view_len keys" and ?P = "\<lambda>row. strings ! row = Some target"
  have len: "length strings = ?n" using assms(2,3) by (simp add: strings_def decode_rows_def)
  have str: "strings ! row = (if valid ! row then Some (dictionary ! nat (dictionary_keys ! row)) else None)" if "row < ?n" for row
    using that assms(2,3) by (simp add: strings_def decode_rows_def)
  have m: "dictionary_row_matches dictionary_keys (dictionary_match_flags dictionary [target]) row \<longleftrightarrow>
      dictionary ! nat (dictionary_keys ! row) = target" if "row < ?n" for row
    using that assms(2,6) by (intro dictionary_row_matches_iff assms(4,5)) auto
  have dict: "store_i64_keys_matching_dictionary_target keys dictionary_keys valid dictionary target m =
      Some (fold (mark_row ints ?P) [0..<?n] m)"
    unfolding store_i64_keys_matching_dictionary_target_def Let_def ints_def
    using m str assms(3) by (intro store_by_rows assms(1) refl) (auto simp: vec_get_def list_all_length)
  have utf8: "store_i64_keys_matching_utf8_target keys strings target m = Some (fold (mark_row ints ?P) [0..<?n] m)"
    unfolding store_i64_keys_matching_utf8_target_def Let_def ints_def
    using len by (intro store_by_rows assms(1) refl) (auto simp: vec_get_def)
  show ?thesis unfolding dict utf8 by (simp add: markers_mark_all Bex_def)
qed

theorem store_keys_matching_target_witness:
  "\<exists>m'. store_i64_keys_matching_dictionary_target (ViewRawNullable [7, 2] [1, 0, 1]) [1, 0, 1] [True, True, True]
      [''a'', ''b''] ''b'' (atomic_zeroed 8) = Some m' \<and> markers m' = [0, 0, 1, 0, 0, 0, 0, 1]"
proof -
  have "\<exists>m'. store_i64_keys_matching_dictionary_target (ViewRawNullable [7, 2] [1, 0, 1]) [1, 0, 1] [True, True, True]
      [''a'', ''b''] ''b'' (atomic_zeroed 8) = Some m' \<and>
    store_i64_keys_matching_utf8_target (ViewRawNullable [7, 2] [1, 0, 1])
      (decode_rows [1, 0, 1] [True, True, True] [''a'', ''b'']) ''b'' (atomic_zeroed 8) = Some m' \<and>
    markers m' = map (\<lambda>i. if \<exists>row < view_len (ViewRawNullable [7, 2] [1, 0, 1]).
        vector_ints read_i64_le_unaligned (ViewRawNullable [7, 2] [1, 0, 1]) ! row = Some (int i) \<and>
        decode_rows [1, 0, 1] [True, True, True] [''a'', ''b''] ! row = Some ''b'' then 1
      else markers (atomic_zeroed 8) ! i) [0..<length (markers (atomic_zeroed 8))]"
    by (rule store_keys_matching_target) simp_all
  then show ?thesis
    by (elim ex_forward) (simp add: decode_rows_def atomic_zeroed_def upt_rec All_less_Suc2 Ex_less_Suc2 numeral_eq_Suc)
qed

text \<open>
  A dictionary that lists a value twice loses rows: only the first key of the value is looked for, so the row
  with the second key is not marked, although its string is the target.
\<close>

theorem duplicate_dictionary_value_loses_rows:
  "map_option markers (store_i64_keys_matching_dictionary_target (ViewRaw [0, 1]) [0, 1] [True, True]
      [''a'', ''a''] ''a'' (atomic_zeroed 2)) = Some [1, 0] \<and>
   map_option markers (store_i64_keys_matching_utf8_target (ViewRaw [0, 1])
      (decode_rows [0, 1] [True, True] [''a'', ''a'']) ''a'' (atomic_zeroed 2)) = Some [1, 1]"
  by (simp add: store_i64_keys_matching_dictionary_target_def store_i64_keys_matching_utf8_target_def Let_def
      dictionary_match_flags_def flag_target_def dictionary_string_key_for_value_def dictionary_row_matches_def
      dictionary_match_index_def decode_rows_def vec_get_def usize_try_from_def mark_key_def store_present_def
      atomic_zeroed_def numeral_2_eq_2)

subsection \<open>Runs of rows\<close>

definition run_rows :: "(nat \<times> nat) list \<Rightarrow> nat list" where
  "run_rows runs = concat (map (\<lambda>(start, len). [start..<start + len]) runs)"

definition runs_end :: "(nat \<times> nat) list \<Rightarrow> nat" where
  "runs_end runs = (if runs = [] then 0 else fst (last runs) + snd (last runs))"

text \<open>Runs are nonempty, in order, with a gap between any two, and are counted.\<close>

definition selection_ok :: "selection_runs_builder \<Rightarrow> (nat \<times> nat) list \<Rightarrow> bool" where
  "selection_ok b runs \<longleftrightarrow>
     list_all (\<lambda>(start, len). 0 < len) runs \<and>
     sorted_wrt (\<lambda>(s, l) (s', l'). s + l < s') runs \<and>
     selected_rows b = length (run_rows runs)"

lemma run_rows_append [simp]: "run_rows (a @ b) = run_rows a @ run_rows b"
  by (simp add: run_rows_def)

lemma run_rows_single [simp]: "run_rows [(s, l)] = [s..<s + l]"
  by (simp add: run_rows_def)

lemma run_rows_count:
  "sorted_wrt (\<lambda>(s, l) (s', l'). s + l < s') runs \<Longrightarrow> length (run_rows runs) \<le> runs_end runs"
proof (induction runs rule: rev_induct)
  case (snoc run runs)
  obtain s l where run: "run = (s, l)" by fastforce
  have "runs_end runs \<le> s"
    using snoc.prems run by (cases runs rule: rev_cases) (auto simp: runs_end_def sorted_wrt_append)
  then show ?case using snoc by (simp add: run runs_end_def sorted_wrt_append)
qed (simp add: run_rows_def)

lemma push_run_snoc:
  assumes "len \<noteq> 0" "u64_sat (s + l) = s + l" "u64_sat (selected_rows b + len) = selected_rows b + len"
  shows "push_run b (before @ [(s, l)]) start len = (b\<lparr>selected_rows := selected_rows b + len\<rparr>,
    if s + l = start then before @ [(s, u64_sat (l + len))] else before @ [(s, l), (start, len)])"
  using assms by (cases before) (simp_all add: push_run_def Let_def)

text \<open>
  C28: the selection of rows.  Pushing runs in order appends exactly their rows and keeps the representation
  canonical: adjacent runs are merged, so runs are nonempty, sorted and apart, and the count is their number.
\<close>

theorem push_run_appends_rows:
  assumes "selection_ok b runs" "runs_end runs \<le> start" "start + len \<le> u64_max"
  shows "case push_run b runs start len of (b', runs') \<Rightarrow>
    selection_ok b' runs' \<and> run_rows runs' = run_rows runs @ [start..<start + len]"
proof (cases "len = 0")
  case False
  have count: "u64_sat (length (run_rows runs) + len) = length (run_rows runs) + len"
    using assms run_rows_count [of runs] by (auto simp: selection_ok_def u64_sat_def)
  show ?thesis
  proof (cases runs rule: rev_cases)
    case Nil
    then show ?thesis using False assms count by (simp add: push_run_def selection_ok_def run_rows_def)
  next
    case (snoc before run)
    obtain s l where run: "run = (s, l)" by fastforce
    have sat: "u64_sat (s + l) = s + l" "s + l = start \<Longrightarrow> u64_sat (l + len) = l + len"
      using assms snoc run by (auto simp: runs_end_def u64_sat_def)
    have ok: "selected_rows b = length (run_rows runs)" using assms(1) by (simp add: selection_ok_def)
    note push = push_run_snoc [OF False sat(1), of b before start, folded run, folded snoc, unfolded ok, OF count]
    show ?thesis
    proof (cases "s + l = start")
      case True
      have "[s..<s + (l + len)] = [s..<s + l] @ [start..<start + len]"
        using True upt_add_eq_append [of s "s + l" len] by (metis add.assoc le_add1)
      then show ?thesis using push sat(2) assms(1) snoc run True by (fastforce simp: selection_ok_def sorted_wrt_append)
    next
      case False
      then have "s + l < start" using assms(2) snoc run by (simp add: runs_end_def)
      then show ?thesis
        using push False assms(1) snoc run \<open>len \<noteq> 0\<close> by (fastforce simp: selection_ok_def sorted_wrt_append run_rows_def)
    qed
  qed
qed (use assms in \<open>simp add: push_run_def\<close>)

theorem push_run_appends_rows_witness:
  "push_run \<lparr>selected_rows = 2\<rparr> [(0, 2)] 2 3 = (\<lparr>selected_rows = 5\<rparr>, [(0, 5)]) \<and>
   run_rows [(0, 5)] = run_rows [(0, 2)] @ [2, 3, 4]"
  using push_run_appends_rows [of "\<lparr>selected_rows = 2\<rparr>" "[(0, 2)]" 2 3]
  by (simp add: push_run_def selection_ok_def run_rows_def runs_end_def u64_sat_def upt_rec)

end
