(* ===== verification/Like_Matching.thy ===== *)
theory Like_Matching
  imports Logical_Expr
begin

text \<open>
  \<open>LIKE\<close> in \<open>execution/physical.rs\<close>: the tokens of a pattern, the dynamic program that matches a value against
  them, the shapes of patterns that are matched by searching for their segments, and the evaluation on a column
  of optional strings.  A string is a list of characters; the byte offsets of the fast path are then positions,
  and \<open>to_lowercase\<close> is the one on ASCII text.
\<close>

subsection \<open>Tokens and the dynamic program\<close>

datatype like_token = AnyMany | AnyOne | LikeLiteral char

definition is_any_many :: "like_token list \<Rightarrow> bool" where
  "is_any_many tokens \<longleftrightarrow> tokens \<noteq> [] \<and> last tokens = AnyMany"

fun like_tokens_loop :: "string \<Rightarrow> char option \<Rightarrow> string \<Rightarrow> like_token list \<Rightarrow> dodam_error + like_token list" where
  "like_tokens_loop pattern escape [] tokens = Inr tokens"
| "like_tokens_loop pattern escape (ch # chars) tokens =
     (if Some ch = escape
      then case chars of
             [] \<Rightarrow> Inl (InvalidFilter (''LIKE pattern ends with escape character: '' @ pattern))
           | escaped # chars \<Rightarrow> like_tokens_loop pattern escape chars (tokens @ [LikeLiteral escaped])
      else if ch = CHR ''%''
      then like_tokens_loop pattern escape chars (if is_any_many tokens then tokens else tokens @ [AnyMany])
      else if ch = CHR ''_'' then like_tokens_loop pattern escape chars (tokens @ [AnyOne])
      else like_tokens_loop pattern escape chars (tokens @ [LikeLiteral ch]))"

definition like_pattern_tokens :: "string \<Rightarrow> char option \<Rightarrow> dodam_error + like_token list" where
  "like_pattern_tokens pattern escape = like_tokens_loop pattern escape pattern []"

text \<open>The loop of \<open>AnyMany\<close> over the flags, with \<open>reachable\<close>.\<close>

fun spread :: "bool \<Rightarrow> bool list \<Rightarrow> bool list" where
  "spread reachable [] = []"
| "spread reachable (m # ms) = (let reachable = reachable \<or> m in reachable # spread reachable ms)"

fun like_step :: "string \<Rightarrow> like_token \<Rightarrow> bool list \<Rightarrow> bool list" where
  "like_step value0 AnyMany matched = spread False matched"
| "like_step value0 AnyOne matched = False # map (\<lambda>i. matched ! i) [0..<length value0]"
| "like_step value0 (LikeLiteral expected) matched =
     False # map (\<lambda>i. matched ! i \<and> value0 ! i = expected) [0..<length value0]"

definition like_matches :: "string \<Rightarrow> like_token list \<Rightarrow> bool" where
  "like_matches value0 pattern =
     fold (like_step value0) pattern ((replicate (length value0 + 1) False)[0 := True]) ! length value0"

subsection \<open>The fast path\<close>

datatype fast_like_pattern =
    FastAll
  | FastExact string
  | FastPrefix string
  | FastSuffix string
  | FastContains string
  | FastOrdered bool bool "string list"

definition starts_with :: "string \<Rightarrow> string \<Rightarrow> bool" where
  "starts_with value0 segment \<longleftrightarrow> take (length segment) value0 = segment"

definition ends_with :: "string \<Rightarrow> string \<Rightarrow> bool" where
  "ends_with value0 segment \<longleftrightarrow>
     length segment \<le> length value0 \<and> drop (length value0 - length segment) value0 = segment"

text \<open>The search of \<open>memchr\<close>, \<open>Finder::find\<close>, is the parameter \<open>finder\<close>, from a segment and a string to a position.\<close>

fun ordered_loop :: "(string \<Rightarrow> string \<Rightarrow> nat option) \<Rightarrow> string \<Rightarrow> bool \<Rightarrow> bool \<Rightarrow> bool \<Rightarrow> string list \<Rightarrow> nat \<Rightarrow> bool" where
  "ordered_loop finder value0 starts_with_any ends_with_any is_first [] offset = True"
| "ordered_loop finder value0 starts_with_any ends_with_any is_first (segment # segments) offset =
     (if is_first \<and> \<not> starts_with_any
      then ordered_loop finder value0 starts_with_any ends_with_any False segments (length segment)
      else if segments = [] \<and> \<not> ends_with_any
      then if length value0 - length segment < offset then False
           else ordered_loop finder value0 starts_with_any ends_with_any False segments offset
      else case finder segment (drop offset value0) of
             None \<Rightarrow> False
           | Some relative \<Rightarrow>
               ordered_loop finder value0 starts_with_any ends_with_any False segments (offset + relative + length segment))"

fun fast_matches :: "(string \<Rightarrow> string \<Rightarrow> nat option) \<Rightarrow> fast_like_pattern \<Rightarrow> string \<Rightarrow> bool" where
  "fast_matches finder FastAll value0 = True"
| "fast_matches finder (FastExact segment) value0 = (value0 = segment)"
| "fast_matches finder (FastPrefix segment) value0 = starts_with value0 segment"
| "fast_matches finder (FastSuffix segment) value0 = ends_with value0 segment"
| "fast_matches finder (FastContains segment) value0 = (finder segment value0 \<noteq> None)"
| "fast_matches finder (FastOrdered starts_with_any ends_with_any segments) value0 =
     (if \<not> starts_with_any \<and> \<not> starts_with value0 (hd segments) then False
      else if \<not> ends_with_any \<and> \<not> ends_with value0 (last segments) then False
      else ordered_loop finder value0 starts_with_any ends_with_any True segments 0)"

definition fast_like_pattern_of :: "string \<Rightarrow> char option \<Rightarrow> fast_like_pattern option" where
  "fast_like_pattern_of pattern escape =
     (if escape \<noteq> None \<or> CHR ''_'' \<in> set pattern then None
      else let starts_with_any = (pattern \<noteq> [] \<and> hd pattern = CHR ''%'');
               ends_with_any = (pattern \<noteq> [] \<and> last pattern = CHR ''%'');
               segments = filter (\<lambda>segment. segment \<noteq> []) (split_char CHR ''%'' pattern)
           in case segments of
                [] \<Rightarrow> Some FastAll
              | [segment] \<Rightarrow>
                  Some (if \<not> starts_with_any \<and> \<not> ends_with_any then FastExact segment
                    else if \<not> starts_with_any \<and> ends_with_any then FastPrefix segment
                    else if starts_with_any \<and> \<not> ends_with_any then FastSuffix segment
                    else FastContains segment)
              | _ \<Rightarrow> Some (FastOrdered starts_with_any ends_with_any segments))"

subsection \<open>Columns\<close>

definition like_row :: "(string \<Rightarrow> bool) \<Rightarrow> bool \<Rightarrow> bool \<Rightarrow> string option \<Rightarrow> bool option" where
  "like_row matches negated case_insensitive value0 =
     map_option (\<lambda>v. let matched = matches (if case_insensitive then to_ascii_lowercase v else v)
       in if negated then \<not> matched else matched) value0"

definition evaluate_like_values ::
    "(string \<Rightarrow> string \<Rightarrow> nat option) \<Rightarrow> string option list \<Rightarrow> string \<Rightarrow> fast_like_pattern option \<Rightarrow> bool \<Rightarrow> char option \<Rightarrow> bool \<Rightarrow>
       dodam_error + bool option list" where
  "evaluate_like_values finder values pattern fast_pattern negated escape case_insensitive =
     (case fast_pattern of
        Some fast \<Rightarrow> Inr (map (like_row (fast_matches finder fast) negated case_insensitive) values)
      | None \<Rightarrow>
          try_bind (like_pattern_tokens pattern escape) (\<lambda>tokens.
            Inr (map (like_row (\<lambda>v. like_matches v tokens) negated case_insensitive) values)))"

text \<open>\<open>evaluate_like\<close> on the values of a string column, plain or read through its dictionary.\<close>

definition evaluate_like ::
    "(string \<Rightarrow> string \<Rightarrow> nat option) \<Rightarrow> string option list \<Rightarrow> string \<Rightarrow> bool \<Rightarrow> char option \<Rightarrow> bool \<Rightarrow> dodam_error + bool option list" where
  "evaluate_like finder values pattern negated escape case_insensitive =
     (let pattern = (if case_insensitive then to_ascii_lowercase pattern else pattern)
      in evaluate_like_values finder values pattern (fast_like_pattern_of pattern escape) negated escape case_insensitive)"

text \<open>The first position of a segment, which is what \<open>Finder::find\<close> is documented to return.\<close>

fun find_segment :: "string \<Rightarrow> string \<Rightarrow> nat option" where
  "find_segment segment [] = (if segment = [] then Some 0 else None)"
| "find_segment segment (c # cs) =
     (if starts_with (c # cs) segment then Some 0 else map_option Suc (find_segment segment cs))"

definition finder_ok :: "(string \<Rightarrow> string \<Rightarrow> nat option) \<Rightarrow> bool" where
  "finder_ok finder \<longleftrightarrow> (\<forall>segment value0. finder segment value0 = find_segment segment value0)"

lemma finder_okD: "finder_ok finder \<Longrightarrow> finder = find_segment"
  by (simp add: finder_ok_def fun_eq_iff)

subsection \<open>What a pattern means\<close>

inductive like :: "like_token list \<Rightarrow> string \<Rightarrow> bool" where
  Nil: "like [] []"
| One: "like ts s \<Longrightarrow> like (AnyOne # ts) (c # s)"
| Lit: "like ts s \<Longrightarrow> like (LikeLiteral c # ts) (c # s)"
| Skip: "like ts s \<Longrightarrow> like (AnyMany # ts) s"
| Take: "like (AnyMany # ts) s \<Longrightarrow> like (AnyMany # ts) (c # s)"

inductive_cases like_NilE: "like [] s"
inductive_cases like_OneE: "like (AnyOne # ts) s"
inductive_cases like_LitE: "like (LikeLiteral c # ts) s"

lemma like_Nil_iff [simp]: "like [] s \<longleftrightarrow> s = []"
  by (auto elim: like_NilE intro: like.Nil)

lemma like_One_iff: "like (AnyOne # ts) s \<longleftrightarrow> (\<exists>c s'. s = c # s' \<and> like ts s')"
  by (auto elim: like_OneE intro: like.One)

lemma like_Lit_iff: "like (LikeLiteral c # ts) s \<longleftrightarrow> (\<exists>s'. s = c # s' \<and> like ts s')"
  by (auto elim: like_LitE intro: like.Lit)

lemma like_Many_iff: "like (AnyMany # ts) s \<longleftrightarrow> (\<exists>u w. s = u @ w \<and> like ts w)"
proof
  have "p = AnyMany # ts \<Longrightarrow> \<exists>u w. s = u @ w \<and> like ts w" if "like p s" for p
    using that
  proof (induction rule: like.induct)
    case (Skip ts' s)
    then show ?case by (intro exI [of _ "[]"] exI [of _ s]) simp
  next
    case (Take ts' s c)
    then obtain u w where "s = u @ w" "like ts w" by blast
    then show ?case by (intro exI [of _ "c # u"] exI [of _ w]) simp
  qed simp_all
  then show "like (AnyMany # ts) s \<Longrightarrow> \<exists>u w. s = u @ w \<and> like ts w" by blast
next
  have "like ts w \<Longrightarrow> like (AnyMany # ts) (u @ w)" for u w
    by (induction u) (auto intro: like.intros)
  then show "\<exists>u w. s = u @ w \<and> like ts w \<Longrightarrow> like (AnyMany # ts) s" by blast
qed

lemma like_append: "like (a @ b) s \<longleftrightarrow> (\<exists>u w. s = u @ w \<and> like a u \<and> like b w)"
proof (induction a arbitrary: s)
  case (Cons t a)
  show ?case
  proof (cases t)
    case AnyMany
    show ?thesis unfolding AnyMany append_Cons like_Many_iff Cons by (metis append.assoc)
  next
    case AnyOne
    show ?thesis unfolding AnyOne append_Cons like_One_iff Cons by (metis append_Cons)
  next
    case (LikeLiteral c)
    show ?thesis unfolding LikeLiteral append_Cons like_Lit_iff Cons by (metis append_Cons)
  qed
qed simp

subsection \<open>The dynamic program decides the meaning\<close>

lemma length_spread [simp]: "length (spread r ms) = length ms"
  by (induction ms arbitrary: r) (simp_all add: Let_def)

lemma spread_nth: "i < length ms \<Longrightarrow> spread r ms ! i \<longleftrightarrow> r \<or> (\<exists>j \<le> i. ms ! j)"
proof (induction ms arbitrary: r i)
  case (Cons m ms)
  show ?case
  proof (cases i)
    case (Suc k)
    have "(\<exists>j \<le> Suc k. (m # ms) ! j) \<longleftrightarrow> m \<or> (\<exists>j \<le> k. ms ! j)"
      by (metis Suc_le_mono le0 le_Suc_eq not0_implies_Suc nth_Cons_0 nth_Cons_Suc)
    then show ?thesis using Cons Suc by (simp add: Let_def)
  qed (simp add: Let_def)
qed simp

definition tracks :: "string \<Rightarrow> like_token list \<Rightarrow> bool list \<Rightarrow> bool" where
  "tracks v ts matched \<longleftrightarrow> length matched = length v + 1 \<and> (\<forall>i \<le> length v. matched ! i \<longleftrightarrow> like ts (take i v))"

lemma like_step_tracks:
  assumes "tracks v ts matched"
  shows "tracks v (ts @ [t]) (like_step v t matched)"
proof -
  have len: "length matched = length v + 1" and at: "\<And>i. i \<le> length v \<Longrightarrow> matched ! i \<longleftrightarrow> like ts (take i v)"
    using assms by (auto simp: tracks_def)
  have snoc: "take (Suc i) v = take i v @ [v ! i]" if "i < length v" for i using that by (rule take_Suc_conv_app_nth)
  show ?thesis
  proof (cases t)
    case AnyMany
    have "like (ts @ [AnyMany]) (take i v) \<longleftrightarrow> (\<exists>j \<le> i. like ts (take j v))" if "i \<le> length v" for i
    proof -
      have "like (ts @ [AnyMany]) (take i v) \<longleftrightarrow> (\<exists>u w. take i v = u @ w \<and> like ts u)"
        by (auto simp: like_append like_Many_iff)
      also have "\<dots> \<longleftrightarrow> (\<exists>j \<le> i. like ts (take j v))"
      proof
        assume "\<exists>u w. take i v = u @ w \<and> like ts u"
        then obtain u w where u: "take i v = u @ w" "like ts u" by blast
        then have "u = take (length u) v" "length u \<le> i"
          by (metis append_eq_conv_conj append_take_drop_id take_append append.assoc)
            (metis (no_types, lifting) u(1) length_append length_take min.cobounded2 le_trans le_add1)
        then show "\<exists>j \<le> i. like ts (take j v)" using u(2) by metis
      next
        assume "\<exists>j \<le> i. like ts (take j v)"
        then show "\<exists>u w. take i v = u @ w \<and> like ts u" by (metis append_take_drop_id min.absorb1 take_take)
      qed
      finally show ?thesis .
    qed
    then show ?thesis using len at by (auto simp: tracks_def AnyMany spread_nth)
  next
    case AnyOne
    have "like (ts @ [AnyOne]) (take i v) \<longleftrightarrow> (case i of 0 \<Rightarrow> False | Suc k \<Rightarrow> like ts (take k v))" if "i \<le> length v" for i
      using that by (cases i) (auto simp: like_append like_One_iff snoc)
    then show ?thesis using len at by (auto simp: tracks_def AnyOne nth_Cons split: nat.splits)
  next
    case (LikeLiteral c)
    have "like (ts @ [LikeLiteral c]) (take i v) \<longleftrightarrow>
        (case i of 0 \<Rightarrow> False | Suc k \<Rightarrow> like ts (take k v) \<and> v ! k = c)" if "i \<le> length v" for i
      using that by (cases i) (auto simp: like_append like_Lit_iff snoc)
    then show ?thesis using len at by (auto simp: tracks_def LikeLiteral nth_Cons split: nat.splits)
  qed
qed

lemma fold_like_step_tracks:
  "tracks v ts matched \<Longrightarrow> tracks v (ts @ pattern) (fold (like_step v) pattern matched)"
proof (induction pattern arbitrary: ts matched)
  case (Cons t pattern)
  then show ?case using Cons.IH [OF like_step_tracks [OF Cons.prems, of t]] by simp
qed simp

lemma like_matches_iff: "like_matches v pattern \<longleftrightarrow> like pattern v"
proof -
  have "tracks v [] ((replicate (length v + 1) False)[0 := True])"
    by (auto simp: tracks_def nth_list_update nth_Cons split: nat.splits)
  from fold_like_step_tracks [OF this, of pattern] show ?thesis by (simp add: like_matches_def tracks_def)
qed

subsection \<open>Tokens of a pattern without escapes\<close>

definition plain_token :: "char \<Rightarrow> like_token" where
  "plain_token ch = (if ch = CHR ''%'' then AnyMany else if ch = CHR ''_'' then AnyOne else LikeLiteral ch)"

text \<open>Runs of \<open>%\<close> collapse to one token, which means the same.\<close>

lemma like_Many_Many: "like (AnyMany # AnyMany # ts) s \<longleftrightarrow> like (AnyMany # ts) s"
  by (metis append.assoc append_Nil like_Many_iff)

lemma like_tokens_loop_plain:
  "\<exists>tokens. like_tokens_loop pattern None chars acc = Inr tokens \<and>
     (\<forall>s. like tokens s \<longleftrightarrow> like (acc @ map plain_token chars) s)"
proof (induction chars arbitrary: acc)
  case (Cons ch chars)
  let ?acc = "if ch = CHR ''%'' then (if is_any_many acc then acc else acc @ [AnyMany])
    else if ch = CHR ''_'' then acc @ [AnyOne] else acc @ [LikeLiteral ch]"
  obtain tokens where t: "like_tokens_loop pattern None chars ?acc = Inr tokens"
    "\<forall>s. like tokens s \<longleftrightarrow> like (?acc @ map plain_token chars) s"
    using Cons.IH by blast
  have "like (?acc @ map plain_token chars) s \<longleftrightarrow> like (acc @ map plain_token (ch # chars)) s" for s
  proof (cases "ch = CHR ''%'' \<and> is_any_many acc")
    case True
    then obtain acc' where "acc = acc' @ [AnyMany]" unfolding is_any_many_def by (metis append_butlast_last_id)
    then show ?thesis using True like_Many_Many [of "map plain_token chars"] by (simp add: plain_token_def like_append)
  qed (auto simp: plain_token_def)
  then show ?case using t by (cases "ch = CHR ''%''"; cases "ch = CHR ''_''") auto
qed simp

subsection \<open>Segments\<close>

abbreviation lits :: "string \<Rightarrow> like_token list" where "lits s \<equiv> map LikeLiteral s"

lemma like_lits: "like (lits a @ ts) s \<longleftrightarrow> (\<exists>w. s = a @ w \<and> like ts w)"
  by (induction a arbitrary: s) (auto simp: like_Lit_iff)

fun joined_tokens :: "string list \<Rightarrow> like_token list" where
  "joined_tokens [] = []"
| "joined_tokens [part] = lits part"
| "joined_tokens (part # parts) = lits part @ AnyMany # joined_tokens parts"

lemma split_char_tokens: "CHR ''_'' \<notin> set p \<Longrightarrow> map plain_token p = joined_tokens (split_char CHR ''%'' p)"
proof (induction p)
  case (Cons c p)
  obtain part parts where "split_char CHR ''%'' p = part # parts" by (metis split_char_nonempty list.exhaust)
  then show ?case using Cons by (cases parts) (auto simp: plain_token_def)
qed simp

text \<open>The tokens of the segments after the first \<open>%\<close>.\<close>

fun tail_tokens :: "string list \<Rightarrow> bool \<Rightarrow> like_token list" where
  "tail_tokens [] ends = (if ends then [AnyMany] else [])"
| "tail_tokens (seg # segs) ends = AnyMany # lits seg @ tail_tokens segs ends"

lemma tail_tokens_parts:
  "parts \<noteq> [] \<Longrightarrow>
     like (AnyMany # joined_tokens parts) s \<longleftrightarrow> like (tail_tokens (filter (\<lambda>x. x \<noteq> []) parts) (last parts = [])) s"
proof (induction parts arbitrary: s rule: joined_tokens.induct)
  case (3 part part2 parts)
  have IH: "like (AnyMany # joined_tokens (part2 # parts)) w \<longleftrightarrow>
      like (tail_tokens (filter (\<lambda>x. x \<noteq> []) (part2 # parts)) (last (part2 # parts) = [])) w" for w
    by (rule "3.IH") simp
  show ?case
  proof (cases "part = []")
    case True
    then show ?thesis using IH by (simp add: like_Many_Many)
  next
    case False
    have "like (AnyMany # joined_tokens (part # part2 # parts)) s \<longleftrightarrow>
        (\<exists>u w. s = u @ part @ w \<and> like (AnyMany # joined_tokens (part2 # parts)) w)"
      by (auto simp: like_Many_iff [of "lits part @ _"] like_lits)
    also have "\<dots> \<longleftrightarrow> like (tail_tokens (filter (\<lambda>x. x \<noteq> []) (part # part2 # parts)) (last (part # part2 # parts) = [])) s"
      unfolding IH using False by (auto simp: like_Many_iff [of "lits part @ _"] like_lits)
    finally show ?thesis .
  qed
qed simp_all

lemma hd_split_char: "p \<noteq> [] \<Longrightarrow> hd (split_char d p) = [] \<longleftrightarrow> hd p = d"
  by (cases p) (auto split: list.splits)

lemma last_split_char: "p \<noteq> [] \<Longrightarrow> last (split_char d p) = [] \<longleftrightarrow> last p = d"
proof (induction p)
  case (Cons c p)
  show ?case
  proof (cases "p = []")
    case False
    obtain part parts where parts: "split_char d p = part # parts" by (metis split_char_nonempty list.exhaust)
    have "part = p \<and> d \<notin> set p" if "parts = []" using split_char_single [of d p part] parts that by simp
    then show ?thesis using Cons.IH [OF False] False parts by (auto dest: last_in_set)
  qed auto
qed simp

lemma split_char_tl: "p \<noteq> [] \<Longrightarrow> hd p = d \<Longrightarrow> split_char d p = [] # split_char d (tl p)"
  by (cases p) auto

text \<open>A pattern without \<open>_\<close> in terms of its segments.\<close>

lemma like_segments:
  assumes "CHR ''_'' \<notin> set p" "p \<noteq> []"
  shows "like (map plain_token p) s \<longleftrightarrow>
    (let segs = filter (\<lambda>x. x \<noteq> []) (split_char CHR ''%'' p); ends = (last p = CHR ''%'')
     in if hd p = CHR ''%'' then like (tail_tokens segs ends) s
        else segs \<noteq> [] \<and> like (lits (hd segs) @ tail_tokens (tl segs) ends) s)"
proof (cases "hd p = CHR ''%''")
  case True
  note parts = split_char_tl [OF assms(2) True]
  obtain x xs where xs: "split_char CHR ''%'' (tl p) = x # xs" by (metis split_char_nonempty list.exhaust)
  have "last (x # xs) = [] \<longleftrightarrow> last p = CHR ''%''" using last_split_char [OF assms(2), of "CHR ''%''"] parts xs by simp
  then show ?thesis
    using True tail_tokens_parts [of "x # xs" s] by (simp add: split_char_tokens [OF assms(1)] parts xs Let_def)
next
  case False
  obtain x xs where xs: "split_char CHR ''%'' p = x # xs" by (metis split_char_nonempty list.exhaust)
  have x: "x \<noteq> []" using hd_split_char [OF assms(2), of "CHR ''%''"] False xs by simp
  have ends: "last (x # xs) = [] \<longleftrightarrow> last p = CHR ''%''" using last_split_char [OF assms(2), of "CHR ''%''"] xs by simp
  show ?thesis
  proof (cases xs)
    case Nil
    then show ?thesis using False x xs ends by (simp add: split_char_tokens [OF assms(1)] Let_def)
  next
    case (Cons y ys)
    then show ?thesis
      using False x xs ends tail_tokens_parts [of xs] by (simp add: split_char_tokens [OF assms(1)] Let_def like_lits)
  qed
qed

subsection \<open>Searching for segments\<close>

lemma starts_with_iff: "starts_with v a \<longleftrightarrow> (\<exists>w. v = a @ w)"
  unfolding starts_with_def by (metis append_eq_conv_conj)

lemma ends_with_iff: "ends_with v a \<longleftrightarrow> (\<exists>u. v = u @ a)"
  unfolding ends_with_def by (metis append_eq_conv_conj append_take_drop_id diff_add_inverse2 le_add2 length_append)

lemma find_segment_SomeD:
  "find_segment seg v = Some i \<Longrightarrow> \<exists>w. v = take i v @ seg @ w \<and> i + length seg \<le> length v"
proof (induction seg v arbitrary: i rule: find_segment.induct)
  case (2 seg c cs)
  show ?case
  proof (cases "starts_with (c # cs) seg")
    case True
    then obtain w where "c # cs = seg @ w" by (auto simp: starts_with_iff)
    then show ?thesis using True "2.prems" by (metis append_Nil add_0 find_segment.simps(2) le_add1 length_append option.inject take0)
  next
    case False
    then obtain k where "find_segment seg cs = Some k" "i = Suc k" using "2.prems" by auto
    then show ?thesis using "2.IH" [OF False] by auto
  qed
qed (auto split: if_splits)

lemma find_segment_prefix: "starts_with v seg \<Longrightarrow> find_segment seg v = Some 0"
  by (cases v) (auto simp: starts_with_iff)

lemma find_segment_first:
  "v = u @ seg @ w \<Longrightarrow> \<exists>i \<le> length u. find_segment seg v = Some i"
proof (induction u arbitrary: v)
  case Nil
  then show ?case using find_segment_prefix [of v seg] by (auto simp: starts_with_iff)
next
  case (Cons c u)
  then have v: "v = c # (u @ seg @ w)" by simp
  obtain i where "i \<le> length u" "find_segment seg (u @ seg @ w) = Some i" using Cons.IH by blast
  then show ?case unfolding v by (cases "starts_with (c # (u @ seg @ w)) seg") auto
qed

text \<open>After a \<open>%\<close> the first occurrence of a segment is as good as any other.\<close>

lemma like_tail_absorbs: "segs \<noteq> [] \<or> ends \<Longrightarrow> like (tail_tokens segs ends) w \<Longrightarrow> like (tail_tokens segs ends) (u @ w)"
  by (cases segs) (auto simp: like_Many_iff, metis append.assoc)

lemma like_tail_greedy:
  assumes "segs \<noteq> [] \<or> ends"
  shows "like (tail_tokens (seg # segs) ends) v \<longleftrightarrow>
    (case find_segment seg v of None \<Rightarrow> False | Some i \<Rightarrow> like (tail_tokens segs ends) (drop (i + length seg) v))"
proof -
  have occ: "like (tail_tokens (seg # segs) ends) v \<longleftrightarrow> (\<exists>u w. v = u @ seg @ w \<and> like (tail_tokens segs ends) w)"
    by (auto simp: like_Many_iff [of "lits seg @ _"] like_lits)
  show ?thesis
  proof (cases "find_segment seg v")
    case None
    then show ?thesis using find_segment_first unfolding occ by fastforce
  next
    case (Some i)
    obtain w where w: "v = take i v @ seg @ w" "i + length seg \<le> length v" using find_segment_SomeD [OF Some] by blast
    have d: "drop (i + length seg) v = w"
      by (subst w(1)) (use w(2) in simp)
    have "like (tail_tokens segs ends) w" if uw: "v = u @ seg @ w'" "like (tail_tokens segs ends) w'" for u w'
    proof -
      obtain j where "j \<le> length u" "find_segment seg v = Some j" using find_segment_first [OF uw(1)] by blast
      then have "i \<le> length u" using Some by simp
      then have "drop (i + length seg) v = drop (i + length seg) (u @ seg) @ w'" by (subst uw(1)) simp
      then show ?thesis using like_tail_absorbs [OF assms uw(2), of "drop (i + length seg) (u @ seg)"] d by simp
    qed
    then show ?thesis unfolding occ using Some w(1) d by auto
  qed
qed

lemma ordered_loop_iff:
  "offset \<le> length v \<Longrightarrow> segs \<noteq> [] \<or> ends \<Longrightarrow> (segs \<noteq> [] \<longrightarrow> \<not> ends \<longrightarrow> ends_with v (last segs)) \<Longrightarrow>
     ordered_loop find_segment v starts ends False segs offset \<longleftrightarrow> like (tail_tokens segs ends) (drop offset v)"
proof (induction segs arbitrary: offset)
  case Nil
  then show ?case by (simp add: like_Many_iff)
next
  case (Cons seg segs)
  show ?case
  proof (cases "segs = [] \<and> \<not> ends")
    case True
    then obtain u where u: "v = u @ seg" using Cons.prems(3) by (auto simp: ends_with_iff)
    have "like (tail_tokens [seg] False) (drop offset v) \<longleftrightarrow> ends_with (drop offset v) seg"
      by (auto simp: ends_with_iff like_Many_iff [of "lits seg"] like_lits [of seg "[]", simplified])
    also have "\<dots> \<longleftrightarrow> offset \<le> length u"
      using u Cons.prems(1) by (auto simp: ends_with_def)
    finally show ?thesis using True u by auto
  next
    case False
    show ?thesis
    proof (cases "find_segment seg (drop offset v)")
      case None
      then show ?thesis using False like_tail_greedy [of segs ends seg "drop offset v"] by auto
    next
      case (Some i)
      have le: "offset + i + length seg \<le> length v" using find_segment_SomeD [OF Some] Cons.prems(1) by auto
      have "ordered_loop find_segment v starts ends False (seg # segs) offset \<longleftrightarrow>
          ordered_loop find_segment v starts ends False segs (offset + i + length seg)"
        using False Some by auto
      also have "\<dots> \<longleftrightarrow> like (tail_tokens segs ends) (drop (offset + i + length seg) v)"
        using Cons.prems(3) False le by (intro Cons.IH) (auto split: if_splits)
      also have "\<dots> \<longleftrightarrow> like (tail_tokens (seg # segs) ends) (drop offset v)"
        using False like_tail_greedy [of segs ends seg "drop offset v"] Some by (auto simp: add.commute add.left_commute)
      finally show ?thesis .
    qed
  qed
qed

subsection \<open>The fast path agrees with the tokens\<close>

lemma like_tail_ends: "like (tail_tokens segs False) w \<Longrightarrow> segs \<noteq> [] \<Longrightarrow> ends_with w (last segs)"
proof (induction segs arbitrary: w)
  case (Cons seg segs)
  then obtain u w' where w: "w = u @ seg @ w'" "like (tail_tokens segs False) w'"
    by (auto simp: like_Many_iff [of "lits seg @ _"] like_lits)
  show ?case
  proof (cases "segs = []")
    case False
    then show ?thesis using Cons.IH [OF w(2)] w(1) by (auto simp: ends_with_iff)
  qed (use w in \<open>auto simp: ends_with_iff\<close>)
qed simp

lemma fast_matches_like:
  assumes "fast_like_pattern_of p escape = Some fast" "p \<noteq> []"
  shows "fast_matches find_segment fast v \<longleftrightarrow> like (map plain_token p) v"
proof -
  let ?segs = "filter (\<lambda>x. x \<noteq> []) (split_char CHR ''%'' p)"
  let ?starts = "hd p = CHR ''%''" and ?ends = "last p = CHR ''%''"
  have no: "CHR ''_'' \<notin> set p" using assms(1) by (auto simp: fast_like_pattern_of_def split: if_splits)
  note spec = like_segments [OF no assms(2), of v, unfolded Let_def]
  consider "?segs = []" | seg where "?segs = [seg]" | seg seg2 segs where "?segs = seg # seg2 # segs"
    by (metis list.exhaust)
  then show ?thesis
  proof cases
    case 1
    have "?starts" "?ends"
    proof -
      obtain x xs where xs: "split_char CHR ''%'' p = x # xs" by (metis split_char_nonempty list.exhaust)
      have "\<forall>y \<in> set (x # xs). y = []" using 1 xs by (auto simp: filter_empty_conv split: if_splits)
      then have "hd (x # xs) = []" "last (x # xs) = []" by (auto dest: last_in_set)
      then show "?starts" "?ends" using hd_split_char [OF assms(2)] last_split_char [OF assms(2)] xs by metis+
    qed
    moreover have "fast = FastAll" using assms 1 no by (simp add: fast_like_pattern_of_def Let_def split: if_splits)
    ultimately show ?thesis using 1 spec by (simp add: like_Many_iff)
  next
    case (2 seg)
    have fast: "fast = (if \<not> ?starts \<and> \<not> ?ends then FastExact seg else if \<not> ?starts \<and> ?ends then FastPrefix seg
        else if ?starts \<and> \<not> ?ends then FastSuffix seg else FastContains seg)"
      using assms 2 no by (simp add: fast_like_pattern_of_def Let_def split: if_splits) argo+
    have "like [AnyMany] w" for w by (simp add: like_Many_iff)
    moreover have "like (tail_tokens [seg] True) v \<longleftrightarrow> find_segment seg v \<noteq> None"
      using like_tail_greedy [of "[]" True seg v] by (auto simp: like_Many_iff split: option.splits)
    moreover have "like (tail_tokens [seg] False) v \<longleftrightarrow> ends_with v seg"
      by (auto simp: ends_with_iff like_Many_iff [of "lits seg"] like_lits [of seg "[]", simplified])
    ultimately show ?thesis
      using spec 2 unfolding fast by (auto simp: like_lits starts_with_iff simp del: tail_tokens.simps(2))
  next
    case (3 seg seg2 segs)
    have fast: "fast = FastOrdered ?starts ?ends (seg # seg2 # segs)"
      using assms 3 no by (simp add: fast_like_pattern_of_def Let_def split: if_splits)
    show ?thesis
    proof (cases "?starts")
      case True
      have "fast_matches find_segment fast v \<longleftrightarrow>
          (?ends \<or> ends_with v (last (seg # seg2 # segs))) \<and> ordered_loop find_segment v True ?ends False (seg # seg2 # segs) 0"
        using True by (auto simp: fast)
      also have "\<dots> \<longleftrightarrow> like (tail_tokens (seg # seg2 # segs) ?ends) v"
        using ordered_loop_iff [of 0 v "seg # seg2 # segs" ?ends True] like_tail_ends [of "seg # seg2 # segs" v]
        by (cases "?ends") (auto simp del: tail_tokens.simps ordered_loop.simps)
      finally show ?thesis using spec True 3 by simp
    next
      case False
      have "fast_matches find_segment fast v \<longleftrightarrow> starts_with v seg \<and> (?ends \<or> ends_with v (last (seg2 # segs))) \<and>
          ordered_loop find_segment v False ?ends False (seg2 # segs) (length seg)"
        using False by (simp add: fast del: ordered_loop.simps(2) add: ordered_loop.simps(2) [of find_segment v False ?ends True])
      also have "\<dots> \<longleftrightarrow> (\<exists>w. v = seg @ w \<and> like (tail_tokens (seg2 # segs) ?ends) w)"
      proof (cases "starts_with v seg")
        case True
        then obtain w where v: "v = seg @ w" by (auto simp: starts_with_iff)
        have "ends_with v (last (seg2 # segs))" if "like (tail_tokens (seg2 # segs) False) w"
          using like_tail_ends [OF that] v by (auto simp: ends_with_iff)
        then show ?thesis
          using ordered_loop_iff [of "length seg" v "seg2 # segs" ?ends False] v True
          by (cases "?ends") (auto simp del: tail_tokens.simps ordered_loop.simps)
      qed (auto simp: starts_with_iff)
      finally show ?thesis using spec False 3 by (simp add: like_lits)
    qed
  qed
qed

lemma like_row_eq:
  "like_row matches negated ci = map_option (\<lambda>v. matches (if ci then to_ascii_lowercase v else v) \<noteq> negated)"
proof
  show "like_row matches negated ci v =
      map_option (\<lambda>v. matches (if ci then to_ascii_lowercase v else v) \<noteq> negated) v" for v
    by (cases v) (auto simp: like_row_def Let_def)
qed

lemma evaluate_like_meaning:
  assumes "finder_ok finder" "pattern \<noteq> []"
  shows "case like_pattern_tokens (if ci then to_ascii_lowercase pattern else pattern) escape of
      Inl e \<Rightarrow> evaluate_like finder column pattern negated escape ci = Inl e
    | Inr tokens \<Rightarrow> evaluate_like finder column pattern negated escape ci =
        Inr (map (map_option (\<lambda>v. like tokens (if ci then to_ascii_lowercase v else v) \<noteq> negated)) column)"
proof -
  let ?p = "if ci then to_ascii_lowercase pattern else pattern"
  have p: "?p \<noteq> []" using assms(2) by (simp add: to_ascii_lowercase_def)
  show ?thesis
  proof (cases "fast_like_pattern_of ?p escape")
    case None
    then show ?thesis
      by (simp only: evaluate_like_def evaluate_like_values_def like_row_eq like_matches_iff Let_def option.case)
        (simp add: rust_simps split: sum.split)
  next
    case (Some fast)
    then have "escape = None" by (auto simp: fast_like_pattern_of_def split: if_splits)
    then obtain tokens where "like_pattern_tokens ?p escape = Inr tokens" "\<And>s. like tokens s \<longleftrightarrow> like (map plain_token ?p) s"
      using like_tokens_loop_plain [of ?p ?p "[]"] by (auto simp: like_pattern_tokens_def)
    then show ?thesis
      using fast_matches_like [OF Some p] finder_okD [OF assms(1)]
      by (simp only: evaluate_like_def evaluate_like_values_def like_row_eq Let_def Some option.case sum.case)
  qed
qed



text \<open>
  The empty pattern takes the fast path that accepts every value, while its tokens accept only the empty
  string.
\<close>

theorem like_empty_pattern_accepts_all:
  "evaluate_like finder column [] False None ci = Inr (map (map_option (\<lambda>_. True)) column) \<and>
   like_pattern_tokens [] None = Inr [] \<and> (\<forall>s. like [] s \<longleftrightarrow> s = [])"
  by (auto simp: evaluate_like_def evaluate_like_values_def fast_like_pattern_of_def like_row_def Let_def
      like_pattern_tokens_def to_ascii_lowercase_def)

end
