(* ===== verification/Filter_Eval.thy ===== *)
theory Filter_Eval
  imports Vector_Views Like_Matching Plan_Semantics
begin

text \<open>
  The evaluation of filters in \<open>execution/physical.rs\<close>: on record batches with the kernels of Arrow, and on batch
  views with loops of its own that pack the result into words.  A mask is a list of optional truth values.

  The kernels, and the substring search of \<open>memchr\<close>, are the record \<open>arrow_kernels\<close>, and \<open>kernels_ok\<close> states what their libraries document of them.  An outcome is
  \<open>None\<close> where the code panics, and otherwise an error or a value.
\<close>

subsection \<open>Outcomes and kernels\<close>

type_synonym 'a outcome = "(dodam_error + 'a) option"
type_synonym mask = "bool option list"

definition outcome_bind :: "'a outcome \<Rightarrow> ('a \<Rightarrow> 'b outcome) \<Rightarrow> 'b outcome" where
  "outcome_bind r f = (case r of None \<Rightarrow> None | Some (Inl e) \<Rightarrow> Some (Inl e) | Some (Inr x) \<Rightarrow> f x)"

lemma outcome_bind_simps [simp]:
  "outcome_bind None f = None"
  "outcome_bind (Some (Inl e)) f = Some (Inl e)"
  "outcome_bind (Some (Inr x)) f = f x"
  by (simp_all add: outcome_bind_def)

datatype datum = DatumScalar data_type cell | DatumArray array

record arrow_kernels =
  kernel_eq :: "array \<Rightarrow> datum \<Rightarrow> dodam_error + mask"
  kernel_neq :: "array \<Rightarrow> datum \<Rightarrow> dodam_error + mask"
  kernel_lt :: "array \<Rightarrow> datum \<Rightarrow> dodam_error + mask"
  kernel_lt_eq :: "array \<Rightarrow> datum \<Rightarrow> dodam_error + mask"
  kernel_gt :: "array \<Rightarrow> datum \<Rightarrow> dodam_error + mask"
  kernel_gt_eq :: "array \<Rightarrow> datum \<Rightarrow> dodam_error + mask"
  kernel_and_kleene :: "mask \<Rightarrow> mask \<Rightarrow> dodam_error + mask"
  kernel_or_kleene :: "mask \<Rightarrow> mask \<Rightarrow> dodam_error + mask"
  kernel_not :: "mask \<Rightarrow> dodam_error + mask"
  kernel_is_null :: "array \<Rightarrow> dodam_error + mask"
  kernel_is_not_null :: "array \<Rightarrow> dodam_error + mask"
  kernel_filter :: "record_batch \<Rightarrow> mask \<Rightarrow> dodam_error + record_batch"
  with_precision_and_scale :: "nat \<Rightarrow> int \<Rightarrow> dodam_error option"
  append_packed_range :: "bool list \<Rightarrow> nat \<Rightarrow> u64 \<Rightarrow> bool list"
  substring_finder :: "string \<Rightarrow> string \<Rightarrow> nat option"

text \<open>Conversions and texts of \<open>f64\<close> values, and the names of data types in errors.\<close>

record formats =
  show_float :: "u64 \<Rightarrow> string"
  int_as_float :: "int \<Rightarrow> u64"
  type_name :: "data_type \<Rightarrow> string"

definition unwrap :: "dodam_error + 'a \<Rightarrow> 'a outcome" where
  "unwrap r = (case r of Inl e \<Rightarrow> None | Inr x \<Rightarrow> Some (Inr x))"

definition and_masks :: "arrow_kernels \<Rightarrow> mask \<Rightarrow> mask \<Rightarrow> mask outcome" where
  "and_masks K left right = unwrap (kernel_and_kleene K left right)"

definition or_masks :: "arrow_kernels \<Rightarrow> mask \<Rightarrow> mask \<Rightarrow> mask outcome" where
  "or_masks K left right = unwrap (kernel_or_kleene K left right)"

definition not_mask :: "arrow_kernels \<Rightarrow> mask \<Rightarrow> mask outcome" where
  "not_mask K m = unwrap (kernel_not K m)"

subsection \<open>Columns by name\<close>

definition physical_aggregate_column_parts :: "string \<Rightarrow> (string \<times> string) option" where
  "physical_aggregate_column_parts column =
     Option.bind (split_once CHR ''('' column) (\<lambda>(func, rest).
     Option.bind (strip_suffix CHR '')'' rest) (\<lambda>argument. Some (func, argument)))"

lemma split_once_shorter: "split_once d s = Some (a, b) \<Longrightarrow> length b < length s"
  by (induction s arbitrary: a b) (auto split: if_splits)

lemma aggregate_column_parts_shorter:
  "physical_aggregate_column_parts s = Some (f, a) \<Longrightarrow> length a < length s"
  by (auto simp: physical_aggregate_column_parts_def strip_suffix_def bind_eq_Some_conv split: if_splits
      dest!: split_once_shorter)

function physical_same_column :: "string \<Rightarrow> string \<Rightarrow> bool" where
  "physical_same_column left right \<longleftrightarrow>
     (case physical_aggregate_column_parts left of
        None \<Rightarrow> False
      | Some (left_function, left_argument) \<Rightarrow>
          (case physical_aggregate_column_parts right of
             None \<Rightarrow> False
           | Some (right_function, right_argument) \<Rightarrow>
               eq_ignore_ascii_case left_function right_function \<and> physical_same_column left_argument right_argument)) \<or>
     left = right \<or> last (split_char CHR ''.'' left) = right \<or> last (split_char CHR ''.'' right) = left"
  by pat_completeness auto
termination
  by (relation "measure (\<lambda>(l, r). length l)") (auto dest: aggregate_column_parts_shorter)

declare physical_same_column.simps [simp del]

definition column_index :: "string list \<Rightarrow> string \<Rightarrow> dodam_error + nat" where
  "column_index names column =
     (case position (\<lambda>field. physical_same_column field column) names of
        Some index \<Rightarrow> Inr index
      | None \<Rightarrow>
          (case Option.bind (split_once CHR ''.'' column) (\<lambda>(_, unqualified). position (\<lambda>field. field = unqualified) names) of
             Some index \<Rightarrow> Inr index
           | None \<Rightarrow> Inl (UnknownColumn column)))"

text \<open>\<open>column_index\<close> on a batch, and the column at that index.\<close>

definition batch_column :: "record_batch \<Rightarrow> string \<Rightarrow> array outcome" where
  "batch_column batch column =
     outcome_bind (Some (column_index (field_names batch) column)) (\<lambda>index.
       map_option Inr (vec_get (batch_columns batch) index))"

subsection \<open>Comparisons\<close>

definition compare :: "arrow_kernels \<Rightarrow> array \<Rightarrow> datum \<Rightarrow> comparison_op \<Rightarrow> mask outcome" where
  "compare K column scalar op =
     Some (case op of
       Eq \<Rightarrow> kernel_eq K column scalar
     | NotEq \<Rightarrow> kernel_neq K column scalar
     | Lt \<Rightarrow> kernel_lt K column scalar
     | LtEq \<Rightarrow> kernel_lt_eq K column scalar
     | Gt \<Rightarrow> kernel_gt K column scalar
     | GtEq \<Rightarrow> kernel_gt_eq K column scalar)"

definition compare_columns :: "arrow_kernels \<Rightarrow> array \<Rightarrow> array \<Rightarrow> comparison_op \<Rightarrow> mask outcome" where
  "compare_columns K left right op = compare K left (DatumArray right) op"

definition compare_int_literal ::
    "arrow_kernels \<Rightarrow> array \<Rightarrow> comparison_op \<Rightarrow> data_type \<Rightarrow> dodam_error + int \<Rightarrow> mask outcome" where
  "compare_int_literal K column op t literal =
     outcome_bind (Some literal) (\<lambda>v. compare K column (DatumScalar t (CellInt v)) op)"

definition evaluate_comparison :: "arrow_kernels \<Rightarrow> formats \<Rightarrow> record_batch \<Rightarrow> comparison_expr \<Rightarrow> mask outcome" where
  "evaluate_comparison K F batch comparison =
     (let value0 = cmp_value comparison; name = cmp_column comparison; op = cmp_op comparison; sf = show_float F
      in if value0 = LitNull then Some (Inr (replicate (batch_rows batch) None))
         else outcome_bind (batch_column batch name) (\<lambda>column.
           case array_type column of
             Int32 \<Rightarrow> compare_int_literal K column op Int32 (as_i32 sf value0 name)
           | Int64 \<Rightarrow> compare_int_literal K column op Int64 (as_i64 sf value0 name)
           | UInt64 \<Rightarrow> compare_int_literal K column op UInt64 (map_sum id int (as_u64 sf value0 name))
           | Float64 \<Rightarrow>
               outcome_bind (Some (as_f64 sf (int_as_float F) value0 name)) (\<lambda>v.
                 compare K column (DatumScalar Float64 (CellF64 v)) op)
           | BooleanType \<Rightarrow>
               outcome_bind (Some (as_bool sf value0 name)) (\<lambda>v. compare K column (DatumScalar BooleanType (CellBool v)) op)
           | Date32 \<Rightarrow> compare_int_literal K column op Date32 (date_literal_as_i32 sf value0 name)
           | Date64 \<Rightarrow> compare_int_literal K column op Date64 (date_literal_as_i64 sf value0 name)
           | Decimal128 precision scale \<Rightarrow>
               outcome_bind (Some (decimal_literal_as_i128 sf value0 scale name)) (\<lambda>v.
                 case with_precision_and_scale K precision scale of
                   Some e \<Rightarrow> Some (Inl e)
                 | None \<Rightarrow> compare K column (DatumScalar (Decimal128 precision scale) (CellInt v)) op)
           | Timestamp unit0 timezone \<Rightarrow>
               compare_int_literal K column op (Timestamp unit0 timezone) (timestamp_literal_as_i64 sf value0 unit0 name)
           | Utf8 \<Rightarrow> compare K column (DatumScalar Utf8 (CellStr (show_literal sf value0))) op
           | t \<Rightarrow> Some (Inl (UnsupportedFilterType name (type_name F t)))))"

fun show_op :: "comparison_op \<Rightarrow> string" where
  "show_op Eq = ''Eq''"
| "show_op NotEq = ''NotEq''"
| "show_op Lt = ''Lt''"
| "show_op LtEq = ''LtEq''"
| "show_op Gt = ''Gt''"
| "show_op GtEq = ''GtEq''"

text \<open>\<open>compare_i64\<close> and \<open>compare_i128_values\<close>.\<close>

fun compare_ints :: "int \<Rightarrow> comparison_op \<Rightarrow> int \<Rightarrow> bool" where
  "compare_ints l Eq r = (l = r)"
| "compare_ints l NotEq r = (l \<noteq> r)"
| "compare_ints l Lt r = (l < r)"
| "compare_ints l LtEq r = (l \<le> r)"
| "compare_ints l Gt r = (l > r)"
| "compare_ints l GtEq r = (l \<ge> r)"

definition decimal_align_factor :: "int \<Rightarrow> int \<Rightarrow> dodam_error + int" where
  "decimal_align_factor from_scale to_scale =
     (if to_scale < from_scale
      then Inl (InvalidFilter (''cannot align decimal scale '' @ show_int from_scale @ '' to '' @ show_int to_scale))
      else decimal_scale_factor (nat (to_scale - from_scale)))"

definition compare_decimal_row :: "int \<Rightarrow> int \<Rightarrow> comparison_op \<Rightarrow> cell option \<Rightarrow> cell option \<Rightarrow> bool option" where
  "compare_decimal_row left_factor right_factor op left right =
     Option.bind left (\<lambda>left. Option.bind right (\<lambda>right.
     Option.bind (i128_checked (the_int left * left_factor)) (\<lambda>left.
     Option.bind (i128_checked (the_int right * right_factor)) (\<lambda>right.
       Some (compare_ints left op right)))))"

definition compare_decimal128_columns ::
    "cell option list \<Rightarrow> int \<Rightarrow> cell option list \<Rightarrow> int \<Rightarrow> comparison_op \<Rightarrow> dodam_error + mask" where
  "compare_decimal128_columns left left_scale right right_scale op =
     (if length left \<noteq> length right then Inl (InvalidFilter ''decimal column length mismatch'')
      else let scale = max left_scale right_scale
           in try_bind (decimal_align_factor left_scale scale) (\<lambda>left_factor.
              try_bind (decimal_align_factor right_scale scale) (\<lambda>right_factor.
                Inr (map2 (compare_decimal_row left_factor right_factor op) left right))))"

definition evaluate_column_comparison ::
    "arrow_kernels \<Rightarrow> record_batch \<Rightarrow> string \<Rightarrow> comparison_op \<Rightarrow> string \<Rightarrow> mask outcome" where
  "evaluate_column_comparison K batch left op right =
     (let e = InvalidFilter (left @ '' '' @ show_op op @ '' '' @ right)
      in outcome_bind (Some (column_index (field_names batch) left)) (\<lambda>_.
         outcome_bind (Some (column_index (field_names batch) right)) (\<lambda>_.
         outcome_bind (batch_column batch left) (\<lambda>left_column.
         outcome_bind (batch_column batch right) (\<lambda>right_column.
           case (left_column, right_column) of
             (PlainArray (Decimal128 p s) left_cells, PlainArray (Decimal128 q t) right_cells) \<Rightarrow>
               Some (case compare_decimal128_columns left_cells s right_cells t op of Inl _ \<Rightarrow> Inl e | Inr m \<Rightarrow> Inr m)
           | _ \<Rightarrow>
               if array_type left_column \<noteq> array_type right_column then Some (Inl e)
               else compare_columns K left_column right_column op)))))"

subsection \<open>Lists, patterns and nulls\<close>

definition nullify_false_values :: "mask \<Rightarrow> mask" where
  "nullify_false_values m = map (\<lambda>v. if v = Some True then Some True else None) m"

fun in_list_loop ::
    "arrow_kernels \<Rightarrow> formats \<Rightarrow> record_batch \<Rightarrow> string \<Rightarrow> literal_value list \<Rightarrow> mask \<Rightarrow> mask outcome" where
  "in_list_loop K F batch column [] m = Some (Inr m)"
| "in_list_loop K F batch column (value0 # vs) m =
     outcome_bind (evaluate_comparison K F batch \<lparr>cmp_column = column, cmp_op = Eq, cmp_value = value0\<rparr>) (\<lambda>value_mask.
     outcome_bind (or_masks K m value_mask) (in_list_loop K F batch column vs))"

definition evaluate_in_list ::
    "arrow_kernels \<Rightarrow> formats \<Rightarrow> record_batch \<Rightarrow> string \<Rightarrow> literal_value list \<Rightarrow> bool \<Rightarrow> bool \<Rightarrow> mask outcome" where
  "evaluate_in_list K F batch column vs negated has_null =
     outcome_bind (in_list_loop K F batch column vs (replicate (batch_rows batch) (Some False))) (\<lambda>m.
       let m = (if has_null then nullify_false_values m else m)
       in if negated then not_mask K m else Some (Inr m))"

text \<open>\<open>evaluate_like\<close> with its dispatch on the kind of column.\<close>

definition evaluate_like_column ::
    "arrow_kernels \<Rightarrow> formats \<Rightarrow> record_batch \<Rightarrow> string \<Rightarrow> string \<Rightarrow> bool \<Rightarrow> char option \<Rightarrow> bool \<Rightarrow> mask outcome" where
  "evaluate_like_column K F batch column pattern negated escape case_insensitive =
     outcome_bind (batch_column batch column) (\<lambda>column_array.
       case column_array of
         PlainArray t cs \<Rightarrow>
           if t = Utf8 then Some (evaluate_like (substring_finder K) (map (map_option the_str) cs) pattern negated escape case_insensitive)
           else Some (Inl (UnsupportedFilterType column (type_name F t)))
       | DictArray keys dictionary \<Rightarrow>
           Some (evaluate_like (substring_finder K) (map (\<lambda>key. Option.bind key (dictionary_lookup dictionary)) keys)
             pattern negated escape case_insensitive))"

definition evaluate_is_null :: "arrow_kernels \<Rightarrow> record_batch \<Rightarrow> string \<Rightarrow> bool \<Rightarrow> mask outcome" where
  "evaluate_is_null K batch column negated =
     outcome_bind (batch_column batch column) (\<lambda>column.
       Some (if negated then kernel_is_not_null K column else kernel_is_null K column))"

subsection \<open>Filters on batches\<close>

fun evaluate_filter :: "arrow_kernels \<Rightarrow> formats \<Rightarrow> record_batch \<Rightarrow> expr \<Rightarrow> mask outcome" where
  "evaluate_filter K F batch (BooleanLit value0) = Some (Inr (replicate (batch_rows batch) value0))"
| "evaluate_filter K F batch (Comparison comparison) = evaluate_comparison K F batch comparison"
| "evaluate_filter K F batch (ColumnComparison left op right) = evaluate_column_comparison K batch left op right"
| "evaluate_filter K F batch (InList column vs negated has_null) = evaluate_in_list K F batch column vs negated has_null"
| "evaluate_filter K F batch (Like column pattern negated escape case_insensitive) =
     evaluate_like_column K F batch column pattern negated escape case_insensitive"
| "evaluate_filter K F batch (IsNull column negated) = evaluate_is_null K batch column negated"
| "evaluate_filter K F batch (Not e) = outcome_bind (evaluate_filter K F batch e) (not_mask K)"
| "evaluate_filter K F batch (And l r) =
     outcome_bind (evaluate_filter K F batch l) (\<lambda>l. outcome_bind (evaluate_filter K F batch r) (and_masks K l))"
| "evaluate_filter K F batch (Or l r) =
     outcome_bind (evaluate_filter K F batch l) (\<lambda>l. outcome_bind (evaluate_filter K F batch r) (or_masks K l))"

definition filter_batch :: "arrow_kernels \<Rightarrow> formats \<Rightarrow> record_batch \<Rightarrow> expr \<Rightarrow> record_batch outcome" where
  "filter_batch K F batch e =
     outcome_bind (evaluate_filter K F batch e) (\<lambda>m. Some (kernel_filter K batch m))"

subsection \<open>What Arrow documents of its kernels\<close>

text \<open>The total order of \<open>f64\<close> values, by their bits.\<close>

definition float_key :: "u64 \<Rightarrow> int" where
  "float_key b = (if uint b < 2 ^ 63 then uint b else 2 ^ 63 - 1 - uint b)"

fun cell_less :: "cell \<Rightarrow> cell \<Rightarrow> bool" where
  "cell_less (CellInt a) (CellInt b) = (a < b)"
| "cell_less (CellBool a) (CellBool b) = (\<not> a \<and> b)"
| "cell_less (CellF64 a) (CellF64 b) = (float_key a < float_key b)"
| "cell_less (CellStr a) (CellStr b) = bytes_less a b"
| "cell_less _ _ = False"

fun cell_compare :: "comparison_op \<Rightarrow> cell \<Rightarrow> cell \<Rightarrow> bool" where
  "cell_compare Eq a b = (a = b)"
| "cell_compare NotEq a b = (a \<noteq> b)"
| "cell_compare Lt a b = cell_less a b"
| "cell_compare LtEq a b = (\<not> cell_less b a)"
| "cell_compare Gt a b = cell_less b a"
| "cell_compare GtEq a b = (\<not> cell_less a b)"

fun cell_typed :: "data_type \<Rightarrow> cell \<Rightarrow> bool" where
  "cell_typed Float64 c = (case c of CellF64 b \<Rightarrow> True | _ \<Rightarrow> False)"
| "cell_typed BooleanType c = (case c of CellBool b \<Rightarrow> True | _ \<Rightarrow> False)"
| "cell_typed Utf8 c = (case c of CellStr b \<Rightarrow> True | _ \<Rightarrow> False)"
| "cell_typed DictInt32Utf8 c = False"
| "cell_typed (OtherType n) c = True"
| "cell_typed t c = (case c of CellInt b \<Rightarrow> True | _ \<Rightarrow> False)"

fun array_ok :: "array \<Rightarrow> bool" where
  "array_ok (PlainArray t cs) = list_all (pred_option (cell_typed t)) cs"
| "array_ok (DictArray keys dictionary) = True"

fun comparable :: "data_type \<Rightarrow> bool" where
  "comparable (OtherType n) = False"
| "comparable t = True"

definition both :: "('a \<Rightarrow> 'b \<Rightarrow> 'c) \<Rightarrow> 'a option \<Rightarrow> 'b option \<Rightarrow> 'c option" where
  "both f x y = Option.bind x (\<lambda>x. map_option (f x) y)"

definition comparison_kernel :: "(array \<Rightarrow> datum \<Rightarrow> dodam_error + mask) \<Rightarrow> comparison_op \<Rightarrow> bool" where
  "comparison_kernel k op \<longleftrightarrow>
     (\<forall>t cs v. array_ok (PlainArray t cs) \<and> comparable t \<and> cell_typed t v \<longrightarrow>
        k (PlainArray t cs) (DatumScalar t v) = Inr (map (map_option (\<lambda>x. cell_compare op x v)) cs)) \<and>
     (\<forall>a b. array_ok a \<and> array_ok b \<and> array_type a = array_type b \<and> array_len a = array_len b \<and> comparable (array_type a) \<longrightarrow>
        k a (DatumArray b) = Inr (map2 (both (cell_compare op)) (array_cells a) (array_cells b)))"

definition select :: "mask \<Rightarrow> 'a list \<Rightarrow> 'a list" where
  "select m xs = map snd (filter (\<lambda>(b, x). b = Some True) (zip m xs))"

fun array_select :: "mask \<Rightarrow> array \<Rightarrow> array" where
  "array_select m (PlainArray t cs) = PlainArray t (select m cs)"
| "array_select m (DictArray keys dictionary) = DictArray (select m keys) dictionary"

definition batch_select :: "mask \<Rightarrow> record_batch \<Rightarrow> record_batch" where
  "batch_select m b = b\<lparr>batch_columns := map (array_select m) (batch_columns b),
     batch_rows := length (filter (\<lambda>x. x = Some True) m)\<rparr>"

definition kernels_ok :: "arrow_kernels \<Rightarrow> bool" where
  "kernels_ok K \<longleftrightarrow>
     comparison_kernel (kernel_eq K) Eq \<and> comparison_kernel (kernel_neq K) NotEq \<and>
     comparison_kernel (kernel_lt K) Lt \<and> comparison_kernel (kernel_lt_eq K) LtEq \<and>
     comparison_kernel (kernel_gt K) Gt \<and> comparison_kernel (kernel_gt_eq K) GtEq \<and>
     (\<forall>l r. length l = length r \<longrightarrow> kernel_and_kleene K l r = Inr (map2 kleene_and l r)) \<and>
     (\<forall>l r. length l = length r \<longrightarrow> kernel_or_kleene K l r = Inr (map2 kleene_or l r)) \<and>
     (\<forall>m. kernel_not K m = Inr (map (map_option HOL.Not) m)) \<and>
     (\<forall>a. kernel_is_null K a = Inr (map (\<lambda>c. Some (c = None)) (array_cells a))) \<and>
     (\<forall>a. kernel_is_not_null K a = Inr (map (\<lambda>c. Some (c \<noteq> None)) (array_cells a))) \<and>
     (\<forall>b m. length m = batch_rows b \<longrightarrow> kernel_filter K b m = Inr (batch_select m b)) \<and>
     (\<forall>vs n w. n \<le> 64 \<longrightarrow> append_packed_range K vs n w = vs @ map (bit w) [0..<n]) \<and>
     finder_ok (substring_finder K)"

lemma kernels_okD:
  assumes "kernels_ok K"
  shows "length l = length r \<Longrightarrow> and_masks K l r = Some (Inr (map2 kleene_and l r))"
    and "length l = length r \<Longrightarrow> or_masks K l r = Some (Inr (map2 kleene_or l r))"
    and "not_mask K m = Some (Inr (map (map_option HOL.Not) m))"
    and "kernel_is_null K a = Inr (map (\<lambda>c. Some (c = None)) (array_cells a))"
    and "kernel_is_not_null K a = Inr (map (\<lambda>c. Some (c \<noteq> None)) (array_cells a))"
    and "length m = batch_rows b \<Longrightarrow> kernel_filter K b m = Inr (batch_select m b)"
    and "n \<le> 64 \<Longrightarrow> append_packed_range K vs n w = vs @ map (bit w) [0..<n]"
    and "finder_ok (substring_finder K)"
  using assms by (simp_all add: kernels_ok_def and_masks_def or_masks_def not_mask_def unwrap_def)

lemma comparison_kernel_scalar:
  "comparison_kernel k op \<Longrightarrow> array_ok (PlainArray t cs) \<Longrightarrow> comparable t \<Longrightarrow> cell_typed t v \<Longrightarrow>
     k (PlainArray t cs) (DatumScalar t v) = Inr (map (map_option (\<lambda>x. cell_compare op x v)) cs)"
  unfolding comparison_kernel_def by blast

lemma comparison_kernel_arrays:
  "comparison_kernel k op \<Longrightarrow> array_ok a \<Longrightarrow> array_ok b \<Longrightarrow> array_type a = array_type b \<Longrightarrow> array_len a = array_len b \<Longrightarrow>
     comparable (array_type a) \<Longrightarrow> k a (DatumArray b) = Inr (map2 (both (cell_compare op)) (array_cells a) (array_cells b))"
  unfolding comparison_kernel_def by blast

definition kernel_for :: "arrow_kernels \<Rightarrow> comparison_op \<Rightarrow> array \<Rightarrow> datum \<Rightarrow> dodam_error + mask" where
  "kernel_for K op = (case op of Eq \<Rightarrow> kernel_eq K | NotEq \<Rightarrow> kernel_neq K | Lt \<Rightarrow> kernel_lt K | LtEq \<Rightarrow> kernel_lt_eq K
     | Gt \<Rightarrow> kernel_gt K | GtEq \<Rightarrow> kernel_gt_eq K)"

lemma compare_eq_kernel: "compare K a d op = Some (kernel_for K op a d)"
  by (cases op) (simp_all add: compare_def kernel_for_def)

lemma kernel_for_ok: "kernels_ok K \<Longrightarrow> comparison_kernel (kernel_for K op) op"
  by (cases op) (simp_all add: kernels_ok_def kernel_for_def)

lemma compare_scalar:
  assumes "kernels_ok K" "array_ok (PlainArray t cs)" "comparable t" "cell_typed t v"
  shows "compare K (PlainArray t cs) (DatumScalar t v) op = Some (Inr (map (map_option (\<lambda>x. cell_compare op x v)) cs))"
  by (simp only: compare_eq_kernel comparison_kernel_scalar [OF kernel_for_ok [OF assms(1)] assms(2-4)])

lemma compare_arrays:
  assumes "kernels_ok K" "array_ok a" "array_ok b" "array_type a = array_type b" "array_len a = array_len b"
    "comparable (array_type a)"
  shows "compare_columns K a b op = Some (Inr (map2 (both (cell_compare op)) (array_cells a) (array_cells b)))"
  by (simp only: compare_columns_def compare_eq_kernel comparison_kernel_arrays [OF kernel_for_ok [OF assms(1)] assms(2-6)])

subsection \<open>The meaning of a filter on a row\<close>

text \<open>A row of a batch: for each column that resolves, its type and optional value.\<close>

definition row_of :: "record_batch \<Rightarrow> nat \<Rightarrow> (data_type \<times> cell option) row" where
  "row_of b i column =
     (case column_index (field_names b) column of
        Inl e \<Rightarrow> None
      | Inr j \<Rightarrow> Some (array_type (batch_columns b ! j), array_cells (batch_columns b ! j) ! i))"

definition batch_ok :: "record_batch \<Rightarrow> bool" where
  "batch_ok b \<longleftrightarrow> length (field_names b) = length (batch_columns b) \<and>
     (\<forall>a \<in> set (batch_columns b). array_ok a \<and> array_len a = batch_rows b)"

text \<open>A literal as a value of a column's type.\<close>

definition literal_cell :: "formats \<Rightarrow> data_type \<Rightarrow> literal_value \<Rightarrow> string \<Rightarrow> cell option" where
  "literal_cell F t lit name =
     (let sf = show_float F; int_cell = (\<lambda>r :: dodam_error + int. case r of Inl e \<Rightarrow> None | Inr v \<Rightarrow> Some (CellInt v))
      in case t of
           Int32 \<Rightarrow> int_cell (as_i32 sf lit name)
         | Int64 \<Rightarrow> int_cell (as_i64 sf lit name)
         | UInt64 \<Rightarrow> int_cell (map_sum id int (as_u64 sf lit name))
         | Float64 \<Rightarrow> (case as_f64 sf (int_as_float F) lit name of Inl e \<Rightarrow> None | Inr v \<Rightarrow> Some (CellF64 v))
         | BooleanType \<Rightarrow> (case as_bool sf lit name of Inl e \<Rightarrow> None | Inr v \<Rightarrow> Some (CellBool v))
         | Date32 \<Rightarrow> int_cell (date_literal_as_i32 sf lit name)
         | Date64 \<Rightarrow> int_cell (date_literal_as_i64 sf lit name)
         | Decimal128 p s \<Rightarrow> int_cell (decimal_literal_as_i128 sf lit s name)
         | Timestamp u tz \<Rightarrow> int_cell (timestamp_literal_as_i64 sf lit u name)
         | Utf8 \<Rightarrow> Some (CellStr (show_literal sf lit))
         | _ \<Rightarrow> None)"

definition comparison_value :: "formats \<Rightarrow> comparison_op \<Rightarrow> string \<Rightarrow> literal_value \<Rightarrow> (data_type \<times> cell option) row \<Rightarrow> bool option" where
  "comparison_value F op name lit r =
     (if lit = LitNull then None
      else Option.bind (r name) (\<lambda>(t, v). both (cell_compare op) v (literal_cell F t lit name)))"

definition in_list_value :: "bool \<Rightarrow> bool \<Rightarrow> bool option \<Rightarrow> bool option" where
  "in_list_value negated has_null matched =
     map_option (\<lambda>b. b \<noteq> negated) (if has_null \<and> matched \<noteq> Some True then None else matched)"

fun leaf_value :: "formats \<Rightarrow> expr \<Rightarrow> (data_type \<times> cell option) row \<Rightarrow> bool option" where
  "leaf_value F (Comparison c) r = comparison_value F (cmp_op c) (cmp_column c) (cmp_value c) r"
| "leaf_value F (ColumnComparison left op right) r =
     Option.bind (r left) (\<lambda>(t, v). Option.bind (r right) (\<lambda>(u, w).
       case (t, u) of
         (Decimal128 p s, Decimal128 q s') \<Rightarrow>
           compare_decimal_row (10 ^ nat (max s s' - s)) (10 ^ nat (max s s' - s')) op v w
       | _ \<Rightarrow> both (cell_compare op) v w))"
| "leaf_value F (InList column vs negated has_null) r =
     in_list_value negated has_null
       (foldl (\<lambda>m lit. kleene_or m (comparison_value F Eq column lit r)) (Some False) vs)"
| "leaf_value F (Like column pattern negated escape ci) r =
     Option.bind (r column) (\<lambda>(t, v). map_option (\<lambda>c.
       case like_pattern_tokens (if ci then to_ascii_lowercase pattern else pattern) escape of
         Inl e \<Rightarrow> False
       | Inr tokens \<Rightarrow> like tokens (if ci then to_ascii_lowercase (the_str c) else the_str c) \<noteq> negated) v)"
| "leaf_value F (IsNull column negated) r = Option.bind (r column) (\<lambda>(t, v). Some ((v = None) \<noteq> negated))"
| "leaf_value F _ r = None"

text \<open>
  Filters whose meaning is known: patterns are not empty (those accept everything), and compared columns have a type
  whose order is modelled.
\<close>

fun evaluable :: "record_batch \<Rightarrow> expr \<Rightarrow> bool" where
  "evaluable b (Like column pattern negated escape ci) = (pattern \<noteq> [])"
| "evaluable b (ColumnComparison left op right) =
     (case column_index (field_names b) left of Inl e \<Rightarrow> True | Inr j \<Rightarrow> comparable (array_type (batch_columns b ! j)))"
| "evaluable b (Not e) = evaluable b e"
| "evaluable b (And l r) = (evaluable b l \<and> evaluable b r)"
| "evaluable b (Or l r) = (evaluable b l \<and> evaluable b r)"
| "evaluable b e = True"

text \<open>An outcome that is an error or the mask of a function of the row number, and no panic.\<close>

definition rowwise :: "nat \<Rightarrow> mask outcome \<Rightarrow> (nat \<Rightarrow> bool option) \<Rightarrow> bool" where
  "rowwise n r f \<longleftrightarrow> (case r of None \<Rightarrow> False | Some (Inl e) \<Rightarrow> True | Some (Inr m) \<Rightarrow> m = map f [0..<n])"

lemma rowwise_err [simp]: "rowwise n (Some (Inl e)) f"
  by (simp add: rowwise_def)

lemma rowwise_ok [simp]: "rowwise n (Some (Inr m)) f \<longleftrightarrow> m = map f [0..<n]"
  by (simp add: rowwise_def)

lemma rowwise_bind:
  assumes "rowwise n r f" "rowwise n (g (map f [0..<n])) h"
  shows "rowwise n (outcome_bind r g) h"
  using assms by (auto simp: rowwise_def split: option.splits sum.splits)

lemma map2_upt: "map2 h (map f [0..<n]) (map g [0..<n]) = map (\<lambda>i. h (f i) (g i)) [0..<n]"
  by (rule nth_equalityI) simp_all

lemma rowwise_and:
  assumes "kernels_ok K" "rowwise n l f" "rowwise n r g"
  shows "rowwise n (outcome_bind l (\<lambda>l. outcome_bind r (and_masks K l))) (\<lambda>i. kleene_and (f i) (g i))"
  by (intro rowwise_bind [OF assms(2)] rowwise_bind [OF assms(3)]) (simp add: kernels_okD [OF assms(1)] map2_upt)

lemma rowwise_or:
  assumes "kernels_ok K" "rowwise n l f" "rowwise n r g"
  shows "rowwise n (outcome_bind l (\<lambda>l. outcome_bind r (or_masks K l))) (\<lambda>i. kleene_or (f i) (g i))"
  by (intro rowwise_bind [OF assms(2)] rowwise_bind [OF assms(3)]) (simp add: kernels_okD [OF assms(1)] map2_upt)

lemma rowwise_not:
  assumes "kernels_ok K" "rowwise n r f"
  shows "rowwise n (outcome_bind r (not_mask K)) (\<lambda>i. map_option HOL.Not (f i))"
  by (rule rowwise_bind [OF assms(2)]) (simp add: kernels_okD [OF assms(1)])

lemma map_cells_upt: "n = length cs \<Longrightarrow> map f cs = map (\<lambda>i. f (cs ! i)) [0..<n]"
  by (rule nth_equalityI) simp_all

lemma length_array_cells [simp]: "length (array_cells a) = array_len a"
  by (cases a) simp_all

lemma column_index_bound: "column_index names column = Inr j \<Longrightarrow> j < length names"
  by (auto simp: column_index_def position_eq_Some bind_eq_Some_conv split: option.splits)

lemma batch_column_cases:
  assumes "batch_ok b"
  obtains e where "column_index (field_names b) column = Inl e" "batch_column b column = Some (Inl e)"
  | a where "batch_column b column = Some (Inr a)" "array_ok a" "array_len a = batch_rows b"
      "\<And>i. row_of b i column = Some (array_type a, array_cells a ! i)"
      "\<exists>j. column_index (field_names b) column = Inr j"
proof (cases "column_index (field_names b) column")
  case (Inl e)
  then show ?thesis using that(1) by (simp add: batch_column_def)
next
  case (Inr j)
  then have "j < length (batch_columns b)" using assms column_index_bound by (metis batch_ok_def)
  then show ?thesis
    using that(2) [of "batch_columns b ! j"] assms Inr by (simp add: batch_column_def vec_get_def batch_ok_def row_of_def)
qed

lemma compare_literal_rowwise:
  assumes "kernels_ok K" "array_ok a" "array_len a = n" "array_type a = t" "comparable t" "t \<noteq> DictInt32Utf8" "cell_typed t v"
  shows "rowwise n (compare K a (DatumScalar t v) op) (\<lambda>i. both (cell_compare op) (array_cells a ! i) (Some v))"
proof -
  obtain cs where a: "a = PlainArray t cs" using assms(4,6) by (cases a) auto
  then have b: "both (cell_compare op) (cs ! i) (Some v) = map_option (\<lambda>x. cell_compare op x v) (cs ! i)" for i
    by (cases "cs ! i") (simp_all add: both_def)
  have "array_ok (PlainArray t cs)" "n = length cs" using assms(2,3) a by simp_all
  then show ?thesis
    using compare_scalar [OF assms(1) _ assms(5,7), of cs op] map_cells_upt [of n cs "map_option (\<lambda>x. cell_compare op x v)"]
    by (simp only: a rowwise_ok array_cells.simps b)
qed

lemma compare_int_literal_rowwise:
  assumes "kernels_ok K" "array_ok a" "array_len a = n" "array_type a = t" "comparable t" "t \<noteq> DictInt32Utf8"
    "\<And>v. cell_typed t (CellInt v)"
  shows "rowwise n (compare_int_literal K a op t r)
    (\<lambda>i. both (cell_compare op) (array_cells a ! i) (case r of Inl e \<Rightarrow> None | Inr v \<Rightarrow> Some (CellInt v)))"
  using compare_literal_rowwise [OF assms] by (cases r) (simp_all add: compare_int_literal_def)

lemma evaluate_comparison_rowwise:
  assumes "kernels_ok K" "batch_ok b"
  shows "rowwise (batch_rows b) (evaluate_comparison K F b c)
    (\<lambda>i. comparison_value F (cmp_op c) (cmp_column c) (cmp_value c) (row_of b i))"
proof (cases "cmp_value c = LitNull")
  case True
  then show ?thesis by (simp add: evaluate_comparison_def comparison_value_def map_replicate_const)
next
  case False
  show ?thesis
  proof (rule batch_column_cases [OF assms(2), of "cmp_column c"])
    fix a assume a: "batch_column b (cmp_column c) = Some (Inr a)" "array_ok a" "array_len a = batch_rows b"
      "\<And>i. row_of b i (cmp_column c) = Some (array_type a, array_cells a ! i)"
    note lits = compare_literal_rowwise [OF assms(1) a(2,3)] compare_int_literal_rowwise [OF assms(1) a(2,3)]
    show ?thesis
      using a(1,4) False
      by (cases "array_type a")
        (simp_all add: evaluate_comparison_def comparison_value_def literal_cell_def lits split: sum.split option.split)
  qed (use False in \<open>simp add: evaluate_comparison_def\<close>)
qed

lemma scale_loop_Inr: "scale_loop n v = Inr w \<Longrightarrow> w = v * 10 ^ n"
proof (induction n arbitrary: v)
  case (Suc n)
  have chk: "i128_checked x = Some y \<Longrightarrow> y = x" for x y by (simp add: i128_checked_def split: if_splits)
  obtain x where "i128_checked (v * 10) = Some x" "scale_loop n x = Inr w"
    using Suc.prems by (auto split: option.splits)
  then show ?case using Suc.IH [of "v * 10"] chk by (metis mult.assoc power_Suc)
qed simp

lemma decimal_align_factor_Inr: "decimal_align_factor s t = Inr f \<Longrightarrow> f = 10 ^ nat (t - s)"
  by (auto simp: decimal_align_factor_def decimal_scale_factor_def dest: scale_loop_Inr split: if_splits)

lemma map2_cells_upt: "n = length xs \<Longrightarrow> n = length ys \<Longrightarrow> map2 h xs ys = map (\<lambda>i. h (xs ! i) (ys ! i)) [0..<n]"
  by (rule nth_equalityI) simp_all

lemma compare_decimal128_columns_Inr:
  assumes "compare_decimal128_columns xs s ys t op = Inr m" "length xs = n"
  shows "m = map (\<lambda>i. compare_decimal_row (10 ^ nat (max s t - s)) (10 ^ nat (max s t - t)) op (xs ! i) (ys ! i)) [0..<n]"
  using assms by (auto simp: compare_decimal128_columns_def Let_def try_bind_eq_Inr map2_cells_upt
      dest!: decimal_align_factor_Inr split: if_splits)

lemma evaluate_column_comparison_rowwise:
  assumes "kernels_ok K" "batch_ok b" "evaluable b (ColumnComparison left op right)"
  shows "rowwise (batch_rows b) (evaluate_column_comparison K b left op right)
    (\<lambda>i. leaf_value F (ColumnComparison left op right) (row_of b i))"
proof (rule batch_column_cases [OF assms(2), of left]; rule batch_column_cases [OF assms(2), of right])
  fix a a'
  assume a: "batch_column b left = Some (Inr a)" "array_ok a" "array_len a = batch_rows b"
      "\<And>i. row_of b i left = Some (array_type a, array_cells a ! i)" "\<exists>j. column_index (field_names b) left = Inr j"
    and a': "batch_column b right = Some (Inr a')" "array_ok a'" "array_len a' = batch_rows b"
      "\<And>i. row_of b i right = Some (array_type a', array_cells a' ! i)" "\<exists>j. column_index (field_names b) right = Inr j"
  have known: "comparable (array_type a)" using assms(3) a(4) a(5) by (auto simp: row_of_def)
  have len: "batch_rows b = length (array_cells a)" "batch_rows b = length (array_cells a')" using a(3) a'(3) by simp_all
  let ?e = "InvalidFilter (left @ '' '' @ show_op op @ '' '' @ right)"
  show ?thesis
  proof (cases "\<exists>p s q t cs cs'. a = PlainArray (Decimal128 p s) cs \<and> a' = PlainArray (Decimal128 q t) cs'")
    case True
    then obtain p s q t cs cs' where d: "a = PlainArray (Decimal128 p s) cs" "a' = PlainArray (Decimal128 q t) cs'" by blast
    then have "evaluate_column_comparison K b left op right =
        Some (case compare_decimal128_columns cs s cs' t op of Inl _ \<Rightarrow> Inl ?e | Inr m \<Rightarrow> Inr m)"
      using a(1,5) a'(1,5) by (auto simp: evaluate_column_comparison_def split: sum.split)
    then show ?thesis
      using a(4) a'(4) d len compare_decimal128_columns_Inr [of cs s cs' t op _ "batch_rows b"]
      by (cases "compare_decimal128_columns cs s cs' t op") simp_all
  next
    case False
    then have ev: "evaluate_column_comparison K b left op right =
        (if array_type a \<noteq> array_type a' then Some (Inl ?e) else compare_columns K a a' op)"
      using a(1,5) a'(1,5)
      by (cases a; cases a') (auto simp: evaluate_column_comparison_def Let_def split: data_type.split)
    have "\<not> (\<exists>p s q t. array_type a = Decimal128 p s \<and> array_type a' = Decimal128 q t)"
      using False by (cases a; cases a') auto
    then have "leaf_value F (ColumnComparison left op right) (row_of b i) =
        both (cell_compare op) (array_cells a ! i) (array_cells a' ! i)" for i
      using a(4) a'(4) by (auto split: data_type.splits)
    moreover have "compare_columns K a a' op = Some (Inr (map (\<lambda>i. both (cell_compare op) (array_cells a ! i) (array_cells a' ! i))
        [0..<batch_rows b]))" if "array_type a = array_type a'"
      using compare_arrays [OF assms(1) a(2) a'(2) that _ known, of op] a(3) a'(3) map2_cells_upt [OF len] by simp
    ultimately show ?thesis by (simp only: ev rowwise_ok rowwise_err split: if_split) simp
  qed
qed (auto simp: evaluate_column_comparison_def)

lemma in_list_loop_rowwise:
  assumes "kernels_ok K" "batch_ok b" "rowwise (batch_rows b) (Some (Inr m)) f"
  shows "rowwise (batch_rows b) (in_list_loop K F b column vs m)
    (\<lambda>i. foldl (\<lambda>m lit. kleene_or m (comparison_value F Eq column lit (row_of b i))) (f i) vs)"
  using assms(3)
proof (induction vs arbitrary: m f)
  case (Cons v vs)
  let ?c = "\<lparr>cmp_column = column, cmp_op = Eq, cmp_value = v\<rparr>"
  let ?g = "\<lambda>i. comparison_value F Eq column v (row_of b i)"
  have "rowwise (batch_rows b) (evaluate_comparison K F b ?c) ?g"
    using evaluate_comparison_rowwise [OF assms(1,2), of F ?c] by simp
  then show ?case
    unfolding in_list_loop.simps
  proof (rule rowwise_bind)
    have "or_masks K m (map ?g [0..<batch_rows b]) = Some (Inr (map (\<lambda>i. kleene_or (f i) (?g i)) [0..<batch_rows b]))"
      using Cons.prems by (simp add: kernels_okD [OF assms(1)] map2_upt)
    then show "rowwise (batch_rows b) (outcome_bind (or_masks K m (map ?g [0..<batch_rows b])) (in_list_loop K F b column vs))
        (\<lambda>i. foldl (\<lambda>m lit. kleene_or m (comparison_value F Eq column lit (row_of b i))) (f i) (v # vs))"
      using Cons.IH [of "map (\<lambda>i. kleene_or (f i) (?g i)) [0..<batch_rows b]" "\<lambda>i. kleene_or (f i) (?g i)"] by simp
  qed
qed simp

lemma evaluate_in_list_rowwise:
  assumes "kernels_ok K" "batch_ok b"
  shows "rowwise (batch_rows b) (evaluate_in_list K F b column vs negated has_null)
    (\<lambda>i. leaf_value F (InList column vs negated has_null) (row_of b i))"
proof -
  let ?f = "\<lambda>i. foldl (\<lambda>m lit. kleene_or m (comparison_value F Eq column lit (row_of b i))) (Some False) vs"
  have "rowwise (batch_rows b) (in_list_loop K F b column vs (replicate (batch_rows b) (Some False))) ?f"
    using in_list_loop_rowwise [OF assms, of "replicate (batch_rows b) (Some False)" "\<lambda>_. Some False"]
    by (simp add: map_replicate_const)
  then show ?thesis
    unfolding evaluate_in_list_def
    by (rule rowwise_bind)
      (auto simp: kernels_okD [OF assms(1)] Let_def nullify_false_values_def in_list_value_def option.map_comp comp_def
        intro: option.map_ident [symmetric])
qed

lemma evaluate_like_rowwise:
  assumes "batch_ok b" "pattern \<noteq> []" "kernels_ok K"
  shows "rowwise (batch_rows b) (evaluate_like_column K F b column pattern negated escape ci)
    (\<lambda>i. leaf_value F (Like column pattern negated escape ci) (row_of b i))"
proof (rule batch_column_cases [OF assms(1), of column])
  fix a assume a: "batch_column b column = Some (Inr a)" "array_ok a" "array_len a = batch_rows b"
    "\<And>i. row_of b i column = Some (array_type a, array_cells a ! i)"
  have strings: "rowwise (batch_rows b) (Some (evaluate_like (substring_finder K) strings pattern negated escape ci))
      (\<lambda>i. leaf_value F (Like column pattern negated escape ci) (row_of b i))"
    if "strings = map (map_option the_str) (array_cells a)" for strings
    using evaluate_like_meaning [OF kernels_okD(8) [OF assms(3)] assms(2), where ci = ci and escape = escape and column = strings and negated = negated] a(3,4) that
    by (auto simp: option.map_comp comp_def map_cells_upt [of "batch_rows b" "array_cells a"] split: sum.splits)
  show ?thesis
  proof (cases a)
    case (PlainArray t cs)
    then show ?thesis using a(1) strings by (simp add: evaluate_like_column_def del: leaf_value.simps)
  next
    case (DictArray keys dictionary)
    have "map (\<lambda>key. Option.bind key (dictionary_lookup dictionary)) keys = map (map_option the_str) (array_cells a)"
      by (simp add: DictArray option.map_comp comp_def option.map_ident)
    from strings [OF this] show ?thesis using a(1) DictArray by (simp add: evaluate_like_column_def del: leaf_value.simps)
  qed
qed (simp add: evaluate_like_column_def)

lemma evaluate_is_null_rowwise:
  assumes "kernels_ok K" "batch_ok b"
  shows "rowwise (batch_rows b) (evaluate_is_null K b column negated)
    (\<lambda>i. leaf_value F (IsNull column negated) (row_of b i))"
proof (rule batch_column_cases [OF assms(2), of column])
  fix a assume a: "batch_column b column = Some (Inr a)" "array_len a = batch_rows b"
    "\<And>i. row_of b i column = Some (array_type a, array_cells a ! i)"
  then show ?thesis
    by (cases negated) (simp_all add: evaluate_is_null_def kernels_okD [OF assms(1)] map_cells_upt [of "batch_rows b" "array_cells a"])
qed (simp add: evaluate_is_null_def)

lemma evaluate_filter_rowwise:
  assumes "kernels_ok K" "batch_ok b" "evaluable b e" "eval_leaf E = leaf_value F"
  shows "rowwise (batch_rows b) (evaluate_filter K F b e) (\<lambda>i. eval_expr E e (row_of b i))"
  using assms(3)
proof (induction e)
  case (BooleanLit v)
  then show ?case by (simp add: map_replicate_const)
next
  case (Comparison c)
  then show ?case using evaluate_comparison_rowwise [OF assms(1,2)] by (simp add: assms(4))
next
  case (ColumnComparison left op right)
  then show ?case using evaluate_column_comparison_rowwise [OF assms(1,2)] by (simp add: assms(4) del: leaf_value.simps evaluable.simps)
next
  case (InList column vs negated has_null)
  then show ?case using evaluate_in_list_rowwise [OF assms(1,2)] by (simp add: assms(4) del: leaf_value.simps)
next
  case (Like column pattern negated escape ci)
  then show ?case using evaluate_like_rowwise [OF assms(2) _ assms(1)] by (simp add: assms(4) del: leaf_value.simps)
next
  case (IsNull column negated)
  then show ?case using evaluate_is_null_rowwise [OF assms(1,2)] by (simp add: assms(4) del: leaf_value.simps)
qed (simp_all add: rowwise_not rowwise_and rowwise_or assms(1))

subsection \<open>Filtering a batch\<close>

lemma select_upt:
  assumes "length xs = n"
  shows "select (map f [0..<n]) xs = map ((!) xs) (filter (\<lambda>i. f i = Some True) [0..<n])"
proof -
  have "zip (map f [0..<n]) xs = map (\<lambda>i. (f i, xs ! i)) [0..<n]"
    by (rule nth_equalityI) (simp_all add: assms)
  then show ?thesis by (simp add: select_def filter_map comp_def)
qed

lemma array_cells_select: "array_cells (array_select m a) = select m (array_cells a)"
  by (cases a) (simp_all add: select_def zip_map2 filter_map comp_def split_def)

lemma array_type_select [simp]: "array_type (array_select m a) = array_type a"
  by (cases a) simp_all

lemma row_of_select:
  assumes "batch_ok b" "m = map f [0..<batch_rows b]" "k < length (filter (\<lambda>i. f i = Some True) [0..<batch_rows b])"
  shows "row_of (batch_select m b) k = row_of b (filter (\<lambda>i. f i = Some True) [0..<batch_rows b] ! k)"
proof
  fix column
  show "row_of (batch_select m b) k column = row_of b (filter (\<lambda>i. f i = Some True) [0..<batch_rows b] ! k) column"
  proof (cases "column_index (field_names b) column")
    case (Inr j)
    then have j: "j < length (batch_columns b)" using assms(1) column_index_bound by (metis batch_ok_def)
    then have "length (array_cells (batch_columns b ! j)) = batch_rows b" using assms(1) by (simp add: batch_ok_def)
    then show ?thesis
      using Inr j assms(3) by (simp add: row_of_def batch_select_def array_cells_select assms(2) select_upt)
  qed (simp add: row_of_def batch_select_def)
qed


text \<open>Kernels that do what is documented.\<close>

definition demo_comparison :: "comparison_op \<Rightarrow> array \<Rightarrow> datum \<Rightarrow> dodam_error + mask" where
  "demo_comparison op a d =
     Inr (case d of
       DatumScalar t v \<Rightarrow> map (map_option (\<lambda>x. cell_compare op x v)) (array_cells a)
     | DatumArray b \<Rightarrow> map2 (both (cell_compare op)) (array_cells a) (array_cells b))"

definition demo_kernels :: arrow_kernels where
  "demo_kernels =
     \<lparr>kernel_eq = demo_comparison Eq, kernel_neq = demo_comparison NotEq, kernel_lt = demo_comparison Lt,
      kernel_lt_eq = demo_comparison LtEq, kernel_gt = demo_comparison Gt, kernel_gt_eq = demo_comparison GtEq,
      kernel_and_kleene = (\<lambda>l r. Inr (map2 kleene_and l r)), kernel_or_kleene = (\<lambda>l r. Inr (map2 kleene_or l r)),
      kernel_not = (\<lambda>m. Inr (map (map_option HOL.Not) m)),
      kernel_is_null = (\<lambda>a. Inr (map (\<lambda>c. Some (c = None)) (array_cells a))),
      kernel_is_not_null = (\<lambda>a. Inr (map (\<lambda>c. Some (c \<noteq> None)) (array_cells a))),
      kernel_filter = (\<lambda>b m. Inr (batch_select m b)), with_precision_and_scale = (\<lambda>p s. None),
      append_packed_range = (\<lambda>vs n w. vs @ map (bit w) [0..<n]), substring_finder = find_segment\<rparr>"

lemma demo_kernels_ok: "kernels_ok demo_kernels"
proof -
  have "comparison_kernel (demo_comparison op) op" for op
    unfolding comparison_kernel_def demo_comparison_def datum.case array_cells.simps by blast
  then show ?thesis by (simp add: kernels_ok_def demo_kernels_def finder_ok_def)
qed

definition demo_formats :: formats where
  "demo_formats = \<lparr>show_float = (\<lambda>_. ''0''), int_as_float = (\<lambda>_. 0), type_name = (\<lambda>_. [])\<rparr>"

definition demo_batch :: record_batch where
  "demo_batch = \<lparr>field_names = [''x''], batch_columns = [PlainArray Int64 [Some (CellInt 1), None, Some (CellInt 3)]], batch_rows = 3\<rparr>"

definition demo_filter :: expr where
  "demo_filter = Or (Comparison \<lparr>cmp_column = ''x'', cmp_op = Gt, cmp_value = LitInt64 2\<rparr>) (IsNull ''x'' False)"

lemma same_column_x: "physical_same_column ''x'' ''x''"
  by (subst physical_same_column.simps) simp

definition demo_row_engine :: "(data_type \<times> cell option) engine" where
  "demo_row_engine =
     \<lparr>table_rows = (\<lambda>_. []), eval_leaf = leaf_value demo_formats, row_le = (\<lambda>_ _ _. True), join_rows = (\<lambda>_ _ _ _ _ _ _ _. {}),
      merge_join_rows = (\<lambda>_ _ _ _ _ _. {}), fold_rows = (\<lambda>_ _ _. {}), merge_rows = (\<lambda>_ _ _. {})\<rparr>"


end
