(* ===== verification/Filter_View_Masks.thy ===== *)
theory Filter_View_Masks
  imports Filter_Eval
begin

text \<open>
  The evaluation of filters on batch views (\<open>execution/physical.rs\<close>): comparisons and lists on raw columns, with the
  result packed into words of 64 rows, and the proof that it agrees with the evaluation on record batches.
\<close>

subsection \<open>Filters on batch views\<close>

text \<open>The bits of a word of up to 64 rows; whether a row is selected is \<open>None\<close> where reading it panics.\<close>

fun lane_mask :: "(nat \<Rightarrow> bool option) \<Rightarrow> nat \<Rightarrow> nat list \<Rightarrow> u64 \<Rightarrow> u64 option" where
  "lane_mask value_at row [] m = Some m"
| "lane_mask value_at row (lane # lanes) m =
     Option.bind (value_at (row + lane)) (\<lambda>b. lane_mask value_at row lanes (if b then m OR push_bit lane 1 else m))"

definition append_boolean_mask_word :: "arrow_kernels \<Rightarrow> bool list \<Rightarrow> nat \<Rightarrow> u64 \<Rightarrow> bool list" where
  "append_boolean_mask_word K vs len m0 =
     (if len = 0 then vs
      else let valid_mask = (if len = 64 then - 1 else push_bit len 1 - 1); m = m0 AND valid_mask
           in if m = 0 then vs @ replicate len False
              else if m = valid_mask then vs @ replicate len True
              else append_packed_range K vs len m)"

function pack_loop :: "arrow_kernels \<Rightarrow> (nat \<Rightarrow> bool option) \<Rightarrow> nat \<Rightarrow> nat \<Rightarrow> bool list \<Rightarrow> bool list option" where
  "pack_loop K value_at len row vs =
     (if row + 64 \<le> len
      then Option.bind (lane_mask value_at row [0..<64] 0) (\<lambda>m.
             pack_loop K value_at len (row + 64) (append_boolean_mask_word K vs 64 m))
      else if row < len
      then Option.bind (lane_mask value_at row [0..<len - row] 0) (\<lambda>m.
             Some (append_boolean_mask_word K vs (len - row) m))
      else Some vs)"
  by pat_completeness auto
termination
  by (relation "measure (\<lambda>(K, value_at, len, row, vs). len - row)") auto

declare pack_loop.simps [simp del]

definition boolean_array_no_nulls_from_len :: "arrow_kernels \<Rightarrow> nat \<Rightarrow> (nat \<Rightarrow> bool option) \<Rightarrow> mask option" where
  "boolean_array_no_nulls_from_len K len value_at = map_option (map Some) (pack_loop K value_at len 0 [])"

definition boolean_array_no_nulls_from_i32_bytes ::
    "arrow_kernels \<Rightarrow> 8 word list \<Rightarrow> nat \<Rightarrow> (int \<Rightarrow> bool) \<Rightarrow> mask option" where
  "boolean_array_no_nulls_from_i32_bytes K data len value_at =
     map_option (map Some) (pack_loop K (\<lambda>row. map_option value_at (read_i32_le_unaligned data row)) len 0 [])"

definition boolean_array_no_nulls_from_i64_bytes ::
    "arrow_kernels \<Rightarrow> 8 word list \<Rightarrow> nat \<Rightarrow> (int \<Rightarrow> bool) \<Rightarrow> mask option" where
  "boolean_array_no_nulls_from_i64_bytes K data len value_at =
     map_option (map Some) (pack_loop K (\<lambda>row. map_option value_at (read_i64_le_unaligned data row)) len 0 [])"

text \<open>The loop with a builder, for views with nulls.\<close>

fun builder_loop ::
    "(nat \<Rightarrow> int option) \<Rightarrow> vector_view \<Rightarrow> (int \<Rightarrow> bool option) \<Rightarrow> nat list \<Rightarrow> mask \<Rightarrow> mask option" where
  "builder_loop value_of v result_of [] out = Some out"
| "builder_loop value_of v result_of (row # rows) out =
     Option.bind (view_is_null v row) (\<lambda>null.
       if null then builder_loop value_of v result_of rows (out @ [None])
       else Option.bind (value_of row) (\<lambda>x. builder_loop value_of v result_of rows (out @ [result_of x])))"

definition compare_i64_view :: "arrow_kernels \<Rightarrow> vector_view \<Rightarrow> comparison_op \<Rightarrow> int \<Rightarrow> mask option" where
  "compare_i64_view K v op literal =
     (case values_if_null_free v of
        Some raw \<Rightarrow>
          boolean_array_no_nulls_from_len K (length raw) (\<lambda>row. map_option (\<lambda>x. compare_ints x op literal) (vec_get raw row))
      | None \<Rightarrow>
          (case raw_bytes v of
             Some (data, len) \<Rightarrow> boolean_array_no_nulls_from_i64_bytes K data len (\<lambda>x. compare_ints x op literal)
           | None \<Rightarrow> builder_loop (i64_value v) v (\<lambda>x. Some (compare_ints x op literal)) [0..<view_len v] []))"

definition compare_i32_view :: "arrow_kernels \<Rightarrow> vector_view \<Rightarrow> comparison_op \<Rightarrow> int \<Rightarrow> mask option" where
  "compare_i32_view K v op literal =
     (case values_if_null_free v of
        Some raw \<Rightarrow>
          boolean_array_no_nulls_from_len K (length raw) (\<lambda>row. map_option (\<lambda>x. compare_ints x op literal) (vec_get raw row))
      | None \<Rightarrow>
          (case raw_bytes v of
             Some (data, len) \<Rightarrow> boolean_array_no_nulls_from_i32_bytes K data len (\<lambda>x. compare_ints x op literal)
           | None \<Rightarrow> builder_loop (i32_value v) v (\<lambda>x. Some (compare_ints x op literal)) [0..<view_len v] []))"

definition compare_date32_view :: "arrow_kernels \<Rightarrow> vector_view \<Rightarrow> comparison_op \<Rightarrow> int \<Rightarrow> mask option" where
  "compare_date32_view K v op literal =
     (case values_if_null_free v of
        Some raw \<Rightarrow>
          boolean_array_no_nulls_from_len K (length raw) (\<lambda>row. map_option (\<lambda>x. compare_ints x op literal) (vec_get raw row))
      | None \<Rightarrow>
          (case raw_bytes v of
             Some (data, len) \<Rightarrow> boolean_array_no_nulls_from_i32_bytes K data len (\<lambda>x. compare_ints x op literal)
           | None \<Rightarrow> builder_loop (date32_value v) v (\<lambda>x. Some (compare_ints x op literal)) [0..<view_len v] []))"

fun small_in_list_match :: "int \<Rightarrow> int list \<Rightarrow> bool" where
  "small_in_list_match x [] = False"
| "small_in_list_match x [a] = (x = a)"
| "small_in_list_match x [a, b] = (x = a \<or> x = b)"
| "small_in_list_match x [a, b, c] = (x = a \<or> x = b \<or> x = c)"
| "small_in_list_match x [a, b, c, d] = (x = a \<or> x = b \<or> x = c \<or> x = d)"
| "small_in_list_match x xs = (x \<in> set xs)"

definition append_in_list_result :: "bool \<Rightarrow> bool \<Rightarrow> bool \<Rightarrow> bool option" where
  "append_in_list_result matched negated has_null =
     (if matched then Some (\<not> negated) else if has_null then None else Some negated)"

definition selected_in_list_result :: "bool \<Rightarrow> bool \<Rightarrow> bool \<Rightarrow> bool" where
  "selected_in_list_result matched negated has_null =
     (if matched then \<not> negated else if has_null then False else negated)"

definition in_list_i64_view :: "arrow_kernels \<Rightarrow> vector_view \<Rightarrow> int list \<Rightarrow> bool \<Rightarrow> bool \<Rightarrow> mask option" where
  "in_list_i64_view K v xs negated has_null =
     (let selected = (\<lambda>x. selected_in_list_result (small_in_list_match x xs) negated False);
          slow = builder_loop (i64_value v) v (\<lambda>x. append_in_list_result (small_in_list_match x xs) negated has_null)
            [0..<view_len v] []
      in if has_null then slow
         else case values_if_null_free v of
                Some raw \<Rightarrow> boolean_array_no_nulls_from_len K (length raw) (\<lambda>row. map_option selected (vec_get raw row))
              | None \<Rightarrow>
                  (case raw_bytes v of
                     Some (data, len) \<Rightarrow> boolean_array_no_nulls_from_i64_bytes K data len selected
                   | None \<Rightarrow> slow))"

definition in_list_i32_view :: "arrow_kernels \<Rightarrow> vector_view \<Rightarrow> int list \<Rightarrow> bool \<Rightarrow> bool \<Rightarrow> mask option" where
  "in_list_i32_view K v xs negated has_null =
     (let selected = (\<lambda>x. selected_in_list_result (small_in_list_match x xs) negated False);
          slow = builder_loop (i32_value v) v (\<lambda>x. append_in_list_result (small_in_list_match x xs) negated has_null)
            [0..<view_len v] []
      in if has_null then slow
         else case values_if_null_free v of
                Some raw \<Rightarrow> boolean_array_no_nulls_from_len K (length raw) (\<lambda>row. map_option selected (vec_get raw row))
              | None \<Rightarrow>
                  (case raw_bytes v of
                     Some (data, len) \<Rightarrow> boolean_array_no_nulls_from_i32_bytes K data len selected
                   | None \<Rightarrow> slow))"

definition projected_view_column_index :: "string list \<Rightarrow> string \<Rightarrow> nat option" where
  "projected_view_column_index columns column = position (\<lambda>candidate. candidate = column) columns"

text \<open>A mask of a view, wrapped as \<open>Ok(Some(mask))\<close>.\<close>

definition view_mask :: "mask option \<Rightarrow> mask option outcome" where
  "view_mask m = map_option (\<lambda>m. Inr (Some m)) m"

definition evaluate_projected_view_comparison_mask ::
    "arrow_kernels \<Rightarrow> formats \<Rightarrow> batch_view \<Rightarrow> string list \<Rightarrow> comparison_expr \<Rightarrow> mask option outcome" where
  "evaluate_projected_view_comparison_mask K F view columns comparison =
     (let value0 = cmp_value comparison; name = cmp_column comparison; op = cmp_op comparison; sf = show_float F
      in if value0 = LitNull then Some (Inr (Some (replicate (view_num_rows view) None)))
         else case projected_view_column_index columns name of
                None \<Rightarrow> Some (Inr None)
              | Some index \<Rightarrow>
                  (case i64_vector view index of
                     Some vs \<Rightarrow> outcome_bind (Some (as_i64 sf value0 name)) (\<lambda>v. view_mask (compare_i64_view K vs op v))
                   | None \<Rightarrow>
                  (case i32_vector view index of
                     Some vs \<Rightarrow> outcome_bind (Some (as_i32 sf value0 name)) (\<lambda>v. view_mask (compare_i32_view K vs op v))
                   | None \<Rightarrow>
                  (case date32_vector view index of
                     Some vs \<Rightarrow>
                       outcome_bind (Some (date_literal_as_i32 sf value0 name)) (\<lambda>v. view_mask (compare_date32_view K vs op v))
                   | None \<Rightarrow> Some (Inr None)))))"

fun collect_literals :: "(literal_value \<Rightarrow> dodam_error + int) \<Rightarrow> literal_value list \<Rightarrow> dodam_error + int list" where
  "collect_literals f [] = Inr []"
| "collect_literals f (v # vs) =
     (if v = LitNull then collect_literals f vs
      else try_bind (f v) (\<lambda>x. try_bind (collect_literals f vs) (\<lambda>xs. Inr (x # xs))))"

definition evaluate_projected_view_in_list_mask ::
    "arrow_kernels \<Rightarrow> formats \<Rightarrow> batch_view \<Rightarrow> string list \<Rightarrow> string \<Rightarrow> literal_value list \<Rightarrow> bool \<Rightarrow> bool \<Rightarrow>
       mask option outcome" where
  "evaluate_projected_view_in_list_mask K F view columns column vs negated has_null =
     (case projected_view_column_index columns column of
        None \<Rightarrow> Some (Inr None)
      | Some index \<Rightarrow>
          (case i64_vector view index of
             Some probe \<Rightarrow>
               outcome_bind (Some (collect_literals (\<lambda>v. as_i64 (show_float F) v column) vs)) (\<lambda>xs.
                 view_mask (in_list_i64_view K probe xs negated has_null))
           | None \<Rightarrow>
          (case i32_vector view index of
             Some probe \<Rightarrow>
               outcome_bind (Some (collect_literals (\<lambda>v. as_i32 (show_float F) v column) vs)) (\<lambda>xs.
                 view_mask (in_list_i32_view K probe xs negated has_null))
           | None \<Rightarrow> Some (Inr None))))"

text \<open>\<open>let Some(mask) = .. else { return Ok(None) }\<close>.\<close>

definition some_or_none :: "mask option outcome \<Rightarrow> (mask \<Rightarrow> mask option outcome) \<Rightarrow> mask option outcome" where
  "some_or_none r f = outcome_bind r (\<lambda>m. case m of None \<Rightarrow> Some (Inr None) | Some m \<Rightarrow> f m)"

definition wrap_mask :: "mask outcome \<Rightarrow> mask option outcome" where
  "wrap_mask r = outcome_bind r (\<lambda>m. Some (Inr (Some m)))"

fun evaluate_projected_view_expr_mask ::
    "arrow_kernels \<Rightarrow> formats \<Rightarrow> batch_view \<Rightarrow> string list \<Rightarrow> expr \<Rightarrow> mask option outcome" where
  "evaluate_projected_view_expr_mask K F view columns (BooleanLit value0) =
     Some (Inr (Some (replicate (view_num_rows view) value0)))"
| "evaluate_projected_view_expr_mask K F view columns (Comparison comparison) =
     evaluate_projected_view_comparison_mask K F view columns comparison"
| "evaluate_projected_view_expr_mask K F view columns (InList column vs negated has_null) =
     evaluate_projected_view_in_list_mask K F view columns column vs negated has_null"
| "evaluate_projected_view_expr_mask K F view columns (Not e) =
     some_or_none (evaluate_projected_view_expr_mask K F view columns e) (\<lambda>m. wrap_mask (not_mask K m))"
| "evaluate_projected_view_expr_mask K F view columns (And l r) =
     some_or_none (evaluate_projected_view_expr_mask K F view columns l) (\<lambda>l.
     some_or_none (evaluate_projected_view_expr_mask K F view columns r) (\<lambda>r. wrap_mask (and_masks K l r)))"
| "evaluate_projected_view_expr_mask K F view columns (Or l r) =
     some_or_none (evaluate_projected_view_expr_mask K F view columns l) (\<lambda>l.
     some_or_none (evaluate_projected_view_expr_mask K F view columns r) (\<lambda>r. wrap_mask (or_masks K l r)))"
| "evaluate_projected_view_expr_mask K F view columns _ = Some (Inr None)"

subsection \<open>Packing\<close>

lemma lane_mask_bits:
  assumes "\<And>lane. lane \<in> set lanes \<Longrightarrow> value_at (row + lane) = Some (f (row + lane)) \<and> lane < 64"
  shows "\<exists>m'. lane_mask value_at row lanes m = Some m' \<and> (\<forall>i < 64. bit m' i \<longleftrightarrow> bit m i \<or> i \<in> set lanes \<and> f (row + i))"
  using assms
proof (induction lanes arbitrary: m)
  case (Cons lane lanes)
  let ?m = "if f (row + lane) then m OR push_bit lane 1 else m"
  have v: "value_at (row + lane) = Some (f (row + lane))" "lane < 64" using Cons.prems [of lane] by simp_all
  obtain m' where m': "lane_mask value_at row lanes ?m = Some m'"
    "\<And>i. i < 64 \<Longrightarrow> bit m' i \<longleftrightarrow> bit ?m i \<or> i \<in> set lanes \<and> f (row + i)"
    using Cons.IH [of ?m] Cons.prems by auto
  have "bit ?m i \<longleftrightarrow> bit m i \<or> i = lane \<and> f (row + i)" if "i < 64" for i
    using that by (auto simp: bit_or_iff bit_exp_iff)
  then show ?case using v m' by auto
qed simp

lemma append_boolean_mask_word_bits:
  assumes "kernels_ok K" "n \<le> 64"
  shows "append_boolean_mask_word K vs n m = vs @ map (bit m) [0..<n]"
proof -
  let ?valid = "if n = 64 then - 1 else push_bit n 1 - 1 :: u64"
  have "?valid = mask n" using assms(2) by (auto simp: mask_eq_exp_minus_1)
  then have b: "bit ?valid i" if "i < n" for i using that assms(2) by (simp add: bit_mask_iff)
  have m: "map (bit (m AND ?valid)) [0..<n] = map (bit m) [0..<n]" using b by (auto simp: bit_and_iff)
  have z: "replicate n False = map (bit m) [0..<n]" if "m AND ?valid = 0"
    using m that by (simp add: list_eq_iff_nth_eq)
  have o: "replicate n True = map (bit m) [0..<n]" if "m AND ?valid = ?valid"
  proof -
    have "map (bit (m AND ?valid)) [0..<n] = map (\<lambda>_. True) [0..<n]" unfolding that using b by auto
    then show ?thesis using m by (simp add: map_replicate_const)
  qed
  show ?thesis
    unfolding append_boolean_mask_word_def Let_def kernels_okD(7) [OF assms] m using z o by auto
qed

lemma lane_block:
  assumes "\<And>row. row < len \<Longrightarrow> value_at row = Some (f row)" "n \<le> 64" "row + n \<le> len"
  shows "\<exists>m. lane_mask value_at row [0..<n] 0 = Some m \<and> map (bit m) [0..<n] = map f [row..<row + n]"
proof -
  obtain m where "lane_mask value_at row [0..<n] 0 = Some m"
    "\<forall>i < 64. bit m i \<longleftrightarrow> bit (0 :: u64) i \<or> i \<in> set [0..<n] \<and> f (row + i)"
    using lane_mask_bits [of "[0..<n]" value_at row f 0] assms by auto
  moreover from this(2) have "map (bit m) [0..<n] = map f [row..<row + n]"
    using assms(2) by (intro nth_equalityI) simp_all
  ultimately show ?thesis by blast
qed

lemma pack_loop_correct:
  assumes "kernels_ok K" "\<And>row. row < len \<Longrightarrow> value_at row = Some (f row)"
  shows "pack_loop K value_at len row vs = Some (vs @ map f [row..<len])"
proof (induction "len - row" arbitrary: row vs rule: less_induct)
  case less
  show ?case
  proof (cases "row + 64 \<le> len")
    case True
    obtain m where m: "lane_mask value_at row [0..<64] 0 = Some m" "map (bit m) [0..<64] = map f [row..<row + 64]"
      using lane_block [of len value_at f 64 row] assms(2) True by auto
    have "[row..<len] = [row..<row + 64] @ [row + 64..<len]"
      using True upt_add_eq_append [of row "row + 64" "len - (row + 64)"] by simp
    then show ?thesis
      using less [of "row + 64" "vs @ map (bit m) [0..<64]"] True m
      by (simp add: pack_loop.simps [of K value_at len row vs] append_boolean_mask_word_bits [OF assms(1)])
  next
    case False
    show ?thesis
    proof (cases "row < len")
      case True
      have n: "len - row \<le> 64" "row + (len - row) = len" using False True by auto
      obtain m where m: "lane_mask value_at row [0..<len - row] 0 = Some m" "map (bit m) [0..<len - row] = map f [row..<row + (len - row)]"
        using lane_block [of len value_at f "len - row" row, OF assms(2) n(1)] n(2) by auto
      then show ?thesis
        using False True n append_boolean_mask_word_bits [OF assms(1) n(1), of vs m]
        by (simp add: pack_loop.simps [of K value_at len row vs])
    qed (use False in \<open>simp add: pack_loop.simps [of K value_at len row vs]\<close>)
  qed
qed

subsection \<open>Views\<close>

text \<open>The two results for a list, with and without nulls among its values.\<close>

lemma small_in_list_match_iff [simp]: "small_in_list_match x xs \<longleftrightarrow> x \<in> set xs"
  by (cases "(x, xs)" rule: small_in_list_match.cases) auto

lemma selected_in_list_result_False [simp]: "selected_in_list_result matched negated False = (matched \<noteq> negated)"
  by (simp add: selected_in_list_result_def)

context le_reader
begin

lemma builder_loop_ints:
  assumes "vector_ok width v" "\<And>row. row \<in> set rows \<Longrightarrow> row < view_len v"
  shows "builder_loop (view_value rd v) v h rows out = Some (out @ map (\<lambda>row. Option.bind (vector_ints rd v ! row) h) rows)"
  using assms(2)
proof (induction rows arbitrary: out)
  case (Cons row rows)
  note v = view_reads [OF assms(1), of row]
  show ?case
  proof (cases "vector_ints rd v ! row")
    case None
    then show ?thesis using Cons v by simp
  next
    case (Some x)
    then have "view_value rd v row = Some x" "view_is_null v row = Some False" using v Cons.prems by simp_all
    then show ?thesis using Cons Some by simp
  qed
qed simp

lemma builder_loop_all:
  assumes "vector_ok width v"
  shows "builder_loop (view_value rd v) v h [0..<view_len v] [] = Some (map (\<lambda>x. Option.bind x h) (vector_ints rd v))"
  using builder_loop_ints [OF assms, of "[0..<view_len v]" h "[]"] map_cells_upt [of "view_len v" "vector_ints rd v" "\<lambda>x. Option.bind x h"]
  by (simp add: length_ints)

lemma packed_null_free:
  assumes "kernels_ok K" "values_if_null_free v = Some raw"
  shows "map_option (map Some) (pack_loop K (\<lambda>row. map_option g (vec_get raw row)) (length raw) 0 []) =
    Some (map (map_option g) (vector_ints rd v))"
  using pack_loop_correct [OF assms(1), of "length raw" "\<lambda>row. map_option g (vec_get raw row)" "\<lambda>row. g (raw ! row)" 0 "[]"]
    map_cells_upt [of "length raw" raw "\<lambda>x. Some (g x)"]
  by (simp add: vec_get_def null_free [OF assms(2)] comp_def)

lemma packed_bytes:
  assumes "kernels_ok K" "vector_ok width v" "raw_bytes v = Some (data, n)"
  shows "map_option (map Some) (pack_loop K (\<lambda>row. map_option g (rd data row)) n 0 []) =
    Some (map (map_option g) (vector_ints rd v))"
proof -
  have "map_option g (rd data row) = Some (g (the (rd data row)))" if "row < n" for row
    using bytes(3) [OF assms(3,2) that] by auto
  then have "pack_loop K (\<lambda>row. map_option g (rd data row)) n 0 [] = Some (map (\<lambda>row. g (the (rd data row))) [0..<n])"
    using pack_loop_correct [OF assms(1), of n "\<lambda>row. map_option g (rd data row)" "\<lambda>row. g (the (rd data row))" 0 "[]"] by simp
  moreover have "Some (g (the (rd data row))) = map_option g (rd data row)" if "row < n" for row
    using bytes(3) [OF assms(3,2) that] by auto
  ultimately show ?thesis by (auto simp: bytes(2) [OF assms(3,2)])
qed

end

lemmas view_defs = boolean_array_no_nulls_from_len_def boolean_array_no_nulls_from_i32_bytes_def
  boolean_array_no_nulls_from_i64_bytes_def i64_value_def i32_value_def date32_value_def

lemma bind_Some_eq_map: "Option.bind x (\<lambda>x. Some (g x)) = map_option g x"
  by (cases x) simp_all

lemma compare_i64_view_ints:
  assumes "kernels_ok K" "vector_ok 8 v"
  shows "compare_i64_view K v op lit =
      Some (map (map_option (\<lambda>x. compare_ints x op lit)) (vector_ints read_i64_le_unaligned v))"
  using assms i64le.builder_loop_all [OF assms(2)]
  by (auto simp: compare_i64_view_def view_defs i64le.packed_null_free i64le.packed_bytes bind_Some_eq_map split: option.split)

lemma compare_i32_view_ints:
  assumes "kernels_ok K" "vector_ok 4 v"
  shows "compare_i32_view K v op lit =
      Some (map (map_option (\<lambda>x. compare_ints x op lit)) (vector_ints read_i32_le_unaligned v))"
  using assms i32le.builder_loop_all [OF assms(2)]
  by (auto simp: compare_i32_view_def view_defs i32le.packed_null_free i32le.packed_bytes bind_Some_eq_map split: option.split)

lemma compare_date32_view_ints:
  assumes "kernels_ok K" "vector_ok 4 v"
  shows "compare_date32_view K v op lit =
      Some (map (map_option (\<lambda>x. compare_ints x op lit)) (vector_ints read_i32_le_unaligned v))"
proof -
  have "date32_value = i32_value" by (simp add: date32_value_def i32_value_def)
  then have "compare_date32_view K v op lit = compare_i32_view K v op lit"
    by (simp only: compare_i32_view_def compare_date32_view_def)
  then show ?thesis using compare_i32_view_ints [OF assms] by (simp only:)
qed

lemma append_in_list_result_no_null: "append_in_list_result matched negated False = Some (matched \<noteq> negated)"
  by (simp add: append_in_list_result_def)

lemma in_list_i64_view_ints:
  assumes "kernels_ok K" "vector_ok 8 v"
  shows "in_list_i64_view K v xs negated has_null =
      Some (map (\<lambda>x. Option.bind x (\<lambda>x. append_in_list_result (x \<in> set xs) negated has_null)) (vector_ints read_i64_le_unaligned v))"
  using assms i64le.builder_loop_all [OF assms(2)]
  by (auto simp: in_list_i64_view_def Let_def view_defs append_in_list_result_no_null bind_Some_eq_map
      i64le.packed_null_free i64le.packed_bytes split: option.split)

lemma in_list_i32_view_ints:
  assumes "kernels_ok K" "vector_ok 4 v"
  shows "in_list_i32_view K v xs negated has_null =
      Some (map (\<lambda>x. Option.bind x (\<lambda>x. append_in_list_result (x \<in> set xs) negated has_null)) (vector_ints read_i32_le_unaligned v))"
  using assms i32le.builder_loop_all [OF assms(2)]
  by (auto simp: in_list_i32_view_def Let_def view_defs append_in_list_result_no_null bind_Some_eq_map
      i32le.packed_null_free i32le.packed_bytes split: option.split)

subsection \<open>The batch behind a view\<close>

definition int_cells :: "int option list \<Rightarrow> cell option list" where
  "int_cells xs = map (map_option CellInt) xs"

fun raw_array :: "raw_column \<Rightarrow> array" where
  "raw_array (RawI64 vs) = PlainArray Int64 (int_cells (map Some vs))"
| "raw_array (RawI64Bytes data n) = PlainArray Int64 (int_cells (vector_ints read_i64_le_unaligned (ViewRawBytes data n)))"
| "raw_array (RawI64Nullable vs levels) = PlainArray Int64 (int_cells (vector_ints read_i64_le_unaligned (ViewRawNullable vs levels)))"
| "raw_array (RawI32 vs) = PlainArray Int32 (int_cells (map Some vs))"
| "raw_array (RawI32Bytes data n) = PlainArray Int32 (int_cells (vector_ints read_i32_le_unaligned (ViewRawBytes data n)))"
| "raw_array (RawI32Nullable vs levels) = PlainArray Int32 (int_cells (vector_ints read_i32_le_unaligned (ViewRawNullable vs levels)))"
| "raw_array (RawDate32 vs) = PlainArray Date32 (int_cells (map Some vs))"
| "raw_array (RawDate32Bytes data n) = PlainArray Date32 (int_cells (vector_ints read_i32_le_unaligned (ViewRawBytes data n)))"
| "raw_array (RawDecimal128I64 vs p s) = PlainArray (Decimal128 p s) (int_cells (map Some vs))"
| "raw_array (RawDecimal128I64Bytes data n p s) =
     PlainArray (Decimal128 p s) (int_cells (vector_ints read_i64_le_unaligned (ViewRawBytes data n)))"

fun raw_column_ok :: "raw_column \<Rightarrow> bool" where
  "raw_column_ok (RawI64Bytes data n) = (8 * n \<le> length data)"
| "raw_column_ok (RawI64Nullable vs levels) = vector_ok 8 (ViewRawNullable vs levels)"
| "raw_column_ok (RawI32Bytes data n) = (4 * n \<le> length data)"
| "raw_column_ok (RawI32Nullable vs levels) = vector_ok 4 (ViewRawNullable vs levels)"
| "raw_column_ok (RawDate32Bytes data n) = (4 * n \<le> length data)"
| "raw_column_ok (RawDecimal128I64Bytes data n p s) = (8 * n \<le> length data)"
| "raw_column_ok c = True"

fun view_batch :: "string list \<Rightarrow> batch_view \<Rightarrow> record_batch" where
  "view_batch columns (ViewRecordBatch b) = b\<lparr>field_names := columns\<rparr>"
| "view_batch columns (ViewRawColumns cs) =
     \<lparr>field_names = columns, batch_columns = map raw_array cs, batch_rows = view_num_rows (ViewRawColumns cs)\<rparr>"

definition view_ok :: "string list \<Rightarrow> batch_view \<Rightarrow> bool" where
  "view_ok columns view \<longleftrightarrow>
     length columns = view_num_columns view \<and>
     (case view of
        ViewRecordBatch b \<Rightarrow> \<forall>a \<in> set (batch_columns b). array_ok a \<and> array_len a = batch_rows b
      | ViewRawColumns cs \<Rightarrow> \<forall>c \<in> set cs. raw_column_ok c \<and> raw_column_len c = view_num_rows view)"

lemma length_int_cells [simp]: "length (int_cells xs) = length xs"
  by (simp add: int_cells_def)

lemma array_ok_int_cells:
  assumes "\<And>i. cell_typed t (CellInt i)"
  shows "array_ok (PlainArray t (int_cells xs))"
  using assms by (auto simp: int_cells_def list_all_iff option.pred_set)

lemma array_len_raw_array: "raw_column_ok c \<Longrightarrow> array_len (raw_array c) = raw_column_len c"
  by (cases c) (simp_all add: i64le.length_ints)

lemma array_ok_raw_array: "array_ok (raw_array c)"
  by (cases c) (simp_all only: raw_array.simps, (rule array_ok_int_cells, simp)+)

lemma view_batch_ok: "view_ok columns view \<Longrightarrow> batch_ok (view_batch columns view)"
  by (cases view) (auto simp: view_ok_def batch_ok_def array_len_raw_array array_ok_raw_array)

lemma batch_rows_view_batch [simp]: "batch_rows (view_batch columns view) = view_num_rows view"
  by (cases view) simp_all

lemma field_names_view_batch [simp]: "field_names (view_batch columns view) = columns"
  by (cases view) simp_all

lemma int_cells_downcast:
  assumes "array_ok (PlainArray t cs)" "t = Int64 \<or> t = Int32 \<or> t = Date32"
  shows "int_cells (map (map_option the_int) cs) = cs"
proof -
  have "map_option CellInt (map_option the_int c) = c" if "c \<in> set cs" for c
  proof -
    have "pred_option (cell_typed t) c" using that assms(1) by (simp add: list_all_iff)
    then show ?thesis using assms(2) by (cases c) (auto split: cell.splits)
  qed
  then show ?thesis by (simp add: int_cells_def map_idI)
qed

lemma arrow_vector:
  assumes "view_ok columns (ViewRecordBatch b)" "index < length columns" "t = Int64 \<or> t = Int32 \<or> t = Date32"
    and "map_option ViewArrow (view_downcast (ViewRecordBatch b) t index) = Some v"
  shows "\<exists>xs. v = ViewArrow xs \<and> batch_columns b ! index = PlainArray t (int_cells xs)"
proof -
  have ix: "index < length (batch_columns b)" using assms(1,2) by (simp add: view_ok_def)
  then have ok: "array_ok (batch_columns b ! index)" using assms(1) by (simp add: view_ok_def)
  show ?thesis
  proof (cases "batch_columns b ! index")
    case (PlainArray u cs)
    then show ?thesis
      using assms(3,4) ix ok int_cells_downcast [of t cs] by (auto simp: vec_get_def simp del: array_ok.simps split: if_splits)
  qed (use assms(4) ix in \<open>simp add: vec_get_def\<close>)
qed

lemma raw_column_nth:
  assumes "view_ok columns (ViewRawColumns cs)" "index < length columns"
  shows "vec_get cs index = Some (cs ! index)" "raw_column_ok (cs ! index)"
    "batch_columns (view_batch columns (ViewRawColumns cs)) ! index = raw_array (cs ! index)"
  using assms by (simp_all add: view_ok_def vec_get_def)

lemma i64_vector_column:
  assumes "view_ok columns view" "index < length columns" "i64_vector view index = Some v"
  shows "vector_ok 8 v \<and>
    batch_columns (view_batch columns view) ! index = PlainArray Int64 (int_cells (vector_ints read_i64_le_unaligned v))"
proof (cases view)
  case (ViewRecordBatch b)
  then show ?thesis using arrow_vector [of columns b index Int64 v] assms by auto
next
  case (ViewRawColumns cs)
  then show ?thesis using assms raw_column_nth [of columns cs index] by (cases "cs ! index") auto
qed

lemma i32_vector_column:
  assumes "view_ok columns view" "index < length columns" "i32_vector view index = Some v"
  shows "vector_ok 4 v \<and>
    batch_columns (view_batch columns view) ! index = PlainArray Int32 (int_cells (vector_ints read_i32_le_unaligned v))"
proof (cases view)
  case (ViewRecordBatch b)
  then show ?thesis using arrow_vector [of columns b index Int32 v] assms by auto
next
  case (ViewRawColumns cs)
  then show ?thesis using assms raw_column_nth [of columns cs index] by (cases "cs ! index") auto
qed

lemma date32_vector_column:
  assumes "view_ok columns view" "index < length columns" "date32_vector view index = Some v"
  shows "vector_ok 4 v \<and>
    batch_columns (view_batch columns view) ! index = PlainArray Date32 (int_cells (vector_ints read_i32_le_unaligned v))"
proof (cases view)
  case (ViewRecordBatch b)
  then show ?thesis using arrow_vector [of columns b index Date32 v] assms by auto
next
  case (ViewRawColumns cs)
  then show ?thesis using assms raw_column_nth [of columns cs index] by (cases "cs ! index") auto
qed

subsection \<open>Agreement of the two evaluations\<close>

text \<open>
  The filters on which the evaluations are compared: names that resolve to the column of exactly that name, lists
  that are not empty and mark their nulls.
\<close>

definition exact_name :: "string list \<Rightarrow> string \<Rightarrow> bool" where
  "exact_name columns name \<longleftrightarrow> (\<forall>n \<in> set columns. physical_same_column n name \<longrightarrow> n = name)"

fun view_filter_ok :: "string list \<Rightarrow> expr \<Rightarrow> bool" where
  "view_filter_ok columns (Comparison c) = exact_name columns (cmp_column c)"
| "view_filter_ok columns (InList column vs negated has_null) =
     (exact_name columns column \<and> vs \<noteq> [] \<and> (LitNull \<in> set vs \<longrightarrow> has_null))"
| "view_filter_ok columns (Not e) = view_filter_ok columns e"
| "view_filter_ok columns (And l r) = (view_filter_ok columns l \<and> view_filter_ok columns r)"
| "view_filter_ok columns (Or l r) = (view_filter_ok columns l \<and> view_filter_ok columns r)"
| "view_filter_ok columns e = True"

text \<open>The view gives no answer, the same error, or the same mask.\<close>

definition agrees :: "mask option outcome \<Rightarrow> mask outcome \<Rightarrow> bool" where
  "agrees r s \<longleftrightarrow>
     (case r of
        None \<Rightarrow> False
      | Some (Inl e) \<Rightarrow> s = Some (Inl e)
      | Some (Inr None) \<Rightarrow> True
      | Some (Inr (Some m)) \<Rightarrow> s = Some (Inr m))"

lemma agrees_simps [simp]:
  "agrees (Some (Inl e)) s \<longleftrightarrow> s = Some (Inl e)"
  "agrees (Some (Inr None)) s"
  "agrees (Some (Inr (Some m))) s \<longleftrightarrow> s = Some (Inr m)"
  by (simp_all add: agrees_def)

lemma agrees_cases:
  assumes "agrees r s"
  obtains e where "r = Some (Inl e)" "s = Some (Inl e)" | "r = Some (Inr None)" | m where "r = Some (Inr (Some m))" "s = Some (Inr m)"
  using assms by (auto simp: agrees_def split: option.splits sum.splits)

lemma physical_same_column_refl [simp]: "physical_same_column n n"
  by (subst physical_same_column.simps) simp

lemma column_index_exact:
  assumes "exact_name columns name" "projected_view_column_index columns name = Some index"
  shows "column_index columns name = Inr index \<and> index < length columns"
proof -
  have "position (\<lambda>n. physical_same_column n name) columns = position (\<lambda>n. n = name) columns"
    using assms(1) unfolding exact_name_def by (induction columns) auto
  moreover have "position (\<lambda>n. n = name) columns = Some index" using assms(2) by (simp add: projected_view_column_index_def)
  moreover from this have "index < length columns" unfolding position_eq_Some by simp
  ultimately show ?thesis by (simp add: column_index_def)
qed

lemma view_column:
  assumes "view_ok columns view" "exact_name columns name" "projected_view_column_index columns name = Some index"
  shows "batch_column (view_batch columns view) name = Some (Inr (batch_columns (view_batch columns view) ! index))"
proof -
  have "index < length columns" "column_index columns name = Inr index" using column_index_exact [OF assms(2,3)] by simp_all
  moreover have "length (batch_columns (view_batch columns view)) = length columns"
    using view_batch_ok [OF assms(1)] by (simp add: batch_ok_def)
  ultimately show ?thesis by (simp add: batch_column_def vec_get_def)
qed

lemma cell_compare_ints: "cell_compare op (CellInt x) (CellInt y) = compare_ints x op y"
  by (cases op) auto

lemma compare_int_cells:
  assumes "kernels_ok K" "t = Int64 \<or> t = Int32 \<or> t = Date32"
  shows "compare_int_literal K (PlainArray t (int_cells xs)) op t r =
    (case r of Inl e \<Rightarrow> Some (Inl e) | Inr y \<Rightarrow> Some (Inr (map (map_option (\<lambda>x. compare_ints x op y)) xs)))"
proof -
  have "comparable t" "\<And>i. cell_typed t (CellInt i)" using assms(2) by auto
  then show ?thesis
    using compare_scalar [OF assms(1) array_ok_int_cells, of t _ xs op]
    by (simp add: compare_int_literal_def int_cells_def option.map_comp comp_def cell_compare_ints split: sum.split)
qed

lemma comparison_agrees:
  assumes "kernels_ok K" "view_ok columns view" "exact_name columns (cmp_column c)"
  shows "agrees (evaluate_projected_view_comparison_mask K F view columns c) (evaluate_comparison K F (view_batch columns view) c)"
proof (cases "cmp_value c = LitNull")
  case True
  then show ?thesis by (simp add: evaluate_projected_view_comparison_mask_def evaluate_comparison_def)
next
  case lit: False
  show ?thesis
  proof (cases "projected_view_column_index columns (cmp_column c)")
    case None
    then show ?thesis using lit by (simp add: evaluate_projected_view_comparison_mask_def)
  next
    case (Some index)
    note col = view_column [OF assms(2,3) Some]
    have ix: "index < length columns" using column_index_exact [OF assms(3) Some] by simp
    consider v where "i64_vector view index = Some v"
      | v where "i64_vector view index = None" "i32_vector view index = Some v"
      | v where "i64_vector view index = None" "i32_vector view index = None" "date32_vector view index = Some v"
      | "i64_vector view index = None" "i32_vector view index = None" "date32_vector view index = None"
      by fastforce
    then show ?thesis
    proof cases
      case 1
      then show ?thesis
        using lit Some col i64_vector_column [OF assms(2) ix 1] compare_i64_view_ints [OF assms(1), of v]
        by (auto simp: evaluate_projected_view_comparison_mask_def evaluate_comparison_def compare_int_cells assms(1) view_mask_def
            split: sum.split)
    next
      case 2
      then show ?thesis
        using lit Some col i32_vector_column [OF assms(2) ix 2(2)] compare_i32_view_ints [OF assms(1), of v]
        by (auto simp: evaluate_projected_view_comparison_mask_def evaluate_comparison_def compare_int_cells assms(1) view_mask_def
            split: sum.split)
    next
      case 3
      then show ?thesis
        using lit Some col date32_vector_column [OF assms(2) ix 3(3)] compare_date32_view_ints [OF assms(1), of v]
        by (auto simp: evaluate_projected_view_comparison_mask_def evaluate_comparison_def compare_int_cells assms(1) view_mask_def
            split: sum.split)
    next
      case 4
      then show ?thesis using lit Some by (simp add: evaluate_projected_view_comparison_mask_def)
    qed
  qed
qed

lemma foldl_kleene_or:
  "foldl (\<lambda>a v. kleene_or a (h v)) a vs =
     (if a = Some True \<or> (\<exists>v \<in> set vs. h v = Some True) then Some True
      else if a = None \<or> (\<exists>v \<in> set vs. h v = None) then None else Some False)"
proof (induction vs arbitrary: a)
  case Nil
  show ?case by (cases a) auto
next
  case (Cons v vs)
  have "kleene_or a (h v) = (if a = Some True \<or> h v = Some True then Some True else if a = None \<or> h v = None then None else Some False)"
    by (cases "(a, h v)" rule: kleene_or.cases) auto
  then show ?case using Cons by auto
qed

text \<open>The value of one element of a list on a row.\<close>

definition element_value :: "(literal_value \<Rightarrow> dodam_error + int) \<Rightarrow> literal_value \<Rightarrow> int option \<Rightarrow> bool option" where
  "element_value f v x = (if v = LitNull then None else map_option (\<lambda>x. f v = Inr x) x)"

lemma in_list_loop_ints:
  assumes "kernels_ok K" "length xs = batch_rows b" "length m = length xs"
    and "\<And>v. v \<noteq> LitNull \<Longrightarrow> evaluate_comparison K F b \<lparr>cmp_column = column, cmp_op = Eq, cmp_value = v\<rparr> =
      (case f v of Inl e \<Rightarrow> Some (Inl e) | Inr y \<Rightarrow> Some (Inr (map (map_option (\<lambda>x. x = y)) xs)))"
  shows "in_list_loop K F b column vs m =
    (case collect_literals f vs of
       Inl e \<Rightarrow> Some (Inl e)
     | Inr ys \<Rightarrow> Some (Inr (map2 (\<lambda>a x. foldl (\<lambda>a v. kleene_or a (element_value f v x)) a vs) m xs)))"
  using assms(3)
proof (induction vs arbitrary: m)
  case Nil
  then have "map2 (\<lambda>a x. a) m xs = m" by (intro nth_equalityI) simp_all
  then show ?case by simp
next
  case (Cons v vs)
  let ?m = "map2 (\<lambda>a x. kleene_or a (element_value f v x)) m xs"
  have step: "or_masks K m vm = Some (Inr ?m)" if "vm = map (element_value f v) xs" for vm
    using Cons.prems kernels_okD(2) [OF assms(1), of m vm] that by (simp add: zip_map2 comp_def split_def)
  have two: "map2 (\<lambda>a x. foldl (\<lambda>a v. kleene_or a (element_value f v x)) a vs) ?m xs =
      map2 (\<lambda>a x. foldl (\<lambda>a v. kleene_or a (element_value f v x)) a (v # vs)) m xs"
    using Cons.prems by (intro nth_equalityI) simp_all
  show ?case
  proof (cases "v = LitNull")
    case True
    then have "evaluate_comparison K F b \<lparr>cmp_column = column, cmp_op = Eq, cmp_value = v\<rparr> = Some (Inr (map (element_value f v) xs))"
      using assms(2) by (simp add: evaluate_comparison_def element_value_def map_replicate_const comp_def list_eq_iff_nth_eq)
    then show ?thesis using step [OF refl] Cons.IH [of ?m] Cons.prems True two by (simp split: sum.split)
  next
    case False
    show ?thesis
    proof (cases "f v")
      case (Inl e)
      then show ?thesis using assms(4) [OF False] False by simp
    next
      case (Inr y)
      then have "map (map_option (\<lambda>x. x = y)) xs = map (element_value f v) xs" using False by (auto simp: element_value_def intro!: option.map_cong)
      then show ?thesis
        using assms(4) [OF False] step [of "map (map_option (\<lambda>x. x = y)) xs"] Cons.IH [of ?m] Cons.prems False Inr two
        by (simp split: sum.split)
    qed
  qed
qed

lemma collect_literals_set:
  "collect_literals f vs = Inr ys \<Longrightarrow> x \<in> set ys \<longleftrightarrow> (\<exists>v \<in> set vs. v \<noteq> LitNull \<and> f v = Inr x)"
  by (induction vs arbitrary: ys) (auto simp: try_bind_eq_Inr split: if_splits)

lemma in_list_row:
  fixes x :: "int option"
  assumes "collect_literals f vs = Inr ys" "vs \<noteq> []" "LitNull \<in> set vs \<longrightarrow> has_null"
  defines "r \<equiv> foldl (\<lambda>a v. kleene_or a (element_value f v x)) (Some False) vs"
  shows "map_option (\<lambda>b. b \<noteq> negated) (if has_null \<and> r \<noteq> Some True then None else r) =
    Option.bind x (\<lambda>x. append_in_list_result (x \<in> set ys) negated has_null)"
proof -
  have "r = (case x of None \<Rightarrow> None | Some x \<Rightarrow> if x \<in> set ys then Some True else if LitNull \<in> set vs then None else Some False)"
    unfolding r_def foldl_kleene_or
    using assms(2) by (cases x) (auto simp: element_value_def collect_literals_set [OF assms(1)] neq_Nil_conv split: if_splits)
  then show ?thesis using assms(3) by (cases x) (auto simp: append_in_list_result_def)
qed

lemma evaluate_in_list_ints:
  assumes "kernels_ok K" "length xs = batch_rows b" "vs \<noteq> []" "LitNull \<in> set vs \<longrightarrow> has_null"
    and "\<And>v. v \<noteq> LitNull \<Longrightarrow> evaluate_comparison K F b \<lparr>cmp_column = column, cmp_op = Eq, cmp_value = v\<rparr> =
      (case f v of Inl e \<Rightarrow> Some (Inl e) | Inr y \<Rightarrow> Some (Inr (map (map_option (\<lambda>x. x = y)) xs)))"
  shows "evaluate_in_list K F b column vs negated has_null =
    (case collect_literals f vs of
       Inl e \<Rightarrow> Some (Inl e)
     | Inr ys \<Rightarrow> Some (Inr (map (\<lambda>x. Option.bind x (\<lambda>x. append_in_list_result (x \<in> set ys) negated has_null)) xs)))"
proof -
  let ?r = "\<lambda>x. foldl (\<lambda>a v. kleene_or a (element_value f v x)) (Some False) vs"
  have m: "map2 (\<lambda>a x. foldl (\<lambda>a v. kleene_or a (element_value f v x)) a vs) (replicate (batch_rows b) (Some False)) xs = map ?r xs"
    using assms(2) by (intro nth_equalityI) simp_all
  have n: "map (map_option HOL.Not) (map g xs) = map (\<lambda>x. map_option (\<lambda>b. b \<noteq> True) (g x)) xs" for g :: "int option \<Rightarrow> bool option"
    by simp
  have i: "map g xs = map (\<lambda>x. map_option (\<lambda>b. b \<noteq> False) (g x)) xs" for g :: "int option \<Rightarrow> bool option"
    by (simp add: option.map_ident)
  show ?thesis
  proof (cases "collect_literals f vs")
    case (Inl e)
    then show ?thesis
      using in_list_loop_ints [OF assms(1,2) _ assms(5), of "replicate (batch_rows b) (Some False)" vs] assms(2)
      by (simp add: evaluate_in_list_def)
  next
    case (Inr ys)
    have loop: "in_list_loop K F b column vs (replicate (batch_rows b) (Some False)) = Some (Inr (map ?r xs))"
      using in_list_loop_ints [OF assms(1,2) _ assms(5), of "replicate (batch_rows b) (Some False)" vs] assms(2) Inr m by simp
    have nullify: "(if has_null then nullify_false_values (map ?r xs) else map ?r xs) =
        map (\<lambda>x. if has_null \<and> ?r x \<noteq> Some True then None else ?r x) xs"
      by (auto simp: nullify_false_values_def)
    show ?thesis
      unfolding evaluate_in_list_def loop outcome_bind_simps Let_def nullify kernels_okD(3) [OF assms(1)] Inr sum.case
        in_list_row [OF Inr assms(3,4), symmetric]
      by (cases negated) (simp_all add: option.map_ident)
  qed
qed

lemma in_list_agrees:
  assumes "kernels_ok K" "view_ok columns view" "exact_name columns column" "vs \<noteq> []" "LitNull \<in> set vs \<longrightarrow> has_null"
  shows "agrees (evaluate_projected_view_in_list_mask K F view columns column vs negated has_null)
    (evaluate_in_list K F (view_batch columns view) column vs negated has_null)"
proof (cases "projected_view_column_index columns column")
  case None
  then show ?thesis by (simp add: evaluate_projected_view_in_list_mask_def)
next
  case (Some index)
  let ?b = "view_batch columns view"
  note col = view_column [OF assms(2,3) Some]
  have ix: "index < length columns" using column_index_exact [OF assms(3) Some] by simp
  have ok: "batch_ok ?b" by (rule view_batch_ok [OF assms(2)])
  then have len: "length xs = batch_rows ?b" if "batch_columns ?b ! index = PlainArray t (int_cells xs)" for t xs
    using that ix by (metis array_len.simps(1) batch_ok_def field_names_view_batch length_int_cells nth_mem)
  consider v where "i64_vector view index = Some v"
    | v where "i64_vector view index = None" "i32_vector view index = Some v"
    | "i64_vector view index = None" "i32_vector view index = None"
    by fastforce
  then show ?thesis
  proof cases
    case 1
    note v = i64_vector_column [OF assms(2) ix 1]
    have cmp: "evaluate_comparison K F ?b \<lparr>cmp_column = column, cmp_op = Eq, cmp_value = lit\<rparr> =
        (case as_i64 (show_float F) lit column of Inl e \<Rightarrow> Some (Inl e)
         | Inr y \<Rightarrow> Some (Inr (map (map_option (\<lambda>x. x = y)) (vector_ints read_i64_le_unaligned v))))"
      if "lit \<noteq> LitNull" for lit
      using that v col by (simp add: evaluate_comparison_def compare_int_cells assms(1) split: sum.split)
    show ?thesis
      using 1 Some v evaluate_in_list_ints [OF assms(1) _ assms(4,5) cmp] len in_list_i64_view_ints [OF assms(1), of v]
      by (auto simp: evaluate_projected_view_in_list_mask_def view_mask_def split: sum.split)
  next
    case 2
    note v = i32_vector_column [OF assms(2) ix 2(2)]
    have cmp: "evaluate_comparison K F ?b \<lparr>cmp_column = column, cmp_op = Eq, cmp_value = lit\<rparr> =
        (case as_i32 (show_float F) lit column of Inl e \<Rightarrow> Some (Inl e)
         | Inr y \<Rightarrow> Some (Inr (map (map_option (\<lambda>x. x = y)) (vector_ints read_i32_le_unaligned v))))"
      if "lit \<noteq> LitNull" for lit
      using that v col by (simp add: evaluate_comparison_def compare_int_cells assms(1) split: sum.split)
    show ?thesis
      using 2 Some v evaluate_in_list_ints [OF assms(1) _ assms(4,5) cmp] len in_list_i32_view_ints [OF assms(1), of v]
      by (auto simp: evaluate_projected_view_in_list_mask_def view_mask_def split: sum.split)
  next
    case 3
    then show ?thesis using Some by (simp add: evaluate_projected_view_in_list_mask_def)
  qed
qed

text \<open>Agreement on masks of the right length, and how the connectives keep it.\<close>

definition sound :: "nat \<Rightarrow> mask option outcome \<Rightarrow> mask outcome \<Rightarrow> bool" where
  "sound n r s \<longleftrightarrow> agrees r s \<and> (\<forall>m. r = Some (Inr (Some m)) \<longrightarrow> length m = n)"

lemma soundI: "agrees r s \<Longrightarrow> rowwise n s f \<Longrightarrow> sound n r s"
  by (auto simp: sound_def rowwise_def)

lemma sound_simps [simp]:
  "sound n (Some (Inl e)) s \<longleftrightarrow> s = Some (Inl e)"
  "sound n (Some (Inr None)) s"
  "sound n (Some (Inr (Some m))) s \<longleftrightarrow> s = Some (Inr m) \<and> length m = n"
  by (auto simp: sound_def)

lemma sound_cases:
  assumes "sound n r s"
  obtains e where "r = Some (Inl e)" "s = Some (Inl e)" | "r = Some (Inr None)"
  | m where "r = Some (Inr (Some m))" "s = Some (Inr m)" "length m = n"
  using assms unfolding sound_def by (auto elim: agrees_cases)

lemma sound_not:
  assumes "kernels_ok K" "sound n r s"
  shows "sound n (some_or_none r (\<lambda>m. wrap_mask (not_mask K m))) (outcome_bind s (not_mask K))"
  using assms(2) by (cases rule: sound_cases) (simp_all add: some_or_none_def wrap_mask_def kernels_okD(3) [OF assms(1)])

lemma sound_binary:
  assumes "sound n r s" "sound n r' s'" "\<And>l m. length l = n \<Longrightarrow> length m = n \<Longrightarrow> h l m = Some (Inr (map2 g l m))"
  shows "sound n (some_or_none r (\<lambda>l. some_or_none r' (\<lambda>m. wrap_mask (h l m)))) (outcome_bind s (\<lambda>l. outcome_bind s' (h l)))"
  using assms(1)
proof (cases rule: sound_cases)
  case (3 l)
  show ?thesis using assms(2)
    by (cases rule: sound_cases) (use 3 assms(3) in \<open>simp_all add: some_or_none_def wrap_mask_def\<close>)
qed (simp_all add: some_or_none_def)

lemma view_expr_sound:
  assumes "kernels_ok K" "view_ok columns view" "view_filter_ok columns e"
  shows "sound (view_num_rows view) (evaluate_projected_view_expr_mask K F view columns e)
    (evaluate_filter K F (view_batch columns view) e)"
  using assms(3)
proof (induction e)
  case (Comparison c)
  then show ?case
    using soundI [OF comparison_agrees [OF assms(1,2)] evaluate_comparison_rowwise [OF assms(1) view_batch_ok [OF assms(2)]]]
    by simp
next
  case (InList column vs negated has_null)
  then show ?case
    using soundI [OF in_list_agrees [OF assms(1,2)] evaluate_in_list_rowwise [OF assms(1) view_batch_ok [OF assms(2)]]]
    by simp
next
  case (And l r)
  then show ?case using sound_binary [where h = "and_masks K" and g = kleene_and] kernels_okD(1) [OF assms(1)] by simp
next
  case (Or l r)
  then show ?case using sound_binary [where h = "or_masks K" and g = kleene_or] kernels_okD(2) [OF assms(1)] by simp
qed (simp_all add: sound_not [OF assms(1)])

text \<open>
  C5: the fast evaluation on views agrees with the evaluation on record batches.  For every filter whose names
  resolve exactly and whose lists are not empty and mark their nulls, evaluating it on a view of raw columns
  (decoded values, little-endian bytes, or values with definition levels) either declines, or gives the error or
  the mask that the evaluation gives on the record batch of the same columns, packed words and tail bits included;
  it never reads out of bounds.
\<close>

theorem view_mask_agrees_with_filter:
  assumes "kernels_ok K" "view_ok columns view" "view_filter_ok columns e"
  shows "case evaluate_projected_view_expr_mask K F view columns e of
      None \<Rightarrow> False
    | Some (Inl err) \<Rightarrow> evaluate_filter K F (view_batch columns view) e = Some (Inl err)
    | Some (Inr None) \<Rightarrow> True
    | Some (Inr (Some m)) \<Rightarrow> evaluate_filter K F (view_batch columns view) e = Some (Inr m)"
  using view_expr_sound [OF assms, of F] by (cases rule: sound_cases) simp_all

theorem view_mask_agrees_with_filter_witness:
  "evaluate_filter demo_kernels demo_formats (view_batch [''x''] (ViewRawColumns [RawI64Nullable [1, 3] [1, 0, 1]]))
     (InList ''x'' [LitInt64 3, LitNull] True True) = Some (Inr [None, None, Some False])"
proof -
  let ?v = "ViewRawColumns [RawI64Nullable [1, 3] [1, 0, 1]]" and ?e = "InList ''x'' [LitInt64 3, LitNull] True True"
  have "evaluate_projected_view_expr_mask demo_kernels demo_formats ?v [''x''] ?e = Some (Inr (Some [None, None, Some False]))"
    by (simp add: evaluate_projected_view_in_list_mask_def projected_view_column_index_def vec_get_def in_list_i64_view_def
        append_in_list_result_def view_mask_def i64_value_def nullable_value_index_def upt_rec)
  moreover have "view_ok [''x''] ?v" "view_filter_ok [''x''] ?e" by (simp_all add: view_ok_def exact_name_def)
  ultimately show ?thesis
    using view_mask_agrees_with_filter [OF demo_kernels_ok, of "[''x'']" ?v ?e demo_formats]
    by (simp only: option.case sum.case)
qed

text \<open>An integer column of a view has a vector of its type, and only of that one.\<close>

lemma int_vector_exists:
  assumes "view_ok columns view" "index < length columns"
    "batch_columns (view_batch columns view) ! index = PlainArray t cs"
  shows "t = Int64 \<Longrightarrow> \<exists>v. i64_vector view index = Some v"
    "t = Int32 \<Longrightarrow> i64_vector view index = None \<and> (\<exists>v. i32_vector view index = Some v)"
proof -
  have "(t = Int64 \<longrightarrow> (\<exists>v. i64_vector view index = Some v)) \<and>
      (t = Int32 \<longrightarrow> i64_vector view index = None \<and> (\<exists>v. i32_vector view index = Some v))"
  proof (cases view)
    case (ViewRecordBatch b)
    then show ?thesis using assms by (auto simp: view_ok_def vec_get_def)
  next
    case (ViewRawColumns cs)
    then show ?thesis using assms raw_column_nth [of columns cs index] by (cases "cs ! index") auto
  qed
  then show "t = Int64 \<Longrightarrow> \<exists>v. i64_vector view index = Some v"
    "t = Int32 \<Longrightarrow> i64_vector view index = None \<and> (\<exists>v. i32_vector view index = Some v)" by blast+
qed

lemma int_cells_inject [simp]: "int_cells xs = int_cells ys \<longleftrightarrow> xs = ys"
proof -
  have "inj (map_option CellInt)" by (rule option.inj_map) (simp add: inj_on_def)
  then show ?thesis by (simp add: int_cells_def inj_map_eq_map)
qed

lemma empty_in_list_view:
  assumes "kernels_ok K" "view_ok columns view" "projected_view_column_index columns column = Some index"
    "batch_columns (view_batch columns view) ! index = PlainArray t (int_cells xs)" "t = Int64 \<or> t = Int32"
  shows "evaluate_projected_view_expr_mask K F view columns (InList column [] negated False) =
    Some (Inr (Some (map (map_option (\<lambda>_. negated)) xs)))"
proof -
  have ix: "index < length columns" using assms(3) position_SomeD by (auto simp: projected_view_column_index_def)
  note e = int_vector_exists [OF assms(2) ix assms(4)]
  have r: "map (\<lambda>x. Option.bind x (\<lambda>x. append_in_list_result (x \<in> set []) negated False)) xs = map (map_option (\<lambda>_. negated)) xs"
    by (simp add: append_in_list_result_def bind_Some_eq_map)
  from assms(5) show ?thesis
  proof
    assume "t = Int64"
    with e obtain v where v: "i64_vector view index = Some v" by blast
    from i64_vector_column [OF assms(2) ix v] have "vector_ok 8 v" "vector_ints read_i64_le_unaligned v = xs"
      using assms(4) by simp_all
    then show ?thesis using v assms(3) in_list_i64_view_ints [OF assms(1), of v "[]" negated False] r
      by (simp add: evaluate_projected_view_in_list_mask_def view_mask_def)
  next
    assume "t = Int32"
    with e obtain v where v: "i64_vector view index = None" "i32_vector view index = Some v" by blast
    from i32_vector_column [OF assms(2) ix v(2)] have "vector_ok 4 v" "vector_ints read_i32_le_unaligned v = xs"
      using assms(4) by simp_all
    then show ?thesis using v assms(3) in_list_i32_view_ints [OF assms(1), of v "[]" negated False] r
      by (simp add: evaluate_projected_view_in_list_mask_def view_mask_def)
  qed
qed

lemma empty_in_list_batch:
  "kernels_ok K \<Longrightarrow> evaluate_filter K F batch (InList column [] negated False) =
     Some (Inr (replicate (batch_rows batch) (Some negated)))"
  using kernels_okD(3) by (cases negated) (simp_all add: evaluate_in_list_def)

text \<open>
  C37: on every view with an integer column the two evaluations of \<open>[NOT] IN\<close> an empty list disagree exactly at the
  null rows.  The evaluation on batches gives every row the answer of SQL, false for \<open>IN\<close> and true for \<open>NOT IN\<close>; the
  evaluation on views gives it to the rows that are not null, and null to the others.  So the masks are equal only
  for a column without nulls, and \<open>NOT IN\<close> selects every row on batches and drops the null rows on views.
\<close>

theorem empty_in_list_disagrees:
  assumes "kernels_ok K" "view_ok columns view" "projected_view_column_index columns column = Some index"
    "batch_columns (view_batch columns view) ! index = PlainArray t (int_cells xs)" "t = Int64 \<or> t = Int32"
  shows "\<exists>view_mask batch_mask.
    evaluate_projected_view_expr_mask K F view columns (InList column [] negated False) = Some (Inr (Some view_mask)) \<and>
    evaluate_filter K F (view_batch columns view) (InList column [] negated False) = Some (Inr batch_mask) \<and>
    length view_mask = length xs \<and> length batch_mask = length xs \<and>
    (\<forall>r < length xs. batch_mask ! r = Some negated \<and> view_mask ! r = (if xs ! r = None then None else Some negated)) \<and>
    (view_mask = batch_mask \<longleftrightarrow> None \<notin> set xs)"
proof -
  have ix: "index < length columns" using assms(3) position_SomeD by (auto simp: projected_view_column_index_def)
  have n: "batch_rows (view_batch columns view) = length xs"
    using view_batch_ok [OF assms(2)] ix assms(4)
    by (metis array_len.simps(1) batch_ok_def field_names_view_batch length_int_cells nth_mem)
  have "map (map_option (\<lambda>_. negated)) xs = replicate (length xs) (Some negated) \<longleftrightarrow> None \<notin> set xs"
  proof (induction xs)
    case (Cons x xs)
    then show ?case by (cases x) auto
  qed simp
  moreover have "map (map_option (\<lambda>_. negated)) xs ! r = (if xs ! r = None then None else Some negated)"
    if "r < length xs" for r
    using that by (cases "xs ! r") simp_all
  ultimately show ?thesis
    unfolding empty_in_list_view [OF assms] empty_in_list_batch [OF assms(1)] n
    by (intro exI [of _ "map (map_option (\<lambda>_. negated)) xs"] exI [of _ "replicate (length xs) (Some negated)"]) simp
qed

theorem empty_in_list_disagrees_witness:
  "\<exists>view_mask batch_mask.
     evaluate_projected_view_expr_mask demo_kernels demo_formats (ViewRawColumns [RawI64Nullable [1] [1, 0]]) [''x'']
       (InList ''x'' [] True False) = Some (Inr (Some view_mask)) \<and>
     evaluate_filter demo_kernels demo_formats (view_batch [''x''] (ViewRawColumns [RawI64Nullable [1] [1, 0]]))
       (InList ''x'' [] True False) = Some (Inr batch_mask) \<and> view_mask ! 1 = None \<and> batch_mask ! 1 = Some True"
proof -
  let ?v = "ViewRawColumns [RawI64Nullable [1] [1, 0]]"
  have "view_ok [''x''] ?v" by (simp add: view_ok_def)
  moreover have "projected_view_column_index [''x''] ''x'' = Some 0" by (simp add: projected_view_column_index_def)
  moreover have "batch_columns (view_batch [''x''] ?v) ! 0 = PlainArray Int64 (int_cells [Some 1, None])"
    by simp
  ultimately show ?thesis
    using empty_in_list_disagrees [OF demo_kernels_ok, of "[''x'']" ?v "''x''" 0 Int64 "[Some 1, None]" demo_formats True]
    by fastforce
qed

text \<open>
  A column is not looked up by its exact name first.  When an earlier field has the name as its last part, the
  earlier field is taken.
\<close>

theorem column_index_prefers_earlier_field:
  "column_index [''o.id'', ''id''] ''id'' = Inr 0 \<and> projected_view_column_index [''o.id'', ''id''] ''id'' = Some 1"
proof -
  have "physical_same_column ''o.id'' ''id''" by (subst physical_same_column.simps) simp
  then show ?thesis by (simp add: column_index_def projected_view_column_index_def)
qed

end
