(* ===== verification/Row_Group_Pruning.thy ===== *)
theory Row_Group_Pruning
  imports Filter_View_Masks "HOL-Library.List_Lexorder"
begin

text \<open>
  Which row groups of a Parquet file a scan reads (\<open>storage.rs\<close>): the statistics of a column chunk decide whether a
  pushed-down predicate can hold on a row of the group.  The metadata of the reader is a record with the fields of
  the schema and, for each row group, the optional statistics of its columns; a byte string is a string.
\<close>

subsection \<open>Metadata\<close>

datatype statistics =
    StatBoolean "bool option" "bool option"
  | StatInt32 "int option" "int option"
  | StatInt64 "int option" "int option"
  | StatDouble "u64 option" "u64 option"
  | StatByteArray "string option" "string option"
  | StatFixedLenByteArray "string option" "string option"
  | StatOther

record column_statistics =
  typed_statistics :: statistics
  min_max_deprecated :: bool
  min_is_exact :: bool
  max_is_exact :: bool

record parquet_metadata =
  schema_fields :: "(string \<times> data_type) list"
  row_group_columns :: "column_statistics option list list"

subsection \<open>Comparisons with a range\<close>

definition none_or :: "('a \<Rightarrow> bool) \<Rightarrow> 'a option \<Rightarrow> bool" where
  "none_or p x = (case x of None \<Rightarrow> True | Some x \<Rightarrow> p x)"

fun comparison_may_match :: "('a :: linorder) option \<Rightarrow> 'a option \<Rightarrow> 'a \<Rightarrow> comparison_op \<Rightarrow> bool" where
  "comparison_may_match min0 max0 v Eq = (none_or (\<lambda>m. v \<ge> m) min0 \<and> none_or (\<lambda>m. v \<le> m) max0)"
| "comparison_may_match min0 max0 v NotEq = True"
| "comparison_may_match min0 max0 v Lt = none_or (\<lambda>m. m < v) min0"
| "comparison_may_match min0 max0 v LtEq = none_or (\<lambda>m. m \<le> v) min0"
| "comparison_may_match min0 max0 v Gt = none_or (\<lambda>m. m > v) max0"
| "comparison_may_match min0 max0 v GtEq = none_or (\<lambda>m. m \<ge> v) max0"

fun bytes_comparison_may_match :: "string option \<Rightarrow> string option \<Rightarrow> string \<Rightarrow> comparison_op \<Rightarrow> bool" where
  "bytes_comparison_may_match min0 max0 v Eq =
     (none_or (\<lambda>m. \<not> bytes_less v m) min0 \<and> none_or (\<lambda>m. \<not> bytes_less m v) max0)"
| "bytes_comparison_may_match min0 max0 v NotEq = True"
| "bytes_comparison_may_match min0 max0 v Lt = none_or (\<lambda>m. bytes_less m v) min0"
| "bytes_comparison_may_match min0 max0 v LtEq = none_or (\<lambda>m. \<not> bytes_less v m) min0"
| "bytes_comparison_may_match min0 max0 v Gt = none_or (\<lambda>m. bytes_less v m) max0"
| "bytes_comparison_may_match min0 max0 v GtEq = none_or (\<lambda>m. \<not> bytes_less m v) max0"

text \<open>\<open>f64\<close> values by their bits: not-a-number, and the order of the language, in which both zeros are equal.\<close>

definition is_nan :: "u64 \<Rightarrow> bool" where
  "is_nan b \<longleftrightarrow> uint b mod 2 ^ 63 > 2047 * 2 ^ 52"

definition ieee_key :: "u64 \<Rightarrow> int" where
  "ieee_key b = (if uint b < 2 ^ 63 then uint b else 2 ^ 63 - uint b)"

fun float_comparison_may_match :: "u64 option \<Rightarrow> u64 option \<Rightarrow> u64 \<Rightarrow> comparison_op \<Rightarrow> bool" where
  "float_comparison_may_match min0 max0 v op =
     (is_nan v \<or> \<not> none_or (\<lambda>m. \<not> is_nan m) min0 \<or> \<not> none_or (\<lambda>m. \<not> is_nan m) max0 \<or>
      (case op of
         Eq \<Rightarrow> none_or (\<lambda>m. ieee_key v \<ge> ieee_key m) min0 \<and> none_or (\<lambda>m. ieee_key v \<le> ieee_key m) max0
       | NotEq \<Rightarrow> True
       | Lt \<Rightarrow> none_or (\<lambda>m. ieee_key m < ieee_key v) min0
       | LtEq \<Rightarrow> none_or (\<lambda>m. ieee_key m \<le> ieee_key v) min0
       | Gt \<Rightarrow> none_or (\<lambda>m. ieee_key m > ieee_key v) max0
       | GtEq \<Rightarrow> none_or (\<lambda>m. ieee_key m \<ge> ieee_key v) max0))"

definition prefix_range_may_match :: "string option \<Rightarrow> string option \<Rightarrow> string \<Rightarrow> string option \<Rightarrow> bool" where
  "prefix_range_may_match min0 max0 lower_bound upper_bound \<longleftrightarrow>
     none_or (\<lambda>m. \<not> bytes_less m lower_bound) max0 \<and>
     none_or (\<lambda>upper. none_or (\<lambda>m. bytes_less m upper) min0) upper_bound"

text \<open>Big-endian two's complement of up to sixteen bytes.\<close>

fun be_nat :: "string \<Rightarrow> nat \<Rightarrow> nat" where
  "be_nat [] acc = acc"
| "be_nat (b # bs) acc = be_nat bs (256 * acc + of_char b)"

definition decimal_bytes_to_i128 :: "string \<Rightarrow> int option" where
  "decimal_bytes_to_i128 value0 =
     (if value0 = [] \<or> length value0 > 16 then None
      else let sign = (if (of_char (hd value0) :: nat) < 128 then CHR 0x00 else CHR 0xFF);
               n = int (be_nat (replicate (16 - length value0) sign @ value0) 0)
           in Some (if n < 2 ^ 127 then n else n - 2 ^ 128))"

subsection \<open>Predicates and row groups\<close>

definition int_may_match :: "int option \<Rightarrow> int option \<Rightarrow> comparison_op \<Rightarrow> dodam_error + int \<Rightarrow> dodam_error + bool" where
  "int_may_match min0 max0 op literal = try_bind literal (\<lambda>v. Inr (comparison_may_match min0 max0 v op))"

definition decimal_bytes_may_match ::
    "string option \<Rightarrow> string option \<Rightarrow> comparison_op \<Rightarrow> dodam_error + int \<Rightarrow> dodam_error + bool" where
  "decimal_bytes_may_match min0 max0 op literal =
     try_bind literal (\<lambda>v.
       case Option.bind min0 decimal_bytes_to_i128 of
         None \<Rightarrow> Inr True
       | Some lo \<Rightarrow>
           (case Option.bind max0 decimal_bytes_to_i128 of
              None \<Rightarrow> Inr True
            | Some hi \<Rightarrow> Inr (comparison_may_match (Some lo) (Some hi) v op)))"

definition inexact :: "column_statistics \<Rightarrow> bool" where
  "inexact st \<longleftrightarrow> min_max_deprecated st \<or> \<not> min_is_exact st \<or> \<not> max_is_exact st"

definition may_contain_comparison ::
    "formats \<Rightarrow> column_statistics \<Rightarrow> data_type \<Rightarrow> comparison_expr \<Rightarrow> dodam_error + bool" where
  "may_contain_comparison F st t c =
     (let lit = cmp_value c; name = cmp_column c; op = cmp_op c; sf = show_float F
      in if inexact st then Inr True
         else case (t, typed_statistics st) of
                (BooleanType, StatBoolean lo hi) \<Rightarrow> try_bind (as_bool sf lit name) (\<lambda>v. Inr (comparison_may_match lo hi v op))
              | (Int32, StatInt32 lo hi) \<Rightarrow> int_may_match lo hi op (as_i32 sf lit name)
              | (Int64, StatInt64 lo hi) \<Rightarrow> int_may_match lo hi op (as_i64 sf lit name)
              | (Float64, StatDouble lo hi) \<Rightarrow>
                  try_bind (as_f64 sf (int_as_float F) lit name) (\<lambda>v. Inr (float_comparison_may_match lo hi v op))
              | (Date32, StatInt32 lo hi) \<Rightarrow> int_may_match lo hi op (date_literal_as_i32 sf lit name)
              | (Date64, StatInt64 lo hi) \<Rightarrow> int_may_match lo hi op (date_literal_as_i64 sf lit name)
              | (Utf8, StatByteArray lo hi) \<Rightarrow> Inr (bytes_comparison_may_match lo hi (show_literal sf lit) op)
              | (Decimal128 p s, StatInt32 lo hi) \<Rightarrow> int_may_match lo hi op (decimal_literal_as_i128 sf lit s name)
              | (Decimal128 p s, StatInt64 lo hi) \<Rightarrow> int_may_match lo hi op (decimal_literal_as_i128 sf lit s name)
              | (Decimal128 p s, StatFixedLenByteArray lo hi) \<Rightarrow>
                  decimal_bytes_may_match lo hi op (decimal_literal_as_i128 sf lit s name)
              | (Decimal128 p s, StatByteArray lo hi) \<Rightarrow>
                  decimal_bytes_may_match lo hi op (decimal_literal_as_i128 sf lit s name)
              | (Timestamp u tz, StatInt64 lo hi) \<Rightarrow> int_may_match lo hi op (timestamp_literal_as_i64 sf lit u name)
              | _ \<Rightarrow> Inr True)"

text \<open>The position of a field of that name, and the statistics of a column of a row group.\<close>

definition field_position :: "parquet_metadata \<Rightarrow> string \<Rightarrow> nat option" where
  "field_position meta name = position (\<lambda>f. fst f = name) (schema_fields meta)"

definition chunk_statistics :: "parquet_metadata \<Rightarrow> nat \<Rightarrow> nat \<Rightarrow> column_statistics option" where
  "chunk_statistics meta row_group_index column =
     Option.bind (vec_get (row_group_columns meta) row_group_index) (\<lambda>columns.
     Option.bind (vec_get columns column) id)"

definition row_group_may_match_comparison ::
    "formats \<Rightarrow> parquet_metadata \<Rightarrow> nat \<Rightarrow> comparison_expr \<Rightarrow> dodam_error + bool" where
  "row_group_may_match_comparison F meta row_group_index c =
     (case field_position meta (cmp_column c) of
        None \<Rightarrow> Inr True
      | Some column \<Rightarrow>
          (case chunk_statistics meta row_group_index column of
             None \<Rightarrow> Inr True
           | Some st \<Rightarrow> may_contain_comparison F st (snd (schema_fields meta ! column)) c))"

definition row_group_may_match_like ::
    "parquet_metadata \<Rightarrow> nat \<Rightarrow> string \<Rightarrow> string \<Rightarrow> bool \<Rightarrow> char option \<Rightarrow> bool" where
  "row_group_may_match_like meta row_group_index name pattern negated escape =
     (case like_prefix_pruning_range pattern escape of
        None \<Rightarrow> True
      | Some (prefix, upper_bound) \<Rightarrow>
          if negated then True
          else case field_position meta name of
                 None \<Rightarrow> True
               | Some column \<Rightarrow>
                   if snd (schema_fields meta ! column) \<noteq> Utf8 then True
                   else case chunk_statistics meta row_group_index column of
                          None \<Rightarrow> True
                        | Some st \<Rightarrow>
                            if inexact st then True
                            else case typed_statistics st of
                                   StatByteArray lo hi \<Rightarrow> prefix_range_may_match lo hi prefix upper_bound
                                 | _ \<Rightarrow> True)"

fun row_group_may_match :: "formats \<Rightarrow> parquet_metadata \<Rightarrow> nat \<Rightarrow> expr \<Rightarrow> dodam_error + bool" where
  "row_group_may_match F meta g (Comparison c) =
     (if cmp_value c = LitNull then Inr True else row_group_may_match_comparison F meta g c)"
| "row_group_may_match F meta g (And l r) =
     try_bind (row_group_may_match F meta g l) (\<lambda>l. if l then row_group_may_match F meta g r else Inr False)"
| "row_group_may_match F meta g (Or l r) =
     try_bind (row_group_may_match F meta g l) (\<lambda>l. if l then Inr True else row_group_may_match F meta g r)"
| "row_group_may_match F meta g (Like column pattern negated escape ci) =
     (if ci then Inr True else Inr (row_group_may_match_like meta g column pattern negated escape))"
| "row_group_may_match F meta g e = Inr True"

text \<open>\<open>collect::<Result<Vec<_>>>\<close> over the predicates: the first error, or all answers.\<close>

fun group_answers :: "formats \<Rightarrow> parquet_metadata \<Rightarrow> nat \<Rightarrow> expr list \<Rightarrow> dodam_error + bool list" where
  "group_answers F meta g [] = Inr []"
| "group_answers F meta g (p # ps) =
     try_bind (row_group_may_match F meta g p) (\<lambda>b. try_bind (group_answers F meta g ps) (\<lambda>bs. Inr (b # bs)))"

fun prune_loop :: "formats \<Rightarrow> parquet_metadata \<Rightarrow> expr list \<Rightarrow> nat list \<Rightarrow> nat list \<Rightarrow> dodam_error + nat list" where
  "prune_loop F meta ps [] row_groups = Inr row_groups"
| "prune_loop F meta ps (g # gs) row_groups =
     try_bind (group_answers F meta g ps) (\<lambda>bs.
       prune_loop F meta ps gs (if list_all (\<lambda>b. b) bs then row_groups @ [g] else row_groups))"

definition prune_row_groups :: "formats \<Rightarrow> parquet_metadata \<Rightarrow> expr list \<Rightarrow> dodam_error + nat list" where
  "prune_row_groups F meta ps = prune_loop F meta ps [0..<length (row_group_columns meta)] []"

subsection \<open>Byte strings\<close>

lemma bytes_less_lexorder: "bytes_less a b \<longleftrightarrow> (map of_char a :: nat list) < map of_char b"
  by (induction a b rule: bytes_less.induct) (auto simp: of_char_eq_iff)

lemma bytes_less_trans: "bytes_less a b \<Longrightarrow> bytes_less b c \<Longrightarrow> bytes_less a c"
  unfolding bytes_less_lexorder by (rule less_trans)

lemma bytes_not_less_trans: "\<not> bytes_less a b \<Longrightarrow> \<not> bytes_less b c \<Longrightarrow> \<not> bytes_less a c"
  unfolding bytes_less_lexorder not_less by (rule order_trans)

lemma bytes_le_less_trans: "\<not> bytes_less b a \<Longrightarrow> bytes_less b c \<Longrightarrow> bytes_less a c"
  unfolding bytes_less_lexorder not_less by (rule le_less_trans)

lemma bytes_less_le_trans: "bytes_less a b \<Longrightarrow> \<not> bytes_less c b \<Longrightarrow> bytes_less a c"
  unfolding bytes_less_lexorder not_less by (rule less_le_trans)

subsection \<open>What the statistics say\<close>

definition in_range :: "('a \<Rightarrow> 'b :: linorder) \<Rightarrow> 'a option \<Rightarrow> 'a option \<Rightarrow> 'a \<Rightarrow> bool" where
  "in_range key lo hi v \<longleftrightarrow> none_or (\<lambda>m. key m \<le> key v) lo \<and> none_or (\<lambda>m. key v \<le> key m) hi"

definition bytes_key :: "string \<Rightarrow> nat list" where
  "bytes_key s = map of_char s"

definition decimal_in_range :: "string option \<Rightarrow> string option \<Rightarrow> int \<Rightarrow> bool" where
  "decimal_in_range lo hi i \<longleftrightarrow>
     none_or (\<lambda>m. none_or (\<lambda>l. l \<le> i) (decimal_bytes_to_i128 m)) lo \<and>
     none_or (\<lambda>m. none_or (\<lambda>h. i \<le> h) (decimal_bytes_to_i128 m)) hi"

fun value_in_range :: "statistics \<Rightarrow> cell \<Rightarrow> bool" where
  "value_in_range (StatBoolean lo hi) (CellBool b) = in_range id lo hi b"
| "value_in_range (StatInt32 lo hi) (CellInt i) = in_range id lo hi i"
| "value_in_range (StatInt64 lo hi) (CellInt i) = in_range id lo hi i"
| "value_in_range (StatDouble lo hi) (CellF64 x) = in_range ieee_key lo hi x"
| "value_in_range (StatByteArray lo hi) (CellStr s) = in_range bytes_key lo hi s"
| "value_in_range (StatByteArray lo hi) (CellInt i) = decimal_in_range lo hi i"
| "value_in_range (StatFixedLenByteArray lo hi) (CellInt i) = decimal_in_range lo hi i"
| "value_in_range _ _ = True"

text \<open>Floats on which the order of the filter and that of the statistics agree: no \<open>NaN\<close> and no negative zero.\<close>

definition neg_zero :: u64 where "neg_zero = push_bit 63 1"

fun plain_cell :: "cell \<Rightarrow> bool" where
  "plain_cell (CellF64 x) = (\<not> is_nan x \<and> x \<noteq> neg_zero)"
| "plain_cell c = True"

text \<open>The metadata describe a batch as a row group: same columns, and values within the exact statistics.\<close>

definition group_describes :: "parquet_metadata \<Rightarrow> nat \<Rightarrow> record_batch \<Rightarrow> bool" where
  "group_describes meta g b \<longleftrightarrow>
     batch_ok b \<and> field_names b = map fst (schema_fields meta) \<and> map array_type (batch_columns b) = map snd (schema_fields meta) \<and>
     (\<forall>j < length (batch_columns b). \<forall>v. Some v \<in> set (array_cells (batch_columns b ! j)) \<longrightarrow>
        plain_cell v \<and>
        (case chunk_statistics meta g j of Some st \<Rightarrow> inexact st \<or> value_in_range (typed_statistics st) v | None \<Rightarrow> True))"

fun prunable :: "formats \<Rightarrow> string list \<Rightarrow> expr \<Rightarrow> bool" where
  "prunable F names (Comparison c) =
     (exact_name names (cmp_column c) \<and> as_f64 (show_float F) (int_as_float F) (cmp_value c) (cmp_column c) \<noteq> Inr neg_zero)"
| "prunable F names (Like column pattern negated escape ci) = exact_name names column"
| "prunable F names (And l r) = (prunable F names l \<and> prunable F names r)"
| "prunable F names (Or l r) = (prunable F names l \<and> prunable F names r)"
| "prunable F names e = True"

subsection \<open>A group with a matching row is kept\<close>

fun lin_compare :: "comparison_op \<Rightarrow> 'a :: linorder \<Rightarrow> 'a \<Rightarrow> bool" where
  "lin_compare Eq a b = (a = b)"
| "lin_compare NotEq a b = True"
| "lin_compare Lt a b = (a < b)"
| "lin_compare LtEq a b = (a \<le> b)"
| "lin_compare Gt a b = (a > b)"
| "lin_compare GtEq a b = (a \<ge> b)"

lemma cell_compare_lin:
  "cell_compare op (CellInt a) (CellInt b) \<Longrightarrow> lin_compare op a b"
  "cell_compare op (CellBool p) (CellBool q) \<Longrightarrow> lin_compare op p q"
  "cell_compare op (CellStr u) (CellStr w) \<Longrightarrow> lin_compare op (bytes_key u) (bytes_key w)"
  by (cases op; auto simp: bytes_less_lexorder bytes_key_def less_bool_def le_bool_def)+

lemma float_keys:
  assumes "x \<noteq> neg_zero" "y \<noteq> neg_zero"
  shows "float_key x < float_key y \<longleftrightarrow> ieee_key x < ieee_key y"
proof -
  have "uint x \<noteq> 2 ^ 63" if "x \<noteq> neg_zero" for x :: u64
  proof
    assume "uint x = 2 ^ 63"
    moreover have "uint neg_zero = 2 ^ 63" by (simp add: neg_zero_def)
    ultimately show False using that by (simp add: word_uint_eq_iff)
  qed
  from this [OF assms(1)] this [OF assms(2)] show ?thesis
    using uint_ge_0 [of x] uint_ge_0 [of y] unfolding float_key_def ieee_key_def by (simp only: split: if_split) linarith
qed

lemma cell_compare_float:
  assumes "cell_compare op (CellF64 x) (CellF64 y)" "x \<noteq> neg_zero" "y \<noteq> neg_zero"
  shows "lin_compare op (ieee_key x) (ieee_key y)"
  using assms float_keys [OF assms(2,3)] float_keys [OF assms(3,2)] by (cases op) auto

lemma comparison_may_match_sound:
  assumes "none_or (\<lambda>m. m \<le> v) lo" "none_or (\<lambda>m. v \<le> m) hi" "lin_compare op v x"
  shows "comparison_may_match lo hi x op"
  using assms by (cases op) (auto simp: none_or_def split: option.splits)

lemma bytes_may_match_sound:
  assumes "in_range bytes_key lo hi v" "lin_compare op (bytes_key v) (bytes_key x)"
  shows "bytes_comparison_may_match lo hi x op"
  using assms by (cases op) (auto simp: in_range_def none_or_def bytes_less_lexorder bytes_key_def split: option.splits)

lemma float_may_match_sound:
  assumes "in_range ieee_key lo hi v" "lin_compare op (ieee_key v) (ieee_key x)"
  shows "float_comparison_may_match lo hi x op"
  using assms by (cases op) (auto simp: in_range_def none_or_def split: option.splits)

lemma int_may_match_sound:
  assumes "int_may_match lo hi op r = Inr b" "(case r of Inl e \<Rightarrow> None | Inr v \<Rightarrow> Some (CellInt v)) = Some x"
    "in_range id lo hi i" "cell_compare op (CellInt i) x"
  shows b
  using assms comparison_may_match_sound [of i lo hi op]
  by (auto simp: int_may_match_def in_range_def dest!: cell_compare_lin split: sum.splits)

lemma decimal_may_match_sound:
  assumes "decimal_bytes_may_match lo hi op r = Inr b" "(case r of Inl e \<Rightarrow> None | Inr v \<Rightarrow> Some (CellInt v)) = Some x"
    "decimal_in_range lo hi i" "cell_compare op (CellInt i) x"
  shows b
proof -
  obtain v where r: "r = Inr v" "x = CellInt v" using assms(2) by (auto split: sum.splits)
  have cmp: "lin_compare op i v" using assms(4) r(2) cell_compare_lin(1) by simp
  show ?thesis
  proof (cases "Option.bind lo decimal_bytes_to_i128")
    case None
    then show ?thesis using assms(1) r by (simp add: decimal_bytes_may_match_def)
  next
    case lo: (Some l)
    show ?thesis
    proof (cases "Option.bind hi decimal_bytes_to_i128")
      case None
      then show ?thesis using assms(1) r lo by (simp add: decimal_bytes_may_match_def)
    next
      case hi: (Some h)
      have "l \<le> i" "i \<le> h" using assms(3) lo hi by (auto simp: decimal_in_range_def none_or_def bind_eq_Some_conv)
      then have "comparison_may_match (Some l) (Some h) v op" using cmp by (intro comparison_may_match_sound) (simp_all add: none_or_def)
      then show ?thesis using assms(1) r lo hi by (simp add: decimal_bytes_may_match_def)
    qed
  qed
qed

lemma may_contain_comparison_sound:
  assumes "may_contain_comparison F st t c = Inr r"
    and "inexact st \<or> value_in_range (typed_statistics st) v" "cell_typed t v" "plain_cell v"
    and "literal_cell F t (cmp_value c) (cmp_column c) = Some x" "cell_compare (cmp_op c) v x"
    and "as_f64 (show_float F) (int_as_float F) (cmp_value c) (cmp_column c) \<noteq> Inr neg_zero"
  shows r
proof (cases "inexact st")
  case True
  then show ?thesis using assms(1) by (simp add: may_contain_comparison_def)
next
  case False
  note d = may_contain_comparison_def literal_cell_def Let_def False
  show ?thesis
  proof (cases t)
    case Float64
    then obtain y where v: "v = CellF64 y" using assms(3) by (cases v) auto
    then obtain z where z: "x = CellF64 z" "as_f64 (show_float F) (int_as_float F) (cmp_value c) (cmp_column c) = Inr z"
      using assms(5) Float64 by (auto simp: literal_cell_def Let_def split: sum.splits)
    have "lin_compare (cmp_op c) (ieee_key y) (ieee_key z)"
      using assms(4,6,7) v z by (intro cell_compare_float) auto
    then show ?thesis
      using assms(1,2) Float64 v z False float_may_match_sound
      by (cases "typed_statistics st") (auto simp: d simp del: float_comparison_may_match.simps)
  next
    case BooleanType
    then obtain y where v: "v = CellBool y" using assms(3) by (cases v) auto
    then show ?thesis
      using assms(1,2,5,6) BooleanType False comparison_may_match_sound [of y]
      by (cases "typed_statistics st") (auto simp: d in_range_def dest!: cell_compare_lin split: sum.splits)
  next
    case Utf8
    then obtain y where v: "v = CellStr y" using assms(3) by (cases v) auto
    then show ?thesis
      using assms(1,2,5,6) Utf8 False bytes_may_match_sound
      by (cases "typed_statistics st") (auto simp: d dest!: cell_compare_lin)
  next
    case (Decimal128 p s)
    then obtain i where v: "v = CellInt i" using assms(3) by (cases v) auto
    show ?thesis
      using assms(1,2,5,6) Decimal128 False v
      by (cases "typed_statistics st") (auto simp: d elim!: int_may_match_sound decimal_may_match_sound)
  qed (use assms(1,2,3,5,6) False in \<open>cases "typed_statistics st"; cases v; auto simp: d elim!: int_may_match_sound\<close>)+
qed

lemma field_position_column:
  assumes "field_names b = map fst (schema_fields meta)" "exact_name (field_names b) name" "field_position meta name = Some j"
  shows "column_index (field_names b) name = Inr j" "j < length (field_names b)"
proof -
  have "position (\<lambda>n. n = name) (map fst fs) = position (\<lambda>f. fst f = name) fs" for fs :: "(string \<times> data_type) list"
    by (induction fs) auto
  then have "projected_view_column_index (field_names b) name = Some j"
    using assms(1,3) by (simp add: projected_view_column_index_def field_position_def)
  from column_index_exact [OF assms(2) this]
  show "column_index (field_names b) name = Inr j" "j < length (field_names b)" by simp_all
qed

text \<open>A value of a resolved column: its type, its cell, and what the statistics say of it.\<close>

lemma described_cell:
  assumes "group_describes meta g b" "exact_name (field_names b) name" "field_position meta name = Some j" "i < batch_rows b"
    and "row_of b i name = Some (t, Some v)"
  shows "t = snd (schema_fields meta ! j)" "t \<noteq> DictInt32Utf8 \<Longrightarrow> cell_typed t v" "plain_cell v"
    "chunk_statistics meta g j = Some st \<Longrightarrow> inexact st \<or> value_in_range (typed_statistics st) v"
proof -
  have names: "field_names b = map fst (schema_fields meta)" and types: "map array_type (batch_columns b) = map snd (schema_fields meta)"
    and ok: "batch_ok b" using assms(1) by (simp_all add: group_describes_def)
  note col = field_position_column [OF names assms(2,3)]
  let ?a = "batch_columns b ! j"
  have j: "j < length (batch_columns b)" using col(2) ok by (simp add: batch_ok_def)
  have t: "t = array_type ?a" "array_cells ?a ! i = Some v" using assms(5) col(1) by (simp_all add: row_of_def)
  have a: "array_ok ?a" "array_len ?a = batch_rows b" using ok j by (simp_all add: batch_ok_def)
  then have mem: "Some v \<in> set (array_cells ?a)" using t(2) assms(4) by (metis length_array_cells nth_mem)
  show "t = snd (schema_fields meta ! j)"
    using t(1) arg_cong [OF types, of "\<lambda>l. l ! j"] j arg_cong [OF types, of length] by simp
  show "cell_typed t v" if "t \<noteq> DictInt32Utf8"
    using that a(1) t mem by (cases ?a) (auto simp: list_all_iff)
  show "plain_cell v" "chunk_statistics meta g j = Some st \<Longrightarrow> inexact st \<or> value_in_range (typed_statistics st) v"
    using assms(1) j mem unfolding group_describes_def by fastforce+
qed

lemma comparison_group_sound:
  assumes "group_describes meta g b" "prunable F (field_names b) (Comparison c)" "i < batch_rows b"
    and "comparison_value F (cmp_op c) (cmp_column c) (cmp_value c) (row_of b i) = Some True"
    and "row_group_may_match_comparison F meta g c = Inr r"
  shows r
proof -
  obtain t v x where row: "row_of b i (cmp_column c) = Some (t, Some v)" "literal_cell F t (cmp_value c) (cmp_column c) = Some x"
    "cell_compare (cmp_op c) v x"
    using assms(4) by (auto simp: comparison_value_def both_def bind_eq_Some_conv split: if_splits)
  show ?thesis
  proof (cases "field_position meta (cmp_column c)")
    case None
    then show ?thesis using assms(5) by (simp add: row_group_may_match_comparison_def)
  next
    case (Some j)
    have ex: "exact_name (field_names b) (cmp_column c)" using assms(2) by simp
    note d = described_cell [OF assms(1) ex Some assms(3) row(1)]
    have "t \<noteq> DictInt32Utf8" using row(2) by (auto simp: literal_cell_def)
    then show ?thesis
      using assms(2,5) Some d row may_contain_comparison_sound [of F _ t c r v x]
      by (auto simp: row_group_may_match_comparison_def split: option.splits)
  qed
qed

lemma like_prefix_tokens:
  assumes "like_pattern_tokens (prefix @ ''%'') None = Inr tokens" "CHR ''%'' \<notin> set prefix" "CHR ''_'' \<notin> set prefix" "like tokens s"
  shows "take (length prefix) s = prefix"
proof -
  have "like (map plain_token (prefix @ ''%'')) s"
    using assms(1,4) like_tokens_loop_plain [of "prefix @ ''%''" "prefix @ ''%''" "[]"] by (auto simp: like_pattern_tokens_def)
  then obtain u w where uw: "s = u @ w" "like (map plain_token prefix) u" by (auto simp: like_append)
  have "like (map plain_token p) u \<Longrightarrow> CHR ''%'' \<notin> set p \<Longrightarrow> CHR ''_'' \<notin> set p \<Longrightarrow> u = p" for p u
    by (induction p arbitrary: u) (auto simp: plain_token_def like_Lit_iff)
  from this [OF uw(2) assms(2,3)] show ?thesis using uw(1) by simp
qed

lemma like_group_sound:
  assumes "group_describes meta g b" "exact_name (field_names b) name" "i < batch_rows b"
    and "leaf_value F (Like name pattern negated escape False) (row_of b i) = Some True"
  shows "row_group_may_match_like meta g name pattern negated escape"
proof (rule ccontr)
  assume no: "\<not> row_group_may_match_like meta g name pattern negated escape"
  then obtain prefix upper j st lo hi where p: "like_prefix_pruning_range pattern escape = Some (prefix, upper)" "\<not> negated"
    "field_position meta name = Some j" "snd (schema_fields meta ! j) = Utf8" "chunk_statistics meta g j = Some st" "\<not> inexact st"
    "typed_statistics st = StatByteArray lo hi" "\<not> prefix_range_may_match lo hi prefix upper"
    by (auto simp: row_group_may_match_like_def split: option.splits if_splits statistics.splits) blast
  note pd = like_prefix_pruning_range_SomeD [OF p(1)]
  obtain t v tokens where row: "row_of b i name = Some (t, Some v)" and tok: "like_pattern_tokens pattern escape = Inr tokens" "like tokens (the_str v)"
    using assms(4) p(2) by (cases "like_pattern_tokens pattern escape") (auto simp: bind_eq_Some_conv)
  note d = described_cell [OF assms(1,2) p(3) assms(3) row]
  have "t = Utf8" using d(1) p(4) by simp
  then obtain s where s: "v = CellStr s" using d(2) by (cases v) auto
  then have range: "in_range bytes_key lo hi s" using d(4) [OF p(5)] p(6,7) by simp
  have pre: "take (length prefix) s = prefix"
    using like_prefix_tokens [of prefix tokens s] tok pd s by simp
  obtain ub where ub: "upper = Some ub" "\<not> bytes_less s prefix" "bytes_less s ub"
    using like_prefix_range_exact [OF p(1)] pre by blast
  have "prefix_range_may_match lo hi prefix upper"
    using range ub by (auto simp: prefix_range_may_match_def in_range_def none_or_def bytes_less_lexorder bytes_key_def split: option.splits)
  then show False using p(8) by simp
qed

lemma row_group_may_match_sound:
  assumes "group_describes meta g b" "i < batch_rows b" "eval_leaf E = leaf_value F"
    and "prunable F (field_names b) e" "holds E e (row_of b i)" "row_group_may_match F meta g e = Inr r"
  shows r
  using assms(4-)
proof (induction e arbitrary: r)
  case (Comparison c)
  then show ?case
    using comparison_group_sound [OF assms(1) Comparison.prems(1) assms(2)] by (auto simp: holds_def assms(3) split: if_splits)
next
  case (Like column pattern negated escape ci)
  then show ?case
    using like_group_sound [OF assms(1) _ assms(2), of column F pattern negated escape]
    by (auto simp: holds_def assms(3) simp del: leaf_value.simps split: if_splits)
next
  case (And l q)
  have "kleene_and x y = Some True \<Longrightarrow> x = Some True \<and> y = Some True" for x y
    by (cases "(x, y)" rule: kleene_and.cases) auto
  then have "holds E l (row_of b i)" "holds E q (row_of b i)" using And.prems(2) by (auto simp: holds_def)
  then show ?case using And by (auto simp: try_bind_eq_Inr split: if_splits)
next
  case (Or l q)
  have "kleene_or x y = Some True \<Longrightarrow> x = Some True \<or> y = Some True" for x y
    by (cases "(x, y)" rule: kleene_or.cases) auto
  then have "holds E l (row_of b i) \<or> holds E q (row_of b i)" using Or.prems(2) by (auto simp: holds_def)
  then show ?case using Or by (auto simp: try_bind_eq_Inr split: if_splits)
qed auto

subsection \<open>Scans\<close>

definition batch_row_list :: "record_batch \<Rightarrow> (data_type \<times> cell option) row list" where
  "batch_row_list b = map (row_of b) [0..<batch_rows b]"

lemma prune_loop_Inr:
  "prune_loop F meta ps gs acc = Inr kept \<Longrightarrow>
     kept = acc @ filter (\<lambda>g. \<exists>bs. group_answers F meta g ps = Inr bs \<and> list_all (\<lambda>b. b) bs) gs"
proof (induction gs arbitrary: acc)
  case (Cons g gs)
  obtain bs where bs: "group_answers F meta g ps = Inr bs"
    "prune_loop F meta ps gs (if list_all (\<lambda>b. b) bs then acc @ [g] else acc) = Inr kept"
    using Cons.prems by (auto simp: try_bind_eq_Inr)
  from Cons.IH [OF bs(2)] show ?case using bs(1) by simp
qed simp

lemma group_answers_all:
  assumes "group_answers F meta g ps = Inr bs" "\<forall>p \<in> set ps. row_group_may_match F meta g p \<noteq> Inr False"
  shows "list_all (\<lambda>b. b) bs"
  using assms
proof (induction ps arbitrary: bs)
  case (Cons p ps)
  obtain b bs' where b: "row_group_may_match F meta g p = Inr b" "group_answers F meta g ps = Inr bs'" "bs = b # bs'"
    using Cons.prems(1) by (auto simp: try_bind_eq_Inr)
  have "b" using Cons.prems(2) b(1) by (cases b) auto
  moreover have "list_all (\<lambda>b. b) bs'" using Cons.IH [OF b(2)] Cons.prems(2) by (meson list.set_intros(2))
  ultimately show ?case using b(3) by simp
qed simp

lemma group_answers_defined:
  "prune_loop F meta ps gs acc = Inr kept \<Longrightarrow> g \<in> set gs \<Longrightarrow> \<exists>bs. group_answers F meta g ps = Inr bs"
  by (induction gs arbitrary: acc) (auto simp: try_bind_eq_Inr)

lemma mset_concat_filter:
  assumes "\<And>x r. x \<in> set xs \<Longrightarrow> \<not> P x \<Longrightarrow> r \<in> set (f x) \<Longrightarrow> \<not> Q r"
  shows "mset (concat (map f (filter P xs))) \<subseteq># mset (concat (map f xs)) \<and>
    filter_mset Q (mset (concat (map f xs))) \<subseteq># mset (concat (map f (filter P xs)))"
  using assms
proof (induction xs)
  case (Cons x xs)
  have e: "filter_mset Q (mset (f x)) = {#}" if "\<not> P x"
    using Cons.prems [of x] that by (simp add: filter_empty_conv flip: mset_filter)
  have ih: "mset (concat (map f (filter P xs))) \<subseteq># mset (concat (map f xs)) \<and>
    filter_mset Q (mset (concat (map f xs))) \<subseteq># mset (concat (map f (filter P xs)))"
    using Cons.IH Cons.prems by (meson list.set_intros(2))
  show ?case
  proof (cases "P x")
    case True
    have "filter_mset Q (mset (f x)) \<subseteq># mset (f x)" by simp
    then show ?thesis using ih True by (auto intro: subset_mset.add_mono)
  next
    case False
    have "filter_mset Q (mset (concat (map f (x # xs)))) = filter_mset Q (mset (concat (map f xs)))"
      by (simp only: list.map concat.simps mset_append filter_union_mset e [OF False] add_0)
    moreover have "mset (concat (map f xs)) \<subseteq># mset (concat (map f (x # xs)))" by simp
    moreover have "filter P (x # xs) = filter P xs" using False by simp
    ultimately show ?thesis using ih by (metis subset_mset.order_trans)
  qed
qed simp


definition exact_statistics :: "statistics \<Rightarrow> column_statistics" where
  "exact_statistics st = \<lparr>typed_statistics = st, min_max_deprecated = False, min_is_exact = True, max_is_exact = True\<rparr>"

definition int_batch :: "int list \<Rightarrow> record_batch" where
  "int_batch xs = \<lparr>field_names = [''x''], batch_columns = [PlainArray Int64 (int_cells (map Some xs))], batch_rows = length xs\<rparr>"

definition demo_metadata :: parquet_metadata where
  "demo_metadata = \<lparr>schema_fields = [(''x'', Int64)], row_group_columns =
     [[Some (exact_statistics (StatInt64 (Some 1) (Some 2)))], [Some (exact_statistics (StatInt64 (Some 5) (Some 5)))]]\<rparr>"

definition x_greater_3 :: expr where
  "x_greater_3 = Comparison \<lparr>cmp_column = ''x'', cmp_op = Gt, cmp_value = LitInt64 3\<rparr>"


text \<open>
  A float that the filter finds on the other side of a literal than the statistics say: a negative zero below zero,
  where the minimum of the group is a zero, or a positive \<open>NaN\<close> above a number that is not below the maximum.
\<close>

definition misjudged_float :: "comparison_op \<Rightarrow> u64 \<Rightarrow> u64 \<Rightarrow> u64 \<Rightarrow> u64 \<Rightarrow> bool" where
  "misjudged_float op lo hi v literal \<longleftrightarrow> \<not> is_nan lo \<and> \<not> is_nan hi \<and> \<not> is_nan literal \<and>
     (op = Lt \<and> v = neg_zero \<and> literal = 0 \<and> ieee_key lo = 0 \<or>
      op = Gt \<and> is_nan v \<and> uint v < 2 ^ 63 \<and> ieee_key hi \<le> ieee_key literal)"

lemma misjudged_float_pruned:
  "misjudged_float op lo hi v literal \<Longrightarrow> \<not> float_comparison_may_match (Some lo) (Some hi) literal op"
  by (auto simp: misjudged_float_def none_or_def ieee_key_def)

lemma misjudged_float_selected:
  assumes "misjudged_float op lo hi v literal"
  shows "cell_compare op (CellF64 v) (CellF64 literal)"
proof -
  have "float_key literal < float_key v" if "is_nan v" "uint v < 2 ^ 63" "\<not> is_nan literal"
  proof -
    have "2047 * 2 ^ 52 < uint v" using that(1,2) by (simp add: is_nan_def)
    moreover have "uint literal \<le> 2047 * 2 ^ 52" if "uint literal < 2 ^ 63"
      using \<open>\<not> is_nan literal\<close> that by (simp add: is_nan_def)
    ultimately show ?thesis
      using that(2) uint_ge_0 [of v] by (cases "uint literal < 2 ^ 63") (auto simp: float_key_def)
  qed
  then show ?thesis using assms by (auto simp: misjudged_float_def float_key_def neg_zero_def)
qed

lemma float_groups_answered:
  assumes "field_position meta name = Some j" "snd (schema_fields meta ! j) = Float64"
  shows "\<exists>b. row_group_may_match F meta g (Comparison \<lparr>cmp_column = name, cmp_op = op, cmp_value = LitFloat64 literal\<rparr>) = Inr b"
  using assms
  by (auto simp: row_group_may_match_comparison_def may_contain_comparison_def Let_def split: option.splits statistics.splits)

lemma prune_loop_total:
  "(\<And>g. g \<in> set gs \<Longrightarrow> \<exists>b. row_group_may_match F meta g p = Inr b) \<Longrightarrow> \<exists>kept. prune_loop F meta [p] gs acc = Inr kept"
  by (induction gs arbitrary: acc) fastforce+

text \<open>
  C38: pruning by float statistics loses rows that the filter selects.  The filter orders floats totally, so that
  negative zero is below zero and \<open>NaN\<close> above every number, while pruning compares as the language does and
  statistics leave \<open>NaN\<close> out.  For every file with a float column and every row group of it: if the minimum of the group is
  a zero and one of its rows is a negative zero, then that row satisfies \<open>x < 0.0\<close> and \<open>prune_row_groups\<close> drops the
  group; and if one of its rows is a positive \<open>NaN\<close>, the row satisfies \<open>x > l\<close> and the group is dropped for every number
  \<open>l\<close> from the maximum of the group on.
\<close>

theorem float_pruning_loses_rows:
  fixes F :: formats and op name literal
  defines "e \<equiv> Comparison \<lparr>cmp_column = name, cmp_op = op, cmp_value = LitFloat64 literal\<rparr>"
  assumes "kernels_ok K" "batch_ok b" "field_names b = map fst (schema_fields meta)" "exact_name (field_names b) name"
    and "field_position meta name = Some j" "snd (schema_fields meta ! j) = Float64"
    and "batch_columns b ! j = PlainArray Float64 cells" "r < batch_rows b" "cells ! r = Some (CellF64 v)"
    and "chunk_statistics meta g j = Some (exact_statistics (StatDouble (Some lo) (Some hi)))"
    and "misjudged_float op lo hi v literal"
  shows "\<exists>kept selected. prune_row_groups F meta [e] = Inr kept \<and> g \<notin> set kept \<and>
    evaluate_filter K F b e = Some (Inr selected) \<and> selected ! r = Some True"
proof -
  obtain kept where kept: "prune_row_groups F meta [e] = Inr kept"
    unfolding prune_row_groups_def e_def using prune_loop_total float_groups_answered [OF assms(6,7)] by blast
  have "row_group_may_match F meta g e = Inr False"
    using assms(6,7,11) misjudged_float_pruned [OF assms(12)]
    by (simp add: e_def row_group_may_match_comparison_def may_contain_comparison_def inexact_def exact_statistics_def
        del: float_comparison_may_match.simps)
  then have "g \<notin> set kept" using kept by (auto simp: prune_row_groups_def dest!: prune_loop_Inr)
  moreover have col: "column_index (field_names b) name = Inr j" "j < length (field_names b)"
    using field_position_column [OF assms(4,5,6)] by simp_all
  have j: "j < length (batch_columns b)" using col(2) assms(3) by (simp add: batch_ok_def)
  have a: "array_ok (PlainArray Float64 cells)" "length cells = batch_rows b"
    using assms(3,8) j by (auto simp: batch_ok_def dest!: nth_mem simp del: array_ok.simps)
  have "evaluate_filter K F b e = Some (Inr (map (map_option (\<lambda>x. cell_compare op x (CellF64 literal))) cells))"
    using col(1) j assms(8) compare_scalar [OF assms(2) a(1), of "CellF64 literal" op]
    by (simp add: e_def evaluate_comparison_def batch_column_def vec_get_def)
  ultimately show ?thesis using kept a(2) assms(9,10) misjudged_float_selected [OF assms(12)] by auto
qed

definition float_batch :: "u64 list \<Rightarrow> record_batch" where
  "float_batch xs = \<lparr>field_names = [''x''], batch_columns = [PlainArray Float64 (map (Some \<circ> CellF64) xs)], batch_rows = length xs\<rparr>"

definition float_metadata :: parquet_metadata where
  "float_metadata = \<lparr>schema_fields = [(''x'', Float64)],
     row_group_columns = [[Some (exact_statistics (StatDouble (Some neg_zero) (Some 0x3FF0000000000000)))]]\<rparr>"

text \<open>A group with negative zero, \<open>NaN\<close> and one is dropped for \<open>x < 0.0\<close> and for \<open>x > 5.0\<close>.\<close>

theorem float_pruning_loses_rows_witness:
  "(\<exists>kept selected. prune_row_groups demo_formats float_metadata
      [Comparison \<lparr>cmp_column = ''x'', cmp_op = Lt, cmp_value = LitFloat64 0\<rparr>] = Inr kept \<and> 0 \<notin> set kept \<and>
    evaluate_filter demo_kernels demo_formats (float_batch [neg_zero, 0x7FF8000000000000, 0x3FF0000000000000])
      (Comparison \<lparr>cmp_column = ''x'', cmp_op = Lt, cmp_value = LitFloat64 0\<rparr>) = Some (Inr selected) \<and>
    selected ! 0 = Some True) \<and>
   (\<exists>kept selected. prune_row_groups demo_formats float_metadata
      [Comparison \<lparr>cmp_column = ''x'', cmp_op = Gt, cmp_value = LitFloat64 0x4014000000000000\<rparr>] = Inr kept \<and> 0 \<notin> set kept \<and>
    evaluate_filter demo_kernels demo_formats (float_batch [neg_zero, 0x7FF8000000000000, 0x3FF0000000000000])
      (Comparison \<lparr>cmp_column = ''x'', cmp_op = Gt, cmp_value = LitFloat64 0x4014000000000000\<rparr>) = Some (Inr selected) \<and>
    selected ! 1 = Some True)"
proof -
  let ?b = "float_batch [neg_zero, 0x7FF8000000000000, 0x3FF0000000000000]"
  have b: "batch_ok ?b" "field_names ?b = map fst (schema_fields float_metadata)" "exact_name (field_names ?b) ''x''"
    "field_position float_metadata ''x'' = Some 0" "snd (schema_fields float_metadata ! 0) = Float64"
    "batch_columns ?b ! 0 = PlainArray Float64 (map (Some \<circ> CellF64) [neg_zero, 0x7FF8000000000000, 0x3FF0000000000000])"
    "chunk_statistics float_metadata 0 0 = Some (exact_statistics (StatDouble (Some neg_zero) (Some 0x3FF0000000000000)))"
    by (simp_all add: float_batch_def float_metadata_def batch_ok_def exact_name_def field_position_def chunk_statistics_def
        vec_get_def)
  have m: "misjudged_float Lt neg_zero 0x3FF0000000000000 neg_zero 0"
    "misjudged_float Gt neg_zero 0x3FF0000000000000 0x7FF8000000000000 0x4014000000000000"
    by (simp_all add: misjudged_float_def is_nan_def ieee_key_def neg_zero_def)
  note lost = float_pruning_loses_rows [OF demo_kernels_ok b(1-6) _ _ b(7)]
  show ?thesis
    by (intro conjI lost [OF _ _ m(1)] lost [OF _ _ m(2)]) (simp_all add: float_batch_def)
qed

text \<open>
  Statistics are found by the position of the field in the schema, but a row group lists its leaf columns: after a
  struct with two members, the second field is judged by the second member, and a group with matching rows is pruned.
\<close>

theorem nested_schema_uses_wrong_statistics:
  fixes F :: formats
  defines "meta \<equiv> \<lparr>schema_fields = [(''s'', OtherType ''Struct''), (''x'', Int64)], row_group_columns =
     [[Some (exact_statistics (StatInt64 (Some 0) (Some 9))), Some (exact_statistics (StatInt64 (Some 100) (Some 200))),
       Some (exact_statistics (StatInt64 (Some 1) (Some 2)))]]\<rparr>"
  shows "row_group_may_match F meta 0 (Comparison \<lparr>cmp_column = ''x'', cmp_op = Lt, cmp_value = LitInt64 10\<rparr>) = Inr False \<and>
    comparison_may_match (Some 1) (Some 2) (10::int) Lt"
  by (simp add: meta_def row_group_may_match_comparison_def field_position_def chunk_statistics_def vec_get_def
      may_contain_comparison_def inexact_def exact_statistics_def int_may_match_def none_or_def)

end
