(* ===== verification/Join_Index.thy ===== *)
theory Join_Index
  imports Filter_Eval "HOL-Library.AList"
begin

text \<open>
  The indexes a hash join builds over the rows of its build side, from \<open>execution/physical.rs\<close>: hash maps from a key to
  one row or to a list of rows, the dense tables that replace them when the keys are close together, the dense set
  of keys of a semi join, the Bloom filter, and the record of the build rows that found a match.

  A hash map is the list of its entries in the order the map iterates over them; the order is no part of the
  statements.  A value of the outer option is \<open>None\<close> where the code panics.
\<close>

subsection \<open>Rows of the build side\<close>

record build_row_ref =
  ref_batch :: nat
  ref_row :: nat

type_synonym ('k, 'v) hash_map = "('k \<times> 'v) list"

definition hash_map_entry_push :: "'k \<Rightarrow> 'v \<Rightarrow> ('k, 'v list) hash_map \<Rightarrow> ('k, 'v list) hash_map" where
  "hash_map_entry_push key v m = AList.update key ((case map_of m key of None \<Rightarrow> [] | Some vs \<Rightarrow> vs) @ [v]) m"

text \<open>An \<open>i32\<close>, its checked subtraction, and the cast of a signed integer to \<open>usize\<close>.\<close>

definition is_i32 :: "int \<Rightarrow> bool" where
  "is_i32 k \<longleftrightarrow> - (2 ^ 31) \<le> k \<and> k < 2 ^ 31"

definition i32_checked :: "int \<Rightarrow> int option" where
  "i32_checked x = (if is_i32 x then Some x else None)"

definition as_usize :: "int \<Rightarrow> nat" where
  "as_usize x = nat (x mod 2 ^ 64)"

text \<open>The tables indexed by the distance to the smallest key: \<open>DenseI32BuildRows\<close>, \<open>DenseI64BuildRows\<close> and
  \<open>DenseI32MultiBuildRows\<close> have the same two cases.\<close>

datatype 'v dense_rows = DenseComplete int "'v list" | DenseSparse int "'v option list"

type_synonym dense_i32_rows = "build_row_ref dense_rows"
type_synonym dense_i64_rows = "build_row_ref dense_rows"
type_synonym dense_i32_multi_rows = "build_row_ref list dense_rows"

definition dense_i32_get :: "dense_i32_rows \<Rightarrow> int \<Rightarrow> build_row_ref option" where
  "dense_i32_get d key =
     (case d of
        DenseComplete min0 rows \<Rightarrow> Option.bind (i32_checked (key - min0)) (\<lambda>index. vec_get rows (as_usize index))
      | DenseSparse min0 rows \<Rightarrow>
          Option.bind (i32_checked (key - min0)) (\<lambda>index. Option.bind (vec_get rows (as_usize index)) id))"

definition dense_i64_get :: "dense_i64_rows \<Rightarrow> int \<Rightarrow> build_row_ref option" where
  "dense_i64_get d key =
     (case d of
        DenseComplete min0 rows \<Rightarrow> Option.bind (i64_checked (key - min0)) (\<lambda>index. vec_get rows (as_usize index))
      | DenseSparse min0 rows \<Rightarrow>
          Option.bind (i64_checked (key - min0)) (\<lambda>index. Option.bind (vec_get rows (as_usize index)) id))"

definition dense_i32_multi_get :: "dense_i32_multi_rows \<Rightarrow> int \<Rightarrow> build_row_ref list option" where
  "dense_i32_multi_get d key =
     (case d of
        DenseComplete min0 rows \<Rightarrow> Option.bind (i32_checked (key - min0)) (\<lambda>index. vec_get rows (as_usize index))
      | DenseSparse min0 rows \<Rightarrow>
          Option.bind (i32_checked (key - min0)) (\<lambda>index. Option.bind (vec_get rows (as_usize index)) id))"

fun dense_len :: "'v dense_rows \<Rightarrow> nat" where
  "dense_len (DenseComplete min0 rows) = length rows"
| "dense_len (DenseSparse min0 rows) = length rows"

fun dense_min :: "'v dense_rows \<Rightarrow> int" where
  "dense_min (DenseComplete min0 rows) = min0"
| "dense_min (DenseSparse min0 rows) = min0"

text \<open>The iterator over the rows whose slot is not marked.\<close>

definition slot_matched :: "bool list \<Rightarrow> nat \<Rightarrow> bool" where
  "slot_matched matched i = (case vec_get matched i of None \<Rightarrow> False | Some b \<Rightarrow> b)"

fun dense_unmatched_refs :: "build_row_ref dense_rows \<Rightarrow> bool list \<Rightarrow> build_row_ref list" where
  "dense_unmatched_refs (DenseComplete min0 rows) matched =
     map snd (filter (\<lambda>(i, row). \<not> slot_matched matched i) (enumerate 0 rows))"
| "dense_unmatched_refs (DenseSparse min0 rows) matched =
     List.map_filter (\<lambda>(i, row). if slot_matched matched i then None else row) (enumerate 0 rows)"

text \<open>The table over pairs of keys, row by row.\<close>

datatype dense_i32_pair_rows =
    PairComplete int int nat "build_row_ref list"
  | PairSparse int int nat "build_row_ref option list"

definition dense_i32_pair_index :: "int \<Rightarrow> int \<Rightarrow> int \<Rightarrow> int \<Rightarrow> nat \<Rightarrow> nat option" where
  "dense_i32_pair_index left right min_left min_right right_width =
     Option.bind (Option.bind (i32_checked (left - min_left)) usize_try_from) (\<lambda>l.
     Option.bind (Option.bind (i32_checked (right - min_right)) usize_try_from) (\<lambda>r.
       if r \<ge> right_width then None
       else Option.bind (usize_checked (l * right_width)) (\<lambda>i. usize_checked (i + r))))"

fun dense_i32_pair_get :: "dense_i32_pair_rows \<Rightarrow> int \<Rightarrow> int \<Rightarrow> build_row_ref option" where
  "dense_i32_pair_get (PairComplete min_left min_right right_width rows) left right =
     Option.bind (dense_i32_pair_index left right min_left min_right right_width) (vec_get rows)"
| "dense_i32_pair_get (PairSparse min_left min_right right_width rows) left right =
     Option.bind (dense_i32_pair_index left right min_left min_right right_width) (\<lambda>i. Option.bind (vec_get rows i) id)"

text \<open>\<open>DenseI32KeySet\<close>.\<close>

record dense_i32_keys =
  keys_min :: int
  keys_exist :: "bool list"

definition dense_i32_keys_contains :: "dense_i32_keys \<Rightarrow> int \<Rightarrow> bool" where
  "dense_i32_keys_contains s key =
     (case i32_checked (key - keys_min s) of
        None \<Rightarrow> False
      | Some index \<Rightarrow> slot_matched (keys_exist s) (as_usize index))"

subsection \<open>Filling the indexes\<close>

text \<open>One row more, in the map of single rows until a key comes twice and in the map of lists from then on.\<close>

definition insert_build_ref ::
    "'k \<Rightarrow> build_row_ref \<Rightarrow> ('k, build_row_ref) hash_map option \<times> ('k, build_row_ref list) hash_map option \<Rightarrow>
     ('k, build_row_ref) hash_map option \<times> ('k, build_row_ref list) hash_map option" where
  "insert_build_ref key row_ref maps =
     (case maps of
        (unique_rows, Some rows) \<Rightarrow> (unique_rows, Some (hash_map_entry_push key row_ref rows))
      | (None, None) \<Rightarrow> (None, None)
      | (Some unique_rows, None) \<Rightarrow>
          (let unique_map = AList.update key row_ref unique_rows
           in case map_of unique_rows key of
                None \<Rightarrow> (Some unique_map, None)
              | Some previous \<Rightarrow>
                  (let multi_rows = map (\<lambda>(existing_key, existing_ref). (existing_key, [existing_ref])) unique_map;
                       at_key = (case map_of multi_rows key of None \<Rightarrow> [] | Some refs \<Rightarrow> refs)
                   in (None, Some (AList.update key (previous # at_key) multi_rows)))))"

definition insert_i32_build_ref ::
    "int \<Rightarrow> build_row_ref \<Rightarrow> (int, build_row_ref) hash_map option \<times> (int, build_row_ref list) hash_map option \<Rightarrow>
     (int, build_row_ref) hash_map option \<times> (int, build_row_ref list) hash_map option" where
  "insert_i32_build_ref = insert_build_ref"

definition insert_i64_build_ref ::
    "int \<Rightarrow> build_row_ref \<Rightarrow> (int, build_row_ref) hash_map option \<times> (int, build_row_ref list) hash_map option \<Rightarrow>
     (int, build_row_ref) hash_map option \<times> (int, build_row_ref list) hash_map option" where
  "insert_i64_build_ref = insert_build_ref"

definition insert_i32_pair_build_ref ::
    "int \<times> int \<Rightarrow> build_row_ref \<Rightarrow>
     (int \<times> int, build_row_ref) hash_map option \<times> (int \<times> int, build_row_ref list) hash_map option \<Rightarrow>
     (int \<times> int, build_row_ref) hash_map option \<times> (int \<times> int, build_row_ref list) hash_map option" where
  "insert_i32_pair_build_ref = insert_build_ref"

definition insert_string_build_ref ::
    "string \<Rightarrow> build_row_ref \<Rightarrow>
     (string, build_row_ref) hash_map option \<times> (string, build_row_ref list) hash_map option \<Rightarrow>
     (string, build_row_ref) hash_map option \<times> (string, build_row_ref list) hash_map option" where
  "insert_string_build_ref = insert_build_ref"

text \<open>The limit on the width of a dense table, and the loop that fills one.  The index of a key is \<open>None\<close> where
  computing it panics and \<open>Some None\<close> where the code gives up; an index beyond the table panics.\<close>

definition dense_width_limit :: "nat \<Rightarrow> nat" where
  "dense_width_limit total_rows = max (u64_sat (total_rows * 4)) 1024"

fun fill_slots :: "('k \<Rightarrow> nat option option) \<Rightarrow> ('k \<times> 'c) list \<Rightarrow> 'c list \<Rightarrow> 'c list option option" where
  "fill_slots index [] slots = Some (Some slots)"
| "fill_slots index ((key, c) # rest) slots =
     (case index key of
        None \<Rightarrow> None
      | Some None \<Rightarrow> Some None
      | Some (Some i) \<Rightarrow> if i < length slots then fill_slots index rest (slots[i := c]) else None)"

definition list_min :: "int list \<Rightarrow> int" where
  "list_min xs = fold min xs (hd xs)"

definition list_max :: "int list \<Rightarrow> int" where
  "list_max xs = fold max xs (hd xs)"

text \<open>The index \<open>(key - min) as usize\<close>: the subtraction panics, or wraps to a negative number that is no index,
  when the difference is not an \<open>i32\<close>.\<close>

definition i32_offset :: "int \<Rightarrow> int \<Rightarrow> nat option option" where
  "i32_offset min0 key = map_option (\<lambda>d. Some (as_usize d)) (i32_checked (key - min0))"

definition i64_offset :: "int \<Rightarrow> int \<Rightarrow> nat option option" where
  "i64_offset min0 key = Some (Option.bind (i64_checked (key - min0)) usize_try_from)"

text \<open>The end of each builder: a full table is unwrapped, which panics on an empty slot.\<close>

definition finish_dense :: "int \<Rightarrow> bool \<Rightarrow> 'v option list option \<Rightarrow> 'v dense_rows option option" where
  "finish_dense min0 complete filled =
     (case filled of
        None \<Rightarrow> Some None
      | Some dense \<Rightarrow>
          if complete then map_option (\<lambda>rows. Some (DenseComplete min0 rows)) (those dense)
          else Some (Some (DenseSparse min0 dense)))"

definition dense_i32_table :: "(int, 'v) hash_map \<Rightarrow> nat \<Rightarrow> 'v dense_rows option option" where
  "dense_i32_table rows total_rows =
     (if rows = [] then Some None
      else let min0 = list_min (map fst rows); max0 = list_max (map fst rows); width = nat (max0 - min0 + 1)
           in if width > dense_width_limit total_rows then Some None
              else Option.bind
                     (fill_slots (i32_offset min0) (map (\<lambda>(key, row). (key, Some row)) rows) (replicate width None))
                     (finish_dense min0 (width = length rows)))"

definition dense_i32_build_rows :: "(int, build_row_ref) hash_map \<Rightarrow> nat \<Rightarrow> dense_i32_rows option option" where
  "dense_i32_build_rows = dense_i32_table"

definition dense_i32_multi_build_rows ::
    "(int, build_row_ref list) hash_map \<Rightarrow> nat \<Rightarrow> dense_i32_multi_rows option option" where
  "dense_i32_multi_build_rows = dense_i32_table"

definition dense_i64_build_rows :: "(int, build_row_ref) hash_map \<Rightarrow> nat \<Rightarrow> dense_i64_rows option option" where
  "dense_i64_build_rows rows total_rows =
     (if rows = [] then Some None
      else let min0 = list_min (map fst rows); max0 = list_max (map fst rows)
           in case Option.bind (Option.bind (i64_checked (max0 - min0)) (\<lambda>d. i64_checked (d + 1))) usize_try_from of
                None \<Rightarrow> Some None
              | Some width \<Rightarrow>
                  if width > dense_width_limit total_rows then Some None
                  else Option.bind
                         (fill_slots (i64_offset min0) (map (\<lambda>(key, row). (key, Some row)) rows) (replicate width None))
                         (finish_dense min0 (width = length rows)))"

definition dense_i32_key_set :: "int list \<Rightarrow> nat \<Rightarrow> dense_i32_keys option option" where
  "dense_i32_key_set key_set total_rows =
     (if key_set = [] then Some None
      else let min0 = list_min key_set; max0 = list_max key_set; width = nat (max0 - min0 + 1)
           in if width > dense_width_limit total_rows then Some None
              else map_option (map_option (\<lambda>flags. \<lparr>keys_min = min0, keys_exist = flags\<rparr>))
                     (fill_slots (i32_offset min0) (map (\<lambda>key. (key, True)) key_set) (replicate width False)))"

definition finish_dense_pair ::
    "int \<Rightarrow> int \<Rightarrow> nat \<Rightarrow> bool \<Rightarrow> build_row_ref option list option \<Rightarrow> dense_i32_pair_rows option option" where
  "finish_dense_pair min_left min_right right_width complete filled =
     (case filled of
        None \<Rightarrow> Some None
      | Some dense \<Rightarrow>
          if complete then map_option (\<lambda>rows. Some (PairComplete min_left min_right right_width rows)) (those dense)
          else Some (Some (PairSparse min_left min_right right_width dense)))"

definition dense_i32_pair_build_rows ::
    "(int \<times> int, build_row_ref) hash_map \<Rightarrow> nat \<Rightarrow> dense_i32_pair_rows option option" where
  "dense_i32_pair_build_rows rows total_rows =
     (if rows = [] then Some None
      else let lefts = map (\<lambda>(key, row). fst key) rows; rights = map (\<lambda>(key, row). snd key) rows;
               min_left = list_min lefts; min_right = list_min rights;
               left_width = nat (list_max lefts - min_left + 1); right_width = nat (list_max rights - min_right + 1)
           in case usize_checked (left_width * right_width) of
                None \<Rightarrow> Some None
              | Some width \<Rightarrow>
                  if width > dense_width_limit total_rows then Some None
                  else Option.bind
                         (fill_slots
                            (\<lambda>(left, right). Some (dense_i32_pair_index left right min_left min_right right_width))
                            (map (\<lambda>(key, row). (key, Some row)) rows) (replicate width None))
                         (finish_dense_pair min_left min_right right_width (width = length rows)))"

subsection \<open>What an index promises\<close>

text \<open>The rows of a list of keyed rows that have a key, in the order of the list.\<close>

definition group_refs :: "('k \<times> 'r) list \<Rightarrow> 'k \<Rightarrow> 'r list" where
  "group_refs kvs k = map snd (filter (\<lambda>kv. fst kv = k) kvs)"

definition some_nonempty :: "'a list \<Rightarrow> 'a list option" where
  "some_nonempty xs = (if xs = [] then None else Some xs)"

lemma group_refs_simps [simp]:
  "group_refs [] k = []"
  "group_refs ((k', r) # kvs) k = (if k' = k then r # group_refs kvs k else group_refs kvs k)"
  "group_refs (kvs @ kvs') k = group_refs kvs k @ group_refs kvs' k"
  by (simp_all add: group_refs_def)

lemma some_nonempty_simps [simp]: "some_nonempty [] = None" "some_nonempty (x # xs) = Some (x # xs)"
  by (simp_all add: some_nonempty_def)

lemma some_nonempty_eq_None [simp]: "some_nonempty xs = None \<longleftrightarrow> xs = []"
  by (simp add: some_nonempty_def)

lemma some_nonempty_eq_Some [simp]: "some_nonempty xs = Some ys \<longleftrightarrow> xs = ys \<and> xs \<noteq> []"
  by (auto simp: some_nonempty_def)

lemma set_group_refs: "r \<in> set (group_refs kvs k) \<longleftrightarrow> (k, r) \<in> set kvs"
  by (force simp: group_refs_def)

lemma group_refs_map_inj: "inj f \<Longrightarrow> group_refs (map (\<lambda>(k, r). (f k, r)) kvs) (f k) = group_refs kvs k"
  by (induction kvs) (auto dest: injD)

lemma group_refs_eq_Nil: "group_refs kvs k = [] \<longleftrightarrow> k \<notin> fst ` set kvs"
  by (force simp: group_refs_def filter_empty_conv)

locale join_index =
  fixes get :: "'ix \<Rightarrow> 'k \<Rightarrow> build_row_ref list option"
    and represents :: "'ix \<Rightarrow> ('k \<times> build_row_ref) list \<Rightarrow> bool"
    and key_ok :: "'k \<Rightarrow> bool"
  assumes get_matches: "represents ix kvs \<Longrightarrow> key_ok k \<Longrightarrow> get ix k = some_nonempty (group_refs kvs k)"
begin

lemma get_eq_None: "represents ix kvs \<Longrightarrow> key_ok k \<Longrightarrow> get ix k = None \<longleftrightarrow> k \<notin> fst ` set kvs"
  by (simp add: get_matches group_refs_eq_Nil)

lemma get_mem: "represents ix kvs \<Longrightarrow> key_ok k \<Longrightarrow> get ix k = Some rs \<Longrightarrow> r \<in> set rs \<longleftrightarrow> (k, r) \<in> set kvs"
  by (auto simp: get_matches set_group_refs)

end

locale join_index_builder = join_index get represents key_ok
  for get :: "'ix \<Rightarrow> 'k \<Rightarrow> build_row_ref list option"
    and represents :: "'ix \<Rightarrow> ('k \<times> build_row_ref) list \<Rightarrow> bool"
    and key_ok :: "'k \<Rightarrow> bool" +
  fixes start :: 'ix
    and add_row :: "'k \<Rightarrow> build_row_ref \<Rightarrow> 'ix \<Rightarrow> 'ix"
  assumes start_represents: "represents start []"
    and add_represents: "represents ix kvs \<Longrightarrow> represents (add_row k r ix) (kvs @ [(k, r)])"
begin

lemma fold_represents:
  "represents ix kvs \<Longrightarrow> represents (fold (\<lambda>(k, r). add_row k r) rows ix) (kvs @ rows)"
proof (induction rows arbitrary: ix kvs)
  case (Cons row rows)
  obtain k r where "row = (k, r)" by (cases row)
  with Cons.IH [OF add_represents [OF Cons.prems, of k r]] show ?case by simp
qed simp

lemma built_represents: "represents (fold (\<lambda>(k, r). add_row k r) rows start) rows"
  using fold_represents [OF start_represents, of rows] by simp

end

subsection \<open>Hash maps\<close>

definition maps_get ::
    "('k, build_row_ref) hash_map option \<times> ('k, build_row_ref list) hash_map option \<Rightarrow> 'k \<Rightarrow> build_row_ref list option" where
  "maps_get maps k =
     (case maps of
        (unique_rows, Some rows) \<Rightarrow> map_of rows k
      | (Some unique_rows, None) \<Rightarrow> map_option (\<lambda>r. [r]) (map_of unique_rows k)
      | (None, None) \<Rightarrow> None)"

definition maps_represent ::
    "('k, build_row_ref) hash_map option \<times> ('k, build_row_ref list) hash_map option \<Rightarrow> ('k \<times> build_row_ref) list \<Rightarrow> bool" where
  "maps_represent maps kvs \<longleftrightarrow>
     (case maps of
        (None, Some rows) \<Rightarrow> distinct (map fst rows)
      | (Some unique_rows, None) \<Rightarrow> distinct (map fst unique_rows)
      | _ \<Rightarrow> False) \<and>
     (\<forall>k. maps_get maps k = some_nonempty (group_refs kvs k))"

lemma map_of_singletons: "map_of (map (\<lambda>(k, r). (k, [r])) m) k = map_option (\<lambda>r. [r]) (map_of m k)"
  by (induction m) auto

lemma map_fst_singletons: "map fst (map (\<lambda>(k, r). (k, [r])) m) = map fst m"
  by (induction m) auto

lemma entry_push_represents:
  assumes "\<forall>k. map_of rows k = some_nonempty (group_refs kvs k)"
  shows "map_of (hash_map_entry_push key r rows) k = some_nonempty (group_refs (kvs @ [(key, r)]) k)"
  using assms by (auto simp: hash_map_entry_push_def update_conv' some_nonempty_def)

lemma insert_multi_represents:
  assumes "maps_represent (None, Some rows) kvs"
  shows "maps_represent (insert_build_ref key r (None, Some rows)) (kvs @ [(key, r)])"
  using assms entry_push_represents [of rows kvs key r]
  by (auto simp: maps_represent_def insert_build_ref_def maps_get_def hash_map_entry_push_def distinct_update)

lemma insert_unique_represents:
  assumes "maps_represent (Some unique_rows, None) kvs"
  shows "maps_represent (insert_build_ref key r (Some unique_rows, None)) (kvs @ [(key, r)])"
proof (cases "map_of unique_rows key")
  case None
  have groups: "some_nonempty (group_refs kvs k) = map_option (\<lambda>r. [r]) (map_of unique_rows k)" for k
    using assms by (simp add: maps_represent_def maps_get_def)
  from groups [of key] None have "group_refs kvs key = []" by simp
  with assms None show ?thesis
    by (auto simp: maps_represent_def insert_build_ref_def maps_get_def update_conv' distinct_update)
next
  case (Some previous)
  have groups: "some_nonempty (group_refs kvs k) = map_option (\<lambda>r. [r]) (map_of unique_rows k)" for k
    using assms by (simp add: maps_represent_def maps_get_def)
  from groups [of key] Some have "group_refs kvs key = [previous]" by simp
  moreover have "distinct (map fst (AList.update key r unique_rows))"
    using assms by (simp add: maps_represent_def distinct_update)
  then have "distinct (map fst (AList.update key rs (map (\<lambda>(k, r). (k, [r])) (AList.update key r unique_rows))))" for rs
    by (intro distinct_update) (simp only: map_fst_singletons)
  ultimately show ?thesis using Some groups
    by (auto simp: maps_represent_def insert_build_ref_def maps_get_def update_conv' map_of_singletons)
qed

lemma insert_build_ref_represents:
  assumes "maps_represent maps kvs"
  shows "maps_represent (insert_build_ref key r maps) (kvs @ [(key, r)])"
proof -
  consider rows where "maps = (None, Some rows)" | unique_rows where "maps = (Some unique_rows, None)"
    using assms by (auto simp: maps_represent_def split: prod.splits option.splits)
  then show ?thesis using assms by cases (simp_all add: insert_multi_represents insert_unique_represents)
qed

interpretation maps: join_index_builder maps_get maps_represent "\<lambda>k. True" "(Some [], None)" insert_build_ref
proof unfold_locales
  show "maps_represent (Some [], None) []" by (simp add: maps_represent_def maps_get_def)
  show "maps_represent maps kvs \<Longrightarrow> maps_get maps k = some_nonempty (group_refs kvs k)"
    for maps :: "('k, build_row_ref) hash_map option \<times> ('k, build_row_ref list) hash_map option" and kvs k
    by (simp add: maps_represent_def)
qed (rule insert_build_ref_represents)

subsection \<open>Dense tables\<close>

lemma list_min_Min: "xs \<noteq> [] \<Longrightarrow> list_min xs = Min (set xs)"
  using Min.set_eq_fold [of "hd xs" xs] by (simp add: list_min_def insert_absorb)

lemma list_max_Max: "xs \<noteq> [] \<Longrightarrow> list_max xs = Max (set xs)"
  using Max.set_eq_fold [of "hd xs" xs] by (simp add: list_max_def insert_absorb)

lemma list_min_le: "x \<in> set xs \<Longrightarrow> list_min xs \<le> x"
  by (subst list_min_Min) auto

lemma list_max_ge: "x \<in> set xs \<Longrightarrow> x \<le> list_max xs"
  by (subst list_max_Max) auto

lemma list_min_mem: "xs \<noteq> [] \<Longrightarrow> list_min xs \<in> set xs"
  using Min_in [of "set xs"] by (simp add: list_min_Min)

lemma list_max_mem: "xs \<noteq> [] \<Longrightarrow> list_max xs \<in> set xs"
  using Max_in [of "set xs"] by (simp add: list_max_Max)

lemma as_usize_nonneg: "0 \<le> d \<Longrightarrow> d < 2 ^ 64 \<Longrightarrow> as_usize d = nat d"
  by (simp add: as_usize_def)

lemma as_usize_negative: "- (2 ^ 63) \<le> d \<Longrightarrow> d < 0 \<Longrightarrow> 2 ^ 63 \<le> as_usize d"
proof -
  assume d: "- (2 ^ 63) \<le> d" "d < 0"
  then have "(d + 2 ^ 64) mod 2 ^ 64 = d + 2 ^ 64" by (intro mod_pos_pos_trivial) auto
  then have "d mod 2 ^ 64 = d + 2 ^ 64" by simp
  with d show ?thesis by (simp add: as_usize_def le_nat_iff)
qed

text \<open>Distinct keys fill distinct slots, and leave the others alone.\<close>

lemma fill_slots_spec:
  assumes "\<forall>(k, c) \<in> set kvs. index k = Some (Some (idx k)) \<and> idx k < length slots"
    and "distinct (map fst kvs)" "inj_on idx (fst ` set kvs)"
  shows "\<exists>slots'. fill_slots index kvs slots = Some (Some slots') \<and> length slots' = length slots \<and>
     (\<forall>(k, c) \<in> set kvs. slots' ! idx k = c) \<and>
     (\<forall>i < length slots. i \<notin> idx ` fst ` set kvs \<longrightarrow> slots' ! i = slots ! i)"
  using assms
proof (induction kvs arbitrary: slots)
  case (Cons kv kvs)
  obtain k c where [simp]: "kv = (k, c)" by (cases kv)
  from Cons.prems(3) have inj: "inj_on idx (fst ` set kvs)" and new: "idx k \<notin> idx ` fst ` set kvs"
    using Cons.prems(2) by (auto simp: inj_on_def)
  have "\<forall>(k', c') \<in> set kvs. index k' = Some (Some (idx k')) \<and> idx k' < length (slots[idx k := c])"
    using Cons.prems(1) by auto
  from Cons.IH [OF this _ inj] Cons.prems(2) obtain slots' where
    "fill_slots index kvs (slots[idx k := c]) = Some (Some slots')" "length slots' = length slots"
    "\<forall>(k, c) \<in> set kvs. slots' ! idx k = c"
    "\<forall>i < length slots. i \<notin> idx ` fst ` set kvs \<longrightarrow> slots' ! i = slots[idx k := c] ! i" by auto
  with Cons.prems(1) new show ?case by auto
qed simp

fun dense_slots :: "'v dense_rows \<Rightarrow> 'v option list" where
  "dense_slots (DenseComplete min0 rows) = map Some rows"
| "dense_slots (DenseSparse min0 rows) = rows"

lemma length_dense_slots [simp]: "length (dense_slots d) = dense_len d"
  by (cases d) auto

text \<open>A table holds a map from keys to values: every slot its key's value, and every key a slot.  A table for keys of
  \<open>w\<close> bits is no longer than \<open>2 ^ (w - 1)\<close>, so that the distance of each of its keys to the smallest is a key.\<close>

definition dense_holds :: "nat \<Rightarrow> 'v dense_rows \<Rightarrow> (int \<Rightarrow> 'v option) \<Rightarrow> bool" where
  "dense_holds w d f \<longleftrightarrow> dense_len d \<le> 2 ^ (w - 1) \<and>
     (\<forall>i < dense_len d. dense_slots d ! i = f (dense_min d + int i)) \<and>
     (\<forall>k. f k \<noteq> None \<longrightarrow> dense_min d \<le> k \<and> k < dense_min d + int (dense_len d))"

definition dense_get :: "(int \<Rightarrow> int option) \<Rightarrow> 'v dense_rows \<Rightarrow> int \<Rightarrow> 'v option" where
  "dense_get checked d key =
     Option.bind (checked (key - dense_min d)) (\<lambda>index. Option.bind (vec_get (dense_slots d) (as_usize index)) id)"

lemma vec_get_map_Some: "Option.bind (vec_get (map Some xs) i) id = vec_get xs i"
  by (simp add: vec_get_def)

lemma dense_get_eqs:
  "dense_i32_get d = dense_get i32_checked d"
  "dense_i32_multi_get e = dense_get i32_checked e"
  "dense_i64_get d = dense_get i64_checked d"
  by (auto simp: fun_eq_iff dense_get_def dense_i32_get_def dense_i32_multi_get_def dense_i64_get_def vec_get_map_Some
      split: dense_rows.split)

lemma dense_get_holds:
  assumes holds: "dense_holds w d f" and w: "w \<le> 64"
    and checked: "\<And>x. checked x = (if - (2 ^ (w - 1)) \<le> x \<and> x < 2 ^ (w - 1) then Some x else None)"
  shows "dense_get checked d k = f k"
proof (cases "dense_min d \<le> k \<and> k < dense_min d + int (dense_len d)")
  case True
  let ?i = "nat (k - dense_min d)"
  have len: "int (dense_len d) \<le> 2 ^ (w - 1)"
    using holds by (simp add: dense_holds_def)
  also have "(2::int) ^ (w - 1) \<le> 2 ^ 63" using w by (intro power_increasing) auto
  finally have "as_usize (k - dense_min d) = ?i" using True by (intro as_usize_nonneg) auto
  moreover have "dense_slots d ! ?i = f k" "?i < dense_len d" using holds True by (auto simp: dense_holds_def)
  moreover have "k - dense_min d < 2 ^ (w - 1)" using True len by linarith
  moreover have "- (2 ^ (w - 1)) \<le> k - dense_min d" using True by (smt (verit) zero_le_power)
  ultimately show ?thesis by (simp add: dense_get_def checked vec_get_def)
next
  case False
  then have "f k = None" using holds by (auto simp: dense_holds_def)
  moreover have "dense_len d \<le> as_usize (k - dense_min d)" if "checked (k - dense_min d) \<noteq> None"
  proof (cases "dense_min d \<le> k")
    case True
    have "(2::int) ^ (w - 1) \<le> 2 ^ 63" using w by (intro power_increasing) auto
    moreover have "k - dense_min d < 2 ^ (w - 1)" using that by (auto simp: checked split: if_splits)
    ultimately show ?thesis using True False by (subst as_usize_nonneg) auto
  next
    case False
    have "(2::int) ^ (w - 1) \<le> 2 ^ 63" using w by (intro power_increasing) auto
    with that have "- (2 ^ 63) \<le> k - dense_min d" by (auto simp: checked split: if_splits)
    with False have "2 ^ 63 \<le> as_usize (k - dense_min d)" by (intro as_usize_negative) auto
    moreover have "(2::nat) ^ (w - 1) \<le> 2 ^ 63" using w by (intro power_increasing) auto
    ultimately show ?thesis using holds by (simp add: dense_holds_def)
  qed
  ultimately show ?thesis by (auto simp: dense_get_def vec_get_def checked split: if_splits)
qed

lemma dense_get_i32: "dense_holds 32 d f \<Longrightarrow> dense_get i32_checked d k = f k"
  by (rule dense_get_holds) (auto simp: i32_checked_def is_i32_def)

lemma dense_get_i64: "dense_holds 64 d f \<Longrightarrow> dense_get i64_checked d k = f k"
  by (rule dense_get_holds) (auto simp: i64_checked_def is_i64_def)

lemma fill_slots_SomeD:
  "fill_slots index kvs slots = Some (Some slots') \<Longrightarrow>
     \<forall>(k, c) \<in> set kvs. \<exists>i. index k = Some (Some i) \<and> i < length slots"
  by (induction index kvs slots rule: fill_slots.induct) (fastforce split: option.splits if_splits)+

text \<open>The table over the slots from the smallest key to the largest.\<close>

definition offset_slots :: "int \<Rightarrow> (int \<times> 'v) list \<Rightarrow> 'v option list \<Rightarrow> bool" where
  "offset_slots min0 rows dense \<longleftrightarrow>
     (\<forall>i < length dense. dense ! i = map_of rows (min0 + int i)) \<and>
     (\<forall>k \<in> fst ` set rows. min0 \<le> k \<and> k < min0 + int (length dense))"

lemma offset_slots_holds:
  assumes "offset_slots min0 rows dense" "length dense \<le> 2 ^ (w - 1)"
  shows "dense_holds w (DenseSparse min0 dense) (map_of rows)"
  using assms by (auto simp: offset_slots_def dense_holds_def dest!: map_of_SomeD)

lemma those_eq_Some: "those xs = Some ys \<longleftrightarrow> xs = map Some ys"
  by (induction xs arbitrary: ys) (auto split: option.splits simp: map_eq_Cons_conv Cons_eq_map_conv)

lemma finish_dense_holds:
  assumes "offset_slots min0 rows dense" "length dense \<le> 2 ^ (w - 1)"
    and "finish_dense min0 complete (Some dense) = Some (Some d)"
  shows "dense_holds w d (map_of rows) \<and> dense_len d = length dense \<and> dense_min d = min0"
proof (cases complete)
  case True
  then obtain ys where ys: "dense = map Some ys" "d = DenseComplete min0 ys"
    using assms(3) by (auto simp: finish_dense_def those_eq_Some)
  with offset_slots_holds [OF assms(1,2)] show ?thesis by (simp add: dense_holds_def)
next
  case False
  with assms(3) offset_slots_holds [OF assms(1,2)] show ?thesis by (auto simp: finish_dense_def)
qed

lemma map_fst_Some: "map fst (map (\<lambda>(key, row). (key, Some row)) rows) = map fst rows"
  by (induction rows) auto

lemma inj_on_offset: "(\<And>k. k \<in> S \<Longrightarrow> (m::int) \<le> k) \<Longrightarrow> inj_on (\<lambda>k. nat (k - m)) S"
proof (rule inj_onI)
  fix x y assume "\<And>k. k \<in> S \<Longrightarrow> m \<le> k" "x \<in> S" "y \<in> S" "nat (x - m) = nat (y - m)"
  then have "m \<le> x" "m \<le> y" "nat (x - m) = nat (y - m)" by auto
  then show "x = y" by simp
qed

lemma fill_offsets:
  assumes index: "\<And>k. k \<in> fst ` set rows \<Longrightarrow> index k = Some (Some (nat (k - min0)))"
    and range: "\<And>k. k \<in> fst ` set rows \<Longrightarrow> min0 \<le> k \<and> k < min0 + int width"
    and dist: "distinct (map fst rows)"
  shows "\<exists>dense. fill_slots index (map (\<lambda>(key, row). (key, Some row)) rows) (replicate width None) = Some (Some dense) \<and>
     length dense = width \<and> offset_slots min0 rows dense"
proof -
  let ?kvs = "map (\<lambda>(key, row). (key, Some row)) rows"
  have keys: "fst ` set ?kvs = fst ` set rows" by force
  have "inj_on (\<lambda>k. nat (k - min0)) (fst ` set rows)" using range by (intro inj_on_offset) blast
  moreover have "\<forall>(k, c) \<in> set ?kvs. index k = Some (Some (nat (k - min0))) \<and> nat (k - min0) < length (replicate width (None::'a option))"
  proof clarify
    fix k and c :: "'a option" assume "(k, c) \<in> set ?kvs"
    then have "k \<in> fst ` set rows" by force
    with index [OF this] range [OF this] show
      "index k = Some (Some (nat (k - min0))) \<and> nat (k - min0) < length (replicate width (None::'a option))" by auto
  qed
  ultimately obtain dense where dense: "fill_slots index ?kvs (replicate width None) = Some (Some dense)" "length dense = width"
    "\<forall>(k, c) \<in> set ?kvs. dense ! nat (k - min0) = c"
    "\<forall>i < width. i \<notin> (\<lambda>k. nat (k - min0)) ` fst ` set rows \<longrightarrow> dense ! i = None"
    using fill_slots_spec [of ?kvs index "\<lambda>k. nat (k - min0)" "replicate width None"] dist
    unfolding keys map_fst_Some by auto
  have "dense ! i = map_of rows (min0 + int i)" if "i < width" for i
  proof (cases "map_of rows (min0 + int i)")
    case None
    then have "min0 + int i \<notin> fst ` set rows" by (simp add: map_of_eq_None_iff)
    then have "i \<notin> (\<lambda>k. nat (k - min0)) ` fst ` set rows" using range by force
    with dense(4) that None show ?thesis by simp
  next
    case (Some v)
    then have "(min0 + int i, Some v) \<in> set ?kvs" by (force dest: map_of_SomeD)
    with dense(3) Some show ?thesis by fastforce
  qed
  with dense(1,2) range show ?thesis by (auto simp: offset_slots_def)
qed

lemma finish_dense_total:
  assumes "offset_slots min0 rows dense" "distinct (map fst rows)" "complete = (length dense = length rows)"
  shows "finish_dense min0 complete (Some dense) \<noteq> None"
proof (cases complete)
  case True
  have inj: "inj_on (\<lambda>k. nat (k - min0)) (fst ` set rows)"
    using assms(1) by (intro inj_on_offset) (auto simp: offset_slots_def)
  have sub: "(\<lambda>k. nat (k - min0)) ` fst ` set rows \<subseteq> {..<length dense}" using assms(1) by (force simp: offset_slots_def)
  have "card ((\<lambda>k. nat (k - min0)) ` fst ` set rows) = length dense"
    using card_image [OF inj] distinct_card [OF assms(2)] True assms(3) by simp
  with sub have all: "(\<lambda>k. nat (k - min0)) ` fst ` set rows = {..<length dense}" by (intro card_subset_eq) auto
  have "dense ! i \<noteq> None" if i: "i < length dense" for i
  proof -
    from i all obtain k where k: "k \<in> fst ` set rows" "i = nat (k - min0)" by blast
    then have "min0 + int i = k" using assms(1) by (auto simp: offset_slots_def)
    then show ?thesis using assms(1) k i by (auto simp: offset_slots_def map_of_eq_None_iff)
  qed
  then have "dense = map Some (map the dense)" by (intro nth_equalityI) auto
  then have "those dense = Some (map the dense)" by (simp only: those_eq_Some)
  then show ?thesis by (simp add: finish_dense_def)
qed (simp add: finish_dense_def)

lemma dense_i32_table_correct:
  assumes dist: "distinct (map fst rows)" and table: "dense_i32_table rows total_rows = Some (Some d)"
  shows "dense_holds 32 d (map_of rows) \<and> dense_len d \<le> dense_width_limit total_rows \<and> dense_min d \<in> fst ` set rows"
proof -
  define min0 where "min0 = list_min (map fst rows)"
  define width where "width = nat (list_max (map fst rows) - min0 + 1)"
  let ?kvs = "map (\<lambda>(key, row). (key, Some row)) rows"
  from table have ne: "rows \<noteq> []" by (auto simp: dense_i32_table_def)
  have range: "min0 \<le> k \<and> k < min0 + int width" if "k \<in> fst ` set rows" for k
    using that list_min_le [of k "map fst rows"] list_max_ge [of k "map fst rows"] by (auto simp: min0_def width_def)
  from table ne obtain filled where filled: "fill_slots (i32_offset min0) ?kvs (replicate width None) = Some filled"
    "finish_dense min0 (width = length rows) filled = Some (Some d)" "width \<le> dense_width_limit total_rows"
    by (auto simp: dense_i32_table_def Let_def min0_def width_def bind_eq_Some_conv split: if_splits)
  then obtain dense0 where "filled = Some dense0" by (auto simp: finish_dense_def split: option.splits)
  with filled(1) have ok: "\<forall>(k, c) \<in> set ?kvs. \<exists>i. i32_offset min0 k = Some (Some i) \<and> i < width"
    using fill_slots_SomeD by fastforce
  have small: "is_i32 (k - min0)" if "k \<in> fst ` set rows" for k
    using that ok by (force simp: i32_offset_def i32_checked_def split: if_splits)
  have "i32_offset min0 k = Some (Some (nat (k - min0)))" if "k \<in> fst ` set rows" for k
    using small [OF that] range [OF that] by (simp add: i32_offset_def i32_checked_def is_i32_def as_usize_nonneg)
  with fill_offsets [OF this range dist] filled obtain dense where
    dense: "filled = Some dense" "length dense = width" "offset_slots min0 rows dense" by auto
  have "list_max (map fst rows) \<in> fst ` set rows" using list_max_mem [of "map fst rows"] ne by simp
  from small [OF this] have "width \<le> 2 ^ (32 - 1)" by (simp add: width_def is_i32_def nat_le_iff)
  moreover have "min0 \<in> fst ` set rows" using list_min_mem [of "map fst rows"] ne by (simp add: min0_def)
  ultimately show ?thesis using finish_dense_holds [OF dense(3), of 32] dense filled by simp
qed

text \<open>No table of fewer than \<open>2 ^ 29\<close> rows panics.\<close>

lemma dense_i32_table_total:
  assumes dist: "distinct (map fst rows)" and total: "total_rows < 2 ^ 29"
  shows "dense_i32_table rows total_rows \<noteq> None"
proof (cases "rows = [] \<or> nat (list_max (map fst rows) - list_min (map fst rows) + 1) > dense_width_limit total_rows")
  case False
  define min0 where "min0 = list_min (map fst rows)"
  define width where "width = nat (list_max (map fst rows) - min0 + 1)"
  have range: "min0 \<le> k \<and> k < min0 + int width" if "k \<in> fst ` set rows" for k
    using that list_min_le [of k "map fst rows"] list_max_ge [of k "map fst rows"] by (auto simp: min0_def width_def)
  have "dense_width_limit total_rows \<le> 2 ^ 31" using total by (simp add: dense_width_limit_def u64_sat_def)
  with False have "width \<le> 2 ^ 31" by (simp add: width_def min0_def)
  then have "i32_offset min0 k = Some (Some (nat (k - min0)))" if "k \<in> fst ` set rows" for k
    using range [OF that] by (simp add: i32_offset_def i32_checked_def is_i32_def as_usize_nonneg)
  from fill_offsets [OF this range dist] obtain dense where
    "fill_slots (i32_offset min0) (map (\<lambda>(key, row). (key, Some row)) rows) (replicate width None) = Some (Some dense)"
    "length dense = width" "offset_slots min0 rows dense" by auto
  moreover from this have "finish_dense min0 (width = length rows) (Some dense) \<noteq> None"
    by (intro finish_dense_total [OF _ dist]) auto
  ultimately show ?thesis using False by (auto simp: dense_i32_table_def Let_def min0_def width_def)
qed (auto simp: dense_i32_table_def Let_def)

lemma dense_i64_build_rows_correct:
  assumes dist: "distinct (map fst rows)" and table: "dense_i64_build_rows rows total_rows = Some (Some d)"
  shows "dense_holds 64 d (map_of rows)"
proof -
  define min0 where "min0 = list_min (map fst rows)"
  define max0 where "max0 = list_max (map fst rows)"
  define width where "width = nat (max0 - min0 + 1)"
  let ?kvs = "map (\<lambda>(key, row). (key, Some row)) rows"
  from table have ne: "rows \<noteq> []" by (auto simp: dense_i64_build_rows_def)
  have range: "min0 \<le> k \<and> k < min0 + int width" if "k \<in> fst ` set rows" for k
    using that list_min_le [of k "map fst rows"] list_max_ge [of k "map fst rows"] by (auto simp: min0_def max0_def width_def)
  from table ne obtain filled where filled: "fill_slots (i64_offset min0) ?kvs (replicate width None) = Some filled"
    "finish_dense min0 (width = length rows) filled = Some (Some d)" and small: "is_i64 (max0 - min0)" "is_i64 (max0 - min0 + 1)"
    by (auto simp: dense_i64_build_rows_def Let_def min0_def max0_def width_def bind_eq_Some_conv rust_simps
        split: if_splits option.splits)
  have "i64_offset min0 k = Some (Some (nat (k - min0)))" if "k \<in> fst ` set rows" for k
    using small range [OF that] by (auto simp: i64_offset_def i64_checked_def is_i64_def usize_try_from_def width_def split: if_splits)
  with fill_offsets [OF this range dist] filled obtain dense where
    dense: "filled = Some dense" "length dense = width" "offset_slots min0 rows dense" by auto
  have "width \<le> 2 ^ (64 - 1)" using small by (simp add: width_def is_i64_def nat_le_iff)
  then show ?thesis using finish_dense_holds [OF dense(3), of 64] dense filled by simp
qed

lemma dense_i32_key_set_correct:
  assumes dist: "distinct key_set" and table: "dense_i32_key_set key_set total_rows = Some (Some s)"
  shows "dense_i32_keys_contains s k \<longleftrightarrow> k \<in> set key_set"
proof -
  define min0 where "min0 = list_min key_set"
  define width where "width = nat (list_max key_set - min0 + 1)"
  let ?kvs = "map (\<lambda>key. (key, True)) key_set"
  have keys: "fst ` set ?kvs = set key_set" "map fst ?kvs = key_set" by (force simp: comp_def)+
  have range: "min0 \<le> k \<and> k < min0 + int width" if "k \<in> set key_set" for k
    using that list_min_le [of k key_set] list_max_ge [of k key_set] by (auto simp: min0_def width_def)
  from table obtain flags where flags: "fill_slots (i32_offset min0) ?kvs (replicate width False) = Some (Some flags)"
    "s = \<lparr>keys_min = min0, keys_exist = flags\<rparr>"
    by (auto simp: dense_i32_key_set_def Let_def min0_def width_def split: if_splits)
  have small: "is_i32 (k - min0)" if "k \<in> set key_set" for k
    using that fill_slots_SomeD [OF flags(1)] by (force simp: i32_offset_def i32_checked_def split: if_splits)
  have idx: "\<forall>(k, c) \<in> set ?kvs. i32_offset min0 k = Some (Some (nat (k - min0))) \<and> nat (k - min0) < length (replicate width False)"
    using small range by (force simp: i32_offset_def i32_checked_def is_i32_def as_usize_nonneg)
  have "inj_on (\<lambda>k. nat (k - min0)) (fst ` set ?kvs)" unfolding keys using range by (intro inj_on_offset) blast
  from fill_slots_spec [OF idx _ this] dist flags(1) have filled: "length flags = width"
    "\<forall>k \<in> set key_set. flags ! nat (k - min0)"
    "\<forall>i < width. i \<notin> (\<lambda>k. nat (k - min0)) ` set key_set \<longrightarrow> \<not> flags ! i" unfolding keys by auto
  show ?thesis
  proof
    assume "k \<in> set key_set"
    with small [OF this] range [OF this] filled show "dense_i32_keys_contains s k"
      by (auto simp: dense_i32_keys_contains_def flags i32_checked_def slot_matched_def vec_get_def is_i32_def as_usize_nonneg)
  next
    assume *: "dense_i32_keys_contains s k"
    then have **: "is_i32 (k - min0)" "as_usize (k - min0) < width" "flags ! as_usize (k - min0)"
      using filled(1) by (auto simp: dense_i32_keys_contains_def flags i32_checked_def slot_matched_def vec_get_def split: if_splits)
    have "width \<le> 2 ^ 32"
    proof (cases "key_set = []")
      case False
      from small [OF list_max_mem [OF False]] show ?thesis by (simp add: width_def is_i32_def nat_le_iff)
    qed (use table in \<open>simp add: dense_i32_key_set_def\<close>)
    have "0 \<le> k - min0"
    proof (rule ccontr)
      assume "\<not> 0 \<le> k - min0"
      with **(1) have "2 ^ 63 \<le> as_usize (k - min0)" by (intro as_usize_negative) (auto simp: is_i32_def)
      with **(2) \<open>width \<le> 2 ^ 32\<close> show False by simp
    qed
    then have "as_usize (k - min0) = nat (k - min0)" using **(1) by (intro as_usize_nonneg) (auto simp: is_i32_def)
    with ** filled(3) obtain k' where "k' \<in> set key_set" "nat (k - min0) = nat (k' - min0)" by auto
    with range [of k'] \<open>0 \<le> k - min0\<close> show "k \<in> set key_set" by (smt (verit) nat_eq_iff)
  qed
qed

text \<open>The table of pairs.\<close>

lemma pair_index_eq_Some:
  "dense_i32_pair_index l r ml mr rw = Some i \<longleftrightarrow>
     ml \<le> l \<and> mr \<le> r \<and> is_i32 (l - ml) \<and> is_i32 (r - mr) \<and> nat (r - mr) < rw \<and>
     i = nat (l - ml) * rw + nat (r - mr) \<and> i < 2 ^ 64"
  by (auto simp: dense_i32_pair_index_def bind_eq_Some_conv rust_simps i32_checked_def split: if_splits)

lemma row_major_inj:
  assumes "a * w + b = a' * w + b'" "b < w" "b' < (w::nat)"
  shows "a = a' \<and> b = b'"
proof -
  have "(a * w + b) div w = a" "(a' * w + b') div w = a'" using assms(2,3) by auto
  with assms(1) have "a = a'" by simp
  with assms(1) show ?thesis by simp
qed

fun pair_slots :: "dense_i32_pair_rows \<Rightarrow> build_row_ref option list" where
  "pair_slots (PairComplete ml mr rw rows) = map Some rows"
| "pair_slots (PairSparse ml mr rw rows) = rows"

definition pair_range :: "int \<Rightarrow> int \<Rightarrow> nat \<Rightarrow> nat \<Rightarrow> (int \<times> int) set \<Rightarrow> bool" where
  "pair_range ml mr lw rw S \<longleftrightarrow> (\<forall>(a, b) \<in> S. ml \<le> a \<and> nat (a - ml) < lw \<and> mr \<le> b \<and> nat (b - mr) < rw)"

lemma pair_rangeD: "pair_range ml mr lw rw S \<Longrightarrow> (a, b) \<in> S \<Longrightarrow> ml \<le> a \<and> nat (a - ml) < lw \<and> mr \<le> b \<and> nat (b - mr) < rw"
  by (auto simp: pair_range_def)

lemma pair_range_bounds:
  fixes rows :: "((int \<times> int) \<times> 'v) list"
  defines "ml \<equiv> list_min (map (\<lambda>(key, row). fst key) rows)" and "mr \<equiv> list_min (map (\<lambda>(key, row). snd key) rows)"
  shows "pair_range ml mr (nat (list_max (map (\<lambda>(key, row). fst key) rows) - ml + 1))
     (nat (list_max (map (\<lambda>(key, row). snd key) rows) - mr + 1)) (fst ` set rows)"
  unfolding pair_range_def
proof clarify
  fix a b c d and v :: 'v assume "((c, d), v) \<in> set rows" "(a, b) = fst ((c, d), v)"
  then have "a \<in> set (map (\<lambda>(key, row). fst key) rows)" "b \<in> set (map (\<lambda>(key, row). snd key) rows)" by force+
  from list_min_le [OF this(1)] list_max_ge [OF this(1)] list_min_le [OF this(2)] list_max_ge [OF this(2)]
  show "ml \<le> a \<and> nat (a - ml) < nat (list_max (map (\<lambda>(key, row). fst key) rows) - ml + 1) \<and> mr \<le> b \<and>
    nat (b - mr) < nat (list_max (map (\<lambda>(key, row). snd key) rows) - mr + 1)" unfolding ml_def mr_def by linarith
qed

lemma row_major_less: "a < lw \<Longrightarrow> b < (rw::nat) \<Longrightarrow> a * rw + b < lw * rw"
proof -
  assume "a < lw" "b < rw"
  then have "a * rw + b < Suc a * rw" by simp
  also have "\<dots> \<le> lw * rw" using \<open>a < lw\<close> by (intro mult_le_mono1) simp
  finally show ?thesis .
qed

lemma row_major_inj_on: "pair_range ml mr lw rw S \<Longrightarrow> inj_on (\<lambda>(l, r). nat (l - ml) * rw + nat (r - mr)) S"
proof (rule inj_onI, clarify)
  fix a b c d assume S: "pair_range ml mr lw rw S" "(a, b) \<in> S" "(c, d) \<in> S"
    and eq: "nat (a - ml) * rw + nat (b - mr) = nat (c - ml) * rw + nat (d - mr)"
  note bounds = pair_rangeD [OF S(1,2)] pair_rangeD [OF S(1,3)]
  then have "nat (a - ml) = nat (c - ml) \<and> nat (b - mr) = nat (d - mr)" by (intro row_major_inj [OF eq]) auto
  with bounds show "a = c \<and> b = d" by (auto simp: eq_nat_nat_iff)
qed

lemma pair_filled:
  fixes rows :: "((int \<times> int) \<times> 'v) list"
  assumes range: "pair_range ml mr lw rw (fst ` set rows)" and dist: "distinct (map fst rows)"
    and filled: "fill_slots (\<lambda>(l, r). Some (dense_i32_pair_index l r ml mr rw)) (map (\<lambda>(key, row). (key, Some row)) rows)
      (replicate (lw * rw) None) = Some (Some dense)"
  shows "length dense = lw * rw"
    and "(l, r) \<in> fst ` set rows \<Longrightarrow> dense_i32_pair_index l r ml mr rw = Some (nat (l - ml) * rw + nat (r - mr))"
    and "(l, r) \<in> fst ` set rows \<Longrightarrow> dense ! (nat (l - ml) * rw + nat (r - mr)) = map_of rows (l, r)"
    and "i < lw * rw \<Longrightarrow> i \<notin> (\<lambda>(l, r). nat (l - ml) * rw + nat (r - mr)) ` fst ` set rows \<Longrightarrow> dense ! i = None"
proof -
  define index where "index = (\<lambda>(l, r). Some (dense_i32_pair_index l r ml mr rw))"
  define idx where "idx = (\<lambda>(l, r). nat (l - ml) * rw + nat (r - mr))"
  let ?kvs = "map (\<lambda>(key, row). (key, Some row)) rows"
  have keys: "fst ` set ?kvs = fst ` set rows" by force
  have found: "index (a, b) = Some (Some (idx (a, b))) \<and> idx (a, b) < lw * rw" if "(a, b) \<in> fst ` set rows" for a b
    using that fill_slots_SomeD [OF filled] by (force simp: index_def idx_def pair_index_eq_Some)
  moreover have "inj_on idx (fst ` set rows)" unfolding idx_def by (rule row_major_inj_on [OF range])
  moreover have "\<forall>(k, c) \<in> set ?kvs. index k = Some (Some (idx k)) \<and> idx k < length (replicate (lw * rw) (None::'v option))"
    using found by force
  ultimately have *: "length dense = lw * rw" "\<forall>(k, c) \<in> set ?kvs. dense ! idx k = c"
    "\<forall>i < lw * rw. i \<notin> idx ` fst ` set rows \<longrightarrow> dense ! i = None"
    using fill_slots_spec [of ?kvs index idx "replicate (lw * rw) None"] dist filled unfolding keys map_fst_Some index_def by auto
  show "length dense = lw * rw" by (rule *(1))
  show "(l, r) \<in> fst ` set rows \<Longrightarrow> dense_i32_pair_index l r ml mr rw = Some (nat (l - ml) * rw + nat (r - mr))"
    using found [of l r] by (simp add: index_def idx_def)
  show "i < lw * rw \<Longrightarrow> i \<notin> (\<lambda>(l, r). nat (l - ml) * rw + nat (r - mr)) ` fst ` set rows \<Longrightarrow> dense ! i = None"
    using *(3) by (simp add: idx_def)
  assume "(l, r) \<in> fst ` set rows"
  then obtain v where v: "map_of rows (l, r) = Some v" by (metis map_of_eq_None_iff not_None_eq)
  then have "((l, r), Some v) \<in> set ?kvs" by (force dest: map_of_SomeD)
  with *(2) v show "dense ! (nat (l - ml) * rw + nat (r - mr)) = map_of rows (l, r)" by (auto simp: idx_def)
qed

lemma pair_table_get:
  assumes range: "pair_range ml mr lw rw (fst ` set rows)" and dist: "distinct (map fst rows)"
    and fill: "fill_slots (\<lambda>(l, r). Some (dense_i32_pair_index l r ml mr rw)) (map (\<lambda>(key, row). (key, Some row)) rows)
      (replicate (lw * rw) None) = Some (Some dense)"
    and fin: "finish_dense_pair ml mr rw complete (Some dense) = Some (Some d)"
  shows "dense_i32_pair_get d l r = map_of rows (l, r)"
proof -
  note filled = pair_filled [OF range dist fill]
  have get: "dense_i32_pair_get d l r = Option.bind (dense_i32_pair_index l r ml mr rw) (\<lambda>i. Option.bind (vec_get dense i) id)"
    using fin by (auto simp: finish_dense_pair_def those_eq_Some vec_get_map_Some split: if_splits)
  show ?thesis
  proof (cases "(l, r) \<in> fst ` set rows")
    case True
    from filled(2,3) [OF True] filled(1) pair_rangeD [OF range True] row_major_less show ?thesis
      by (simp add: get vec_get_def)
  next
    case False
    then have none: "map_of rows (l, r) = None" by (simp add: map_of_eq_None_iff)
    have "dense ! i = None" if i: "dense_i32_pair_index l r ml mr rw = Some i" "i < lw * rw" for i
    proof (rule filled(4) [OF i(2)], rule)
      assume "i \<in> (\<lambda>(l, r). nat (l - ml) * rw + nat (r - mr)) ` fst ` set rows"
      then obtain a b where ab: "(a, b) \<in> fst ` set rows" "i = nat (a - ml) * rw + nat (b - mr)" by force
      with i(1) pair_rangeD [OF range ab(1)] have "nat (l - ml) = nat (a - ml) \<and> nat (r - mr) = nat (b - mr)"
        by (intro row_major_inj [where w = rw]) (auto simp: pair_index_eq_Some)
      with i(1) pair_rangeD [OF range ab(1)] have "l = a \<and> r = b" by (auto simp: pair_index_eq_Some eq_nat_nat_iff)
      with ab(1) False show False by simp
    qed
    then show ?thesis using filled(1) by (cases "dense_i32_pair_index l r ml mr rw") (auto simp: get none vec_get_def)
  qed
qed

lemma dense_i32_pair_build_rows_correct:
  assumes dist: "distinct (map fst rows)" and table: "dense_i32_pair_build_rows rows total_rows = Some (Some d)"
  shows "dense_i32_pair_get d l r = map_of rows (l, r)"
proof -
  define ml where "ml = list_min (map (\<lambda>(key, row). fst key) rows)"
  define mr where "mr = list_min (map (\<lambda>(key, row). snd key) rows)"
  define lw where "lw = nat (list_max (map (\<lambda>(key, row). fst key) rows) - ml + 1)"
  define rw where "rw = nat (list_max (map (\<lambda>(key, row). snd key) rows) - mr + 1)"
  have range: "pair_range ml mr lw rw (fst ` set rows)" unfolding ml_def mr_def lw_def rw_def by (rule pair_range_bounds)
  from table obtain dense where dense: "fill_slots (\<lambda>(l, r). Some (dense_i32_pair_index l r ml mr rw))
      (map (\<lambda>(key, row). (key, Some row)) rows) (replicate (lw * rw) None) = Some (Some dense)"
    "finish_dense_pair ml mr rw (lw * rw = length rows) (Some dense) = Some (Some d)"
    by (auto simp: dense_i32_pair_build_rows_def Let_def ml_def mr_def lw_def rw_def bind_eq_Some_conv rust_simps
        finish_dense_pair_def split: if_splits option.splits)
  show ?thesis by (rule pair_table_get [OF range dist dense])
qed

lemma fill_slots_total:
  "(\<And>k c. (k, c) \<in> set kvs \<Longrightarrow> \<exists>x. index k = Some x \<and> (\<forall>i. x = Some i \<longrightarrow> i < length slots)) \<Longrightarrow>
   fill_slots index kvs slots \<noteq> None"
proof (induction kvs arbitrary: slots)
  case (Cons kv kvs)
  obtain k c where kv: "kv = (k, c)" by (cases kv)
  with Cons.prems [of k c] obtain x where x: "index k = Some x" "\<forall>i. x = Some i \<longrightarrow> i < length slots" by auto
  have "\<exists>x. index k' = Some x \<and> (\<forall>i. x = Some i \<longrightarrow> i < length (slots[j := c]))" if "(k', c') \<in> set kvs" for k' c' j
    using Cons.prems [of k' c'] that by auto
  from Cons.IH [OF this] x kv show ?case by (auto split: option.splits)
qed simp

lemma dense_i64_build_rows_total:
  assumes dist: "distinct (map fst rows)"
  shows "dense_i64_build_rows rows total_rows \<noteq> None"
proof (cases "rows = [] \<or> \<not> is_i64 (list_max (map fst rows) - list_min (map fst rows) + 1)")
  case False
  define min0 where "min0 = list_min (map fst rows)"
  define width where "width = nat (list_max (map fst rows) - min0 + 1)"
  have range: "min0 \<le> k \<and> k < min0 + int width" if "k \<in> fst ` set rows" for k
    using that list_min_le [of k "map fst rows"] list_max_ge [of k "map fst rows"] by (auto simp: min0_def width_def)
  have "i64_offset min0 k = Some (Some (nat (k - min0)))" if "k \<in> fst ` set rows" for k
    using range [OF that] False
    by (auto simp: i64_offset_def i64_checked_def is_i64_def usize_try_from_def width_def min0_def split: if_splits)
  from fill_offsets [OF this range dist] obtain dense where
    "fill_slots (i64_offset min0) (map (\<lambda>(key, row). (key, Some row)) rows) (replicate width None) = Some (Some dense)"
    "length dense = width" "offset_slots min0 rows dense" by auto
  moreover from this have "finish_dense min0 (width = length rows) (Some dense) \<noteq> None"
    by (intro finish_dense_total [OF _ dist]) auto
  ultimately show ?thesis using False
    by (auto simp: dense_i64_build_rows_def Let_def min0_def width_def bind_eq_Some_conv rust_simps split: option.splits)
qed (auto simp: dense_i64_build_rows_def Let_def i64_checked_def split: option.splits)

lemma dense_i32_key_set_total:
  assumes "total_rows < 2 ^ 29"
  shows "dense_i32_key_set key_set total_rows \<noteq> None"
proof (cases "key_set = [] \<or> nat (list_max key_set - list_min key_set + 1) > dense_width_limit total_rows")
  case False
  define min0 where "min0 = list_min key_set"
  define width where "width = nat (list_max key_set - min0 + 1)"
  have "dense_width_limit total_rows \<le> 2 ^ 31" using assms by (simp add: dense_width_limit_def u64_sat_def)
  with False have small: "width \<le> 2 ^ 31" by (simp add: width_def min0_def)
  have "i32_offset min0 k = Some (Some (nat (k - min0))) \<and> nat (k - min0) < width" if "k \<in> set key_set" for k
  proof -
    have "min0 \<le> k \<and> k < min0 + int width"
      using that list_min_le [of k key_set] list_max_ge [of k key_set] by (auto simp: min0_def width_def)
    with small show ?thesis by (auto simp: i32_offset_def i32_checked_def is_i32_def as_usize_nonneg)
  qed
  then have "fill_slots (i32_offset min0) (map (\<lambda>key. (key, True)) key_set) (replicate width False) \<noteq> None"
    by (intro fill_slots_total) auto
  with False show ?thesis by (auto simp: dense_i32_key_set_def Let_def min0_def width_def)
qed (auto simp: dense_i32_key_set_def Let_def)

lemma full_slots:
  assumes "inj_on idx S" "idx ` S \<subseteq> {..<n}" "card S = n"
  shows "idx ` S = {..<n::nat}"
  using assms by (intro card_subset_eq) (auto simp: card_image)

lemma pair_table_total:
  assumes range: "pair_range ml mr lw rw (fst ` set rows)" and dist: "distinct (map fst rows)"
    and fill: "fill_slots (\<lambda>(l, r). Some (dense_i32_pair_index l r ml mr rw)) (map (\<lambda>(key, row). (key, Some row)) rows)
      (replicate (lw * rw) None) = Some (Some dense)"
  shows "finish_dense_pair ml mr rw (lw * rw = length rows) (Some dense) \<noteq> None"
proof (cases "lw * rw = length rows")
  case True
  note * = pair_filled [OF range dist fill]
  have "(\<lambda>(l, r). nat (l - ml) * rw + nat (r - mr)) ` fst ` set rows = {..<lw * rw}"
  proof (rule full_slots [OF row_major_inj_on [OF range]])
    show "(\<lambda>(l, r). nat (l - ml) * rw + nat (r - mr)) ` fst ` set rows \<subseteq> {..<lw * rw}"
    proof
      fix i assume "i \<in> (\<lambda>(l, r). nat (l - ml) * rw + nat (r - mr)) ` fst ` set rows"
      then obtain a b where ab: "(a, b) \<in> fst ` set rows" "i = nat (a - ml) * rw + nat (b - mr)" by force
      from pair_rangeD [OF range ab(1)] ab(2) show "i \<in> {..<lw * rw}" by (simp add: row_major_less)
    qed
    show "card (fst ` set rows) = lw * rw" using True distinct_card [OF dist] by simp
  qed
  then have "dense ! i \<noteq> None" if i: "i < lw * rw" for i
  proof -
    assume all: "(\<lambda>(l, r). nat (l - ml) * rw + nat (r - mr)) ` fst ` set rows = {..<lw * rw}"
    have "i \<in> (\<lambda>(l, r). nat (l - ml) * rw + nat (r - mr)) ` fst ` set rows" using i all by simp
    then obtain a b where ab: "(a, b) \<in> fst ` set rows" "i = nat (a - ml) * rw + nat (b - mr)" by force
    from *(3) [OF ab(1)] ab show ?thesis by (auto simp: map_of_eq_None_iff)
  qed
  with *(1) have "dense = map Some (map the dense)" by (intro nth_equalityI) auto
  then have "those dense = Some (map the dense)" by (simp only: those_eq_Some)
  then show ?thesis by (simp add: finish_dense_pair_def)
qed (simp add: finish_dense_pair_def)

lemma dense_i32_pair_build_rows_total:
  assumes dist: "distinct (map fst rows)"
  shows "dense_i32_pair_build_rows rows total_rows \<noteq> None"
proof -
  define ml where "ml = list_min (map (\<lambda>(key, row). fst key) rows)"
  define mr where "mr = list_min (map (\<lambda>(key, row). snd key) rows)"
  define lw where "lw = nat (list_max (map (\<lambda>(key, row). fst key) rows) - ml + 1)"
  define rw where "rw = nat (list_max (map (\<lambda>(key, row). snd key) rows) - mr + 1)"
  define filled where "filled = fill_slots (\<lambda>(l, r). Some (dense_i32_pair_index l r ml mr rw))
      (map (\<lambda>(key, row). (key, Some row)) rows) (replicate (lw * rw) None)"
  have range: "pair_range ml mr lw rw (fst ` set rows)" unfolding ml_def mr_def lw_def rw_def by (rule pair_range_bounds)
  have "filled \<noteq> None" unfolding filled_def
  proof (rule fill_slots_total)
    fix k and c :: "build_row_ref option" assume "(k, c) \<in> set (map (\<lambda>(key, row). (key, Some row)) rows)"
    then have "k \<in> fst ` set rows" by force
    with pair_rangeD [OF range, of "fst k" "snd k"] row_major_less
    show "\<exists>x. (case k of (l, r) \<Rightarrow> Some (dense_i32_pair_index l r ml mr rw)) = Some x \<and>
      (\<forall>i. x = Some i \<longrightarrow> i < length (replicate (lw * rw) (None::build_row_ref option)))"
      by (cases k) (auto simp: pair_index_eq_Some)
  qed
  then obtain x where x: "filled = Some x" by auto
  have finished: "finish_dense_pair ml mr rw (lw * rw = length rows) (Some dense) \<noteq> None" if "filled = Some (Some dense)" for dense
    by (rule pair_table_total [OF range dist that [unfolded filled_def]])
  have "Option.bind filled (finish_dense_pair ml mr rw (lw * rw = length rows)) \<noteq> None"
  proof (cases x)
    case None
    then show ?thesis by (simp add: x finish_dense_pair_def)
  next
    case (Some dense)
    with finished [of dense] x show ?thesis by simp
  qed
  moreover have "usize_checked (lw * rw) = None \<or> usize_checked (lw * rw) = Some (lw * rw)" by (simp add: usize_checked_def)
  ultimately show ?thesis
    unfolding dense_i32_pair_build_rows_def Let_def ml_def [symmetric] mr_def [symmetric] lw_def [symmetric] rw_def [symmetric]
      filled_def by (auto simp del: bind_eq_None_conv)
qed

text \<open>The dense tables as indexes: of single rows, of lists of rows, and of pairs of keys.\<close>

definition unique_ref :: "('k \<times> build_row_ref) list \<Rightarrow> 'k \<Rightarrow> build_row_ref option" where
  "unique_ref kvs k = (case group_refs kvs k of [r] \<Rightarrow> Some r | _ \<Rightarrow> None)"

definition unique_groups :: "('k \<times> build_row_ref) list \<Rightarrow> bool" where
  "unique_groups kvs \<longleftrightarrow> (\<forall>k. length (group_refs kvs k) \<le> 1)"

lemma unique_ref_groups:
  "unique_groups kvs \<Longrightarrow> map_option (\<lambda>r. [r]) (unique_ref kvs k) = some_nonempty (group_refs kvs k)"
  by (cases "group_refs kvs k"; cases "tl (group_refs kvs k)") (auto simp: unique_groups_def unique_ref_def dest: spec [of _ k])

definition dense_unique_represents :: "nat \<Rightarrow> build_row_ref dense_rows \<Rightarrow> (int \<times> build_row_ref) list \<Rightarrow> bool" where
  "dense_unique_represents w d kvs \<longleftrightarrow> unique_groups kvs \<and> dense_holds w d (unique_ref kvs)"

definition dense_multi_represents :: "dense_i32_multi_rows \<Rightarrow> (int \<times> build_row_ref) list \<Rightarrow> bool" where
  "dense_multi_represents d kvs \<longleftrightarrow> dense_holds 32 d (\<lambda>k. some_nonempty (group_refs kvs k))"

definition dense_pair_represents :: "dense_i32_pair_rows \<Rightarrow> ((int \<times> int) \<times> build_row_ref) list \<Rightarrow> bool" where
  "dense_pair_represents d kvs \<longleftrightarrow> unique_groups kvs \<and> (\<forall>l r. dense_i32_pair_get d l r = unique_ref kvs (l, r))"

interpretation dense_i32: join_index "\<lambda>d k. map_option (\<lambda>r. [r]) (dense_i32_get d k)" "dense_unique_represents 32" "\<lambda>k. True"
proof unfold_locales
  fix d kvs k assume "dense_unique_represents 32 d kvs"
  then show "map_option (\<lambda>r. [r]) (dense_i32_get d k) = some_nonempty (group_refs kvs k)"
    using dense_get_i32 [of d "unique_ref kvs" k] by (simp add: dense_unique_represents_def dense_get_eqs unique_ref_groups)
qed

interpretation dense_i64: join_index "\<lambda>d k. map_option (\<lambda>r. [r]) (dense_i64_get d k)" "dense_unique_represents 64" "\<lambda>k. True"
proof unfold_locales
  fix d kvs k assume "dense_unique_represents 64 d kvs"
  then show "map_option (\<lambda>r. [r]) (dense_i64_get d k) = some_nonempty (group_refs kvs k)"
    using dense_get_i64 [of d "unique_ref kvs" k] by (simp add: dense_unique_represents_def dense_get_eqs unique_ref_groups)
qed

interpretation dense_i32_multi: join_index dense_i32_multi_get dense_multi_represents "\<lambda>k. True"
proof unfold_locales
  fix d kvs k assume "dense_multi_represents d kvs"
  then show "dense_i32_multi_get d k = some_nonempty (group_refs kvs k)"
    unfolding dense_multi_represents_def dense_get_eqs by (rule dense_get_i32)
qed

interpretation dense_i32_pair: join_index "\<lambda>d (l, r). map_option (\<lambda>r. [r]) (dense_i32_pair_get d l r)"
    dense_pair_represents "\<lambda>k. True"
  by unfold_locales (auto simp: dense_pair_represents_def unique_ref_groups)

text \<open>The table made of a hash map represents the rows the map represents.\<close>

lemma distinct_unique_ref:
  assumes "distinct (map fst kvs)"
  shows "unique_groups kvs \<and> map_of kvs = unique_ref kvs"
proof -
  have "group_refs kvs k = (case map_of kvs k of None \<Rightarrow> [] | Some r \<Rightarrow> [r])" for k
    using assms by (induction kvs) (auto simp: map_of_eq_None_iff [THEN iffD2])
  then have "length (group_refs kvs k) \<le> 1 \<and> map_of kvs k = unique_ref kvs k" for k
    by (simp add: unique_ref_def split: option.splits)
  then show ?thesis by (auto simp: unique_groups_def)
qed

lemma unique_maps_ref:
  assumes "maps_represent (Some m, None) kvs"
  shows "distinct (map fst m) \<and> unique_groups kvs \<and> map_of m = unique_ref kvs"
proof -
  have groups: "some_nonempty (group_refs kvs k) = map_option (\<lambda>r. [r]) (map_of m k)" for k
    using assms by (simp add: maps_represent_def maps_get_def)
  have "group_refs kvs k = (case map_of m k of None \<Rightarrow> [] | Some r \<Rightarrow> [r])" for k
    using groups [of k] by (cases "map_of m k") auto
  then have "length (group_refs kvs k) \<le> 1 \<and> map_of m k = unique_ref kvs k" for k
    by (simp add: unique_ref_def split: option.splits)
  with assms show ?thesis by (auto simp: maps_represent_def unique_groups_def)
qed

lemma dense_i32_build_rows_represents:
  assumes "maps_represent (Some m, None) kvs" "dense_i32_build_rows m total_rows = Some (Some d)"
  shows "dense_unique_represents 32 d kvs"
  using unique_maps_ref [OF assms(1)] assms(2) dense_i32_table_correct [of m total_rows d]
  by (simp add: dense_unique_represents_def dense_i32_build_rows_def)

lemma dense_i64_build_rows_represents:
  assumes "maps_represent (Some m, None) kvs" "dense_i64_build_rows m total_rows = Some (Some d)"
  shows "dense_unique_represents 64 d kvs"
  using unique_maps_ref [OF assms(1)] assms(2) dense_i64_build_rows_correct [of m total_rows d]
  by (simp add: dense_unique_represents_def)

lemma dense_i32_multi_build_rows_represents:
  assumes "maps_represent (None, Some m) kvs" "dense_i32_multi_build_rows m total_rows = Some (Some d)"
  shows "dense_multi_represents d kvs"
proof -
  have "distinct (map fst m)" "map_of m = (\<lambda>k. some_nonempty (group_refs kvs k))"
    using assms(1) by (auto simp: maps_represent_def maps_get_def fun_eq_iff)
  with dense_i32_table_correct [of m total_rows d] assms(2) show ?thesis
    by (simp add: dense_multi_represents_def dense_i32_multi_build_rows_def)
qed

lemma dense_i32_pair_build_rows_represents:
  assumes "maps_represent (Some m, None) kvs" "dense_i32_pair_build_rows m total_rows = Some (Some d)"
  shows "dense_pair_represents d kvs"
  using unique_maps_ref [OF assms(1)] assms(2) dense_i32_pair_build_rows_correct [of m total_rows d]
  by (simp add: dense_pair_represents_def)

end
