(* ===== verification/Join_Build.thy ===== *)
theory Join_Build
  imports Join_Index
begin

text \<open>
  The build side of the hash join in \<open>execution/physical.rs\<close>: the Bloom filter, the split of the frequent keys, the
  record of the matched build rows, and \<open>build_hash_join_input\<close>, which reads the build batches once and fills the
  indexes that the types of the key columns and the mode allow.

  Arrow's row format and the hash of its rows are the record \<open>join_engine\<close>: two rows of key columns of the same types
  have equal images exactly when their cells are equal (\<open>row_format_ok\<close>).  The counters of the metrics are left out.
\<close>

subsection \<open>The row format\<close>

record 'row join_engine =
  convert_rows :: "array list \<Rightarrow> dodam_error + 'row list"
  hash_row_with_salt :: "'row \<Rightarrow> u64 \<Rightarrow> u64"
  show_types :: "data_type list \<Rightarrow> string"

definition batch_ok_columns :: "nat \<Rightarrow> array list \<Rightarrow> bool" where
  "batch_ok_columns n arrays \<longleftrightarrow> (\<forall>a \<in> set arrays. array_len a = n)"

definition key_cells :: "array list \<Rightarrow> nat \<Rightarrow> cell option list" where
  "key_cells arrays row = map (\<lambda>a. array_cells a ! row) arrays"

definition row_format_ok :: "'row join_engine \<Rightarrow> (data_type list \<Rightarrow> cell option list \<Rightarrow> 'row) \<Rightarrow> bool" where
  "row_format_ok E row_image \<longleftrightarrow>
     (\<forall>types. inj (row_image types)) \<and>
     (\<forall>arrays n. arrays \<noteq> [] \<longrightarrow> batch_ok_columns n arrays \<longrightarrow>
        convert_rows E arrays = Inr (map (\<lambda>row. row_image (map array_type arrays) (key_cells arrays row)) [0..<n]))"

text \<open>Loops whose body may panic or fail.\<close>

fun fold_outcome :: "('a \<Rightarrow> 's \<Rightarrow> 's outcome) \<Rightarrow> 'a list \<Rightarrow> 's \<Rightarrow> 's outcome" where
  "fold_outcome f [] s = Some (Inr s)"
| "fold_outcome f (x # xs) s = outcome_bind (f x s) (fold_outcome f xs)"

fun map_outcome :: "('a \<Rightarrow> 'b outcome) \<Rightarrow> 'a list \<Rightarrow> 'b list outcome" where
  "map_outcome f [] = Some (Inr [])"
| "map_outcome f (x # xs) =
     outcome_bind (f x) (\<lambda>y. outcome_bind (map_outcome f xs) (\<lambda>ys. Some (Inr (y # ys))))"

definition expect :: "'a option \<Rightarrow> 'a outcome" where
  "expect x = map_option Inr x"

definition unsupported :: "string \<Rightarrow> 'a outcome" where
  "unsupported message = Some (Inl (UnsupportedSql message))"

subsection \<open>Bloom filter\<close>

record bloom_filter =
  bloom_bits :: "u64 list"
  bloom_mask :: u64

text \<open>\<open>next_power_of_two\<close>: the first of the powers \<open>2 ^ 0\<close> to \<open>2 ^ 63\<close> that is large enough, \<open>None\<close> on overflow.\<close>

fun next_power_loop :: "nat \<Rightarrow> nat \<Rightarrow> nat \<Rightarrow> nat option" where
  "next_power_loop 0 p n = None"
| "next_power_loop (Suc fuel) p n = (if n \<le> p then Some p else next_power_loop fuel (2 * p) n)"

definition next_power_of_two :: "nat \<Rightarrow> nat option" where
  "next_power_of_two n = next_power_loop 64 1 n"

definition bloom_new :: "nat \<Rightarrow> bloom_filter option" where
  "bloom_new expected_rows =
     map_option (\<lambda>p. let bits = max p 64 in \<lparr>bloom_bits = replicate (div_ceil bits 64) 0, bloom_mask = of_nat (bits - 1)\<rparr>)
       (next_power_of_two (u64_sat (expected_rows * 16)))"

definition bloom_set :: "u64 \<Rightarrow> bloom_filter \<Rightarrow> bloom_filter option" where
  "bloom_set hash b =
     (let pos = unat (hash AND bloom_mask b); w = pos div 64; offset = pos mod 64
      in if w < length (bloom_bits b)
         then Some (b\<lparr>bloom_bits := (bloom_bits b)[w := bloom_bits b ! w OR push_bit offset 1]\<rparr>)
         else None)"

definition bloom_get :: "u64 \<Rightarrow> bloom_filter \<Rightarrow> bool option" where
  "bloom_get hash b =
     (let pos = unat (hash AND bloom_mask b); w = pos div 64; offset = pos mod 64
      in map_option (\<lambda>bits. bits AND push_bit offset 1 \<noteq> 0) (vec_get (bloom_bits b) w))"

definition bloom_hashes :: "'row join_engine \<Rightarrow> 'row \<Rightarrow> u64 list" where
  "bloom_hashes E row =
     [hash_row_with_salt E row 0x9e3779b97f4a7c15,
      hash_row_with_salt E row 0xc2b2ae3d27d4eb4f,
      hash_row_with_salt E row 0x165667b19e3779f9]"

fun bloom_set_all :: "u64 list \<Rightarrow> bloom_filter \<Rightarrow> bloom_filter option" where
  "bloom_set_all [] b = Some b"
| "bloom_set_all (h # hs) b = Option.bind (bloom_set h b) (bloom_set_all hs)"

fun bloom_get_all :: "u64 list \<Rightarrow> bloom_filter \<Rightarrow> bool option" where
  "bloom_get_all [] b = Some True"
| "bloom_get_all (h # hs) b = Option.bind (bloom_get h b) (\<lambda>found. if found then bloom_get_all hs b else Some False)"

definition bloom_insert :: "'row join_engine \<Rightarrow> 'row \<Rightarrow> bloom_filter \<Rightarrow> bloom_filter option" where
  "bloom_insert E row b = bloom_set_all (bloom_hashes E row) b"

definition might_contain :: "'row join_engine \<Rightarrow> bloom_filter \<Rightarrow> 'row \<Rightarrow> bool option" where
  "might_contain E b row = bloom_get_all (bloom_hashes E row) b"

subsection \<open>Frequent keys and matched rows\<close>

definition heavy_hitter_threshold :: "nat \<Rightarrow> nat" where
  "heavy_hitter_threshold total_rows = max (total_rows div 10) 1024"

definition split_heavy_hitters ::
    "('row, build_row_ref list) hash_map \<Rightarrow> nat \<Rightarrow>
     ('row, build_row_ref list) hash_map \<times> ('row, build_row_ref list) hash_map" where
  "split_heavy_hitters rows total_rows =
     (let threshold = heavy_hitter_threshold total_rows
      in (filter (\<lambda>(key, matches). \<not> length matches \<ge> threshold) rows,
          filter (\<lambda>(key, matches). length matches \<ge> threshold) rows))"

datatype matched_build_tracker = TrackSet "build_row_ref set" | TrackDenseI32 int "bool list" nat

definition mark_ref :: "build_row_ref \<Rightarrow> matched_build_tracker \<Rightarrow> matched_build_tracker" where
  "mark_ref build_ref tracker =
     (case tracker of TrackSet rows \<Rightarrow> TrackSet (insert build_ref rows) | _ \<Rightarrow> tracker)"

definition mark_refs :: "build_row_ref list \<Rightarrow> matched_build_tracker \<Rightarrow> matched_build_tracker" where
  "mark_refs matches tracker =
     (case tracker of TrackSet rows \<Rightarrow> TrackSet (rows \<union> set matches) | _ \<Rightarrow> tracker)"

definition mark_i32_key :: "int \<Rightarrow> matched_build_tracker \<Rightarrow> matched_build_tracker" where
  "mark_i32_key key tracker =
     (case tracker of
        TrackSet rows \<Rightarrow> tracker
      | TrackDenseI32 min0 matched matched_count \<Rightarrow>
          (case i32_checked (key - min0) of
             None \<Rightarrow> tracker
           | Some index \<Rightarrow>
               (case vec_get matched (as_usize index) of
                  Some False \<Rightarrow> TrackDenseI32 min0 (matched[as_usize index := True]) (matched_count + 1)
                | _ \<Rightarrow> tracker)))"

definition is_matched :: "matched_build_tracker \<Rightarrow> build_row_ref \<Rightarrow> bool" where
  "is_matched tracker build_ref = (case tracker of TrackSet rows \<Rightarrow> build_ref \<in> rows | TrackDenseI32 _ _ _ \<Rightarrow> False)"

definition all_dense_i32_matched :: "matched_build_tracker \<Rightarrow> bool" where
  "all_dense_i32_matched tracker =
     (case tracker of TrackDenseI32 min0 matched matched_count \<Rightarrow> matched_count = length matched | TrackSet _ \<Rightarrow> False)"

subsection \<open>Building\<close>

datatype hash_build_mode = BuildFull | BuildFastSingleKey | BuildFastSemi

record 'row hash_join_build =
  jb_batches :: "record_batch list"
  jb_key_types :: "data_type list"
  jb_all_rows :: "build_row_ref list"
  jb_rows :: "('row, build_row_ref list) hash_map"
  jb_heavy_rows :: "('row, build_row_ref list) hash_map"
  jb_i32_rows :: "(int, build_row_ref list) hash_map option"
  jb_i32_dense_rows :: "dense_i32_multi_rows option"
  jb_i32_unique_rows :: "(int, build_row_ref) hash_map option"
  jb_i32_dense_unique_rows :: "dense_i32_rows option"
  jb_i32_key_set :: "int list option"
  jb_i32_dense_key_set :: "dense_i32_keys option"
  jb_i32_pair_rows :: "(int \<times> int, build_row_ref list) hash_map option"
  jb_i32_pair_unique_rows :: "(int \<times> int, build_row_ref) hash_map option"
  jb_i32_pair_dense_unique_rows :: "dense_i32_pair_rows option"
  jb_string_rows :: "(string, build_row_ref list) hash_map option"
  jb_string_unique_rows :: "(string, build_row_ref) hash_map option"
  jb_i64_rows :: "(int, build_row_ref list) hash_map option"
  jb_i64_unique_rows :: "(int, build_row_ref) hash_map option"
  jb_i64_dense_unique_rows :: "dense_i64_rows option"
  jb_bloom :: bloom_filter

definition empty_hash_join_build :: "record_batch list \<Rightarrow> data_type list \<Rightarrow> build_row_ref list \<Rightarrow> bloom_filter \<Rightarrow> 'row hash_join_build" where
  "empty_hash_join_build batches types all_rows bloom =
     \<lparr>jb_batches = batches, jb_key_types = types, jb_all_rows = all_rows, jb_rows = [], jb_heavy_rows = [],
      jb_i32_rows = None, jb_i32_dense_rows = None, jb_i32_unique_rows = None, jb_i32_dense_unique_rows = None,
      jb_i32_key_set = None, jb_i32_dense_key_set = None, jb_i32_pair_rows = None, jb_i32_pair_unique_rows = None,
      jb_i32_pair_dense_unique_rows = None, jb_string_rows = None, jb_string_unique_rows = None, jb_i64_rows = None,
      jb_i64_unique_rows = None, jb_i64_dense_unique_rows = None, jb_bloom = bloom\<rparr>"

definition tracker_for_build :: "'row hash_join_build \<Rightarrow> matched_build_tracker" where
  "tracker_for_build build =
     (case jb_i32_dense_unique_rows build of
        Some rows \<Rightarrow> TrackDenseI32 (dense_min rows) (replicate (dense_len rows) False) 0
      | None \<Rightarrow> TrackSet {})"

definition tracker_empty_set :: matched_build_tracker where
  "tracker_empty_set = TrackSet {}"

text \<open>Key columns: their arrays, their types, and the typed columns behind \<open>downcast_ref\<close>.\<close>

definition key_arrays :: "record_batch \<Rightarrow> string list \<Rightarrow> array list outcome" where
  "key_arrays batch keys =
     (if keys = [] then unsupported ''JOIN requires at least one key column'' else map_outcome (batch_column batch) keys)"

definition key_data_types :: "record_batch \<Rightarrow> string list \<Rightarrow> data_type list outcome" where
  "key_data_types batch keys = outcome_bind (key_arrays batch keys) (\<lambda>arrays. Some (Inr (map array_type arrays)))"

fun downcast_strings :: "array \<Rightarrow> string option list option" where
  "downcast_strings (PlainArray t cs) = (if t = Utf8 then Some (map (map_option the_str) cs) else None)"
| "downcast_strings (DictArray keys dictionary) = None"

fun array_is_null :: "array \<Rightarrow> nat \<Rightarrow> bool" where
  "array_is_null (PlainArray t cs) row \<longleftrightarrow> vec_get cs row = Some None"
| "array_is_null (DictArray keys dictionary) row \<longleftrightarrow> vec_get keys row = Some None"

definition is_null_at :: "'a option list \<Rightarrow> nat \<Rightarrow> bool" where
  "is_null_at column row \<longleftrightarrow> vec_get column row = Some None"

text \<open>\<open>value(row)\<close>, which the code reads on rows that are not null only.\<close>

definition value_at :: "'a option list \<Rightarrow> nat \<Rightarrow> 'a" where
  "value_at column row = the (column ! row)"

text \<open>What one pass over the build batches fills.\<close>

record 'row build_state =
  bs_all_rows :: "build_row_ref list"
  bs_rows :: "('row, build_row_ref list) hash_map"
  bs_i32 :: "(int, build_row_ref) hash_map option \<times> (int, build_row_ref list) hash_map option"
  bs_key_set :: "int list option"
  bs_pair :: "(int \<times> int, build_row_ref) hash_map option \<times> (int \<times> int, build_row_ref list) hash_map option"
  bs_string :: "(string, build_row_ref) hash_map option \<times> (string, build_row_ref list) hash_map option"
  bs_i64 :: "(int, build_row_ref) hash_map option \<times> (int, build_row_ref list) hash_map option"
  bs_bloom :: bloom_filter

definition too_many_build_rows :: "'a outcome" where
  "too_many_build_rows = unsupported ''hash join currently supports up to u32::MAX rows per batch''"

text \<open>The head every row loop shares: the reference of the row, the list of all rows, and the test for null keys.\<close>

definition build_row ::
    "bool \<Rightarrow> (nat \<Rightarrow> bool) \<Rightarrow> (nat \<Rightarrow> build_row_ref \<Rightarrow> 'row build_state \<Rightarrow> 'row build_state outcome) \<Rightarrow>
     nat \<Rightarrow> nat \<Rightarrow> 'row build_state \<Rightarrow> 'row build_state outcome" where
  "build_row collect_all_rows null_key add batch_index row st =
     (if row \<ge> 2 ^ 32 then too_many_build_rows
      else let row_ref = \<lparr>ref_batch = batch_index, ref_row = row\<rparr>;
               st1 = (if collect_all_rows then st\<lparr>bs_all_rows := bs_all_rows st @ [row_ref]\<rparr> else st)
           in if null_key row then Some (Inr st1) else add row row_ref st1)"

text \<open>The loop over one batch, by the kind of build.  An index column is present exactly when its maps are.\<close>

definition maps_started :: "'a option \<times> 'b option \<Rightarrow> bool" where
  "maps_started maps \<longleftrightarrow> fst maps \<noteq> None \<or> snd maps \<noteq> None"

definition i32_only_rows ::
    "bool \<Rightarrow> nat \<Rightarrow> nat \<Rightarrow> int option list \<Rightarrow> 'row build_state \<Rightarrow> 'row build_state outcome" where
  "i32_only_rows collect_all_rows batch_index rows column =
     fold_outcome (build_row collect_all_rows (is_null_at column)
       (\<lambda>row row_ref st. Some (Inr (st\<lparr>bs_i32 := insert_i32_build_ref (value_at column row) row_ref (bs_i32 st)\<rparr>))) batch_index)
       [0..<rows]"

definition i64_only_rows ::
    "bool \<Rightarrow> nat \<Rightarrow> nat \<Rightarrow> int option list \<Rightarrow> 'row build_state \<Rightarrow> 'row build_state outcome" where
  "i64_only_rows collect_all_rows batch_index rows column =
     fold_outcome (build_row collect_all_rows (is_null_at column)
       (\<lambda>row row_ref st. Some (Inr (st\<lparr>bs_i64 := insert_i64_build_ref (value_at column row) row_ref (bs_i64 st)\<rparr>))) batch_index)
       [0..<rows]"

definition i32_key_set_rows :: "nat \<Rightarrow> int option list \<Rightarrow> 'row build_state \<Rightarrow> 'row build_state outcome" where
  "i32_key_set_rows rows column =
     fold_outcome (\<lambda>row st.
       if is_null_at column row then Some (Inr st)
       else outcome_bind (expect (bs_key_set st)) (\<lambda>key_set.
         Some (Inr (st\<lparr>bs_key_set := Some (List.insert (value_at column row) key_set)\<rparr>)))) [0..<rows]"

definition add_pair_and_string ::
    "(int option list \<times> int option list) option \<Rightarrow> string option list option \<Rightarrow> nat \<Rightarrow> build_row_ref \<Rightarrow>
     'row build_state \<Rightarrow> 'row build_state" where
  "add_pair_and_string pair_columns string_column row row_ref st =
     (let st1 = (case pair_columns of
                   None \<Rightarrow> st
                 | Some (left, right) \<Rightarrow>
                     st\<lparr>bs_pair := insert_i32_pair_build_ref (value_at left row, value_at right row) row_ref (bs_pair st)\<rparr>)
      in case string_column of
           None \<Rightarrow> st1
         | Some column \<Rightarrow> st1\<lparr>bs_string := insert_string_build_ref (value_at column row) row_ref (bs_string st1)\<rparr>)"

definition fast_key_rows ::
    "bool \<Rightarrow> nat \<Rightarrow> nat \<Rightarrow> array list \<Rightarrow> (int option list \<times> int option list) option \<Rightarrow> string option list option \<Rightarrow>
     'row build_state \<Rightarrow> 'row build_state outcome" where
  "fast_key_rows collect_all_rows batch_index rows arrays pair_columns string_column =
     fold_outcome (build_row collect_all_rows (\<lambda>row. list_ex (\<lambda>a. array_is_null a row) arrays)
       (\<lambda>row row_ref st. Some (Inr (add_pair_and_string pair_columns string_column row row_ref st))) batch_index) [0..<rows]"

definition push_typed ::
    "int option list option \<Rightarrow> nat \<Rightarrow> build_row_ref \<Rightarrow>
     (int, build_row_ref) hash_map option \<times> (int, build_row_ref list) hash_map option \<Rightarrow>
     (int, build_row_ref) hash_map option \<times> (int, build_row_ref list) hash_map option" where
  "push_typed column row row_ref maps =
     (case (snd maps, column) of
        (Some rows, Some column) \<Rightarrow> (fst maps, Some (hash_map_entry_push (value_at column row) row_ref rows))
      | _ \<Rightarrow> maps)"

definition add_all_keys ::
    "'row join_engine \<Rightarrow> int option list option \<Rightarrow> int option list option \<Rightarrow> (int option list \<times> int option list) option \<Rightarrow>
     string option list option \<Rightarrow> 'row \<Rightarrow> nat \<Rightarrow> build_row_ref \<Rightarrow> 'row build_state \<Rightarrow> 'row build_state outcome" where
  "add_all_keys E i32_column i64_column pair_columns string_column key row row_ref st =
     (let st1 = st\<lparr>bs_i32 := push_typed i32_column row row_ref (bs_i32 st)\<rparr>;
          st2 = st1\<lparr>bs_i64 := push_typed i64_column row row_ref (bs_i64 st1)\<rparr>;
          st3 = add_pair_and_string pair_columns string_column row row_ref st2
      in outcome_bind (expect (bloom_insert E key (bs_bloom st3))) (\<lambda>bloom.
         Some (Inr (st3\<lparr>bs_bloom := bloom, bs_rows := hash_map_entry_push key row_ref (bs_rows st3)\<rparr>))))"

definition all_key_rows ::
    "'row join_engine \<Rightarrow> bool \<Rightarrow> nat \<Rightarrow> array list \<Rightarrow> 'row list \<Rightarrow> int option list option \<Rightarrow> int option list option \<Rightarrow>
     (int option list \<times> int option list) option \<Rightarrow> string option list option \<Rightarrow>
     'row build_state \<Rightarrow> 'row build_state outcome" where
  "all_key_rows E collect_all_rows batch_index arrays key_rows i32_column i64_column pair_columns string_column =
     fold_outcome (\<lambda>(row, key). build_row collect_all_rows (\<lambda>row. list_ex (\<lambda>a. array_is_null a row) arrays)
       (add_all_keys E i32_column i64_column pair_columns string_column key) batch_index row) (enumerate 0 key_rows)"

definition key_type_changed :: "'row join_engine \<Rightarrow> string \<Rightarrow> data_type \<Rightarrow> data_type \<Rightarrow> 'a outcome" where
  "key_type_changed E key actual expected =
     unsupported (''JOIN key types must match across build batches: '' @ key @ '' is '' @ show_types E [actual] @
       '', expected '' @ show_types E [expected])"

text \<open>Each typed column is downcast before the types are compared, so a change of type panics there.\<close>

definition build_batch ::
    "'row join_engine \<Rightarrow> hash_build_mode \<Rightarrow> bool \<Rightarrow> string list \<Rightarrow> data_type list \<Rightarrow> nat \<times> record_batch \<Rightarrow>
     'row build_state \<Rightarrow> 'row build_state outcome" where
  "build_batch E mode collect_all_rows keys types numbered st =
     (let (batch_index, batch) = numbered; rows = batch_rows batch;
          can_build_i32_only = (mode = BuildFastSingleKey \<and> types = [Int32]);
          can_build_i64_only = (mode = BuildFastSingleKey \<and> types = [Int64]);
          can_build_i32_key_set = (mode = BuildFastSemi \<and> types = [Int32]);
          can_build_i32_pair = (types = [Int32, Int32]);
          can_build_string = (types = [Utf8])
      in outcome_bind (key_arrays batch keys) (\<lambda>arrays.
         outcome_bind (if maps_started (bs_i32 st) then outcome_bind (expect (downcast_ints Int32 (arrays ! 0))) (Some \<circ> Inr \<circ> Some)
                       else Some (Inr None)) (\<lambda>i32_column.
         outcome_bind (if maps_started (bs_i64 st) then outcome_bind (expect (downcast_ints Int64 (arrays ! 0))) (Some \<circ> Inr \<circ> Some)
                       else Some (Inr None)) (\<lambda>i64_column.
         outcome_bind (if maps_started (bs_pair st)
                       then outcome_bind (expect (downcast_ints Int32 (arrays ! 0))) (\<lambda>left.
                            outcome_bind (expect (downcast_ints Int32 (arrays ! 1))) (\<lambda>right. Some (Inr (Some (left, right)))))
                       else Some (Inr None)) (\<lambda>pair_columns.
         outcome_bind (if maps_started (bs_string st) then outcome_bind (expect (downcast_strings (arrays ! 0))) (Some \<circ> Inr \<circ> Some)
                       else Some (Inr None)) (\<lambda>string_column.
         outcome_bind (fold_outcome (\<lambda>(key, array, expected) unit.
                         if array_type array \<noteq> expected then key_type_changed E key (array_type array) expected
                         else Some (Inr unit)) (zip keys (zip arrays types)) ()) (\<lambda>_.
           if can_build_i32_only
           then outcome_bind (expect i32_column) (\<lambda>column. i32_only_rows collect_all_rows batch_index rows column st)
           else if can_build_i64_only
           then outcome_bind (expect i64_column) (\<lambda>column. i64_only_rows collect_all_rows batch_index rows column st)
           else if can_build_i32_key_set
           then outcome_bind (expect (downcast_ints Int32 (arrays ! 0))) (\<lambda>column. i32_key_set_rows rows column st)
           else if mode = BuildFastSingleKey \<and> (can_build_i32_pair \<or> can_build_string)
           then fast_key_rows collect_all_rows batch_index rows arrays pair_columns string_column st
           else outcome_bind (Some (convert_rows E arrays)) (\<lambda>key_rows.
                  all_key_rows E collect_all_rows batch_index arrays key_rows i32_column i64_column pair_columns string_column st))))))))"

definition initial_build_state :: "hash_build_mode \<Rightarrow> data_type list \<Rightarrow> bloom_filter \<Rightarrow> 'row build_state" where
  "initial_build_state mode types bloom =
     (let can_build_i32_only = (mode = BuildFastSingleKey \<and> types = [Int32]);
          can_build_i64_only = (mode = BuildFastSingleKey \<and> types = [Int64]);
          can_build_i32_key_set = (mode = BuildFastSemi \<and> types = [Int32])
      in \<lparr>bs_all_rows = [], bs_rows = [],
          bs_i32 = (if can_build_i32_only then Some [] else None,
                    if types = [Int32] \<and> \<not> can_build_i32_key_set \<and> \<not> can_build_i32_only then Some [] else None),
          bs_key_set = (if can_build_i32_key_set then Some [] else None),
          bs_pair = (if types = [Int32, Int32] then Some [] else None, None),
          bs_string = (if types = [Utf8] then Some [] else None, None),
          bs_i64 = (if can_build_i64_only then Some [] else None,
                    if types = [Int64] \<and> \<not> can_build_i64_only then Some [] else None),
          bs_bloom = bloom\<rparr>)"

definition total_build_rows :: "record_batch list \<Rightarrow> nat" where
  "total_build_rows batches = sum_list (map batch_rows batches)"

definition and_then_dense :: "('m \<Rightarrow> nat \<Rightarrow> 'd option option) \<Rightarrow> 'm option \<Rightarrow> nat \<Rightarrow> 'd option outcome" where
  "and_then_dense densify m total_rows =
     (case m of None \<Rightarrow> Some (Inr None) | Some rows \<Rightarrow> map_option Inr (densify rows total_rows))"

definition finish_hash_join_build ::
    "record_batch list \<Rightarrow> data_type list \<Rightarrow> 'row build_state \<Rightarrow> 'row hash_join_build outcome" where
  "finish_hash_join_build batches types st =
     (let total_rows = total_build_rows batches
      in outcome_bind (and_then_dense dense_i32_build_rows (fst (bs_i32 st)) total_rows) (\<lambda>i32_dense_unique_rows.
         outcome_bind (and_then_dense dense_i32_multi_build_rows (snd (bs_i32 st)) total_rows) (\<lambda>i32_dense_rows.
         outcome_bind (and_then_dense dense_i32_key_set (bs_key_set st) total_rows) (\<lambda>i32_dense_key_set.
         outcome_bind (and_then_dense dense_i32_pair_build_rows (fst (bs_pair st)) total_rows) (\<lambda>i32_pair_dense_unique_rows.
         outcome_bind (and_then_dense dense_i64_build_rows (fst (bs_i64 st)) total_rows) (\<lambda>i64_dense_unique_rows.
         let (rows, heavy_rows) = split_heavy_hitters (bs_rows st) total_rows
         in Some (Inr
              \<lparr>jb_batches = batches, jb_key_types = types, jb_all_rows = bs_all_rows st, jb_rows = rows, jb_heavy_rows = heavy_rows,
               jb_i32_rows = snd (bs_i32 st), jb_i32_dense_rows = i32_dense_rows, jb_i32_unique_rows = fst (bs_i32 st),
               jb_i32_dense_unique_rows = i32_dense_unique_rows, jb_i32_key_set = bs_key_set st,
               jb_i32_dense_key_set = i32_dense_key_set, jb_i32_pair_rows = snd (bs_pair st),
               jb_i32_pair_unique_rows = fst (bs_pair st), jb_i32_pair_dense_unique_rows = i32_pair_dense_unique_rows,
               jb_string_rows = snd (bs_string st), jb_string_unique_rows = fst (bs_string st), jb_i64_rows = snd (bs_i64 st),
               jb_i64_unique_rows = fst (bs_i64 st), jb_i64_dense_unique_rows = i64_dense_unique_rows,
               jb_bloom = bs_bloom st\<rparr>)))))))"

text \<open>The single key and the pair of keys of type \<open>Int32\<close> have a builder of their own, which fills the dense table
  without a hash map.  It is \<open>None\<close> when the keys are too far apart, when there are none, or, for pairs, when a pair
  comes twice.\<close>

definition scan_i32_row ::
    "bool \<Rightarrow> int option list \<Rightarrow> nat \<Rightarrow> nat \<Rightarrow> int \<times> int \<times> nat \<times> build_row_ref list \<Rightarrow>
     (int \<times> int \<times> nat \<times> build_row_ref list) outcome" where
  "scan_i32_row collect_all_rows column batch_index row st =
     (if row \<ge> 2 ^ 32 then too_many_build_rows
      else let (min_key, max_key, non_null_rows, all_rows) = st;
               all_rows1 = (if collect_all_rows then all_rows @ [\<lparr>ref_batch = batch_index, ref_row = row\<rparr>] else all_rows)
           in Some (Inr (if is_null_at column row then (min_key, max_key, non_null_rows, all_rows1)
                         else (min min_key (value_at column row), max max_key (value_at column row), non_null_rows + 1, all_rows1))))"

fun scan_i32_keys ::
    "bool \<Rightarrow> string \<Rightarrow> (nat \<times> record_batch) list \<Rightarrow> int \<times> int \<times> nat \<times> build_row_ref list \<Rightarrow>
     (int \<times> int \<times> nat \<times> build_row_ref list) option outcome" where
  "scan_i32_keys collect_all_rows key [] st = Some (Inr (Some st))"
| "scan_i32_keys collect_all_rows key ((batch_index, batch) # rest) st =
     outcome_bind (batch_column batch key) (\<lambda>array.
       if array_type array \<noteq> Int32 then Some (Inr None)
       else outcome_bind (expect (downcast_ints Int32 array)) (\<lambda>column.
            outcome_bind (fold_outcome (scan_i32_row collect_all_rows column batch_index) [0..<batch_rows batch] st)
              (scan_i32_keys collect_all_rows key rest)))"

definition push_dense_row ::
    "int \<Rightarrow> int option list \<Rightarrow> nat \<Rightarrow> nat \<Rightarrow> build_row_ref list option list \<times> bool \<Rightarrow>
     (build_row_ref list option list \<times> bool) outcome" where
  "push_dense_row min_key column batch_index row st =
     (if is_null_at column row then Some (Inr st)
      else case i32_offset min_key (value_at column row) of
             Some (Some dense_index) \<Rightarrow>
               if row \<ge> 2 ^ 32 then too_many_build_rows
               else let (dense, has_duplicates) = st
                    in outcome_bind (expect (vec_get dense dense_index)) (\<lambda>slot.
                       let row_refs = (case slot of None \<Rightarrow> [] | Some refs \<Rightarrow> refs)
                       in Some (Inr (dense[dense_index := Some (row_refs @ [\<lparr>ref_batch = batch_index, ref_row = row\<rparr>])],
                                     has_duplicates \<or> row_refs \<noteq> [])))
           | _ \<Rightarrow> None)"

definition push_dense_batch ::
    "string \<Rightarrow> int \<Rightarrow> nat \<times> record_batch \<Rightarrow> build_row_ref list option list \<times> bool \<Rightarrow>
     (build_row_ref list option list \<times> bool) outcome" where
  "push_dense_batch key min_key numbered st =
     (let (batch_index, batch) = numbered
      in outcome_bind (batch_column batch key) (\<lambda>array.
         outcome_bind (expect (downcast_ints Int32 array)) (\<lambda>column.
           fold_outcome (push_dense_row min_key column batch_index) [0..<batch_rows batch] st)))"

definition pop_ref :: "build_row_ref list option \<Rightarrow> build_row_ref option" where
  "pop_ref slot = Option.bind slot (\<lambda>refs. if refs = [] then None else Some (last refs))"

definition finish_dense_i32 ::
    "int \<Rightarrow> nat \<Rightarrow> nat \<Rightarrow> build_row_ref list option list \<times> bool \<Rightarrow>
     (dense_i32_rows option \<times> dense_i32_multi_rows option) option" where
  "finish_dense_i32 min_key width non_null_rows st =
     (let (dense, has_duplicates) = st
      in if has_duplicates
         then (if width = length (filter (\<lambda>slot. slot \<noteq> None) dense)
               then map_option (\<lambda>rows. (None, Some (DenseComplete min_key rows))) (those dense)
               else Some (None, Some (DenseSparse min_key dense)))
         else (if width = non_null_rows
               then map_option (\<lambda>rows. (Some (DenseComplete min_key rows), None)) (those (map pop_ref dense))
               else Some (Some (DenseSparse min_key (map pop_ref dense)), None)))"

definition try_build_dense_i32_hash_join_input ::
    "record_batch list \<Rightarrow> string list \<Rightarrow> bool \<Rightarrow> 'row hash_join_build option outcome" where
  "try_build_dense_i32_hash_join_input batches keys collect_all_rows =
     (case keys of
        [key] \<Rightarrow>
          outcome_bind (scan_i32_keys collect_all_rows key (enumerate 0 batches) (2 ^ 31 - 1, - (2 ^ 31), 0, [])) (\<lambda>scanned.
            case scanned of
              None \<Rightarrow> Some (Inr None)
            | Some (min_key, max_key, non_null_rows, all_rows) \<Rightarrow>
                let total_rows = total_build_rows batches; width = nat (max_key - min_key + 1)
                in if non_null_rows = 0 \<or> width > dense_width_limit total_rows then Some (Inr None)
                   else outcome_bind
                          (fold_outcome (push_dense_batch key min_key) (enumerate 0 batches) (replicate width None, False)) (\<lambda>filled.
                        outcome_bind (expect (finish_dense_i32 min_key width non_null_rows filled)) (\<lambda>(unique_rows, multi_rows).
                        outcome_bind (expect (bloom_new (max total_rows 1))) (\<lambda>bloom.
                          Some (Inr (Some ((empty_hash_join_build batches [Int32] all_rows bloom)
                            \<lparr>jb_i32_dense_unique_rows := unique_rows, jb_i32_dense_rows := multi_rows\<rparr>)))))))
      | _ \<Rightarrow> Some (Inr None))"

text \<open>Pairs.\<close>

type_synonym pair_scan = "int \<times> int \<times> int \<times> int \<times> nat \<times> build_row_ref list"

definition scan_pair_row ::
    "bool \<Rightarrow> int option list \<Rightarrow> int option list \<Rightarrow> nat \<Rightarrow> nat \<Rightarrow> pair_scan \<Rightarrow> pair_scan outcome" where
  "scan_pair_row collect_all_rows left_column right_column batch_index row st =
     (if row \<ge> 2 ^ 32 then too_many_build_rows
      else let (min_left, max_left, min_right, max_right, non_null_rows, all_rows) = st;
               all_rows1 = (if collect_all_rows then all_rows @ [\<lparr>ref_batch = batch_index, ref_row = row\<rparr>] else all_rows);
               left = value_at left_column row; right = value_at right_column row
           in Some (Inr (if is_null_at left_column row \<or> is_null_at right_column row
                         then (min_left, max_left, min_right, max_right, non_null_rows, all_rows1)
                         else (min min_left left, max max_left left, min min_right right, max max_right right,
                               non_null_rows + 1, all_rows1))))"

fun scan_pair_keys ::
    "bool \<Rightarrow> string \<Rightarrow> string \<Rightarrow> (nat \<times> record_batch) list \<Rightarrow> pair_scan \<Rightarrow> pair_scan option outcome" where
  "scan_pair_keys collect_all_rows left_key right_key [] st = Some (Inr (Some st))"
| "scan_pair_keys collect_all_rows left_key right_key ((batch_index, batch) # rest) st =
     outcome_bind (Some (column_index (field_names batch) left_key)) (\<lambda>left_index.
     outcome_bind (Some (column_index (field_names batch) right_key)) (\<lambda>right_index.
     outcome_bind (expect (vec_get (batch_columns batch) left_index)) (\<lambda>left_array.
     outcome_bind (expect (vec_get (batch_columns batch) right_index)) (\<lambda>right_array.
       if array_type left_array \<noteq> Int32 \<or> array_type right_array \<noteq> Int32 then Some (Inr None)
       else outcome_bind (expect (downcast_ints Int32 left_array)) (\<lambda>left_column.
            outcome_bind (expect (downcast_ints Int32 right_array)) (\<lambda>right_column.
            outcome_bind (fold_outcome (scan_pair_row collect_all_rows left_column right_column batch_index)
                            [0..<batch_rows batch] st)
              (scan_pair_keys collect_all_rows left_key right_key rest)))))))"

text \<open>The second pass stops with \<open>None\<close> at a pair without an index and at a slot that is taken.\<close>

fun push_pair_rows ::
    "(nat \<Rightarrow> nat option option) \<Rightarrow> nat \<Rightarrow> nat list \<Rightarrow> build_row_ref option list \<Rightarrow> build_row_ref option list option outcome" where
  "push_pair_rows index batch_index [] dense = Some (Inr (Some dense))"
| "push_pair_rows index batch_index (row # rest) dense =
     (case index row of
        None \<Rightarrow> push_pair_rows index batch_index rest dense
      | Some None \<Rightarrow> Some (Inr None)
      | Some (Some i) \<Rightarrow>
          outcome_bind (expect (vec_get dense i)) (\<lambda>slot.
            if slot \<noteq> None then Some (Inr None)
            else if row \<ge> 2 ^ 32 then too_many_build_rows
            else push_pair_rows index batch_index rest (dense[i := Some \<lparr>ref_batch = batch_index, ref_row = row\<rparr>])))"

definition pair_row_index ::
    "int option list \<Rightarrow> int option list \<Rightarrow> int \<Rightarrow> int \<Rightarrow> nat \<Rightarrow> nat \<Rightarrow> nat option option" where
  "pair_row_index left_column right_column min_left min_right right_width row =
     (if is_null_at left_column row \<or> is_null_at right_column row then None
      else Some (dense_i32_pair_index (value_at left_column row) (value_at right_column row) min_left min_right right_width))"

fun push_pair_batches ::
    "string \<Rightarrow> string \<Rightarrow> int \<Rightarrow> int \<Rightarrow> nat \<Rightarrow> (nat \<times> record_batch) list \<Rightarrow> build_row_ref option list \<Rightarrow>
     build_row_ref option list option outcome" where
  "push_pair_batches left_key right_key min_left min_right right_width [] dense = Some (Inr (Some dense))"
| "push_pair_batches left_key right_key min_left min_right right_width ((batch_index, batch) # rest) dense =
     outcome_bind (batch_column batch left_key) (\<lambda>left_array.
     outcome_bind (expect (downcast_ints Int32 left_array)) (\<lambda>left_column.
     outcome_bind (batch_column batch right_key) (\<lambda>right_array.
     outcome_bind (expect (downcast_ints Int32 right_array)) (\<lambda>right_column.
     outcome_bind (push_pair_rows (pair_row_index left_column right_column min_left min_right right_width) batch_index
                     [0..<batch_rows batch] dense) (\<lambda>pushed.
       case pushed of
         None \<Rightarrow> Some (Inr None)
       | Some dense1 \<Rightarrow> push_pair_batches left_key right_key min_left min_right right_width rest dense1)))))"

definition try_build_dense_i32_pair_hash_join_input ::
    "record_batch list \<Rightarrow> string list \<Rightarrow> bool \<Rightarrow> 'row hash_join_build option outcome" where
  "try_build_dense_i32_pair_hash_join_input batches keys collect_all_rows =
     (case keys of
        [left_key, right_key] \<Rightarrow>
          outcome_bind (scan_pair_keys collect_all_rows left_key right_key (enumerate 0 batches)
            (2 ^ 31 - 1, - (2 ^ 31), 2 ^ 31 - 1, - (2 ^ 31), 0, [])) (\<lambda>scanned.
            case scanned of
              None \<Rightarrow> Some (Inr None)
            | Some (min_left, max_left, min_right, max_right, non_null_rows, all_rows) \<Rightarrow>
                if non_null_rows = 0 then Some (Inr None)
                else let total_rows = total_build_rows batches;
                         left_width = nat (max_left - min_left + 1); right_width = nat (max_right - min_right + 1)
                     in case usize_checked (left_width * right_width) of
                          None \<Rightarrow> Some (Inr None)
                        | Some width \<Rightarrow>
                            if width > dense_width_limit total_rows then Some (Inr None)
                            else outcome_bind
                                   (push_pair_batches left_key right_key min_left min_right right_width (enumerate 0 batches)
                                      (replicate width None)) (\<lambda>pushed.
                                 outcome_bind (expect (finish_dense_pair min_left min_right right_width (width = non_null_rows) pushed)) (\<lambda>table.
                                   case table of
                                     None \<Rightarrow> Some (Inr None)
                                   | Some rows \<Rightarrow>
                                       outcome_bind (expect (bloom_new (max total_rows 1))) (\<lambda>bloom.
                                         Some (Inr (Some ((empty_hash_join_build batches [Int32, Int32] all_rows bloom)
                                           \<lparr>jb_i32_pair_dense_unique_rows := Some rows\<rparr>)))))))
      | _ \<Rightarrow> Some (Inr None))"

definition build_hash_join_input ::
    "'row join_engine \<Rightarrow> record_batch list \<Rightarrow> string list \<Rightarrow> hash_build_mode \<Rightarrow> bool \<Rightarrow> 'row hash_join_build outcome" where
  "build_hash_join_input E batches keys mode collect_all_rows =
     outcome_bind (outcome_bind (expect (vec_get batches 0)) (\<lambda>batch. key_data_types batch keys)) (\<lambda>types.
     outcome_bind (if mode = BuildFastSingleKey \<and> types = [Int32]
                   then try_build_dense_i32_hash_join_input batches keys collect_all_rows else Some (Inr None)) (\<lambda>dense.
     case dense of
       Some build \<Rightarrow> Some (Inr build)
     | None \<Rightarrow>
     outcome_bind (if mode = BuildFastSingleKey \<and> types = [Int32, Int32]
                   then try_build_dense_i32_pair_hash_join_input batches keys collect_all_rows else Some (Inr None)) (\<lambda>dense_pair.
     case dense_pair of
       Some build \<Rightarrow> Some (Inr build)
     | None \<Rightarrow>
         outcome_bind (expect (bloom_new (max (total_build_rows batches) 1))) (\<lambda>bloom.
         outcome_bind (fold_outcome (build_batch E mode collect_all_rows keys types) (enumerate 0 batches)
                         (initial_build_state mode types bloom)) (finish_hash_join_build batches types)))))"

subsection \<open>The Bloom filter has no false negatives\<close>

text \<open>Every hash addresses a bit of the filter.\<close>

definition bloom_ok :: "bloom_filter \<Rightarrow> bool" where
  "bloom_ok b \<longleftrightarrow> unat (bloom_mask b) < 64 * length (bloom_bits b)"

definition bloom_has :: "bloom_filter \<Rightarrow> u64 \<Rightarrow> bool" where
  "bloom_has b hash \<longleftrightarrow>
     (let pos = unat (hash AND bloom_mask b) in bit (bloom_bits b ! (pos div 64)) (pos mod 64))"

lemma next_power_loop_Some: "next_power_loop fuel p n = Some q \<Longrightarrow> \<exists>k. q = p * 2 ^ k \<and> n \<le> q \<and> k < fuel"
proof (induction fuel p n rule: next_power_loop.induct)
  case (2 fuel p n)
  show ?case
  proof (cases "n \<le> p")
    case True
    with "2.prems" show ?thesis by (auto intro: exI [of _ 0])
  next
    case False
    with 2 obtain k where "q = 2 * p * 2 ^ k" "n \<le> q" "k < fuel" by auto
    then show ?thesis by (intro exI [of _ "Suc k"]) auto
  qed
qed simp

lemma next_power_loop_total: "n \<le> p * 2 ^ k \<Longrightarrow> k < fuel \<Longrightarrow> next_power_loop fuel p n \<noteq> None"
proof (induction fuel arbitrary: p k)
  case (Suc fuel)
  then show ?case by (cases k) (auto simp: mult.assoc mult.left_commute)
qed simp

lemma unat_of_nat_small: "m < 2 ^ 64 \<Longrightarrow> unat (of_nat m :: u64) = m"
  by (simp add: unsigned_of_nat take_bit_nat_eq_self)

lemma bloom_new_ok:
  assumes "bloom_new expected_rows = Some b"
  shows "bloom_ok b"
proof -
  from assms obtain p where p: "next_power_loop 64 1 (u64_sat (expected_rows * 16)) = Some p"
    and b: "b = (let bits = max p 64 in \<lparr>bloom_bits = replicate (div_ceil bits 64) 0, bloom_mask = of_nat (bits - 1)\<rparr>)"
    by (auto simp: bloom_new_def next_power_of_two_def)
  from next_power_loop_Some [OF p] obtain k where k: "p = 2 ^ k" "k < 64" by auto
  have "(2::nat) ^ k \<le> 2 ^ 63" using k(2) by (intro power_increasing) auto
  then have "max p 64 - 1 < 2 ^ 64" using k(1) by simp
  then have "unat (of_nat (max p 64 - 1) :: u64) = max p 64 - 1" by (rule unat_of_nat_small)
  moreover have "max p 64 - 1 < 64 * div_ceil (max p 64) 64" by (simp add: div_ceil_def) 
  ultimately show ?thesis by (simp add: b bloom_ok_def Let_def)
qed

lemma bloom_new_total: "expected_rows < 2 ^ 59 \<Longrightarrow> \<exists>b. bloom_new expected_rows = Some b"
  using next_power_loop_total [of "u64_sat (expected_rows * 16)" 1 63 64]
  by (auto simp: bloom_new_def next_power_of_two_def u64_sat_def)

lemma bloom_position: "bloom_ok b \<Longrightarrow> unat (hash AND bloom_mask b) div 64 < length (bloom_bits b)"
proof -
  assume "bloom_ok b"
  moreover have "unat (hash AND bloom_mask b) \<le> unat (bloom_mask b)"
    by (metis word_and_le1 word_le_nat_alt)
  ultimately show ?thesis unfolding bloom_ok_def by (simp add: less_mult_imp_div_less mult.commute)
qed

lemma bloom_get_has: "bloom_ok b \<Longrightarrow> bloom_get hash b = Some (bloom_has b hash)"
  by (simp add: bloom_get_def bloom_has_def Let_def vec_get_def bloom_position bit_iff_and_push_bit_not_eq_0)

lemma bloom_set_has:
  assumes "bloom_ok b"
  shows "\<exists>b'. bloom_set hash b = Some b' \<and> bloom_ok b' \<and> bloom_has b' hash \<and> (\<forall>h. bloom_has b h \<longrightarrow> bloom_has b' h)"
proof -
  let ?pos = "unat (hash AND bloom_mask b)"
  let ?b' = "b\<lparr>bloom_bits := (bloom_bits b)[?pos div 64 := bloom_bits b ! (?pos div 64) OR push_bit (?pos mod 64) 1]\<rparr>"
  have "bloom_set hash b = Some ?b'" using bloom_position [OF assms] by (simp add: bloom_set_def Let_def)
  moreover have "bloom_ok ?b'" using assms by (simp add: bloom_ok_def)
  moreover have "bloom_has ?b' hash"
    using bloom_position [OF assms] by (simp add: bloom_has_def Let_def bit_simps)
  moreover have "bloom_has ?b' h" if "bloom_has b h" for h
    using that bloom_position [OF assms] by (auto simp: bloom_has_def Let_def bit_simps nth_list_update)
  ultimately show ?thesis by blast
qed

lemma bloom_set_all_has:
  assumes "bloom_ok b"
  shows "\<exists>b'. bloom_set_all hs b = Some b' \<and> bloom_ok b' \<and> (\<forall>h \<in> set hs. bloom_has b' h) \<and> (\<forall>h. bloom_has b h \<longrightarrow> bloom_has b' h)"
  using assms
proof (induction hs arbitrary: b)
  case (Cons h hs)
  from bloom_set_has [OF Cons.prems, of h] obtain b1 where b1: "bloom_set h b = Some b1" "bloom_ok b1" "bloom_has b1 h"
    "\<forall>h. bloom_has b h \<longrightarrow> bloom_has b1 h" by blast
  from Cons.IH [OF b1(2)] b1 show ?case by auto
qed simp

lemma bloom_get_all_has: "bloom_ok b \<Longrightarrow> bloom_get_all hs b = Some (\<forall>h \<in> set hs. bloom_has b h)"
  by (induction hs) (auto simp: bloom_get_has)

text \<open>A filter of a set of rows says maybe to each of them.\<close>

definition bloom_covers :: "'row join_engine \<Rightarrow> bloom_filter \<Rightarrow> 'row set \<Rightarrow> bool" where
  "bloom_covers E b rows \<longleftrightarrow> bloom_ok b \<and> (\<forall>row \<in> rows. \<forall>h \<in> set (bloom_hashes E row). bloom_has b h)"

lemma bloom_insert_covers:
  assumes "bloom_covers E b rows"
  shows "\<exists>b'. bloom_insert E row b = Some b' \<and> bloom_covers E b' (insert row rows)"
  using assms bloom_set_all_has [of b "bloom_hashes E row"] by (auto simp: bloom_insert_def bloom_covers_def)

lemma might_contain_covers: "bloom_covers E b rows \<Longrightarrow> row \<in> rows \<Longrightarrow> might_contain E b row = Some True"
  by (simp add: might_contain_def bloom_covers_def bloom_get_all_has)

lemma might_contain_total: "bloom_covers E b rows \<Longrightarrow> \<exists>found. might_contain E b row = Some found"
  by (simp add: might_contain_def bloom_covers_def bloom_get_all_has)

lemma bloom_new_covers: "bloom_new n = Some b \<Longrightarrow> bloom_covers E b {}"
  by (simp add: bloom_covers_def bloom_new_ok)

subsection \<open>What the build side represents\<close>

text \<open>The key of a row: none when a key column is null there, and otherwise the cells of the key columns.\<close>

definition arrays_key :: "array list \<Rightarrow> nat \<Rightarrow> cell option list option" where
  "arrays_key arrays row = (if list_ex (\<lambda>a. array_is_null a row) arrays then None else Some (key_cells arrays row))"

definition row_key :: "string list \<Rightarrow> record_batch \<Rightarrow> nat \<Rightarrow> cell option list option" where
  "row_key keys batch row =
     (case key_arrays batch keys of Some (Inr arrays) \<Rightarrow> arrays_key arrays row | _ \<Rightarrow> None)"

definition batch_refs :: "nat \<times> record_batch \<Rightarrow> build_row_ref list" where
  "batch_refs numbered = map (\<lambda>row. \<lparr>ref_batch = fst numbered, ref_row = row\<rparr>) [0..<batch_rows (snd numbered)]"

definition all_refs :: "record_batch list \<Rightarrow> build_row_ref list" where
  "all_refs batches = concat (map batch_refs (enumerate 0 batches))"

definition keyed_batch :: "string list \<Rightarrow> nat \<times> record_batch \<Rightarrow> (cell option list \<times> build_row_ref) list" where
  "keyed_batch keys numbered =
     List.map_filter (\<lambda>r. map_option (\<lambda>k. (k, r)) (row_key keys (snd numbered) (ref_row r))) (batch_refs numbered)"

definition keyed_rows :: "string list \<Rightarrow> record_batch list \<Rightarrow> (cell option list \<times> build_row_ref) list" where
  "keyed_rows keys batches = concat (map (keyed_batch keys) (enumerate 0 batches))"

text \<open>A batch whose key columns have given types.\<close>

definition key_batch_ok :: "string list \<Rightarrow> data_type list \<Rightarrow> record_batch \<Rightarrow> bool" where
  "key_batch_ok keys types batch \<longleftrightarrow> batch_ok batch \<and> batch_rows batch \<le> 2 ^ 32 \<and> keys \<noteq> [] \<and>
     (\<exists>arrays. key_arrays batch keys = Some (Inr arrays) \<and> map array_type arrays = types)"

text \<open>Typed keys behind their cells.\<close>

fun int_key :: "cell option list \<Rightarrow> int" where
  "int_key [Some (CellInt i)] = i"
| "int_key _ = 0"

fun pair_key :: "cell option list \<Rightarrow> int \<times> int" where
  "pair_key [Some (CellInt i), Some (CellInt j)] = (i, j)"
| "pair_key _ = (0, 0)"

fun string_key :: "cell option list \<Rightarrow> string" where
  "string_key [Some (CellStr s)] = s"
| "string_key _ = []"

definition retype :: "('k \<Rightarrow> 'l) \<Rightarrow> ('k \<times> 'r) list \<Rightarrow> ('l \<times> 'r) list" where
  "retype f kvs = map (\<lambda>(k, r). (f k, r)) kvs"

lemma retype_simps [simp]: "retype f [] = []" "retype f (kvs @ kvs') = retype f kvs @ retype f kvs'"
  "retype f ((k, r) # kvs) = (f k, r) # retype f kvs"
  by (simp_all add: retype_def)

lemma group_refs_retype:
  "inj_on f (insert k (fst ` set kvs)) \<Longrightarrow> group_refs (retype f kvs) (f k) = group_refs kvs k"
  by (induction kvs) (auto simp: inj_on_def)

text \<open>The state of the build after the rows \<open>kvs\<close>, for every mode and every choice of key types.\<close>

definition generic_build :: "hash_build_mode \<Rightarrow> data_type list \<Rightarrow> bool" where
  "generic_build mode types \<longleftrightarrow>
     \<not> (mode = BuildFastSingleKey \<and> types \<in> {[Int32], [Int64], [Int32, Int32], [Utf8]}) \<and>
     \<not> (mode = BuildFastSemi \<and> types = [Int32])"

definition maps_state ::
    "bool \<Rightarrow> (cell option list \<Rightarrow> 'k) \<Rightarrow> (cell option list \<times> build_row_ref) list \<Rightarrow>
     ('k, build_row_ref) hash_map option \<times> ('k, build_row_ref list) hash_map option \<Rightarrow> bool" where
  "maps_state started f kvs maps \<longleftrightarrow> (if started then maps_represent maps (retype f kvs) else maps = (None, None))"

definition state_rep ::
    "'row join_engine \<Rightarrow> (data_type list \<Rightarrow> cell option list \<Rightarrow> 'row) \<Rightarrow> hash_build_mode \<Rightarrow> data_type list \<Rightarrow>
     (cell option list \<times> build_row_ref) list \<Rightarrow> 'row build_state \<Rightarrow> bool" where
  "state_rep E img mode types kvs st \<longleftrightarrow>
     maps_state (types = [Int32] \<and> mode \<noteq> BuildFastSemi) int_key kvs (bs_i32 st) \<and>
     maps_state (types = [Int64]) int_key kvs (bs_i64 st) \<and>
     maps_state (types = [Int32, Int32]) pair_key kvs (bs_pair st) \<and>
     maps_state (types = [Utf8]) string_key kvs (bs_string st) \<and>
     (if mode = BuildFastSemi \<and> types = [Int32]
      then \<exists>ks. bs_key_set st = Some ks \<and> distinct ks \<and> set ks = fst ` set (retype int_key kvs)
      else bs_key_set st = None) \<and>
     bloom_covers E (bs_bloom st) (if generic_build mode types then fst ` set (retype (img types) kvs) else {}) \<and>
     (if generic_build mode types
      then maps_represent (None, Some (bs_rows st)) (retype (img types) kvs) \<and> fst (bs_i32 st) = None \<and> fst (bs_i64 st) = None
      else bs_rows st = [])"

lemma initial_state_rep: "bloom_new n = Some bloom \<Longrightarrow> state_rep E img mode types [] (initial_build_state mode types bloom)"
  by (cases mode) (auto simp: state_rep_def initial_build_state_def Let_def maps_state_def maps_represent_def maps_get_def
      bloom_new_covers generic_build_def)

lemma state_rep_all_rows: "state_rep E img mode types kvs (st\<lparr>bs_all_rows := rows\<rparr>) \<longleftrightarrow> state_rep E img mode types kvs st"
  by (simp add: state_rep_def)

lemma fold_outcome_append: "fold_outcome f (xs @ ys) s = outcome_bind (fold_outcome f xs s) (fold_outcome f ys)"
proof (induction xs arbitrary: s)
  case (Cons x xs)
  show ?case
  proof (cases "f x s")
    case (Some r)
    with Cons show ?thesis by (cases r) auto
  qed simp
qed simp

lemma outcome_bind_done [simp]: "outcome_bind r (fold_outcome f []) = r"
  by (cases r; cases "the r") auto

lemma fold_outcome_map: "fold_outcome f (map g xs) s = fold_outcome (\<lambda>x. f (g x)) xs s"
  by (induction xs arbitrary: s) (auto simp: outcome_bind_def split: option.splits sum.splits)

lemma fold_outcome_cong:
  "(\<And>x s. x \<in> set xs \<Longrightarrow> f x s = g x s) \<Longrightarrow> fold_outcome f xs s = fold_outcome g xs s"
  by (induction xs arbitrary: s) (auto simp: outcome_bind_def split: option.splits sum.splits)

lemma map_filter_append: "List.map_filter f (xs @ ys) = List.map_filter f xs @ List.map_filter f ys"
  by (simp add: List.map_filter_def)

abbreviation (input) row_ref :: "nat \<Rightarrow> nat \<Rightarrow> build_row_ref" where
  "row_ref batch row \<equiv> \<lparr>ref_batch = batch, ref_row = row\<rparr>"

text \<open>Every row loop of the build appends the keyed rows of its batch.\<close>

lemma build_rows_loop:
  fixes add :: "nat \<Rightarrow> build_row_ref \<Rightarrow> 'row build_state \<Rightarrow> 'row build_state outcome"
  assumes "n \<le> 2 ^ 32" "state_rep E img mode types kvs st"
    and null: "\<And>row. row < n \<Longrightarrow> null row \<longleftrightarrow> key row = None"
    and add: "\<And>row k st kvs. row < n \<Longrightarrow> key row = Some k \<Longrightarrow> state_rep E img mode types kvs st \<Longrightarrow>
      \<exists>st'. add row (row_ref bi row) st = Some (Inr st') \<and> state_rep E img mode types (kvs @ [(k, row_ref bi row)]) st' \<and>
        bs_all_rows st' = bs_all_rows st"
  shows "\<exists>st'. fold_outcome (build_row collect null add bi) [0..<n] st = Some (Inr st') \<and>
     state_rep E img mode types (kvs @ List.map_filter (\<lambda>r. map_option (\<lambda>k. (k, r)) (key (ref_row r))) (map (row_ref bi) [0..<n])) st' \<and>
     bs_all_rows st' = bs_all_rows st @ (if collect then map (row_ref bi) [0..<n] else [])"
  using assms
proof (induction n)
  case (Suc n)
  then obtain st1 where st1: "fold_outcome (build_row collect null add bi) [0..<n] st = Some (Inr st1)"
    "state_rep E img mode types (kvs @ List.map_filter (\<lambda>r. map_option (\<lambda>k. (k, r)) (key (ref_row r))) (map (row_ref bi) [0..<n])) st1"
    "bs_all_rows st1 = bs_all_rows st @ (if collect then map (row_ref bi) [0..<n] else [])" by force
  define st2 where "st2 = (if collect then st1\<lparr>bs_all_rows := bs_all_rows st1 @ [row_ref bi n]\<rparr> else st1)"
  have rep2: "state_rep E img mode types (kvs @ List.map_filter (\<lambda>r. map_option (\<lambda>k. (k, r)) (key (ref_row r))) (map (row_ref bi) [0..<n])) st2"
    using st1(2) by (simp add: st2_def state_rep_all_rows)
  have all2: "bs_all_rows st2 = bs_all_rows st @ (if collect then map (row_ref bi) [0..<Suc n] else [])"
    using st1(3) by (simp add: st2_def)
  have step: "build_row collect null add bi n st1 = (if null n then Some (Inr st2) else add n (row_ref bi n) st2)"
    using Suc.prems(1) by (simp add: build_row_def st2_def Let_def)
  show ?case
  proof (cases "key n")
    case None
    with Suc.prems(3) [of n] step st1(1) rep2 all2 show ?thesis
      by (simp add: fold_outcome_append map_filter_append List.map_filter_simps)
  next
    case (Some k)
    with Suc.prems(3) [of n] step have "build_row collect null add bi n st1 = add n (row_ref bi n) st2" by simp
    with Suc.prems(4) [OF _ Some rep2] st1(1) Some all2 show ?thesis
      by (auto simp: fold_outcome_append map_filter_append List.map_filter_simps)
  qed
qed (simp add: List.map_filter_simps)

lemma maps_state_insert:
  "started \<Longrightarrow> maps_state started f kvs maps \<Longrightarrow> maps_state started f (kvs @ [(k, r)]) (insert_build_ref (f k) r maps)"
  by (simp add: maps_state_def insert_build_ref_represents)

lemma arrays_key_typed:
  assumes "array_ok a" "array_len a = n" "row < n" "array_type a = t" "t \<noteq> DictInt32Utf8"
  obtains cs where "a = PlainArray t cs" "length cs = n" "array_is_null a row \<longleftrightarrow> cs ! row = None"
    "array_cells a ! row = cs ! row" "\<And>c. cs ! row = Some c \<Longrightarrow> cell_typed t c"
proof (cases a)
  case (PlainArray t' cs)
  with assms have "pred_option (cell_typed t) (cs ! row)" by (auto simp: list_all_length)
  then have typed: "\<And>c. cs ! row = Some c \<Longrightarrow> cell_typed t c" by simp
  have cells: "a = PlainArray t cs" "length cs = n" "array_is_null a row \<longleftrightarrow> cs ! row = None" "array_cells a ! row = cs ! row"
    using PlainArray assms by (auto simp: vec_get_def)
  show ?thesis by (rule that [OF cells typed])
qed (use assms in auto)

lemma int_cell:
  assumes "array_ok a" "array_len a = n" "row < n" "array_type a = t" "t = Int32 \<or> t = Int64" "\<not> array_is_null a row"
  shows "\<exists>i. array_cells a ! row = Some (CellInt i)"
proof -
  have "t \<noteq> DictInt32Utf8" using assms(5) by auto
  from arrays_key_typed [OF assms(1-4) this] obtain cs where cs: "array_is_null a row \<longleftrightarrow> cs ! row = None"
    "array_cells a ! row = cs ! row" "\<And>c. cs ! row = Some c \<Longrightarrow> cell_typed t c" by metis
  with assms(6) obtain c where c: "cs ! row = Some c" by auto
  with cs(3) [OF c] assms(5) cs(2) show ?thesis by (cases c) auto
qed

lemma string_cell:
  assumes "array_ok a" "array_len a = n" "row < n" "array_type a = Utf8" "\<not> array_is_null a row"
  shows "\<exists>s. array_cells a ! row = Some (CellStr s)"
proof -
  from arrays_key_typed [OF assms(1-4)] obtain cs where cs: "array_is_null a row \<longleftrightarrow> cs ! row = None"
    "array_cells a ! row = cs ! row" "\<And>c. cs ! row = Some c \<Longrightarrow> cell_typed Utf8 c" by (metis data_type.distinct)
  with assms(5) obtain c where c: "cs ! row = Some c" by auto
  with cs(3) [OF c] cs(2) show ?thesis by (cases c) auto
qed

text \<open>A typed column has the typed keys of its rows.\<close>

definition column_of :: "(cell option list \<Rightarrow> 'v) \<Rightarrow> array list \<Rightarrow> nat \<Rightarrow> 'v option list \<Rightarrow> bool" where
  "column_of f arrays n column \<longleftrightarrow> length column = n \<and>
     (\<forall>row < n. (is_null_at column row \<longleftrightarrow> arrays_key arrays row = None) \<and>
        (\<forall>k. arrays_key arrays row = Some k \<longrightarrow> value_at column row = f k))"

lemma int_column:
  assumes "array_ok a" "array_len a = n" "array_type a = t" "t = Int32 \<or> t = Int64"
  shows "\<exists>column. downcast_ints t a = Some column \<and> column_of int_key [a] n column"
proof -
  from assms obtain cs where a: "a = PlainArray t cs" by (cases a) auto
  have "column_of int_key [a] n (map (map_option the_int) cs)"
    unfolding column_of_def
  proof (intro conjI allI impI)
    fix row assume row: "row < n"
    then show "is_null_at (map (map_option the_int) cs) row = (arrays_key [a] row = None)"
      using a assms(2) by (simp add: is_null_at_def arrays_key_def vec_get_def)
    fix k assume k: "arrays_key [a] row = Some k"
    then have "\<not> array_is_null a row" "k = [array_cells a ! row]" by (auto simp: arrays_key_def key_cells_def split: if_splits)
    with int_cell [OF assms(1,2) row assms(3,4)] a row assms(2)
    show "value_at (map (map_option the_int) cs) row = int_key k" by (auto simp: value_at_def)
  qed (use a assms(2) in simp)
  then show ?thesis using a by simp
qed

lemma string_column:
  assumes "array_ok a" "array_len a = n" "array_type a = Utf8"
  shows "\<exists>column. downcast_strings a = Some column \<and> column_of string_key [a] n column"
proof -
  from assms obtain cs where a: "a = PlainArray Utf8 cs" by (cases a) auto
  have "column_of string_key [a] n (map (map_option the_str) cs)"
    unfolding column_of_def
  proof (intro conjI allI impI)
    fix row assume row: "row < n"
    then show "is_null_at (map (map_option the_str) cs) row = (arrays_key [a] row = None)"
      using a assms(2) by (simp add: is_null_at_def arrays_key_def vec_get_def)
    fix k assume k: "arrays_key [a] row = Some k"
    then have "\<not> array_is_null a row" "k = [array_cells a ! row]" by (auto simp: arrays_key_def key_cells_def split: if_splits)
    with string_cell [OF assms(1,2) row assms(3)] a row assms(2)
    show "value_at (map (map_option the_str) cs) row = string_key k" by (auto simp: value_at_def)
  qed (use a assms(2) in simp)
  then show ?thesis using a by simp
qed

lemma pair_columns:
  assumes "array_ok a" "array_len a = n" "array_type a = Int32" "array_ok b" "array_len b = n" "array_type b = Int32"
  shows "\<exists>left right. downcast_ints Int32 a = Some left \<and> downcast_ints Int32 b = Some right \<and>
     length left = n \<and> length right = n \<and>
     (\<forall>row < n. (is_null_at left row \<or> is_null_at right row \<longleftrightarrow> arrays_key [a, b] row = None) \<and>
        (\<forall>k. arrays_key [a, b] row = Some k \<longrightarrow> (value_at left row, value_at right row) = pair_key k))"
proof -
  from int_column [OF assms(1-3)] int_column [OF assms(4-6)] obtain left right where
    cols: "downcast_ints Int32 a = Some left" "downcast_ints Int32 b = Some right"
    "column_of int_key [a] n left" "column_of int_key [b] n right" by auto
  have "(is_null_at left row \<or> is_null_at right row \<longleftrightarrow> arrays_key [a, b] row = None) \<and>
        (\<forall>k. arrays_key [a, b] row = Some k \<longrightarrow> (value_at left row, value_at right row) = pair_key k)" if row: "row < n" for row
  proof (intro conjI allI impI)
    show "is_null_at left row \<or> is_null_at right row \<longleftrightarrow> arrays_key [a, b] row = None"
      using cols(3,4) row by (auto simp: column_of_def arrays_key_def)
    fix k assume k: "arrays_key [a, b] row = Some k"
    then have keys: "arrays_key [a] row = Some [array_cells a ! row]" "arrays_key [b] row = Some [array_cells b ! row]"
      "k = [array_cells a ! row, array_cells b ! row]" by (auto simp: arrays_key_def key_cells_def split: if_splits)
    with cols(3,4) row have "value_at left row = int_key [array_cells a ! row]" "value_at right row = int_key [array_cells b ! row]"
      by (auto simp: column_of_def)
    moreover from int_cell [OF assms(1,2) row assms(3)] keys(1) obtain i where "array_cells a ! row = Some (CellInt i)"
      by (auto simp: arrays_key_def split: if_splits)
    moreover from int_cell [OF assms(4,5) row assms(6)] keys(2) obtain j where "array_cells b ! row = Some (CellInt j)"
      by (auto simp: arrays_key_def split: if_splits)
    ultimately show "(value_at left row, value_at right row) = pair_key k" using keys(3) by simp
  qed
  with cols show ?thesis by (auto simp: column_of_def)
qed

text \<open>One row more, by kind of build.\<close>

lemma i32_only_step:
  assumes "state_rep E img BuildFastSingleKey [Int32] kvs st"
  shows "state_rep E img BuildFastSingleKey [Int32] (kvs @ [(k, r)]) (st\<lparr>bs_i32 := insert_i32_build_ref (int_key k) r (bs_i32 st)\<rparr>)"
  using assms by (simp add: state_rep_def insert_i32_build_ref_def maps_state_insert generic_build_def)
    (simp add: maps_state_def)

lemma i64_only_step:
  assumes "state_rep E img BuildFastSingleKey [Int64] kvs st"
  shows "state_rep E img BuildFastSingleKey [Int64] (kvs @ [(k, r)]) (st\<lparr>bs_i64 := insert_i64_build_ref (int_key k) r (bs_i64 st)\<rparr>)"
  using assms by (simp add: state_rep_def insert_i64_build_ref_def maps_state_insert generic_build_def)
    (simp add: maps_state_def)

lemma fast_pair_step:
  assumes "state_rep E img BuildFastSingleKey [Int32, Int32] kvs st"
  shows "state_rep E img BuildFastSingleKey [Int32, Int32] (kvs @ [(k, r)])
     (st\<lparr>bs_pair := insert_i32_pair_build_ref (pair_key k) r (bs_pair st)\<rparr>)"
  using assms by (simp add: state_rep_def insert_i32_pair_build_ref_def maps_state_insert generic_build_def)
    (simp add: maps_state_def)

lemma fast_string_step:
  assumes "state_rep E img BuildFastSingleKey [Utf8] kvs st"
  shows "state_rep E img BuildFastSingleKey [Utf8] (kvs @ [(k, r)])
     (st\<lparr>bs_string := insert_string_build_ref (string_key k) r (bs_string st)\<rparr>)"
  using assms by (simp add: state_rep_def insert_string_build_ref_def maps_state_insert generic_build_def)
    (simp add: maps_state_def)

lemma entry_push_insert: "(None, Some (hash_map_entry_push k r m)) = insert_build_ref k r (None, Some m)"
  by (simp add: insert_build_ref_def)

lemma push_typed_insert:
  "snd maps \<noteq> None \<Longrightarrow> fst maps = None \<Longrightarrow> push_typed (Some column) row r maps = insert_build_ref (value_at column row) r maps"
  by (cases maps) (auto simp: push_typed_def insert_build_ref_def)

lemma push_typed_None: "push_typed column row r (None, None) = (None, None)" "push_typed None row r maps = maps"
  by (auto simp: push_typed_def split: option.splits)

lemma maps_represent_started: "maps_represent maps kvs \<Longrightarrow> fst maps = None \<Longrightarrow> snd maps \<noteq> None"
  by (cases maps) (auto simp: maps_represent_def split: option.splits)

lemma key_set_step:
  assumes "state_rep E img BuildFastSemi [Int32] kvs st" "bs_key_set st = Some ks"
  shows "state_rep E img BuildFastSemi [Int32] (kvs @ [(k, r)]) (st\<lparr>bs_key_set := Some (List.insert (int_key k) ks)\<rparr>)"
  using assms by (simp add: state_rep_def generic_build_def) (auto simp: maps_state_def)

definition columns_ok ::
    "data_type list \<Rightarrow> array list \<Rightarrow> nat \<Rightarrow> int option list option \<Rightarrow> int option list option \<Rightarrow>
     (int option list \<times> int option list) option \<Rightarrow> string option list option \<Rightarrow> bool" where
  "columns_ok types arrays n i32_column i64_column pair_columns string_column \<longleftrightarrow>
     (types = [Int32] \<longrightarrow> (\<exists>c. i32_column = Some c \<and> column_of int_key arrays n c)) \<and>
     (types = [Int64] \<longrightarrow> (\<exists>c. i64_column = Some c \<and> column_of int_key arrays n c)) \<and>
     (if types = [Int32, Int32]
      then \<exists>left right. pair_columns = Some (left, right) \<and>
        (\<forall>row < n. \<forall>k. arrays_key arrays row = Some k \<longrightarrow> (value_at left row, value_at right row) = pair_key k)
      else pair_columns = None) \<and>
     (if types = [Utf8] then \<exists>c. string_column = Some c \<and> column_of string_key arrays n c else string_column = None)"

lemma pushed_maps_state:
  assumes "maps_state started int_key kvs maps" "fst maps = None"
    "started \<Longrightarrow> \<exists>c. column = Some c \<and> value_at c row = int_key k"
  shows "maps_state started int_key (kvs @ [(k, r)]) (push_typed column row r maps) \<and>
     fst (push_typed column row r maps) = None"
proof (cases started)
  case True
  then obtain c where c: "column = Some c" "value_at c row = int_key k" using assms(3) by auto
  have rep: "maps_represent maps (retype int_key kvs)" using assms(1) True by (simp add: maps_state_def)
  note none = assms(2)
  from push_typed_insert [OF maps_represent_started [OF rep none] none] c
  have "push_typed column row r maps = insert_build_ref (int_key k) r maps" by simp
  moreover have "fst (push_typed column row r maps) = None" using none by (auto simp: push_typed_def split: option.splits)
  ultimately show ?thesis using maps_state_insert [OF True assms(1)] by simp
qed (use assms(1) in \<open>auto simp: maps_state_def push_typed_None\<close>)

lemma generic_step:
  fixes st :: "'row build_state"
  assumes gen: "generic_build mode types" and rep: "state_rep E img mode types kvs st"
    and cols: "columns_ok types arrays n ic lc pc sc" and row: "row < n" "arrays_key arrays row = Some k"
  shows "\<exists>st'. add_all_keys E ic lc pc sc (img types k) row r st = Some (Inr st') \<and>
     state_rep E img mode types (kvs @ [(k, r)]) st' \<and> bs_all_rows st' = bs_all_rows st"
proof -
  define i32 where "i32 = push_typed ic row r (bs_i32 st)"
  define i64 where "i64 = push_typed lc row r (bs_i64 st)"
  define pair where "pair = (case pc of None \<Rightarrow> bs_pair st | Some (left, right) \<Rightarrow>
    insert_i32_pair_build_ref (value_at left row, value_at right row) r (bs_pair st))"
  define str where "str = (case sc of None \<Rightarrow> bs_string st | Some c \<Rightarrow> insert_string_build_ref (value_at c row) r (bs_string st))"
  have bloom: "bloom_covers E (bs_bloom st) (fst ` set (retype (img types) kvs))" using rep gen by (simp add: state_rep_def)
  from bloom_insert_covers [OF this, of "img types k"] obtain b where
    b: "bloom_insert E (img types k) (bs_bloom st) = Some b" "bloom_covers E b (insert (img types k) (fst ` set (retype (img types) kvs)))"
    by blast
  define st' where "st' = st\<lparr>bs_i32 := i32, bs_i64 := i64, bs_pair := pair, bs_string := str, bs_bloom := b,
    bs_rows := hash_map_entry_push (img types k) r (bs_rows st)\<rparr>"
  have "add_all_keys E ic lc pc sc (img types k) row r st = Some (Inr st')"
    using b(1) by (simp add: add_all_keys_def add_pair_and_string_def Let_def st'_def i32_def i64_def pair_def str_def expect_def
        split: option.splits prod.splits)
  moreover have typed: "\<exists>c. ic = Some c \<and> value_at c row = int_key k" if "types = [Int32]"
    using cols row that by (auto simp: columns_ok_def column_of_def)
  have "maps_state (types = [Int32] \<and> mode \<noteq> BuildFastSemi) int_key (kvs @ [(k, r)]) i32 \<and> fst i32 = None"
    unfolding i32_def by (rule pushed_maps_state) (use rep gen typed in \<open>auto simp: state_rep_def\<close>)
  moreover have typed: "\<exists>c. lc = Some c \<and> value_at c row = int_key k" if "types = [Int64]"
    using cols row that by (auto simp: columns_ok_def column_of_def)
  have "maps_state (types = [Int64]) int_key (kvs @ [(k, r)]) i64 \<and> fst i64 = None"
    unfolding i64_def by (rule pushed_maps_state) (use rep gen typed in \<open>auto simp: state_rep_def\<close>)
  moreover have "maps_state (types = [Int32, Int32]) pair_key (kvs @ [(k, r)]) pair"
    using rep cols row by (auto simp: state_rep_def columns_ok_def pair_def insert_i32_pair_build_ref_def maps_state_def
        insert_build_ref_represents split: if_splits)
  moreover have "maps_state (types = [Utf8]) string_key (kvs @ [(k, r)]) str"
    using rep cols row by (auto simp: state_rep_def columns_ok_def column_of_def str_def insert_string_build_ref_def maps_state_def
        insert_build_ref_represents split: if_splits)
  moreover have "maps_represent (None, Some (hash_map_entry_push (img types k) r (bs_rows st))) (retype (img types) (kvs @ [(k, r)]))"
    using rep gen by (simp add: state_rep_def entry_push_insert insert_build_ref_represents)
  moreover have semi: "\<not> (mode = BuildFastSemi \<and> types = [Int32])" using gen by (simp add: generic_build_def)
  moreover have "bs_key_set st = None" using rep semi by (simp add: state_rep_def del: de_Morgan_conj)
  ultimately have "state_rep E img mode types (kvs @ [(k, r)]) st'"
    unfolding state_rep_def if_not_P [OF semi] if_P [OF gen] using b(2) by (simp add: st'_def)
  with \<open>add_all_keys E ic lc pc sc (img types k) row r st = Some (Inr st')\<close> show ?thesis by (simp add: st'_def)
qed

text \<open>One batch.\<close>

lemma map_outcome_Inr:
  "map_outcome f xs = Some (Inr ys) \<Longrightarrow> length ys = length xs \<and> (\<forall>i < length xs. f (xs ! i) = Some (Inr (ys ! i)))"
proof (induction xs arbitrary: ys)
  case (Cons x xs)
  from Cons.prems obtain y ys' where "f x = Some (Inr y)" "map_outcome f xs = Some (Inr ys')" "ys = y # ys'"
    by (auto simp: outcome_bind_def split: option.splits sum.splits)
  with Cons.IH show ?case by (auto simp: nth_Cons split: nat.splits)
qed simp

lemma batch_column_mem: "batch_column batch c = Some (Inr a) \<Longrightarrow> a \<in> set (batch_columns batch)"
  by (auto simp: batch_column_def outcome_bind_def rust_simps split: sum.splits)

lemma key_arrays_ok:
  assumes "batch_ok batch" "key_arrays batch keys = Some (Inr arrays)"
  shows "length arrays = length keys \<and> arrays \<noteq> [] \<and> (\<forall>a \<in> set arrays. array_ok a \<and> array_len a = batch_rows batch)"
proof -
  from assms(2) have "keys \<noteq> []" "map_outcome (batch_column batch) keys = Some (Inr arrays)"
    by (auto simp: key_arrays_def unsupported_def split: if_splits)
  from map_outcome_Inr [OF this(2)] have len: "length arrays = length keys"
    and "\<And>i. i < length keys \<Longrightarrow> arrays ! i \<in> set (batch_columns batch)" by (auto intro: batch_column_mem)
  then have "a \<in> set (batch_columns batch)" if "a \<in> set arrays" for a using that by (auto simp: in_set_conv_nth)
  with len \<open>keys \<noteq> []\<close> assms(1) show ?thesis unfolding batch_ok_def by auto
qed

lemma key_batch_arrays:
  assumes "key_batch_ok keys types batch"
  shows "\<exists>arrays. key_arrays batch keys = Some (Inr arrays) \<and> map array_type arrays = types \<and>
     (\<forall>a \<in> set arrays. array_ok a \<and> array_len a = batch_rows batch) \<and> arrays \<noteq> []"
  using assms key_arrays_ok unfolding key_batch_ok_def by blast

lemma type_check_passes:
  "map array_type arrays = types \<Longrightarrow>
   fold_outcome (\<lambda>(key, array, expected) unit.
     if array_type array \<noteq> expected then key_type_changed E key (array_type array) expected else Some (Inr unit))
     (zip keys (zip arrays types)) () = Some (Inr ())"
proof (induction keys arbitrary: arrays types)
  case (Cons key keys)
  then show ?case by (cases arrays) auto
qed simp

lemma maps_state_started: "maps_state started f kvs maps \<Longrightarrow> maps_started maps \<longleftrightarrow> started"
  by (cases maps) (auto simp: maps_state_def maps_started_def maps_represent_def split: option.splits if_splits)

lemma state_rep_started:
  assumes "state_rep E img mode types kvs st"
  shows "maps_started (bs_i32 st) \<longleftrightarrow> types = [Int32] \<and> mode \<noteq> BuildFastSemi" "maps_started (bs_i64 st) \<longleftrightarrow> types = [Int64]"
    "maps_started (bs_pair st) \<longleftrightarrow> types = [Int32, Int32]" "maps_started (bs_string st) \<longleftrightarrow> types = [Utf8]"
proof -
  from assms have "maps_state (types = [Int32] \<and> mode \<noteq> BuildFastSemi) int_key kvs (bs_i32 st)"
    "maps_state (types = [Int64]) int_key kvs (bs_i64 st)" "maps_state (types = [Int32, Int32]) pair_key kvs (bs_pair st)"
    "maps_state (types = [Utf8]) string_key kvs (bs_string st)" by (simp_all add: state_rep_def)
  then show "maps_started (bs_i32 st) \<longleftrightarrow> types = [Int32] \<and> mode \<noteq> BuildFastSemi" "maps_started (bs_i64 st) \<longleftrightarrow> types = [Int64]"
    "maps_started (bs_pair st) \<longleftrightarrow> types = [Int32, Int32]" "maps_started (bs_string st) \<longleftrightarrow> types = [Utf8]"
    by (blast dest: maps_state_started)+
qed

lemma keyed_batch_arrays:
  assumes "key_arrays batch keys = Some (Inr arrays)"
  shows "keyed_batch keys (bi, batch) =
     List.map_filter (\<lambda>r. map_option (\<lambda>k. (k, r)) (arrays_key arrays (ref_row r))) (map (row_ref bi) [0..<batch_rows batch])"
  using assms by (simp add: keyed_batch_def batch_refs_def row_key_def)

definition batch_step ::
    "'row join_engine \<Rightarrow> (data_type list \<Rightarrow> cell option list \<Rightarrow> 'row) \<Rightarrow> hash_build_mode \<Rightarrow> data_type list \<Rightarrow> string list \<Rightarrow> bool \<Rightarrow>
     (cell option list \<times> build_row_ref) list \<Rightarrow> 'row build_state \<Rightarrow> nat \<times> record_batch \<Rightarrow> 'row build_state outcome \<Rightarrow> bool" where
  "batch_step E img mode types keys collect kvs st numbered result \<longleftrightarrow>
     (\<exists>st'. result = Some (Inr st') \<and> state_rep E img mode types (kvs @ keyed_batch keys numbered) st' \<and>
        bs_all_rows st' = bs_all_rows st @ (if collect then batch_refs numbered else []))"

lemma build_rows_step:
  assumes "key_arrays batch keys = Some (Inr arrays)" "batch_rows batch \<le> 2 ^ 32" "state_rep E img mode types kvs st"
    and "\<And>row. row < batch_rows batch \<Longrightarrow> null row \<longleftrightarrow> arrays_key arrays row = None"
    and "\<And>row k st kvs. row < batch_rows batch \<Longrightarrow> arrays_key arrays row = Some k \<Longrightarrow> state_rep E img mode types kvs st \<Longrightarrow>
      \<exists>st'. add row (row_ref bi row) st = Some (Inr st') \<and> state_rep E img mode types (kvs @ [(k, row_ref bi row)]) st' \<and>
        bs_all_rows st' = bs_all_rows st"
  shows "batch_step E img mode types keys collect kvs st (bi, batch)
     (fold_outcome (build_row collect null add bi) [0..<batch_rows batch] st)"
  unfolding batch_step_def batch_refs_def fst_conv snd_conv keyed_batch_arrays [OF assms(1)]
  using assms(2-5) by (rule build_rows_loop)

lemma build_batch_i32:
  assumes ok: "key_batch_ok keys [Int32] batch" and rep: "state_rep E img BuildFastSingleKey [Int32] kvs st"
  shows "batch_step E img BuildFastSingleKey [Int32] keys collect kvs st (bi, batch)
     (build_batch E BuildFastSingleKey collect keys [Int32] (bi, batch) st)"
proof -
  from key_batch_arrays [OF ok] obtain a where arrays: "key_arrays batch keys = Some (Inr [a])" "array_type a = Int32"
    "array_ok a" "array_len a = batch_rows batch" by (auto simp: map_eq_Cons_conv)
  from int_column [OF this(3,4,2)] obtain column where
    column: "downcast_ints Int32 a = Some column" "column_of int_key [a] (batch_rows batch) column" by auto
  have rows: "batch_rows batch \<le> 2 ^ 32" using ok by (simp add: key_batch_ok_def)
  have "build_batch E BuildFastSingleKey collect keys [Int32] (bi, batch) st = i32_only_rows collect bi (batch_rows batch) column st"
    using arrays(1) column(1) type_check_passes [of "[a]" "[Int32]" E keys] arrays(2)
    by (simp add: build_batch_def state_rep_started [OF rep] expect_def)
  then show ?thesis unfolding i32_only_rows_def
    using column(2) by (simp only:) (rule build_rows_step [OF arrays(1) rows rep]; force simp: column_of_def intro: i32_only_step)
qed

lemma build_batch_i64:
  assumes ok: "key_batch_ok keys [Int64] batch" and rep: "state_rep E img BuildFastSingleKey [Int64] kvs st"
  shows "batch_step E img BuildFastSingleKey [Int64] keys collect kvs st (bi, batch)
     (build_batch E BuildFastSingleKey collect keys [Int64] (bi, batch) st)"
proof -
  from key_batch_arrays [OF ok] obtain a where arrays: "key_arrays batch keys = Some (Inr [a])" "array_type a = Int64"
    "array_ok a" "array_len a = batch_rows batch" by (auto simp: map_eq_Cons_conv)
  from int_column [OF this(3,4,2)] obtain column where
    column: "downcast_ints Int64 a = Some column" "column_of int_key [a] (batch_rows batch) column" by auto
  have rows: "batch_rows batch \<le> 2 ^ 32" using ok by (simp add: key_batch_ok_def)
  have "build_batch E BuildFastSingleKey collect keys [Int64] (bi, batch) st = i64_only_rows collect bi (batch_rows batch) column st"
    using arrays(1) column(1) type_check_passes [of "[a]" "[Int64]" E keys] arrays(2)
    by (simp add: build_batch_def state_rep_started [OF rep] expect_def)
  then show ?thesis unfolding i64_only_rows_def
    using column(2) by (simp only:) (rule build_rows_step [OF arrays(1) rows rep]; force simp: column_of_def intro: i64_only_step)
qed

lemma build_batch_pair:
  assumes ok: "key_batch_ok keys [Int32, Int32] batch" and rep: "state_rep E img BuildFastSingleKey [Int32, Int32] kvs st"
  shows "batch_step E img BuildFastSingleKey [Int32, Int32] keys collect kvs st (bi, batch)
     (build_batch E BuildFastSingleKey collect keys [Int32, Int32] (bi, batch) st)"
proof -
  from key_batch_arrays [OF ok] obtain a b where arrays: "key_arrays batch keys = Some (Inr [a, b])" "array_type a = Int32"
    "array_ok a" "array_len a = batch_rows batch" "array_type b = Int32" "array_ok b" "array_len b = batch_rows batch"
    by (auto simp: map_eq_Cons_conv)
  from pair_columns [OF this(3,4,2,6,7,5)] obtain left right where
    columns: "downcast_ints Int32 a = Some left" "downcast_ints Int32 b = Some right"
    "\<forall>row < batch_rows batch. \<forall>k. arrays_key [a, b] row = Some k \<longrightarrow> (value_at left row, value_at right row) = pair_key k" by auto
  have rows: "batch_rows batch \<le> 2 ^ 32" using ok by (simp add: key_batch_ok_def)
  have "build_batch E BuildFastSingleKey collect keys [Int32, Int32] (bi, batch) st =
      fast_key_rows collect bi (batch_rows batch) [a, b] (Some (left, right)) None st"
    using arrays(1) columns(1,2) type_check_passes [of "[a, b]" "[Int32, Int32]" E keys] arrays(2,5)
    by (simp add: build_batch_def state_rep_started [OF rep] expect_def)
  moreover have "batch_step E img BuildFastSingleKey [Int32, Int32] keys collect kvs st (bi, batch)
      (fast_key_rows collect bi (batch_rows batch) [a, b] (Some (left, right)) None st)"
    unfolding fast_key_rows_def
  proof (rule build_rows_step [OF arrays(1) rows rep])
    fix row k st' kvs' assume "row < batch_rows batch" "arrays_key [a, b] row = Some k"
      "state_rep E img BuildFastSingleKey [Int32, Int32] kvs' st'"
    with columns(3) fast_pair_step show "\<exists>st''. Some (Inr (add_pair_and_string (Some (left, right)) None row (row_ref bi row) st')) = Some (Inr st'') \<and>
      state_rep E img BuildFastSingleKey [Int32, Int32] (kvs' @ [(k, row_ref bi row)]) st'' \<and> bs_all_rows st'' = bs_all_rows st'"
      by (simp add: add_pair_and_string_def)
  qed (auto simp: arrays_key_def)
  ultimately show ?thesis by simp
qed

lemma build_batch_string:
  assumes ok: "key_batch_ok keys [Utf8] batch" and rep: "state_rep E img BuildFastSingleKey [Utf8] kvs st"
  shows "batch_step E img BuildFastSingleKey [Utf8] keys collect kvs st (bi, batch)
     (build_batch E BuildFastSingleKey collect keys [Utf8] (bi, batch) st)"
proof -
  from key_batch_arrays [OF ok] obtain a where arrays: "key_arrays batch keys = Some (Inr [a])" "array_type a = Utf8"
    "array_ok a" "array_len a = batch_rows batch" by (auto simp: map_eq_Cons_conv)
  from string_column [OF this(3,4,2)] obtain column where
    column: "downcast_strings a = Some column" "column_of string_key [a] (batch_rows batch) column" by auto
  have rows: "batch_rows batch \<le> 2 ^ 32" using ok by (simp add: key_batch_ok_def)
  have "build_batch E BuildFastSingleKey collect keys [Utf8] (bi, batch) st =
      fast_key_rows collect bi (batch_rows batch) [a] None (Some column) st"
    using arrays(1) column(1) type_check_passes [of "[a]" "[Utf8]" E keys] arrays(2)
    by (simp add: build_batch_def state_rep_started [OF rep] expect_def)
  moreover have "batch_step E img BuildFastSingleKey [Utf8] keys collect kvs st (bi, batch)
      (fast_key_rows collect bi (batch_rows batch) [a] None (Some column) st)"
    unfolding fast_key_rows_def
  proof (rule build_rows_step [OF arrays(1) rows rep])
    fix row k st' kvs' assume "row < batch_rows batch" "arrays_key [a] row = Some k"
      "state_rep E img BuildFastSingleKey [Utf8] kvs' st'"
    with column(2) fast_string_step show "\<exists>st''. Some (Inr (add_pair_and_string None (Some column) row (row_ref bi row) st')) = Some (Inr st'') \<and>
      state_rep E img BuildFastSingleKey [Utf8] (kvs' @ [(k, row_ref bi row)]) st'' \<and> bs_all_rows st'' = bs_all_rows st'"
      by (simp add: add_pair_and_string_def column_of_def)
  qed (auto simp: arrays_key_def)
  ultimately show ?thesis by simp
qed

lemma key_set_loop:
  assumes "column_of int_key arrays m column" "n \<le> m" "state_rep E img BuildFastSemi [Int32] kvs st"
  shows "\<exists>st'. i32_key_set_rows n column st = Some (Inr st') \<and>
     state_rep E img BuildFastSemi [Int32]
       (kvs @ List.map_filter (\<lambda>r. map_option (\<lambda>k. (k, r)) (arrays_key arrays (ref_row r))) (map (row_ref bi) [0..<n])) st' \<and>
     bs_all_rows st' = bs_all_rows st"
  using assms(2)
proof (induction n)
  case (Suc n)
  then obtain st1 where st1: "i32_key_set_rows n column st = Some (Inr st1)"
    "state_rep E img BuildFastSemi [Int32]
       (kvs @ List.map_filter (\<lambda>r. map_option (\<lambda>k. (k, r)) (arrays_key arrays (ref_row r))) (map (row_ref bi) [0..<n])) st1"
    "bs_all_rows st1 = bs_all_rows st" by auto
  from st1(2) obtain ks where ks: "bs_key_set st1 = Some ks" by (auto simp: state_rep_def)
  have unfold: "i32_key_set_rows (Suc n) column st =
      (if is_null_at column n then Some (Inr st1)
       else Some (Inr (st1\<lparr>bs_key_set := Some (List.insert (value_at column n) ks)\<rparr>)))"
    using st1(1) ks by (simp add: i32_key_set_rows_def fold_outcome_append expect_def)
  have n: "n < m" using Suc.prems by simp
  show ?case
  proof (cases "arrays_key arrays n")
    case None
    with assms(1) n have "is_null_at column n" by (auto simp: column_of_def)
    with unfold None st1(2,3) show ?thesis by (simp add: map_filter_append List.map_filter_simps)
  next
    case (Some k)
    with assms(1) n have "\<not> is_null_at column n" "value_at column n = int_key k" by (auto simp: column_of_def)
    with unfold Some st1(3) key_set_step [OF st1(2) ks, of k "row_ref bi n"] show ?thesis
      by (simp add: map_filter_append List.map_filter_simps)
  qed
qed (use assms(3) in \<open>simp add: i32_key_set_rows_def List.map_filter_simps\<close>)

lemma build_batch_key_set:
  assumes ok: "key_batch_ok keys [Int32] batch" and rep: "state_rep E img BuildFastSemi [Int32] kvs st"
  shows "batch_step E img BuildFastSemi [Int32] keys False kvs st (bi, batch)
     (build_batch E BuildFastSemi collect keys [Int32] (bi, batch) st)"
proof -
  from key_batch_arrays [OF ok] obtain a where arrays: "key_arrays batch keys = Some (Inr [a])" "array_type a = Int32"
    "array_ok a" "array_len a = batch_rows batch" by (auto simp: map_eq_Cons_conv)
  from int_column [OF this(3,4,2)] obtain column where
    column: "downcast_ints Int32 a = Some column" "column_of int_key [a] (batch_rows batch) column" by auto
  have "build_batch E BuildFastSemi collect keys [Int32] (bi, batch) st = i32_key_set_rows (batch_rows batch) column st"
    using arrays(1) column(1) type_check_passes [of "[a]" "[Int32]" E keys] arrays(2)
    by (simp add: build_batch_def state_rep_started [OF rep] expect_def)
  with key_set_loop [OF column(2) order_refl rep, of bi] show ?thesis
    by (simp add: batch_step_def keyed_batch_arrays [OF arrays(1)])
qed

text \<open>The columns the general loop reads.\<close>

lemma generic_columns:
  assumes types: "map array_type arrays = types" and ok: "\<forall>a \<in> set arrays. array_ok a \<and> array_len a = n"
    and rep: "state_rep E img mode types kvs st" and gen: "generic_build mode types"
  shows "\<exists>ic lc pc sc. columns_ok types arrays n ic lc pc sc \<and>
     (if maps_started (bs_i32 st) then outcome_bind (expect (downcast_ints Int32 (arrays ! 0))) (Some \<circ> Inr \<circ> Some) else Some (Inr None)) = Some (Inr ic) \<and>
     (if maps_started (bs_i64 st) then outcome_bind (expect (downcast_ints Int64 (arrays ! 0))) (Some \<circ> Inr \<circ> Some) else Some (Inr None)) = Some (Inr lc) \<and>
     (if maps_started (bs_pair st)
      then outcome_bind (expect (downcast_ints Int32 (arrays ! 0))) (\<lambda>left.
           outcome_bind (expect (downcast_ints Int32 (arrays ! 1))) (\<lambda>right. Some (Inr (Some (left, right)))))
      else Some (Inr None)) = Some (Inr pc) \<and>
     (if maps_started (bs_string st) then outcome_bind (expect (downcast_strings (arrays ! 0))) (Some \<circ> Inr \<circ> Some) else Some (Inr None)) = Some (Inr sc)"
proof -
  consider (i32) "types = [Int32]" | (i64) "types = [Int64]" | (pair) "types = [Int32, Int32]" | (str) "types = [Utf8]"
    | (other) "types \<notin> {[Int32], [Int64], [Int32, Int32], [Utf8]}" by blast
  then show ?thesis
  proof cases
    case i32
    then obtain a where a: "arrays = [a]" "array_type a = Int32" using types by (auto simp: map_eq_Cons_conv)
    with ok int_column [of a n Int32] obtain c where c: "downcast_ints Int32 a = Some c" "column_of int_key [a] n c" by auto
    from gen i32 have "mode \<noteq> BuildFastSemi" by (simp add: generic_build_def)
    with i32 a c show ?thesis
      by (intro exI [of _ "Some c"] exI [of _ None]) (simp add: state_rep_started [OF rep] columns_ok_def expect_def)
  next
    case i64
    then obtain a where a: "arrays = [a]" "array_type a = Int64" using types by (auto simp: map_eq_Cons_conv)
    with ok int_column [of a n Int64] obtain c where c: "downcast_ints Int64 a = Some c" "column_of int_key [a] n c" by auto
    with i64 a c show ?thesis
      by (intro exI [of _ None] exI [of _ "Some c"] exI [of _ None] exI [of _ None])
        (simp add: state_rep_started [OF rep] columns_ok_def expect_def)
  next
    case pair
    then obtain a b where a: "arrays = [a, b]" "array_type a = Int32" "array_type b = Int32"
      using types by (auto simp: map_eq_Cons_conv)
    with ok pair_columns [of a n b] obtain left right where
      "downcast_ints Int32 a = Some left" "downcast_ints Int32 b = Some right"
      "\<forall>row < n. \<forall>k. arrays_key [a, b] row = Some k \<longrightarrow> (value_at left row, value_at right row) = pair_key k" by auto
    with pair a show ?thesis
      by (intro exI [of _ None] exI [of _ None] exI [of _ "Some (left, right)"] exI [of _ None])
        (simp add: state_rep_started [OF rep] columns_ok_def expect_def)
  next
    case str
    then obtain a where a: "arrays = [a]" "array_type a = Utf8" using types by (auto simp: map_eq_Cons_conv)
    with ok string_column [of a n] obtain c where "downcast_strings a = Some c" "column_of string_key [a] n c" by auto
    with str a show ?thesis
      by (intro exI [of _ None] exI [of _ None] exI [of _ None] exI [of _ "Some c"])
        (simp add: state_rep_started [OF rep] columns_ok_def expect_def)
  next
    case other
    then show ?thesis
      by (intro exI [of _ None]) (simp add: state_rep_started [OF rep] columns_ok_def)
  qed
qed

lemma enumerate_map_upt: "enumerate 0 (map g [0..<n]) = map (\<lambda>row. (row, g row)) [0..<n]"
  by (intro nth_equalityI) (auto simp: nth_enumerate_eq)

lemma build_batch_generic:
  assumes engine: "row_format_ok E img" and gen: "generic_build mode types"
    and ok: "key_batch_ok keys types batch" and rep: "state_rep E img mode types kvs st"
  shows "batch_step E img mode types keys collect kvs st (bi, batch) (build_batch E mode collect keys types (bi, batch) st)"
proof -
  from key_batch_arrays [OF ok] obtain arrays where arrays: "key_arrays batch keys = Some (Inr arrays)"
    "map array_type arrays = types" "\<forall>a \<in> set arrays. array_ok a \<and> array_len a = batch_rows batch" "arrays \<noteq> []" by blast
  have rows: "batch_rows batch \<le> 2 ^ 32" using ok by (simp add: key_batch_ok_def)
  have converted: "convert_rows E arrays = Inr (map (\<lambda>row. img types (key_cells arrays row)) [0..<batch_rows batch])"
    using engine arrays(2-4) unfolding row_format_ok_def batch_ok_columns_def by blast
  from generic_columns [OF arrays(2,3) rep gen] obtain ic lc pc sc where cols: "columns_ok types arrays (batch_rows batch) ic lc pc sc"
    and reads: "(if maps_started (bs_i32 st) then outcome_bind (expect (downcast_ints Int32 (arrays ! 0))) (Some \<circ> Inr \<circ> Some) else Some (Inr None)) = Some (Inr ic)"
     "(if maps_started (bs_i64 st) then outcome_bind (expect (downcast_ints Int64 (arrays ! 0))) (Some \<circ> Inr \<circ> Some) else Some (Inr None)) = Some (Inr lc)"
     "(if maps_started (bs_pair st)
      then outcome_bind (expect (downcast_ints Int32 (arrays ! 0))) (\<lambda>left.
           outcome_bind (expect (downcast_ints Int32 (arrays ! 1))) (\<lambda>right. Some (Inr (Some (left, right)))))
      else Some (Inr None)) = Some (Inr pc)"
     "(if maps_started (bs_string st) then outcome_bind (expect (downcast_strings (arrays ! 0))) (Some \<circ> Inr \<circ> Some) else Some (Inr None)) = Some (Inr sc)"
    by blast
  have not: "\<not> (mode = BuildFastSingleKey \<and> types = [Int32])" "\<not> (mode = BuildFastSingleKey \<and> types = [Int64])"
    "\<not> (mode = BuildFastSemi \<and> types = [Int32])" "\<not> (mode = BuildFastSingleKey \<and> (types = [Int32, Int32] \<or> types = [Utf8]))"
    using gen by (auto simp: generic_build_def)
  have "build_batch E mode collect keys types (bi, batch) st =
      all_key_rows E collect bi arrays (map (\<lambda>row. img types (key_cells arrays row)) [0..<batch_rows batch]) ic lc pc sc st"
    unfolding build_batch_def Let_def prod.case arrays(1) outcome_bind_simps reads type_check_passes [OF arrays(2)]
      if_not_P [OF not(1)] if_not_P [OF not(2)] if_not_P [OF not(3)] if_not_P [OF not(4)] converted ..
  also have "\<dots> = fold_outcome (build_row collect (\<lambda>row. list_ex (\<lambda>a. array_is_null a row) arrays)
      (\<lambda>row. add_all_keys E ic lc pc sc (img types (key_cells arrays row)) row) bi) [0..<batch_rows batch] st"
    unfolding all_key_rows_def enumerate_map_upt fold_outcome_map by (rule fold_outcome_cong) (simp add: build_row_def)
  finally have *: "build_batch E mode collect keys types (bi, batch) st = \<dots>" .
  show ?thesis unfolding *
  proof (rule build_rows_step [OF arrays(1) rows rep])
    fix row k st' kvs' assume row: "row < batch_rows batch" "arrays_key arrays row = Some k" and rep': "state_rep E img mode types kvs' st'"
    from row(2) have "k = key_cells arrays row" by (auto simp: arrays_key_def split: if_splits)
    with generic_step [OF gen rep' cols row] show "\<exists>st''. add_all_keys E ic lc pc sc (img types (key_cells arrays row)) row (row_ref bi row) st' = Some (Inr st'') \<and>
      state_rep E img mode types (kvs' @ [(k, row_ref bi row)]) st'' \<and> bs_all_rows st'' = bs_all_rows st'" by simp
  qed (simp add: arrays_key_def)
qed

lemma build_batch_step:
  assumes "row_format_ok E img" "key_batch_ok keys types batch" "state_rep E img mode types kvs st"
    "\<not> (collect \<and> mode = BuildFastSemi \<and> types = [Int32])"
  shows "batch_step E img mode types keys collect kvs st (bi, batch) (build_batch E mode collect keys types (bi, batch) st)"
proof (cases "generic_build mode types")
  case True
  from build_batch_generic [OF assms(1) this assms(2,3)] show ?thesis .
next
  case False
  then consider "mode = BuildFastSingleKey" "types = [Int32]" | "mode = BuildFastSingleKey" "types = [Int64]"
    | "mode = BuildFastSingleKey" "types = [Int32, Int32]" | "mode = BuildFastSingleKey" "types = [Utf8]"
    | "mode = BuildFastSemi" "types = [Int32]" by (auto simp: generic_build_def)
  then show ?thesis
    using assms build_batch_i32 build_batch_i64 build_batch_pair build_batch_string build_batch_key_set by cases auto
qed

lemma build_batches_rep:
  assumes "row_format_ok E img" "\<forall>(bi, batch) \<in> set numbered. key_batch_ok keys types batch" "state_rep E img mode types kvs st"
    "\<not> (collect \<and> mode = BuildFastSemi \<and> types = [Int32])"
  shows "\<exists>st'. fold_outcome (build_batch E mode collect keys types) numbered st = Some (Inr st') \<and>
     state_rep E img mode types (kvs @ concat (map (keyed_batch keys) numbered)) st' \<and>
     bs_all_rows st' = bs_all_rows st @ (if collect then concat (map batch_refs numbered) else [])"
  using assms(2,3)
proof (induction numbered arbitrary: kvs st)
  case (Cons nb numbered)
  obtain bi batch where nb: "nb = (bi, batch)" by (cases nb)
  with Cons.prems(1) have "key_batch_ok keys types batch" by auto
  from build_batch_step [OF assms(1) this Cons.prems(2) assms(4), of bi] obtain st1 where
    st1: "build_batch E mode collect keys types nb st = Some (Inr st1)" "state_rep E img mode types (kvs @ keyed_batch keys nb) st1"
      "bs_all_rows st1 = bs_all_rows st @ (if collect then batch_refs nb else [])" by (auto simp: batch_step_def nb)
  from Cons.prems(1) have "\<forall>(bi, batch) \<in> set numbered. key_batch_ok keys types batch" by auto
  from Cons.IH [OF this st1(2)] st1 show ?case by auto
qed simp

subsection \<open>The dense builders\<close>

text \<open>The first pass over the \<open>Int32\<close> keys finds bounds of the keys, their number and the references.\<close>

definition scan_inv :: "(int \<times> build_row_ref) list \<Rightarrow> int \<times> int \<times> nat \<times> build_row_ref list \<Rightarrow> build_row_ref list \<Rightarrow> bool" where
  "scan_inv kvs st refs \<longleftrightarrow>
     (case st of (min_key, max_key, n, all_rows) \<Rightarrow>
        (\<forall>k \<in> fst ` set kvs. min_key \<le> k \<and> k \<le> max_key) \<and> n = length kvs \<and> all_rows = refs)"

abbreviation (input) keyed_upto :: "array list \<Rightarrow> nat \<Rightarrow> nat \<Rightarrow> (cell option list \<times> build_row_ref) list" where
  "keyed_upto arrays bi n \<equiv>
     List.map_filter (\<lambda>r. map_option (\<lambda>k. (k, r)) (arrays_key arrays (ref_row r))) (map (row_ref bi) [0..<n])"

lemma keyed_upto_Suc:
  "keyed_upto arrays bi (Suc n) =
     keyed_upto arrays bi n @ (case arrays_key arrays n of None \<Rightarrow> [] | Some k \<Rightarrow> [(k, row_ref bi n)])"
  by (simp add: map_filter_append List.map_filter_simps split: option.splits)

lemma scan_i32_loop:
  assumes "column_of int_key arrays m column" "n \<le> m" "n \<le> 2 ^ 32" "scan_inv (retype int_key kvs) st refs"
  shows "\<exists>st'. fold_outcome (scan_i32_row collect column bi) [0..<n] st = Some (Inr st') \<and>
     scan_inv (retype int_key (kvs @ keyed_upto arrays bi n)) st' (refs @ (if collect then map (row_ref bi) [0..<n] else []))"
  using assms(2,3)
proof (induction n)
  case (Suc n)
  then obtain st1 where st1: "fold_outcome (scan_i32_row collect column bi) [0..<n] st = Some (Inr st1)"
    "scan_inv (retype int_key (kvs @ keyed_upto arrays bi n)) st1 (refs @ (if collect then map (row_ref bi) [0..<n] else []))" by auto
  obtain mn mx c all where st1_eq: "st1 = (mn, mx, c, all)" by (cases st1)
  have n: "n < m" "n < 2 ^ 32" using Suc.prems by auto
  have step: "fold_outcome (scan_i32_row collect column bi) [0..<Suc n] st = scan_i32_row collect column bi n st1"
    using st1(1) by (simp add: fold_outcome_append)
  show ?case
  proof (cases "arrays_key arrays n")
    case None
    with assms(1) n(1) have "is_null_at column n" by (auto simp: column_of_def)
    with n(2) have "scan_i32_row collect column bi n st1 = Some (Inr (mn, mx, c, all @ (if collect then [row_ref bi n] else [])))"
      by (simp add: scan_i32_row_def st1_eq)
    with None st1(2) show ?thesis unfolding step keyed_upto_Suc st1_eq
      by (intro exI [of _ "(mn, mx, c, all @ (if collect then [row_ref bi n] else []))"]) (simp add: scan_inv_def)
  next
    case (Some k)
    with assms(1) n(1) have "\<not> is_null_at column n" "value_at column n = int_key k" by (auto simp: column_of_def)
    with n(2) have "scan_i32_row collect column bi n st1 =
        Some (Inr (min mn (int_key k), max mx (int_key k), c + 1, all @ (if collect then [row_ref bi n] else [])))"
      by (simp add: scan_i32_row_def st1_eq)
    with Some st1(2) show ?thesis unfolding step keyed_upto_Suc st1_eq
      by (intro exI [of _ "(min mn (int_key k), max mx (int_key k), c + 1, all @ (if collect then [row_ref bi n] else []))"])
        (fastforce simp: scan_inv_def min_le_iff_disj le_max_iff_disj)
  qed
qed (use assms(4) in \<open>simp add: List.map_filter_simps\<close>)

lemma single_key_column:
  assumes ok: "key_batch_ok [key] [Int32] batch"
  shows "\<exists>a column. batch_column batch key = Some (Inr a) \<and> array_type a = Int32 \<and> key_arrays batch [key] = Some (Inr [a]) \<and>
     downcast_ints Int32 a = Some column \<and> column_of int_key [a] (batch_rows batch) column"
proof -
  from key_batch_arrays [OF ok] obtain a where a: "key_arrays batch [key] = Some (Inr [a])" "array_type a = Int32"
    "array_ok a" "array_len a = batch_rows batch" by (auto simp: map_eq_Cons_conv)
  from int_column [OF this(3,4,2)] obtain column where
    "downcast_ints Int32 a = Some column" "column_of int_key [a] (batch_rows batch) column" by auto
  moreover have "batch_column batch key = Some (Inr a)"
    using a(1) by (cases "batch_column batch key") (auto simp: key_arrays_def outcome_bind_def split: sum.splits)
  ultimately show ?thesis using a by blast
qed

lemma scan_i32_keys_inv:
  assumes "\<forall>(bi, batch) \<in> set numbered. key_batch_ok [key] [Int32] batch" "scan_inv (retype int_key kvs) st refs"
  shows "\<exists>st'. scan_i32_keys collect key numbered st = Some (Inr (Some st')) \<and>
     scan_inv (retype int_key (kvs @ concat (map (keyed_batch [key]) numbered))) st'
       (refs @ (if collect then concat (map batch_refs numbered) else []))"
  using assms
proof (induction numbered arbitrary: kvs st refs)
  case (Cons nb numbered)
  obtain bi batch where nb: "nb = (bi, batch)" by (cases nb)
  with Cons.prems(1) have ok: "key_batch_ok [key] [Int32] batch" by auto
  from single_key_column [OF ok] obtain a column where a: "batch_column batch key = Some (Inr a)" "array_type a = Int32"
    "key_arrays batch [key] = Some (Inr [a])" "downcast_ints Int32 a = Some column" "column_of int_key [a] (batch_rows batch) column" by blast
  have "batch_rows batch \<le> 2 ^ 32" using ok by (simp add: key_batch_ok_def)
  moreover have eqs: "keyed_batch [key] nb = keyed_upto [a] bi (batch_rows batch)" "batch_refs nb = map (row_ref bi) [0..<batch_rows batch]"
    by (simp_all add: keyed_batch_arrays [OF a(3)] nb batch_refs_def)
  ultimately obtain st1 where
    st1: "fold_outcome (scan_i32_row collect column bi) [0..<batch_rows batch] st = Some (Inr st1)"
    "scan_inv (retype int_key (kvs @ keyed_batch [key] nb)) st1 (refs @ (if collect then batch_refs nb else []))"
    unfolding eqs using scan_i32_loop [OF a(5) order_refl _ Cons.prems(2)] by blast
  from Cons.prems(1) have "\<forall>(bi, batch) \<in> set numbered. key_batch_ok [key] [Int32] batch" by auto
  from Cons.IH [OF this st1(2)] a st1(1) show ?case by (auto simp: nb expect_def)
qed simp

text \<open>The second pass groups the references by key.\<close>

definition push_inv :: "int \<Rightarrow> nat \<Rightarrow> (int \<times> build_row_ref) list \<Rightarrow> build_row_ref list option list \<times> bool \<Rightarrow> bool" where
  "push_inv mn width kvs st \<longleftrightarrow>
     length (fst st) = width \<and> (\<forall>i < width. fst st ! i = some_nonempty (group_refs kvs (mn + int i))) \<and>
     (snd st \<longleftrightarrow> \<not> unique_groups kvs)"

lemma unique_groups_append:
  "unique_groups (kvs @ [(k, r)]) \<longleftrightarrow> unique_groups kvs \<and> group_refs kvs k = []"
  unfolding unique_groups_def by (auto simp: le_Suc_eq)

lemma push_dense_row_inv:
  assumes inv: "push_inv mn width kvs st" and row: "row < 2 ^ 32" "\<not> is_null_at column row" "value_at column row = k"
    and k: "mn \<le> k" "nat (k - mn) < width" and width: "width \<le> 2 ^ 31"
  shows "\<exists>st'. push_dense_row mn column bi row st = Some (Inr st') \<and> push_inv mn width (kvs @ [(k, row_ref bi row)]) st'"
proof -
  obtain dense dup where st: "st = (dense, dup)" by (cases st)
  let ?i = "nat (k - mn)"
  have offset: "i32_offset mn k = Some (Some ?i)" using k width by (auto simp: i32_offset_def i32_checked_def is_i32_def as_usize_nonneg)
  have slot: "vec_get dense ?i = Some (some_nonempty (group_refs kvs k))" and len: "length dense = width"
    using inv k by (auto simp: push_inv_def st vec_get_def)
  have refs: "(case some_nonempty (group_refs kvs k) of None \<Rightarrow> [] | Some refs \<Rightarrow> refs) = group_refs kvs k"
    by (cases "group_refs kvs k") auto
  let ?st' = "(dense[?i := Some (group_refs kvs k @ [row_ref bi row])], dup \<or> group_refs kvs k \<noteq> [])"
  have "push_dense_row mn column bi row st = Some (Inr ?st')"
    using row offset slot refs by (simp add: push_dense_row_def st expect_def Let_def)
  moreover have "dense[?i := Some (group_refs kvs k @ [row_ref bi row])] ! i =
      some_nonempty (group_refs (kvs @ [(k, row_ref bi row)]) (mn + int i))" if "i < width" for i
  proof (cases "i = ?i")
    case True
    then have "mn + int i = k" using k(1) by simp
    with True len that show ?thesis by (simp add: some_nonempty_def)
  next
    case False
    then have "mn + int i \<noteq> k" by auto
    with False len that inv show ?thesis by (simp add: push_inv_def st)
  qed
  then have "push_inv mn width (kvs @ [(k, row_ref bi row)]) ?st'"
    using inv len unfolding push_inv_def st by (simp add: unique_groups_append)
  ultimately show ?thesis by blast
qed

definition keys_within :: "int \<Rightarrow> nat \<Rightarrow> (int \<times> build_row_ref) list \<Rightarrow> bool" where
  "keys_within mn width kvs \<longleftrightarrow> (\<forall>k \<in> fst ` set kvs. mn \<le> k \<and> nat (k - mn) < width)"

lemma keys_within_append [simp]: "keys_within mn width (kvs @ kvs') \<longleftrightarrow> keys_within mn width kvs \<and> keys_within mn width kvs'"
  by (auto simp: keys_within_def)

lemma push_dense_loop:
  assumes "column_of int_key arrays m column" "n \<le> m" "n \<le> 2 ^ 32" "push_inv mn width (retype int_key kvs) st"
    "keys_within mn width (retype int_key (keyed_upto arrays bi n))" "width \<le> 2 ^ 31"
  shows "\<exists>st'. fold_outcome (push_dense_row mn column bi) [0..<n] st = Some (Inr st') \<and>
     push_inv mn width (retype int_key (kvs @ keyed_upto arrays bi n)) st'"
  using assms(2,3,5)
proof (induction n)
  case (Suc n)
  from Suc.prems(3) have within: "keys_within mn width (retype int_key (keyed_upto arrays bi n))"
    unfolding keyed_upto_Suc by simp
  with Suc obtain st1 where st1: "fold_outcome (push_dense_row mn column bi) [0..<n] st = Some (Inr st1)"
    "push_inv mn width (retype int_key (kvs @ keyed_upto arrays bi n)) st1" by auto
  have n: "n < m" "n < 2 ^ 32" using Suc.prems by auto
  have step: "fold_outcome (push_dense_row mn column bi) [0..<Suc n] st = push_dense_row mn column bi n st1"
    using st1(1) by (simp add: fold_outcome_append)
  show ?case
  proof (cases "arrays_key arrays n")
    case None
    with assms(1) n(1) have "is_null_at column n" by (auto simp: column_of_def)
    with None st1(2) show ?thesis unfolding step keyed_upto_Suc by (auto simp: push_dense_row_def)
  next
    case (Some k)
    with assms(1) n(1) have "\<not> is_null_at column n" "value_at column n = int_key k" by (auto simp: column_of_def)
    moreover have "mn \<le> int_key k" "nat (int_key k - mn) < width"
      using Suc.prems(3) Some unfolding keyed_upto_Suc by (auto simp: keys_within_def)
    ultimately show ?thesis
      using push_dense_row_inv [OF st1(2) n(2), of column "int_key k" bi] assms(6) Some unfolding step keyed_upto_Suc by auto
  qed
qed (use assms(4) in \<open>simp add: List.map_filter_simps\<close>)

lemma push_dense_batches:
  assumes "\<forall>(bi, batch) \<in> set numbered. key_batch_ok [key] [Int32] batch" "push_inv mn width (retype int_key kvs) st"
    "keys_within mn width (retype int_key (concat (map (keyed_batch [key]) numbered)))" "width \<le> 2 ^ 31"
  shows "\<exists>st'. fold_outcome (push_dense_batch key mn) numbered st = Some (Inr st') \<and>
     push_inv mn width (retype int_key (kvs @ concat (map (keyed_batch [key]) numbered))) st'"
  using assms(1-3)
proof (induction numbered arbitrary: kvs st)
  case (Cons nb numbered)
  obtain bi batch where nb: "nb = (bi, batch)" by (cases nb)
  with Cons.prems(1) have ok: "key_batch_ok [key] [Int32] batch" by auto
  from single_key_column [OF ok] obtain a column where a: "batch_column batch key = Some (Inr a)"
    "key_arrays batch [key] = Some (Inr [a])" "downcast_ints Int32 a = Some column" "column_of int_key [a] (batch_rows batch) column" by blast
  have rows: "batch_rows batch \<le> 2 ^ 32" using ok by (simp add: key_batch_ok_def)
  have eqs: "keyed_batch [key] nb = keyed_upto [a] bi (batch_rows batch)" by (simp add: keyed_batch_arrays [OF a(2)] nb)
  have "keys_within mn width (retype int_key (keyed_upto [a] bi (batch_rows batch)))"
    using Cons.prems(3) unfolding eqs [symmetric] by simp
  from push_dense_loop [OF a(4) order_refl rows Cons.prems(2) this assms(4)] obtain st1 where
    st1: "fold_outcome (push_dense_row mn column bi) [0..<batch_rows batch] st = Some (Inr st1)"
    "push_inv mn width (retype int_key (kvs @ keyed_batch [key] nb)) st1" unfolding eqs by blast
  have "push_dense_batch key mn nb st = Some (Inr st1)" using a(1,3) st1(1) by (simp add: push_dense_batch_def nb expect_def)
  moreover from Cons.prems(1,3) have "\<forall>(bi, batch) \<in> set numbered. key_batch_ok [key] [Int32] batch"
    "keys_within mn width (retype int_key (concat (map (keyed_batch [key]) numbered)))" by auto
  from Cons.IH [OF this(1) st1(2) this(2)] obtain st' where "fold_outcome (push_dense_batch key mn) numbered st1 = Some (Inr st')"
    "push_inv mn width (retype int_key ((kvs @ keyed_batch [key] nb) @ concat (map (keyed_batch [key]) numbered))) st'" by blast
  ultimately show ?case by auto
qed simp

text \<open>The table the second pass ends with.\<close>

lemma pop_ref_unique: "unique_groups kvs \<Longrightarrow> pop_ref (some_nonempty (group_refs kvs k)) = unique_ref kvs k"
  by (cases "unique_ref kvs k") (auto simp: unique_ref_groups [symmetric] pop_ref_def)

lemma those_all_Some: "(\<And>i. i < length xs \<Longrightarrow> xs ! i \<noteq> None) \<Longrightarrow> \<exists>ys. those xs = Some ys \<and> xs = map Some ys"
proof -
  assume "\<And>i. i < length xs \<Longrightarrow> xs ! i \<noteq> None"
  then have "xs = map Some (map the xs)" by (intro nth_equalityI) auto
  then show ?thesis by (metis those_eq_Some)
qed

lemma dense_holds_slots:
  assumes "length slots = width" "\<And>i. i < width \<Longrightarrow> slots ! i = f (mn + int i)" "width \<le> 2 ^ (w - 1)"
    "\<And>k. f k \<noteq> None \<Longrightarrow> mn \<le> k \<and> nat (k - mn) < width"
  shows "dense_holds w (DenseSparse mn slots) f" "slots = map Some rows \<Longrightarrow> dense_holds w (DenseComplete mn rows) f"
proof -
  have *: "mn \<le> k \<and> k < mn + int width" if "f k \<noteq> None" for k using assms(4) [OF that] by auto
  show "dense_holds w (DenseSparse mn slots) f" using assms(1-3) * by (simp add: dense_holds_def)
  then show "slots = map Some rows \<Longrightarrow> dense_holds w (DenseComplete mn rows) f" by (simp add: dense_holds_def)
qed

lemma unique_groups_distinct: "unique_groups kvs \<Longrightarrow> distinct (map fst kvs)"
proof (induction kvs rule: rev_induct)
  case (snoc kv kvs)
  obtain k r where "kv = (k, r)" by (cases kv)
  with snoc show ?case by (simp add: unique_groups_append group_refs_eq_Nil)
qed simp

lemma finish_dense_i32_represents:
  assumes inv: "push_inv mn width kvs st" and within: "keys_within mn width kvs" and width: "width \<le> 2 ^ 31"
    and n: "n = length kvs"
  shows "\<exists>result. finish_dense_i32 mn width n st = Some result \<and>
     (case result of
        (Some d, None) \<Rightarrow> dense_unique_represents 32 d kvs \<and> dense_min d = mn
      | (None, Some d) \<Rightarrow> dense_multi_represents d kvs
      | _ \<Rightarrow> False)"
proof -
  obtain dense dup where st: "st = (dense, dup)" by (cases st)
  have len: "length dense = width" and slots: "\<And>i. i < width \<Longrightarrow> dense ! i = some_nonempty (group_refs kvs (mn + int i))"
    and dup: "dup \<longleftrightarrow> \<not> unique_groups kvs" using inv by (auto simp: push_inv_def st)
  have some: "mn \<le> k \<and> nat (k - mn) < width" if "some_nonempty (group_refs kvs k) \<noteq> None" for k
    using that within by (auto simp: keys_within_def group_refs_eq_Nil)
  show ?thesis
  proof (cases dup)
    case True
    have holds: "dense_holds 32 (DenseSparse mn dense) (\<lambda>k. some_nonempty (group_refs kvs k))"
      "\<And>rows. dense = map Some rows \<Longrightarrow> dense_holds 32 (DenseComplete mn rows) (\<lambda>k. some_nonempty (group_refs kvs k))"
      by (rule dense_holds_slots [OF len, of "\<lambda>k. some_nonempty (group_refs kvs k)" mn 32]; use slots width some in simp)+
    show ?thesis
    proof (cases "width = length (filter (\<lambda>slot. slot \<noteq> None) dense)")
      case full: True
      then have "filter (\<lambda>slot. slot \<noteq> None) dense = dense" using len by (metis filter_True length_filter_less less_irrefl)
      then have "\<And>i. i < length dense \<Longrightarrow> dense ! i \<noteq> None" by (auto simp: filter_id_conv)
      from those_all_Some [OF this] obtain rows where "those dense = Some rows" "dense = map Some rows" by blast
      with True full holds(2) [of rows] show ?thesis by (simp add: finish_dense_i32_def st dense_multi_represents_def)
    next
      case False
      with True holds(1) show ?thesis by (simp add: finish_dense_i32_def st dense_multi_represents_def)
    qed
  next
    case False
    then have unique: "unique_groups kvs" using dup by simp
    have pop: "map pop_ref dense ! i = unique_ref kvs (mn + int i)" if "i < width" for i
      using that len slots pop_ref_unique [OF unique] by simp
    have found: "mn \<le> k \<and> nat (k - mn) < width" if "unique_ref kvs k \<noteq> None" for k
      using some [of k] that unique_ref_groups [OF unique, of k] by (metis option.map_disc_iff)
    have length: "length (map pop_ref dense) = width" and w32: "width \<le> 2 ^ (32 - 1)" using len width by simp_all
    have holds: "dense_holds 32 (DenseSparse mn (map pop_ref dense)) (unique_ref kvs)"
      "\<And>rows. map pop_ref dense = map Some rows \<Longrightarrow> dense_holds 32 (DenseComplete mn rows) (unique_ref kvs)"
      by (rule dense_holds_slots [OF length pop w32 found]; assumption?)+
    show ?thesis
    proof (cases "width = n")
      case full: True
      have "(\<lambda>k. nat (k - mn)) ` fst ` set kvs = {..<width}"
      proof (rule full_slots)
        show "inj_on (\<lambda>k. nat (k - mn)) (fst ` set kvs)" using within by (intro inj_on_offset) (auto simp: keys_within_def)
        show "(\<lambda>k. nat (k - mn)) ` fst ` set kvs \<subseteq> {..<width}" using within by (auto simp: keys_within_def)
        show "card (fst ` set kvs) = width" using distinct_card [OF unique_groups_distinct [OF unique]] full n by simp
      qed
      then have "unique_ref kvs (mn + int i) \<noteq> None" if i: "i < width" for i
      proof -
        assume all: "(\<lambda>k. nat (k - mn)) ` fst ` set kvs = {..<width}"
        then have "i \<in> (\<lambda>k. nat (k - mn)) ` fst ` set kvs" using i by simp
        then obtain k where k: "k \<in> fst ` set kvs" "i = nat (k - mn)" by blast
        then have "mn + int i = k" using within by (auto simp: keys_within_def)
        moreover from k(1) have "group_refs kvs k \<noteq> []" by (simp add: group_refs_eq_Nil)
        ultimately show ?thesis using unique_ref_groups [OF unique, of k] by (metis option.map_disc_iff some_nonempty_eq_None)
      qed
      with pop len have "\<And>i. i < length (map pop_ref dense) \<Longrightarrow> map pop_ref dense ! i \<noteq> None" by (simp del: nth_map)
      from those_all_Some [OF this] obtain rows where "those (map pop_ref dense) = Some rows" "map pop_ref dense = map Some rows" by blast
      with False full holds(2) [of rows] unique show ?thesis by (simp add: finish_dense_i32_def st dense_unique_represents_def)
    next
      case nf: False
      with False holds(1) unique show ?thesis by (simp add: finish_dense_i32_def st dense_unique_represents_def)
    qed
  qed
qed

text \<open>What a build promises to the probe: every index it has represents the keyed rows of the build side.\<close>

definition build_rep ::
    "'row join_engine \<Rightarrow> (data_type list \<Rightarrow> cell option list \<Rightarrow> 'row) \<Rightarrow> hash_build_mode \<Rightarrow> data_type list \<Rightarrow>
     (cell option list \<times> build_row_ref) list \<Rightarrow> 'row hash_join_build \<Rightarrow> bool" where
  "build_rep E img mode types kvs build \<longleftrightarrow>
     (\<forall>d. jb_i32_dense_unique_rows build = Some d \<longrightarrow> types = [Int32] \<and> dense_unique_represents 32 d (retype int_key kvs)) \<and>
     (\<forall>m. jb_i32_unique_rows build = Some m \<longrightarrow> types = [Int32] \<and> maps_represent (Some m, None) (retype int_key kvs)) \<and>
     (\<forall>d. jb_i32_dense_rows build = Some d \<longrightarrow> types = [Int32] \<and> dense_multi_represents d (retype int_key kvs)) \<and>
     (\<forall>m. jb_i32_rows build = Some m \<longrightarrow> types = [Int32] \<and> maps_represent (None, Some m) (retype int_key kvs)) \<and>
     (\<forall>d. jb_i64_dense_unique_rows build = Some d \<longrightarrow> types = [Int64] \<and> dense_unique_represents 64 d (retype int_key kvs)) \<and>
     (\<forall>m. jb_i64_unique_rows build = Some m \<longrightarrow> types = [Int64] \<and> maps_represent (Some m, None) (retype int_key kvs)) \<and>
     (\<forall>m. jb_i64_rows build = Some m \<longrightarrow> types = [Int64] \<and> maps_represent (None, Some m) (retype int_key kvs)) \<and>
     (\<forall>d. jb_i32_pair_dense_unique_rows build = Some d \<longrightarrow> types = [Int32, Int32] \<and> dense_pair_represents d (retype pair_key kvs)) \<and>
     (\<forall>m. jb_i32_pair_unique_rows build = Some m \<longrightarrow> types = [Int32, Int32] \<and> maps_represent (Some m, None) (retype pair_key kvs)) \<and>
     (\<forall>m. jb_i32_pair_rows build = Some m \<longrightarrow> types = [Int32, Int32] \<and> maps_represent (None, Some m) (retype pair_key kvs)) \<and>
     (\<forall>m. jb_string_unique_rows build = Some m \<longrightarrow> types = [Utf8] \<and> maps_represent (Some m, None) (retype string_key kvs)) \<and>
     (\<forall>m. jb_string_rows build = Some m \<longrightarrow> types = [Utf8] \<and> maps_represent (None, Some m) (retype string_key kvs)) \<and>
     (\<forall>ks. jb_i32_key_set build = Some ks \<longrightarrow> types = [Int32] \<and> set ks = fst ` set (retype int_key kvs)) \<and>
     (\<forall>d. jb_i32_dense_key_set build = Some d \<longrightarrow>
        types = [Int32] \<and> (\<forall>k. dense_i32_keys_contains d k \<longleftrightarrow> k \<in> fst ` set (retype int_key kvs)))"

text \<open>The first index the probe finds, and the general maps when it looks at nothing else.\<close>

definition build_complete ::
    "'row join_engine \<Rightarrow> (data_type list \<Rightarrow> cell option list \<Rightarrow> 'row) \<Rightarrow> hash_build_mode \<Rightarrow> data_type list \<Rightarrow>
     (cell option list \<times> build_row_ref) list \<Rightarrow> 'row hash_join_build \<Rightarrow> bool" where
  "build_complete E img mode types kvs build \<longleftrightarrow>
     (if generic_build mode types
      then bloom_covers E (jb_bloom build) (fst ` set (retype (img types) kvs)) \<and>
        (\<forall>k. (case map_of (jb_rows build) k of Some refs \<Rightarrow> Some refs | None \<Rightarrow> map_of (jb_heavy_rows build) k) =
           some_nonempty (group_refs (retype (img types) kvs) k))
      else if mode = BuildFastSemi then jb_i32_key_set build \<noteq> None
      else jb_i32_dense_unique_rows build \<noteq> None \<or> jb_i32_unique_rows build \<noteq> None \<or> jb_i32_dense_rows build \<noteq> None \<or>
        jb_i32_rows build \<noteq> None \<or> jb_i64_unique_rows build \<noteq> None \<or> jb_i64_rows build \<noteq> None \<or>
        jb_i32_pair_dense_unique_rows build \<noteq> None \<or> jb_i32_pair_unique_rows build \<noteq> None \<or> jb_i32_pair_rows build \<noteq> None \<or>
        jb_string_unique_rows build \<noteq> None \<or> jb_string_rows build \<noteq> None)"

lemma split_heavy_get:
  assumes "distinct (map fst rows)" "split_heavy_hitters rows n = (normal, heavy)"
  shows "(case map_of normal k of Some refs \<Rightarrow> Some refs | None \<Rightarrow> map_of heavy k) = map_of rows k"
proof -
  let ?t = "heavy_hitter_threshold n"
  from assms(2) have eqs: "normal = filter (\<lambda>(key, matches). \<not> length matches \<ge> ?t) rows"
    "heavy = filter (\<lambda>(key, matches). length matches \<ge> ?t) rows" by (auto simp: split_heavy_hitters_def Let_def)
  show ?thesis unfolding eqs using assms(1)
  proof (induction rows)
    case (Cons kv rows)
    obtain k' m where kv: "kv = (k', m)" by (cases kv)
    have "map_of (filter P rows) k' = None" for P
      using Cons.prems kv by (auto simp: map_of_eq_None_iff)
    with Cons kv show ?case by (auto split: option.splits)
  qed simp
qed

lemma enumerate_batches: "(i, b) \<in> set (enumerate 0 batches) \<Longrightarrow> b \<in> set batches"
  by (auto simp: in_set_enumerate_eq)

lemma try_dense_i32_rep:
  fixes E :: "'row join_engine"
  assumes ok: "\<forall>batch \<in> set batches. key_batch_ok keys [Int32] batch" and total: "total_build_rows batches < 2 ^ 29" and keys: "keys = [key]"
  shows "\<exists>result. try_build_dense_i32_hash_join_input batches keys collect = Some (Inr result) \<and>
     (case result of
        None \<Rightarrow> True
      | Some build \<Rightarrow>
          jb_batches build = batches \<and> jb_key_types build = [Int32] \<and> jb_all_rows build = (if collect then all_refs batches else []) \<and>
          build_rep E img BuildFastSingleKey [Int32] (keyed_rows keys batches) (build :: 'row hash_join_build) \<and>
          build_complete E img BuildFastSingleKey [Int32] (keyed_rows keys batches) build)"
proof -
  let ?kvs = "retype int_key (keyed_rows keys batches)"
  have ok': "\<forall>(bi, batch) \<in> set (enumerate 0 batches). key_batch_ok [key] [Int32] batch"
    using ok keys enumerate_batches by fast
  have "scan_inv (retype int_key []) (2 ^ 31 - 1, - (2 ^ 31), 0, []) []" by (simp add: scan_inv_def)
  from scan_i32_keys_inv [OF ok' this, of collect] obtain mn mx n all where
    scan: "scan_i32_keys collect key (enumerate 0 batches) (2 ^ 31 - 1, - (2 ^ 31), 0, []) = Some (Inr (Some (mn, mx, n, all)))"
    and inv: "scan_inv ?kvs (mn, mx, n, all) (if collect then all_refs batches else [])"
    unfolding keyed_rows_def all_refs_def keys by auto
  define width where "width = nat (mx - mn + 1)"
  note unfold = try_build_dense_i32_hash_join_input_def keys list.case scan outcome_bind_simps option.case prod.case Let_def
    width_def [symmetric]
  show ?thesis
  proof (cases "n = 0 \<or> width > dense_width_limit (total_build_rows batches)")
    case True
    then have "try_build_dense_i32_hash_join_input batches keys collect = Some (Inr None)" unfolding unfold by simp
    then show ?thesis by (intro exI [of _ None]) simp
  next
    case False
    have "dense_width_limit (total_build_rows batches) \<le> 2 ^ 31" using total by (simp add: dense_width_limit_def u64_sat_def)
    with False have width: "width \<le> 2 ^ 31" by simp
    have within: "keys_within mn width ?kvs" using inv by (auto simp: scan_inv_def keys_within_def width_def)
    have "push_inv mn width (retype int_key []) (replicate width None, False)" by (simp add: push_inv_def unique_groups_def)
    from push_dense_batches [OF ok' this _ width] within obtain st where
      st: "fold_outcome (push_dense_batch key mn) (enumerate 0 batches) (replicate width None, False) = Some (Inr st)"
        "push_inv mn width ?kvs st" by (auto simp: keyed_rows_def keys)
    from finish_dense_i32_represents [OF st(2) within width, of n] inv obtain u m where
      fin: "finish_dense_i32 mn width n st = Some (u, m)" and
      res: "case (u, m) of (Some d, None) \<Rightarrow> dense_unique_represents 32 d ?kvs \<and> dense_min d = mn
        | (None, Some d) \<Rightarrow> dense_multi_represents d ?kvs | _ \<Rightarrow> False" by (auto simp: scan_inv_def)
    from bloom_new_total [of "max (total_build_rows batches) 1"] total obtain bloom where
      bloom: "bloom_new (max (total_build_rows batches) 1) = Some bloom" by auto
    let ?build = "(empty_hash_join_build batches [Int32] all bloom)\<lparr>jb_i32_dense_unique_rows := u, jb_i32_dense_rows := m\<rparr>"
    have "try_build_dense_i32_hash_join_input batches keys collect = Some (Inr (Some ?build))"
      unfolding unfold if_not_P [OF False] st(1) using fin bloom by (simp add: expect_def)
    moreover have "all = (if collect then all_refs batches else [])" using inv by (simp add: scan_inv_def)
    moreover have "build_rep E img BuildFastSingleKey [Int32] (keyed_rows keys batches) ?build"
      using res by (auto simp: build_rep_def empty_hash_join_build_def split: option.splits)
    moreover have "build_complete E img BuildFastSingleKey [Int32] (keyed_rows keys batches) ?build"
      using res by (auto simp: build_complete_def empty_hash_join_build_def generic_build_def split: option.splits)
    ultimately show ?thesis by (intro exI [of _ "Some ?build"]) (simp add: empty_hash_join_build_def)
  qed
qed

text \<open>Pairs: the second pass is the filling of the table with the keyed rows themselves, as long as no pair repeats.\<close>

definition pair_scan_inv :: "((int \<times> int) \<times> build_row_ref) list \<Rightarrow> pair_scan \<Rightarrow> build_row_ref list \<Rightarrow> bool" where
  "pair_scan_inv kvs st refs \<longleftrightarrow>
     (case st of (min_left, max_left, min_right, max_right, n, all_rows) \<Rightarrow>
        (\<forall>(l, r) \<in> fst ` set kvs. min_left \<le> l \<and> l \<le> max_left \<and> min_right \<le> r \<and> r \<le> max_right) \<and>
        n = length kvs \<and> all_rows = refs)"

definition pair_columns_of :: "array list \<Rightarrow> nat \<Rightarrow> int option list \<Rightarrow> int option list \<Rightarrow> bool" where
  "pair_columns_of arrays n left right \<longleftrightarrow>
     (\<forall>row < n. (is_null_at left row \<or> is_null_at right row \<longleftrightarrow> arrays_key arrays row = None) \<and>
        (\<forall>k. arrays_key arrays row = Some k \<longrightarrow> (value_at left row, value_at right row) = pair_key k))"

lemma pair_scan_inv_step:
  assumes "pair_scan_inv kvs (ml, xl, mr, xr, c, all) refs"
  shows "pair_scan_inv (kvs @ [((l, r), ref)]) (min ml l, max xl l, min mr r, max xr r, c + 1, all @ x) (refs @ x)"
proof -
  have "min ml l \<le> a \<and> a \<le> max xl l \<and> min mr r \<le> b \<and> b \<le> max xr r" if "(a, b) \<in> fst ` set (kvs @ [((l, r), ref)])" for a b
  proof (cases "(a, b) = (l, r)")
    case False
    with that have "(a, b) \<in> fst ` set kvs" by auto
    with assms have "ml \<le> a" "a \<le> xl" "mr \<le> b" "b \<le> xr" unfolding pair_scan_inv_def by fastforce+
    then show ?thesis by auto
  qed auto
  with assms show ?thesis unfolding pair_scan_inv_def by auto
qed

lemma scan_pair_loop:
  assumes "pair_columns_of arrays m left right" "n \<le> m" "n \<le> 2 ^ 32" "pair_scan_inv (retype pair_key kvs) st refs"
  shows "\<exists>st'. fold_outcome (scan_pair_row collect left right bi) [0..<n] st = Some (Inr st') \<and>
     pair_scan_inv (retype pair_key (kvs @ keyed_upto arrays bi n)) st' (refs @ (if collect then map (row_ref bi) [0..<n] else []))"
  using assms(2,3)
proof (induction n)
  case (Suc n)
  then obtain st1 where st1: "fold_outcome (scan_pair_row collect left right bi) [0..<n] st = Some (Inr st1)"
    "pair_scan_inv (retype pair_key (kvs @ keyed_upto arrays bi n)) st1 (refs @ (if collect then map (row_ref bi) [0..<n] else []))" by auto
  obtain ml xl mr xr c all where st1_eq: "st1 = (ml, xl, mr, xr, c, all)" by (cases st1)
  have n: "n < m" "n < 2 ^ 32" using Suc.prems by auto
  have step: "fold_outcome (scan_pair_row collect left right bi) [0..<Suc n] st = scan_pair_row collect left right bi n st1"
    using st1(1) by (simp add: fold_outcome_append)
  let ?all = "all @ (if collect then [row_ref bi n] else [])"
  show ?case
  proof (cases "arrays_key arrays n")
    case None
    with assms(1) n(1) have "is_null_at left n \<or> is_null_at right n" by (auto simp: pair_columns_of_def)
    with n(2) have "scan_pair_row collect left right bi n st1 = Some (Inr (ml, xl, mr, xr, c, ?all))"
      by (simp add: scan_pair_row_def st1_eq)
    with None st1(2) show ?thesis unfolding step keyed_upto_Suc st1_eq
      by (intro exI [of _ "(ml, xl, mr, xr, c, ?all)"]) (simp add: pair_scan_inv_def)
  next
    case (Some k)
    obtain l r where lr: "pair_key k = (l, r)" by (cases "pair_key k")
    with assms(1) n(1) Some have "\<not> (is_null_at left n \<or> is_null_at right n)" "value_at left n = l" "value_at right n = r"
      by (auto simp: pair_columns_of_def)
    with n(2) have "scan_pair_row collect left right bi n st1 =
        Some (Inr (min ml l, max xl l, min mr r, max xr r, c + 1, ?all))" by (simp add: scan_pair_row_def st1_eq Let_def)
    moreover have "pair_scan_inv (retype pair_key (kvs @ keyed_upto arrays bi (Suc n))) (min ml l, max xl l, min mr r, max xr r, c + 1, ?all)
        (refs @ (if collect then map (row_ref bi) [0..<Suc n] else []))"
      using pair_scan_inv_step [OF st1(2) [unfolded st1_eq], of l r "row_ref bi n" "if collect then [row_ref bi n] else []"] Some lr
      unfolding keyed_upto_Suc by (simp split: if_splits)
    ultimately show ?thesis unfolding step by blast
  qed
qed (use assms(4) in \<open>simp add: List.map_filter_simps\<close>)

lemma pair_key_columns:
  assumes ok: "key_batch_ok [lk, rk] [Int32, Int32] batch"
  shows "\<exists>a b left right. batch_column batch lk = Some (Inr a) \<and> batch_column batch rk = Some (Inr b) \<and>
     array_type a = Int32 \<and> array_type b = Int32 \<and> key_arrays batch [lk, rk] = Some (Inr [a, b]) \<and>
     downcast_ints Int32 a = Some left \<and> downcast_ints Int32 b = Some right \<and> pair_columns_of [a, b] (batch_rows batch) left right"
proof -
  from key_batch_arrays [OF ok] obtain a b where ab: "key_arrays batch [lk, rk] = Some (Inr [a, b])" "array_type a = Int32"
    "array_ok a" "array_len a = batch_rows batch" "array_type b = Int32" "array_ok b" "array_len b = batch_rows batch"
    by (auto simp: map_eq_Cons_conv)
  from pair_columns [OF ab(3,4,2,6,7,5)] obtain left right where
    cols: "downcast_ints Int32 a = Some left" "downcast_ints Int32 b = Some right" "pair_columns_of [a, b] (batch_rows batch) left right"
    unfolding pair_columns_of_def by blast
  from ab(1) have "map_outcome (batch_column batch) [lk, rk] = Some (Inr [a, b])" by (simp add: key_arrays_def)
  from map_outcome_Inr [OF this] have "batch_column batch lk = Some (Inr a)" "batch_column batch rk = Some (Inr b)"
    by (auto simp: less_Suc_eq)
  with ab cols show ?thesis by blast
qed

lemma batch_column_index:
  "batch_column batch c = Some (Inr a) \<Longrightarrow> \<exists>i. column_index (field_names batch) c = Inr i \<and> vec_get (batch_columns batch) i = Some a"
  by (cases "column_index (field_names batch) c") (auto simp: batch_column_def)

lemma scan_pair_keys_inv:
  assumes "\<forall>(bi, batch) \<in> set numbered. key_batch_ok [lk, rk] [Int32, Int32] batch" "pair_scan_inv (retype pair_key kvs) st refs"
  shows "\<exists>st'. scan_pair_keys collect lk rk numbered st = Some (Inr (Some st')) \<and>
     pair_scan_inv (retype pair_key (kvs @ concat (map (keyed_batch [lk, rk]) numbered))) st'
       (refs @ (if collect then concat (map batch_refs numbered) else []))"
  using assms
proof (induction numbered arbitrary: kvs st refs)
  case (Cons nb numbered)
  obtain bi batch where nb: "nb = (bi, batch)" by (cases nb)
  with Cons.prems(1) have ok: "key_batch_ok [lk, rk] [Int32, Int32] batch" by auto
  from pair_key_columns [OF ok] obtain a b left right where a: "batch_column batch lk = Some (Inr a)" "batch_column batch rk = Some (Inr b)"
    "array_type a = Int32" "array_type b = Int32" "key_arrays batch [lk, rk] = Some (Inr [a, b])" "downcast_ints Int32 a = Some left"
    "downcast_ints Int32 b = Some right" "pair_columns_of [a, b] (batch_rows batch) left right" by blast
  have rows: "batch_rows batch \<le> 2 ^ 32" using ok by (simp add: key_batch_ok_def)
  have eqs: "keyed_batch [lk, rk] nb = keyed_upto [a, b] bi (batch_rows batch)" "batch_refs nb = map (row_ref bi) [0..<batch_rows batch]"
    by (simp_all add: keyed_batch_arrays [OF a(5)] nb batch_refs_def)
  obtain st1 where
    st1: "fold_outcome (scan_pair_row collect left right bi) [0..<batch_rows batch] st = Some (Inr st1)"
    "pair_scan_inv (retype pair_key (kvs @ keyed_batch [lk, rk] nb)) st1 (refs @ (if collect then batch_refs nb else []))"
    unfolding eqs using scan_pair_loop [OF a(8) order_refl rows Cons.prems(2)] by blast
  from Cons.prems(1) have "\<forall>(bi, batch) \<in> set numbered. key_batch_ok [lk, rk] [Int32, Int32] batch" by auto
  from Cons.IH [OF this st1(2)] obtain st' where
    "scan_pair_keys collect lk rk numbered st1 = Some (Inr (Some st'))"
    "pair_scan_inv (retype pair_key ((kvs @ keyed_batch [lk, rk] nb) @ concat (map (keyed_batch [lk, rk]) numbered))) st'
       ((refs @ (if collect then batch_refs nb else [])) @ (if collect then concat (map batch_refs numbered) else []))" by blast
  moreover have "scan_pair_keys collect lk rk (nb # numbered) st = scan_pair_keys collect lk rk numbered st1"
    using batch_column_index [OF a(1)] batch_column_index [OF a(2)] a(3,4,6,7) st1(1) by (auto simp: nb expect_def)
  ultimately show ?case by auto
qed simp

definition pair_filled_with :: "int \<Rightarrow> int \<Rightarrow> nat \<Rightarrow> nat \<Rightarrow> ((int \<times> int) \<times> build_row_ref) list \<Rightarrow> build_row_ref option list \<Rightarrow> bool" where
  "pair_filled_with ml mr lw rw kvs dense \<longleftrightarrow> distinct (map fst kvs) \<and>
     fill_slots (\<lambda>(l, r). Some (dense_i32_pair_index l r ml mr rw)) (map (\<lambda>(key, row). (key, Some row)) kvs)
       (replicate (lw * rw) None) = Some (Some dense)"

lemma fill_slots_append:
  "fill_slots index (kvs @ [(k, c)]) slots =
     (case fill_slots index kvs slots of
        Some (Some slots') \<Rightarrow> fill_slots index [(k, c)] slots'
      | r \<Rightarrow> r)"
  by (induction index kvs slots rule: fill_slots.induct) (auto split: option.splits)

lemma pair_filled_step:
  assumes filled: "pair_filled_with ml mr lw rw kvs dense" and range: "pair_range ml mr lw rw (fst ` set (kvs @ [(k, ref)]))"
    and index: "dense_i32_pair_index (fst k) (snd k) ml mr rw = Some i" and slot: "vec_get dense i = Some None"
  shows "pair_filled_with ml mr lw rw (kvs @ [(k, ref)]) (dense[i := Some ref])"
proof -
  obtain l r where k: "k = (l, r)" by (cases k)
  have range': "pair_range ml mr lw rw (fst ` set kvs)" using range unfolding pair_range_def by auto
  note * = pair_filled [OF range' filled [unfolded pair_filled_with_def, THEN conjunct1] filled [unfolded pair_filled_with_def, THEN conjunct2]]
  have "(l, r) \<notin> fst ` set kvs"
  proof
    assume mem: "(l, r) \<in> fst ` set kvs"
    from *(2) [OF mem] index k have "i = nat (l - ml) * rw + nat (r - mr)" by simp
    with *(3) [OF mem] slot have "map_of kvs (l, r) = None" by (simp add: vec_get_def split: if_splits)
    with mem show False by (simp add: map_of_eq_None_iff)
  qed
  then show ?thesis using filled index slot k
    by (simp add: pair_filled_with_def fill_slots_append vec_get_def split: if_splits)
qed

lemma pair_range_mono: "pair_range ml mr lw rw S \<Longrightarrow> T \<subseteq> S \<Longrightarrow> pair_range ml mr lw rw T"
  unfolding pair_range_def by blast

lemma pair_filled_length:
  "pair_filled_with ml mr lw rw kvs dense \<Longrightarrow> pair_range ml mr lw rw (fst ` set kvs) \<Longrightarrow> length dense = lw * rw"
  unfolding pair_filled_with_def by (blast dest: pair_filled(1))

lemma push_pair_rows_inv:
  assumes "pair_columns_of arrays m left right" "\<forall>row \<in> set rows. row < m \<and> row < 2 ^ 32"
    "pair_filled_with ml mr lw rw (retype pair_key kvs) dense"
    "pair_range ml mr lw rw (fst ` set (retype pair_key
       (kvs @ List.map_filter (\<lambda>r. map_option (\<lambda>k. (k, r)) (arrays_key arrays (ref_row r))) (map (row_ref bi) rows))))"
  shows "\<exists>result. push_pair_rows (pair_row_index left right ml mr rw) bi rows dense = Some (Inr result) \<and>
     (\<forall>dense'. result = Some dense' \<longrightarrow> pair_filled_with ml mr lw rw (retype pair_key
       (kvs @ List.map_filter (\<lambda>r. map_option (\<lambda>k. (k, r)) (arrays_key arrays (ref_row r))) (map (row_ref bi) rows))) dense')"
  using assms(2-4)
proof (induction rows arbitrary: kvs dense)
  case (Cons row rows)
  have row: "row < m" "row < 2 ^ 32" using Cons.prems(1) by auto
  let ?tail = "List.map_filter (\<lambda>r. map_option (\<lambda>k. (k, r)) (arrays_key arrays (ref_row r))) (map (row_ref bi) rows)"
  show ?case
  proof (cases "arrays_key arrays row")
    case None
    with assms(1) row have "pair_row_index left right ml mr rw row = None" by (auto simp: pair_columns_of_def pair_row_index_def)
    with Cons.IH [OF _ Cons.prems(2)] Cons.prems None show ?thesis by (simp add: List.map_filter_simps)
  next
    case (Some k)
    obtain l r where lr: "pair_key k = (l, r)" by (cases "pair_key k")
    with assms(1) row Some have index: "pair_row_index left right ml mr rw row = Some (dense_i32_pair_index l r ml mr rw)"
      by (auto simp: pair_columns_of_def pair_row_index_def)
    have split: "kvs @ List.map_filter (\<lambda>r. map_option (\<lambda>k. (k, r)) (arrays_key arrays (ref_row r))) (map (row_ref bi) (row # rows)) =
        (kvs @ [(k, row_ref bi row)]) @ ?tail" using Some by (simp add: List.map_filter_simps)
    from Cons.prems(3) have range: "pair_range ml mr lw rw (fst ` set (retype pair_key (kvs @ [(k, row_ref bi row)] @ ?tail)))"
      unfolding split by simp
    show ?thesis
    proof (cases "dense_i32_pair_index l r ml mr rw")
      case None
      with index show ?thesis by simp
    next
      case index': (Some i)
      have range1: "pair_range ml mr lw rw (fst ` set (retype pair_key kvs @ [((l, r), row_ref bi row)]))"
        using range by (rule pair_range_mono) (use lr in auto)
      then have "pair_range ml mr lw rw (fst ` set (retype pair_key kvs))" by (rule pair_range_mono) auto
      from pair_filled_length [OF Cons.prems(2) this] have "length dense = lw * rw" .
      moreover have "i < lw * rw" using index' pair_rangeD [OF range1, of l r] by (auto simp: pair_index_eq_Some row_major_less)
      ultimately have get: "vec_get dense i = Some (dense ! i)" by (simp add: vec_get_def)
      show ?thesis
      proof (cases "dense ! i")
        case slot: None
        have "pair_filled_with ml mr lw rw (retype pair_key (kvs @ [(k, row_ref bi row)])) (dense[i := Some (row_ref bi row)])"
          using pair_filled_step [OF Cons.prems(2) range1, of i] index' get slot lr by simp
        from Cons.IH [OF _ this] Cons.prems(1) range obtain result where
          "push_pair_rows (pair_row_index left right ml mr rw) bi rows (dense[i := Some (row_ref bi row)]) = Some (Inr result)"
          "\<forall>dense'. result = Some dense' \<longrightarrow> pair_filled_with ml mr lw rw (retype pair_key ((kvs @ [(k, row_ref bi row)]) @ ?tail)) dense'"
          by auto
        moreover have "push_pair_rows (pair_row_index left right ml mr rw) bi (row # rows) dense =
            push_pair_rows (pair_row_index left right ml mr rw) bi rows (dense[i := Some (row_ref bi row)])"
          using index index' get slot row(2) by (simp add: expect_def)
        ultimately show ?thesis unfolding split by auto
      next
        case (Some taken)
        with index index' get show ?thesis by (simp add: expect_def)
      qed
    qed
  qed
qed (auto simp: List.map_filter_simps)

lemma push_pair_batches_inv:
  assumes "\<forall>(bi, batch) \<in> set numbered. key_batch_ok [lk, rk] [Int32, Int32] batch"
    "pair_filled_with ml mr lw rw (retype pair_key kvs) dense"
    "pair_range ml mr lw rw (fst ` set (retype pair_key (kvs @ concat (map (keyed_batch [lk, rk]) numbered))))"
  shows "\<exists>result. push_pair_batches lk rk ml mr rw numbered dense = Some (Inr result) \<and>
     (\<forall>dense'. result = Some dense' \<longrightarrow>
        pair_filled_with ml mr lw rw (retype pair_key (kvs @ concat (map (keyed_batch [lk, rk]) numbered))) dense')"
  using assms
proof (induction numbered arbitrary: kvs dense)
  case (Cons nb numbered)
  obtain bi batch where nb: "nb = (bi, batch)" by (cases nb)
  with Cons.prems(1) have ok: "key_batch_ok [lk, rk] [Int32, Int32] batch" by auto
  from pair_key_columns [OF ok] obtain a b left right where a: "batch_column batch lk = Some (Inr a)" "batch_column batch rk = Some (Inr b)"
    "key_arrays batch [lk, rk] = Some (Inr [a, b])" "downcast_ints Int32 a = Some left"
    "downcast_ints Int32 b = Some right" "pair_columns_of [a, b] (batch_rows batch) left right" by blast
  have rows: "\<forall>row \<in> set [0..<batch_rows batch]. row < batch_rows batch \<and> row < 2 ^ 32" using ok by (simp add: key_batch_ok_def)
  have eqs: "keyed_batch [lk, rk] nb = keyed_upto [a, b] bi (batch_rows batch)" by (simp add: keyed_batch_arrays [OF a(3)] nb)
  have "pair_range ml mr lw rw (fst ` set (retype pair_key (kvs @ keyed_batch [lk, rk] nb)))"
    using Cons.prems(3) by (rule pair_range_mono) auto
  from push_pair_rows_inv [OF a(6) rows Cons.prems(2) this [unfolded eqs]] obtain result where
    result: "push_pair_rows (pair_row_index left right ml mr rw) bi [0..<batch_rows batch] dense = Some (Inr result)"
    "\<And>d. result = Some d \<Longrightarrow> pair_filled_with ml mr lw rw (retype pair_key (kvs @ keyed_batch [lk, rk] nb)) d"
    unfolding eqs by auto
  have step: "push_pair_batches lk rk ml mr rw (nb # numbered) dense =
      (case result of None \<Rightarrow> Some (Inr None) | Some d \<Rightarrow> push_pair_batches lk rk ml mr rw numbered d)"
    using a(1,2,4,5) result(1) by (simp add: nb expect_def)
  show ?case
  proof (cases result)
    case None
    with step show ?thesis by simp
  next
    case (Some d)
    from Cons.prems(1,3) have "\<forall>(bi, batch) \<in> set numbered. key_batch_ok [lk, rk] [Int32, Int32] batch"
      "pair_range ml mr lw rw (fst ` set (retype pair_key ((kvs @ keyed_batch [lk, rk] nb) @ concat (map (keyed_batch [lk, rk]) numbered))))"
      by auto
    from Cons.IH [OF this(1) result(2) [OF Some] this(2)] step Some show ?thesis by simp
  qed
qed simp

lemma try_dense_pair_rep:
  fixes E :: "'row join_engine"
  assumes ok: "\<forall>batch \<in> set batches. key_batch_ok keys [Int32, Int32] batch" and total: "total_build_rows batches < 2 ^ 29"
    and keys: "keys = [lk, rk]"
  shows "\<exists>result. try_build_dense_i32_pair_hash_join_input batches keys collect = Some (Inr result) \<and>
     (case result of
        None \<Rightarrow> True
      | Some build \<Rightarrow>
          jb_batches build = batches \<and> jb_key_types build = [Int32, Int32] \<and> jb_all_rows build = (if collect then all_refs batches else []) \<and>
          jb_i32_dense_unique_rows build = None \<and>
          build_rep E img BuildFastSingleKey [Int32, Int32] (keyed_rows keys batches) (build :: 'row hash_join_build) \<and>
          build_complete E img BuildFastSingleKey [Int32, Int32] (keyed_rows keys batches) build)"
proof -
  let ?kvs = "retype pair_key (keyed_rows keys batches)"
  have ok': "\<forall>(bi, batch) \<in> set (enumerate 0 batches). key_batch_ok [lk, rk] [Int32, Int32] batch"
    using ok keys enumerate_batches by fast
  have "pair_scan_inv (retype pair_key []) (2 ^ 31 - 1, - (2 ^ 31), 2 ^ 31 - 1, - (2 ^ 31), 0, []) []" by (simp add: pair_scan_inv_def)
  from scan_pair_keys_inv [OF ok' this, of collect] obtain ml xl mr xr n all where
    scan: "scan_pair_keys collect lk rk (enumerate 0 batches) (2 ^ 31 - 1, - (2 ^ 31), 2 ^ 31 - 1, - (2 ^ 31), 0, []) =
      Some (Inr (Some (ml, xl, mr, xr, n, all)))"
    and inv: "pair_scan_inv ?kvs (ml, xl, mr, xr, n, all) (if collect then all_refs batches else [])"
    unfolding keyed_rows_def all_refs_def keys by auto
  define lw where "lw = nat (xl - ml + 1)"
  define rw where "rw = nat (xr - mr + 1)"
  note unfold = try_build_dense_i32_pair_hash_join_input_def keys list.case scan outcome_bind_simps option.case prod.case Let_def
    lw_def [symmetric] rw_def [symmetric]
  show ?thesis
  proof (cases "n = 0 \<or> usize_checked (lw * rw) = None \<or> lw * rw > dense_width_limit (total_build_rows batches)")
    case True
    then have "try_build_dense_i32_pair_hash_join_input batches keys collect = Some (Inr None)"
      unfolding unfold by (auto simp: usize_checked_def)
    then show ?thesis by (intro exI [of _ None]) simp
  next
    case False
    then have width: "n \<noteq> 0" "usize_checked (lw * rw) = Some (lw * rw)" "\<not> lw * rw > dense_width_limit (total_build_rows batches)"
      by (auto simp: usize_checked_def split: if_splits)
    have range: "pair_range ml mr lw rw (fst ` set ?kvs)"
      using inv by (fastforce simp: pair_scan_inv_def pair_range_def lw_def rw_def)
    have "pair_filled_with ml mr lw rw (retype pair_key []) (replicate (lw * rw) None)" by (simp add: pair_filled_with_def)
    from push_pair_batches_inv [OF ok' this] range obtain result where
      pushed: "push_pair_batches lk rk ml mr rw (enumerate 0 batches) (replicate (lw * rw) None) = Some (Inr result)"
      "\<And>d. result = Some d \<Longrightarrow> pair_filled_with ml mr lw rw ?kvs d" unfolding keyed_rows_def keys by auto
    from bloom_new_total [of "max (total_build_rows batches) 1"] total obtain bloom where
      bloom: "bloom_new (max (total_build_rows batches) 1) = Some bloom" by auto
    have n: "n = length ?kvs" and all: "all = (if collect then all_refs batches else [])" using inv by (simp_all add: pair_scan_inv_def)
    show ?thesis
    proof (cases result)
      case None
      then have "try_build_dense_i32_pair_hash_join_input batches keys collect = Some (Inr None)"
        unfolding unfold width(2) pushed(1) using width by (simp add: finish_dense_pair_def expect_def)
      then show ?thesis by (intro exI [of _ None]) simp
    next
      case (Some dense)
      from pushed(2) [OF Some] have dist: "distinct (map fst ?kvs)" and fill:
        "fill_slots (\<lambda>(l, r). Some (dense_i32_pair_index l r ml mr rw)) (map (\<lambda>(key, row). (key, Some row)) ?kvs)
          (replicate (lw * rw) None) = Some (Some dense)" by (auto simp: pair_filled_with_def)
      from pair_table_total [OF range dist fill] n have "finish_dense_pair ml mr rw (lw * rw = n) (Some dense) \<noteq> None" by simp
      then obtain d where d: "finish_dense_pair ml mr rw (lw * rw = n) (Some dense) = Some (Some d)"
        by (auto simp: finish_dense_pair_def split: if_splits)
      have rep: "dense_pair_represents d ?kvs"
        using pair_table_get [OF range dist fill d] distinct_unique_ref [OF dist] by (simp add: dense_pair_represents_def)
      let ?build = "(empty_hash_join_build batches [Int32, Int32] all bloom)\<lparr>jb_i32_pair_dense_unique_rows := Some d\<rparr>"
      have "try_build_dense_i32_pair_hash_join_input batches keys collect = Some (Inr (Some ?build))"
        unfolding unfold width(2) pushed(1) Some d using width bloom by (simp add: expect_def)
      moreover have "build_rep E img BuildFastSingleKey [Int32, Int32] (keyed_rows keys batches) ?build"
        using rep by (simp add: build_rep_def empty_hash_join_build_def)
      moreover have "build_complete E img BuildFastSingleKey [Int32, Int32] (keyed_rows keys batches) ?build"
        by (simp add: build_complete_def empty_hash_join_build_def generic_build_def)
      ultimately show ?thesis using all by (intro exI [of _ "Some ?build"]) (simp add: empty_hash_join_build_def)
    qed
  qed
qed

subsection \<open>Every build succeeds and represents its rows\<close>

lemma maps_state_cases:
  assumes "maps_state started f kvs maps"
  obtains "\<not> started" "maps = (None, None)"
    | u where "started" "maps = (Some u, None)" "maps_represent (Some u, None) (retype f kvs)" "distinct (map fst u)"
    | m where "started" "maps = (None, Some m)" "maps_represent (None, Some m) (retype f kvs)" "distinct (map fst m)"
  using assms unfolding maps_state_def maps_represent_def by (auto split: if_splits option.splits prod.splits)

lemma densify_i32:
  assumes "maps_state started int_key kvs maps" "n < 2 ^ 29"
  shows "\<exists>du dm. and_then_dense dense_i32_build_rows (fst maps) n = Some (Inr du) \<and>
     and_then_dense dense_i32_multi_build_rows (snd maps) n = Some (Inr dm) \<and>
     (\<forall>d. du = Some d \<longrightarrow> started \<and> dense_unique_represents 32 d (retype int_key kvs)) \<and>
     (\<forall>d. dm = Some d \<longrightarrow> started \<and> dense_multi_represents d (retype int_key kvs))"
  using assms(1)
proof (cases rule: maps_state_cases)
  case 1
  then show ?thesis by (simp add: and_then_dense_def)
next
  case (2 u)
  from dense_i32_table_total [OF 2(4) assms(2)] obtain du where "dense_i32_build_rows u n = Some du"
    by (auto simp: dense_i32_build_rows_def)
  with 2 dense_i32_build_rows_represents [OF 2(3)] show ?thesis by (auto simp: and_then_dense_def)
next
  case (3 m)
  from dense_i32_table_total [OF 3(4) assms(2)] obtain dm where "dense_i32_multi_build_rows m n = Some dm"
    by (auto simp: dense_i32_multi_build_rows_def)
  with 3 dense_i32_multi_build_rows_represents [OF 3(3)] show ?thesis by (auto simp: and_then_dense_def)
qed

lemma densify_i64:
  assumes "maps_state started int_key kvs maps"
  shows "\<exists>du. and_then_dense dense_i64_build_rows (fst maps) n = Some (Inr du) \<and>
     (\<forall>d. du = Some d \<longrightarrow> started \<and> dense_unique_represents 64 d (retype int_key kvs))"
  using assms
proof (cases rule: maps_state_cases)
  case (2 u)
  from dense_i64_build_rows_total [OF 2(4), of n] obtain du where "dense_i64_build_rows u n = Some du" by auto
  with 2 dense_i64_build_rows_represents [OF 2(3)] show ?thesis by (auto simp: and_then_dense_def)
qed (simp_all add: and_then_dense_def)

lemma densify_pair:
  assumes "maps_state started pair_key kvs maps"
  shows "\<exists>du. and_then_dense dense_i32_pair_build_rows (fst maps) n = Some (Inr du) \<and>
     (\<forall>d. du = Some d \<longrightarrow> started \<and> dense_pair_represents d (retype pair_key kvs))"
  using assms
proof (cases rule: maps_state_cases)
  case (2 u)
  from dense_i32_pair_build_rows_total [OF 2(4), of n] obtain du where "dense_i32_pair_build_rows u n = Some du" by auto
  with 2 dense_i32_pair_build_rows_represents [OF 2(3)] show ?thesis by (auto simp: and_then_dense_def)
qed (simp_all add: and_then_dense_def)

lemma densify_key_set:
  assumes "\<forall>ks. key_set = Some ks \<longrightarrow> distinct ks \<and> set ks = S" "n < 2 ^ 29"
  shows "\<exists>dk. and_then_dense dense_i32_key_set key_set n = Some (Inr dk) \<and>
     (\<forall>d. dk = Some d \<longrightarrow> key_set \<noteq> None \<and> (\<forall>k. dense_i32_keys_contains d k \<longleftrightarrow> k \<in> S))"
proof (cases key_set)
  case (Some ks)
  from dense_i32_key_set_total [OF assms(2), of ks] obtain dk where "dense_i32_key_set ks n = Some dk" by auto
  with Some assms(1) dense_i32_key_set_correct [of ks n] show ?thesis by (auto simp: and_then_dense_def)
qed (simp add: and_then_dense_def)

lemma maps_state_fst: "maps_state started f kvs maps \<Longrightarrow> fst maps = Some u \<Longrightarrow> started \<and> maps_represent (Some u, None) (retype f kvs)"
  by (erule maps_state_cases) auto

lemma maps_state_snd: "maps_state started f kvs maps \<Longrightarrow> snd maps = Some m \<Longrightarrow> started \<and> maps_represent (None, Some m) (retype f kvs)"
  by (erule maps_state_cases) auto

lemma maps_state_some: "maps_state started f kvs maps \<Longrightarrow> started \<Longrightarrow> fst maps \<noteq> None \<or> snd maps \<noteq> None"
  by (erule maps_state_cases) auto

lemma finish_build_rep:
  fixes st :: "'row build_state"
  assumes rep: "state_rep E img mode types kvs st" and total: "total_build_rows batches < 2 ^ 29"
  shows "\<exists>build. finish_hash_join_build batches types st = Some (Inr build) \<and> jb_batches build = batches \<and> jb_key_types build = types \<and>
     jb_all_rows build = bs_all_rows st \<and> build_rep E img mode types kvs build \<and> build_complete E img mode types kvs build"
proof -
  let ?n = "total_build_rows batches"
  from rep have maps: "maps_state (types = [Int32] \<and> mode \<noteq> BuildFastSemi) int_key kvs (bs_i32 st)"
    "maps_state (types = [Int64]) int_key kvs (bs_i64 st)" "maps_state (types = [Int32, Int32]) pair_key kvs (bs_pair st)"
    "maps_state (types = [Utf8]) string_key kvs (bs_string st)" by (simp_all add: state_rep_def)
  have ks: "\<forall>ks. bs_key_set st = Some ks \<longrightarrow> distinct ks \<and> set ks = fst ` set (retype int_key kvs)"
    and ks_types: "bs_key_set st \<noteq> None \<longleftrightarrow> mode = BuildFastSemi \<and> types = [Int32]"
  proof -
    have "if mode = BuildFastSemi \<and> types = [Int32]
      then \<exists>ks. bs_key_set st = Some ks \<and> distinct ks \<and> set ks = fst ` set (retype int_key kvs) else bs_key_set st = None"
      using rep unfolding state_rep_def by blast
    then show "\<forall>ks. bs_key_set st = Some ks \<longrightarrow> distinct ks \<and> set ks = fst ` set (retype int_key kvs)"
      "bs_key_set st \<noteq> None \<longleftrightarrow> mode = BuildFastSemi \<and> types = [Int32]" by (cases "mode = BuildFastSemi \<and> types = [Int32]"; force)+
  qed
  from densify_i32 [OF maps(1) total] obtain du dm where i32:
    "and_then_dense dense_i32_build_rows (fst (bs_i32 st)) ?n = Some (Inr du)"
    "and_then_dense dense_i32_multi_build_rows (snd (bs_i32 st)) ?n = Some (Inr dm)"
    "\<forall>d. du = Some d \<longrightarrow> types = [Int32] \<and> dense_unique_represents 32 d (retype int_key kvs)"
    "\<forall>d. dm = Some d \<longrightarrow> types = [Int32] \<and> dense_multi_represents d (retype int_key kvs)" by blast
  from densify_i64 [OF maps(2), of ?n] obtain dl where i64: "and_then_dense dense_i64_build_rows (fst (bs_i64 st)) ?n = Some (Inr dl)"
    "\<forall>d. dl = Some d \<longrightarrow> types = [Int64] \<and> dense_unique_represents 64 d (retype int_key kvs)" by blast
  from densify_pair [OF maps(3), of ?n] obtain dp where pair: "and_then_dense dense_i32_pair_build_rows (fst (bs_pair st)) ?n = Some (Inr dp)"
    "\<forall>d. dp = Some d \<longrightarrow> types = [Int32, Int32] \<and> dense_pair_represents d (retype pair_key kvs)" by blast
  from densify_key_set [OF ks total] obtain dk where keyset: "and_then_dense dense_i32_key_set (bs_key_set st) ?n = Some (Inr dk)"
    "\<forall>d. dk = Some d \<longrightarrow> bs_key_set st \<noteq> None \<and> (\<forall>k. dense_i32_keys_contains d k \<longleftrightarrow> k \<in> fst ` set (retype int_key kvs))" by blast
  obtain normal heavy where split: "split_heavy_hitters (bs_rows st) ?n = (normal, heavy)" by fastforce
  define build where "build = \<lparr>jb_batches = batches, jb_key_types = types, jb_all_rows = bs_all_rows st, jb_rows = normal, jb_heavy_rows = heavy,
    jb_i32_rows = snd (bs_i32 st), jb_i32_dense_rows = dm, jb_i32_unique_rows = fst (bs_i32 st),
    jb_i32_dense_unique_rows = du, jb_i32_key_set = bs_key_set st,
    jb_i32_dense_key_set = dk, jb_i32_pair_rows = snd (bs_pair st),
    jb_i32_pair_unique_rows = fst (bs_pair st), jb_i32_pair_dense_unique_rows = dp,
    jb_string_rows = snd (bs_string st), jb_string_unique_rows = fst (bs_string st), jb_i64_rows = snd (bs_i64 st),
    jb_i64_unique_rows = fst (bs_i64 st), jb_i64_dense_unique_rows = dl, jb_bloom = bs_bloom st\<rparr>"
  have "finish_hash_join_build batches types st = Some (Inr build)"
    by (simp add: finish_hash_join_build_def i32(1,2) i64(1) pair(1) keyset(1) split build_def)
  moreover have "build_rep E img mode types kvs build"
    unfolding build_rep_def using i32(3,4) i64(2) pair(2) keyset(2) ks ks_types maps_state_fst [OF maps(1)] maps_state_snd [OF maps(1)]
      maps_state_fst [OF maps(2)] maps_state_snd [OF maps(2)] maps_state_fst [OF maps(3)] maps_state_snd [OF maps(3)]
      maps_state_fst [OF maps(4)] maps_state_snd [OF maps(4)]
    by (simp add: build_def)
  moreover have "build_complete E img mode types kvs build"
  proof (cases "generic_build mode types")
    case True
    with rep have gen: "maps_represent (None, Some (bs_rows st)) (retype (img types) kvs)"
      "bloom_covers E (bs_bloom st) (fst ` set (retype (img types) kvs))" by (simp_all add: state_rep_def)
    then have "distinct (map fst (bs_rows st))" "\<And>k. map_of (bs_rows st) k = some_nonempty (group_refs (retype (img types) kvs) k)"
      by (simp_all add: maps_represent_def maps_get_def)
    moreover have sel: "jb_rows build = normal" "jb_heavy_rows build = heavy" "jb_bloom build = bs_bloom st" by (simp_all add: build_def)
    ultimately show ?thesis using split_heavy_get [OF _ split] gen(2) unfolding build_complete_def if_P [OF True] sel by simp
  next
    case False
    then consider (semi) "mode = BuildFastSemi" "types = [Int32]" | (fast) "mode = BuildFastSingleKey" "types \<in> {[Int32], [Int64], [Int32, Int32], [Utf8]}"
      by (auto simp: generic_build_def)
    then show ?thesis
    proof cases
      case semi
      with False ks_types show ?thesis by (simp add: build_complete_def build_def)
    next
      case fast
      with False maps_state_some [OF maps(1)] maps_state_some [OF maps(2)] maps_state_some [OF maps(3)] maps_state_some [OF maps(4)]
      show ?thesis by (auto simp: build_complete_def build_def)
    qed
  qed
  ultimately show ?thesis by (auto simp: build_def)
qed

text \<open>The build of the in-memory hash join.\<close>

definition join_side_ok :: "string list \<Rightarrow> data_type list \<Rightarrow> record_batch list \<Rightarrow> bool" where
  "join_side_ok keys types batches \<longleftrightarrow> (\<forall>batch \<in> set batches. key_batch_ok keys types batch)"

lemma build_hash_join_input_rep:
  fixes E :: "'row join_engine"
  assumes engine: "row_format_ok E img" and ok: "join_side_ok keys types batches" "batches \<noteq> []"
    and total: "total_build_rows batches < 2 ^ 29" and collect: "\<not> (collect \<and> mode = BuildFastSemi)"
  shows "\<exists>build. build_hash_join_input E batches keys mode collect = Some (Inr build) \<and> jb_batches build = batches \<and>
     jb_key_types build = types \<and> jb_all_rows build = (if collect then all_refs batches else []) \<and>
     build_rep E img mode types (keyed_rows keys batches) build \<and> build_complete E img mode types (keyed_rows keys batches) build"
proof -
  have batches: "\<forall>batch \<in> set batches. key_batch_ok keys types batch" using ok(1) by (simp add: join_side_ok_def)
  obtain b0 rest where b0: "batches = b0 # rest" using ok(2) by (cases batches) auto
  with batches have "key_batch_ok keys types b0" by simp
  from key_batch_arrays [OF this] obtain arrays where arrays: "key_arrays b0 keys = Some (Inr arrays)" "map array_type arrays = types" by blast
  have len: "length keys = length types"
    using key_arrays_ok [OF _ arrays(1)] arrays(2) \<open>key_batch_ok keys types b0\<close> by (auto simp: key_batch_ok_def)
  have types: "outcome_bind (expect (vec_get batches 0)) (\<lambda>batch. key_data_types batch keys) = Some (Inr types)"
    using arrays by (simp add: b0 vec_get_def expect_def key_data_types_def)
  from bloom_new_total [of "max (total_build_rows batches) 1"] total obtain bloom where
    bloom: "bloom_new (max (total_build_rows batches) 1) = Some bloom" by auto
  have numbered: "\<forall>(bi, batch) \<in> set (enumerate 0 batches). key_batch_ok keys types batch"
    using batches enumerate_batches by fast
  have "\<not> (collect \<and> mode = BuildFastSemi \<and> types = [Int32])" using collect by blast
  from build_batches_rep [OF engine numbered initial_state_rep [OF bloom] this] obtain st where
    st: "fold_outcome (build_batch E mode collect keys types) (enumerate 0 batches) (initial_build_state mode types bloom) = Some (Inr st)"
    "state_rep E img mode types (keyed_rows keys batches) st" "bs_all_rows st = (if collect then all_refs batches else [])"
    by (auto simp: keyed_rows_def all_refs_def initial_build_state_def Let_def)
  from finish_build_rep [OF st(2) total] obtain build where
    build: "finish_hash_join_build batches types st = Some (Inr build)" "jb_batches build = batches" "jb_key_types build = types"
      "jb_all_rows build = (if collect then all_refs batches else [])"
      "build_rep E img mode types (keyed_rows keys batches) build" "build_complete E img mode types (keyed_rows keys batches) build"
    unfolding st(3) by blast
  have slow: "outcome_bind (expect (bloom_new (max (total_build_rows batches) 1))) (\<lambda>bloom.
       outcome_bind (fold_outcome (build_batch E mode collect keys types) (enumerate 0 batches)
         (initial_build_state mode types bloom)) (finish_hash_join_build batches types)) = Some (Inr build)"
    unfolding bloom by (simp add: expect_def st(1) build(1))
  consider (i32) "mode = BuildFastSingleKey" "types = [Int32]" | (pair) "mode = BuildFastSingleKey" "types = [Int32, Int32]"
    | (other) "\<not> (mode = BuildFastSingleKey \<and> types = [Int32])" "\<not> (mode = BuildFastSingleKey \<and> types = [Int32, Int32])" by blast
  then show ?thesis
  proof cases
    case i32
    with len obtain key where key: "keys = [key]" by (auto simp: length_Suc_conv)
    from try_dense_i32_rep [OF batches [unfolded i32(2)] total key, of collect E img] obtain result where
      dense: "try_build_dense_i32_hash_join_input batches keys collect = Some (Inr result)"
      "case result of None \<Rightarrow> True | Some build \<Rightarrow> jb_batches build = batches \<and> jb_key_types build = [Int32] \<and>
         jb_all_rows build = (if collect then all_refs batches else []) \<and>
         build_rep E img BuildFastSingleKey [Int32] (keyed_rows keys batches) build \<and>
         build_complete E img BuildFastSingleKey [Int32] (keyed_rows keys batches) build" by blast
    show ?thesis
    proof (cases result)
      case None
      then have "build_hash_join_input E batches keys mode collect = Some (Inr build)"
        unfolding build_hash_join_input_def types outcome_bind_simps using slow dense(1) i32 by simp
      with build show ?thesis by blast
    next
      case (Some b)
      then have "build_hash_join_input E batches keys mode collect = Some (Inr b)"
        unfolding build_hash_join_input_def types outcome_bind_simps using dense(1) i32 by simp
      with dense(2) Some i32 show ?thesis by (intro exI [of _ b]) simp
    qed
  next
    case pair
    with len obtain lk rk where key: "keys = [lk, rk]" by (auto simp: length_Suc_conv)
    from try_dense_pair_rep [OF batches [unfolded pair(2)] total key, of collect E img] obtain result where
      dense: "try_build_dense_i32_pair_hash_join_input batches keys collect = Some (Inr result)"
      "case result of None \<Rightarrow> True | Some build \<Rightarrow> jb_batches build = batches \<and> jb_key_types build = [Int32, Int32] \<and>
         jb_all_rows build = (if collect then all_refs batches else []) \<and> jb_i32_dense_unique_rows build = None \<and>
         build_rep E img BuildFastSingleKey [Int32, Int32] (keyed_rows keys batches) build \<and>
         build_complete E img BuildFastSingleKey [Int32, Int32] (keyed_rows keys batches) build" by blast
    show ?thesis
    proof (cases result)
      case None
      then have "build_hash_join_input E batches keys mode collect = Some (Inr build)"
        unfolding build_hash_join_input_def types outcome_bind_simps using slow dense(1) pair by simp
      with build show ?thesis by blast
    next
      case (Some b)
      then have "build_hash_join_input E batches keys mode collect = Some (Inr b)"
        unfolding build_hash_join_input_def types outcome_bind_simps using dense(1) pair by simp
      with dense(2) Some pair show ?thesis by (intro exI [of _ b]) simp
    qed
  next
    case other
    then have "build_hash_join_input E batches keys mode collect = Some (Inr build)"
      unfolding build_hash_join_input_def types outcome_bind_simps if_not_P [OF other(1)] if_not_P [OF other(2)] option.case
      by (intro slow)
    with build show ?thesis by blast
  qed
qed

end
