(* ===== verification/Join_Probe.thy ===== *)
theory Join_Probe
  imports Join_Build
begin

text \<open>
  The probe side of the hash join in \<open>execution/physical.rs\<close>: one loop per kind of index the build side may have,
  the choice between them, the rows of the build side that found no match, and the stream that joins its inputs.

  A loop collects row numbers and references and turns them into an output batch when it has collected a chunk.  What
  a loop asks for is a \<open>join_piece\<close>; how a piece becomes a record batch is the argument \<open>ctx_materialize\<close> of the
  context, and is modelled in a theory of its own.
\<close>

subsection \<open>Output\<close>

datatype join_piece =
    PiecePairs "nat list" "build_row_ref list"
  | PieceSemi "nat list"
  | PieceUnmatchedProbe "nat list"
  | PieceUnmatchedProbeRow nat
  | PieceUnmatchedBuild "build_row_ref list"

record 'b probe_context =
  ctx_build_side :: join_build_side
  ctx_materialize :: "join_piece \<Rightarrow> 'b outcome"

record ('row, 'b) probe_state =
  ps_probe_indices :: "nat list"
  ps_build_refs :: "build_row_ref list"
  ps_semi_indices :: "nat list"
  ps_unmatched_indices :: "nat list"
  ps_output :: "'b list"
  ps_tracker :: "matched_build_tracker option"
  ps_matched_keys :: "'row set option"

definition initial_probe_state :: "matched_build_tracker option \<Rightarrow> 'row set option \<Rightarrow> ('row, 'b) probe_state" where
  "initial_probe_state tracker matched_keys =
     \<lparr>ps_probe_indices = [], ps_build_refs = [], ps_semi_indices = [], ps_unmatched_indices = [], ps_output = [],
      ps_tracker = tracker, ps_matched_keys = matched_keys\<rparr>"

definition join_output_chunk_rows :: nat where
  "join_output_chunk_rows = 8192"

definition emit_piece :: "'b probe_context \<Rightarrow> join_piece \<Rightarrow> ('row, 'b) probe_state \<Rightarrow> ('row, 'b) probe_state outcome" where
  "emit_piece ctx piece st =
     outcome_bind (ctx_materialize ctx piece) (\<lambda>batch. Some (Inr (st\<lparr>ps_output := ps_output st @ [batch]\<rparr>)))"

definition flush_pairs :: "'b probe_context \<Rightarrow> ('row, 'b) probe_state \<Rightarrow> ('row, 'b) probe_state outcome" where
  "flush_pairs ctx st =
     outcome_bind (emit_piece ctx (PiecePairs (ps_probe_indices st) (ps_build_refs st)) st) (\<lambda>st1.
       Some (Inr (st1\<lparr>ps_probe_indices := [], ps_build_refs := []\<rparr>)))"

definition flush_semi :: "'b probe_context \<Rightarrow> ('row, 'b) probe_state \<Rightarrow> ('row, 'b) probe_state outcome" where
  "flush_semi ctx st =
     outcome_bind (emit_piece ctx (PieceSemi (ps_semi_indices st)) st) (\<lambda>st1. Some (Inr (st1\<lparr>ps_semi_indices := []\<rparr>)))"

definition flush_unmatched :: "'b probe_context \<Rightarrow> ('row, 'b) probe_state \<Rightarrow> ('row, 'b) probe_state outcome" where
  "flush_unmatched ctx st =
     outcome_bind (emit_piece ctx (PieceUnmatchedProbe (ps_unmatched_indices st)) st) (\<lambda>st1.
       Some (Inr (st1\<lparr>ps_unmatched_indices := []\<rparr>)))"

definition push_hash_join_pair ::
    "'b probe_context \<Rightarrow> nat \<Rightarrow> build_row_ref \<Rightarrow> ('row, 'b) probe_state \<Rightarrow> ('row, 'b) probe_state outcome" where
  "push_hash_join_pair ctx probe_row build_ref st =
     (let st1 = st\<lparr>ps_probe_indices := ps_probe_indices st @ [probe_row], ps_build_refs := ps_build_refs st @ [build_ref]\<rparr>
      in if length (ps_probe_indices st1) \<ge> join_output_chunk_rows then flush_pairs ctx st1 else Some (Inr st1))"

definition push_hash_join_matches ::
    "'b probe_context \<Rightarrow> nat \<Rightarrow> build_row_ref list \<Rightarrow> ('row, 'b) probe_state \<Rightarrow> ('row, 'b) probe_state outcome" where
  "push_hash_join_matches ctx probe_row matches = fold_outcome (push_hash_join_pair ctx probe_row) matches"

definition semi_build_side_error :: "'a outcome" where
  "semi_build_side_error = unsupported ''SEMI JOIN currently expects the right side as hash build input''"

definition push_semi_index :: "'b probe_context \<Rightarrow> nat \<Rightarrow> ('row, 'b) probe_state \<Rightarrow> ('row, 'b) probe_state outcome" where
  "push_semi_index ctx probe_row st =
     (let st1 = st\<lparr>ps_semi_indices := ps_semi_indices st @ [probe_row]\<rparr>
      in if length (ps_semi_indices st1) \<ge> join_output_chunk_rows then flush_semi ctx st1 else Some (Inr st1))"

definition push_semi_join_match ::
    "'b probe_context \<Rightarrow> nat \<Rightarrow> ('row, 'b) probe_state \<Rightarrow> ('row, 'b) probe_state outcome" where
  "push_semi_join_match ctx probe_row st =
     (if ctx_build_side ctx \<noteq> BuildRight then semi_build_side_error else push_semi_index ctx probe_row st)"

definition emits_unmatched_probe :: "join_type \<Rightarrow> join_build_side \<Rightarrow> bool" where
  "emits_unmatched_probe join_type build_side \<longleftrightarrow>
     join_type = JoinLeft \<and> build_side = BuildRight \<or> join_type = JoinRight \<and> build_side = BuildLeft \<or> join_type = JoinFull"

definition too_many_outer_rows :: "'a outcome" where
  "too_many_outer_rows = unsupported ''outer hash join currently supports up to u32::MAX rows per batch''"

definition push_unmatched_probe_match ::
    "'b probe_context \<Rightarrow> join_type \<Rightarrow> nat \<Rightarrow> ('row, 'b) probe_state \<Rightarrow> ('row, 'b) probe_state outcome" where
  "push_unmatched_probe_match ctx join_type probe_row st =
     (if \<not> emits_unmatched_probe join_type (ctx_build_side ctx) then Some (Inr st)
      else if probe_row \<ge> 2 ^ 32 then too_many_outer_rows
      else let st1 = st\<lparr>ps_unmatched_indices := ps_unmatched_indices st @ [probe_row]\<rparr>
           in if length (ps_unmatched_indices st1) \<ge> join_output_chunk_rows then flush_unmatched ctx st1 else Some (Inr st1))"

definition push_unmatched_probe_if_outer ::
    "'b probe_context \<Rightarrow> join_type \<Rightarrow> nat \<Rightarrow> ('row, 'b) probe_state \<Rightarrow> ('row, 'b) probe_state outcome" where
  "push_unmatched_probe_if_outer ctx join_type probe_row st =
     (if \<not> emits_unmatched_probe join_type (ctx_build_side ctx) then Some (Inr st)
      else if probe_row \<ge> 2 ^ 32 then too_many_outer_rows
      else emit_piece ctx (PieceUnmatchedProbeRow probe_row) st)"

definition mark_tracker ::
    "(matched_build_tracker \<Rightarrow> matched_build_tracker) \<Rightarrow> ('row, 'b) probe_state \<Rightarrow> ('row, 'b) probe_state" where
  "mark_tracker f st = st\<lparr>ps_tracker := map_option f (ps_tracker st)\<rparr>"

definition mark_build_matches :: "build_row_ref list \<Rightarrow> ('row, 'b) probe_state \<Rightarrow> ('row, 'b) probe_state" where
  "mark_build_matches matches = mark_tracker (mark_refs matches)"

definition mark_probe_match :: "'row \<Rightarrow> ('row, 'b) probe_state \<Rightarrow> ('row, 'b) probe_state" where
  "mark_probe_match key st = st\<lparr>ps_matched_keys := map_option (insert key) (ps_matched_keys st)\<rparr>"

text \<open>The chunks that are left when a loop is over.\<close>

definition finish_pairs :: "'b probe_context \<Rightarrow> ('row, 'b) probe_state \<Rightarrow> ('row, 'b) probe_state outcome" where
  "finish_pairs ctx st = (if ps_probe_indices st \<noteq> [] then flush_pairs ctx st else Some (Inr st))"

definition finish_semi :: "'b probe_context \<Rightarrow> ('row, 'b) probe_state \<Rightarrow> ('row, 'b) probe_state outcome" where
  "finish_semi ctx st = (if ps_semi_indices st \<noteq> [] then flush_semi ctx st else Some (Inr st))"

definition finish_unmatched :: "'b probe_context \<Rightarrow> ('row, 'b) probe_state \<Rightarrow> ('row, 'b) probe_state outcome" where
  "finish_unmatched ctx st = (if ps_unmatched_indices st \<noteq> [] then flush_unmatched ctx st else Some (Inr st))"

subsection \<open>The loops\<close>

definition too_many_probe_rows :: "'a outcome" where
  "too_many_probe_rows = unsupported ''hash join currently supports up to u32::MAX rows per side''"

text \<open>One probe row: a null key and a key without matches leave the row unmatched; otherwise the matches are marked and
  pushed.\<close>

definition probe_row ::
    "(nat \<Rightarrow> 's \<Rightarrow> 's outcome) \<Rightarrow> (nat \<Rightarrow> 'k option) \<Rightarrow> ('k \<Rightarrow> 'm option) \<Rightarrow> ('k \<Rightarrow> 'm \<Rightarrow> 's \<Rightarrow> 's) \<Rightarrow> (nat \<Rightarrow> 'm \<Rightarrow> 's \<Rightarrow> 's outcome) \<Rightarrow>
     nat \<Rightarrow> 's \<Rightarrow> 's outcome" where
  "probe_row unmatched key get mark push row st =
     (case key row of
        None \<Rightarrow> unmatched row st
      | Some k \<Rightarrow>
          (case get k of
             None \<Rightarrow> unmatched row st
           | Some m \<Rightarrow> if row \<ge> 2 ^ 32 then too_many_probe_rows else push row m (mark k m st)))"

text \<open>The loop in blocks of 64 rows.\<close>

function probe_blocks :: "(nat \<Rightarrow> 's \<Rightarrow> 's outcome) \<Rightarrow> nat \<Rightarrow> nat \<Rightarrow> 's \<Rightarrow> 's outcome" where
  "probe_blocks f rows block_start st =
     (if block_start < rows
      then let block_len = min (rows - block_start) 64
           in outcome_bind (fold_outcome (\<lambda>lane. f (block_start + lane)) [0..<block_len] st) (\<lambda>st1.
                probe_blocks f rows (block_start + block_len) st1)
      else Some (Inr st))"
  by pat_completeness auto
termination
  by (relation "measure (\<lambda>(f, rows, block_start, st). rows - block_start)") auto

declare probe_blocks.simps [simp del]

definition column_key :: "'v option list \<Rightarrow> nat \<Rightarrow> 'v option" where
  "column_key column row = (if is_null_at column row then None else Some (value_at column row))"

definition pair_column_key :: "int option list \<Rightarrow> int option list \<Rightarrow> nat \<Rightarrow> (int \<times> int) option" where
  "pair_column_key left right row =
     (if is_null_at left row \<or> is_null_at right row then None else Some (value_at left row, value_at right row))"

definition null_count :: "'v option list \<Rightarrow> nat" where
  "null_count column = length (filter (\<lambda>c. c = None) column)"

definition key_types_mismatch :: "'row join_engine \<Rightarrow> data_type list \<Rightarrow> data_type list \<Rightarrow> 'a outcome" where
  "key_types_mismatch E probe_types build_types =
     unsupported (''JOIN key types must match: probe side is '' @ show_types E probe_types @
       '', build side is '' @ show_types E build_types)"

text \<open>The probe's key column of an expected type, and its pair of columns.\<close>

definition probe_column ::
    "'row join_engine \<Rightarrow> record_batch \<Rightarrow> 'row hash_join_build \<Rightarrow> data_type \<Rightarrow> (array \<Rightarrow> 'c option) \<Rightarrow> string \<Rightarrow> 'c outcome" where
  "probe_column E probe build expected downcast key =
     outcome_bind (batch_column probe key) (\<lambda>array.
       if array_type array \<noteq> expected then key_types_mismatch E [array_type array] (jb_key_types build)
       else expect (downcast array))"

definition probe_pair_columns ::
    "'row join_engine \<Rightarrow> record_batch \<Rightarrow> 'row hash_join_build \<Rightarrow> string \<Rightarrow> string \<Rightarrow> (int option list \<times> int option list) outcome" where
  "probe_pair_columns E probe build left_key right_key =
     outcome_bind (batch_column probe left_key) (\<lambda>left_array.
     outcome_bind (batch_column probe right_key) (\<lambda>right_array.
       let probe_types = [array_type left_array, array_type right_array]
       in if probe_types \<noteq> jb_key_types build then key_types_mismatch E probe_types (jb_key_types build)
          else outcome_bind (expect (downcast_ints Int32 left_array)) (\<lambda>left.
               outcome_bind (expect (downcast_ints Int32 right_array)) (\<lambda>right. Some (Inr (left, right))))))"

definition single_key :: "string \<Rightarrow> string list \<Rightarrow> (string \<Rightarrow> 'a outcome) \<Rightarrow> 'a outcome" where
  "single_key path probe_keys f =
     (case probe_keys of [key] \<Rightarrow> f key | _ \<Rightarrow> unsupported (path @ '' expects exactly one probe key''))"

definition key_pair :: "string \<Rightarrow> string list \<Rightarrow> (string \<Rightarrow> string \<Rightarrow> 'a outcome) \<Rightarrow> 'a outcome" where
  "key_pair path probe_keys f =
     (case probe_keys of [left, right] \<Rightarrow> f left right | _ \<Rightarrow> unsupported (path @ '' expects exactly two probe keys''))"

text \<open>Semi joins on a set of keys.\<close>

definition probe_semi_row ::
    "'b probe_context \<Rightarrow> int option list \<Rightarrow> (int \<Rightarrow> bool) \<Rightarrow> nat \<Rightarrow> ('row, 'b) probe_state \<Rightarrow> ('row, 'b) probe_state outcome" where
  "probe_semi_row ctx column has_key row st =
     (if is_null_at column row then Some (Inr st)
      else if \<not> has_key (value_at column row) then Some (Inr st)
      else if row \<ge> 2 ^ 32 then too_many_probe_rows
      else push_semi_index ctx row st)"

definition probe_i32_dense_semi_join_batches ::
    "'row join_engine \<Rightarrow> 'b probe_context outcome \<Rightarrow> record_batch \<Rightarrow> 'row hash_join_build \<Rightarrow> dense_i32_keys \<Rightarrow> string list \<Rightarrow>
     join_build_side \<Rightarrow> matched_build_tracker option \<Rightarrow> ('row, 'b) probe_state outcome" where
  "probe_i32_dense_semi_join_batches E context probe build key_set probe_keys build_side tracker =
     (if build_side \<noteq> BuildRight then semi_build_side_error
      else single_key ''Int32 SEMI JOIN fast path'' probe_keys (\<lambda>key.
        outcome_bind (probe_column E probe build Int32 (downcast_ints Int32) key) (\<lambda>column.
        outcome_bind context (\<lambda>ctx.
        outcome_bind (fold_outcome (probe_semi_row ctx column (dense_i32_keys_contains key_set)) [0..<batch_rows probe]
          (initial_probe_state tracker None)) (finish_semi ctx)))))"

definition probe_i32_semi_join_batches ::
    "'row join_engine \<Rightarrow> 'b probe_context outcome \<Rightarrow> record_batch \<Rightarrow> 'row hash_join_build \<Rightarrow> int list \<Rightarrow> string list \<Rightarrow>
     join_build_side \<Rightarrow> matched_build_tracker option \<Rightarrow> ('row, 'b) probe_state outcome" where
  "probe_i32_semi_join_batches E context probe build key_set probe_keys build_side tracker =
     (if build_side \<noteq> BuildRight then semi_build_side_error
      else single_key ''Int32 SEMI JOIN fast path'' probe_keys (\<lambda>key.
        outcome_bind (probe_column E probe build Int32 (downcast_ints Int32) key) (\<lambda>column.
        outcome_bind context (\<lambda>ctx.
        outcome_bind (fold_outcome (probe_semi_row ctx column (\<lambda>k. k \<in> set key_set)) [0..<batch_rows probe]
          (initial_probe_state tracker None)) (finish_semi ctx)))))"

text \<open>Joins on one key of type \<open>Int32\<close>.  The first two run in blocks over a column without nulls.\<close>

definition probe_i32_dense_unique_hash_join_batches ::
    "'row join_engine \<Rightarrow> 'b probe_context outcome \<Rightarrow> record_batch \<Rightarrow> 'row hash_join_build \<Rightarrow> dense_i32_rows \<Rightarrow> string list \<Rightarrow>
     join_type \<Rightarrow> matched_build_tracker option \<Rightarrow> ('row, 'b) probe_state outcome" where
  "probe_i32_dense_unique_hash_join_batches E context probe build rows probe_keys join_type tracker =
     single_key ''Int32 dense hash join fast path'' probe_keys (\<lambda>key.
     outcome_bind (probe_column E probe build Int32 (downcast_ints Int32) key) (\<lambda>column.
     outcome_bind context (\<lambda>ctx.
     let step = (\<lambda>key_of. probe_row (push_unmatched_probe_match ctx join_type) key_of (dense_i32_get rows)
                   (\<lambda>k _. mark_tracker (mark_i32_key k)) (\<lambda>row build_ref. push_hash_join_pair ctx row build_ref))
     in outcome_bind
          (if null_count column = 0
           then probe_blocks (step (\<lambda>row. Some (value_at column row))) (batch_rows probe) 0 (initial_probe_state tracker None)
           else fold_outcome (step (column_key column)) [0..<batch_rows probe] (initial_probe_state tracker None))
          (\<lambda>st. outcome_bind (finish_pairs ctx st) (finish_unmatched ctx)))))"

definition probe_i32_unique_hash_join_batches ::
    "'row join_engine \<Rightarrow> 'b probe_context outcome \<Rightarrow> record_batch \<Rightarrow> 'row hash_join_build \<Rightarrow> (int, build_row_ref) hash_map \<Rightarrow> string list \<Rightarrow>
     join_type \<Rightarrow> matched_build_tracker option \<Rightarrow> ('row, 'b) probe_state outcome" where
  "probe_i32_unique_hash_join_batches E context probe build rows probe_keys join_type tracker =
     single_key ''Int32 unique hash join fast path'' probe_keys (\<lambda>key.
     outcome_bind (probe_column E probe build Int32 (downcast_ints Int32) key) (\<lambda>column.
     outcome_bind context (\<lambda>ctx.
     let step = (\<lambda>key_of. probe_row (push_unmatched_probe_if_outer ctx join_type) key_of (map_of rows)
                   (\<lambda>_ build_ref. mark_tracker (mark_ref build_ref)) (\<lambda>row build_ref. push_hash_join_pair ctx row build_ref))
     in outcome_bind
          (if null_count column = 0
           then probe_blocks (step (\<lambda>row. Some (value_at column row))) (batch_rows probe) 0 (initial_probe_state tracker None)
           else fold_outcome (step (column_key column)) [0..<batch_rows probe] (initial_probe_state tracker None))
          (finish_pairs ctx))))"

definition probe_i32_dense_hash_join_batches ::
    "'row join_engine \<Rightarrow> 'b probe_context outcome \<Rightarrow> record_batch \<Rightarrow> 'row hash_join_build \<Rightarrow> dense_i32_multi_rows \<Rightarrow> string list \<Rightarrow>
     join_type \<Rightarrow> matched_build_tracker option \<Rightarrow> ('row, 'b) probe_state outcome" where
  "probe_i32_dense_hash_join_batches E context probe build rows probe_keys join_type tracker =
     single_key ''Int32 hash join fast path'' probe_keys (\<lambda>key.
     outcome_bind (probe_column E probe build Int32 (downcast_ints Int32) key) (\<lambda>column.
     outcome_bind context (\<lambda>ctx.
     outcome_bind (fold_outcome
       (probe_row (push_unmatched_probe_if_outer ctx join_type) (column_key column) (dense_i32_multi_get rows)
          (\<lambda>_ matches. mark_build_matches matches)
          (\<lambda>row matches. if join_type = JoinSemi then push_semi_join_match ctx row else push_hash_join_matches ctx row matches))
       [0..<batch_rows probe] (initial_probe_state tracker None)) (\<lambda>st. outcome_bind (finish_pairs ctx st) (finish_semi ctx)))))"

definition probe_i32_hash_join_batches ::
    "'row join_engine \<Rightarrow> 'b probe_context outcome \<Rightarrow> record_batch \<Rightarrow> 'row hash_join_build \<Rightarrow> (int, build_row_ref list) hash_map \<Rightarrow> string list \<Rightarrow>
     join_type \<Rightarrow> matched_build_tracker option \<Rightarrow> ('row, 'b) probe_state outcome" where
  "probe_i32_hash_join_batches E context probe build rows probe_keys join_type tracker =
     single_key ''Int32 hash join fast path'' probe_keys (\<lambda>key.
     outcome_bind (probe_column E probe build Int32 (downcast_ints Int32) key) (\<lambda>column.
     outcome_bind context (\<lambda>ctx.
     outcome_bind (fold_outcome
       (probe_row (push_unmatched_probe_if_outer ctx join_type) (column_key column) (map_of rows)
          (\<lambda>_ matches. mark_build_matches matches)
          (\<lambda>row matches. if join_type = JoinSemi then push_semi_join_match ctx row else push_hash_join_matches ctx row matches))
       [0..<batch_rows probe] (initial_probe_state tracker None)) (\<lambda>st. outcome_bind (finish_pairs ctx st) (finish_semi ctx)))))"

text \<open>Joins on one key of type \<open>Int64\<close>.\<close>

definition probe_i64_dense_unique_hash_join_batches ::
    "'row join_engine \<Rightarrow> 'b probe_context outcome \<Rightarrow> record_batch \<Rightarrow> 'row hash_join_build \<Rightarrow> dense_i64_rows \<Rightarrow> string list \<Rightarrow>
     join_type \<Rightarrow> matched_build_tracker option \<Rightarrow> ('row, 'b) probe_state outcome" where
  "probe_i64_dense_unique_hash_join_batches E context probe build rows probe_keys join_type tracker =
     single_key ''Int64 dense hash join fast path'' probe_keys (\<lambda>key.
     outcome_bind (probe_column E probe build Int64 (downcast_ints Int64) key) (\<lambda>column.
     outcome_bind context (\<lambda>ctx.
     outcome_bind (fold_outcome
       (probe_row (push_unmatched_probe_if_outer ctx join_type) (column_key column) (dense_i64_get rows)
          (\<lambda>_ build_ref. mark_tracker (mark_ref build_ref))
          (\<lambda>row build_ref. push_hash_join_pair ctx row build_ref))
       [0..<batch_rows probe] (initial_probe_state tracker None)) (finish_pairs ctx))))"

definition probe_i64_unique_hash_join_batches ::
    "'row join_engine \<Rightarrow> 'b probe_context outcome \<Rightarrow> record_batch \<Rightarrow> 'row hash_join_build \<Rightarrow> (int, build_row_ref) hash_map \<Rightarrow> string list \<Rightarrow>
     join_type \<Rightarrow> matched_build_tracker option \<Rightarrow> ('row, 'b) probe_state outcome" where
  "probe_i64_unique_hash_join_batches E context probe build rows probe_keys join_type tracker =
     single_key ''Int64 unique hash join fast path'' probe_keys (\<lambda>key.
     outcome_bind (probe_column E probe build Int64 (downcast_ints Int64) key) (\<lambda>column.
     outcome_bind context (\<lambda>ctx.
     outcome_bind (fold_outcome
       (probe_row (push_unmatched_probe_if_outer ctx join_type) (column_key column) (map_of rows)
          (\<lambda>_ build_ref. mark_tracker (mark_ref build_ref))
          (\<lambda>row build_ref. push_hash_join_pair ctx row build_ref))
       [0..<batch_rows probe] (initial_probe_state tracker None)) (finish_pairs ctx))))"

definition probe_i64_hash_join_batches ::
    "'row join_engine \<Rightarrow> 'b probe_context outcome \<Rightarrow> record_batch \<Rightarrow> 'row hash_join_build \<Rightarrow> (int, build_row_ref list) hash_map \<Rightarrow> string list \<Rightarrow>
     join_type \<Rightarrow> matched_build_tracker option \<Rightarrow> ('row, 'b) probe_state outcome" where
  "probe_i64_hash_join_batches E context probe build rows probe_keys join_type tracker =
     single_key ''Int64 hash join fast path'' probe_keys (\<lambda>key.
     outcome_bind (probe_column E probe build Int64 (downcast_ints Int64) key) (\<lambda>column.
     outcome_bind context (\<lambda>ctx.
     outcome_bind (fold_outcome
       (probe_row (push_unmatched_probe_if_outer ctx join_type) (column_key column) (map_of rows)
          (\<lambda>_ matches. mark_build_matches matches)
          (\<lambda>row matches. if join_type = JoinSemi then push_semi_join_match ctx row else push_hash_join_matches ctx row matches))
       [0..<batch_rows probe] (initial_probe_state tracker None)) (\<lambda>st. outcome_bind (finish_pairs ctx st) (finish_semi ctx)))))"

text \<open>Joins on a pair of keys of type \<open>Int32\<close>.\<close>

definition probe_i32_pair_dense_unique_hash_join_batches ::
    "'row join_engine \<Rightarrow> 'b probe_context outcome \<Rightarrow> record_batch \<Rightarrow> 'row hash_join_build \<Rightarrow> dense_i32_pair_rows \<Rightarrow> string list \<Rightarrow>
     join_type \<Rightarrow> matched_build_tracker option \<Rightarrow> ('row, 'b) probe_state outcome" where
  "probe_i32_pair_dense_unique_hash_join_batches E context probe build rows probe_keys join_type tracker =
     key_pair ''Int32 pair dense unique hash join fast path'' probe_keys (\<lambda>left_key right_key.
     outcome_bind (probe_pair_columns E probe build left_key right_key) (\<lambda>(left, right).
     outcome_bind context (\<lambda>ctx.
     outcome_bind (fold_outcome
       (probe_row (push_unmatched_probe_if_outer ctx join_type) (pair_column_key left right) (\<lambda>(left, right). dense_i32_pair_get rows left right)
          (\<lambda>_ build_ref. mark_tracker (mark_ref build_ref))
          (\<lambda>row build_ref. if join_type = JoinSemi then push_semi_join_match ctx row else push_hash_join_pair ctx row build_ref))
       [0..<batch_rows probe] (initial_probe_state tracker None)) (\<lambda>st. outcome_bind (finish_pairs ctx st) (finish_semi ctx)))))"

definition probe_i32_pair_unique_hash_join_batches ::
    "'row join_engine \<Rightarrow> 'b probe_context outcome \<Rightarrow> record_batch \<Rightarrow> 'row hash_join_build \<Rightarrow> (int \<times> int, build_row_ref) hash_map \<Rightarrow> string list \<Rightarrow>
     join_type \<Rightarrow> matched_build_tracker option \<Rightarrow> ('row, 'b) probe_state outcome" where
  "probe_i32_pair_unique_hash_join_batches E context probe build rows probe_keys join_type tracker =
     key_pair ''Int32 pair unique hash join fast path'' probe_keys (\<lambda>left_key right_key.
     outcome_bind (probe_pair_columns E probe build left_key right_key) (\<lambda>(left, right).
     outcome_bind context (\<lambda>ctx.
     outcome_bind (fold_outcome
       (probe_row (push_unmatched_probe_if_outer ctx join_type) (pair_column_key left right) (map_of rows)
          (\<lambda>_ build_ref. mark_tracker (mark_ref build_ref))
          (\<lambda>row build_ref. if join_type = JoinSemi then push_semi_join_match ctx row else push_hash_join_pair ctx row build_ref))
       [0..<batch_rows probe] (initial_probe_state tracker None)) (\<lambda>st. outcome_bind (finish_pairs ctx st) (finish_semi ctx)))))"

definition probe_i32_pair_hash_join_batches ::
    "'row join_engine \<Rightarrow> 'b probe_context outcome \<Rightarrow> record_batch \<Rightarrow> 'row hash_join_build \<Rightarrow> (int \<times> int, build_row_ref list) hash_map \<Rightarrow> string list \<Rightarrow>
     join_type \<Rightarrow> matched_build_tracker option \<Rightarrow> ('row, 'b) probe_state outcome" where
  "probe_i32_pair_hash_join_batches E context probe build rows probe_keys join_type tracker =
     key_pair ''Int32 pair hash join fast path'' probe_keys (\<lambda>left_key right_key.
     outcome_bind (probe_pair_columns E probe build left_key right_key) (\<lambda>(left, right).
     outcome_bind context (\<lambda>ctx.
     outcome_bind (fold_outcome
       (probe_row (push_unmatched_probe_if_outer ctx join_type) (pair_column_key left right) (map_of rows)
          (\<lambda>_ matches. mark_build_matches matches)
          (\<lambda>row matches. if join_type = JoinSemi then push_semi_join_match ctx row else push_hash_join_matches ctx row matches))
       [0..<batch_rows probe] (initial_probe_state tracker None)) (\<lambda>st. outcome_bind (finish_pairs ctx st) (finish_semi ctx)))))"

text \<open>Joins on one string key.\<close>

definition probe_string_unique_hash_join_batches ::
    "'row join_engine \<Rightarrow> 'b probe_context outcome \<Rightarrow> record_batch \<Rightarrow> 'row hash_join_build \<Rightarrow> (string, build_row_ref) hash_map \<Rightarrow> string list \<Rightarrow>
     join_type \<Rightarrow> matched_build_tracker option \<Rightarrow> ('row, 'b) probe_state outcome" where
  "probe_string_unique_hash_join_batches E context probe build rows probe_keys join_type tracker =
     single_key ''String unique hash join fast path'' probe_keys (\<lambda>key.
     outcome_bind (probe_column E probe build Utf8 (downcast_strings) key) (\<lambda>column.
     outcome_bind context (\<lambda>ctx.
     outcome_bind (fold_outcome
       (probe_row (push_unmatched_probe_if_outer ctx join_type) (column_key column) (map_of rows)
          (\<lambda>_ build_ref. mark_tracker (mark_ref build_ref))
          (\<lambda>row build_ref. if join_type = JoinSemi then push_semi_join_match ctx row else push_hash_join_pair ctx row build_ref))
       [0..<batch_rows probe] (initial_probe_state tracker None)) (\<lambda>st. outcome_bind (finish_pairs ctx st) (finish_semi ctx)))))"

definition probe_string_hash_join_batches ::
    "'row join_engine \<Rightarrow> 'b probe_context outcome \<Rightarrow> record_batch \<Rightarrow> 'row hash_join_build \<Rightarrow> (string, build_row_ref list) hash_map \<Rightarrow> string list \<Rightarrow>
     join_type \<Rightarrow> matched_build_tracker option \<Rightarrow> ('row, 'b) probe_state outcome" where
  "probe_string_hash_join_batches E context probe build rows probe_keys join_type tracker =
     single_key ''String hash join fast path'' probe_keys (\<lambda>key.
     outcome_bind (probe_column E probe build Utf8 (downcast_strings) key) (\<lambda>column.
     outcome_bind context (\<lambda>ctx.
     outcome_bind (fold_outcome
       (probe_row (push_unmatched_probe_if_outer ctx join_type) (column_key column) (map_of rows)
          (\<lambda>_ matches. mark_build_matches matches)
          (\<lambda>row matches. if join_type = JoinSemi then push_semi_join_match ctx row else push_hash_join_matches ctx row matches))
       [0..<batch_rows probe] (initial_probe_state tracker None)) (\<lambda>st. outcome_bind (finish_pairs ctx st) (finish_semi ctx)))))"

text \<open>The general loop: the Bloom filter first, then the frequent keys after the others.\<close>

definition push_general_matches ::
    "'b probe_context \<Rightarrow> join_type \<Rightarrow> nat \<Rightarrow> 'row \<Rightarrow> build_row_ref list \<Rightarrow> ('row, 'b) probe_state \<Rightarrow> ('row, 'b) probe_state outcome" where
  "push_general_matches ctx join_type row key matches st =
     (let st1 = mark_build_matches matches (mark_probe_match key st)
      in if row \<ge> 2 ^ 32 then too_many_probe_rows
         else if join_type = JoinSemi then push_semi_join_match ctx row st1
         else push_hash_join_matches ctx row matches st1)"

definition probe_general_row ::
    "'row join_engine \<Rightarrow> 'b probe_context \<Rightarrow> 'row hash_join_build \<Rightarrow> join_type \<Rightarrow> 'row set option \<Rightarrow> array list \<Rightarrow>
     nat \<times> 'row \<Rightarrow> ('row, 'b) probe_state \<Rightarrow> ('row, 'b) probe_state outcome" where
  "probe_general_row E ctx build join_type excluded arrays numbered st =
     (let (row, key) = numbered
      in if list_ex (\<lambda>a. array_is_null a row) arrays then push_unmatched_probe_if_outer ctx join_type row st
         else if (case excluded of None \<Rightarrow> False | Some keys \<Rightarrow> key \<in> keys) then Some (Inr st)
         else outcome_bind (expect (might_contain E (jb_bloom build) key)) (\<lambda>found.
           if \<not> found then push_unmatched_probe_if_outer ctx join_type row st
           else case map_of (jb_rows build) key of
                  Some matches \<Rightarrow> push_general_matches ctx join_type row key matches st
                | None \<Rightarrow>
                    (case map_of (jb_heavy_rows build) key of
                       Some matches \<Rightarrow> push_general_matches ctx join_type row key matches st
                     | None \<Rightarrow> push_unmatched_probe_if_outer ctx join_type row st)))"

definition probe_general_batches ::
    "'row join_engine \<Rightarrow> 'b probe_context outcome \<Rightarrow> record_batch \<Rightarrow> 'row hash_join_build \<Rightarrow> string list \<Rightarrow> join_type \<Rightarrow>
     matched_build_tracker option \<Rightarrow> 'row set option \<Rightarrow> 'row set option \<Rightarrow> ('row, 'b) probe_state outcome" where
  "probe_general_batches E context probe build probe_keys join_type tracker excluded matched_keys =
     outcome_bind (key_arrays probe probe_keys) (\<lambda>arrays.
       let probe_types = map array_type arrays
       in if probe_types \<noteq> jb_key_types build then key_types_mismatch E probe_types (jb_key_types build)
          else outcome_bind (Some (convert_rows E arrays)) (\<lambda>probe_rows.
               outcome_bind context (\<lambda>ctx.
               outcome_bind (fold_outcome (probe_general_row E ctx build join_type excluded arrays) (enumerate 0 probe_rows)
                 (initial_probe_state tracker matched_keys)) (\<lambda>st.
               outcome_bind (finish_pairs ctx st) (finish_semi ctx)))))"

text \<open>The choice of the loop.\<close>

definition probe_hash_join_batches ::
    "'row join_engine \<Rightarrow> 'b probe_context outcome \<Rightarrow> record_batch \<Rightarrow> 'row hash_join_build \<Rightarrow> string list \<Rightarrow> join_build_side \<Rightarrow>
     join_type \<Rightarrow> matched_build_tracker option \<Rightarrow> 'row set option \<Rightarrow> 'row set option \<Rightarrow> ('row, 'b) probe_state outcome" where
  "probe_hash_join_batches E context probe build probe_keys build_side join_type tracker excluded matched_keys =
     (let semi = (join_type = JoinSemi); general = probe_general_batches E context probe build probe_keys join_type tracker excluded matched_keys
      in if excluded \<noteq> None \<or> matched_keys \<noteq> None then general
         else case (if semi then jb_i32_dense_key_set build else None) of
           Some key_set \<Rightarrow> probe_i32_dense_semi_join_batches E context probe build key_set probe_keys build_side tracker
         | None \<Rightarrow> (case (if semi then jb_i32_key_set build else None) of
           Some key_set \<Rightarrow> probe_i32_semi_join_batches E context probe build key_set probe_keys build_side tracker
         | None \<Rightarrow> (case jb_i32_dense_unique_rows build of
           Some rows \<Rightarrow> probe_i32_dense_unique_hash_join_batches E context probe build rows probe_keys join_type tracker
         | None \<Rightarrow> (case jb_i32_unique_rows build of
           Some rows \<Rightarrow> probe_i32_unique_hash_join_batches E context probe build rows probe_keys join_type tracker
         | None \<Rightarrow> (case jb_i32_dense_rows build of
           Some rows \<Rightarrow> probe_i32_dense_hash_join_batches E context probe build rows probe_keys join_type tracker
         | None \<Rightarrow> (case jb_i32_rows build of
           Some rows \<Rightarrow> probe_i32_hash_join_batches E context probe build rows probe_keys join_type tracker
         | None \<Rightarrow> (case jb_i64_dense_unique_rows build of
           Some rows \<Rightarrow> probe_i64_dense_unique_hash_join_batches E context probe build rows probe_keys join_type tracker
         | None \<Rightarrow> (case jb_i64_unique_rows build of
           Some rows \<Rightarrow> probe_i64_unique_hash_join_batches E context probe build rows probe_keys join_type tracker
         | None \<Rightarrow> (case jb_i64_rows build of
           Some rows \<Rightarrow> probe_i64_hash_join_batches E context probe build rows probe_keys join_type tracker
         | None \<Rightarrow> (case jb_i32_pair_dense_unique_rows build of
           Some rows \<Rightarrow> probe_i32_pair_dense_unique_hash_join_batches E context probe build rows probe_keys join_type tracker
         | None \<Rightarrow> (case jb_i32_pair_unique_rows build of
           Some rows \<Rightarrow> probe_i32_pair_unique_hash_join_batches E context probe build rows probe_keys join_type tracker
         | None \<Rightarrow> (case jb_i32_pair_rows build of
           Some rows \<Rightarrow> probe_i32_pair_hash_join_batches E context probe build rows probe_keys join_type tracker
         | None \<Rightarrow> (case jb_string_unique_rows build of
           Some rows \<Rightarrow> probe_string_unique_hash_join_batches E context probe build rows probe_keys join_type tracker
         | None \<Rightarrow> (case jb_string_rows build of
           Some rows \<Rightarrow> probe_string_hash_join_batches E context probe build rows probe_keys join_type tracker
         | None \<Rightarrow> general))))))))))))))"

subsection \<open>Unmatched build rows and the stream\<close>

definition should_emit_unmatched_build :: "join_type \<Rightarrow> join_build_side \<Rightarrow> bool" where
  "should_emit_unmatched_build join_type build_side \<longleftrightarrow>
     join_type = JoinFull \<or> join_type = JoinLeft \<and> build_side = BuildLeft \<or> join_type = JoinRight \<and> build_side = BuildRight"

definition should_track_matched_build :: "join_type \<Rightarrow> join_build_side \<Rightarrow> bool" where
  "should_track_matched_build join_type build_side = should_emit_unmatched_build join_type build_side"

text \<open>A list in chunks: a chunk is materialized as soon as it is full, and the rest at the end.\<close>

fun emit_chunks ::
    "(build_row_ref list \<Rightarrow> 'b outcome) \<Rightarrow> build_row_ref list \<Rightarrow> build_row_ref list \<Rightarrow> 'b list \<Rightarrow> 'b list outcome" where
  "emit_chunks mat [] unmatched output0 =
     (if unmatched \<noteq> [] then outcome_bind (mat unmatched) (\<lambda>b. Some (Inr (output0 @ [b]))) else Some (Inr output0))"
| "emit_chunks mat (r # refs) unmatched output0 =
     (let unmatched1 = unmatched @ [r]
      in if length unmatched1 \<ge> join_output_chunk_rows
         then outcome_bind (mat unmatched1) (\<lambda>b. emit_chunks mat refs [] (output0 @ [b]))
         else emit_chunks mat refs unmatched1 output0)"

definition unmatched_build_refs :: "'row hash_join_build \<Rightarrow> matched_build_tracker \<Rightarrow> build_row_ref list" where
  "unmatched_build_refs build tracker =
     (case (jb_i32_dense_unique_rows build, tracker) of
        (Some dense_rows, TrackDenseI32 _ matched _) \<Rightarrow> dense_unmatched_refs dense_rows matched
      | _ \<Rightarrow> filter (\<lambda>r. \<not> is_matched tracker r) (jb_all_rows build))"

definition emit_unmatched_build_if_needed ::
    "'row hash_join_build \<Rightarrow> matched_build_tracker option \<Rightarrow> join_build_side \<Rightarrow> join_type \<Rightarrow> (record_batch \<Rightarrow> build_row_ref list \<Rightarrow> 'b outcome) \<Rightarrow>
     record_batch option \<Rightarrow> bool \<Rightarrow> ('b list \<times> bool) outcome" where
  "emit_unmatched_build_if_needed build matched_build build_side join_type mat probe_template emitted =
     (if \<not> should_emit_unmatched_build join_type build_side \<or> emitted then Some (Inr ([], emitted))
      else case probe_template of
             None \<Rightarrow> Some (Inr ([], True))
           | Some template \<Rightarrow>
               (let tracker = (case matched_build of Some t \<Rightarrow> t | None \<Rightarrow> tracker_empty_set)
                in if all_dense_i32_matched tracker then Some (Inr ([], True))
                   else outcome_bind (emit_chunks (mat template) (unmatched_build_refs build tracker) [] []) (\<lambda>batches.
                        Some (Inr (batches, True)))))"

end
