(* ===== verification/Join_Correct.thy ===== *)
theory Join_Correct
  imports Join_Probe
begin

text \<open>
  What the probe loops of \<open>execution/physical.rs\<close> produce.  The pieces a loop asks for, laid end to end, are the pairs of
  the reference join in the order of the probe rows (the rows that have a match, in a semi join) and, where the join
  keeps them, the probe rows without a match; no piece is empty or longer than a chunk; and the tracker has the build
  rows that were matched.
\<close>

subsection \<open>Pieces laid end to end\<close>

fun piece_pairs :: "join_piece \<Rightarrow> (nat \<times> build_row_ref) list" where
  "piece_pairs (PiecePairs rows refs) = zip rows refs"
| "piece_pairs _ = []"

fun piece_semi :: "join_piece \<Rightarrow> nat list" where
  "piece_semi (PieceSemi rows) = rows"
| "piece_semi _ = []"

fun piece_unmatched :: "join_piece \<Rightarrow> nat list" where
  "piece_unmatched (PieceUnmatchedProbe rows) = rows"
| "piece_unmatched (PieceUnmatchedProbeRow row) = [row]"
| "piece_unmatched _ = []"

text \<open>A piece that can be materialized: neither empty nor longer than a chunk, over rows and references that exist.\<close>

definition chunk_ok :: "'a list \<Rightarrow> bool" where
  "chunk_ok xs \<longleftrightarrow> xs \<noteq> [] \<and> length xs \<le> join_output_chunk_rows"

fun piece_ok :: "nat \<Rightarrow> build_row_ref set \<Rightarrow> join_piece \<Rightarrow> bool" where
  "piece_ok n R (PiecePairs rows refs) \<longleftrightarrow> chunk_ok rows \<and> length refs = length rows \<and> (\<forall>row \<in> set rows. row < n) \<and> set refs \<subseteq> R"
| "piece_ok n R (PieceSemi rows) \<longleftrightarrow> chunk_ok rows \<and> (\<forall>row \<in> set rows. row < n)"
| "piece_ok n R (PieceUnmatchedProbe rows) \<longleftrightarrow> chunk_ok rows \<and> (\<forall>row \<in> set rows. row < n)"
| "piece_ok n R (PieceUnmatchedProbeRow row) \<longleftrightarrow> row < n"
| "piece_ok n R (PieceUnmatchedBuild refs) \<longleftrightarrow> chunk_ok refs \<and> set refs \<subseteq> R"

definition context_ok :: "nat \<Rightarrow> build_row_ref set \<Rightarrow> join_build_side \<Rightarrow> (join_piece \<Rightarrow> 'b) \<Rightarrow> 'b probe_context \<Rightarrow> bool" where
  "context_ok n R side f ctx \<longleftrightarrow> ctx_build_side ctx = side \<and> (\<forall>p. piece_ok n R p \<longrightarrow> ctx_materialize ctx p = Some (Inr (f p)))"

definition pieces_cover ::
    "nat \<Rightarrow> build_row_ref set \<Rightarrow> (join_piece \<Rightarrow> 'b) \<Rightarrow> 'b list \<Rightarrow> (nat \<times> build_row_ref) list \<Rightarrow> nat list \<Rightarrow> nat list \<Rightarrow> bool" where
  "pieces_cover n R f batches pairs semis unmatched \<longleftrightarrow>
     (\<exists>pieces. batches = map f pieces \<and> (\<forall>p \<in> set pieces. piece_ok n R p) \<and>
        concat (map piece_pairs pieces) = pairs \<and> concat (map piece_semi pieces) = semis \<and>
        concat (map piece_unmatched pieces) = unmatched)"

text \<open>What a state stands for: the pieces that are out and the chunks that are not.  In every loop but one an unmatched
  probe row goes out at once.\<close>

definition buffered ::
    "bool \<Rightarrow> nat \<Rightarrow> build_row_ref set \<Rightarrow> (join_piece \<Rightarrow> 'b) \<Rightarrow> (nat \<times> build_row_ref) list \<Rightarrow> nat list \<Rightarrow> nat list \<Rightarrow>
     ('row, 'b) probe_state \<Rightarrow> bool" where
  "buffered direct n R f pairs semis unmatched st \<longleftrightarrow>
     length (ps_build_refs st) = length (ps_probe_indices st) \<and>
     length (ps_probe_indices st) < join_output_chunk_rows \<and> length (ps_semi_indices st) < join_output_chunk_rows \<and>
     length (ps_unmatched_indices st) < join_output_chunk_rows \<and>
     (\<forall>row \<in> set (ps_probe_indices st) \<union> set (ps_semi_indices st) \<union> set (ps_unmatched_indices st). row < n) \<and>
     set (ps_build_refs st) \<subseteq> R \<and> (direct \<longrightarrow> ps_unmatched_indices st = []) \<and>
     (\<exists>out_pairs out_semis out_unmatched. pieces_cover n R f (ps_output st) out_pairs out_semis out_unmatched \<and>
        pairs = out_pairs @ zip (ps_probe_indices st) (ps_build_refs st) \<and> semis = out_semis @ ps_semi_indices st \<and>
        unmatched = out_unmatched @ ps_unmatched_indices st)"

lemma chunk_positive: "0 < join_output_chunk_rows"
  by (simp add: join_output_chunk_rows_def)

lemma initial_buffered: "buffered direct n R f [] [] [] (initial_probe_state tracker keys)"
  by (auto simp: buffered_def initial_probe_state_def pieces_cover_def chunk_positive intro!: exI [of _ "[]"])

lemma pieces_cover_snoc:
  assumes "pieces_cover n R f batches pairs semis unmatched" "piece_ok n R p"
  shows "pieces_cover n R f (batches @ [f p]) (pairs @ piece_pairs p) (semis @ piece_semi p) (unmatched @ piece_unmatched p)"
proof -
  from assms(1) obtain pieces where "batches = map f pieces" "\<forall>p \<in> set pieces. piece_ok n R p"
    "concat (map piece_pairs pieces) = pairs" "concat (map piece_semi pieces) = semis" "concat (map piece_unmatched pieces) = unmatched"
    unfolding pieces_cover_def by blast
  with assms(2) show ?thesis unfolding pieces_cover_def by (intro exI [of _ "pieces @ [p]"]) auto
qed

text \<open>What a step leaves alone besides the chunks.\<close>

definition same_marks :: "('row, 'b) probe_state \<Rightarrow> ('row, 'b) probe_state \<Rightarrow> bool" where
  "same_marks st st' \<longleftrightarrow> ps_tracker st' = ps_tracker st \<and> ps_matched_keys st' = ps_matched_keys st"

definition step_to ::
    "('row, 'b) probe_state outcome \<Rightarrow> ('row, 'b) probe_state \<Rightarrow> bool \<Rightarrow> nat \<Rightarrow> build_row_ref set \<Rightarrow> (join_piece \<Rightarrow> 'b) \<Rightarrow>
     (nat \<times> build_row_ref) list \<Rightarrow> nat list \<Rightarrow> nat list \<Rightarrow> bool" where
  "step_to r st direct n R f pairs semis unmatched \<longleftrightarrow>
     (\<exists>st'. r = Some (Inr st') \<and> same_marks st st' \<and> buffered direct n R f pairs semis unmatched st')"

lemma step_toI: "r = Some (Inr st') \<Longrightarrow> same_marks st st' \<Longrightarrow> buffered direct n R f pairs semis unmatched st' \<Longrightarrow>
  step_to r st direct n R f pairs semis unmatched"
  by (auto simp: step_to_def)

lemma buffered_flush:
  assumes cover: "pieces_cover n R f (ps_output st) op os ou" and ok: "piece_ok n R p"
    and out: "ps_output st' = ps_output st @ [f p]"
    and buffers: "length (ps_build_refs st') = length (ps_probe_indices st')"
      "length (ps_probe_indices st') < join_output_chunk_rows" "length (ps_semi_indices st') < join_output_chunk_rows"
      "length (ps_unmatched_indices st') < join_output_chunk_rows"
      "\<forall>row \<in> set (ps_probe_indices st') \<union> set (ps_semi_indices st') \<union> set (ps_unmatched_indices st'). row < n"
      "set (ps_build_refs st') \<subseteq> R" "direct \<longrightarrow> ps_unmatched_indices st' = []"
    and eqs: "pairs = (op @ piece_pairs p) @ zip (ps_probe_indices st') (ps_build_refs st')"
      "semis = (os @ piece_semi p) @ ps_semi_indices st'" "unmatched = (ou @ piece_unmatched p) @ ps_unmatched_indices st'"
  shows "buffered direct n R f pairs semis unmatched st'"
proof -
  have "pieces_cover n R f (ps_output st') (op @ piece_pairs p) (os @ piece_semi p) (ou @ piece_unmatched p)"
    unfolding out by (rule pieces_cover_snoc [OF cover ok])
  then show ?thesis using buffers eqs unfolding buffered_def by blast
qed

lemma push_pair_step:
  assumes ctx: "context_ok n R side f ctx" and st: "buffered direct n R f pairs semis unmatched st" and row: "row < n" "r \<in> R"
  shows "step_to (push_hash_join_pair ctx row r st) st direct n R f (pairs @ [(row, r)]) semis unmatched"
proof -
  define st1 where "st1 = st\<lparr>ps_probe_indices := ps_probe_indices st @ [row], ps_build_refs := ps_build_refs st @ [r]\<rparr>"
  from st obtain op os ou where cover: "pieces_cover n R f (ps_output st) op os ou"
    "pairs = op @ zip (ps_probe_indices st) (ps_build_refs st)" "semis = os @ ps_semi_indices st" "unmatched = ou @ ps_unmatched_indices st"
    unfolding buffered_def by blast
  have len: "length (ps_build_refs st) = length (ps_probe_indices st)" using st by (simp add: buffered_def)
  show ?thesis
  proof (cases "length (ps_probe_indices st1) \<ge> join_output_chunk_rows")
    case True
    let ?p = "PiecePairs (ps_probe_indices st1) (ps_build_refs st1)"
    have ok: "piece_ok n R ?p" using st row True by (auto simp: st1_def buffered_def chunk_ok_def)
    then have mat: "ctx_materialize ctx ?p = Some (Inr (f ?p))" using ctx by (simp add: context_ok_def)
    define st2 where "st2 = st1\<lparr>ps_output := ps_output st1 @ [f ?p], ps_probe_indices := [], ps_build_refs := []\<rparr>"
    have "push_hash_join_pair ctx row r st = Some (Inr st2)"
      using True mat by (simp add: push_hash_join_pair_def Let_def flush_pairs_def emit_piece_def st2_def st1_def)
    moreover have "same_marks st st2" by (simp add: same_marks_def st2_def st1_def)
    moreover have "buffered direct n R f (pairs @ [(row, r)]) semis unmatched st2"
      using st len cover(2-4) chunk_positive
      by (intro buffered_flush [OF cover(1) ok]) (auto simp: st2_def st1_def buffered_def)
    ultimately show ?thesis by (rule step_toI)
  next
    case False
    then have "push_hash_join_pair ctx row r st = Some (Inr st1)" by (simp add: push_hash_join_pair_def Let_def st1_def)
    moreover have "same_marks st st1" by (simp add: same_marks_def st1_def)
    moreover have "buffered direct n R f (pairs @ [(row, r)]) semis unmatched st1"
      unfolding buffered_def using False st row len cover by (auto simp: st1_def buffered_def)
    ultimately show ?thesis by (rule step_toI)
  qed
qed

lemma push_semi_step:
  assumes ctx: "context_ok n R side f ctx" and st: "buffered direct n R f pairs semis unmatched st" and row: "row < n"
  shows "step_to (push_semi_index ctx row st) st direct n R f pairs (semis @ [row]) unmatched"
proof -
  define st1 where "st1 = st\<lparr>ps_semi_indices := ps_semi_indices st @ [row]\<rparr>"
  from st obtain op os ou where cover: "pieces_cover n R f (ps_output st) op os ou"
    "pairs = op @ zip (ps_probe_indices st) (ps_build_refs st)" "semis = os @ ps_semi_indices st" "unmatched = ou @ ps_unmatched_indices st"
    unfolding buffered_def by blast
  show ?thesis
  proof (cases "length (ps_semi_indices st1) \<ge> join_output_chunk_rows")
    case True
    let ?p = "PieceSemi (ps_semi_indices st1)"
    have ok: "piece_ok n R ?p" using st row True by (auto simp: st1_def buffered_def chunk_ok_def)
    then have mat: "ctx_materialize ctx ?p = Some (Inr (f ?p))" using ctx by (simp add: context_ok_def)
    define st2 where "st2 = st1\<lparr>ps_output := ps_output st1 @ [f ?p], ps_semi_indices := []\<rparr>"
    have "push_semi_index ctx row st = Some (Inr st2)"
      using True mat by (simp add: push_semi_index_def Let_def flush_semi_def emit_piece_def st2_def st1_def)
    moreover have "same_marks st st2" by (simp add: same_marks_def st2_def st1_def)
    moreover have "buffered direct n R f pairs (semis @ [row]) unmatched st2"
      using st cover(2-4) chunk_positive
      by (intro buffered_flush [OF cover(1) ok]) (auto simp: st2_def st1_def buffered_def)
    ultimately show ?thesis by (rule step_toI)
  next
    case False
    then have "push_semi_index ctx row st = Some (Inr st1)" by (simp add: push_semi_index_def Let_def st1_def)
    moreover have "same_marks st st1" by (simp add: same_marks_def st1_def)
    moreover have "buffered direct n R f pairs (semis @ [row]) unmatched st1"
      unfolding buffered_def using False st row cover by (auto simp: st1_def buffered_def)
    ultimately show ?thesis by (rule step_toI)
  qed
qed

lemma push_unmatched_step:
  assumes ctx: "context_ok n R side f ctx" and st: "buffered False n R f pairs semis unmatched st" and row: "row < n" "n \<le> 2 ^ 32"
  shows "step_to (push_unmatched_probe_match ctx jt row st) st False n R f pairs semis
    (unmatched @ (if emits_unmatched_probe jt side then [row] else []))"
proof (cases "emits_unmatched_probe jt side")
  case False
  with ctx have "push_unmatched_probe_match ctx jt row st = Some (Inr st)" by (simp add: push_unmatched_probe_match_def context_ok_def)
  with st False show ?thesis by (auto simp: step_to_def same_marks_def)
next
  case emits: True
  define st1 where "st1 = st\<lparr>ps_unmatched_indices := ps_unmatched_indices st @ [row]\<rparr>"
  from st obtain op os ou where cover: "pieces_cover n R f (ps_output st) op os ou"
    "pairs = op @ zip (ps_probe_indices st) (ps_build_refs st)" "semis = os @ ps_semi_indices st" "unmatched = ou @ ps_unmatched_indices st"
    unfolding buffered_def by blast
  have side: "ctx_build_side ctx = side" and small: "\<not> row \<ge> 2 ^ 32" using ctx row by (auto simp: context_ok_def)
  show ?thesis
  proof (cases "length (ps_unmatched_indices st1) \<ge> join_output_chunk_rows")
    case True
    let ?p = "PieceUnmatchedProbe (ps_unmatched_indices st1)"
    have ok: "piece_ok n R ?p" using st row True by (auto simp: st1_def buffered_def chunk_ok_def)
    then have mat: "ctx_materialize ctx ?p = Some (Inr (f ?p))" using ctx by (simp add: context_ok_def)
    define st2 where "st2 = st1\<lparr>ps_output := ps_output st1 @ [f ?p], ps_unmatched_indices := []\<rparr>"
    have "push_unmatched_probe_match ctx jt row st = Some (Inr st2)" unfolding push_unmatched_probe_match_def side
      using True mat emits small by (simp add: Let_def flush_unmatched_def emit_piece_def st2_def st1_def)
    moreover have "same_marks st st2" by (simp add: same_marks_def st2_def st1_def)
    moreover have "buffered False n R f pairs semis (unmatched @ [row]) st2"
      using st cover(2-4) chunk_positive
      by (intro buffered_flush [OF cover(1) ok]) (auto simp: st2_def st1_def buffered_def)
    ultimately show ?thesis using emits by (auto intro: step_toI)
  next
    case False
    then have "push_unmatched_probe_match ctx jt row st = Some (Inr st1)" unfolding push_unmatched_probe_match_def side
      using emits small by (simp add: Let_def st1_def)
    moreover have "same_marks st st1" by (simp add: same_marks_def st1_def)
    moreover have "buffered False n R f pairs semis (unmatched @ [row]) st1"
      unfolding buffered_def using False st row cover by (auto simp: st1_def buffered_def)
    ultimately show ?thesis using emits by (auto intro: step_toI)
  qed
qed

lemma push_unmatched_row_step:
  assumes ctx: "context_ok n R side f ctx" and st: "buffered True n R f pairs semis unmatched st" and row: "row < n" "n \<le> 2 ^ 32"
  shows "step_to (push_unmatched_probe_if_outer ctx jt row st) st True n R f pairs semis
    (unmatched @ (if emits_unmatched_probe jt side then [row] else []))"
proof (cases "emits_unmatched_probe jt side")
  case False
  with ctx have "push_unmatched_probe_if_outer ctx jt row st = Some (Inr st)" by (simp add: push_unmatched_probe_if_outer_def context_ok_def)
  with st False show ?thesis by (auto simp: step_to_def same_marks_def)
next
  case emits: True
  from st obtain op os ou where cover: "pieces_cover n R f (ps_output st) op os ou"
    "pairs = op @ zip (ps_probe_indices st) (ps_build_refs st)" "semis = os @ ps_semi_indices st" "unmatched = ou @ ps_unmatched_indices st"
    unfolding buffered_def by blast
  have side: "ctx_build_side ctx = side" and small: "\<not> row \<ge> 2 ^ 32" using ctx row by (auto simp: context_ok_def)
  let ?p = "PieceUnmatchedProbeRow row"
  have ok: "piece_ok n R ?p" using row by simp
  then have mat: "ctx_materialize ctx ?p = Some (Inr (f ?p))" using ctx by (simp add: context_ok_def)
  define st2 where "st2 = st\<lparr>ps_output := ps_output st @ [f ?p]\<rparr>"
  have "push_unmatched_probe_if_outer ctx jt row st = Some (Inr st2)" unfolding push_unmatched_probe_if_outer_def side
    using mat emits small by (simp add: emit_piece_def st2_def)
  moreover have "same_marks st st2" by (simp add: same_marks_def st2_def)
  moreover have "buffered True n R f pairs semis (unmatched @ [row]) st2"
    using st cover(2-4) by (intro buffered_flush [OF cover(1) ok]) (auto simp: st2_def buffered_def)
  ultimately show ?thesis using emits by (auto intro: step_toI)
qed


lemma push_matches_step:
  assumes ctx: "context_ok n R side f ctx" and st: "buffered direct n R f pairs semis unmatched st" and row: "row < n" "set refs \<subseteq> R"
  shows "step_to (push_hash_join_matches ctx row refs st) st direct n R f (pairs @ map (Pair row) refs) semis unmatched"
  using st row(2)
proof (induction refs arbitrary: pairs st)
  case Nil
  then show ?case by (auto simp: push_hash_join_matches_def step_to_def same_marks_def)
next
  case (Cons r refs)
  have "r \<in> R" using Cons.prems(2) by simp
  from push_pair_step [OF ctx Cons.prems(1) row(1) this] obtain st1 where
    st1: "push_hash_join_pair ctx row r st = Some (Inr st1)" "same_marks st st1" "buffered direct n R f (pairs @ [(row, r)]) semis unmatched st1"
    unfolding step_to_def by blast
  have "step_to (push_hash_join_matches ctx row refs st1) st1 direct n R f ((pairs @ [(row, r)]) @ map (Pair row) refs) semis unmatched"
    using Cons.IH [OF st1(3)] Cons.prems(2) by simp
  with st1(1,2) show ?case by (auto simp: push_hash_join_matches_def step_to_def same_marks_def)
qed

text \<open>The chunks that are left at the end.\<close>

lemma finish_pairs_step:
  assumes ctx: "context_ok n R side f ctx" and st: "buffered direct n R f pairs semis unmatched st"
  shows "\<exists>st'. finish_pairs ctx st = Some (Inr st') \<and> same_marks st st' \<and> buffered direct n R f pairs semis unmatched st' \<and>
     ps_probe_indices st' = [] \<and> ps_semi_indices st' = ps_semi_indices st \<and> ps_unmatched_indices st' = ps_unmatched_indices st"
proof (cases "ps_probe_indices st = []")
  case True
  with st show ?thesis by (auto simp: finish_pairs_def same_marks_def)
next
  case False
  from st obtain op os ou where cover: "pieces_cover n R f (ps_output st) op os ou"
    "pairs = op @ zip (ps_probe_indices st) (ps_build_refs st)" "semis = os @ ps_semi_indices st" "unmatched = ou @ ps_unmatched_indices st"
    unfolding buffered_def by blast
  let ?p = "PiecePairs (ps_probe_indices st) (ps_build_refs st)"
  have ok: "piece_ok n R ?p" using st False by (auto simp: buffered_def chunk_ok_def)
  then have mat: "ctx_materialize ctx ?p = Some (Inr (f ?p))" using ctx by (simp add: context_ok_def)
  define st2 where "st2 = st\<lparr>ps_output := ps_output st @ [f ?p], ps_probe_indices := [], ps_build_refs := []\<rparr>"
  have "finish_pairs ctx st = Some (Inr st2)" using False mat by (simp add: finish_pairs_def flush_pairs_def emit_piece_def st2_def)
  moreover have "buffered direct n R f pairs semis unmatched st2"
    using st cover(2-4) chunk_positive by (intro buffered_flush [OF cover(1) ok]) (auto simp: st2_def buffered_def)
  ultimately show ?thesis by (auto simp: same_marks_def st2_def)
qed

lemma finish_semi_step:
  assumes ctx: "context_ok n R side f ctx" and st: "buffered direct n R f pairs semis unmatched st"
  shows "\<exists>st'. finish_semi ctx st = Some (Inr st') \<and> same_marks st st' \<and> buffered direct n R f pairs semis unmatched st' \<and>
     ps_semi_indices st' = [] \<and> ps_probe_indices st' = ps_probe_indices st \<and> ps_unmatched_indices st' = ps_unmatched_indices st"
proof (cases "ps_semi_indices st = []")
  case True
  with st show ?thesis by (auto simp: finish_semi_def same_marks_def)
next
  case False
  from st obtain op os ou where cover: "pieces_cover n R f (ps_output st) op os ou"
    "pairs = op @ zip (ps_probe_indices st) (ps_build_refs st)" "semis = os @ ps_semi_indices st" "unmatched = ou @ ps_unmatched_indices st"
    unfolding buffered_def by blast
  let ?p = "PieceSemi (ps_semi_indices st)"
  have ok: "piece_ok n R ?p" using st False by (auto simp: buffered_def chunk_ok_def)
  then have mat: "ctx_materialize ctx ?p = Some (Inr (f ?p))" using ctx by (simp add: context_ok_def)
  define st2 where "st2 = st\<lparr>ps_output := ps_output st @ [f ?p], ps_semi_indices := []\<rparr>"
  have "finish_semi ctx st = Some (Inr st2)" using False mat by (simp add: finish_semi_def flush_semi_def emit_piece_def st2_def)
  moreover have "buffered direct n R f pairs semis unmatched st2"
    using st cover(2-4) chunk_positive by (intro buffered_flush [OF cover(1) ok]) (auto simp: st2_def buffered_def)
  ultimately show ?thesis by (auto simp: same_marks_def st2_def)
qed

lemma finish_unmatched_step:
  assumes ctx: "context_ok n R side f ctx" and st: "buffered direct n R f pairs semis unmatched st"
  shows "\<exists>st'. finish_unmatched ctx st = Some (Inr st') \<and> same_marks st st' \<and> buffered direct n R f pairs semis unmatched st' \<and>
     ps_unmatched_indices st' = [] \<and> ps_probe_indices st' = ps_probe_indices st \<and> ps_semi_indices st' = ps_semi_indices st"
proof (cases "ps_unmatched_indices st = []")
  case True
  with st show ?thesis by (auto simp: finish_unmatched_def same_marks_def)
next
  case False
  from st obtain op os ou where cover: "pieces_cover n R f (ps_output st) op os ou"
    "pairs = op @ zip (ps_probe_indices st) (ps_build_refs st)" "semis = os @ ps_semi_indices st" "unmatched = ou @ ps_unmatched_indices st"
    unfolding buffered_def by blast
  let ?p = "PieceUnmatchedProbe (ps_unmatched_indices st)"
  have ok: "piece_ok n R ?p" using st False by (auto simp: buffered_def chunk_ok_def)
  then have mat: "ctx_materialize ctx ?p = Some (Inr (f ?p))" using ctx by (simp add: context_ok_def)
  define st2 where "st2 = st\<lparr>ps_output := ps_output st @ [f ?p], ps_unmatched_indices := []\<rparr>"
  have "finish_unmatched ctx st = Some (Inr st2)" using False mat by (simp add: finish_unmatched_def flush_unmatched_def emit_piece_def st2_def)
  moreover have "buffered direct n R f pairs semis unmatched st2"
    using st cover(2-4) chunk_positive by (intro buffered_flush [OF cover(1) ok]) (auto simp: st2_def buffered_def)
  ultimately show ?thesis by (auto simp: same_marks_def st2_def)
qed

lemma buffered_empty:
  assumes "buffered direct n R f pairs semis unmatched st" "ps_probe_indices st = []" "ps_semi_indices st = []" "ps_unmatched_indices st = []"
  shows "pieces_cover n R f (ps_output st) pairs semis unmatched"
  using assms by (auto simp: buffered_def)

subsection \<open>The reference join\<close>

text \<open>The matches of the probe rows, and what a join makes of them.\<close>

definition join_pairs :: "join_type \<Rightarrow> (nat \<Rightarrow> build_row_ref list) \<Rightarrow> nat list \<Rightarrow> (nat \<times> build_row_ref) list" where
  "join_pairs jt matches rows = (if jt = JoinSemi then [] else concat (map (\<lambda>row. map (Pair row) (matches row)) rows))"

definition join_semi_rows :: "join_type \<Rightarrow> (nat \<Rightarrow> build_row_ref list) \<Rightarrow> nat list \<Rightarrow> nat list" where
  "join_semi_rows jt matches rows = (if jt = JoinSemi then filter (\<lambda>row. matches row \<noteq> []) rows else [])"

definition join_unmatched_rows :: "join_type \<Rightarrow> join_build_side \<Rightarrow> (nat \<Rightarrow> build_row_ref list) \<Rightarrow> nat list \<Rightarrow> nat list" where
  "join_unmatched_rows jt side matches rows = (if emits_unmatched_probe jt side then filter (\<lambda>row. matches row = []) rows else [])"

definition matched_refs :: "(nat \<Rightarrow> build_row_ref list) \<Rightarrow> nat list \<Rightarrow> build_row_ref set" where
  "matched_refs matches rows = (\<Union>row \<in> set rows. set (matches row))"

definition probe_matches :: "string list \<Rightarrow> record_batch \<Rightarrow> (cell option list \<times> build_row_ref) list \<Rightarrow> nat \<Rightarrow> build_row_ref list" where
  "probe_matches keys probe kvs row = (case row_key keys probe row of None \<Rightarrow> [] | Some k \<Rightarrow> group_refs kvs k)"

text \<open>What the tracker knows: a set is the matched references, and the flags of a dense table are those of its rows.\<close>

fun tracker_knows :: "dense_i32_rows option \<Rightarrow> matched_build_tracker option \<Rightarrow> build_row_ref set \<Rightarrow> bool" where
  "tracker_knows dense None S \<longleftrightarrow> True"
| "tracker_knows dense (Some (TrackSet rows)) S \<longleftrightarrow> dense = None \<and> rows = S"
| "tracker_knows None (Some (TrackDenseI32 min0 matched matched_count)) S \<longleftrightarrow> False"
| "tracker_knows (Some d) (Some (TrackDenseI32 min0 matched matched_count)) S \<longleftrightarrow>
     min0 = dense_min d \<and> length matched = dense_len d \<and> matched_count = length (filter id matched) \<and>
     (\<forall>i < dense_len d. matched ! i \<longleftrightarrow> (\<exists>r \<in> S. dense_slots d ! i = Some r))"

lemma mark_refs_knows: "tracker_knows None t S \<Longrightarrow> tracker_knows None (map_option (mark_refs refs) t) (S \<union> set refs)"
  by (cases "(None :: dense_i32_rows option, t, S)" rule: tracker_knows.cases) (auto simp: mark_refs_def)

lemma mark_ref_knows: "tracker_knows None t S \<Longrightarrow> tracker_knows None (map_option (mark_ref r) t) (insert r S)"
  by (cases "(None :: dense_i32_rows option, t, S)" rule: tracker_knows.cases) (auto simp: mark_ref_def)


lemma dense_unique_slots:
  assumes "dense_unique_represents 32 d kvs" "distinct (map snd kvs)" "i < dense_len d" "j < dense_len d"
    "dense_slots d ! i = Some r" "dense_slots d ! j = Some r"
  shows "i = j"
proof -
  have slot: "(dense_min d + int l, r) \<in> set kvs" if "l < dense_len d" "dense_slots d ! l = Some r" for l
  proof -
    from assms(1) that have "unique_ref kvs (dense_min d + int l) = Some r" by (simp add: dense_unique_represents_def dense_holds_def)
    then have "group_refs kvs (dense_min d + int l) = [r]" by (auto simp: unique_ref_def split: list.splits)
    then show ?thesis using set_group_refs [of r kvs "dense_min d + int l"] by simp
  qed
  have "inj_on snd (set kvs)" using assms(2) by (simp add: distinct_map)
  from inj_onD [OF this _ slot [OF assms(3,5)] slot [OF assms(4,6)]] have "dense_min d + int i = dense_min d + int j" by simp
  then show ?thesis by simp
qed

lemma dense_i32_slot:
  assumes "dense_i32_get d k = Some r"
  shows "\<exists>index. i32_checked (k - dense_min d) = Some index \<and> as_usize index < dense_len d \<and> dense_slots d ! as_usize index = Some r"
  using assms by (auto simp: dense_get_eqs dense_get_def bind_eq_Some_conv vec_get_def split: if_splits)

lemma count_flags_update: "i < length bs \<Longrightarrow> \<not> bs ! i \<Longrightarrow> length (filter id (bs[i := True])) = length (filter id bs) + 1"
proof (induction bs arbitrary: i)
  case (Cons b bs)
  then show ?case by (cases i) auto
qed simp

lemma mark_i32_key_knows:
  assumes knows: "tracker_knows (Some d) t S" and get: "dense_i32_get d k = Some r"
    and rep: "dense_unique_represents 32 d kvs" "distinct (map snd kvs)"
  shows "tracker_knows (Some d) (map_option (mark_i32_key k) t) (insert r S)"
proof (cases t)
  case (Some tr)
  with knows obtain min0 matched matched_count where tr: "tr = TrackDenseI32 min0 matched matched_count" by (cases tr) auto
  from dense_i32_slot [OF get] obtain index where
    ix: "i32_checked (k - dense_min d) = Some index" "as_usize index < dense_len d" "dense_slots d ! as_usize index = Some r" by blast
  from knows Some tr have inv: "min0 = dense_min d" "length matched = dense_len d" "matched_count = length (filter id matched)"
    "\<And>i. i < dense_len d \<Longrightarrow> matched ! i \<longleftrightarrow> (\<exists>r \<in> S. dense_slots d ! i = Some r)" by auto
  have slots: "matched ! i \<or> i = as_usize index \<longleftrightarrow> (\<exists>r' \<in> insert r S. dense_slots d ! i = Some r')" if "i < dense_len d" for i
    using inv(4) [OF that] ix(3) dense_unique_slots [OF rep that ix(2) _ ix(3)] by auto
  show ?thesis
  proof (cases "matched ! as_usize index")
    case True
    then have "mark_i32_key k tr = tr" using ix inv(1,2) by (simp add: mark_i32_key_def tr vec_get_def)
    with Some tr inv slots True show ?thesis by auto
  next
    case False
    then have "mark_i32_key k tr = TrackDenseI32 min0 (matched[as_usize index := True]) (matched_count + 1)"
      using ix inv(1,2) by (simp add: mark_i32_key_def tr vec_get_def)
    moreover have "matched[as_usize index := True] ! i \<longleftrightarrow> (\<exists>r' \<in> insert r S. dense_slots d ! i = Some r')" if "i < dense_len d" for i
      unfolding slots [OF that, symmetric] using that inv(2) ix(2) by (cases "i = as_usize index") auto
    ultimately show ?thesis using Some inv ix(2) False by (simp add: count_flags_update)
  qed
qed simp

subsection \<open>One row and all rows\<close>

definition probe_inv ::
    "bool \<Rightarrow> nat \<Rightarrow> build_row_ref set \<Rightarrow> (join_piece \<Rightarrow> 'b) \<Rightarrow> join_type \<Rightarrow> join_build_side \<Rightarrow> (nat \<Rightarrow> build_row_ref list) \<Rightarrow>
     dense_i32_rows option \<Rightarrow> build_row_ref set \<Rightarrow> bool \<Rightarrow> nat list \<Rightarrow> ('row, 'b) probe_state \<Rightarrow> bool" where
  "probe_inv direct n R f jt side matches dense S tracked rows st \<longleftrightarrow>
     buffered direct n R f (join_pairs jt matches rows) (join_semi_rows jt matches rows) (join_unmatched_rows jt side matches rows) st \<and>
     tracker_knows dense (ps_tracker st) (S \<union> matched_refs matches rows) \<and> (ps_tracker st \<noteq> None \<longleftrightarrow> tracked)"

definition probed ::
    "nat \<Rightarrow> build_row_ref set \<Rightarrow> (join_piece \<Rightarrow> 'b) \<Rightarrow> join_type \<Rightarrow> join_build_side \<Rightarrow> (nat \<Rightarrow> build_row_ref list) \<Rightarrow>
     dense_i32_rows option \<Rightarrow> build_row_ref set \<Rightarrow> bool \<Rightarrow> ('row, 'b) probe_state outcome \<Rightarrow> bool" where
  "probed n R f jt side matches dense S tracked r \<longleftrightarrow>
     (\<exists>st. r = Some (Inr st) \<and>
        pieces_cover n R f (ps_output st) (join_pairs jt matches [0..<n]) (join_semi_rows jt matches [0..<n])
          (join_unmatched_rows jt side matches [0..<n]) \<and>
        tracker_knows dense (ps_tracker st) (S \<union> matched_refs matches [0..<n]) \<and> (ps_tracker st \<noteq> None \<longleftrightarrow> tracked))"

lemma initial_probe_inv:
  "tracker_knows dense t S \<Longrightarrow> probe_inv direct n R f jt side matches dense S (t \<noteq> None) [] (initial_probe_state t keys)"
  using initial_buffered [of direct n R f t keys]
  by (simp add: probe_inv_def join_pairs_def join_semi_rows_def join_unmatched_rows_def matched_refs_def initial_probe_state_def)

lemma probe_loop:
  assumes step: "\<And>row rows st. row < n \<Longrightarrow> probe_inv direct n R f jt side matches dense S tracked rows st \<Longrightarrow>
      \<exists>st'. step row st = Some (Inr st') \<and> probe_inv direct n R f jt side matches dense S tracked (rows @ [row]) st'"
    and st: "probe_inv direct n R f jt side matches dense S tracked [] st" and m: "m \<le> n"
  shows "\<exists>st'. fold_outcome step [0..<m] st = Some (Inr st') \<and> probe_inv direct n R f jt side matches dense S tracked [0..<m] st'"
  using m
proof (induction m)
  case 0
  with st show ?case by simp
next
  case (Suc m)
  then obtain st1 where st1: "fold_outcome step [0..<m] st = Some (Inr st1)"
    "probe_inv direct n R f jt side matches dense S tracked [0..<m] st1" by auto
  from step [OF _ st1(2), of m] Suc.prems obtain st2 where
    "step m st1 = Some (Inr st2)" "probe_inv direct n R f jt side matches dense S tracked ([0..<m] @ [m]) st2" by auto
  with st1(1) show ?case by (auto simp: fold_outcome_append)
qed

lemma buffered_mark [simp]:
  "buffered direct n R f pairs semis unmatched (mark_tracker g st) \<longleftrightarrow> buffered direct n R f pairs semis unmatched st"
  "buffered direct n R f pairs semis unmatched (mark_probe_match k st) \<longleftrightarrow> buffered direct n R f pairs semis unmatched st"
  by (simp_all add: buffered_def mark_tracker_def mark_probe_match_def)

lemma mark_tracker_sel [simp]: "ps_tracker (mark_tracker g st) = map_option g (ps_tracker st)"
  "ps_tracker (mark_probe_match k st) = ps_tracker st"
  by (simp_all add: mark_tracker_def mark_probe_match_def)

text \<open>A row without a match, and a row with its matches.\<close>

lemma unmatched_row_inv:
  assumes inv: "probe_inv direct n R f jt side matches dense S tracked rows st" and none: "matches row = []"
    and step: "\<And>pairs semis unmatched. buffered direct n R f pairs semis unmatched st \<Longrightarrow>
      step_to r st direct n R f pairs semis (unmatched @ (if emits_unmatched_probe jt side then [row] else []))"
  shows "\<exists>st'. r = Some (Inr st') \<and> probe_inv direct n R f jt side matches dense S tracked (rows @ [row]) st'"
proof -
  from step inv obtain st' where st': "r = Some (Inr st')" "same_marks st st'"
    "buffered direct n R f (join_pairs jt matches rows) (join_semi_rows jt matches rows)
      (join_unmatched_rows jt side matches rows @ (if emits_unmatched_probe jt side then [row] else [])) st'"
    unfolding probe_inv_def step_to_def by blast
  have "join_pairs jt matches (rows @ [row]) = join_pairs jt matches rows" "join_semi_rows jt matches (rows @ [row]) = join_semi_rows jt matches rows"
    "join_unmatched_rows jt side matches (rows @ [row]) = join_unmatched_rows jt side matches rows @ (if emits_unmatched_probe jt side then [row] else [])"
    "matched_refs matches (rows @ [row]) = matched_refs matches rows"
    using none by (simp_all add: join_pairs_def join_semi_rows_def join_unmatched_rows_def matched_refs_def)
  with st' inv show ?thesis by (simp add: probe_inv_def same_marks_def)
qed

lemma matched_row_inv:
  assumes inv: "probe_inv direct n R f jt side matches dense S tracked rows st" and some: "matches row \<noteq> []"
    and marked: "\<And>pairs semis unmatched. buffered direct n R f pairs semis unmatched st \<Longrightarrow> buffered direct n R f pairs semis unmatched st1"
      "ps_tracker st1 \<noteq> None \<longleftrightarrow> ps_tracker st \<noteq> None"
      "tracker_knows dense (ps_tracker st) (S \<union> matched_refs matches rows) \<Longrightarrow>
        tracker_knows dense (ps_tracker st1) (S \<union> matched_refs matches rows \<union> set (matches row))"
    and step: "\<And>pairs semis unmatched. buffered direct n R f pairs semis unmatched st1 \<Longrightarrow>
      step_to r st1 direct n R f (pairs @ (if jt = JoinSemi then [] else map (Pair row) (matches row)))
        (semis @ (if jt = JoinSemi then [row] else [])) unmatched"
  shows "\<exists>st'. r = Some (Inr st') \<and> probe_inv direct n R f jt side matches dense S tracked (rows @ [row]) st'"
proof -
  have st: "buffered direct n R f (join_pairs jt matches rows) (join_semi_rows jt matches rows) (join_unmatched_rows jt side matches rows) st"
    using inv by (simp add: probe_inv_def)
  from step [OF marked(1) [OF st]] obtain st' where st': "r = Some (Inr st')" "same_marks st1 st'"
    "buffered direct n R f (join_pairs jt matches rows @ (if jt = JoinSemi then [] else map (Pair row) (matches row)))
      (join_semi_rows jt matches rows @ (if jt = JoinSemi then [row] else [])) (join_unmatched_rows jt side matches rows) st'"
    unfolding step_to_def by blast
  have "join_pairs jt matches (rows @ [row]) = join_pairs jt matches rows @ (if jt = JoinSemi then [] else map (Pair row) (matches row))"
    "join_semi_rows jt matches (rows @ [row]) = join_semi_rows jt matches rows @ (if jt = JoinSemi then [row] else [])"
    "join_unmatched_rows jt side matches (rows @ [row]) = join_unmatched_rows jt side matches rows"
    "matched_refs matches (rows @ [row]) = matched_refs matches rows \<union> set (matches row)"
    using some by (auto simp: join_pairs_def join_semi_rows_def join_unmatched_rows_def matched_refs_def)
  with st' inv marked(2,3) show ?thesis by (simp add: probe_inv_def same_marks_def Un_assoc)
qed

lemma probe_row_inv:
  assumes inv: "probe_inv direct n R f jt side matches dense S tracked rows st" and small: "row < n" "n \<le> 2 ^ 32"
    and found: "Option.bind (key row) get = None \<Longrightarrow> matches row = []"
      "\<And>k m. key row = Some k \<Longrightarrow> get k = Some m \<Longrightarrow> matches row = refs m \<and> refs m \<noteq> []"
    and unmatched: "\<And>pairs semis unm. buffered direct n R f pairs semis unm st \<Longrightarrow>
      step_to (unmatched row st) st direct n R f pairs semis (unm @ (if emits_unmatched_probe jt side then [row] else []))"
    and mark: "\<And>k m T. key row = Some k \<Longrightarrow> get k = Some m \<Longrightarrow> tracker_knows dense (ps_tracker st) T \<Longrightarrow>
      tracker_knows dense (map_option (marks k m) (ps_tracker st)) (T \<union> set (refs m))"
    and push: "\<And>k m pairs semis unm st. key row = Some k \<Longrightarrow> get k = Some m \<Longrightarrow> buffered direct n R f pairs semis unm st \<Longrightarrow>
      step_to (push row m st) st direct n R f (pairs @ (if jt = JoinSemi then [] else map (Pair row) (refs m)))
        (semis @ (if jt = JoinSemi then [row] else [])) unm"
  shows "\<exists>st'. probe_row unmatched key get (\<lambda>k m. mark_tracker (marks k m)) push row st = Some (Inr st') \<and>
     probe_inv direct n R f jt side matches dense S tracked (rows @ [row]) st'"
proof (cases "Option.bind (key row) get")
  case None
  then have "probe_row unmatched key get (\<lambda>k m. mark_tracker (marks k m)) push row st = unmatched row st"
    by (auto simp: probe_row_def split: option.splits)
  with unmatched_row_inv [OF inv found(1) [OF None] unmatched] show ?thesis by simp
next
  case (Some m)
  then obtain k where k: "key row = Some k" "get k = Some m" by (auto simp: bind_eq_Some_conv)
  with small have "probe_row unmatched key get (\<lambda>k m. mark_tracker (marks k m)) push row st = push row m (mark_tracker (marks k m) st)"
    by (simp add: probe_row_def)
  moreover have "\<exists>st'. push row m (mark_tracker (marks k m) st) = Some (Inr st') \<and> probe_inv direct n R f jt side matches dense S tracked (rows @ [row]) st'"
    by (rule matched_row_inv [OF inv, where ?st1.0 = "mark_tracker (marks k m) st"]) (use found(2) [OF k] mark [OF k] push [OF k] in auto)
  ultimately show ?thesis by simp
qed

lemma finish_probed:
  assumes ctx: "context_ok n R side f ctx" and inv: "probe_inv True n R f jt side matches dense S tracked [0..<n] st"
  shows "probed n R f jt side matches dense S tracked (outcome_bind (finish_pairs ctx st) (finish_semi ctx))"
proof -
  have st: "buffered True n R f (join_pairs jt matches [0..<n]) (join_semi_rows jt matches [0..<n]) (join_unmatched_rows jt side matches [0..<n]) st"
    using inv by (simp add: probe_inv_def)
  from finish_pairs_step [OF ctx st] obtain st1 where st1: "finish_pairs ctx st = Some (Inr st1)" "same_marks st st1" "ps_probe_indices st1 = []"
    "buffered True n R f (join_pairs jt matches [0..<n]) (join_semi_rows jt matches [0..<n]) (join_unmatched_rows jt side matches [0..<n]) st1" by blast
  from finish_semi_step [OF ctx st1(4)] st1(3) obtain st2 where st2: "finish_semi ctx st1 = Some (Inr st2)" "same_marks st1 st2"
    "ps_semi_indices st2 = []" "ps_probe_indices st2 = []"
    "buffered True n R f (join_pairs jt matches [0..<n]) (join_semi_rows jt matches [0..<n]) (join_unmatched_rows jt side matches [0..<n]) st2" by auto
  moreover have "ps_unmatched_indices st2 = []" using st2(5) by (simp add: buffered_def)
  ultimately show ?thesis using st1(1,2) inv buffered_empty [OF st2(5)] by (auto simp: probed_def probe_inv_def same_marks_def)
qed


subsection \<open>The loops\<close>

text \<open>The loop in blocks is the loop over all rows.\<close>

lemma probe_blocks_rows: "i \<le> n \<Longrightarrow> probe_blocks f n i st = fold_outcome f [i..<n] st"
proof (induction f n i st rule: probe_blocks.induct)
  case (1 f n i st)
  let ?m = "min (n - i) 64"
  show ?case
  proof (cases "i < n")
    case True
    have "fold_outcome (\<lambda>lane. f (i + lane)) [0..<?m] st = fold_outcome f [i..<i + ?m] st"
    proof -
      have "[i..<i + ?m] = map (\<lambda>lane. i + lane) [0..<?m]" by (intro nth_equalityI) auto
      then show ?thesis by (simp only: fold_outcome_map)
    qed
    moreover have "probe_blocks f n (i + ?m) = fold_outcome f [i + ?m..<n]"
      by (rule ext, rule 1(1) [OF True refl]) (use True in auto)
    moreover have "[i..<n] = [i..<i + ?m] @ [i + ?m..<n]" using True upt_add_eq_append [of i "i + ?m" "n - (i + ?m)"] by simp
    ultimately show ?thesis using True by (simp add: probe_blocks.simps [of f n i] Let_def fold_outcome_append del: upt_Suc)
  qed (use 1(2) in \<open>simp add: probe_blocks.simps\<close>)
qed

lemma no_nulls_key:
  assumes "null_count column = 0" "row < length column"
  shows "column_key column row = Some (value_at column row)"
proof -
  have "column ! row \<noteq> None" using assms nth_mem [of row column] by (auto simp: null_count_def filter_empty_conv)
  then show ?thesis using assms(2) by (simp add: column_key_def is_null_at_def vec_get_def)
qed

text \<open>The two ways a loop runs over a column: in blocks when it has no nulls, and row by row.\<close>

lemma blocks_or_rows:
  assumes "length column = n"
  shows "(if null_count column = 0
      then probe_blocks (probe_row u (\<lambda>row. Some (value_at column row)) get mark push) n 0 st
      else fold_outcome (probe_row u (column_key column) get mark push) [0..<n] st) =
     fold_outcome (probe_row u (column_key column) get mark push) [0..<n] st"
proof (cases "null_count column = 0")
  case True
  have "fold_outcome (probe_row u (\<lambda>row. Some (value_at column row)) get mark push) [0..<n] st =
      fold_outcome (probe_row u (column_key column) get mark push) [0..<n] st"
    by (rule fold_outcome_cong) (simp add: probe_row_def no_nulls_key [OF True] assms)
  with True show ?thesis by (simp add: probe_blocks_rows)
qed simp


lemma finish_probed_pairs:
  assumes ctx: "context_ok n R side f ctx" and inv: "probe_inv True n R f jt side matches dense S tracked [0..<n] st" and jt: "jt \<noteq> JoinSemi"
  shows "probed n R f jt side matches dense S tracked (finish_pairs ctx st)"
proof -
  have st: "buffered True n R f (join_pairs jt matches [0..<n]) (join_semi_rows jt matches [0..<n]) (join_unmatched_rows jt side matches [0..<n]) st"
    using inv by (simp add: probe_inv_def)
  then have "ps_semi_indices st = []" using jt by (auto simp: buffered_def join_semi_rows_def)
  with finish_pairs_step [OF ctx st] obtain st1 where st1: "finish_pairs ctx st = Some (Inr st1)" "same_marks st st1"
    "ps_probe_indices st1 = []" "ps_semi_indices st1 = []"
    "buffered True n R f (join_pairs jt matches [0..<n]) (join_semi_rows jt matches [0..<n]) (join_unmatched_rows jt side matches [0..<n]) st1" by auto
  moreover have "ps_unmatched_indices st1 = []" using st1(5) by (simp add: buffered_def)
  ultimately show ?thesis using inv buffered_empty [OF st1(5)] by (auto simp: probed_def probe_inv_def same_marks_def)
qed

lemma finish_probed_unmatched:
  assumes ctx: "context_ok n R side f ctx" and inv: "probe_inv False n R f jt side matches dense S tracked [0..<n] st" and jt: "jt \<noteq> JoinSemi"
  shows "probed n R f jt side matches dense S tracked (outcome_bind (finish_pairs ctx st) (finish_unmatched ctx))"
proof -
  have st: "buffered False n R f (join_pairs jt matches [0..<n]) (join_semi_rows jt matches [0..<n]) (join_unmatched_rows jt side matches [0..<n]) st"
    using inv by (simp add: probe_inv_def)
  then have "ps_semi_indices st = []" using jt by (auto simp: buffered_def join_semi_rows_def)
  with finish_pairs_step [OF ctx st] obtain st1 where st1: "finish_pairs ctx st = Some (Inr st1)" "same_marks st st1"
    "ps_probe_indices st1 = []" "ps_semi_indices st1 = []"
    "buffered False n R f (join_pairs jt matches [0..<n]) (join_semi_rows jt matches [0..<n]) (join_unmatched_rows jt side matches [0..<n]) st1" by auto
  from finish_unmatched_step [OF ctx st1(5)] st1(3,4) obtain st2 where st2: "finish_unmatched ctx st1 = Some (Inr st2)" "same_marks st1 st2"
    "ps_unmatched_indices st2 = []" "ps_probe_indices st2 = []" "ps_semi_indices st2 = []"
    "buffered False n R f (join_pairs jt matches [0..<n]) (join_semi_rows jt matches [0..<n]) (join_unmatched_rows jt side matches [0..<n]) st2" by auto
  with st1(1,2) inv buffered_empty [OF st2(6)] show ?thesis by (auto simp: probed_def probe_inv_def same_marks_def)
qed

lemma push_match_step:
  assumes ctx: "context_ok n R side f ctx" and semi: "jt = JoinSemi \<longrightarrow> side = BuildRight" and row: "row < n" "set refs \<subseteq> R"
    and st: "buffered direct n R f pairs semis unm st"
  shows "step_to (if jt = JoinSemi then push_semi_join_match ctx row st else push_hash_join_matches ctx row refs st) st direct n R f
     (pairs @ (if jt = JoinSemi then [] else map (Pair row) refs)) (semis @ (if jt = JoinSemi then [row] else [])) unm"
proof (cases "jt = JoinSemi")
  case True
  with ctx semi have "push_semi_join_match ctx row st = push_semi_index ctx row st"
    by (simp add: push_semi_join_match_def context_ok_def)
  with True push_semi_step [OF ctx st row(1)] show ?thesis by simp
qed (use push_matches_step [OF ctx st row] in simp)

lemma push_single: "push_hash_join_matches ctx row [r] st = push_hash_join_pair ctx row r st"
proof -
  have "outcome_bind x (\<lambda>y. Some (Inr y)) = x" for x :: "('a, 'b) probe_state outcome"
    by (simp add: outcome_bind_def split: option.splits sum.splits)
  moreover have "fold_outcome (push_hash_join_pair ctx row) [] = (\<lambda>y. Some (Inr y))" by (simp add: fun_eq_iff)
  ultimately show ?thesis by (simp add: push_hash_join_matches_def)
qed

lemma if_distribR: "(if b then g else h) x = (if b then g x else h x)"
  by simp

lemma loop_probed:
  assumes step: "\<And>row rows st. row < n \<Longrightarrow> probe_inv direct n R f jt side matches dense S (t \<noteq> None) rows st \<Longrightarrow>
      \<exists>st'. step row st = Some (Inr st') \<and> probe_inv direct n R f jt side matches dense S (t \<noteq> None) (rows @ [row]) st'"
    and knows: "tracker_knows dense t S"
    and fin: "\<And>st. probe_inv direct n R f jt side matches dense S (t \<noteq> None) [0..<n] st \<Longrightarrow>
      probed n R f jt side matches dense S (t \<noteq> None) (fin st)"
  shows "probed n R f jt side matches dense S (t \<noteq> None) (outcome_bind (fold_outcome step [0..<n] (initial_probe_state t keys)) fin)"
proof -
  from probe_loop [of n direct R f jt side matches dense S "t \<noteq> None" step "initial_probe_state t keys" n, OF step initial_probe_inv [OF knows] order_refl]
  obtain st where "fold_outcome step [0..<n] (initial_probe_state t keys) = Some (Inr st)"
    "probe_inv direct n R f jt side matches dense S (t \<noteq> None) [0..<n] st" by blast
  with fin show ?thesis by simp
qed

text \<open>A loop over an index of single rows, and over an index of lists of rows.\<close>

lemma unique_loop_probed:
  assumes ctx: "context_ok n R side f ctx" and semi: "jt = JoinSemi \<longrightarrow> side = BuildRight" and n: "n \<le> 2 ^ 32"
    and refs: "\<And>row. row < n \<Longrightarrow> set (matches row) \<subseteq> R"
    and knows: "tracker_knows None t S"
    and found: "\<And>row. row < n \<Longrightarrow> some_nonempty (matches row) = map_option (\<lambda>r. [r]) (Option.bind (key row) get)"
    and push: "\<And>row r st. push row r st = (if jt = JoinSemi then push_semi_join_match ctx row st else push_hash_join_pair ctx row r st)"
    and fin: "\<And>st. probe_inv True n R f jt side matches None S (t \<noteq> None) [0..<n] st \<Longrightarrow>
      probed n R f jt side matches None S (t \<noteq> None) (fin st)"
  shows "probed n R f jt side matches None S (t \<noteq> None) (outcome_bind (fold_outcome
     (probe_row (push_unmatched_probe_if_outer ctx jt) key get (\<lambda>_ r. mark_tracker (mark_ref r)) push) [0..<n] (initial_probe_state t None)) fin)"
proof -
  have "\<exists>st'. probe_row (push_unmatched_probe_if_outer ctx jt) key get (\<lambda>_ r. mark_tracker (mark_ref r)) push row st = Some (Inr st') \<and>
      probe_inv True n R f jt side matches None S (t \<noteq> None) (rows @ [row]) st'"
    if row: "row < n" and inv: "probe_inv True n R f jt side matches None S (t \<noteq> None) rows st" for row rows st
  proof (rule probe_row_inv [OF inv row n, where refs = "\<lambda>r. [r]"])
    show "Option.bind (key row) get = None \<Longrightarrow> matches row = []" using found [OF row] by simp
    show "key row = Some k \<Longrightarrow> get k = Some m \<Longrightarrow> matches row = [m] \<and> [m] \<noteq> []" for k m using found [OF row] by simp
    show "step_to (push_unmatched_probe_if_outer ctx jt row st) st True n R f pairs semis
      (unm @ (if emits_unmatched_probe jt side then [row] else []))" if "buffered True n R f pairs semis unm st" for pairs semis unm
      by (rule push_unmatched_row_step [OF ctx that row n])
    show "tracker_knows None (map_option (mark_ref m) (ps_tracker st)) (T \<union> set [m])" if "tracker_knows None (ps_tracker st) T" for m T
      using mark_ref_knows [OF that] by simp
    show "step_to (push row m st) st True n R f (pairs @ (if jt = JoinSemi then [] else map (Pair row) [m]))
        (semis @ (if jt = JoinSemi then [row] else [])) unm"
      if "key row = Some k" "get k = Some m" "buffered True n R f pairs semis unm st" for k m pairs semis unm st
      unfolding push push_single [symmetric]
      by (rule push_match_step [OF ctx semi row _ that(3)]) (use refs [OF row] found [OF row] that in simp)
  qed
  then show ?thesis by (rule loop_probed [OF _ knows fin])
qed

lemma multi_loop_probed:
  assumes ctx: "context_ok n R side f ctx" and semi: "jt = JoinSemi \<longrightarrow> side = BuildRight" and n: "n \<le> 2 ^ 32"
    and refs: "\<And>row. row < n \<Longrightarrow> set (matches row) \<subseteq> R"
    and knows: "tracker_knows None t S"
    and found: "\<And>row. row < n \<Longrightarrow> some_nonempty (matches row) = Option.bind (key row) get"
  shows "probed n R f jt side matches None S (t \<noteq> None) (outcome_bind (fold_outcome
     (probe_row (push_unmatched_probe_if_outer ctx jt) key get (\<lambda>_ ms. mark_build_matches ms)
       (\<lambda>row ms. if jt = JoinSemi then push_semi_join_match ctx row else push_hash_join_matches ctx row ms)) [0..<n] (initial_probe_state t None))
     (\<lambda>st. outcome_bind (finish_pairs ctx st) (finish_semi ctx)))"
proof -
  have "\<exists>st'. probe_row (push_unmatched_probe_if_outer ctx jt) key get (\<lambda>_ ms. mark_build_matches ms)
       (\<lambda>row ms. if jt = JoinSemi then push_semi_join_match ctx row else push_hash_join_matches ctx row ms) row st = Some (Inr st') \<and>
      probe_inv True n R f jt side matches None S (t \<noteq> None) (rows @ [row]) st'"
    if row: "row < n" and inv: "probe_inv True n R f jt side matches None S (t \<noteq> None) rows st" for row rows st
    unfolding mark_build_matches_def
  proof (rule probe_row_inv [OF inv row n, where refs = "\<lambda>ms. ms"])
    show "Option.bind (key row) get = None \<Longrightarrow> matches row = []" using found [OF row] by simp
    show "key row = Some k \<Longrightarrow> get k = Some m \<Longrightarrow> matches row = m \<and> m \<noteq> []" for k m using found [OF row] by auto
    show "step_to (push_unmatched_probe_if_outer ctx jt row st) st True n R f pairs semis
      (unm @ (if emits_unmatched_probe jt side then [row] else []))" if "buffered True n R f pairs semis unm st" for pairs semis unm
      by (rule push_unmatched_row_step [OF ctx that row n])
    show "tracker_knows None (map_option (mark_refs m) (ps_tracker st)) (T \<union> set m)" if "tracker_knows None (ps_tracker st) T" for m T
      using mark_refs_knows [OF that] by simp
    show "step_to ((if jt = JoinSemi then push_semi_join_match ctx row else push_hash_join_matches ctx row m) st) st True n R f
        (pairs @ (if jt = JoinSemi then [] else map (Pair row) m)) (semis @ (if jt = JoinSemi then [row] else [])) unm"
      if "key row = Some k" "get k = Some m" "buffered True n R f pairs semis unm st" for k m pairs semis unm st
      unfolding if_distribR
      by (rule push_match_step [OF ctx semi row _ that(3)]) (use refs [OF row] found [OF row] that in simp)
  qed
  then show ?thesis by (rule loop_probed [OF _ knows finish_probed [OF ctx]])
qed

lemma dense_loop_probed:
  assumes ctx: "context_ok n R side f ctx" and jt: "jt \<noteq> JoinSemi" and n: "n \<le> 2 ^ 32"
    and refs: "\<And>row. row < n \<Longrightarrow> set (matches row) \<subseteq> R"
    and knows: "tracker_knows (Some d) t S" and rep: "dense_unique_represents 32 d kvs" "distinct (map snd kvs)"
    and found: "\<And>row. row < n \<Longrightarrow> some_nonempty (matches row) = map_option (\<lambda>r. [r]) (Option.bind (key row) (dense_i32_get d))"
  shows "probed n R f jt side matches (Some d) S (t \<noteq> None) (outcome_bind (fold_outcome
     (probe_row (push_unmatched_probe_match ctx jt) key (dense_i32_get d) (\<lambda>k _. mark_tracker (mark_i32_key k))
       (\<lambda>row r. push_hash_join_pair ctx row r)) [0..<n] (initial_probe_state t None))
     (\<lambda>st. outcome_bind (finish_pairs ctx st) (finish_unmatched ctx)))"
proof -
  have "\<exists>st'. probe_row (push_unmatched_probe_match ctx jt) key (dense_i32_get d) (\<lambda>k _. mark_tracker (mark_i32_key k))
       (\<lambda>row r. push_hash_join_pair ctx row r) row st = Some (Inr st') \<and>
      probe_inv False n R f jt side matches (Some d) S (t \<noteq> None) (rows @ [row]) st'"
    if row: "row < n" and inv: "probe_inv False n R f jt side matches (Some d) S (t \<noteq> None) rows st" for row rows st
  proof (rule probe_row_inv [OF inv row n, where refs = "\<lambda>r. [r]" and marks = "\<lambda>k m. mark_i32_key k"])
    show "Option.bind (key row) (dense_i32_get d) = None \<Longrightarrow> matches row = []" using found [OF row] by simp
    show "key row = Some k \<Longrightarrow> dense_i32_get d k = Some m \<Longrightarrow> matches row = [m] \<and> [m] \<noteq> []" for k m using found [OF row] by simp
    show "step_to (push_unmatched_probe_match ctx jt row st) st False n R f pairs semis
      (unm @ (if emits_unmatched_probe jt side then [row] else []))" if "buffered False n R f pairs semis unm st" for pairs semis unm
      by (rule push_unmatched_step [OF ctx that row n])
    show "tracker_knows (Some d) (map_option (mark_i32_key k) (ps_tracker st)) (T \<union> set [m])"
      if "dense_i32_get d k = Some m" "tracker_knows (Some d) (ps_tracker st) T" for k m T
      using mark_i32_key_knows [OF that(2,1) rep] by simp
    show "step_to (push_hash_join_pair ctx row m st) st False n R f (pairs @ (if jt = JoinSemi then [] else map (Pair row) [m]))
        (semis @ (if jt = JoinSemi then [row] else [])) unm"
      if "key row = Some k" "dense_i32_get d k = Some m" "buffered False n R f pairs semis unm st" for k m pairs semis unm st
      using push_pair_step [OF ctx that(3) row, of m] refs [OF row] found [OF row] that jt by simp
  qed
  then show ?thesis by (rule loop_probed [OF _ knows finish_probed_unmatched [OF ctx _ jt]])
qed


subsection \<open>Typed keys\<close>

definition key_typed :: "data_type list \<Rightarrow> cell option list \<Rightarrow> bool" where
  "key_typed types k \<longleftrightarrow> list_all2 (\<lambda>t c. \<exists>v. c = Some v \<and> cell_typed t v) types k"

lemma row_key_typed:
  assumes ok: "key_batch_ok keys types batch" and plain: "DictInt32Utf8 \<notin> set types" and row: "row < batch_rows batch"
    and key: "row_key keys batch row = Some k"
  shows "key_typed types k"
proof -
  from key_batch_arrays [OF ok] obtain arrays where arrays: "key_arrays batch keys = Some (Inr arrays)" "map array_type arrays = types"
    "\<forall>a \<in> set arrays. array_ok a \<and> array_len a = batch_rows batch" by blast
  from key arrays(1) have k: "\<not> list_ex (\<lambda>a. array_is_null a row) arrays" "k = key_cells arrays row"
    by (auto simp: row_key_def arrays_key_def split: if_splits)
  have "\<exists>v. array_cells a ! row = Some v \<and> cell_typed (array_type a) v" if a: "a \<in> set arrays" for a
  proof -
    from a arrays(2) plain have "array_type a \<noteq> DictInt32Utf8" by force
    moreover from a arrays(3) have "array_ok a" "array_len a = batch_rows batch" by auto
    ultimately obtain cs where "array_is_null a row \<longleftrightarrow> cs ! row = None" "array_cells a ! row = cs ! row"
      "\<And>c. cs ! row = Some c \<Longrightarrow> cell_typed (array_type a) c" using arrays_key_typed [OF _ _ row refl, of a] by metis
    moreover have "\<not> array_is_null a row" using k(1) a by (auto simp: list_ex_iff)
    ultimately show ?thesis by (cases "cs ! row") auto
  qed
  then show ?thesis unfolding key_typed_def k(2) key_cells_def arrays(2) [symmetric]
    by (simp add: list_all2_map1 list_all2_map2 list_all2_same)
qed

lemma keyed_rows_typed:
  assumes ok: "join_side_ok keys types batches" and plain: "DictInt32Utf8 \<notin> set types" and k: "k \<in> fst ` set (keyed_rows keys batches)"
  shows "key_typed types k"
proof -
  from k obtain r bi batch where "(bi, batch) \<in> set (enumerate 0 batches)" "(k, r) \<in> set (keyed_batch keys (bi, batch))"
    by (auto simp: keyed_rows_def)
  then have "batch \<in> set batches" "row_key keys batch (ref_row r) = Some k" "ref_row r < batch_rows batch"
    by (auto simp: keyed_batch_def batch_refs_def List.map_filter_def enumerate_batches)
  with ok row_key_typed [OF _ plain] show ?thesis by (auto simp: join_side_ok_def)
qed

lemma typed_cell:
  "cell_typed Int32 v \<longleftrightarrow> (\<exists>i. v = CellInt i)" "cell_typed Int64 v \<longleftrightarrow> (\<exists>i. v = CellInt i)" "cell_typed Utf8 v \<longleftrightarrow> (\<exists>s. v = CellStr s)"
  by (cases v; simp)+

lemma typed_int: "t = Int32 \<or> t = Int64 \<Longrightarrow> key_typed [t] k \<Longrightarrow> \<exists>i. k = [Some (CellInt i)]"
  by (auto simp: key_typed_def list_all2_Cons1 typed_cell simp del: cell_typed.simps)

lemma typed_string: "key_typed [Utf8] k \<Longrightarrow> \<exists>s. k = [Some (CellStr s)]"
  by (auto simp: key_typed_def list_all2_Cons1 typed_cell simp del: cell_typed.simps)

lemma typed_pair: "key_typed [Int32, Int32] k \<Longrightarrow> \<exists>i j. k = [Some (CellInt i), Some (CellInt j)]"
  by (auto simp: key_typed_def list_all2_Cons1 typed_cell simp del: cell_typed.simps)

lemma inj_on_shape: "(\<And>k. P k \<Longrightarrow> k = h (g k)) \<Longrightarrow> inj_on g {k. P k}"
  by (metis inj_onI mem_Collect_eq)

lemma typed_key_inj:
  "t = Int32 \<or> t = Int64 \<Longrightarrow> inj_on int_key {k. key_typed [t] k}"
  "inj_on string_key {k. key_typed [Utf8] k}"
  "inj_on pair_key {k. key_typed [Int32, Int32] k}"
proof -
  show "inj_on int_key {k. key_typed [t] k}" if "t = Int32 \<or> t = Int64"
    by (rule inj_on_shape [of _ "\<lambda>i. [Some (CellInt i)]"]) (use typed_int [OF that] in fastforce)
  show "inj_on string_key {k. key_typed [Utf8] k}"
    by (rule inj_on_shape [of _ "\<lambda>s. [Some (CellStr s)]"]) (use typed_string in fastforce)
  show "inj_on pair_key {k. key_typed [Int32, Int32] k}"
    by (rule inj_on_shape [of _ "\<lambda>(i, j). [Some (CellInt i), Some (CellInt j)]"]) (use typed_pair in fastforce)
qed

lemma distinct_concat_tagged:
  assumes "distinct (map fst nbs)" "\<And>nb. distinct (g nb)" "\<And>nb r. r \<in> set (g nb) \<Longrightarrow> tag r = fst nb"
  shows "distinct (concat (map g nbs))"
  using assms(1)
proof (induction nbs)
  case (Cons nb nbs)
  have "set (g nb) \<inter> set (g nb') = {}" if "nb' \<in> set nbs" for nb'
  proof -
    from Cons.prems that have "fst nb \<noteq> fst nb'" by force
    with assms(3) [of _ nb] assms(3) [of _ nb'] show ?thesis by force
  qed
  then have "set (g nb) \<inter> set (concat (map g nbs)) = {}" by fastforce
  with Cons assms(2) show ?case by simp
qed simp

lemma distinct_keyed_rows: "distinct (map snd (keyed_rows keys batches))"
proof -
  have refs: "map snd (keyed_batch keys nb) = filter (\<lambda>r. row_key keys (snd nb) (ref_row r) \<noteq> None) (batch_refs nb)" for nb
  proof -
    have "map snd (List.map_filter (\<lambda>r. map_option (\<lambda>k. (k, r)) (row_key keys (snd nb) (ref_row r))) rs) =
        filter (\<lambda>r. row_key keys (snd nb) (ref_row r) \<noteq> None) rs" for rs
      by (induction rs) (auto simp: List.map_filter_def)
    then show ?thesis by (simp add: keyed_batch_def)
  qed
  have "distinct (map snd (keyed_batch keys nb))" for nb
    unfolding refs by (auto simp: batch_refs_def distinct_map inj_on_def)
  moreover have "ref_batch r = fst nb" if "r \<in> set (map snd (keyed_batch keys nb))" for r nb
    using that unfolding refs by (auto simp: batch_refs_def)
  ultimately have "distinct (concat (map (\<lambda>nb. map snd (keyed_batch keys nb)) (enumerate 0 batches)))"
    by (intro distinct_concat_tagged [where tag = ref_batch]) (simp_all del: set_map)
  then show ?thesis by (simp add: keyed_rows_def map_concat comp_def)
qed

lemma keyed_rows_refs: "snd ` set (keyed_rows keys batches) \<subseteq> set (all_refs batches)"
  by (force simp: keyed_rows_def all_refs_def keyed_batch_def List.map_filter_def)

lemma distinct_retype: "map snd (retype f kvs) = map snd kvs"
  by (simp add: retype_def comp_def case_prod_beta)

text \<open>The matches of a row, through the typed key of the row.\<close>

lemma typed_matches:
  assumes inj: "inj_on g {k. key_typed types k}" and kvs: "\<forall>k \<in> fst ` set kvs. key_typed types k"
    and row: "\<And>k. row_key keys probe row = Some k \<Longrightarrow> key_typed types k"
  shows "some_nonempty (probe_matches keys probe kvs row) =
    Option.bind (map_option g (row_key keys probe row)) (\<lambda>k. some_nonempty (group_refs (retype g kvs) k))"
proof (cases "row_key keys probe row")
  case (Some k)
  have "inj_on g (insert k (fst ` set kvs))" using inj by (rule inj_on_subset) (use kvs row [OF Some] in auto)
  with Some show ?thesis by (simp add: probe_matches_def group_refs_retype)
qed (simp add: probe_matches_def)

lemma probe_matches_refs: "set (probe_matches keys probe kvs row) \<subseteq> snd ` set kvs"
  by (force simp: probe_matches_def set_group_refs split: option.splits)


subsection \<open>The loops over the typed indexes\<close>

definition probe_ready :: "data_type list \<Rightarrow> string list \<Rightarrow> record_batch \<Rightarrow> (cell option list \<times> build_row_ref) list \<Rightarrow> build_row_ref set \<Rightarrow> bool" where
  "probe_ready types keys probe kvs R \<longleftrightarrow> key_batch_ok keys types probe \<and>
     (DictInt32Utf8 \<notin> set types \<longrightarrow> (\<forall>k \<in> fst ` set kvs. key_typed types k)) \<and> snd ` set kvs \<subseteq> R"

lemma ready_rows: "probe_ready types keys probe kvs R \<Longrightarrow> batch_rows probe \<le> 2 ^ 32"
  by (simp add: probe_ready_def key_batch_ok_def)

lemma ready_refs: "probe_ready types keys probe kvs R \<Longrightarrow> set (probe_matches keys probe kvs row) \<subseteq> R"
  using probe_matches_refs by (force simp: probe_ready_def)

lemma ready_matches:
  assumes "probe_ready types keys probe kvs R" "DictInt32Utf8 \<notin> set types" "inj_on g {k. key_typed types k}" "row < batch_rows probe"
    and "key = map_option g (row_key keys probe row)"
  shows "some_nonempty (probe_matches keys probe kvs row) = Option.bind key (\<lambda>k. some_nonempty (group_refs (retype g kvs) k))"
  unfolding assms(5) using assms(1,2) row_key_typed [OF _ assms(2,4)] by (intro typed_matches [OF assms(3)]) (auto simp: probe_ready_def)

lemma single_keys: "key_batch_ok keys [t] batch \<Longrightarrow> \<exists>key a. keys = [key] \<and> key_arrays batch [key] = Some (Inr [a]) \<and> batch_column batch key = Some (Inr a) \<and>
    array_type a = t \<and> array_ok a \<and> array_len a = batch_rows batch"
proof -
  assume ok: "key_batch_ok keys [t] batch"
  from key_batch_arrays [OF ok] obtain a where a: "key_arrays batch keys = Some (Inr [a])" "array_type a = t"
    "array_ok a" "array_len a = batch_rows batch" by (auto simp: map_eq_Cons_conv)
  have "length keys = 1" using key_arrays_ok [OF _ a(1)] ok by (simp add: key_batch_ok_def)
  then obtain key where key: "keys = [key]" by (auto simp: length_Suc_conv)
  moreover have "batch_column batch key = Some (Inr a)"
    using a(1) key by (cases "batch_column batch key") (auto simp: key_arrays_def outcome_bind_def split: sum.splits)
  ultimately show ?thesis using a by auto
qed

lemma column_of_key:
  assumes "column_of g arrays n column" "key_arrays batch keys = Some (Inr arrays)" "row < n"
  shows "column_key column row = map_option g (row_key keys batch row)"
  using assms by (cases "arrays_key arrays row") (auto simp: column_of_def column_key_def row_key_def)

lemma probe_int_column:
  assumes ok: "key_batch_ok keys [t] probe" and t: "t = Int32 \<or> t = Int64"
  obtains key column where "keys = [key]" "probe_column E probe build t (downcast_ints t) key = Some (Inr column)"
    "length column = batch_rows probe" "\<And>row. row < batch_rows probe \<Longrightarrow> column_key column row = map_option int_key (row_key keys probe row)"
proof -
  from single_keys [OF ok] obtain key a where a: "keys = [key]" "key_arrays probe [key] = Some (Inr [a])" "batch_column probe key = Some (Inr a)"
    "array_type a = t" "array_ok a" "array_len a = batch_rows probe" by blast
  from int_column [OF a(5,6,4) t] obtain column where col: "downcast_ints t a = Some column" "column_of int_key [a] (batch_rows probe) column" by blast
  have read: "probe_column E probe build t (downcast_ints t) key = Some (Inr column)"
    using a(3,4) col(1) by (simp add: probe_column_def expect_def)
  have len: "length column = batch_rows probe" using col(2) by (simp add: column_of_def)
  show ?thesis by (rule that [OF a(1) read len]) (use column_of_key [OF col(2) a(2)] a(1) in simp)
qed

lemma probe_string_column:
  assumes ok: "key_batch_ok keys [Utf8] probe"
  obtains key column where "keys = [key]" "probe_column E probe build Utf8 downcast_strings key = Some (Inr column)"
    "length column = batch_rows probe" "\<And>row. row < batch_rows probe \<Longrightarrow> column_key column row = map_option string_key (row_key keys probe row)"
proof -
  from single_keys [OF ok] obtain key a where a: "keys = [key]" "key_arrays probe [key] = Some (Inr [a])" "batch_column probe key = Some (Inr a)"
    "array_type a = Utf8" "array_ok a" "array_len a = batch_rows probe" by blast
  from string_column [OF a(5,6,4)] obtain column where col: "downcast_strings a = Some column" "column_of string_key [a] (batch_rows probe) column" by blast
  have read: "probe_column E probe build Utf8 downcast_strings key = Some (Inr column)"
    using a(3,4) col(1) by (simp add: probe_column_def expect_def)
  have len: "length column = batch_rows probe" using col(2) by (simp add: column_of_def)
  show ?thesis by (rule that [OF a(1) read len]) (use column_of_key [OF col(2) a(2)] a(1) in simp)
qed

lemma probe_pair_columns_read:
  assumes ok: "key_batch_ok keys [Int32, Int32] probe" and types: "jb_key_types build = [Int32, Int32]"
  obtains lk rk left right where "keys = [lk, rk]" "probe_pair_columns E probe build lk rk = Some (Inr (left, right))"
    "\<And>row. row < batch_rows probe \<Longrightarrow> pair_column_key left right row = map_option pair_key (row_key keys probe row)"
proof -
  have "length keys = 2" using ok key_arrays_ok unfolding key_batch_ok_def by (metis length_map length_Cons list.size(3) numeral_2_eq_2)
  then obtain lk rk where keys: "keys = [lk, rk]" by (auto simp: length_Suc_conv numeral_2_eq_2)
  from pair_key_columns [OF ok [unfolded keys]] obtain a b left right where
    ab: "batch_column probe lk = Some (Inr a)" "batch_column probe rk = Some (Inr b)" "array_type a = Int32" "array_type b = Int32"
    "key_arrays probe [lk, rk] = Some (Inr [a, b])" "downcast_ints Int32 a = Some left" "downcast_ints Int32 b = Some right"
    "pair_columns_of [a, b] (batch_rows probe) left right" by blast
  have read: "probe_pair_columns E probe build lk rk = Some (Inr (left, right))"
    using ab types by (simp add: probe_pair_columns_def expect_def)
  have "pair_column_key left right row = map_option pair_key (row_key keys probe row)" if "row < batch_rows probe" for row
    using ab(5,8) that keys by (cases "arrays_key [a, b] row") (auto simp: pair_columns_of_def pair_column_key_def row_key_def)
  then show ?thesis by (rule that [OF keys read])
qed

lemma bind_singletons: "(\<And>k. h k = map_option g (get k)) \<Longrightarrow> Option.bind x h = map_option g (Option.bind x get)"
  by (cases x) auto


text \<open>The columns of a probe batch that is ready, and the matches of its rows through them.\<close>

lemma ready_int_column:
  assumes ready: "probe_ready [t] keys probe kvs R" and t: "t = Int32 \<or> t = Int64"
  obtains key column where "keys = [key]" "probe_column E probe build t (downcast_ints t) key = Some (Inr column)" "length column = batch_rows probe"
    "\<And>row. row < batch_rows probe \<Longrightarrow> some_nonempty (probe_matches keys probe kvs row) =
       Option.bind (column_key column row) (\<lambda>k. some_nonempty (group_refs (retype int_key kvs) k))"
proof -
  have "key_batch_ok keys [t] probe" using ready by (simp add: probe_ready_def)
  from probe_int_column [OF this t, of E build] obtain key column where col: "keys = [key]" "probe_column E probe build t (downcast_ints t) key = Some (Inr column)"
    "length column = batch_rows probe" "\<And>row. row < batch_rows probe \<Longrightarrow> column_key column row = map_option int_key (row_key keys probe row)" by blast
  have plain: "DictInt32Utf8 \<notin> set [t]" using t by auto
  show ?thesis by (rule that [OF col(1-3)]) (rule ready_matches [OF ready plain typed_key_inj(1) [OF t] _ col(4)])
qed

lemma ready_string_column:
  assumes ready: "probe_ready [Utf8] keys probe kvs R"
  obtains key column where "keys = [key]" "probe_column E probe build Utf8 downcast_strings key = Some (Inr column)"
    "\<And>row. row < batch_rows probe \<Longrightarrow> some_nonempty (probe_matches keys probe kvs row) =
       Option.bind (column_key column row) (\<lambda>k. some_nonempty (group_refs (retype string_key kvs) k))"
proof -
  have "key_batch_ok keys [Utf8] probe" using ready by (simp add: probe_ready_def)
  from probe_string_column [OF this, of E build] obtain key column where col: "keys = [key]" "probe_column E probe build Utf8 downcast_strings key = Some (Inr column)"
    "\<And>row. row < batch_rows probe \<Longrightarrow> column_key column row = map_option string_key (row_key keys probe row)" by blast
  have plain: "DictInt32Utf8 \<notin> set [Utf8]" by simp
  show ?thesis by (rule that [OF col(1,2)]) (rule ready_matches [OF ready plain typed_key_inj(2) _ col(3)])
qed

lemma ready_pair_columns:
  assumes ready: "probe_ready [Int32, Int32] keys probe kvs R" and types: "jb_key_types build = [Int32, Int32]"
  obtains lk rk left right where "keys = [lk, rk]" "probe_pair_columns E probe build lk rk = Some (Inr (left, right))"
    "\<And>row. row < batch_rows probe \<Longrightarrow> some_nonempty (probe_matches keys probe kvs row) =
       Option.bind (pair_column_key left right row) (\<lambda>k. some_nonempty (group_refs (retype pair_key kvs) k))"
proof -
  have "key_batch_ok keys [Int32, Int32] probe" using ready by (simp add: probe_ready_def)
  from probe_pair_columns_read [OF this types, of E] obtain lk rk left right where col: "keys = [lk, rk]" "probe_pair_columns E probe build lk rk = Some (Inr (left, right))"
    "\<And>row. row < batch_rows probe \<Longrightarrow> pair_column_key left right row = map_option pair_key (row_key keys probe row)" by blast
  have plain: "DictInt32Utf8 \<notin> set [Int32, Int32]" by simp
  show ?thesis by (rule that [OF col(1,2)]) (rule ready_matches [OF ready plain typed_key_inj(3) _ col(3)])
qed

lemma unique_map_get: "maps_represent (Some m, None) kvs \<Longrightarrow> some_nonempty (group_refs kvs k) = map_option (\<lambda>r. [r]) (map_of m k)"
  using maps.get_matches [of "(Some m, None)" kvs k] by (simp add: maps_get_def)

lemma multi_map_get: "maps_represent (None, Some m) kvs \<Longrightarrow> (\<lambda>k. some_nonempty (group_refs kvs k)) = map_of m"
  using maps.get_matches [of "(None, Some m)" kvs] by (simp add: maps_get_def fun_eq_iff)

lemma dense_i32_unique_get: "dense_unique_represents 32 d kvs \<Longrightarrow> some_nonempty (group_refs kvs k) = map_option (\<lambda>r. [r]) (dense_i32_get d k)"
  using dense_i32.get_matches [of d kvs k] by simp

lemma dense_i64_unique_get: "dense_unique_represents 64 d kvs \<Longrightarrow> some_nonempty (group_refs kvs k) = map_option (\<lambda>r. [r]) (dense_i64_get d k)"
  using dense_i64.get_matches [of d kvs k] by simp

lemma dense_i32_pair_unique_get:
  "dense_pair_represents d kvs \<Longrightarrow> some_nonempty (group_refs kvs k) = map_option (\<lambda>r. [r]) ((\<lambda>(left, right). dense_i32_pair_get d left right) k)"
  using dense_i32_pair.get_matches [of d kvs k] by (cases k) simp

lemma dense_i32_multi_index_get: "dense_multi_represents d kvs \<Longrightarrow> (\<lambda>k. some_nonempty (group_refs kvs k)) = dense_i32_multi_get d"
  using dense_i32_multi.get_matches [of d kvs] by (simp add: fun_eq_iff)

text \<open>Each typed loop, from the index it reads.\<close>

lemma dense_i32_unique_probed:
  assumes ready: "probe_ready [Int32] keys probe kvs R" and ctx: "context_ok (batch_rows probe) R side f ctx" and jt: "jt \<noteq> JoinSemi"
    and rep: "dense_unique_represents 32 d (retype int_key kvs)" "distinct (map snd kvs)" and knows: "tracker_knows (Some d) t S"
  shows "probed (batch_rows probe) R f jt side (probe_matches keys probe kvs) (Some d) S (t \<noteq> None)
     (probe_i32_dense_unique_hash_join_batches E (Some (Inr ctx)) probe build d keys jt t)"
proof -
  from ready_int_column [OF ready, of E build] obtain key column where col: "keys = [key]" "probe_column E probe build Int32 (downcast_ints Int32) key = Some (Inr column)"
    "length column = batch_rows probe" "\<And>row. row < batch_rows probe \<Longrightarrow> some_nonempty (probe_matches keys probe kvs row) =
       Option.bind (column_key column row) (\<lambda>k. some_nonempty (group_refs (retype int_key kvs) k))" by blast
  have found: "some_nonempty (probe_matches keys probe kvs row) = map_option (\<lambda>r. [r]) (Option.bind (column_key column row) (dense_i32_get d))"
    if "row < batch_rows probe" for row
    unfolding col(4) [OF that] by (rule bind_singletons) (rule dense_i32_unique_get [OF rep(1)])
  have "distinct (map snd (retype int_key kvs))" using rep(2) by (simp add: distinct_retype)
  from dense_loop_probed [OF ctx jt ready_rows [OF ready] ready_refs [OF ready] knows rep(1) this found, of "\<lambda>row. row"]
  have "probed (batch_rows probe) R f jt side (probe_matches keys probe kvs) (Some d) S (t \<noteq> None) (outcome_bind (fold_outcome
     (probe_row (push_unmatched_probe_match ctx jt) (column_key column) (dense_i32_get d) (\<lambda>k _. mark_tracker (mark_i32_key k))
       (\<lambda>row r. push_hash_join_pair ctx row r)) [0..<batch_rows probe] (initial_probe_state t None))
     (\<lambda>st. outcome_bind (finish_pairs ctx st) (finish_unmatched ctx)))" by blast
  then show ?thesis
    unfolding probe_i32_dense_unique_hash_join_batches_def single_key_def Let_def
    by (simp add: col(1,2) blocks_or_rows [OF col(3)])
qed

lemma i32_unique_probed:
  assumes ready: "probe_ready [Int32] keys probe kvs R" and ctx: "context_ok (batch_rows probe) R side f ctx" and jt: "jt \<noteq> JoinSemi"
    and rep: "maps_represent (Some m, None) (retype int_key kvs)" and knows: "tracker_knows None t S"
  shows "probed (batch_rows probe) R f jt side (probe_matches keys probe kvs) None S (t \<noteq> None)
     (probe_i32_unique_hash_join_batches E (Some (Inr ctx)) probe build m keys jt t)"
proof -
  from ready_int_column [OF ready, of E build] obtain key column where col: "keys = [key]"
    "probe_column E probe build Int32 (downcast_ints Int32) key = Some (Inr column)" "length column = batch_rows probe"
    "\<And>row. row < batch_rows probe \<Longrightarrow> some_nonempty (probe_matches keys probe kvs row) =
       Option.bind (column_key column row) (\<lambda>k. some_nonempty (group_refs (retype int_key kvs) k))" by blast
  have found: "some_nonempty (probe_matches keys probe kvs row) = map_option (\<lambda>r. [r]) (Option.bind (column_key column row) (map_of m))"
    if "row < batch_rows probe" for row
    unfolding col(4) [OF that] by (rule bind_singletons) (rule unique_map_get [OF rep])
  have "probed (batch_rows probe) R f jt side (probe_matches keys probe kvs) None S (t \<noteq> None) (outcome_bind (fold_outcome
     (probe_row (push_unmatched_probe_if_outer ctx jt) (column_key column) (map_of m) (\<lambda>_ r. mark_tracker (mark_ref r))
       (\<lambda>row r. push_hash_join_pair ctx row r)) [0..<batch_rows probe] (initial_probe_state t None)) (finish_pairs ctx))"
    by (rule unique_loop_probed [OF ctx _ ready_rows [OF ready] ready_refs [OF ready] knows found _ finish_probed_pairs [OF ctx _ jt]])
      (simp_all add: jt)
  then show ?thesis unfolding probe_i32_unique_hash_join_batches_def single_key_def Let_def by (simp add: col(1,2) blocks_or_rows [OF col(3)])
qed

lemma dense_i32_probed:
  assumes ready: "probe_ready [Int32] keys probe kvs R" and ctx: "context_ok (batch_rows probe) R side f ctx" and semi: "jt = JoinSemi \<longrightarrow> side = BuildRight"
    and rep: "dense_multi_represents m (retype int_key kvs)" and knows: "tracker_knows None t S"
  shows "probed (batch_rows probe) R f jt side (probe_matches keys probe kvs) None S (t \<noteq> None)
     (probe_i32_dense_hash_join_batches E (Some (Inr ctx)) probe build m keys jt t)"
proof -
  from ready_int_column [OF ready, of E build] obtain key column where col: "keys = [key]"
    "probe_column E probe build Int32 (downcast_ints Int32) key = Some (Inr column)" "length column = batch_rows probe"
    "\<And>row. row < batch_rows probe \<Longrightarrow> some_nonempty (probe_matches keys probe kvs row) =
       Option.bind (column_key column row) (\<lambda>k. some_nonempty (group_refs (retype int_key kvs) k))" by blast
  have found: "some_nonempty (probe_matches keys probe kvs row) = Option.bind (column_key column row) (dense_i32_multi_get m)" if "row < batch_rows probe" for row
    unfolding col(4) [OF that] dense_i32_multi_index_get [OF rep] ..
  have "probed (batch_rows probe) R f jt side (probe_matches keys probe kvs) None S (t \<noteq> None) (outcome_bind (fold_outcome
     (probe_row (push_unmatched_probe_if_outer ctx jt) (column_key column) (dense_i32_multi_get m) (\<lambda>_ ms. mark_build_matches ms)
       (\<lambda>row ms. if jt = JoinSemi then push_semi_join_match ctx row else push_hash_join_matches ctx row ms))
     [0..<batch_rows probe] (initial_probe_state t None)) (\<lambda>st. outcome_bind (finish_pairs ctx st) (finish_semi ctx)))"
    by (rule multi_loop_probed [OF ctx semi ready_rows [OF ready] ready_refs [OF ready] knows found])
  then show ?thesis unfolding probe_i32_dense_hash_join_batches_def single_key_def Let_def by (simp add: col(1,2))
qed

lemma i32_probed:
  assumes ready: "probe_ready [Int32] keys probe kvs R" and ctx: "context_ok (batch_rows probe) R side f ctx" and semi: "jt = JoinSemi \<longrightarrow> side = BuildRight"
    and rep: "maps_represent (None, Some m) (retype int_key kvs)" and knows: "tracker_knows None t S"
  shows "probed (batch_rows probe) R f jt side (probe_matches keys probe kvs) None S (t \<noteq> None)
     (probe_i32_hash_join_batches E (Some (Inr ctx)) probe build m keys jt t)"
proof -
  from ready_int_column [OF ready, of E build] obtain key column where col: "keys = [key]"
    "probe_column E probe build Int32 (downcast_ints Int32) key = Some (Inr column)" "length column = batch_rows probe"
    "\<And>row. row < batch_rows probe \<Longrightarrow> some_nonempty (probe_matches keys probe kvs row) =
       Option.bind (column_key column row) (\<lambda>k. some_nonempty (group_refs (retype int_key kvs) k))" by blast
  have found: "some_nonempty (probe_matches keys probe kvs row) = Option.bind (column_key column row) (map_of m)" if "row < batch_rows probe" for row
    unfolding col(4) [OF that] multi_map_get [OF rep] ..
  have "probed (batch_rows probe) R f jt side (probe_matches keys probe kvs) None S (t \<noteq> None) (outcome_bind (fold_outcome
     (probe_row (push_unmatched_probe_if_outer ctx jt) (column_key column) (map_of m) (\<lambda>_ ms. mark_build_matches ms)
       (\<lambda>row ms. if jt = JoinSemi then push_semi_join_match ctx row else push_hash_join_matches ctx row ms))
     [0..<batch_rows probe] (initial_probe_state t None)) (\<lambda>st. outcome_bind (finish_pairs ctx st) (finish_semi ctx)))"
    by (rule multi_loop_probed [OF ctx semi ready_rows [OF ready] ready_refs [OF ready] knows found])
  then show ?thesis unfolding probe_i32_hash_join_batches_def single_key_def Let_def by (simp add: col(1,2))
qed

lemma dense_i64_unique_probed:
  assumes ready: "probe_ready [Int64] keys probe kvs R" and ctx: "context_ok (batch_rows probe) R side f ctx" and jt: "jt \<noteq> JoinSemi"
    and rep: "dense_unique_represents 64 m (retype int_key kvs)" and knows: "tracker_knows None t S"
  shows "probed (batch_rows probe) R f jt side (probe_matches keys probe kvs) None S (t \<noteq> None)
     (probe_i64_dense_unique_hash_join_batches E (Some (Inr ctx)) probe build m keys jt t)"
proof -
  from ready_int_column [OF ready, of E build] obtain key column where col: "keys = [key]"
    "probe_column E probe build Int64 (downcast_ints Int64) key = Some (Inr column)" "length column = batch_rows probe"
    "\<And>row. row < batch_rows probe \<Longrightarrow> some_nonempty (probe_matches keys probe kvs row) =
       Option.bind (column_key column row) (\<lambda>k. some_nonempty (group_refs (retype int_key kvs) k))" by blast
  have found: "some_nonempty (probe_matches keys probe kvs row) = map_option (\<lambda>r. [r]) (Option.bind (column_key column row) (dense_i64_get m))"
    if "row < batch_rows probe" for row
    unfolding col(4) [OF that] by (rule bind_singletons) (rule dense_i64_unique_get [OF rep])
  have "probed (batch_rows probe) R f jt side (probe_matches keys probe kvs) None S (t \<noteq> None) (outcome_bind (fold_outcome
     (probe_row (push_unmatched_probe_if_outer ctx jt) (column_key column) (dense_i64_get m) (\<lambda>_ r. mark_tracker (mark_ref r))
       (\<lambda>row r. push_hash_join_pair ctx row r)) [0..<batch_rows probe] (initial_probe_state t None)) (finish_pairs ctx))"
    by (rule unique_loop_probed [OF ctx _ ready_rows [OF ready] ready_refs [OF ready] knows found _ finish_probed_pairs [OF ctx _ jt]])
      (simp_all add: jt)
  then show ?thesis unfolding probe_i64_dense_unique_hash_join_batches_def single_key_def Let_def by (simp add: col(1,2))
qed

lemma i64_unique_probed:
  assumes ready: "probe_ready [Int64] keys probe kvs R" and ctx: "context_ok (batch_rows probe) R side f ctx" and jt: "jt \<noteq> JoinSemi"
    and rep: "maps_represent (Some m, None) (retype int_key kvs)" and knows: "tracker_knows None t S"
  shows "probed (batch_rows probe) R f jt side (probe_matches keys probe kvs) None S (t \<noteq> None)
     (probe_i64_unique_hash_join_batches E (Some (Inr ctx)) probe build m keys jt t)"
proof -
  from ready_int_column [OF ready, of E build] obtain key column where col: "keys = [key]"
    "probe_column E probe build Int64 (downcast_ints Int64) key = Some (Inr column)" "length column = batch_rows probe"
    "\<And>row. row < batch_rows probe \<Longrightarrow> some_nonempty (probe_matches keys probe kvs row) =
       Option.bind (column_key column row) (\<lambda>k. some_nonempty (group_refs (retype int_key kvs) k))" by blast
  have found: "some_nonempty (probe_matches keys probe kvs row) = map_option (\<lambda>r. [r]) (Option.bind (column_key column row) (map_of m))"
    if "row < batch_rows probe" for row
    unfolding col(4) [OF that] by (rule bind_singletons) (rule unique_map_get [OF rep])
  have "probed (batch_rows probe) R f jt side (probe_matches keys probe kvs) None S (t \<noteq> None) (outcome_bind (fold_outcome
     (probe_row (push_unmatched_probe_if_outer ctx jt) (column_key column) (map_of m) (\<lambda>_ r. mark_tracker (mark_ref r))
       (\<lambda>row r. push_hash_join_pair ctx row r)) [0..<batch_rows probe] (initial_probe_state t None)) (finish_pairs ctx))"
    by (rule unique_loop_probed [OF ctx _ ready_rows [OF ready] ready_refs [OF ready] knows found _ finish_probed_pairs [OF ctx _ jt]])
      (simp_all add: jt)
  then show ?thesis unfolding probe_i64_unique_hash_join_batches_def single_key_def Let_def by (simp add: col(1,2))
qed

lemma i64_probed:
  assumes ready: "probe_ready [Int64] keys probe kvs R" and ctx: "context_ok (batch_rows probe) R side f ctx" and semi: "jt = JoinSemi \<longrightarrow> side = BuildRight"
    and rep: "maps_represent (None, Some m) (retype int_key kvs)" and knows: "tracker_knows None t S"
  shows "probed (batch_rows probe) R f jt side (probe_matches keys probe kvs) None S (t \<noteq> None)
     (probe_i64_hash_join_batches E (Some (Inr ctx)) probe build m keys jt t)"
proof -
  from ready_int_column [OF ready, of E build] obtain key column where col: "keys = [key]"
    "probe_column E probe build Int64 (downcast_ints Int64) key = Some (Inr column)" "length column = batch_rows probe"
    "\<And>row. row < batch_rows probe \<Longrightarrow> some_nonempty (probe_matches keys probe kvs row) =
       Option.bind (column_key column row) (\<lambda>k. some_nonempty (group_refs (retype int_key kvs) k))" by blast
  have found: "some_nonempty (probe_matches keys probe kvs row) = Option.bind (column_key column row) (map_of m)" if "row < batch_rows probe" for row
    unfolding col(4) [OF that] multi_map_get [OF rep] ..
  have "probed (batch_rows probe) R f jt side (probe_matches keys probe kvs) None S (t \<noteq> None) (outcome_bind (fold_outcome
     (probe_row (push_unmatched_probe_if_outer ctx jt) (column_key column) (map_of m) (\<lambda>_ ms. mark_build_matches ms)
       (\<lambda>row ms. if jt = JoinSemi then push_semi_join_match ctx row else push_hash_join_matches ctx row ms))
     [0..<batch_rows probe] (initial_probe_state t None)) (\<lambda>st. outcome_bind (finish_pairs ctx st) (finish_semi ctx)))"
    by (rule multi_loop_probed [OF ctx semi ready_rows [OF ready] ready_refs [OF ready] knows found])
  then show ?thesis unfolding probe_i64_hash_join_batches_def single_key_def Let_def by (simp add: col(1,2))
qed

lemma dense_pair_unique_probed:
  assumes ready: "probe_ready [Int32, Int32] keys probe kvs R" and ctx: "context_ok (batch_rows probe) R side f ctx" and semi: "jt = JoinSemi \<longrightarrow> side = BuildRight" and types: "jb_key_types build = [Int32, Int32]"
    and rep: "dense_pair_represents m (retype pair_key kvs)" and knows: "tracker_knows None t S"
  shows "probed (batch_rows probe) R f jt side (probe_matches keys probe kvs) None S (t \<noteq> None)
     (probe_i32_pair_dense_unique_hash_join_batches E (Some (Inr ctx)) probe build m keys jt t)"
proof -
  from ready_pair_columns [OF ready types, of E] obtain lk rk left right where col: "keys = [lk, rk]"
    "probe_pair_columns E probe build lk rk = Some (Inr (left, right))"
    "\<And>row. row < batch_rows probe \<Longrightarrow> some_nonempty (probe_matches keys probe kvs row) =
       Option.bind (pair_column_key left right row) (\<lambda>k. some_nonempty (group_refs (retype pair_key kvs) k))" by blast
  have found: "some_nonempty (probe_matches keys probe kvs row) = map_option (\<lambda>r. [r]) (Option.bind (pair_column_key left right row) (\<lambda>(left, right). dense_i32_pair_get m left right))"
    if "row < batch_rows probe" for row
    unfolding col(3) [OF that] by (rule bind_singletons) (rule dense_i32_pair_unique_get [OF rep])
  have "probed (batch_rows probe) R f jt side (probe_matches keys probe kvs) None S (t \<noteq> None) (outcome_bind (fold_outcome
     (probe_row (push_unmatched_probe_if_outer ctx jt) (pair_column_key left right) (\<lambda>(left, right). dense_i32_pair_get m left right) (\<lambda>_ r. mark_tracker (mark_ref r))
       (\<lambda>row r. if jt = JoinSemi then push_semi_join_match ctx row else push_hash_join_pair ctx row r))
     [0..<batch_rows probe] (initial_probe_state t None)) (\<lambda>st. outcome_bind (finish_pairs ctx st) (finish_semi ctx)))"
    by (rule unique_loop_probed [OF ctx semi ready_rows [OF ready] ready_refs [OF ready] knows found _ finish_probed [OF ctx]]) simp_all
  then show ?thesis unfolding probe_i32_pair_dense_unique_hash_join_batches_def key_pair_def Let_def by (simp add: col(1,2))
qed

lemma pair_unique_probed:
  assumes ready: "probe_ready [Int32, Int32] keys probe kvs R" and ctx: "context_ok (batch_rows probe) R side f ctx" and semi: "jt = JoinSemi \<longrightarrow> side = BuildRight" and types: "jb_key_types build = [Int32, Int32]"
    and rep: "maps_represent (Some m, None) (retype pair_key kvs)" and knows: "tracker_knows None t S"
  shows "probed (batch_rows probe) R f jt side (probe_matches keys probe kvs) None S (t \<noteq> None)
     (probe_i32_pair_unique_hash_join_batches E (Some (Inr ctx)) probe build m keys jt t)"
proof -
  from ready_pair_columns [OF ready types, of E] obtain lk rk left right where col: "keys = [lk, rk]"
    "probe_pair_columns E probe build lk rk = Some (Inr (left, right))"
    "\<And>row. row < batch_rows probe \<Longrightarrow> some_nonempty (probe_matches keys probe kvs row) =
       Option.bind (pair_column_key left right row) (\<lambda>k. some_nonempty (group_refs (retype pair_key kvs) k))" by blast
  have found: "some_nonempty (probe_matches keys probe kvs row) = map_option (\<lambda>r. [r]) (Option.bind (pair_column_key left right row) (map_of m))"
    if "row < batch_rows probe" for row
    unfolding col(3) [OF that] by (rule bind_singletons) (rule unique_map_get [OF rep])
  have "probed (batch_rows probe) R f jt side (probe_matches keys probe kvs) None S (t \<noteq> None) (outcome_bind (fold_outcome
     (probe_row (push_unmatched_probe_if_outer ctx jt) (pair_column_key left right) (map_of m) (\<lambda>_ r. mark_tracker (mark_ref r))
       (\<lambda>row r. if jt = JoinSemi then push_semi_join_match ctx row else push_hash_join_pair ctx row r))
     [0..<batch_rows probe] (initial_probe_state t None)) (\<lambda>st. outcome_bind (finish_pairs ctx st) (finish_semi ctx)))"
    by (rule unique_loop_probed [OF ctx semi ready_rows [OF ready] ready_refs [OF ready] knows found _ finish_probed [OF ctx]]) simp_all
  then show ?thesis unfolding probe_i32_pair_unique_hash_join_batches_def key_pair_def Let_def by (simp add: col(1,2))
qed

lemma pair_probed:
  assumes ready: "probe_ready [Int32, Int32] keys probe kvs R" and ctx: "context_ok (batch_rows probe) R side f ctx" and semi: "jt = JoinSemi \<longrightarrow> side = BuildRight" and types: "jb_key_types build = [Int32, Int32]"
    and rep: "maps_represent (None, Some m) (retype pair_key kvs)" and knows: "tracker_knows None t S"
  shows "probed (batch_rows probe) R f jt side (probe_matches keys probe kvs) None S (t \<noteq> None)
     (probe_i32_pair_hash_join_batches E (Some (Inr ctx)) probe build m keys jt t)"
proof -
  from ready_pair_columns [OF ready types, of E] obtain lk rk left right where col: "keys = [lk, rk]"
    "probe_pair_columns E probe build lk rk = Some (Inr (left, right))"
    "\<And>row. row < batch_rows probe \<Longrightarrow> some_nonempty (probe_matches keys probe kvs row) =
       Option.bind (pair_column_key left right row) (\<lambda>k. some_nonempty (group_refs (retype pair_key kvs) k))" by blast
  have found: "some_nonempty (probe_matches keys probe kvs row) = Option.bind (pair_column_key left right row) (map_of m)" if "row < batch_rows probe" for row
    unfolding col(3) [OF that] multi_map_get [OF rep] ..
  have "probed (batch_rows probe) R f jt side (probe_matches keys probe kvs) None S (t \<noteq> None) (outcome_bind (fold_outcome
     (probe_row (push_unmatched_probe_if_outer ctx jt) (pair_column_key left right) (map_of m) (\<lambda>_ ms. mark_build_matches ms)
       (\<lambda>row ms. if jt = JoinSemi then push_semi_join_match ctx row else push_hash_join_matches ctx row ms))
     [0..<batch_rows probe] (initial_probe_state t None)) (\<lambda>st. outcome_bind (finish_pairs ctx st) (finish_semi ctx)))"
    by (rule multi_loop_probed [OF ctx semi ready_rows [OF ready] ready_refs [OF ready] knows found])
  then show ?thesis unfolding probe_i32_pair_hash_join_batches_def key_pair_def Let_def by (simp add: col(1,2))
qed

lemma string_unique_probed:
  assumes ready: "probe_ready [Utf8] keys probe kvs R" and ctx: "context_ok (batch_rows probe) R side f ctx" and semi: "jt = JoinSemi \<longrightarrow> side = BuildRight"
    and rep: "maps_represent (Some m, None) (retype string_key kvs)" and knows: "tracker_knows None t S"
  shows "probed (batch_rows probe) R f jt side (probe_matches keys probe kvs) None S (t \<noteq> None)
     (probe_string_unique_hash_join_batches E (Some (Inr ctx)) probe build m keys jt t)"
proof -
  from ready_string_column [OF ready, of E build] obtain key column where col: "keys = [key]"
    "probe_column E probe build Utf8 downcast_strings key = Some (Inr column)"
    "\<And>row. row < batch_rows probe \<Longrightarrow> some_nonempty (probe_matches keys probe kvs row) =
       Option.bind (column_key column row) (\<lambda>k. some_nonempty (group_refs (retype string_key kvs) k))" by blast
  have found: "some_nonempty (probe_matches keys probe kvs row) = map_option (\<lambda>r. [r]) (Option.bind (column_key column row) (map_of m))"
    if "row < batch_rows probe" for row
    unfolding col(3) [OF that] by (rule bind_singletons) (rule unique_map_get [OF rep])
  have "probed (batch_rows probe) R f jt side (probe_matches keys probe kvs) None S (t \<noteq> None) (outcome_bind (fold_outcome
     (probe_row (push_unmatched_probe_if_outer ctx jt) (column_key column) (map_of m) (\<lambda>_ r. mark_tracker (mark_ref r))
       (\<lambda>row r. if jt = JoinSemi then push_semi_join_match ctx row else push_hash_join_pair ctx row r))
     [0..<batch_rows probe] (initial_probe_state t None)) (\<lambda>st. outcome_bind (finish_pairs ctx st) (finish_semi ctx)))"
    by (rule unique_loop_probed [OF ctx semi ready_rows [OF ready] ready_refs [OF ready] knows found _ finish_probed [OF ctx]]) simp_all
  then show ?thesis unfolding probe_string_unique_hash_join_batches_def single_key_def Let_def by (simp add: col(1,2))
qed

lemma string_probed:
  assumes ready: "probe_ready [Utf8] keys probe kvs R" and ctx: "context_ok (batch_rows probe) R side f ctx" and semi: "jt = JoinSemi \<longrightarrow> side = BuildRight"
    and rep: "maps_represent (None, Some m) (retype string_key kvs)" and knows: "tracker_knows None t S"
  shows "probed (batch_rows probe) R f jt side (probe_matches keys probe kvs) None S (t \<noteq> None)
     (probe_string_hash_join_batches E (Some (Inr ctx)) probe build m keys jt t)"
proof -
  from ready_string_column [OF ready, of E build] obtain key column where col: "keys = [key]"
    "probe_column E probe build Utf8 downcast_strings key = Some (Inr column)"
    "\<And>row. row < batch_rows probe \<Longrightarrow> some_nonempty (probe_matches keys probe kvs row) =
       Option.bind (column_key column row) (\<lambda>k. some_nonempty (group_refs (retype string_key kvs) k))" by blast
  have found: "some_nonempty (probe_matches keys probe kvs row) = Option.bind (column_key column row) (map_of m)" if "row < batch_rows probe" for row
    unfolding col(3) [OF that] multi_map_get [OF rep] ..
  have "probed (batch_rows probe) R f jt side (probe_matches keys probe kvs) None S (t \<noteq> None) (outcome_bind (fold_outcome
     (probe_row (push_unmatched_probe_if_outer ctx jt) (column_key column) (map_of m) (\<lambda>_ ms. mark_build_matches ms)
       (\<lambda>row ms. if jt = JoinSemi then push_semi_join_match ctx row else push_hash_join_matches ctx row ms))
     [0..<batch_rows probe] (initial_probe_state t None)) (\<lambda>st. outcome_bind (finish_pairs ctx st) (finish_semi ctx)))"
    by (rule multi_loop_probed [OF ctx semi ready_rows [OF ready] ready_refs [OF ready] knows found])
  then show ?thesis unfolding probe_string_hash_join_batches_def single_key_def Let_def by (simp add: col(1,2))
qed


text \<open>The semi joins on a set of keys.\<close>

lemma semi_loop_probed:
  assumes ready: "probe_ready [Int32] keys probe kvs R" and ctx: "context_ok (batch_rows probe) R BuildRight f ctx"
    and found: "\<And>row. row < batch_rows probe \<Longrightarrow> some_nonempty (probe_matches keys probe kvs row) =
       Option.bind (column_key column row) (\<lambda>k. some_nonempty (group_refs (retype int_key kvs) k))"
    and has: "\<And>k. has k \<longleftrightarrow> k \<in> fst ` set (retype int_key kvs)"
  shows "probed (batch_rows probe) R f JoinSemi BuildRight (probe_matches keys probe kvs) dense S (None \<noteq> (None :: matched_build_tracker option))
     (outcome_bind (fold_outcome (probe_semi_row ctx column has) [0..<batch_rows probe] (initial_probe_state None None)) (finish_semi ctx))"
proof (rule loop_probed)
  let ?m = "probe_matches keys probe kvs"
  have has': "has k \<longleftrightarrow> some_nonempty (group_refs (retype int_key kvs) k) \<noteq> None" for k by (simp add: has group_refs_eq_Nil)
  show "\<exists>st'. probe_semi_row ctx column has row st = Some (Inr st') \<and>
      probe_inv True (batch_rows probe) R f JoinSemi BuildRight ?m dense S (None \<noteq> (None :: matched_build_tracker option)) (rows @ [row]) st'"
    if row: "row < batch_rows probe"
      and inv: "probe_inv True (batch_rows probe) R f JoinSemi BuildRight ?m dense S (None \<noteq> (None :: matched_build_tracker option)) rows st"
    for row rows st
  proof (cases "?m row = []")
    case True
    then have "some_nonempty (?m row) = None" by simp
    then have "is_null_at column row \<or> \<not> has (value_at column row)"
      unfolding found [OF row] has' by (simp add: column_key_def split: if_splits)
    then have "probe_semi_row ctx column has row st = Some (Inr st)" by (auto simp: probe_semi_row_def)
    with unmatched_row_inv [OF inv True, of "Some (Inr st)"] show ?thesis
      by (auto simp: emits_unmatched_probe_def step_to_def same_marks_def)
  next
    case False
    then have "some_nonempty (?m row) \<noteq> None" by simp
    then have "\<not> is_null_at column row" "has (value_at column row)"
      unfolding found [OF row] has' by (simp_all add: column_key_def split: if_splits)
    with row ready_rows [OF ready] have "probe_semi_row ctx column has row st = push_semi_index ctx row st" by (simp add: probe_semi_row_def)
    moreover have "\<exists>st'. push_semi_index ctx row st = Some (Inr st') \<and> probe_inv True (batch_rows probe) R f JoinSemi BuildRight ?m dense S
        (None \<noteq> (None :: matched_build_tracker option)) (rows @ [row]) st'"
      by (rule matched_row_inv [OF inv False, where ?st1.0 = st])
        (use push_semi_step [OF ctx _ row] inv in \<open>auto simp: probe_inv_def\<close>)
    ultimately show ?thesis by simp
  qed
  show "probed (batch_rows probe) R f JoinSemi BuildRight ?m dense S (None \<noteq> (None :: matched_build_tracker option)) (finish_semi ctx st)"
    if inv: "probe_inv True (batch_rows probe) R f JoinSemi BuildRight ?m dense S (None \<noteq> (None :: matched_build_tracker option)) [0..<batch_rows probe] st"
    for st
  proof -
    from inv have "ps_probe_indices st = []" by (auto simp: probe_inv_def buffered_def join_pairs_def)
    with finish_probed [OF ctx inv] show ?thesis by (simp add: finish_pairs_def)
  qed
qed simp

lemma semi_probed:
  assumes ready: "probe_ready [Int32] keys probe kvs R" and ctx: "context_ok (batch_rows probe) R BuildRight f ctx"
  shows "(\<And>k. dense_i32_keys_contains d k \<longleftrightarrow> k \<in> fst ` set (retype int_key kvs)) \<Longrightarrow>
      probed (batch_rows probe) R f JoinSemi BuildRight (probe_matches keys probe kvs) dense S False
        (probe_i32_dense_semi_join_batches E (Some (Inr ctx)) probe build d keys BuildRight None)"
    "set ks = fst ` set (retype int_key kvs) \<Longrightarrow>
      probed (batch_rows probe) R f JoinSemi BuildRight (probe_matches keys probe kvs) dense S False
        (probe_i32_semi_join_batches E (Some (Inr ctx)) probe build ks keys BuildRight None)"
proof -
  from ready_int_column [OF ready, of E build] obtain key column where col: "keys = [key]"
    "probe_column E probe build Int32 (downcast_ints Int32) key = Some (Inr column)" "length column = batch_rows probe"
    "\<And>row. row < batch_rows probe \<Longrightarrow> some_nonempty (probe_matches keys probe kvs row) =
       Option.bind (column_key column row) (\<lambda>k. some_nonempty (group_refs (retype int_key kvs) k))" by blast
  note loop = semi_loop_probed [OF ready ctx col(4)]
  show "probed (batch_rows probe) R f JoinSemi BuildRight (probe_matches keys probe kvs) dense S False
        (probe_i32_dense_semi_join_batches E (Some (Inr ctx)) probe build d keys BuildRight None)"
    if "\<And>k. dense_i32_keys_contains d k \<longleftrightarrow> k \<in> fst ` set (retype int_key kvs)"
    using loop [of "dense_i32_keys_contains d", OF _ that] by (simp add: probe_i32_dense_semi_join_batches_def single_key_def col(1,2))
  show "probed (batch_rows probe) R f JoinSemi BuildRight (probe_matches keys probe kvs) dense S False
        (probe_i32_semi_join_batches E (Some (Inr ctx)) probe build ks keys BuildRight None)"
    if "set ks = fst ` set (retype int_key kvs)"
    using loop [of "\<lambda>k. k \<in> set ks"] that by (simp add: probe_i32_semi_join_batches_def single_key_def col(1,2))
qed

text \<open>The general loop, through the row format: the Bloom filter rejects no key of the build side, and the two maps
  together are the rows of every key.\<close>

lemma general_row_inv:
  assumes inv: "probe_inv True n R f jt side (probe_matches keys probe kvs) None S tracked rows st" and row: "row < n" "n \<le> 2 ^ 32"
    and ctx: "context_ok n R side f ctx" and semi: "jt = JoinSemi \<longrightarrow> side = BuildRight" and refs: "snd ` set kvs \<subseteq> R"
    and arrays: "key_arrays probe keys = Some (Inr arrays)" and inj: "inj img"
    and bloom: "bloom_covers E (jb_bloom build) (fst ` set (retype img kvs))"
    and maps: "\<And>k. (case map_of (jb_rows build) k of Some refs \<Rightarrow> Some refs | None \<Rightarrow> map_of (jb_heavy_rows build) k) =
       some_nonempty (group_refs (retype img kvs) k)"
  shows "\<exists>st'. probe_general_row E ctx build jt None arrays (row, img (key_cells arrays row)) st = Some (Inr st') \<and>
     probe_inv True n R f jt side (probe_matches keys probe kvs) None S tracked (rows @ [row]) st'"
proof -
  let ?key = "img (key_cells arrays row)" and ?matches = "probe_matches keys probe kvs"
  have none: "\<exists>st'. push_unmatched_probe_if_outer ctx jt row st = Some (Inr st') \<and>
      probe_inv True n R f jt side ?matches None S tracked (rows @ [row]) st'" if "?matches row = []"
    by (rule unmatched_row_inv [OF inv that push_unmatched_row_step [OF ctx _ row]])
  show ?thesis
  proof (cases "list_ex (\<lambda>a. array_is_null a row) arrays")
    case True
    then have "?matches row = []" using arrays by (simp add: probe_matches_def row_key_def arrays_key_def)
    with none True show ?thesis by (simp add: probe_general_row_def)
  next
    case False
    then have key: "?matches row = group_refs kvs (key_cells arrays row)"
      using arrays by (simp add: probe_matches_def row_key_def arrays_key_def)
    have typed: "group_refs (retype img kvs) ?key = ?matches row"
      unfolding key by (rule group_refs_retype [OF inj_on_subset [OF inj]]) simp
    from might_contain_total [OF bloom] obtain found where mc: "might_contain E (jb_bloom build) ?key = Some found" by blast
    show ?thesis
    proof (cases "?matches row = []")
      case True
      with typed maps [of ?key] have "map_of (jb_rows build) ?key = None" "map_of (jb_heavy_rows build) ?key = None"
        by (auto split: option.splits)
      with none [OF True] False mc show ?thesis by (cases found) (simp_all add: probe_general_row_def expect_def)
    next
      case some: False
      then have "?key \<in> fst ` set (retype img kvs)" using typed group_refs_eq_Nil [of "retype img kvs" ?key] by auto
      with might_contain_covers [OF bloom] mc have "found" by auto
      moreover have "(case map_of (jb_rows build) ?key of Some refs \<Rightarrow> Some refs | None \<Rightarrow> map_of (jb_heavy_rows build) ?key) = Some (?matches row)"
        unfolding maps typed using some by simp
      ultimately have "probe_general_row E ctx build jt None arrays (row, ?key) st = push_general_matches ctx jt row ?key (?matches row) st"
        using False mc by (auto simp: probe_general_row_def expect_def split: option.splits)
      also have "\<dots> = (if jt = JoinSemi then push_semi_join_match ctx row (mark_build_matches (?matches row) (mark_probe_match ?key st))
          else push_hash_join_matches ctx row (?matches row) (mark_build_matches (?matches row) (mark_probe_match ?key st)))"
        using row by (simp add: push_general_matches_def Let_def)
      finally have eq: "probe_general_row E ctx build jt None arrays (row, ?key) st = \<dots>" .
      have within: "set (?matches row) \<subseteq> R" using probe_matches_refs refs by fast
      show ?thesis unfolding eq
        by (rule matched_row_inv [OF inv some _ _ _ push_match_step [OF ctx semi row(1) within]])
          (use mark_refs_knows in \<open>auto simp: mark_build_matches_def\<close>)
    qed
  qed
qed

lemma general_probed:
  assumes ready: "probe_ready types keys probe kvs R" and ctx: "context_ok (batch_rows probe) R side f ctx"
    and semi: "jt = JoinSemi \<longrightarrow> side = BuildRight" and knows: "tracker_knows None t S"
    and engine: "row_format_ok E img" and types: "jb_key_types build = types"
    and bloom: "bloom_covers E (jb_bloom build) (fst ` set (retype (img types) kvs))"
    and maps: "\<And>k. (case map_of (jb_rows build) k of Some refs \<Rightarrow> Some refs | None \<Rightarrow> map_of (jb_heavy_rows build) k) =
       some_nonempty (group_refs (retype (img types) kvs) k)"
  shows "probed (batch_rows probe) R f jt side (probe_matches keys probe kvs) None S (t \<noteq> None)
     (probe_general_batches E (Some (Inr ctx)) probe build keys jt t None None)"
proof -
  let ?n = "batch_rows probe"
  have "key_batch_ok keys types probe" and refs: "snd ` set kvs \<subseteq> R" using ready by (simp_all add: probe_ready_def)
  from key_batch_arrays [OF this(1)] obtain arrays where arrays: "key_arrays probe keys = Some (Inr arrays)"
    "map array_type arrays = types" "\<forall>a \<in> set arrays. array_ok a \<and> array_len a = ?n" "arrays \<noteq> []" by blast
  have converted: "convert_rows E arrays = Inr (map (\<lambda>row. img types (key_cells arrays row)) [0..<?n])"
    using engine arrays(2-4) unfolding row_format_ok_def batch_ok_columns_def by blast
  have inj: "inj (img types)" using engine by (simp add: row_format_ok_def)
  have "probed ?n R f jt side (probe_matches keys probe kvs) None S (t \<noteq> None) (outcome_bind
      (fold_outcome (\<lambda>row. probe_general_row E ctx build jt None arrays (row, img types (key_cells arrays row))) [0..<?n] (initial_probe_state t None))
      (\<lambda>st. outcome_bind (finish_pairs ctx st) (finish_semi ctx)))"
    by (rule loop_probed [OF _ knows finish_probed [OF ctx]])
      (rule general_row_inv [OF _ _ ready_rows [OF ready] ctx semi refs arrays(1) inj bloom maps])
  then show ?thesis
    by (simp add: probe_general_batches_def arrays(1,2) types converted enumerate_map_upt fold_outcome_map Let_def)
qed


subsection \<open>The choice of the loop\<close>

text \<open>Outside the mode for a single key the maps of integers are maps of lists.\<close>

lemma outcome_bind_Inr: "outcome_bind r g = Some (Inr y) \<Longrightarrow> \<exists>x. r = Some (Inr x) \<and> g x = Some (Inr y)"
  by (auto simp: outcome_bind_def split: option.splits sum.splits)

lemma fold_outcome_inv:
  assumes "fold_outcome f xs s = Some (Inr s')" "P s" "\<And>x s s'. x \<in> set xs \<Longrightarrow> P s \<Longrightarrow> f x s = Some (Inr s') \<Longrightarrow> P s'"
  shows "P s'"
  using assms
proof (induction xs arbitrary: s)
  case (Cons x xs)
  from outcome_bind_Inr [OF Cons.prems(1) [unfolded fold_outcome.simps]] obtain s1 where
    "f x s = Some (Inr s1)" "fold_outcome f xs s1 = Some (Inr s')" by blast
  with Cons show ?case by (meson list.set_intros)
qed simp

definition lists_only :: "'row build_state \<Rightarrow> bool" where
  "lists_only st \<longleftrightarrow> fst (bs_i32 st) = None \<and> fst (bs_i64 st) = None"

lemma push_typed_lists: "fst maps = None \<Longrightarrow> fst (push_typed column row r maps) = None"
  by (cases maps) (auto simp: push_typed_def split: option.splits)

lemma add_pair_string_sel [simp]:
  "bs_i32 (add_pair_and_string pc sc row r st) = bs_i32 st" "bs_i64 (add_pair_and_string pc sc row r st) = bs_i64 st"
  by (auto simp: add_pair_and_string_def Let_def split: option.splits)

lemma all_key_rows_lists:
  assumes "all_key_rows E collect bi arrays key_rows ic lc pc sc st = Some (Inr st')" "lists_only st"
  shows "lists_only st'"
  using assms(1) unfolding all_key_rows_def
proof (rule fold_outcome_inv)
  fix x st st' assume st: "lists_only st" and step: "(case x of (row, key) \<Rightarrow> build_row collect (\<lambda>row. list_ex (\<lambda>a. array_is_null a row) arrays)
    (add_all_keys E ic lc pc sc key) bi row) st = Some (Inr st')"
  obtain row key where x: "x = (row, key)" by (cases x)
  have add: "lists_only st2" if "add_all_keys E ic lc pc sc key row r st1 = Some (Inr st2)" "lists_only st1" for r st1 st2
    using outcome_bind_Inr [OF that(1) [unfolded add_all_keys_def Let_def]] that(2) by (auto simp: lists_only_def push_typed_lists)
  have "lists_only (if collect then st\<lparr>bs_all_rows := bs_all_rows st @ [row_ref bi row]\<rparr> else st)" using st by (simp add: lists_only_def)
  with step x add show "lists_only st'"
    by (auto simp: build_row_def too_many_build_rows_def unsupported_def Let_def split: if_splits)
qed (rule assms(2))

lemma key_set_rows_lists:
  assumes "i32_key_set_rows rows column st = Some (Inr st')" "lists_only st"
  shows "lists_only st'"
  using assms(1) unfolding i32_key_set_rows_def
  by (rule fold_outcome_inv) (use assms(2) in \<open>auto simp: lists_only_def expect_def outcome_bind_def split: if_splits option.splits sum.splits\<close>)

lemma build_batch_lists:
  assumes step: "build_batch E mode collect keys types nb st = Some (Inr st')" and mode: "mode \<noteq> BuildFastSingleKey" and st: "lists_only st"
  shows "lists_only st'"
proof -
  obtain bi batch where nb: "nb = (bi, batch)" by (cases nb)
  show ?thesis
    using step mode st key_set_rows_lists all_key_rows_lists unfolding build_batch_def nb Let_def
    by (auto dest!: outcome_bind_Inr split: if_splits)
qed

lemma build_lists:
  assumes build: "build_hash_join_input E batches keys mode collect = Some (Inr build)" and mode: "mode \<noteq> BuildFastSingleKey"
  shows "jb_i32_dense_unique_rows build = None \<and> jb_i32_unique_rows build = None \<and> jb_i64_dense_unique_rows build = None \<and>
     jb_i64_unique_rows build = None"
proof -
  from build mode obtain types bloom st where st: "fold_outcome (build_batch E mode collect keys types) (enumerate 0 batches)
      (initial_build_state mode types bloom) = Some (Inr st)" "finish_hash_join_build batches types st = Some (Inr build)"
    unfolding build_hash_join_input_def by (auto dest!: outcome_bind_Inr split: if_splits)
  have "lists_only (initial_build_state mode types bloom :: 'a build_state)" using mode by (simp add: lists_only_def initial_build_state_def)
  with fold_outcome_inv [OF st(1), of lists_only] build_batch_lists mode have "lists_only st" by blast
  with st(2) show ?thesis unfolding finish_hash_join_build_def Let_def lists_only_def and_then_dense_def
    by (auto dest!: outcome_bind_Inr split: prod.splits)
qed

text \<open>Whatever index the build side has, the probe of a batch is the reference join of its rows.\<close>

lemma build_repD:
  assumes "build_rep E img mode types kvs build"
  shows "jb_i32_dense_unique_rows build = Some d1 \<Longrightarrow> types = [Int32] \<and> dense_unique_represents 32 d1 (retype int_key kvs)"
    "jb_i32_unique_rows build = Some m2 \<Longrightarrow> types = [Int32] \<and> maps_represent (Some m2, None) (retype int_key kvs)"
    "jb_i32_dense_rows build = Some d3 \<Longrightarrow> types = [Int32] \<and> dense_multi_represents d3 (retype int_key kvs)"
    "jb_i32_rows build = Some m4 \<Longrightarrow> types = [Int32] \<and> maps_represent (None, Some m4) (retype int_key kvs)"
    "jb_i64_dense_unique_rows build = Some d5 \<Longrightarrow> types = [Int64] \<and> dense_unique_represents 64 d5 (retype int_key kvs)"
    "jb_i64_unique_rows build = Some m6 \<Longrightarrow> types = [Int64] \<and> maps_represent (Some m6, None) (retype int_key kvs)"
    "jb_i64_rows build = Some m7 \<Longrightarrow> types = [Int64] \<and> maps_represent (None, Some m7) (retype int_key kvs)"
    "jb_i32_pair_dense_unique_rows build = Some d8 \<Longrightarrow> types = [Int32, Int32] \<and> dense_pair_represents d8 (retype pair_key kvs)"
    "jb_i32_pair_unique_rows build = Some m9 \<Longrightarrow> types = [Int32, Int32] \<and> maps_represent (Some m9, None) (retype pair_key kvs)"
    "jb_i32_pair_rows build = Some m10 \<Longrightarrow> types = [Int32, Int32] \<and> maps_represent (None, Some m10) (retype pair_key kvs)"
    "jb_string_unique_rows build = Some m11 \<Longrightarrow> types = [Utf8] \<and> maps_represent (Some m11, None) (retype string_key kvs)"
    "jb_string_rows build = Some m12 \<Longrightarrow> types = [Utf8] \<and> maps_represent (None, Some m12) (retype string_key kvs)"
    "jb_i32_key_set build = Some ks \<Longrightarrow> types = [Int32] \<and> set ks = fst ` set (retype int_key kvs)"
    "jb_i32_dense_key_set build = Some d \<Longrightarrow> types = [Int32] \<and> (\<forall>k. dense_i32_keys_contains d k \<longleftrightarrow> k \<in> fst ` set (retype int_key kvs))"
  using assms by (simp_all add: build_rep_def)

definition int_lists_only :: "'row hash_join_build \<Rightarrow> bool" where
  "int_lists_only build \<longleftrightarrow> jb_i32_dense_unique_rows build = None \<and> jb_i32_unique_rows build = None \<and>
     jb_i64_dense_unique_rows build = None \<and> jb_i64_unique_rows build = None"

lemma indexed_probed:
  assumes rep: "build_rep E img mode types kvs build" and complete: "build_complete E img mode types kvs build" and types: "jb_key_types build = types"
    and engine: "row_format_ok E img" and ready: "probe_ready types keys probe kvs R" and ctx: "context_ok (batch_rows probe) R side f ctx"
    and semi: "jt = JoinSemi \<Longrightarrow> side = BuildRight \<and> int_lists_only build" and distinct: "distinct (map snd kvs)"
    and knows: "tracker_knows (jb_i32_dense_unique_rows build) t S"
    and no_set: "\<not> (jt = JoinSemi \<and> jb_i32_dense_key_set build \<noteq> None)" "\<not> (jt = JoinSemi \<and> jb_i32_key_set build \<noteq> None)"
    and set_mode: "generic_build mode types \<or> mode = BuildFastSingleKey"
  shows "probed (batch_rows probe) R f jt side (probe_matches keys probe kvs) (jb_i32_dense_unique_rows build) S (t \<noteq> None)
     (probe_hash_join_batches E (Some (Inr ctx)) probe build keys side jt t None None)"
proof -
  have right: "jt = JoinSemi \<longrightarrow> side = BuildRight" using semi by blast
  have skip: "(if jt = JoinSemi then jb_i32_dense_key_set build else None) = None" "(if jt = JoinSemi then jb_i32_key_set build else None) = None"
    using no_set by auto
  note dispatch = probe_hash_join_batches_def Let_def skip
  show ?thesis
  proof (cases "jb_i32_dense_unique_rows build")
    case (Some d)
    with build_repD(1) [OF rep] have t: "types = [Int32]" and r: "dense_unique_represents 32 d (retype int_key kvs)" by auto
    have jt: "jt \<noteq> JoinSemi" using semi Some by (auto simp: int_lists_only_def)
    show ?thesis using dense_i32_unique_probed [OF ready [unfolded t] ctx jt r distinct knows [unfolded Some]]
      by (simp add: dispatch Some)
  next
    case n1: None
    have none: "tracker_knows None t S" using knows n1 by simp
    show ?thesis
    proof (cases "jb_i32_unique_rows build")
      case (Some d)
      with build_repD(2) [OF rep] have t: "types = [Int32]" and r: "maps_represent (Some d, None) (retype int_key kvs)" by auto
      have jt: "jt \<noteq> JoinSemi" using semi Some by (auto simp: int_lists_only_def)
      show ?thesis using i32_unique_probed [OF ready [unfolded t] ctx jt r none] by (simp add: dispatch n1 Some)
    next
      case n2: None
      show ?thesis
      proof (cases "jb_i32_dense_rows build")
        case (Some d)
        with build_repD(3) [OF rep] have t: "types = [Int32]" and r: "dense_multi_represents d (retype int_key kvs)" by auto
        show ?thesis using dense_i32_probed [OF ready [unfolded t] ctx right r none] by (simp add: dispatch n1 n2 Some)
      next
        case n3: None
        show ?thesis
        proof (cases "jb_i32_rows build")
          case (Some d)
          with build_repD(4) [OF rep] have t: "types = [Int32]" and r: "maps_represent (None, Some d) (retype int_key kvs)" by auto
          show ?thesis using i32_probed [OF ready [unfolded t] ctx right r none] by (simp add: dispatch n1 n2 n3 Some)
        next
          case n4: None
          show ?thesis
          proof (cases "jb_i64_dense_unique_rows build")
            case (Some d)
            with build_repD(5) [OF rep] have t: "types = [Int64]" and r: "dense_unique_represents 64 d (retype int_key kvs)" by auto
            have jt: "jt \<noteq> JoinSemi" using semi Some by (auto simp: int_lists_only_def)
            show ?thesis using dense_i64_unique_probed [OF ready [unfolded t] ctx jt r none] by (simp add: dispatch n1 n2 n3 n4 Some)
          next
            case n5: None
            show ?thesis
            proof (cases "jb_i64_unique_rows build")
              case (Some d)
              with build_repD(6) [OF rep] have t: "types = [Int64]" and r: "maps_represent (Some d, None) (retype int_key kvs)" by auto
              have jt: "jt \<noteq> JoinSemi" using semi Some by (auto simp: int_lists_only_def)
              show ?thesis using i64_unique_probed [OF ready [unfolded t] ctx jt r none] by (simp add: dispatch n1 n2 n3 n4 n5 Some)
            next
              case n6: None
              show ?thesis
              proof (cases "jb_i64_rows build")
                case (Some d)
                with build_repD(7) [OF rep] have t: "types = [Int64]" and r: "maps_represent (None, Some d) (retype int_key kvs)" by auto
                show ?thesis using i64_probed [OF ready [unfolded t] ctx right r none] by (simp add: dispatch n1 n2 n3 n4 n5 n6 Some)
              next
                case n7: None
                show ?thesis
                proof (cases "jb_i32_pair_dense_unique_rows build")
                  case (Some d)
                  with build_repD(8) [OF rep] have t: "types = [Int32, Int32]" and r: "dense_pair_represents d (retype pair_key kvs)" by auto
                  show ?thesis using dense_pair_unique_probed [OF ready [unfolded t] ctx right types [unfolded t] r none] by (simp add: dispatch n1 n2 n3 n4 n5 n6 n7 Some)
                next
                  case n8: None
                  show ?thesis
                  proof (cases "jb_i32_pair_unique_rows build")
                    case (Some d)
                    with build_repD(9) [OF rep] have t: "types = [Int32, Int32]" and r: "maps_represent (Some d, None) (retype pair_key kvs)" by auto
                    show ?thesis using pair_unique_probed [OF ready [unfolded t] ctx right types [unfolded t] r none] by (simp add: dispatch n1 n2 n3 n4 n5 n6 n7 n8 Some)
                  next
                    case n9: None
                    show ?thesis
                    proof (cases "jb_i32_pair_rows build")
                      case (Some d)
                      with build_repD(10) [OF rep] have t: "types = [Int32, Int32]" and r: "maps_represent (None, Some d) (retype pair_key kvs)" by auto
                      show ?thesis using pair_probed [OF ready [unfolded t] ctx right types [unfolded t] r none] by (simp add: dispatch n1 n2 n3 n4 n5 n6 n7 n8 n9 Some)
                    next
                      case n10: None
                      show ?thesis
                      proof (cases "jb_string_unique_rows build")
                        case (Some d)
                        with build_repD(11) [OF rep] have t: "types = [Utf8]" and r: "maps_represent (Some d, None) (retype string_key kvs)" by auto
                        show ?thesis using string_unique_probed [OF ready [unfolded t] ctx right r none] by (simp add: dispatch n1 n2 n3 n4 n5 n6 n7 n8 n9 n10 Some)
                      next
                        case n11: None
                        show ?thesis
                        proof (cases "jb_string_rows build")
                          case (Some d)
                          with build_repD(12) [OF rep] have t: "types = [Utf8]" and r: "maps_represent (None, Some d) (retype string_key kvs)" by auto
                          show ?thesis using string_probed [OF ready [unfolded t] ctx right r none] by (simp add: dispatch n1 n2 n3 n4 n5 n6 n7 n8 n9 n10 n11 Some)
                        next
                          case n12: None
                          have gen: "generic_build mode types"
                          proof (rule ccontr)
                            assume "\<not> generic_build mode types"
                            with complete set_mode n1 n2 n3 n4 n5 n6 n7 n8 n9 n10 n11 n12 show False by (simp add: build_complete_def)
                          qed
                          from complete have b: "bloom_covers E (jb_bloom build) (fst ` set (retype (img types) kvs))"
                            and m: "\<And>k. (case map_of (jb_rows build) k of Some refs \<Rightarrow> Some refs | None \<Rightarrow> map_of (jb_heavy_rows build) k) =
                              some_nonempty (group_refs (retype (img types) kvs) k)" unfolding build_complete_def if_P [OF gen] by blast+
                          show ?thesis using general_probed [OF ready ctx right none engine types b m] by (simp add: dispatch n1 n2 n3 n4 n5 n6 n7 n8 n9 n10 n11 n12)
                        qed
                      qed
                    qed
                  qed
                qed
              qed
            qed
          qed
        qed
      qed
    qed
  qed
qed

lemma probe_hash_join_batches_probed:
  assumes rep: "build_rep E img mode types kvs build" and complete: "build_complete E img mode types kvs build" and types: "jb_key_types build = types"
    and engine: "row_format_ok E img" and ready: "probe_ready types keys probe kvs R" and ctx: "context_ok (batch_rows probe) R side f ctx"
    and semi: "jt = JoinSemi \<Longrightarrow> side = BuildRight \<and> int_lists_only build \<and> t = None" and distinct: "distinct (map snd kvs)"
    and knows: "tracker_knows (jb_i32_dense_unique_rows build) t S"
    and mode: "generic_build mode types \<or> mode = BuildFastSingleKey \<or> mode = BuildFastSemi \<and> jt = JoinSemi"
  shows "probed (batch_rows probe) R f jt side (probe_matches keys probe kvs) (jb_i32_dense_unique_rows build) S (t \<noteq> None)
     (probe_hash_join_batches E (Some (Inr ctx)) probe build keys side jt t None None)"
proof (cases "jt = JoinSemi \<and> jb_i32_dense_key_set build \<noteq> None")
  case True
  then obtain d where d: "jb_i32_dense_key_set build = Some d" by auto
  with build_repD(14) [OF rep] have t: "types = [Int32]" and has: "\<And>k. dense_i32_keys_contains d k \<longleftrightarrow> k \<in> fst ` set (retype int_key kvs)" by auto
  from True semi have s: "jt = JoinSemi" "side = BuildRight" "t = None" by auto
  show ?thesis using semi_probed(1) [OF ready [unfolded t] ctx [unfolded s(2)] has] by (simp add: probe_hash_join_batches_def d s)
next
  case no_dense: False
  show ?thesis
  proof (cases "jt = JoinSemi \<and> jb_i32_key_set build \<noteq> None")
    case True
    then obtain ks where ks: "jb_i32_key_set build = Some ks" by auto
    with build_repD(13) [OF rep] have t: "types = [Int32]" and has: "set ks = fst ` set (retype int_key kvs)" by auto
    from True semi have s: "jt = JoinSemi" "side = BuildRight" "t = None" by auto
    from no_dense s(1) have d: "jb_i32_dense_key_set build = None" by auto
    show ?thesis using semi_probed(2) [OF ready [unfolded t] ctx [unfolded s(2)] has] by (simp add: probe_hash_join_batches_def d ks s)
  next
    case False
    have "generic_build mode types \<or> mode = BuildFastSingleKey"
    proof (rule ccontr)
      assume not: "\<not> ?thesis"
      with mode have "mode = BuildFastSemi" "jt = JoinSemi" by auto
      moreover from this not complete have "jb_i32_key_set build \<noteq> None" by (simp add: build_complete_def)
      ultimately show False using False by simp
    qed
    then show ?thesis using semi by (intro indexed_probed [OF rep complete types engine ready ctx _ distinct knows no_dense False]) auto
  qed
qed

end
