(* ===== verification/Join_Stream.thy ===== *)
theory Join_Stream
  imports Join_Correct
begin

text \<open>
  \<open>HashJoinStream\<close> of \<open>execution/physical.rs\<close>: the iterator that collects its build side, probes it with one batch of
  the other side at a time, hands out the resulting batches one by one, and ends with the build rows that found no
  match.  An input is the list of the items it still yields; an item is a batch or an error.  A caller stops at the
  first error, so the state after an error is left out.  How a piece becomes a batch is the record \<open>join_output\<close>.
\<close>

subsection \<open>The iterator\<close>

type_synonym batch_stream = "(dodam_error + record_batch) list"

record ('row, 'b) join_output =
  out_context :: "'row hash_join_build \<Rightarrow> record_batch \<Rightarrow> 'b probe_context outcome"
  out_unmatched_build :: "'row hash_join_build \<Rightarrow> record_batch \<Rightarrow> build_row_ref list \<Rightarrow> 'b outcome"

record ('row, 'b) hash_join_stream =
  hs_left :: batch_stream
  hs_right :: batch_stream
  hs_left_keys :: "string list"
  hs_right_keys :: "string list"
  hs_build :: "'row hash_join_build option"
  hs_build_side :: join_build_side
  hs_join_type :: join_type
  hs_pending :: "'b list"
  hs_built :: bool
  hs_matched_build :: "matched_build_tracker option"
  hs_emitted :: bool
  hs_template :: "record_batch option"

definition hash_join_stream_new ::
    "batch_stream \<Rightarrow> batch_stream \<Rightarrow> string list \<Rightarrow> string list \<Rightarrow> join_build_side \<Rightarrow> join_type \<Rightarrow> ('row, 'b) hash_join_stream" where
  "hash_join_stream_new left right left_keys right_keys build_side join_type =
     \<lparr>hs_left = left, hs_right = right, hs_left_keys = left_keys, hs_right_keys = right_keys, hs_build = None,
      hs_build_side = build_side, hs_join_type = join_type, hs_pending = [], hs_built = False, hs_matched_build = None,
      hs_emitted = False, hs_template = None\<rparr>"

fun collect_non_empty_batches :: "batch_stream \<Rightarrow> record_batch list outcome" where
  "collect_non_empty_batches [] = Some (Inr [])"
| "collect_non_empty_batches (Inl e # rest) = Some (Inl e)"
| "collect_non_empty_batches (Inr batch # rest) =
     outcome_bind (collect_non_empty_batches rest) (\<lambda>batches.
       Some (Inr (if batch_rows batch > 0 then batch # batches else batches)))"

definition hash_build_mode_for :: "join_type \<Rightarrow> hash_build_mode" where
  "hash_build_mode_for join_type = (if join_type = JoinSemi then BuildFastSemi else BuildFastSingleKey)"

text \<open>The side the build reads and the side the probe reads, with their keys.\<close>

definition hs_build_input :: "('row, 'b) hash_join_stream \<Rightarrow> batch_stream \<times> string list" where
  "hs_build_input st = (if hs_build_side st = BuildLeft then (hs_left st, hs_left_keys st) else (hs_right st, hs_right_keys st))"

definition hs_probe_input :: "('row, 'b) hash_join_stream \<Rightarrow> batch_stream \<times> string list" where
  "hs_probe_input st = (if hs_build_side st = BuildLeft then (hs_right st, hs_right_keys st) else (hs_left st, hs_left_keys st))"

definition hs_drop_build_input :: "('row, 'b) hash_join_stream \<Rightarrow> ('row, 'b) hash_join_stream" where
  "hs_drop_build_input st = (if hs_build_side st = BuildLeft then st\<lparr>hs_left := []\<rparr> else st\<lparr>hs_right := []\<rparr>)"

definition hs_set_probe_input :: "batch_stream \<Rightarrow> ('row, 'b) hash_join_stream \<Rightarrow> ('row, 'b) hash_join_stream" where
  "hs_set_probe_input input st = (if hs_build_side st = BuildLeft then st\<lparr>hs_right := input\<rparr> else st\<lparr>hs_left := input\<rparr>)"

text \<open>The build, on the first call only; \<open>False\<close> when the build side has no rows, which ends the call.\<close>

definition hash_join_start :: "'row join_engine \<Rightarrow> ('row, 'b) hash_join_stream \<Rightarrow> (bool \<times> ('row, 'b) hash_join_stream) outcome" where
  "hash_join_start E st =
     (if hs_built st then Some (Inr (True, st))
      else let (input, keys) = hs_build_input st; st1 = hs_drop_build_input (st\<lparr>hs_built := True\<rparr>)
           in outcome_bind (collect_non_empty_batches input) (\<lambda>batches.
                if batches = [] then Some (Inr (False, st1))
                else outcome_bind (build_hash_join_input E batches keys (hash_build_mode_for (hs_join_type st))
                       (should_emit_unmatched_build (hs_join_type st) (hs_build_side st))) (\<lambda>build.
                     Some (Inr (True, st1\<lparr>hs_build := Some build,
                       hs_matched_build := (if should_track_matched_build (hs_join_type st) (hs_build_side st)
                                            then Some (tracker_for_build build) else None)\<rparr>)))))"

text \<open>The loop over the probe input: it stops at the first batch that gives output.  \<open>None\<close> ends the call for want of a
  build side.\<close>

fun probe_until_output ::
    "'row join_engine \<Rightarrow> ('row, 'b) join_output \<Rightarrow> batch_stream \<Rightarrow> ('row, 'b) hash_join_stream \<Rightarrow>
     ('b list option \<times> ('row, 'b) hash_join_stream) outcome" where
  "probe_until_output E out [] st = Some (Inr (Some [], hs_set_probe_input [] st))"
| "probe_until_output E out (Inl e # rest) st = Some (Inl e)"
| "probe_until_output E out (Inr batch # rest) st =
     (let st1 = (hs_set_probe_input rest st)\<lparr>hs_template := (case hs_template st of None \<Rightarrow> Some batch | Some b \<Rightarrow> Some b)\<rparr>
      in if batch_rows batch = 0 then probe_until_output E out rest st1
         else case hs_build st1 of
                None \<Rightarrow> Some (Inr (None, st1))
              | Some build \<Rightarrow>
                  outcome_bind (probe_hash_join_batches E (out_context out build batch) batch build (snd (hs_probe_input st1))
                    (hs_build_side st1) (hs_join_type st1) (hs_matched_build st1) None None) (\<lambda>probed.
                    let st2 = st1\<lparr>hs_matched_build := ps_tracker probed\<rparr>
                    in if ps_output probed = [] then probe_until_output E out rest st2
                       else Some (Inr (Some (ps_output probed), st2))))"

definition hand_out :: "'b list \<Rightarrow> ('row, 'b) hash_join_stream \<Rightarrow> ('b option \<times> ('row, 'b) hash_join_stream) outcome" where
  "hand_out batches st =
     (case batches of
        [] \<Rightarrow> Some (Inr (None, st))
      | batch # rest \<Rightarrow> Some (Inr (Some batch, st\<lparr>hs_pending := hs_pending st @ rest\<rparr>)))"

definition hash_join_next ::
    "'row join_engine \<Rightarrow> ('row, 'b) join_output \<Rightarrow> ('row, 'b) hash_join_stream \<Rightarrow> ('b option \<times> ('row, 'b) hash_join_stream) outcome" where
  "hash_join_next E out st =
     (case hs_pending st of
        batch # rest \<Rightarrow> Some (Inr (Some batch, st\<lparr>hs_pending := rest\<rparr>))
      | [] \<Rightarrow>
          outcome_bind (hash_join_start E st) (\<lambda>(started, st1).
            if \<not> started then Some (Inr (None, st1))
            else outcome_bind (probe_until_output E out (fst (hs_probe_input st1)) st1) (\<lambda>(batches, st2).
              case batches of
                None \<Rightarrow> Some (Inr (None, st2))
              | Some (b # bs) \<Rightarrow> hand_out (b # bs) st2
              | Some [] \<Rightarrow>
                  (case hs_build st2 of
                     None \<Rightarrow> Some (Inr (None, st2))
                   | Some build \<Rightarrow>
                       outcome_bind (emit_unmatched_build_if_needed build (hs_matched_build st2) (hs_build_side st2) (hs_join_type st2)
                         (out_unmatched_build out build) (hs_template st2) (hs_emitted st2)) (\<lambda>(batches, emitted).
                         hand_out batches (st2\<lparr>hs_emitted := emitted\<rparr>))))))"

subsection \<open>Every call uses something up\<close>

definition stream_fuel :: "('row, 'b) hash_join_stream \<Rightarrow> (nat \<times> nat \<times> nat \<times> nat)" where
  "stream_fuel st = (if hs_built st then 0 else 1, length (fst (hs_probe_input st)), if hs_emitted st then 0 else 1, length (hs_pending st))"

definition stream_order :: "(('row, 'b) hash_join_stream \<times> ('row, 'b) hash_join_stream) set" where
  "stream_order = inv_image (less_than <*lex*> less_than <*lex*> less_than <*lex*> less_than) stream_fuel"

lemma wf_stream_order: "wf stream_order"
  unfolding stream_order_def by (intro wf_inv_image wf_lex_prod wf_less_than)

lemma hs_input_simps [simp]:
  "fst (hs_probe_input (hs_set_probe_input input st)) = input" "snd (hs_probe_input (hs_set_probe_input input st)) = snd (hs_probe_input st)"
  "hs_pending (hs_set_probe_input input st) = hs_pending st" "hs_built (hs_set_probe_input input st) = hs_built st"
  "hs_emitted (hs_set_probe_input input st) = hs_emitted st" "hs_build (hs_set_probe_input input st) = hs_build st"
  "hs_build_side (hs_set_probe_input input st) = hs_build_side st" "hs_join_type (hs_set_probe_input input st) = hs_join_type st"
  "hs_matched_build (hs_set_probe_input input st) = hs_matched_build st" "hs_template (hs_set_probe_input input st) = hs_template st"
  by (simp_all add: hs_probe_input_def hs_set_probe_input_def)

lemma hs_probe_input_update [simp]:
  "hs_probe_input (st\<lparr>hs_template := t\<rparr>) = hs_probe_input st" "hs_probe_input (st\<lparr>hs_matched_build := m\<rparr>) = hs_probe_input st"
  "hs_probe_input (st\<lparr>hs_pending := p\<rparr>) = hs_probe_input st" "hs_probe_input (st\<lparr>hs_emitted := e\<rparr>) = hs_probe_input st"
  "hs_probe_input (st\<lparr>hs_build := b\<rparr>) = hs_probe_input st" "hs_probe_input (st\<lparr>hs_built := c\<rparr>) = hs_probe_input st"
  "hs_probe_input (hs_drop_build_input st) = hs_probe_input st"
  by (simp_all add: hs_probe_input_def hs_drop_build_input_def)

lemma hs_drop_simps [simp]:
  "hs_pending (hs_drop_build_input st) = hs_pending st" "hs_built (hs_drop_build_input st) = hs_built st"
  "hs_emitted (hs_drop_build_input st) = hs_emitted st" "hs_build (hs_drop_build_input st) = hs_build st"
  "hs_build_side (hs_drop_build_input st) = hs_build_side st" "hs_join_type (hs_drop_build_input st) = hs_join_type st"
  "hs_matched_build (hs_drop_build_input st) = hs_matched_build st" "hs_template (hs_drop_build_input st) = hs_template st"
  by (simp_all add: hs_drop_build_input_def)

lemma probe_until_output_keeps:
  fixes st :: "('row, 'b) hash_join_stream"
  shows "probe_until_output E out inputs st = Some (Inr (batches, st')) \<Longrightarrow>
   hs_built st' = hs_built st \<and> hs_emitted st' = hs_emitted st \<and> hs_pending st' = hs_pending st \<and>
   length (fst (hs_probe_input st')) \<le> length inputs \<and>
   (batches \<noteq> Some [] \<longrightarrow> length (fst (hs_probe_input st')) < length inputs)"
proof (induction inputs arbitrary: st)
  case (Cons item rest)
  obtain batch where item: "item = Inr batch" using Cons.prems by (cases item) auto
  define st1 where "st1 = (hs_set_probe_input rest st)\<lparr>hs_template := (case hs_template st of None \<Rightarrow> Some batch | Some b \<Rightarrow> Some b)\<rparr>"
  have st1: "hs_built st1 = hs_built st" "hs_emitted st1 = hs_emitted st" "hs_pending st1 = hs_pending st" "fst (hs_probe_input st1) = rest"
    by (simp_all add: st1_def)
  have kept: ?case if "probe_until_output E out rest (st1\<lparr>hs_matched_build := m\<rparr>) = Some (Inr (batches, st'))" for m
    using Cons.IH [OF that] st1 by auto
  have step: "probe_until_output E out (item # rest) st =
      (if batch_rows batch = 0 then probe_until_output E out rest st1
       else case hs_build st1 of
              None \<Rightarrow> Some (Inr (None, st1))
            | Some build \<Rightarrow>
                outcome_bind (probe_hash_join_batches E (out_context out build batch) batch build (snd (hs_probe_input st1))
                  (hs_build_side st1) (hs_join_type st1) (hs_matched_build st1) None None) (\<lambda>probed.
                  if ps_output probed = [] then probe_until_output E out rest (st1\<lparr>hs_matched_build := ps_tracker probed\<rparr>)
                  else Some (Inr (Some (ps_output probed), st1\<lparr>hs_matched_build := ps_tracker probed\<rparr>))))"
    unfolding item probe_until_output.simps Let_def st1_def ..
  consider (empty) "batch_rows batch = 0" | (none) "batch_rows batch \<noteq> 0" "hs_build st1 = None"
    | (some) build where "batch_rows batch \<noteq> 0" "hs_build st1 = Some build" by fastforce
  then show ?case
  proof cases
    case empty
    then show ?thesis using Cons.prems Cons.IH [of st1] st1 unfolding step by auto
  next
    case none
    then show ?thesis using Cons.prems st1 unfolding step by auto
  next
    case some
    with Cons.prems [unfolded step] have "outcome_bind (probe_hash_join_batches E (out_context out build batch) batch build (snd (hs_probe_input st1))
        (hs_build_side st1) (hs_join_type st1) (hs_matched_build st1) None None) (\<lambda>probed.
        if ps_output probed = [] then probe_until_output E out rest (st1\<lparr>hs_matched_build := ps_tracker probed\<rparr>)
        else Some (Inr (Some (ps_output probed), st1\<lparr>hs_matched_build := ps_tracker probed\<rparr>))) = Some (Inr (batches, st'))" by simp
    from outcome_bind_Inr [OF this] obtain probed :: "('row, 'b) probe_state" where
      "(if ps_output probed = [] then probe_until_output E out rest (st1\<lparr>hs_matched_build := ps_tracker probed\<rparr>)
        else Some (Inr (Some (ps_output probed), st1\<lparr>hs_matched_build := ps_tracker probed\<rparr>))) = Some (Inr (batches, st'))" by blast
    with kept [of "ps_tracker probed"] st1 show ?thesis by (cases "ps_output probed = []") auto
  qed
qed auto

lemma hash_join_start_keeps:
  "hash_join_start E st = Some (Inr (started, st')) \<Longrightarrow>
   hs_built st' \<and> hs_emitted st' = hs_emitted st \<and> hs_pending st' = hs_pending st \<and> hs_probe_input st' = hs_probe_input st"
  by (auto simp: hash_join_start_def Let_def dest!: outcome_bind_Inr split: if_splits prod.splits)

lemma hash_join_next_uses:
  assumes "hash_join_next E out st = Some (Inr (Some batch, st'))"
  shows "(st', st) \<in> stream_order"
proof (cases "hs_pending st")
  case (Cons b rest)
  with assms have "st' = st\<lparr>hs_pending := rest\<rparr>" by (simp add: hash_join_next_def)
  with Cons show ?thesis by (simp add: stream_order_def stream_fuel_def)
next
  case Nil
  from outcome_bind_Inr [OF assms [unfolded hash_join_next_def Nil list.case]] obtain started st1 where
    start: "hash_join_start E st = Some (Inr (started, st1))"
    and rest: "(if \<not> started then Some (Inr (None, st1))
            else outcome_bind (probe_until_output E out (fst (hs_probe_input st1)) st1) (\<lambda>(batches, st2).
              case batches of
                None \<Rightarrow> Some (Inr (None, st2))
              | Some (b # bs) \<Rightarrow> hand_out (b # bs) st2
              | Some [] \<Rightarrow>
                  (case hs_build st2 of
                     None \<Rightarrow> Some (Inr (None, st2))
                   | Some build \<Rightarrow>
                       outcome_bind (emit_unmatched_build_if_needed build (hs_matched_build st2) (hs_build_side st2) (hs_join_type st2)
                         (out_unmatched_build out build) (hs_template st2) (hs_emitted st2)) (\<lambda>(batches, emitted).
                         hand_out batches (st2\<lparr>hs_emitted := emitted\<rparr>))))) = Some (Inr (Some batch, st'))" by auto
  note kept = hash_join_start_keeps [OF start]
  from rest have "started" by (auto split: if_splits)
  with rest have "\<exists>x. probe_until_output E out (fst (hs_probe_input st1)) st1 = Some (Inr x)"
    by (auto dest!: outcome_bind_Inr)
  then obtain batches st2 where probe: "probe_until_output E out (fst (hs_probe_input st1)) st1 = Some (Inr (batches, st2))" by fastforce
  note used = probe_until_output_keeps [OF probe]
  show ?thesis
  proof (cases "batches = Some []")
    case True
    with rest \<open>started\<close> probe have "\<not> hs_emitted st2 \<and> hs_built st' = hs_built st2 \<and> hs_emitted st' \<and> hs_probe_input st' = hs_probe_input st2"
      by (auto simp: hand_out_def emit_unmatched_build_if_needed_def Let_def dest!: outcome_bind_Inr split: option.splits list.splits if_splits)
    with kept used show ?thesis by (auto simp: stream_order_def stream_fuel_def)
  next
    case False
    with rest \<open>started\<close> probe have "hs_built st' = hs_built st2 \<and> hs_emitted st' = hs_emitted st2 \<and> hs_probe_input st' = hs_probe_input st2"
      by (auto simp: hand_out_def split: option.splits list.splits)
    with kept used False show ?thesis by (auto simp: stream_order_def stream_fuel_def)
  qed
qed

text \<open>What a caller that reads the stream to its end receives.\<close>

function hash_join_collect :: "'row join_engine \<Rightarrow> ('row, 'b) join_output \<Rightarrow> ('row, 'b) hash_join_stream \<Rightarrow> 'b list outcome" where
  "hash_join_collect E out st =
     (case hash_join_next E out st of
        None \<Rightarrow> None
      | Some (Inl e) \<Rightarrow> Some (Inl e)
      | Some (Inr (None, st1)) \<Rightarrow> Some (Inr [])
      | Some (Inr (Some batch, st1)) \<Rightarrow> outcome_bind (hash_join_collect E out st1) (\<lambda>batches. Some (Inr (batch # batches))))"
  by pat_completeness auto
termination
  by (relation "inv_image stream_order (\<lambda>(E, out, st). st)") (auto intro: wf_stream_order hash_join_next_uses)

declare hash_join_collect.simps [simp del]


subsection \<open>The stream is the join, batch by batch\<close>

text \<open>The same join without the hand-out: every probe batch in turn, then the unmatched build rows.\<close>

fun join_batches ::
    "'row join_engine \<Rightarrow> ('row, 'b) join_output \<Rightarrow> 'row hash_join_build \<Rightarrow> string list \<Rightarrow> join_build_side \<Rightarrow> join_type \<Rightarrow>
     batch_stream \<Rightarrow> record_batch option \<Rightarrow> matched_build_tracker option \<Rightarrow> 'b list outcome" where
  "join_batches E out build keys side jt [] template tracker =
     outcome_bind (emit_unmatched_build_if_needed build tracker side jt (out_unmatched_build out build) template False) (\<lambda>(batches, emitted).
       Some (Inr batches))"
| "join_batches E out build keys side jt (Inl e # rest) template tracker = Some (Inl e)"
| "join_batches E out build keys side jt (Inr batch # rest) template tracker =
     (let template1 = (case template of None \<Rightarrow> Some batch | Some b \<Rightarrow> Some b)
      in if batch_rows batch = 0 then join_batches E out build keys side jt rest template1 tracker
         else outcome_bind (probe_hash_join_batches E (out_context out build batch) batch build keys side jt tracker None None) (\<lambda>probed.
              outcome_bind (join_batches E out build keys side jt rest template1 (ps_tracker probed)) (\<lambda>batches.
                Some (Inr (ps_output probed @ batches)))))"

lemma outcome_bind_assoc: "outcome_bind (outcome_bind r f) g = outcome_bind r (\<lambda>x. outcome_bind (f x) g)"
  by (simp add: outcome_bind_def split: option.splits sum.splits)

lemma outcome_bind_return: "outcome_bind r (\<lambda>x. Some (Inr x)) = r"
  by (simp add: outcome_bind_def split: option.splits sum.splits)

lemma collect_next:
  "hash_join_collect E out st = outcome_bind (hash_join_next E out st) (\<lambda>(item, st1).
     case item of None \<Rightarrow> Some (Inr []) | Some batch \<Rightarrow> outcome_bind (hash_join_collect E out st1) (\<lambda>batches. Some (Inr (batch # batches))))"
  by (subst hash_join_collect.simps) (auto simp: outcome_bind_def split: option.splits sum.splits)

lemma collect_pending:
  "hash_join_collect E out (st\<lparr>hs_pending := p\<rparr>) = outcome_bind (hash_join_collect E out (st\<lparr>hs_pending := []\<rparr>)) (\<lambda>batches. Some (Inr (p @ batches)))"
proof (induction p)
  case (Cons b p)
  have "hash_join_next E out (st\<lparr>hs_pending := b # p\<rparr>) = Some (Inr (Some b, st\<lparr>hs_pending := p\<rparr>))" by (simp add: hash_join_next_def)
  then show ?case unfolding collect_next [of E out "st\<lparr>hs_pending := b # p\<rparr>"] by (simp add: Cons.IH outcome_bind_assoc)
qed (simp add: outcome_bind_return)

text \<open>A stream whose build side is there, with nothing to hand out.\<close>

definition stream_at ::
    "'row hash_join_build \<Rightarrow> string list \<Rightarrow> join_build_side \<Rightarrow> join_type \<Rightarrow> batch_stream \<Rightarrow> record_batch option \<Rightarrow>
     matched_build_tracker option \<Rightarrow> bool \<Rightarrow> ('row, 'b) hash_join_stream \<Rightarrow> bool" where
  "stream_at build keys side jt inputs template tracker emitted st \<longleftrightarrow>
     hs_built st \<and> hs_pending st = [] \<and> hs_build st = Some build \<and> hs_probe_input st = (inputs, keys) \<and> hs_build_side st = side \<and>
     hs_join_type st = jt \<and> hs_template st = template \<and> hs_matched_build st = tracker \<and> hs_emitted st = emitted"

lemma hand_out_collect:
  assumes head: "hash_join_next E out st = hand_out batches st'" and pending: "hs_pending st' = []"
    and rest: "batches \<noteq> [] \<Longrightarrow> hash_join_collect E out st' = r" and over: "batches = [] \<Longrightarrow> r = Some (Inr [])"
  shows "hash_join_collect E out st = outcome_bind r (\<lambda>more0. Some (Inr (batches @ more0)))"
proof (cases batches)
  case Nil
  then show ?thesis unfolding collect_next [of E out st] using head over by (simp add: hand_out_def)
next
  case (Cons b bs)
  have "st'\<lparr>hs_pending := []\<rparr> = st'" using pending by simp
  moreover from Cons head pending have "hash_join_next E out st = Some (Inr (Some b, st'\<lparr>hs_pending := bs\<rparr>))" by (simp add: hand_out_def)
  ultimately show ?thesis unfolding collect_next [of E out st] using Cons rest
    by (simp add: collect_pending [where st = st' and p = bs] outcome_bind_assoc)
qed

lemma next_at:
  assumes "stream_at build keys side jt inputs template tracker emitted st"
  shows "hash_join_next E out st = outcome_bind (probe_until_output E out inputs st) (\<lambda>(batches, st2).
     case batches of
       None \<Rightarrow> Some (Inr (None, st2))
     | Some (b # bs) \<Rightarrow> hand_out (b # bs) st2
     | Some [] \<Rightarrow>
         (case hs_build st2 of
            None \<Rightarrow> Some (Inr (None, st2))
          | Some build \<Rightarrow>
              outcome_bind (emit_unmatched_build_if_needed build (hs_matched_build st2) (hs_build_side st2) (hs_join_type st2)
                (out_unmatched_build out build) (hs_template st2) (hs_emitted st2)) (\<lambda>(batches, emitted).
                hand_out batches (st2\<lparr>hs_emitted := emitted\<rparr>))))"
  using assms by (simp add: hash_join_next_def stream_at_def hash_join_start_def)

lemma exhausted_probe:
  assumes "stream_at build keys side jt [] template tracker emitted st"
  shows "hs_set_probe_input [] st = st"
  using assms by (auto simp: stream_at_def hs_set_probe_input_def hs_probe_input_def split: if_splits)

lemma exhausted_next:
  assumes "stream_at build keys side jt [] template tracker emitted st"
  shows "hash_join_next E out st = outcome_bind (emit_unmatched_build_if_needed build tracker side jt (out_unmatched_build out build) template emitted)
     (\<lambda>(batches, emitted). hand_out batches (st\<lparr>hs_emitted := emitted\<rparr>))"
proof -
  have "hs_build st = Some build" "hs_matched_build st = tracker" "hs_build_side st = side" "hs_join_type st = jt" "hs_template st = template"
    "hs_emitted st = emitted" using assms by (simp_all add: stream_at_def)
  then show ?thesis unfolding next_at [OF assms] by (simp add: exhausted_probe [OF assms])
qed

lemma emitted_batches:
  "emit_unmatched_build_if_needed build tracker side jt mat template emitted = Some (Inr (batches, emitted')) \<Longrightarrow> batches \<noteq> [] \<Longrightarrow>
   should_emit_unmatched_build jt side \<and> emitted'"
  by (auto simp: emit_unmatched_build_if_needed_def Let_def dest!: outcome_bind_Inr split: if_splits option.splits)

lemma collect_exhausted:
  assumes "stream_at build keys side jt [] template tracker False st"
  shows "hash_join_collect E out st = join_batches E out build keys side jt [] template tracker"
proof (cases "emit_unmatched_build_if_needed build tracker side jt (out_unmatched_build out build) template False")
  case None
  then show ?thesis unfolding collect_next [of E out st] exhausted_next [OF assms] by simp
next
  case (Some r)
  show ?thesis
  proof (cases r)
    case (Inl e)
    then show ?thesis using Some unfolding collect_next [of E out st] exhausted_next [OF assms] by simp
  next
    case (Inr x)
    obtain batches emitted where x: "x = (batches, emitted)" by (cases x)
    let ?st' = "st\<lparr>hs_emitted := emitted\<rparr>"
    have at: "stream_at build keys side jt [] template tracker emitted ?st'" using assms by (simp add: stream_at_def)
    have "hash_join_collect E out st = outcome_bind (Some (Inr [])) (\<lambda>more0. Some (Inr (batches @ more0)))"
    proof (rule hand_out_collect)
      show "hash_join_next E out st = hand_out batches ?st'" unfolding exhausted_next [OF assms] using Some Inr x by simp
      show "hs_pending ?st' = []" using at by (simp add: stream_at_def)
      show "hash_join_collect E out ?st' = Some (Inr [])" if "batches \<noteq> []"
      proof -
        from emitted_batches [OF Some [unfolded Inr x] that] have "emitted" by blast
        then have "emit_unmatched_build_if_needed build tracker side jt (out_unmatched_build out build) template emitted = Some (Inr ([], emitted))"
          by (simp add: emit_unmatched_build_if_needed_def)
        then show ?thesis unfolding collect_next [of E out ?st'] exhausted_next [OF at] by (simp add: hand_out_def)
      qed
    qed simp
    then show ?thesis using Some Inr x by simp
  qed
qed

lemma collect_join_batches:
  fixes st :: "('row, 'b) hash_join_stream"
  assumes "stream_at build keys side jt inputs template tracker False st"
  shows "hash_join_collect E out st = join_batches E out build keys side jt inputs template tracker"
  using assms
proof (induction inputs arbitrary: st template tracker)
  case Nil
  then show ?case by (rule collect_exhausted)
next
  case (Cons item rest)
  note at = Cons.prems
  show ?case
  proof (cases item)
    case (Inl e)
    then show ?thesis unfolding collect_next [of E out st] next_at [OF at] by simp
  next
    case (Inr batch)
    define template1 where "template1 = (case template of None \<Rightarrow> Some batch | Some b \<Rightarrow> Some b)"
    define st1 where "st1 = (hs_set_probe_input rest st)\<lparr>hs_template := template1\<rparr>"
    have st1: "stream_at build keys side jt rest template1 tracker False st1"
      using at by (auto simp: stream_at_def st1_def prod_eq_iff)
    have step: "probe_until_output E out (item # rest) st =
        (if batch_rows batch = 0 then probe_until_output E out rest st1
         else outcome_bind (probe_hash_join_batches E (out_context out build batch) batch build keys side jt tracker None None) (\<lambda>probed.
              if ps_output probed = [] then probe_until_output E out rest (st1\<lparr>hs_matched_build := ps_tracker probed\<rparr>)
              else Some (Inr (Some (ps_output probed), st1\<lparr>hs_matched_build := ps_tracker probed\<rparr>))))"
      using at st1 unfolding Inr probe_until_output.simps stream_at_def st1_def template1_def Let_def by auto
    have skip: "hash_join_collect E out st = hash_join_collect E out st'"
      if "probe_until_output E out (item # rest) st = probe_until_output E out rest st'"
        "stream_at build keys side jt rest template1 tracker' False st'" for st' tracker'
      unfolding collect_next [of E out st] collect_next [of E out st'] next_at [OF at] next_at [OF that(2)] that(1) ..
    show ?thesis
    proof (cases "batch_rows batch = 0")
      case True
      then have "probe_until_output E out (item # rest) st = probe_until_output E out rest st1" unfolding step by simp
      from skip [OF this st1] Cons.IH [OF st1] show ?thesis using True Inr by (simp add: template1_def)
    next
      case rows: False
      show ?thesis
      proof (cases "probe_hash_join_batches E (out_context out build batch) batch build keys side jt tracker None None")
        case None
        with rows Inr show ?thesis unfolding collect_next [of E out st] next_at [OF at] step by simp
      next
        case (Some r)
        show ?thesis
        proof (cases r)
          case (Inl e)
          with rows Some Inr show ?thesis unfolding collect_next [of E out st] next_at [OF at] step by simp
        next
          case probed: (Inr probed)
          let ?st2 = "st1\<lparr>hs_matched_build := ps_tracker probed\<rparr>"
          have at2: "stream_at build keys side jt rest template1 (ps_tracker probed) False ?st2" using st1 by (simp add: stream_at_def)
          have "hash_join_collect E out st = outcome_bind (hash_join_collect E out ?st2) (\<lambda>more0. Some (Inr (ps_output probed @ more0)))"
          proof (cases "ps_output probed = []")
            case True
            then have "probe_until_output E out (item # rest) st = probe_until_output E out rest ?st2"
              unfolding step using rows Some probed by simp
            from skip [OF this at2] True show ?thesis by (simp add: outcome_bind_return)
          next
            case False
            then obtain b bs where out: "ps_output probed = b # bs" by (cases "ps_output probed") auto
            show ?thesis
            proof (rule hand_out_collect [OF _ _ refl])
              show "hash_join_next E out st = hand_out (ps_output probed) ?st2"
                unfolding next_at [OF at] step using rows Some probed out by simp
              show "hs_pending ?st2 = []" using at2 by (simp add: stream_at_def)
            qed (use False in simp)
          qed
          with Cons.IH [OF at2] rows Some probed Inr show ?thesis by (simp add: template1_def)
        qed
      qed
    qed
  qed
qed


subsection \<open>The build rows that are left over\<close>

lemma emit_chunks_cover:
  assumes mat: "\<And>c. chunk_ok c \<Longrightarrow> set c \<subseteq> R \<Longrightarrow> mat c = Some (Inr (g c))"
  shows "set (un @ refs) \<subseteq> R \<Longrightarrow> length un < join_output_chunk_rows \<Longrightarrow>
    \<exists>chunks. emit_chunks mat refs un out0 = Some (Inr (out0 @ map g chunks)) \<and> (\<forall>c \<in> set chunks. chunk_ok c) \<and> concat chunks = un @ refs"
proof (induction refs arbitrary: un out0)
  case Nil
  show ?case
  proof (cases "un = []")
    case False
    with Nil have "chunk_ok un" by (simp add: chunk_ok_def)
    with Nil mat [of un] False show ?thesis by (intro exI [of _ "[un]"]) simp
  qed (auto intro: exI [of _ "[]"])
next
  case (Cons r refs)
  show ?case
  proof (cases "length (un @ [r]) \<ge> join_output_chunk_rows")
    case True
    with Cons.prems have ok: "chunk_ok (un @ [r])" by (simp add: chunk_ok_def)
    from Cons.IH [of "[]" "out0 @ [g (un @ [r])]"] Cons.prems chunk_positive obtain chunks where
      "emit_chunks mat refs [] (out0 @ [g (un @ [r])]) = Some (Inr ((out0 @ [g (un @ [r])]) @ map g chunks))"
      "\<forall>c \<in> set chunks. chunk_ok c" "concat chunks = refs" by auto
    with True ok mat [OF ok] Cons.prems(1) show ?thesis by (intro exI [of _ "(un @ [r]) # chunks"]) (simp add: Let_def)
  next
    case False
    with Cons.IH [of "un @ [r]" out0] Cons.prems show ?thesis by (auto simp: Let_def)
  qed
qed

lemma dense_unmatched_slots:
  "dense_unmatched_refs d matched = List.map_filter (\<lambda>(i, slot). if slot_matched matched i then None else slot) (enumerate 0 (dense_slots d))"
proof (cases d)
  case (DenseComplete min0 rows)
  have "map snd (filter (\<lambda>(i, row). \<not> slot_matched matched i) (enumerate k rows)) =
      List.map_filter (\<lambda>(i, slot). if slot_matched matched i then None else slot) (enumerate k (map Some rows))" for k
    by (induction rows arbitrary: k) (auto simp: List.map_filter_simps)
  with DenseComplete show ?thesis by simp
qed simp

lemma set_map_filter_mem: "z \<in> set (List.map_filter f xs) \<longleftrightarrow> (\<exists>x \<in> set xs. f x = Some z)"
  by (force simp: List.map_filter_def)

lemma dense_unmatched_mem:
  "r \<in> set (dense_unmatched_refs d matched) \<longleftrightarrow> (\<exists>i < dense_len d. dense_slots d ! i = Some r \<and> \<not> slot_matched matched i)"
proof -
  have "r \<in> set (dense_unmatched_refs d matched) \<longleftrightarrow>
      (\<exists>p \<in> set (enumerate 0 (dense_slots d)). \<not> slot_matched matched (fst p) \<and> snd p = Some r)"
    unfolding dense_unmatched_slots set_map_filter_mem by (auto simp: case_prod_beta)
  also have "set (enumerate 0 (dense_slots d)) = (\<lambda>i. (i, dense_slots d ! i)) ` {..<dense_len d}"
    by (auto simp: in_set_enumerate_eq image_iff prod_eq_iff)
  finally show ?thesis by (simp add: Bex_def) blast
qed

lemma distinct_map_filter:
  assumes "distinct xs" "\<And>x y z. x \<in> set xs \<Longrightarrow> y \<in> set xs \<Longrightarrow> f x = Some z \<Longrightarrow> f y = Some z \<Longrightarrow> x = y"
  shows "distinct (List.map_filter f xs)"
  using assms
proof (induction xs)
  case (Cons x xs)
  have "z \<notin> set (List.map_filter f xs)" if z: "f x = Some z" for z
  proof
    assume "z \<in> set (List.map_filter f xs)"
    then obtain y where "y \<in> set xs" "f y = Some z" unfolding set_map_filter_mem by blast
    with Cons.prems(2) [of x y z] z Cons.prems(1) show False by auto
  qed
  moreover have "distinct (List.map_filter f xs)" by (rule Cons.IH) (use Cons.prems in auto)
  ultimately show ?case by (simp add: List.map_filter_simps split: option.splits)
qed (simp add: List.map_filter_simps)

lemma dense_unmatched_distinct:
  assumes "dense_unique_represents 32 d kvs" "distinct (map snd kvs)"
  shows "distinct (dense_unmatched_refs d matched)"
  unfolding dense_unmatched_slots
proof (rule distinct_map_filter)
  fix x y z assume "x \<in> set (enumerate 0 (dense_slots d))" "y \<in> set (enumerate 0 (dense_slots d))"
    "(case x of (i, slot) \<Rightarrow> if slot_matched matched i then None else slot) = Some z"
    "(case y of (i, slot) \<Rightarrow> if slot_matched matched i then None else slot) = Some z"
  with dense_unique_slots [OF assms, of "fst x" "fst y" z] show "x = y"
    by (auto simp: in_set_enumerate_eq prod_eq_iff case_prod_beta split: if_splits)
qed (rule distinct_enumerate)

lemma dense_slot_refs:
  assumes "dense_unique_represents 32 d kvs"
  shows "(\<exists>i < dense_len d. dense_slots d ! i = Some r) \<longleftrightarrow> r \<in> snd ` set kvs"
proof
  assume "\<exists>i < dense_len d. dense_slots d ! i = Some r"
  with assms obtain k where "unique_ref kvs k = Some r" by (auto simp: dense_unique_represents_def dense_holds_def)
  then have "group_refs kvs k = [r]" by (auto simp: unique_ref_def split: list.splits)
  then show "r \<in> snd ` set kvs" using set_group_refs [of r kvs k] by force
next
  assume "r \<in> snd ` set kvs"
  then obtain k where "(k, r) \<in> set kvs" by auto
  then have "r \<in> set (group_refs kvs k)" by (simp add: set_group_refs)
  moreover have "length (group_refs kvs k) \<le> 1" using assms by (simp add: dense_unique_represents_def unique_groups_def)
  ultimately have u: "unique_ref kvs k = Some r" by (cases "group_refs kvs k") (auto simp: unique_ref_def)
  with assms have "dense_min d \<le> k \<and> k < dense_min d + int (dense_len d)" unfolding dense_unique_represents_def dense_holds_def by blast
  moreover from this have "dense_slots d ! nat (k - dense_min d) = unique_ref kvs k"
    using assms by (auto simp: dense_unique_represents_def dense_holds_def)
  ultimately show "\<exists>i < dense_len d. dense_slots d ! i = Some r" using u by (intro exI [of _ "nat (k - dense_min d)"]) auto
qed

text \<open>The build rows that no probe row matched.  From the dense table of a single key they come in the order of the keys,
  and rows without a key are missing.\<close>

definition left_over ::
    "dense_i32_rows option \<Rightarrow> (cell option list \<times> build_row_ref) list \<Rightarrow> build_row_ref list \<Rightarrow> build_row_ref set \<Rightarrow> build_row_ref list \<Rightarrow> bool" where
  "left_over dense kvs all_rows S refs \<longleftrightarrow>
     (if dense = None then refs = filter (\<lambda>r. r \<notin> S) all_rows else distinct refs \<and> set refs = snd ` set kvs - S)"

lemma unmatched_build_refs_left_over:
  assumes knows: "tracker_knows (jb_i32_dense_unique_rows build) (Some tracker) S"
    and rep: "\<And>d. jb_i32_dense_unique_rows build = Some d \<Longrightarrow> dense_unique_represents 32 d (retype int_key kvs)"
    and distinct: "distinct (map snd kvs)"
  shows "left_over (jb_i32_dense_unique_rows build) kvs (jb_all_rows build) S (unmatched_build_refs build tracker)"
proof (cases "jb_i32_dense_unique_rows build")
  case None
  with knows have "tracker = TrackSet S" by (cases tracker) auto
  with None show ?thesis by (simp add: left_over_def unmatched_build_refs_def is_matched_def)
next
  case (Some d)
  with knows obtain min0 matched c where t: "tracker = TrackDenseI32 min0 matched c" "length matched = dense_len d"
    "\<And>i. i < dense_len d \<Longrightarrow> matched ! i \<longleftrightarrow> (\<exists>r \<in> S. dense_slots d ! i = Some r)" by (cases tracker) auto
  have refs: "unmatched_build_refs build tracker = dense_unmatched_refs d matched" using Some t by (simp add: unmatched_build_refs_def)
  have snds: "snd ` set (retype int_key kvs) = snd ` set kvs" by (metis distinct_retype set_map)
  have "r \<in> set (dense_unmatched_refs d matched) \<longleftrightarrow> (\<exists>i < dense_len d. dense_slots d ! i = Some r) \<and> r \<notin> S" for r
    unfolding dense_unmatched_mem using t(2,3) by (auto simp: slot_matched_def vec_get_def)
  then have "set (dense_unmatched_refs d matched) = snd ` set kvs - S"
    unfolding dense_slot_refs [OF rep [OF Some]] snds by auto
  moreover have "distinct (dense_unmatched_refs d matched)"
    by (rule dense_unmatched_distinct [OF rep [OF Some]]) (use distinct in \<open>simp add: distinct_retype\<close>)
  ultimately show ?thesis using Some refs by (simp add: left_over_def)
qed

lemma all_dense_matched_left_over:
  assumes "tracker_knows (jb_i32_dense_unique_rows build) (Some tracker) S" "all_dense_i32_matched tracker"
  shows "unmatched_build_refs build tracker = []"
proof -
  from assms obtain d min0 matched where t: "jb_i32_dense_unique_rows build = Some d" "tracker = TrackDenseI32 min0 matched (length matched)"
    "length (filter id matched) = length matched" "length matched = dense_len d"
    by (cases tracker; cases "jb_i32_dense_unique_rows build") (auto simp: all_dense_i32_matched_def)
  then have "\<forall>b \<in> set matched. b" by (metis filter_id_conv id_apply length_filter_less less_irrefl)
  then have "slot_matched matched i" if "i < dense_len d" for i using that t(4) by (auto simp: slot_matched_def vec_get_def)
  then have "r \<notin> set (dense_unmatched_refs d matched)" for r unfolding dense_unmatched_mem by blast
  then have "set (dense_unmatched_refs d matched) = {}" by (intro equals0I) simp
  with t(1,2) show ?thesis by (simp add: unmatched_build_refs_def)
qed


subsection \<open>What the stream yields\<close>

text \<open>Materialization that succeeds on the pieces a probe can ask for.\<close>

definition output_ok ::
    "'row hash_join_build \<Rightarrow> build_row_ref set \<Rightarrow> join_build_side \<Rightarrow> record_batch set \<Rightarrow> (record_batch \<Rightarrow> join_piece \<Rightarrow> 'b) \<Rightarrow>
     ('row, 'b) join_output \<Rightarrow> bool" where
  "output_ok build R side probes f out \<longleftrightarrow>
     (\<forall>probe \<in> probes. (\<exists>ctx. out_context out build probe = Some (Inr ctx) \<and> context_ok (batch_rows probe) R side (f probe) ctx) \<and>
        (\<forall>refs. chunk_ok refs \<longrightarrow> set refs \<subseteq> R \<longrightarrow>
           out_unmatched_build out build probe refs = Some (Inr (f probe (PieceUnmatchedBuild refs)))))"

definition batch_joined ::
    "string list \<Rightarrow> (cell option list \<times> build_row_ref) list \<Rightarrow> build_row_ref set \<Rightarrow> (record_batch \<Rightarrow> join_piece \<Rightarrow> 'b) \<Rightarrow>
     join_type \<Rightarrow> join_build_side \<Rightarrow> record_batch \<Rightarrow> 'b list \<Rightarrow> bool" where
  "batch_joined keys kvs R f jt side probe batches \<longleftrightarrow>
     (let matches = probe_matches keys probe kvs; rows = [0..<batch_rows probe]
      in pieces_cover (batch_rows probe) R (f probe) batches (join_pairs jt matches rows) (join_semi_rows jt matches rows)
           (join_unmatched_rows jt side matches rows))"

definition all_matched :: "string list \<Rightarrow> (cell option list \<times> build_row_ref) list \<Rightarrow> record_batch list \<Rightarrow> build_row_ref set" where
  "all_matched keys kvs probes = (\<Union>probe \<in> set probes. matched_refs (probe_matches keys probe kvs) [0..<batch_rows probe])"

definition left_over_emitted ::
    "join_type \<Rightarrow> join_build_side \<Rightarrow> dense_i32_rows option \<Rightarrow> (cell option list \<times> build_row_ref) list \<Rightarrow> build_row_ref list \<Rightarrow>
     build_row_ref set \<Rightarrow> (record_batch \<Rightarrow> join_piece \<Rightarrow> 'b) \<Rightarrow> record_batch option \<Rightarrow> 'b list \<Rightarrow> bool" where
  "left_over_emitted jt side dense kvs all_rows S f template batches \<longleftrightarrow>
     (if should_emit_unmatched_build jt side
      then (case template of
              None \<Rightarrow> batches = []
            | Some probe \<Rightarrow> (\<exists>chunks. batches = map (\<lambda>refs. f probe (PieceUnmatchedBuild refs)) chunks \<and> (\<forall>c \<in> set chunks. chunk_ok c) \<and>
                left_over dense kvs all_rows S (concat chunks)))
      else batches = [])"

lemma left_over_refs: "left_over dense kvs all_rows S refs \<Longrightarrow> snd ` set kvs \<subseteq> R \<Longrightarrow> set all_rows \<subseteq> R \<Longrightarrow> set refs \<subseteq> R"
  by (auto simp: left_over_def split: if_splits)

lemma emit_left_over:
  assumes knows: "tracker_knows (jb_i32_dense_unique_rows build) tracker S" and tracked: "tracker \<noteq> None \<longleftrightarrow> should_emit_unmatched_build jt side"
    and rep: "\<And>d. jb_i32_dense_unique_rows build = Some d \<Longrightarrow> dense_unique_represents 32 d (retype int_key kvs)" and distinct: "distinct (map snd kvs)"
    and refs: "snd ` set kvs \<subseteq> R" "set (jb_all_rows build) \<subseteq> R"
    and out: "\<And>probe c. template = Some probe \<Longrightarrow> chunk_ok c \<Longrightarrow> set c \<subseteq> R \<Longrightarrow>
      out_unmatched_build out build probe c = Some (Inr (f probe (PieceUnmatchedBuild c)))"
  shows "\<exists>batches. outcome_bind (emit_unmatched_build_if_needed build tracker side jt (out_unmatched_build out build) template False)
       (\<lambda>(batches, emitted). Some (Inr batches)) = Some (Inr batches) \<and>
     left_over_emitted jt side (jb_i32_dense_unique_rows build) kvs (jb_all_rows build) S f template batches"
proof (cases "should_emit_unmatched_build jt side")
  case False
  then show ?thesis by (simp add: emit_unmatched_build_if_needed_def left_over_emitted_def)
next
  case emits: True
  with tracked obtain t where t: "tracker = Some t" by auto
  show ?thesis
  proof (cases template)
    case None
    with emits show ?thesis by (simp add: emit_unmatched_build_if_needed_def left_over_emitted_def)
  next
    case (Some probe)
    note left = unmatched_build_refs_left_over [OF knows [unfolded t] rep distinct]
    show ?thesis
    proof (cases "all_dense_i32_matched t")
      case True
      with left all_dense_matched_left_over [OF knows [unfolded t]] have
        "left_over (jb_i32_dense_unique_rows build) kvs (jb_all_rows build) S []" by simp
      with emits Some t True show ?thesis
        by (auto simp: emit_unmatched_build_if_needed_def left_over_emitted_def intro!: exI [of _ "[]"])
    next
      case False
      have "set ([] @ unmatched_build_refs build t) \<subseteq> R" using left_over_refs [OF left refs] by simp
      moreover have "length ([] :: build_row_ref list) < join_output_chunk_rows" using chunk_positive by simp
      ultimately obtain chunks where
        "emit_chunks (out_unmatched_build out build probe) (unmatched_build_refs build t) [] [] =
          Some (Inr ([] @ map (\<lambda>refs. f probe (PieceUnmatchedBuild refs)) chunks))"
        "\<forall>c \<in> set chunks. chunk_ok c" "concat chunks = [] @ unmatched_build_refs build t"
        using emit_chunks_cover [of R "out_unmatched_build out build probe" "\<lambda>refs. f probe (PieceUnmatchedBuild refs)" "[]"
          "unmatched_build_refs build t" "[]"] out [OF Some] by blast
      with emits Some t False left show ?thesis by (auto simp: emit_unmatched_build_if_needed_def left_over_emitted_def)
    qed
  qed
qed

lemma batch_joined_empty: "batch_rows probe = 0 \<Longrightarrow> batch_joined keys kvs R f jt side probe []"
  by (auto simp: batch_joined_def pieces_cover_def join_pairs_def join_semi_rows_def join_unmatched_rows_def intro!: exI [of _ "[]"])

lemma join_batches_correct:
  fixes out :: "('row, 'b) join_output"
  assumes rep: "build_rep E img mode types kvs build" and complete: "build_complete E img mode types kvs build" and types: "jb_key_types build = types"
    and engine: "row_format_ok E img" and semi: "jt = JoinSemi \<Longrightarrow> side = BuildRight \<and> int_lists_only build" and distinct: "distinct (map snd kvs)"
    and mode: "generic_build mode types \<or> mode = BuildFastSingleKey \<or> mode = BuildFastSemi \<and> jt = JoinSemi"
    and refs: "snd ` set kvs \<subseteq> R" "set (jb_all_rows build) \<subseteq> R"
  shows "(\<forall>probe \<in> set probes. probe_ready types keys probe kvs R) \<Longrightarrow> output_ok build R side (set probes \<union> set_option template) f out \<Longrightarrow>
    tracker_knows (jb_i32_dense_unique_rows build) tracker S \<Longrightarrow> (tracker \<noteq> None \<longleftrightarrow> should_emit_unmatched_build jt side) \<Longrightarrow>
    \<exists>outs batches. join_batches E out build keys side jt (map Inr probes) template tracker = Some (Inr (concat outs @ batches)) \<and>
      list_all2 (batch_joined keys kvs R f jt side) probes outs \<and>
      left_over_emitted jt side (jb_i32_dense_unique_rows build) kvs (jb_all_rows build) (S \<union> all_matched keys kvs probes) f
        (case template of None \<Rightarrow> (case probes of [] \<Rightarrow> None | probe # _ \<Rightarrow> Some probe) | Some probe \<Rightarrow> Some probe) batches"
proof (induction probes arbitrary: template tracker S)
  case Nil
  have "dense_unique_represents 32 d (retype int_key kvs)" if "jb_i32_dense_unique_rows build = Some d" for d
    using build_repD(1) [OF rep that] by blast
  from emit_left_over [OF Nil.prems(3,4) this distinct refs, of template out f] Nil.prems(2) obtain batches where
    "outcome_bind (emit_unmatched_build_if_needed build tracker side jt (out_unmatched_build out build) template False)
       (\<lambda>(batches, emitted). Some (Inr batches)) = Some (Inr batches)"
    "left_over_emitted jt side (jb_i32_dense_unique_rows build) kvs (jb_all_rows build) S f template batches"
    by (auto simp: output_ok_def)
  then show ?case by (intro exI [of _ "[]"] exI [of _ batches]) (cases template, auto simp: all_matched_def)
next
  case (Cons probe probes)
  define template1 where "template1 = (case template of None \<Rightarrow> Some probe | Some b \<Rightarrow> Some b)"
  have out1: "output_ok build R side (set probes \<union> set_option template1) f out"
    using Cons.prems(2) by (cases template) (auto simp: output_ok_def template1_def)
  have case1: "(case template of None \<Rightarrow> (case probe # probes of [] \<Rightarrow> None | p # _ \<Rightarrow> Some p) | Some p \<Rightarrow> Some p) = template1"
    "(case template1 of None \<Rightarrow> (case probes of [] \<Rightarrow> None | p # _ \<Rightarrow> Some p) | Some p \<Rightarrow> Some p) = template1"
    by (auto simp: template1_def split: option.splits)
  have rest: "\<forall>probe \<in> set probes. probe_ready types keys probe kvs R" using Cons.prems(1) by simp
  show ?case
  proof (cases "batch_rows probe = 0")
    case True
    have "all_matched keys kvs (probe # probes) = all_matched keys kvs probes" using True by (simp add: all_matched_def matched_refs_def)
    with Cons.IH [OF rest out1 Cons.prems(3,4)] batch_joined_empty [OF True] True show ?thesis
      unfolding case1 by (fastforce simp: Let_def template1_def [symmetric] intro: exI [of _ "[] # _"])
  next
    case False
    from Cons.prems(2) obtain ctx where ctx: "out_context out build probe = Some (Inr ctx)" "context_ok (batch_rows probe) R side (f probe) ctx"
      by (auto simp: output_ok_def)
    have "probe_ready types keys probe kvs R" using Cons.prems(1) by simp
    have semi': "side = BuildRight \<and> int_lists_only build \<and> tracker = None" if "jt = JoinSemi"
      using semi [OF that] that Cons.prems(4) by (auto simp: should_emit_unmatched_build_def)
    from probe_hash_join_batches_probed [OF rep complete types engine \<open>probe_ready types keys probe kvs R\<close> ctx(2) semi' distinct Cons.prems(3) mode]
    obtain st :: "('row, 'b) probe_state" where
      st: "probe_hash_join_batches E (out_context out build probe) probe build keys side jt tracker None None = Some (Inr st)"
      "batch_joined keys kvs R f jt side probe (ps_output st)"
      "tracker_knows (jb_i32_dense_unique_rows build) (ps_tracker st) (S \<union> matched_refs (probe_matches keys probe kvs) [0..<batch_rows probe])"
      "ps_tracker st \<noteq> None \<longleftrightarrow> should_emit_unmatched_build jt side"
      unfolding probed_def ctx(1) batch_joined_def Let_def Cons.prems(4) by blast
    from Cons.IH [OF rest out1 st(3,4)] obtain outs batches where
      "join_batches E out build keys side jt (map Inr probes) template1 (ps_tracker st) = Some (Inr (concat outs @ batches))"
      "list_all2 (batch_joined keys kvs R f jt side) probes outs"
      "left_over_emitted jt side (jb_i32_dense_unique_rows build) kvs (jb_all_rows build)
        (S \<union> matched_refs (probe_matches keys probe kvs) [0..<batch_rows probe] \<union> all_matched keys kvs probes) f template1 batches"
      unfolding case1 by blast
    moreover have "S \<union> matched_refs (probe_matches keys probe kvs) [0..<batch_rows probe] \<union> all_matched keys kvs probes =
        S \<union> all_matched keys kvs (probe # probes)" by (auto simp: all_matched_def)
    ultimately show ?thesis unfolding case1 using False st(1,2)
      by (intro exI [of _ "ps_output st # outs"] exI [of _ batches]) (simp add: Let_def template1_def [symmetric])
  qed
qed


text \<open>The stream as a whole.  The rows of the build side are numbered by the batches that have rows; \<open>kept_build_rows\<close> are
  the ones that found no match.\<close>

definition non_empty_batches :: "record_batch list \<Rightarrow> record_batch list" where
  "non_empty_batches batches = filter (\<lambda>b. batch_rows b > 0) batches"

definition kept_build_rows ::
    "data_type list \<Rightarrow> (cell option list \<times> build_row_ref) list \<Rightarrow> build_row_ref list \<Rightarrow> build_row_ref set \<Rightarrow> build_row_ref list \<Rightarrow> bool" where
  "kept_build_rows types kvs all_rows S refs \<longleftrightarrow> distinct refs \<and> set refs \<subseteq> set all_rows - S \<and> snd ` set kvs - S \<subseteq> set refs \<and>
     (types \<noteq> [Int32] \<longrightarrow> refs = filter (\<lambda>r. r \<notin> S) all_rows)"

definition build_rows_emitted ::
    "join_type \<Rightarrow> join_build_side \<Rightarrow> data_type list \<Rightarrow> (cell option list \<times> build_row_ref) list \<Rightarrow> build_row_ref list \<Rightarrow>
     build_row_ref set \<Rightarrow> (record_batch \<Rightarrow> join_piece \<Rightarrow> 'b) \<Rightarrow> record_batch list \<Rightarrow> 'b list \<Rightarrow> bool" where
  "build_rows_emitted jt side types kvs all_rows S f probes batches \<longleftrightarrow>
     (if should_emit_unmatched_build jt side \<and> probes \<noteq> []
      then \<exists>chunks. batches = map (\<lambda>refs. f (hd probes) (PieceUnmatchedBuild refs)) chunks \<and> (\<forall>c \<in> set chunks. chunk_ok c) \<and>
        kept_build_rows types kvs all_rows S (concat chunks)
      else batches = [])"

lemma collect_non_empty: "collect_non_empty_batches (map Inr batches) = Some (Inr (non_empty_batches batches))"
  by (induction batches) (simp_all add: non_empty_batches_def)

lemma distinct_all_refs: "distinct (all_refs batches)"
  unfolding all_refs_def by (rule distinct_concat_tagged [where tag = ref_batch]) (auto simp: batch_refs_def distinct_map inj_on_def)

lemma left_over_kept:
  assumes "left_over dense kvs all_rows S refs" "dense \<noteq> None \<Longrightarrow> types = [Int32]" "snd ` set kvs \<subseteq> set all_rows" "distinct all_rows"
  shows "kept_build_rows types kvs all_rows S refs"
  using assms by (cases "dense = None") (auto simp: left_over_def kept_build_rows_def)

lemma left_over_emitted_rows:
  assumes "left_over_emitted jt side dense kvs all_rows S f (case probes of [] \<Rightarrow> None | p # _ \<Rightarrow> Some p) batches"
    and "dense \<noteq> None \<Longrightarrow> types = [Int32]" "snd ` set kvs \<subseteq> set all_rows" "distinct all_rows"
  shows "build_rows_emitted jt side types kvs all_rows S f probes batches"
  using assms(1) left_over_kept [where S = S and dense = dense, OF _ assms(2-4)]
  by (cases probes) (auto simp: left_over_emitted_def build_rows_emitted_def split: if_splits)

lemma all_rows_irrelevant:
  "\<not> should_emit_unmatched_build jt side \<Longrightarrow> left_over_emitted jt side dense kvs rows S f t bs \<longleftrightarrow> bs = []"
  by (simp add: left_over_emitted_def)

definition side_inputs :: "join_build_side \<Rightarrow> 'a \<Rightarrow> 'a \<Rightarrow> 'a \<times> 'a" where
  "side_inputs side build probe = (if side = BuildLeft then (build, probe) else (probe, build))"

definition stream_over ::
    "join_build_side \<Rightarrow> join_type \<Rightarrow> batch_stream \<Rightarrow> string list \<Rightarrow> batch_stream \<Rightarrow> string list \<Rightarrow> ('row, 'b) hash_join_stream" where
  "stream_over side jt build_input build_keys probe_input probe_keys =
     (case (side_inputs side build_input probe_input, side_inputs side build_keys probe_keys) of
        ((left, right), (left_keys, right_keys)) \<Rightarrow> hash_join_stream_new left right left_keys right_keys side jt)"

lemma stream_over_sel:
  "hs_build_input (stream_over side jt bi bk pi pk) = (bi, bk)" "hs_probe_input (stream_over side jt bi bk pi pk) = (pi, pk)"
  "hs_built (stream_over side jt bi bk pi pk) = False" "hs_pending (stream_over side jt bi bk pi pk) = []"
  "hs_build_side (stream_over side jt bi bk pi pk) = side" "hs_join_type (stream_over side jt bi bk pi pk) = jt"
  "hs_template (stream_over side jt bi bk pi pk) = None" "hs_emitted (stream_over side jt bi bk pi pk) = False"
  "hs_build (stream_over side jt bi bk pi pk) = None"
  by (simp_all add: stream_over_def side_inputs_def hash_join_stream_new_def hs_build_input_def hs_probe_input_def)

text \<open>With rows on the build side the stream is the batch-by-batch join over the build it makes.\<close>

lemma collect_started:
  fixes out :: "('row, 'b) join_output"
  assumes batches: "non_empty_batches builds \<noteq> []"
    and build: "build_hash_join_input E (non_empty_batches builds) build_keys (hash_build_mode_for jt) (should_emit_unmatched_build jt side) = Some (Inr build)"
  shows "hash_join_collect E out (stream_over side jt (map Inr builds) build_keys input probe_keys) =
    join_batches E out build probe_keys side jt input None (if should_track_matched_build jt side then Some (tracker_for_build build) else None)"
proof -
  let ?t = "if should_track_matched_build jt side then Some (tracker_for_build build) else None"
  define st :: "('row, 'b) hash_join_stream" where "st = stream_over side jt (map Inr builds) build_keys input probe_keys"
  define st1 where "st1 = (hs_drop_build_input (st\<lparr>hs_built := True\<rparr>))\<lparr>hs_build := Some build, hs_matched_build := ?t\<rparr>"
  have at: "stream_at build probe_keys side jt input None ?t False st1"
    by (simp add: st1_def st_def stream_at_def stream_over_sel)
  have start: "hash_join_start E st = Some (Inr (True, st1))"
    using batches build by (simp add: hash_join_start_def st_def stream_over_sel collect_non_empty st1_def Let_def)
  have start1: "hash_join_start E st1 = Some (Inr (True, st1))" using at by (simp add: stream_at_def hash_join_start_def)
  have "hash_join_next E out st = hash_join_next E out st1"
    unfolding hash_join_next_def start start1 using at by (simp add: st_def stream_over_sel stream_at_def)
  then have "hash_join_collect E out st = hash_join_collect E out st1" unfolding collect_next [of E out st] collect_next [of E out st1] by simp
  with collect_join_batches [OF at] show ?thesis by (simp add: st_def)
qed

lemma tracker_for_build_knows: "tracker_knows (jb_i32_dense_unique_rows build) (Some (tracker_for_build build)) {}"
  by (cases "jb_i32_dense_unique_rows build") (auto simp: tracker_for_build_def filter_empty_conv)

lemma hash_join_stream_joins:
  fixes E :: "'row join_engine" and out :: "('row, 'b) join_output"
  defines "kvs keys builds \<equiv> keyed_rows keys (non_empty_batches builds)" and "refs builds \<equiv> all_refs (non_empty_batches builds)"
  assumes engine: "row_format_ok E img" and builds: "join_side_ok build_keys types (non_empty_batches builds)" "non_empty_batches builds \<noteq> []"
    and total: "total_build_rows (non_empty_batches builds) < 2 ^ 29" and probes: "join_side_ok probe_keys types probes"
    and semi: "jt = JoinSemi \<Longrightarrow> side = BuildRight"
    and out: "\<And>build. jb_batches build = non_empty_batches builds \<Longrightarrow> output_ok build (set (refs builds)) side (set probes) f out"
  shows "\<exists>outs batches. hash_join_collect E out (stream_over side jt (map Inr builds) build_keys (map Inr probes) probe_keys) =
       Some (Inr (concat outs @ batches)) \<and>
     list_all2 (batch_joined probe_keys (kvs build_keys builds) (set (refs builds)) f jt side) probes outs \<and>
     build_rows_emitted jt side types (kvs build_keys builds) (refs builds) (all_matched probe_keys (kvs build_keys builds) probes) f probes batches"
proof -
  let ?kvs = "kvs build_keys builds" and ?R = "set (refs builds)" and ?mode = "hash_build_mode_for jt"
  let ?emit = "should_emit_unmatched_build jt side"
  have "\<not> (?emit \<and> ?mode = BuildFastSemi)" by (auto simp: hash_build_mode_for_def should_emit_unmatched_build_def split: if_splits)
  from build_hash_join_input_rep [OF engine builds total this] obtain build where
    build: "build_hash_join_input E (non_empty_batches builds) build_keys ?mode ?emit = Some (Inr build)" "jb_batches build = non_empty_batches builds"
    "jb_key_types build = types" "jb_all_rows build = (if ?emit then refs builds else [])"
    "build_rep E img ?mode types ?kvs build" "build_complete E img ?mode types ?kvs build" unfolding kvs_def refs_def by blast
  have kvs_refs: "snd ` set ?kvs \<subseteq> ?R" unfolding kvs_def refs_def by (rule keyed_rows_refs)
  have distinct: "distinct (map snd ?kvs)" unfolding kvs_def by (rule distinct_keyed_rows)
  have ready: "\<forall>probe \<in> set probes. probe_ready types probe_keys probe ?kvs ?R"
    using probes kvs_refs keyed_rows_typed [OF builds(1)] by (auto simp: probe_ready_def join_side_ok_def kvs_def)
  have semi': "side = BuildRight \<and> int_lists_only build" if "jt = JoinSemi"
    using semi [OF that] build_lists [OF build(1)] that by (simp add: hash_build_mode_for_def int_lists_only_def)
  have mode: "generic_build ?mode types \<or> ?mode = BuildFastSingleKey \<or> ?mode = BuildFastSemi \<and> jt = JoinSemi"
    by (simp add: hash_build_mode_for_def)
  have rows: "set (jb_all_rows build) \<subseteq> ?R" using build(4) by auto
  have out': "output_ok build ?R side (set probes \<union> set_option None) f out" using out [OF build(2)] by simp
  let ?t = "if should_track_matched_build jt side then Some (tracker_for_build build) else None"
  have knows: "tracker_knows (jb_i32_dense_unique_rows build) ?t {}" using tracker_for_build_knows [of build] by simp
  have tracked: "?t \<noteq> None \<longleftrightarrow> ?emit" by (simp add: should_track_matched_build_def)
  from join_batches_correct [OF build(5,6,3) engine semi' distinct mode kvs_refs rows ready out' knows tracked] obtain outs batches where
    join: "join_batches E out build probe_keys side jt (map Inr probes) None ?t = Some (Inr (concat outs @ batches))"
    "list_all2 (batch_joined probe_keys ?kvs ?R f jt side) probes outs"
    "left_over_emitted jt side (jb_i32_dense_unique_rows build) ?kvs (jb_all_rows build) (all_matched probe_keys ?kvs probes) f
      (case probes of [] \<Rightarrow> None | p # _ \<Rightarrow> Some p) batches" by auto
  have "build_rows_emitted jt side types ?kvs (refs builds) (all_matched probe_keys ?kvs probes) f probes batches"
  proof (cases ?emit)
    case True
    with join(3) build(4) have "left_over_emitted jt side (jb_i32_dense_unique_rows build) ?kvs (refs builds) (all_matched probe_keys ?kvs probes) f
      (case probes of [] \<Rightarrow> None | p # _ \<Rightarrow> Some p) batches" by simp
    then show ?thesis
      by (rule left_over_emitted_rows) (use build_repD(1) [OF build(5)] kvs_refs distinct_all_refs in \<open>auto simp: refs_def\<close>)
  qed (use join(3) in \<open>simp add: all_rows_irrelevant build_rows_emitted_def\<close>)
  with join collect_started [OF builds(2) build(1)] show ?thesis by metis
qed

end
