(* ===== verification/Hash_Join.thy ===== *)
theory Hash_Join
  imports Join_Stream
begin

text \<open>
  The properties of the in-memory hash join of \<open>execution/physical.rs\<close>: its dense tables, its Bloom filter, its build side,
  and the stream as a whole.  The concrete engine and batches below serve the witnesses.
\<close>

subsection \<open>A concrete engine\<close>

text \<open>A row format that keeps the types and the cells, with a hash that mixes the salt with the first cell.\<close>

definition cell_hash :: "cell option list \<Rightarrow> u64" where
  "cell_hash cells = (case cells of Some (CellInt i) # _ \<Rightarrow> word_of_int i | _ \<Rightarrow> 7)"

definition cells_engine :: "(data_type list \<times> cell option list) join_engine" where
  "cells_engine =
     \<lparr>convert_rows = (\<lambda>arrays. Inr (map (\<lambda>row. (map array_type arrays, key_cells arrays row)) [0..<(case arrays of [] \<Rightarrow> 0 | a # _ \<Rightarrow> array_len a)])),
      hash_row_with_salt = (\<lambda>row salt. cell_hash (snd row) * salt + salt),
      show_types = (\<lambda>types. '''')\<rparr>"

lemma cells_engine_ok: "row_format_ok cells_engine Pair"
  unfolding row_format_ok_def
proof (intro conjI allI impI)
  fix arrays :: "array list" and n assume "arrays \<noteq> []" "batch_ok_columns n arrays"
  then have "(case arrays of [] \<Rightarrow> 0 | a # _ \<Rightarrow> array_len a) = n" by (cases arrays) (auto simp: batch_ok_columns_def)
  then show "convert_rows cells_engine arrays = Inr (map (\<lambda>row. (map array_type arrays, key_cells arrays row)) [0..<n])"
    by (simp add: cells_engine_def)
qed (simp add: inj_def)

definition key_batch :: "data_type \<Rightarrow> cell option list \<Rightarrow> record_batch" where
  "key_batch t cells = \<lparr>field_names = [''k''], batch_columns = [PlainArray t cells], batch_rows = length cells\<rparr>"

lemma key_batch_rows [simp]: "batch_rows (key_batch t cells) = length cells"
  by (simp add: key_batch_def)

lemma same_column_k: "physical_same_column ''k'' ''k''"
  by (subst physical_same_column.simps) simp

lemma key_batch_column: "batch_column (key_batch t cells) ''k'' = Some (Inr (PlainArray t cells))"
  by (simp add: batch_column_def key_batch_def column_index_def same_column_k vec_get_def)

lemma key_batch_arrays_k: "key_arrays (key_batch t cells) [''k''] = Some (Inr [PlainArray t cells])"
  by (simp add: key_arrays_def key_batch_column)

lemma key_batch_side_ok:
  assumes "list_all (pred_option (cell_typed t)) cells" "length cells \<le> 2 ^ 32"
  shows "key_batch_ok [''k''] [t] (key_batch t cells)"
  using assms by (simp add: key_batch_ok_def key_batch_arrays_k) (simp add: batch_ok_def key_batch_def)

definition piece_output :: "join_build_side \<Rightarrow> ('row, record_batch \<times> join_piece) join_output" where
  "piece_output side =
     \<lparr>out_context = (\<lambda>build probe. Some (Inr \<lparr>ctx_build_side = side, ctx_materialize = (\<lambda>piece. Some (Inr (probe, piece)))\<rparr>)),
      out_unmatched_build = (\<lambda>build probe refs. Some (Inr (probe, PieceUnmatchedBuild refs)))\<rparr>"

lemma piece_output_ok: "output_ok build R side probes Pair (piece_output side)"
  by (simp add: output_ok_def piece_output_def context_ok_def)

definition left_keys_batch :: record_batch where
  "left_keys_batch = key_batch Int32 [Some (CellInt 1), None, Some (CellInt 3)]"

definition right_keys_batch :: record_batch where
  "right_keys_batch = key_batch Int32 [Some (CellInt 3), Some (CellInt 5)]"

lemma demo_sides_ok:
  "key_batch_ok [''k''] [Int32] left_keys_batch" "key_batch_ok [''k''] [Int32] right_keys_batch"
  "batch_rows left_keys_batch = 3" "batch_rows right_keys_batch = 2"
  by (simp_all add: left_keys_batch_def right_keys_batch_def key_batch_side_ok)

subsection \<open>Dense tables\<close>

text \<open>C13: the dense tables over \<open>Int32\<close> keys, over \<open>Int64\<close> keys and over pairs of \<open>Int32\<close> keys answer every key, also one that is
  far outside the table, exactly like the hash map they were made of.\<close>

theorem dense_tables_agree_with_maps:
  assumes singles: "distinct (map fst singles)" and multis: "distinct (map fst multis)" and pairs: "distinct (map fst pairs)"
  shows "(dense_i32_build_rows singles n = Some (Some d) \<longrightarrow> dense_i32_get d k = map_of singles k) \<and>
     (dense_i64_build_rows singles n = Some (Some d) \<longrightarrow> dense_i64_get d k = map_of singles k) \<and>
     (dense_i32_multi_build_rows multis n = Some (Some e) \<longrightarrow> dense_i32_multi_get e k = map_of multis k) \<and>
     (dense_i32_pair_build_rows pairs n = Some (Some p) \<longrightarrow> dense_i32_pair_get p l r = map_of pairs (l, r))"
proof (intro conjI impI)
  show "dense_i32_get d k = map_of singles k" if "dense_i32_build_rows singles n = Some (Some d)"
    using dense_i32_table_correct [OF singles that [unfolded dense_i32_build_rows_def]] by (simp add: dense_get_eqs dense_get_i32)
  show "dense_i64_get d k = map_of singles k" if "dense_i64_build_rows singles n = Some (Some d)"
    using dense_i64_build_rows_correct [OF singles that] by (simp add: dense_get_eqs dense_get_i64)
  show "dense_i32_multi_get e k = map_of multis k" if "dense_i32_multi_build_rows multis n = Some (Some e)"
    using dense_i32_table_correct [OF multis that [unfolded dense_i32_multi_build_rows_def]] by (simp add: dense_get_eqs dense_get_i32)
  show "dense_i32_pair_get p l r = map_of pairs (l, r)" if "dense_i32_pair_build_rows pairs n = Some (Some p)"
    by (rule dense_i32_pair_build_rows_correct [OF pairs that])
qed

lemma update_Cons_numeral: "(x # xs)[numeral v := y] = x # xs[pred_numeral v := y]"
  by (simp add: numeral_eq_Suc)

lemma replicate_numeral_Cons: "replicate (numeral v) x = x # replicate (pred_numeral v) x"
  by (simp add: numeral_eq_Suc)

definition demo_ref :: "nat \<Rightarrow> build_row_ref" where
  "demo_ref row = \<lparr>ref_batch = 0, ref_row = row\<rparr>"

theorem dense_tables_agree_with_maps_witness:
  "dense_i32_get (DenseSparse 3 [Some (demo_ref 0), None, Some (demo_ref 1)]) 5 = Some (demo_ref 1) \<and>
   dense_i64_get (DenseSparse 3 [Some (demo_ref 0), None, Some (demo_ref 1)]) 5 = Some (demo_ref 1) \<and>
   dense_i32_multi_get (DenseComplete 5 [[demo_ref 0, demo_ref 1]]) 5 = Some [demo_ref 0, demo_ref 1] \<and>
   dense_i32_pair_get (PairComplete 1 7 1 [demo_ref 2]) 1 7 = Some (demo_ref 2)"
proof -
  let ?singles = "[(3, demo_ref 0), (5, demo_ref 1)] :: (int, build_row_ref) hash_map"
  let ?multis = "[(5, [demo_ref 0, demo_ref 1])] :: (int, build_row_ref list) hash_map"
  let ?pairs = "[((1, 7), demo_ref 2)] :: (int \<times> int, build_row_ref) hash_map"
  have tables: "dense_i32_build_rows ?singles 2 = Some (Some (DenseSparse 3 [Some (demo_ref 0), None, Some (demo_ref 1)]))"
    "dense_i64_build_rows ?singles 2 = Some (Some (DenseSparse 3 [Some (demo_ref 0), None, Some (demo_ref 1)]))"
    "dense_i32_multi_build_rows ?multis 2 = Some (Some (DenseComplete 5 [[demo_ref 0, demo_ref 1]]))"
    "dense_i32_pair_build_rows ?pairs 2 = Some (Some (PairComplete 1 7 1 [demo_ref 2]))"
    by (simp_all add: dense_i32_build_rows_def dense_i32_multi_build_rows_def dense_i32_table_def dense_i64_build_rows_def dense_i32_pair_build_rows_def
        list_min_def list_max_def Let_def dense_width_limit_def u64_sat_def i32_offset_def i64_offset_def i32_checked_def is_i32_def i64_checked_def
        is_i64_def usize_try_from_def usize_checked_def as_usize_def finish_dense_def finish_dense_pair_def dense_i32_pair_index_def update_Cons_numeral replicate_numeral_Cons)
  show ?thesis
    using dense_tables_agree_with_maps [of ?singles ?multis ?pairs 2 "DenseSparse 3 [Some (demo_ref 0), None, Some (demo_ref 1)]" 5
        "DenseComplete 5 [[demo_ref 0, demo_ref 1]]" "PairComplete 1 7 1 [demo_ref 2]" 1 7] tables by simp
qed

subsection \<open>The Bloom filter\<close>

fun bloom_insert_all :: "'row join_engine \<Rightarrow> 'row list \<Rightarrow> bloom_filter \<Rightarrow> bloom_filter option" where
  "bloom_insert_all E [] b = Some b"
| "bloom_insert_all E (row # rows) b = Option.bind (bloom_insert E row b) (bloom_insert_all E rows)"

lemma bloom_insert_all_covers: "bloom_covers E b S \<Longrightarrow> \<exists>b'. bloom_insert_all E rows b = Some b' \<and> bloom_covers E b' (S \<union> set rows)"
proof (induction rows arbitrary: b S)
  case (Cons row rows)
  from bloom_insert_covers [OF Cons.prems, of row] obtain b1 where b1: "bloom_insert E row b = Some b1" "bloom_covers E b1 (insert row S)" by blast
  from Cons.IH [OF b1(2)] b1(1) show ?case by simp
qed simp

text \<open>C14: the Bloom filter of the hash join never panics and has no false negatives, whatever the hash: a filter made for fewer than
  \<open>2 ^ 59\<close> rows takes any list of rows, and answers true for each of them afterwards.\<close>

theorem bloom_filter_has_no_false_negatives:
  assumes "expected_rows < 2 ^ 59"
  shows "\<exists>b b'. bloom_new expected_rows = Some b \<and> bloom_insert_all E rows b = Some b' \<and>
     (\<forall>row. might_contain E b' row \<noteq> None) \<and> (\<forall>row \<in> set rows. might_contain E b' row = Some True)"
proof -
  from bloom_new_total [OF assms] obtain b where b: "bloom_new expected_rows = Some b" by blast
  from bloom_insert_all_covers [OF bloom_new_covers [OF b], of E rows] obtain b' where
    b': "bloom_insert_all E rows b = Some b'" "bloom_covers E b' (set rows)" by auto
  have "might_contain E b' row \<noteq> None" for row using might_contain_total [OF b'(2), of row] by auto
  with b b' might_contain_covers [OF b'(2)] show ?thesis by blast
qed

theorem bloom_filter_has_no_false_negatives_witness:
  "\<exists>b b'. bloom_new 2 = Some b \<and> bloom_insert_all cells_engine [([Int32], [Some (CellInt 4)]), ([Int32], [Some (CellInt 9)])] b = Some b' \<and>
     might_contain cells_engine b' ([Int32], [Some (CellInt 9)]) = Some True"
  using bloom_filter_has_no_false_negatives [of 2 cells_engine "[([Int32], [Some (CellInt 4)]), ([Int32], [Some (CellInt 9)])]"] by auto

subsection \<open>The build side\<close>

text \<open>C7: building the hash join's index always succeeds on batches that have the key columns, and whichever of its indexes the
  build fills (dense tables, hash maps of single rows or of lists of rows, by one or two integers, by strings, by rows, or the set of keys
  of a semi join), that index holds exactly the rows of the build side that have no null key, each under its key and in the order of the
  input.\<close>

theorem build_fills_indexes_with_the_keyed_rows:
  assumes "row_format_ok E img" "join_side_ok keys types batches" "batches \<noteq> []"
    and "total_build_rows batches < 2 ^ 29" "\<not> (collect \<and> mode = BuildFastSemi)"
  shows "\<exists>build. build_hash_join_input E batches keys mode collect = Some (Inr build) \<and>
     jb_all_rows build = (if collect then all_refs batches else []) \<and>
     build_rep E img mode types (keyed_rows keys batches) build \<and> build_complete E img mode types (keyed_rows keys batches) build"
  using build_hash_join_input_rep [OF assms] by blast

theorem build_fills_indexes_with_the_keyed_rows_witness:
  "\<exists>build. build_hash_join_input cells_engine [left_keys_batch] [''k''] BuildFastSingleKey True = Some (Inr build) \<and>
     build_rep cells_engine Pair BuildFastSingleKey [Int32] (keyed_rows [''k''] [left_keys_batch]) build"
proof -
  have side: "join_side_ok [''k''] [Int32] [left_keys_batch]" using demo_sides_ok(1) by (simp add: join_side_ok_def)
  have total: "total_build_rows [left_keys_batch] < 2 ^ 29" by (simp add: total_build_rows_def demo_sides_ok(3))
  from build_fills_indexes_with_the_keyed_rows [OF cells_engine_ok side _ total, of True BuildFastSingleKey] obtain build where
    build: "build_hash_join_input cells_engine [left_keys_batch] [''k''] BuildFastSingleKey True = Some (Inr build)"
    "build_rep cells_engine Pair BuildFastSingleKey [Int32] (keyed_rows [''k''] [left_keys_batch]) build" by auto
  then show ?thesis by blast
qed


subsection \<open>The stream\<close>


lemma demo_arrays: "key_arrays left_keys_batch [''k''] = Some (Inr [PlainArray Int32 [Some (CellInt 1), None, Some (CellInt 3)]])"
  by (simp add: left_keys_batch_def key_batch_arrays_k)

lemma demo_non_empty: "non_empty_batches [left_keys_batch] = [left_keys_batch]" "non_empty_batches [right_keys_batch] = [right_keys_batch]"
  by (simp_all add: non_empty_batches_def demo_sides_ok)


text \<open>C39: a build side without rows ends the stream at once, whatever the join type: an outer join that keeps the rows of the other
  side returns nothing instead of these rows.\<close>

theorem empty_build_side_gives_nothing:
  assumes "non_empty_batches builds = []"
  shows "hash_join_collect E out (stream_over side jt (map Inr builds) build_keys input probe_keys) = Some (Inr [])"
  unfolding collect_next [of E out "stream_over side jt (map Inr builds) build_keys input probe_keys"]
  by (simp add: hash_join_next_def hash_join_start_def stream_over_sel collect_non_empty assms)

theorem empty_build_side_gives_nothing_witness:
  "hash_join_collect cells_engine (piece_output BuildRight)
     (stream_over BuildRight JoinLeft (map Inr [key_batch Int32 []]) [''k''] [Inr left_keys_batch] [''k'']) = Some (Inr []) \<and>
   join_unmatched_rows JoinLeft BuildRight (probe_matches [''k''] left_keys_batch (keyed_rows [''k''] [])) [0..<3] = [0, 1, 2]"
proof -
  have "non_empty_batches [key_batch Int32 []] = []" by (simp add: non_empty_batches_def)
  moreover have "probe_matches [''k''] left_keys_batch (keyed_rows [''k''] []) row = []" for row
    by (simp add: probe_matches_def keyed_rows_def split: option.split)
  ultimately show ?thesis using empty_build_side_gives_nothing [of "[key_batch Int32 []]"]
    by (simp add: join_unmatched_rows_def emits_unmatched_probe_def upt_rec)
qed

text \<open>C40: a left join whose build side is the left one, over keys 1, null and 3 on the left and 3 and 5 on the right: the stream returns
  the pair of the 3s and the left row with key 1, and loses the left row whose key is null, which a left join must keep.\<close>

theorem dense_build_loses_null_keys:
  "hash_join_collect cells_engine (piece_output BuildLeft)
     (stream_over BuildLeft JoinLeft (map Inr [left_keys_batch]) [''k''] [Inr right_keys_batch] [''k'']) =
   Some (Inr [(right_keys_batch, PiecePairs [0] [demo_ref 2]), (right_keys_batch, PieceUnmatchedBuild [demo_ref 0])])"
proof -
  obtain bloom where bloom: "bloom_new 3 = Some bloom" using bloom_new_total [of 3] by auto
  define build :: "(data_type list \<times> cell option list) hash_join_build" where
    "build = (empty_hash_join_build [left_keys_batch] [Int32] [demo_ref 0, demo_ref 1, demo_ref (Suc 1)] bloom)
       \<lparr>jb_i32_dense_unique_rows := Some (DenseSparse 1 [Some (demo_ref 0), None, Some (demo_ref (Suc 1))]), jb_i32_dense_rows := None\<rparr>"
  have "bloom_new (Suc (Suc (Suc 0))) = Some bloom" using bloom by (simp add: numeral_3_eq_3)
  then have "try_build_dense_i32_hash_join_input [left_keys_batch] [''k''] True = Some (Inr (Some build))"
    by (simp add: try_build_dense_i32_hash_join_input_def left_keys_batch_def key_batch_column total_build_rows_def expect_def upt_rec
        scan_i32_row_def is_null_at_def value_at_def vec_get_def dense_width_limit_def u64_sat_def push_dense_batch_def push_dense_row_def
        i32_offset_def i32_checked_def is_i32_def as_usize_def update_Cons_numeral replicate_numeral_Cons Let_def finish_dense_i32_def
        pop_ref_def build_def demo_ref_def)
  then have built: "build_hash_join_input cells_engine (non_empty_batches [left_keys_batch]) [''k''] (hash_build_mode_for JoinLeft)
      (should_emit_unmatched_build JoinLeft BuildLeft) = Some (Inr build)"
    by (simp add: demo_non_empty build_hash_join_input_def expect_def vec_get_def key_data_types_def demo_arrays
        hash_build_mode_for_def should_emit_unmatched_build_def)
  have "hash_join_collect cells_engine (piece_output BuildLeft)
      (stream_over BuildLeft JoinLeft (map Inr [left_keys_batch]) [''k''] [Inr right_keys_batch] [''k'']) =
      join_batches cells_engine (piece_output BuildLeft) build [''k''] BuildLeft JoinLeft [Inr right_keys_batch] None
        (Some (TrackDenseI32 1 [False, False, False] 0))"
    using collect_started [OF _ built, of "piece_output BuildLeft" "[Inr right_keys_batch]" "[''k'']"]
    by (simp add: demo_non_empty should_track_matched_build_def should_emit_unmatched_build_def tracker_for_build_def build_def)
  moreover have "probe_hash_join_batches cells_engine (out_context (piece_output BuildLeft) build right_keys_batch) right_keys_batch build [''k'']
      BuildLeft JoinLeft (Some (TrackDenseI32 1 [False, False, False] 0)) None None =
      Some (Inr ((initial_probe_state (Some (TrackDenseI32 1 [False, False, True] 1)) None)
        \<lparr>ps_output := [(right_keys_batch, PiecePairs [0] [demo_ref (Suc 1)])]\<rparr>))"
    by (simp add: probe_hash_join_batches_def build_def empty_hash_join_build_def probe_i32_dense_unique_hash_join_batches_def single_key_def
        probe_column_def right_keys_batch_def key_batch_column expect_def piece_output_def Let_def null_count_def probe_blocks_rows upt_rec
        probe_row_def value_at_def dense_i32_get_def i32_checked_def is_i32_def as_usize_def vec_get_def push_hash_join_pair_def
        join_output_chunk_rows_def mark_tracker_def mark_i32_key_def push_unmatched_probe_match_def emits_unmatched_probe_def
        initial_probe_state_def finish_pairs_def finish_unmatched_def flush_pairs_def emit_piece_def update_Cons_numeral)
  moreover have "emit_unmatched_build_if_needed build (Some (TrackDenseI32 1 [False, False, True] 1)) BuildLeft JoinLeft
      (out_unmatched_build (piece_output BuildLeft) build) (Some right_keys_batch) False =
      Some (Inr ([(right_keys_batch, PieceUnmatchedBuild [demo_ref 0])], True))"
    by (simp add: emit_unmatched_build_if_needed_def should_emit_unmatched_build_def all_dense_i32_matched_def unmatched_build_refs_def build_def
        empty_hash_join_build_def List.map_filter_def slot_matched_def vec_get_def join_output_chunk_rows_def piece_output_def)
  ultimately show ?thesis
    by (simp add: demo_sides_ok initial_probe_state_def numeral_2_eq_2 Let_def)
qed

end
