(* ===== verification/Spec2Isabelle.thy ===== *)
theory Spec2Isabelle
  imports Hashing Dense_Rank Filter_Parser Local_Execution Join_Pushdown Join_Bushy Row_Group_Pruning Hash_Join
begin

text \<open>
  A verification library for \<open>dodam\<close>, an analytical query engine written in Rust.

  \<^bold>\<open>The program.\<close>  A query becomes a logical plan (\<open>src/plan.rs\<close>) over expressions (\<open>src/execution/logical.rs\<close>);
  the optimizer (\<open>src/optimizer.rs\<close>) rewrites it, the planner makes a physical plan of it, cuts that at its
  exchanges into stages and the stages into tasks, and the engine (\<open>src/engine.rs\<close>) runs the tasks in dependency
  order, passing rows between stages through shuffle files.  A scan (\<open>src/storage.rs\<close>) skips row groups by their
  statistics, and filters (\<open>src/execution/physical.rs\<close>) are evaluated on record batches or on views of raw columns
  (\<open>src/vector.rs\<close>).  Joins of several tables are ordered by a join graph,
  and joins of two tables push their filters and columns into their inputs.  The cost model (\<open>src/cost.rs\<close>)
  chooses join strategies and buffer sizes, and keyed operators use the dense containers of \<open>src/dense.rs\<close> and
  the hasher of \<open>src/hash.rs\<close>.

  \<^bold>\<open>The theories.\<close>
  \<^item> \<open>Dodam_Prelude\<close>: the parts of the Rust standard library the code uses (checked and saturating integers,
    slices, \<open>Result\<close> and its loops) with their lemmas; \<open>Rust_Strings\<close>: string functions and decimal numbers.
  \<^item> \<open>Hashing\<close> (\<open>hash.rs\<close>): the state of \<open>FastHasher\<close> as a 64-bit word; integers hash without collisions.
  \<^item> \<open>Dense_Bits\<close>, \<open>Dense_Set\<close>, \<open>Dense_Map\<close>, \<open>Dense_Range_Map\<close>, \<open>Dense_Rank\<close> (\<open>dense.rs\<close>): bitmaps, adaptive sets
    and maps, range maps and rank maps with their dense and fallback representations.  The sets and maps are
    instances of the locales \<open>i64_set\<close> and \<open>i64_map\<close>; the switch of representation never changes a lookup, and
    the parallel construction of a rank map equals the sequential one.
  \<^item> \<open>Logical_Expr\<close>, \<open>Filter_Parser\<close> (\<open>execution/logical.rs\<close>, \<open>error.rs\<close>): expressions, aggregates, sort keys, the
    tokenizer and the recursive descent parser of filters; printing a filter and parsing it returns it, every
    text is parsed or rejected, and the pruning range of a \<open>LIKE\<close> prefix is exact.
  \<^item> \<open>Cost_Model\<close> (\<open>cost.rs\<close>): the decisions on memory and join strategies that use integers only.
  \<^item> \<open>Plan_Types\<close>, \<open>Physical_Planner\<close>, \<open>Stage_Planner\<close> (\<open>plan.rs\<close>, \<open>catalog.rs\<close>): plans, the planner and its
    exchanges, stages and tasks; operators other than plain joins, which get no exchange, find their inputs distributed
    as they need, stages form a tree in dependency order, and tasks read every shuffle partition once when the partition counts agree.
  \<^item> \<open>Shuffle_Store\<close>, \<open>Local_Execution\<close> (\<open>engine.rs\<close>): shuffle files, hash repartitioning and the scheduler of
    stages; what is written is read back, and a planned query runs to its end unless one of its tasks fails by
    itself, so no error comes from the scheduling.
  \<^item> \<open>Optimizer\<close>, \<open>Plan_Semantics\<close> (\<open>optimizer.rs\<close>): the rewriting rules and the meaning of plans as the set of row
    lists their execution may return; the optimizer keeps that set.
  \<^item> \<open>Join_Pushdown\<close> (\<open>optimizer.rs\<close>, \<open>sql/direct_join_sink.rs\<close>): filters and columns pushed into the inputs of a
    join; sound for inner joins, unsound for left joins.
  \<^item> \<open>Join_Order\<close>, \<open>Join_Bushy\<close> (\<open>optimizer.rs\<close>, \<open>sql/comma_join.rs\<close>, \<open>sql/join_lookup_fusion.rs\<close>): join ordering;
    the branch-and-bound search is optimal, connected graphs are always ordered, and the dynamic program returns
    trees that hold every table once.
  \<^item> \<open>Like_Matching\<close>, \<open>Filter_Literals\<close> (\<open>execution/physical.rs\<close>): \<open>LIKE\<close> by segments and by a dynamic program, which
    decide the language of the pattern; decimal, date and timestamp literals, and the calendar behind them.
  \<^item> \<open>Vector_Views\<close> (\<open>vector.rs\<close>): arrays, batches, views of raw columns behind one interface (the locale
    \<open>le_reader\<close>), dictionary lookups, and selections as runs of rows.
  \<^item> \<open>Filter_Eval\<close>, \<open>Filter_View_Masks\<close> (\<open>execution/physical.rs\<close>): the evaluation of filters on batches, which selects
    the rows on which the filter holds in \<open>Plan_Semantics\<close>, and the one on views, which agrees with it
    except on empty lists.
  \<^item> \<open>Row_Group_Pruning\<close> (\<open>storage.rs\<close>): the row groups a scan reads; no row that satisfies the predicates is lost,
    except for negative zeros and \<open>NaN\<close>, so a pruned scan is a scan in the sense of \<open>Plan_Semantics\<close>.

  \<^item> \<open>Join_Index\<close>, \<open>Join_Build\<close>, \<open>Join_Probe\<close>, \<open>Join_Correct\<close>, \<open>Join_Stream\<close>, \<open>Hash_Join\<close> (\<open>execution/physical.rs\<close>): the
    in-memory hash join.  \<open>Join_Index\<close> has the hash maps and dense tables a build side may use, instances of the
    locales \<open>join_index\<close> and \<open>join_index_builder\<close>; \<open>Join_Build\<close> the Bloom filter, the frequent keys, the tracker of
    matched rows and \<open>build_hash_join_input\<close>; \<open>Join_Probe\<close> the fourteen typed probe loops, the general one and the
    choice between them; \<open>Join_Correct\<close> shows that each of them is the reference join of a batch, \<open>Join_Stream\<close> that
    the iterator \<open>HashJoinStream\<close> is the join of its inputs, and \<open>Hash_Join\<close> states the properties.

  \<^bold>\<open>Conventions.\<close>  Integers of the code are \<open>int\<close> or \<open>nat\<close> with the checked, saturating or wrapping operation
  written out, and words where the code works on bits.  Errors are values of \<open>dodam_error\<close> in the left summand.
  Loops are recursive functions with termination proofs; no model uses fuel, except the search for a coalescing
  gap, which diverges on one input and is a partial function, and the search for the next power of two, which has the
  64 powers of a machine word to try.  An index out of bounds or a failed \<open>expect\<close> is
  \<open>None\<close> where the theorems exclude it.  The kernels of Arrow, its row format (\<open>row_format_ok\<close>), the
  materialization of join output (\<open>output_ok\<close>), the search of \<open>memchr\<close>, files and floating point functions are parameters with the assumptions the theorems name, such as \<open>kernels_ok\<close> and \<open>finder_ok\<close>.
  Running the operator tree of a task (\<open>execute_physical_plan_node\<close> and what it lowers) is the parameter \<open>exec\<close> of
  \<open>Local_Execution\<close>, of which nothing is assumed.  Four simplifications remain: \<open>to_lowercase\<close> is that of ASCII; the bits of
  join edges are numbered without bound, while the code has 64 of them; the difference of two decimal scales is an
  unbounded integer, while the code has eight bits for it; and the row format is assumed to accept every type
  of key.

  \<^bold>\<open>Not modelled.\<close>  Reading and writing Parquet and CSV files, the aggregation kernels, sorting, the sort-merge,
  nested loop and partitioned joins, the gathering of join output into record batches, the SQL front end, the special-purpose query paths under \<open>src/sql\<close>, floating point estimates, environment variables (they are
  parameters), tracing, and metrics.
\<close>

end
